(* ===== verification/OS161_Prelude.thy ===== *)
theory OS161_Prelude
  imports Main "HOL-Library.Word" "HOL-Library.Monad_Syntax"
begin

unbundle bit_operations_syntax

section \<open>Prelude of the OS/161 kernel development\<close>

text \<open>
  What the component theories share: the kernel's integer and address types, its error
  codes (\<open>kern/include/kern/errno.h\<close>), the convention for calls that do not return, the
  macros of \<open>kern/include/lib.h\<close> and \<open>kern/arch/mips/include/vm.h\<close>, and generic lemmas on
  options, lists and words.

  Conventions.
  \<^item> A kernel function that can panic, fail a \<open>KASSERT\<close>, loop for ever or touch memory
    outside the object it was given returns an \<open>option\<close>: \<open>None\<close> is "this call has no defined
    result". A theorem that a call equals \<open>Some \<dots>\<close> therefore says, among other things, that
    no assertion fails, that every loop ends and that every access is in bounds.
  \<^item> A function that returns 0 or an error code, with its result behind a pointer, returns
    a sum: \<open>Inl e\<close> is the error code, \<open>Inr r\<close> success with the stored result.
  \<^item> Every call of \<open>kmalloc\<close> in a client is an argument of the client's definition: the
    block handed back, or \<open>None\<close> for \<open>NULL\<close>. The theorems hold for every outcome.
  \<^item> C's 32-bit \<open>unsigned\<close> and \<open>size_t\<close> are \<open>nat\<close> with the reduction modulo
    \<open>2 ^ 32\<close> written out where a result can leave the range; \<open>int\<close> is likewise reduced with
    \<open>swrap32\<close>; addresses, flags and bytes are words.
\<close>

named_theorems kern_defs \<open>unfolding equations of the small kernel macros\<close>

subsection \<open>Integer types and wrap-around\<close>

type_synonym u8 = "8 word"
type_synonym u16 = "16 word"
type_synonym u32 = "32 word"
type_synonym u64 = "64 word"
type_synonym vaddr = u32
type_synonym paddr = u32

definition wrap32 :: "nat \<Rightarrow> nat" where
  "wrap32 n = n mod 2 ^ 32"

definition swrap32 :: "int \<Rightarrow> int" where
  "swrap32 i = (i + 2 ^ 31) mod 2 ^ 32 - 2 ^ 31"

text \<open>Unsigned subtraction of 32-bit values.\<close>

definition sub32 :: "nat \<Rightarrow> nat \<Rightarrow> nat" where
  "sub32 a b = wrap32 (a + 2 ^ 32 - b)"

lemma wrap32_id [simp]: "n < 2 ^ 32 \<Longrightarrow> wrap32 n = n"
  by (simp add: wrap32_def)

lemma wrap32_less [simp]: "wrap32 n < 2 ^ 32"
  by (simp add: wrap32_def)

lemma sub32_le: "b \<le> a \<Longrightarrow> a < 2 ^ 32 \<Longrightarrow> sub32 a b = a - b"
  by (simp add: sub32_def wrap32_def mod_if)

lemma swrap32_id [simp]: "- (2 ^ 31) \<le> i \<Longrightarrow> i < 2 ^ 31 \<Longrightarrow> swrap32 i = i"
  by (simp add: swrap32_def)

subsection \<open>Macros of lib.h\<close>

text \<open>\<open>DIVROUNDUP\<close> on unsigned operands: the sum wraps.\<close>

definition DIVROUNDUP :: "nat \<Rightarrow> nat \<Rightarrow> nat" where
  "DIVROUNDUP a b = wrap32 (a + b - 1) div b"

text \<open>\<open>KASSERT\<close>, used in a \<open>do\<close> block: a failed assertion panics.\<close>

definition kassert :: "bool \<Rightarrow> unit option" where
  "kassert b = (if b then Some () else None)"

abbreviation panic :: "'a option" where
  "panic \<equiv> None"

lemma kassert_simps [simp]:
  "kassert True = Some ()"
  "kassert False = None"
  by (simp_all add: kassert_def)

lemma kassert_eq_Some [simp]: "kassert b = Some u \<longleftrightarrow> b"
  by (simp add: kassert_def)

lemma kassert_bind_eq_Some [simp]:
  "kassert b \<bind> f = Some r \<longleftrightarrow> b \<and> f () = Some r"
  by (simp add: kassert_def)

lemma kassert_bind_eq_None:
  "kassert b \<bind> f = None \<longleftrightarrow> (b \<longrightarrow> f () = None)"
  by (simp add: kassert_def)

subsection \<open>Checked access to a block of memory\<close>

text \<open>
  Reading or writing a slot of a block outside its bounds is undefined in C, hence \<open>None\<close>.
\<close>

definition slot_get :: "'a list \<Rightarrow> nat \<Rightarrow> 'a option" where
  "slot_get xs i = (if i < length xs then Some (xs ! i) else None)"

definition slot_set :: "'a list \<Rightarrow> nat \<Rightarrow> 'a \<Rightarrow> 'a list option" where
  "slot_set xs i x = (if i < length xs then Some (xs[i := x]) else None)"

lemma slot_get_eq_Some [simp]:
  "slot_get xs i = Some x \<longleftrightarrow> i < length xs \<and> x = xs ! i"
  by (auto simp: slot_get_def)

lemma slot_get_in [simp]: "i < length xs \<Longrightarrow> slot_get xs i = Some (xs ! i)"
  by (simp add: slot_get_def)

lemma slot_set_in [simp]: "i < length xs \<Longrightarrow> slot_set xs i x = Some (xs[i := x])"
  by (simp add: slot_set_def)

lemma slot_set_eq_Some [simp]:
  "slot_set xs i x = Some ys \<longleftrightarrow> i < length xs \<and> ys = xs[i := x]"
  by (auto simp: slot_set_def)

text \<open>
  The outcome of a call of \<open>kmalloc\<close> in a client: \<open>None\<close> for \<open>NULL\<close>, or \<open>Some junk\<close> with
  the contents the cells of the fresh block happen to have. A block of \<open>n\<close> cells has room for
  exactly \<open>n\<close> cells.
\<close>

type_synonym 'a kmem = "(nat \<Rightarrow> 'a) option"

definition kblock :: "(nat \<Rightarrow> 'a) \<Rightarrow> nat \<Rightarrow> 'a list" where
  "kblock junk n = map junk [0..<n]"

lemma length_kblock [simp]: "length (kblock junk n) = n"
  by (simp add: kblock_def)

lemma nth_kblock [simp]: "i < n \<Longrightarrow> kblock junk n ! i = junk i"
  by (simp add: kblock_def)

text \<open>\<open>memcpy\<close> and \<open>memmove\<close> of \<open>n\<close> cells between two blocks or within one, in bounds.\<close>

definition blk_copy :: "'a list \<Rightarrow> 'a list \<Rightarrow> nat \<Rightarrow> 'a list option" where
  "blk_copy dst src n =
     (if n \<le> length dst \<and> n \<le> length src then Some (take n src @ drop n dst) else None)"

definition blk_move :: "'a list \<Rightarrow> nat \<Rightarrow> nat \<Rightarrow> nat \<Rightarrow> 'a list option" where
  "blk_move xs to frm n =
     (if to + n \<le> length xs \<and> frm + n \<le> length xs
      then Some (take to xs @ take n (drop frm xs) @ drop (to + n) xs) else None)"

subsection \<open>Error codes\<close>

datatype (plugins only: code size) errno =
    ENOSYS | EUNIMP | ENOMEM | EAGAIN | EINTR | EFAULT | ENAMETOOLONG | EINVAL
  | EPERM | EACCES | EMPROC | ENPROC | ENOEXEC | E2BIG | ESRCH | ECHILD
  | ENOTDIR | EISDIR | ENOENT | ELOOP | ENOTEMPTY | EEXIST | EMLINK | EXDEV
  | ENODEV | ENXIO | EBUSY | EMFILE | ENFILE | EBADF | EIOCTL | EIO
  | ESPIPE | EPIPE | EROFS | ENOSPC | EDQUOT | EFBIG | EFTYPE | EDOM
  | ERANGE | EILSEQ | ENOTSOCK | EISSOCK | EISCONN | ENOTCONN | ESHUTDOWN | EPFNOSUPPORT
  | ESOCKTNOSUPPORT | EPROTONOSUPPORT | EPROTOTYPE | EAFNOSUPPORT | ENOPROTOOPT
  | EADDRINUSE | EADDRNOTAVAIL | ENETDOWN | ENETUNREACH | EHOSTDOWN | EHOSTUNREACH
  | ECONNREFUSED | ETIMEDOUT | ECONNRESET | EMSGSIZE | ENOTSUP

type_synonym 'a kresult = "errno + 'a"

end
