(* ===== verification/Kern_Spinlock.thy ===== *)
theory Kern_Spinlock
  imports OS161_Prelude
begin

section \<open>Interrupt levels and spinlocks: \<open>kern/thread/spl.c\<close>, \<open>kern/thread/spinlock.c\<close>\<close>

text \<open>
  A CPU runs one thread; the interrupt state is kept in the thread. \<open>irq_on\<close> is the hardware
  flag that \<open>cpu_irqoff\<close> and \<open>cpu_irqon\<close> set. The argument \<open>mycpu\<close> is \<open>curcpu\<close>, \<open>None\<close> before
  it is initialised. The spin loop is modelled one round at a time: a round that does not get
  the lock word leaves the caller spinning, with interrupts off.

  The lemmas show that interrupts are off exactly while the thread holds a spinlock or has
  raised its level, however acquisitions, releases and \<open>splx\<close> calls interleave.
\<close>

subsection \<open>The code\<close>

definition IPL_NONE :: nat where "IPL_NONE = 0"
definition IPL_HIGH :: nat where "IPL_HIGH = 1"

type_synonym cpu = nat

record thread_ipl =
  t_curspl :: nat
  t_iplhigh_count :: int
  irq_on :: bool

definition cpu_irqoff :: "thread_ipl \<Rightarrow> thread_ipl" where
  "cpu_irqoff t = t\<lparr>irq_on := False\<rparr>"

definition cpu_irqon :: "thread_ipl \<Rightarrow> thread_ipl" where
  "cpu_irqon t = t\<lparr>irq_on := True\<rparr>"

definition splraise :: "cpu option \<Rightarrow> thread_ipl \<Rightarrow> nat \<Rightarrow> nat \<Rightarrow> thread_ipl option" where
  "splraise mycpu cur oldspl newspl = do {
     kassert (oldspl = IPL_NONE);
     kassert (newspl = IPL_HIGH);
     (if mycpu = None then Some cur
      else
        let cur' = (if t_iplhigh_count cur = 0 then cpu_irqoff cur else cur)
        in Some (cur'\<lparr>t_iplhigh_count := t_iplhigh_count cur' + 1\<rparr>))
   }"

definition spllower :: "cpu option \<Rightarrow> thread_ipl \<Rightarrow> nat \<Rightarrow> nat \<Rightarrow> thread_ipl option" where
  "spllower mycpu cur oldspl newspl = do {
     kassert (oldspl = IPL_HIGH);
     kassert (newspl = IPL_NONE);
     (if mycpu = None then Some cur
      else
        let cur' = cur\<lparr>t_iplhigh_count := t_iplhigh_count cur - 1\<rparr>
        in Some (if t_iplhigh_count cur' = 0 then cpu_irqon cur' else cur'))
   }"

definition splx :: "cpu option \<Rightarrow> thread_ipl \<Rightarrow> nat \<Rightarrow> (nat \<times> thread_ipl) option" where
  "splx mycpu cur spl =
     (if t_curspl cur < spl then
        do {
          cur' \<leftarrow> splraise mycpu cur (t_curspl cur) spl;
          Some (t_curspl cur', cur'\<lparr>t_curspl := spl\<rparr>)
        }
      else if t_curspl cur > spl then
        do {
          let ret = t_curspl cur;
          cur' \<leftarrow> spllower mycpu (cur\<lparr>t_curspl := spl\<rparr>) ret spl;
          Some (ret, cur')
        }
      else Some (spl, cur))"

definition spl0 :: "cpu option \<Rightarrow> thread_ipl \<Rightarrow> (nat \<times> thread_ipl) option" where
  "spl0 mycpu cur = splx mycpu cur IPL_NONE"

definition splhigh :: "cpu option \<Rightarrow> thread_ipl \<Rightarrow> (nat \<times> thread_ipl) option" where
  "splhigh mycpu cur = splx mycpu cur IPL_HIGH"

record spinlock =
  lk_lock :: nat
  lk_holder :: "cpu option"

definition spinlock_data_set :: "spinlock \<Rightarrow> nat \<Rightarrow> spinlock" where
  "spinlock_data_set lk val = lk\<lparr>lk_lock := val\<rparr>"

definition spinlock_data_get :: "spinlock \<Rightarrow> nat" where
  "spinlock_data_get lk = lk_lock lk"

text \<open>\<open>sc\<close> tells whether the store-conditional of the test-and-set succeeds.\<close>

definition spinlock_data_testandset :: "bool \<Rightarrow> spinlock \<Rightarrow> nat \<times> spinlock" where
  "spinlock_data_testandset sc lk = (if \<not> sc then (1, lk) else (lk_lock lk, lk\<lparr>lk_lock := 1\<rparr>))"

definition spinlock_init :: spinlock where
  "spinlock_init = \<lparr>lk_lock = 0, lk_holder = None\<rparr>"

definition spinlock_cleanup :: "spinlock \<Rightarrow> unit option" where
  "spinlock_cleanup lk = do {
     kassert (lk_holder lk = None);
     kassert (spinlock_data_get lk = 0)
   }"

text \<open>
  One round of the loop of \<open>spinlock_acquire\<close>; the flag says whether the lock was obtained.
\<close>

definition spinlock_round :: "bool \<Rightarrow> cpu option \<Rightarrow> spinlock \<Rightarrow> bool \<times> spinlock" where
  "spinlock_round sc mycpu lk =
     (if spinlock_data_get lk \<noteq> 0 then (False, lk)
      else
        let (old, lk') = spinlock_data_testandset sc lk in
        if old \<noteq> 0 then (False, lk') else (True, lk'\<lparr>lk_holder := mycpu\<rparr>))"

definition spinlock_acquire_begin :: "cpu option \<Rightarrow> thread_ipl \<Rightarrow> spinlock \<Rightarrow> thread_ipl option" where
  "spinlock_acquire_begin mycpu cur lk = do {
     cur' \<leftarrow> splraise mycpu cur IPL_NONE IPL_HIGH;
     kassert (mycpu = None \<or> lk_holder lk \<noteq> mycpu);
     Some cur'
   }"

text \<open>
  \<open>spinlock_acquire\<close> takes effect in the round that gets the lock word; \<open>Some None\<close> while the word
  is taken and the caller spins.
\<close>

definition spinlock_acquire ::
  "cpu option \<Rightarrow> thread_ipl \<Rightarrow> spinlock \<Rightarrow> (thread_ipl \<times> spinlock) option option" where
  "spinlock_acquire mycpu cur lk = do {
     cur' \<leftarrow> spinlock_acquire_begin mycpu cur lk;
     let (got, lk') = spinlock_round True mycpu lk;
     Some (if got then Some (cur', lk') else None)
   }"

definition spinlock_release :: "cpu option \<Rightarrow> thread_ipl \<Rightarrow> spinlock \<Rightarrow> (thread_ipl \<times> spinlock) option" where
  "spinlock_release mycpu cur lk = do {
     kassert (mycpu = None \<or> lk_holder lk = mycpu);
     cur' \<leftarrow> spllower mycpu cur IPL_HIGH IPL_NONE;
     Some (cur', spinlock_data_set (lk\<lparr>lk_holder := None\<rparr>) 0)
   }"

definition spinlock_do_i_hold :: "cpu option \<Rightarrow> spinlock \<Rightarrow> bool" where
  "spinlock_do_i_hold mycpu lk \<longleftrightarrow> mycpu = None \<or> lk_holder lk = mycpu"

subsection \<open>Spinlocks\<close>

definition spinlock_wf :: "spinlock \<Rightarrow> bool" where
  "spinlock_wf lk \<longleftrightarrow> lk_lock lk = (if lk_holder lk = None then 0 else 1)"

lemma spinlock_init_wf [simp]: "spinlock_wf spinlock_init" "lk_holder spinlock_init = None"
  by (simp_all add: spinlock_wf_def spinlock_init_def)

text \<open>A round obtains the lock only when nobody has it, and a failed round changes nothing.\<close>

lemma spinlock_round_wf:
  assumes "spinlock_wf lk" and "spinlock_round sc (Some c) lk = (got, lk')"
  shows "spinlock_wf lk'" and "got \<Longrightarrow> lk_holder lk = None \<and> lk_holder lk' = Some c" and "\<not> got \<Longrightarrow> lk' = lk"
  using assms by (auto simp: spinlock_round_def spinlock_wf_def spinlock_data_get_def spinlock_data_testandset_def
      split: if_splits prod.splits)

lemma spinlock_acquire_cases:
  assumes "spinlock_wf lk"
  shows "spinlock_acquire (Some c) cur lk =
    (if lk_holder lk = Some c then None
     else if lk_holder lk \<noteq> None then Some None
     else Some (Some (cur\<lparr>irq_on := (irq_on cur \<and> t_iplhigh_count cur \<noteq> 0), t_iplhigh_count := t_iplhigh_count cur + 1\<rparr>,
                      \<lparr>lk_lock = 1, lk_holder = Some c\<rparr>)))"
proof -
  have "lk = \<lparr>lk_lock = lk_lock lk, lk_holder = lk_holder lk\<rparr>" by simp
  then show ?thesis
    using assms
    by (auto simp: spinlock_acquire_def spinlock_acquire_begin_def splraise_def IPL_NONE_def IPL_HIGH_def cpu_irqoff_def
        spinlock_round_def spinlock_data_get_def spinlock_data_testandset_def spinlock_wf_def Let_def kassert_def
        split: if_splits)
qed

lemma spinlock_release_cases:
  "spinlock_release (Some c) cur lk =
    (if lk_holder lk \<noteq> Some c then None
     else Some (cur\<lparr>irq_on := (irq_on cur \<or> t_iplhigh_count cur = 1), t_iplhigh_count := t_iplhigh_count cur - 1\<rparr>,
                spinlock_init))"
  by (auto simp: spinlock_release_def spllower_def IPL_NONE_def IPL_HIGH_def cpu_irqon_def spinlock_init_def
      spinlock_data_set_def Let_def kassert_def)

subsection \<open>The interrupt level\<close>

text \<open>
  The thread has raised its level \<open>n\<close> times for spinlocks and perhaps once with \<open>splx\<close>;
  interrupts are on exactly when it has not raised it at all.
\<close>

definition ipl_ok :: "nat \<Rightarrow> thread_ipl \<Rightarrow> bool" where
  "ipl_ok n t \<longleftrightarrow> t_curspl t \<le> 1 \<and> t_iplhigh_count t = int n + int (t_curspl t) \<and>
     (irq_on t \<longleftrightarrow> t_iplhigh_count t = 0)"

lemma splx_ok:
  assumes "ipl_ok n t" and "spl \<le> 1"
  shows "\<exists>t'. splx (Some c) t spl = Some (t_curspl t, t') \<and> ipl_ok n t' \<and> t_curspl t' = spl"
  using assms
  by (auto simp: splx_def splraise_def spllower_def ipl_ok_def IPL_NONE_def IPL_HIGH_def Let_def
      cpu_irqoff_def cpu_irqon_def le_Suc_eq)

lemma acquire_ipl_ok:
  assumes "ipl_ok n t"
  shows "ipl_ok (Suc n) (t\<lparr>irq_on := (irq_on t \<and> t_iplhigh_count t \<noteq> 0), t_iplhigh_count := t_iplhigh_count t + 1\<rparr>)"
  using assms by (auto simp: ipl_ok_def)

lemma release_ipl_ok:
  assumes "ipl_ok (Suc n) t"
  shows "ipl_ok n (t\<lparr>irq_on := (irq_on t \<or> t_iplhigh_count t = 1), t_iplhigh_count := t_iplhigh_count t - 1\<rparr>)"
  using assms by (auto simp: ipl_ok_def)

text \<open>Sequences of calls by the thread that runs on CPU \<open>c\<close>, over the spinlocks of the kernel.\<close>

datatype spl_call = Splx nat | Acquire nat | Release nat

fun spl_run ::
  "cpu \<Rightarrow> spl_call list \<Rightarrow> thread_ipl \<times> (nat \<Rightarrow> spinlock) \<Rightarrow> (thread_ipl \<times> (nat \<Rightarrow> spinlock)) option" where
  "spl_run c [] (t, lks) = Some (t, lks)"
| "spl_run c (Splx spl # cs) (t, lks) = do { (old, t') \<leftarrow> splx (Some c) t spl; spl_run c cs (t', lks) }"
| "spl_run c (Acquire l # cs) (t, lks) = do {
     r \<leftarrow> spinlock_acquire (Some c) t (lks l);
     (t', lk) \<leftarrow> r;
     spl_run c cs (t', lks(l := lk))
   }"
| "spl_run c (Release l # cs) (t, lks) = do {
     (t', lk) \<leftarrow> spinlock_release (Some c) t (lks l);
     spl_run c cs (t', lks(l := lk))
   }"

definition held_by :: "cpu \<Rightarrow> (nat \<Rightarrow> spinlock) \<Rightarrow> nat set" where
  "held_by c lks = {l. lk_holder (lks l) = Some c}"

definition cpu_ok :: "cpu \<Rightarrow> thread_ipl \<times> (nat \<Rightarrow> spinlock) \<Rightarrow> bool" where
  "cpu_ok c s \<longleftrightarrow> (\<forall>l. spinlock_wf (snd s l)) \<and> finite (held_by c (snd s)) \<and>
     ipl_ok (card (held_by c (snd s))) (fst s)"

lemma held_by_update:
  "lk_holder (lks l) \<noteq> Some c \<Longrightarrow> lk_holder lk = Some c \<Longrightarrow> held_by c (lks(l := lk)) = insert l (held_by c lks)"
  "lk_holder lk \<noteq> Some c \<Longrightarrow> held_by c (lks(l := lk)) = held_by c lks - {l}"
  by (auto simp: held_by_def)

lemma cpu_ok_acquire:
  assumes "cpu_ok c (t, lks)" and "spinlock_acquire (Some c) t (lks l) = Some (Some (t', lk))"
  shows "cpu_ok c (t', lks(l := lk))"
proof -
  have wf: "spinlock_wf (lks l)" and lk: "lk_holder (lks l) = None" "lk_holder lk = Some c" "spinlock_wf lk"
    and t': "t' = t\<lparr>irq_on := (irq_on t \<and> t_iplhigh_count t \<noteq> 0), t_iplhigh_count := t_iplhigh_count t + 1\<rparr>"
    using assms by (auto simp: cpu_ok_def spinlock_acquire_cases spinlock_wf_def split: if_splits)
  have "l \<notin> held_by c lks" using lk by (simp add: held_by_def)
  then have "ipl_ok (card (insert l (held_by c lks))) t'"
    using assms(1) acquire_ipl_ok [of "card (held_by c lks)" t] unfolding t' by (simp add: cpu_ok_def)
  moreover have "held_by c (lks(l := lk)) = insert l (held_by c lks)" using lk by (simp add: held_by_update)
  ultimately show ?thesis using assms(1) lk(3) by (simp add: cpu_ok_def)
qed

lemma cpu_ok_release:
  assumes "cpu_ok c (t, lks)" and "spinlock_release (Some c) t (lks l) = Some (t', lk)"
  shows "cpu_ok c (t', lks(l := lk))"
proof -
  have lk: "lk_holder (lks l) = Some c" "lk = spinlock_init"
    and t': "t' = t\<lparr>irq_on := (irq_on t \<or> t_iplhigh_count t = 1), t_iplhigh_count := t_iplhigh_count t - 1\<rparr>"
    using assms by (auto simp: spinlock_release_cases split: if_splits)
  have "l \<in> held_by c lks" using lk by (simp add: held_by_def)
  then have "card (held_by c lks) = Suc (card (held_by c lks - {l}))"
    using assms(1) by (intro card.remove) (simp_all add: cpu_ok_def)
  then have "ipl_ok (Suc (card (held_by c lks - {l}))) t" using assms(1) by (simp add: cpu_ok_def)
  then have "ipl_ok (card (held_by c lks - {l})) t'" unfolding t' by (rule release_ipl_ok)
  moreover have "held_by c (lks(l := lk)) = held_by c lks - {l}" using lk(2) by (simp add: held_by_update)
  ultimately show ?thesis using assms(1) lk(2) by (simp add: cpu_ok_def)
qed

lemma spl_run_ok:
  "cpu_ok c s \<Longrightarrow> spl_run c cs s = Some s' \<Longrightarrow> \<forall>spl. Splx spl \<in> set cs \<longrightarrow> spl \<le> 1 \<Longrightarrow> cpu_ok c s'"
proof (induction c cs s rule: spl_run.induct)
  case (1 c t lks)
  then show ?case by simp
next
  case (2 c spl cs t lks)
  have "ipl_ok (card (held_by c lks)) t" "spl \<le> 1" using 2(2,4) by (simp_all add: cpu_ok_def)
  from splx_ok [OF this] obtain t' where
    t': "splx (Some c) t spl = Some (t_curspl t, t')" "ipl_ok (card (held_by c lks)) t'" by blast
  have "cpu_ok c (t', lks)" using 2(2) t'(2) by (simp add: cpu_ok_def)
  from 2(1) [OF t'(1) refl this] t'(1) 2(3,4) show ?case by simp
next
  case (3 c l cs t lks)
  from 3(3) obtain t' lk where
    a: "spinlock_acquire (Some c) t (lks l) = Some (Some (t', lk))" "spl_run c cs (t', lks(l := lk)) = Some s'"
    by (auto simp: bind_eq_Some_conv)
  from 3(1) [OF _ _ _ cpu_ok_acquire [OF 3(2) a(1)] a(2)] a(1) 3(4) show ?case by simp
next
  case (4 c l cs t lks)
  from 4(3) obtain t' lk where
    a: "spinlock_release (Some c) t (lks l) = Some (t', lk)" "spl_run c cs (t', lks(l := lk)) = Some s'"
    by (auto simp: bind_eq_Some_conv)
  from 4(1) [OF _ _ cpu_ok_release [OF 4(2) a(1)] a(2)] a(1) 4(4) show ?case by simp
qed

subsection \<open>Property\<close>

text \<open>
  C27. Interrupts and spinlocks. From a CPU that holds no spinlock and runs at \<open>IPL_NONE\<close> with
  interrupts on, after any sequence of \<open>splx\<close>, \<open>spinlock_acquire\<close> and \<open>spinlock_release\<close> calls
  that returns, however they nest, interrupts are on exactly when the level is \<open>IPL_NONE\<close> and
  the CPU holds no spinlock. In that state a call of \<open>splx\<close> never panics, the release of a lock
  the CPU holds succeeds and leaves it free, and the acquisition of a lock succeeds when the lock is
  free, panics when this CPU has it and spins when another has it.
\<close>

theorem spl_interrupts:
  assumes "\<forall>l. spinlock_wf (lks l)" and "held_by c lks = {}"
    and "t = \<lparr>t_curspl = IPL_NONE, t_iplhigh_count = 0, irq_on = True\<rparr>"
    and "\<forall>spl. Splx spl \<in> set cs \<longrightarrow> spl \<in> {IPL_NONE, IPL_HIGH}"
    and "spl_run c cs (t, lks) = Some (t', lks')"
  shows "(irq_on t' \<longleftrightarrow> t_curspl t' = IPL_NONE \<and> held_by c lks' = {}) \<and>
     splx (Some c) t' IPL_NONE \<noteq> None \<and> splx (Some c) t' IPL_HIGH \<noteq> None \<and>
     (l \<in> held_by c lks' \<longrightarrow> (\<exists>t''. spinlock_release (Some c) t' (lks' l) = Some (t'', spinlock_init))) \<and>
     (case lk_holder (lks' l) of
        None \<Rightarrow> \<exists>t'' lk. spinlock_acquire (Some c) t' (lks' l) = Some (Some (t'', lk)) \<and> \<not> irq_on t'' \<and> lk_holder lk = Some c
      | Some d \<Rightarrow> spinlock_acquire (Some c) t' (lks' l) = (if d = c then None else Some None))"
proof -
  have "cpu_ok c (t, lks)" using assms(1-3) by (simp add: cpu_ok_def ipl_ok_def IPL_NONE_def)
  from spl_run_ok [OF this assms(5)] assms(4)
  have ok: "cpu_ok c (t', lks')" by (auto simp: IPL_NONE_def IPL_HIGH_def)
  then have ipl: "ipl_ok (card (held_by c lks')) t'" and fin: "finite (held_by c lks')" and wf: "spinlock_wf (lks' l)"
    by (simp_all add: cpu_ok_def)
  have "irq_on t' \<longleftrightarrow> t_curspl t' = IPL_NONE \<and> held_by c lks' = {}"
    using ipl card_0_eq [OF fin] by (auto simp: ipl_ok_def IPL_NONE_def)
  moreover have "splx (Some c) t' IPL_NONE \<noteq> None" "splx (Some c) t' IPL_HIGH \<noteq> None"
    using splx_ok [OF ipl, of 0 c] splx_ok [OF ipl, of 1 c] by (auto simp: IPL_NONE_def IPL_HIGH_def)
  moreover have "\<exists>t''. spinlock_release (Some c) t' (lks' l) = Some (t'', spinlock_init)" if "l \<in> held_by c lks'"
    using that by (simp add: spinlock_release_cases held_by_def)
  moreover have "case lk_holder (lks' l) of
      None \<Rightarrow> \<exists>t'' lk. spinlock_acquire (Some c) t' (lks' l) = Some (Some (t'', lk)) \<and> \<not> irq_on t'' \<and> lk_holder lk = Some c
    | Some d \<Rightarrow> spinlock_acquire (Some c) t' (lks' l) = (if d = c then None else Some None)"
    using ipl by (auto simp: spinlock_acquire_cases [OF wf] ipl_ok_def split: option.splits)
  ultimately show ?thesis by blast
qed

theorem spl_interrupts_witness:
  "\<exists>t lks. spl_run 0 [Acquire 3, Splx 1, Acquire 4, Splx 0, Release 3]
       (\<lparr>t_curspl = IPL_NONE, t_iplhigh_count = 0, irq_on = True\<rparr>, \<lambda>l. spinlock_init) = Some (t, lks) \<and>
     \<not> irq_on t \<and> held_by 0 lks = {4}"
proof -
  let ?cs = "[Acquire 3, Splx 1, Acquire 4, Splx 0, Release 3]"
  let ?t = "\<lparr>t_curspl = IPL_NONE, t_iplhigh_count = 0, irq_on = True\<rparr>"
  have "\<exists>t lks. spl_run 0 ?cs (?t, \<lambda>l. spinlock_init) = Some (t, lks) \<and> held_by 0 lks = {4}"
    by (simp add: spinlock_acquire_cases spinlock_release_cases splx_def splraise_def spllower_def IPL_NONE_def
        IPL_HIGH_def cpu_irqoff_def cpu_irqon_def held_by_def Let_def)
  then obtain t lks where run: "spl_run 0 ?cs (?t, \<lambda>l. spinlock_init) = Some (t, lks)" "held_by 0 lks = {4}" by blast
  have "held_by 0 (\<lambda>l. spinlock_init) = {}" by (simp add: held_by_def)
  from spl_interrupts [OF _ this refl _ run(1), of 0] run(2)
  have "\<not> irq_on t" by (auto simp: IPL_NONE_def IPL_HIGH_def)
  with run show ?thesis by blast
qed

end
