(* ===== verification/Kern_Threadlist.thy ===== *)
theory Kern_Threadlist
  imports OS161_Prelude
begin

section \<open>Thread lists: \<open>kern/thread/threadlist.c\<close>\<close>

text \<open>
  Doubly linked lists with a dummy node at either side, through a node inside each thread. The
  heap maps the address of a node to its fields; \<open>None\<close> is \<open>NULL\<close>, and following it has no
  result. \<open>DEBUGASSERT\<close> is compiled out (\<open>kern/include/lib.h\<close>). The lemmas show that the
  operations are those of finite sequences, for any number of lists over one set of threads.
\<close>

subsection \<open>The code\<close>

datatype tlnode = TlHead nat | TlTail nat | TlThread nat

record tlheap =
  tln_prev :: "tlnode \<Rightarrow> tlnode option"
  tln_next :: "tlnode \<Rightarrow> tlnode option"
  tln_self :: "tlnode \<Rightarrow> nat option"
  tl_count :: "nat \<Rightarrow> nat"

definition set_prev :: "tlheap \<Rightarrow> tlnode \<Rightarrow> tlnode option \<Rightarrow> tlheap" where
  "set_prev h n p = h\<lparr>tln_prev := (tln_prev h)(n := p)\<rparr>"

definition set_next :: "tlheap \<Rightarrow> tlnode \<Rightarrow> tlnode option \<Rightarrow> tlheap" where
  "set_next h n p = h\<lparr>tln_next := (tln_next h)(n := p)\<rparr>"

definition set_self :: "tlheap \<Rightarrow> tlnode \<Rightarrow> nat option \<Rightarrow> tlheap" where
  "set_self h n t = h\<lparr>tln_self := (tln_self h)(n := t)\<rparr>"

definition set_count :: "tlheap \<Rightarrow> nat \<Rightarrow> nat \<Rightarrow> tlheap" where
  "set_count h l n = h\<lparr>tl_count := (tl_count h)(l := n)\<rparr>"

definition threadlistnode_init :: "tlheap \<Rightarrow> nat \<Rightarrow> tlheap" where
  "threadlistnode_init h t =
     set_self (set_prev (set_next h (TlThread t) None) (TlThread t) None) (TlThread t) (Some t)"

definition threadlistnode_cleanup :: "tlheap \<Rightarrow> nat \<Rightarrow> unit option" where
  "threadlistnode_cleanup h t = do {
     kassert (tln_next h (TlThread t) = None);
     kassert (tln_prev h (TlThread t) = None);
     kassert (tln_self h (TlThread t) \<noteq> None)
   }"

definition threadlist_init :: "tlheap \<Rightarrow> nat \<Rightarrow> tlheap" where
  "threadlist_init h l =
     (let h1 = set_next h (TlHead l) (Some (TlTail l));
          h2 = set_prev h1 (TlHead l) None;
          h3 = set_next h2 (TlTail l) None;
          h4 = set_prev h3 (TlTail l) (Some (TlHead l));
          h5 = set_self h4 (TlHead l) None;
          h6 = set_self h5 (TlTail l) None
      in set_count h6 l 0)"

definition threadlist_isempty :: "tlheap \<Rightarrow> nat \<Rightarrow> bool" where
  "threadlist_isempty h l \<longleftrightarrow> tl_count h l = 0"

definition threadlist_cleanup :: "tlheap \<Rightarrow> nat \<Rightarrow> unit option" where
  "threadlist_cleanup h l = do {
     kassert (threadlist_isempty h l);
     kassert (tl_count h l = 0)
   }"

definition threadlist_insertafternode :: "tlheap \<Rightarrow> tlnode \<Rightarrow> nat \<Rightarrow> tlheap option" where
  "threadlist_insertafternode h onlist t = do {
     let addee = TlThread t;
     let h1 = set_prev h addee (Some onlist);
     let h2 = set_next h1 addee (tln_next h1 onlist);
     p \<leftarrow> tln_prev h2 addee;
     let h3 = set_next h2 p (Some addee);
     n \<leftarrow> tln_next h3 addee;
     Some (set_prev h3 n (Some addee))
   }"

definition threadlist_insertbeforenode :: "tlheap \<Rightarrow> nat \<Rightarrow> tlnode \<Rightarrow> tlheap option" where
  "threadlist_insertbeforenode h t onlist = do {
     let addee = TlThread t;
     let h1 = set_prev h addee (tln_prev h onlist);
     let h2 = set_next h1 addee (Some onlist);
     p \<leftarrow> tln_prev h2 addee;
     let h3 = set_next h2 p (Some addee);
     n \<leftarrow> tln_next h3 addee;
     Some (set_prev h3 n (Some addee))
   }"

definition threadlist_removenode :: "tlheap \<Rightarrow> tlnode \<Rightarrow> tlheap option" where
  "threadlist_removenode h tln = do {
     p \<leftarrow> tln_prev h tln;
     let h1 = set_next h p (tln_next h tln);
     n \<leftarrow> tln_next h1 tln;
     let h2 = set_prev h1 n (tln_prev h1 tln);
     let h3 = set_prev h2 tln None;
     Some (set_next h3 tln None)
   }"

definition threadlist_addhead :: "tlheap \<Rightarrow> nat \<Rightarrow> nat \<Rightarrow> tlheap option" where
  "threadlist_addhead h l t = do {
     h' \<leftarrow> threadlist_insertafternode h (TlHead l) t;
     Some (set_count h' l (wrap32 (tl_count h' l + 1)))
   }"

definition threadlist_addtail :: "tlheap \<Rightarrow> nat \<Rightarrow> nat \<Rightarrow> tlheap option" where
  "threadlist_addtail h l t = do {
     h' \<leftarrow> threadlist_insertbeforenode h t (TlTail l);
     Some (set_count h' l (wrap32 (tl_count h' l + 1)))
   }"

definition threadlist_remhead :: "tlheap \<Rightarrow> nat \<Rightarrow> (nat option \<times> tlheap) option" where
  "threadlist_remhead h l = do {
     tln \<leftarrow> tln_next h (TlHead l);
     (if tln_next h tln = None then Some (None, h)
      else do {
        h' \<leftarrow> threadlist_removenode h tln;
        let h'' = set_count h' l (sub32 (tl_count h' l) 1);
        Some (tln_self h'' tln, h'')
      })
   }"

definition threadlist_remtail :: "tlheap \<Rightarrow> nat \<Rightarrow> (nat option \<times> tlheap) option" where
  "threadlist_remtail h l = do {
     tln \<leftarrow> tln_prev h (TlTail l);
     (if tln_prev h tln = None then Some (None, h)
      else do {
        h' \<leftarrow> threadlist_removenode h tln;
        let h'' = set_count h' l (sub32 (tl_count h' l) 1);
        Some (tln_self h'' tln, h'')
      })
   }"

definition threadlist_insertafter :: "tlheap \<Rightarrow> nat \<Rightarrow> nat \<Rightarrow> nat \<Rightarrow> tlheap option" where
  "threadlist_insertafter h l onlist addee = do {
     h' \<leftarrow> threadlist_insertafternode h (TlThread onlist) addee;
     Some (set_count h' l (wrap32 (tl_count h' l + 1)))
   }"

definition threadlist_insertbefore :: "tlheap \<Rightarrow> nat \<Rightarrow> nat \<Rightarrow> nat \<Rightarrow> tlheap option" where
  "threadlist_insertbefore h l addee onlist = do {
     h' \<leftarrow> threadlist_insertbeforenode h addee (TlThread onlist);
     Some (set_count h' l (wrap32 (tl_count h' l + 1)))
   }"

definition threadlist_remove :: "tlheap \<Rightarrow> nat \<Rightarrow> nat \<Rightarrow> tlheap option" where
  "threadlist_remove h l t = do {
     h' \<leftarrow> threadlist_removenode h (TlThread t);
     Some (set_count h' l (sub32 (tl_count h' l) 1))
   }"

text \<open>
  The iteration macro \<open>THREADLIST_FORALL\<close>, collecting the threads it visits: the loop variable is
  a thread, and its condition follows the thread's own node. Fuel bounds the number of rounds:
  \<open>None\<close> when it runs out, \<open>Some None\<close> when a null pointer is followed.
\<close>

fun threadlist_forall_from :: "nat \<Rightarrow> tlheap \<Rightarrow> nat option \<Rightarrow> nat list option option" where
  "threadlist_forall_from 0 h itervar = None"
| "threadlist_forall_from (Suc fuel) h None = Some None"
| "threadlist_forall_from (Suc fuel) h (Some t) =
     (case tln_next h (TlThread t) of
        None \<Rightarrow> Some (Some [])
      | Some n \<Rightarrow> map_option (map_option (Cons t)) (threadlist_forall_from fuel h (tln_self h n)))"

definition threadlist_forall :: "nat \<Rightarrow> tlheap \<Rightarrow> nat \<Rightarrow> nat list option option" where
  "threadlist_forall fuel h l =
     (case tln_next h (TlHead l) of
        None \<Rightarrow> Some None
      | Some n \<Rightarrow> threadlist_forall_from fuel h (tln_self h n))"

subsection \<open>Linked nodes\<close>

fun linked :: "tlheap \<Rightarrow> tlnode list \<Rightarrow> bool" where
  "linked h (a # b # ns) \<longleftrightarrow> tln_next h a = Some b \<and> tln_prev h b = Some a \<and> linked h (b # ns)"
| "linked h _ \<longleftrightarrow> True"

lemma in_set_tlD: "x \<in> set (tl xs) \<Longrightarrow> x \<in> set xs"
  by (cases xs) auto

lemma linked_append: "linked h (xs @ a # ys) \<longleftrightarrow> linked h (xs @ [a]) \<and> linked h (a # ys)"
  by (induction h xs rule: linked.induct) auto

lemma linked_cong:
  assumes "linked h ns" and "\<And>n. n \<in> set (butlast ns) \<Longrightarrow> tln_next h' n = tln_next h n"
    and "\<And>n. n \<in> set (tl ns) \<Longrightarrow> tln_prev h' n = tln_prev h n"
  shows "linked h' ns"
  using assms by (induction h ns rule: linked.induct) auto

definition link_in :: "tlheap \<Rightarrow> tlnode \<Rightarrow> tlnode \<Rightarrow> tlnode \<Rightarrow> tlheap" where
  "link_in h a x b = h\<lparr>tln_prev := (tln_prev h)(x := Some a, b := Some x), tln_next := (tln_next h)(x := Some b, a := Some x)\<rparr>"

definition link_out :: "tlheap \<Rightarrow> tlnode \<Rightarrow> tlnode \<Rightarrow> tlnode \<Rightarrow> tlheap" where
  "link_out h a x b = h\<lparr>tln_prev := (tln_prev h)(b := Some a, x := None), tln_next := (tln_next h)(a := Some b, x := None)\<rparr>"

lemma link_simps [simp]:
  "tln_next (link_in h a x b) = (tln_next h)(x := Some b, a := Some x)"
  "tln_prev (link_in h a x b) = (tln_prev h)(x := Some a, b := Some x)"
  "tln_self (link_in h a x b) = tln_self h" "tl_count (link_in h a x b) = tl_count h"
  "tln_next (link_out h a x b) = (tln_next h)(a := Some b, x := None)"
  "tln_prev (link_out h a x b) = (tln_prev h)(b := Some a, x := None)"
  "tln_self (link_out h a x b) = tln_self h" "tl_count (link_out h a x b) = tl_count h"
  by (simp_all add: link_in_def link_out_def)

lemma set_count_simps [simp]:
  "tln_next (set_count h l n) = tln_next h" "tln_prev (set_count h l n) = tln_prev h"
  "tln_self (set_count h l n) = tln_self h" "tl_count (set_count h l n) = (tl_count h)(l := n)"
  by (simp_all add: set_count_def)

lemma linked_set_count [simp]: "linked (set_count h l n) ns = linked h ns"
  by (induction h ns rule: linked.induct) auto

lemma insertafternode_eq:
  assumes "tln_next h a = Some b" and "a \<noteq> TlThread t" and "b \<noteq> TlThread t"
  shows "threadlist_insertafternode h a t = Some (link_in h a (TlThread t) b)"
  using assms by (simp add: threadlist_insertafternode_def link_in_def set_prev_def set_next_def Let_def)

lemma insertbeforenode_eq:
  assumes "tln_prev h b = Some a" and "a \<noteq> TlThread t" and "b \<noteq> TlThread t"
  shows "threadlist_insertbeforenode h t b = Some (link_in h a (TlThread t) b)"
  using assms by (simp add: threadlist_insertbeforenode_def link_in_def set_prev_def set_next_def Let_def)

lemma removenode_eq:
  assumes "tln_prev h x = Some a" and "tln_next h x = Some b" and "a \<noteq> x" and "b \<noteq> x"
  shows "threadlist_removenode h x = Some (link_out h a x b)"
  using assms by (simp add: threadlist_removenode_def link_out_def set_prev_def set_next_def Let_def fun_upd_twist)

lemma linked_in:
  assumes "linked h (xs @ a # b # ys)" and "distinct (xs @ a # b # ys)" and "x \<notin> set (xs @ a # b # ys)"
  shows "linked (link_in h a x b) (xs @ a # x # b # ys)"
proof -
  have l: "linked h (xs @ [a])" "linked h (b # ys)"
    using assms(1) linked_append [of h xs a "b # ys"] by auto
  have "linked (link_in h a x b) (xs @ [a])"
    using assms(2,3) by (intro linked_cong [OF l(1)]) (auto dest: in_set_butlastD in_set_tlD simp: butlast_append)
  moreover have "linked (link_in h a x b) (b # ys)"
    using assms(2,3) by (intro linked_cong [OF l(2)]) (auto dest: in_set_butlastD split: if_splits)
  ultimately show ?thesis using assms(2,3) unfolding linked_append [of _ xs a "x # b # ys"] by simp
qed

lemma linked_out:
  assumes "linked h (xs @ a # x # b # ys)" and "distinct (xs @ a # x # b # ys)"
  shows "linked (link_out h a x b) (xs @ a # b # ys)"
proof -
  have l: "linked h (xs @ [a])" "linked h (b # ys)"
    using assms(1) linked_append [of h xs a "x # b # ys"] by auto
  have "linked (link_out h a x b) (xs @ [a])"
    using assms(2) by (intro linked_cong [OF l(1)]) (auto dest: in_set_butlastD in_set_tlD simp: butlast_append)
  moreover have "linked (link_out h a x b) (b # ys)"
    using assms(2) by (intro linked_cong [OF l(2)]) (auto dest: in_set_butlastD split: if_splits)
  moreover have "b \<noteq> x" using assms(2) by auto
  ultimately show ?thesis using assms(2) unfolding linked_append [of _ xs a "b # ys"] by simp
qed

subsection \<open>Lists of threads\<close>

text \<open>The node before and the node after a position of list \<open>l\<close>.\<close>

definition before :: "nat \<Rightarrow> nat list \<Rightarrow> tlnode" where
  "before l us = (if us = [] then TlHead l else TlThread (last us))"

definition after :: "nat \<Rightarrow> nat list \<Rightarrow> tlnode" where
  "after l vs = (if vs = [] then TlTail l else TlThread (hd vs))"

definition nodes :: "nat \<Rightarrow> nat list \<Rightarrow> tlnode list" where
  "nodes l ts = TlHead l # map TlThread ts @ [TlTail l]"

lemma nodes_split:
  obtains xs ys where "nodes l (us @ vs) = xs @ before l us # after l vs # ys"
    "nodes l (us @ t # vs) = xs @ before l us # TlThread t # after l vs # ys"
proof
  let ?xs = "butlast (TlHead l # map TlThread us)" and ?ys = "tl (map TlThread vs @ [TlTail l])"
  have u: "TlHead l # map TlThread us = ?xs @ [before l us]"
    by (cases us rule: rev_cases) (simp_all add: before_def butlast_append)
  have v: "map TlThread vs @ [TlTail l] = after l vs # ?ys"
    by (cases vs) (simp_all add: after_def)
  show "nodes l (us @ vs) = ?xs @ before l us # after l vs # ?ys"
    "nodes l (us @ t # vs) = ?xs @ before l us # TlThread t # after l vs # ?ys"
    using arg_cong2 [OF u v, of append] arg_cong2 [OF u arg_cong [OF v, of "Cons (TlThread t)"], of append]
    by (simp_all add: nodes_def)
qed

lemma nodes_props:
  "distinct (nodes l ts) \<longleftrightarrow> distinct ts"
  "TlThread t \<in> set (nodes l ts) \<longleftrightarrow> t \<in> set ts"
  "TlHead k \<in> set (nodes l ts) \<longleftrightarrow> k = l" "TlTail k \<in> set (nodes l ts) \<longleftrightarrow> k = l"
  "before l us \<in> set (nodes l (us @ vs))" "after l vs \<in> set (nodes l (us @ vs))"
  by (auto simp: nodes_def distinct_map inj_on_def before_def after_def)

definition tl_list :: "tlheap \<Rightarrow> nat \<Rightarrow> nat list \<Rightarrow> bool" where
  "tl_list h l ts \<longleftrightarrow> linked h (nodes l ts) \<and> tln_prev h (TlHead l) = None \<and> tln_next h (TlTail l) = None \<and>
     tln_self h (TlHead l) = None \<and> tln_self h (TlTail l) = None \<and> tl_count h l = length ts \<and>
     length ts < 2 ^ 32 \<and> distinct ts \<and> (\<forall>t \<in> set ts. tln_self h (TlThread t) = Some t)"

text \<open>The heap holds the lists of \<open>L\<close>; no thread is on two of them.\<close>

definition tl_rep :: "tlheap \<Rightarrow> (nat \<Rightarrow> nat list option) \<Rightarrow> bool" where
  "tl_rep h L \<longleftrightarrow> (\<forall>l ts. L l = Some ts \<longrightarrow> tl_list h l ts) \<and>
     (\<forall>l l' ts ts'. L l = Some ts \<longrightarrow> L l' = Some ts' \<longrightarrow> l \<noteq> l' \<longrightarrow> set ts \<inter> set ts' = {})"

text \<open>A thread whose node is initialised and on no list.\<close>

definition tl_free :: "tlheap \<Rightarrow> (nat \<Rightarrow> nat list option) \<Rightarrow> nat \<Rightarrow> bool" where
  "tl_free h L t \<longleftrightarrow> tln_self h (TlThread t) = Some t \<and> tln_next h (TlThread t) = None \<and>
     tln_prev h (TlThread t) = None \<and> (\<forall>l ts. L l = Some ts \<longrightarrow> t \<notin> set ts)"

lemma tl_repD:
  assumes "tl_rep h L" and "L l = Some ts"
  shows "tl_list h l ts" and "L l' = Some ts' \<Longrightarrow> l \<noteq> l' \<Longrightarrow> set ts \<inter> set ts' = {}"
  using assms by (auto simp: tl_rep_def)

lemma tl_listD:
  assumes "tl_list h l (us @ vs)"
  shows "tln_next h (before l us) = Some (after l vs)" "tln_prev h (after l vs) = Some (before l us)"
    "linked h (nodes l (us @ vs))" "distinct (us @ vs)"
proof -
  obtain xs ys where n: "nodes l (us @ vs) = xs @ before l us # after l vs # ys" by (rule nodes_split)
  with assms have "linked h (xs @ before l us # after l vs # ys)" by (simp add: tl_list_def)
  then show "tln_next h (before l us) = Some (after l vs)" "tln_prev h (after l vs) = Some (before l us)"
    using linked_append [of h xs "before l us" "after l vs # ys"] by auto
  show "linked h (nodes l (us @ vs))" "distinct (us @ vs)" using assms by (simp_all add: tl_list_def)
qed

text \<open>A change of the nodes of list \<open>l\<close> and of one free thread leaves the other lists as they are.\<close>

lemma tl_list_frame:
  assumes "tl_list h k ts" and "\<And>n. n \<in> set (nodes k ts) \<Longrightarrow> tln_next h' n = tln_next h n \<and> tln_prev h' n = tln_prev h n"
    and "tln_self h' = tln_self h" and "tl_count h' k = tl_count h k"
  shows "tl_list h' k ts"
proof -
  have "linked h' (nodes k ts)"
  proof (rule linked_cong [of h])
    show "linked h (nodes k ts)" using assms(1) by (simp add: tl_list_def)
    show "tln_next h' n = tln_next h n" if "n \<in> set (butlast (nodes k ts))" for n
      using assms(2) [OF in_set_butlastD [OF that]] by simp
    show "tln_prev h' n = tln_prev h n" if "n \<in> set (tl (nodes k ts))" for n
      using assms(2) [OF in_set_tlD [OF that]] by simp
  qed
  with assms show ?thesis by (simp add: tl_list_def nodes_props)
qed

lemma tl_rep_frame:
  assumes rep: "tl_rep h L" and l: "L l = Some ts" and new: "tl_list h' l ts'" "set ts' \<subseteq> insert t (set ts)"
    and t: "\<And>k us. L k = Some us \<Longrightarrow> k \<noteq> l \<Longrightarrow> t \<notin> set us"
    and same: "\<And>n. n \<notin> set (nodes l ts) \<Longrightarrow> n \<noteq> TlThread t \<Longrightarrow> tln_next h' n = tln_next h n \<and> tln_prev h' n = tln_prev h n"
    and self: "tln_self h' = tln_self h" and count: "\<And>k. k \<noteq> l \<Longrightarrow> tl_count h' k = tl_count h k"
  shows "tl_rep h' (L(l \<mapsto> ts'))"
proof -
  have other: "tl_list h' k us" if k: "L k = Some us" "k \<noteq> l" for k us
  proof (rule tl_list_frame [OF tl_repD(1) [OF rep k(1)] same self count [OF k(2)]])
    fix n assume n: "n \<in> set (nodes k us)"
    show "n \<notin> set (nodes l ts)"
      using n tl_repD(2) [OF rep k(1) l k(2)] k(2) by (auto simp: nodes_def)
    show "n \<noteq> TlThread t" using n t [OF k] by (auto simp: nodes_props)
  qed
  have dis: "set ts' \<inter> set us = {}" if k: "L k = Some us" "k \<noteq> l" for k us
    using tl_repD(2) [OF rep l k(1)] k t [OF k] new(2) by blast
  have "set us \<inter> set vs = {}" if "L k = Some us" "L k' = Some vs" "k \<noteq> k'" for k k' us vs
    using tl_repD(2) [OF rep that] .
  with other dis new(1) show ?thesis unfolding tl_rep_def by (auto split: if_splits; blast)
qed

lemma tl_free_notin: "tl_free h L t \<Longrightarrow> L l = Some ts \<Longrightarrow> t \<notin> set ts"
  by (auto simp: tl_free_def)

lemma tl_rep_insert:
  assumes rep: "tl_rep h L" and l: "L l = Some (us @ vs)" and t: "tl_free h L t"
    and len: "Suc (length (us @ vs)) < 2 ^ 32"
  defines "h' \<equiv> set_count (link_in h (before l us) (TlThread t) (after l vs)) l (wrap32 (tl_count h l + 1))"
  shows "tl_rep h' (L(l \<mapsto> us @ t # vs))" and "tl_free h L t' \<Longrightarrow> t' \<noteq> t \<Longrightarrow> tl_free h' (L(l \<mapsto> us @ t # vs)) t'"
proof -
  note tl = tl_repD(1) [OF rep l]
  have nt: "t \<notin> set (us @ vs)" using t l unfolding tl_free_def by blast
  obtain xs ys where n: "nodes l (us @ vs) = xs @ before l us # after l vs # ys"
    "nodes l (us @ t # vs) = xs @ before l us # TlThread t # after l vs # ys" by (rule nodes_split)
  have "distinct (nodes l (us @ vs))" "TlThread t \<notin> set (nodes l (us @ vs))"
    using tl_listD(4) [OF tl] nt by (simp_all add: nodes_props)
  with tl_listD(3) [OF tl] have "linked h' (nodes l (us @ t # vs))"
    unfolding n h'_def linked_set_count by (intro linked_in)
  moreover have "before l us \<noteq> TlTail l" "after l vs \<noteq> TlHead l" by (simp_all add: before_def after_def)
  ultimately have new: "tl_list h' l (us @ t # vs)"
    using tl t nt len by (auto simp: tl_list_def h'_def tl_free_def)
  show "tl_rep h' (L(l \<mapsto> us @ t # vs))"
  proof (rule tl_rep_frame [OF rep l new, where t = t])
    fix n assume "n \<notin> set (nodes l (us @ vs))" "n \<noteq> TlThread t"
    then show "tln_next h' n = tln_next h n \<and> tln_prev h' n = tln_prev h n"
      using nodes_props(5,6) [of l us vs] nodes_props(6) [of l vs us] by (auto simp: h'_def)
  qed (use t in \<open>auto simp: h'_def tl_free_def\<close>)
  assume t': "tl_free h L t'" "t' \<noteq> t"
  from tl_free_notin [OF t'(1) l] have "TlThread t' \<noteq> before l us" "TlThread t' \<noteq> after l vs"
    by (auto simp: before_def after_def)
  with t' tl_free_notin [OF t'(1) l] show "tl_free h' (L(l \<mapsto> us @ t # vs)) t'" by (auto simp: tl_free_def h'_def)
qed

lemma tl_rep_remove:
  assumes rep: "tl_rep h L" and l: "L l = Some (us @ t # vs)"
  defines "h' \<equiv> set_count (link_out h (before l us) (TlThread t) (after l vs)) l (sub32 (tl_count h l) 1)"
  shows "tl_rep h' (L(l \<mapsto> us @ vs))" and "tl_free h' (L(l \<mapsto> us @ vs)) t"
    and "tl_free h L t' \<Longrightarrow> tl_free h' (L(l \<mapsto> us @ vs)) t'"
proof -
  note tl = tl_repD(1) [OF rep l]
  note d = tl_listD(4) [OF tl]
  obtain xs ys where n: "nodes l (us @ vs) = xs @ before l us # after l vs # ys"
    "nodes l (us @ t # vs) = xs @ before l us # TlThread t # after l vs # ys" by (rule nodes_split)
  have "distinct (nodes l (us @ t # vs))" using d by (simp add: nodes_props)
  with tl_listD(3) [OF tl] have "linked h' (nodes l (us @ vs))"
    unfolding n h'_def linked_set_count by (intro linked_out)
  moreover have "before l us \<noteq> TlTail l" "after l vs \<noteq> TlHead l" by (simp_all add: before_def after_def)
  moreover have "sub32 (tl_count h l) 1 = length (us @ vs)"
    using tl by (simp add: tl_list_def sub32_le)
  ultimately have new: "tl_list h' l (us @ vs)"
    using tl by (auto simp: tl_list_def h'_def)
  have other: "t \<notin> set us'" if "L k = Some us'" "k \<noteq> l" for k us'
    using tl_repD(2) [OF rep l that(1)] that(2) by auto
  show "tl_rep h' (L(l \<mapsto> us @ vs))"
  proof (rule tl_rep_frame [OF rep l new, where t = t])
    fix n assume "n \<notin> set (nodes l (us @ t # vs))" "n \<noteq> TlThread t"
    then show "tln_next h' n = tln_next h n \<and> tln_prev h' n = tln_prev h n"
      using n(2) by (auto simp: h'_def)
  qed (use other in \<open>auto simp: h'_def\<close>)
  show "tl_free h' (L(l \<mapsto> us @ vs)) t"
    using other tl d by (auto simp: tl_free_def h'_def tl_list_def split: if_splits)
  assume t': "tl_free h L t'"
  from tl_free_notin [OF t' l] have "TlThread t' \<noteq> before l us" "TlThread t' \<noteq> after l vs"
    by (auto simp: before_def after_def)
  with t' tl_free_notin [OF t' l] show "tl_free h' (L(l \<mapsto> us @ vs)) t'" by (auto simp: tl_free_def h'_def)
qed

subsection \<open>The operations on sequences\<close>

text \<open>The state after an operation on list \<open>l\<close>, with what it does to the threads on no list.\<close>

definition tl_put :: "tlheap \<Rightarrow> (nat \<Rightarrow> nat list option) \<Rightarrow> nat \<Rightarrow> nat list \<Rightarrow> nat \<Rightarrow> tlheap \<Rightarrow> bool" where
  "tl_put h L l ts t h' \<longleftrightarrow> tl_rep h' (L(l \<mapsto> ts)) \<and> (\<forall>t'. t' \<noteq> t \<longrightarrow> tl_free h L t' \<longrightarrow> tl_free h' (L(l \<mapsto> ts)) t')"

definition tl_take :: "tlheap \<Rightarrow> (nat \<Rightarrow> nat list option) \<Rightarrow> nat \<Rightarrow> nat list \<Rightarrow> nat \<Rightarrow> tlheap \<Rightarrow> bool" where
  "tl_take h L l ts t h' \<longleftrightarrow> tl_rep h' (L(l \<mapsto> ts)) \<and> tl_free h' (L(l \<mapsto> ts)) t \<and>
     (\<forall>t'. tl_free h L t' \<longrightarrow> tl_free h' (L(l \<mapsto> ts)) t')"

lemma insert_at:
  assumes rep: "tl_rep h L" and l: "L l = Some (us @ vs)" and t: "tl_free h L t" and len: "Suc (length (us @ vs)) < 2 ^ 32"
  shows "\<exists>h'. do { h1 \<leftarrow> threadlist_insertafternode h (before l us) t;
            Some (set_count h1 l (wrap32 (tl_count h1 l + 1))) } = Some h' \<and> tl_put h L l (us @ t # vs) t h'"
    and "\<exists>h'. do { h1 \<leftarrow> threadlist_insertbeforenode h t (after l vs);
            Some (set_count h1 l (wrap32 (tl_count h1 l + 1))) } = Some h' \<and> tl_put h L l (us @ t # vs) t h'"
proof -
  note d = tl_listD [OF tl_repD(1) [OF rep l]]
  have ne: "before l us \<noteq> TlThread t" "after l vs \<noteq> TlThread t"
    using tl_free_notin [OF t l] by (auto simp: before_def after_def)
  note ins = tl_rep_insert [OF rep l t len]
  show "\<exists>h'. do { h1 \<leftarrow> threadlist_insertafternode h (before l us) t;
            Some (set_count h1 l (wrap32 (tl_count h1 l + 1))) } = Some h' \<and> tl_put h L l (us @ t # vs) t h'"
    using ins insertafternode_eq [OF d(1) ne] by (simp add: tl_put_def)
  show "\<exists>h'. do { h1 \<leftarrow> threadlist_insertbeforenode h t (after l vs);
            Some (set_count h1 l (wrap32 (tl_count h1 l + 1))) } = Some h' \<and> tl_put h L l (us @ t # vs) t h'"
    using ins insertbeforenode_eq [OF d(2) ne] by (simp add: tl_put_def)
qed

lemma remove_at:
  assumes rep: "tl_rep h L" and l: "L l = Some (us @ t # vs)"
  shows "\<exists>h'. do { h1 \<leftarrow> threadlist_removenode h (TlThread t);
            Some (set_count h1 l (sub32 (tl_count h1 l) 1)) } = Some h' \<and> tl_take h L l (us @ vs) t h' \<and>
            tln_self h' = tln_self h"
proof -
  note tl = tl_repD(1) [OF rep l]
  have p: "tln_prev h (TlThread t) = Some (before l us)"
    using tl_listD(2) [of h l us "t # vs"] tl by (simp add: after_def)
  have n: "tln_next h (TlThread t) = Some (after l vs)"
    using tl_listD(1) [of h l "us @ [t]" vs] tl by (simp add: before_def)
  have ne: "before l us \<noteq> TlThread t" "after l vs \<noteq> TlThread t"
    using tl_listD(4) [OF tl] by (auto simp: before_def after_def)
  show ?thesis using tl_rep_remove [OF rep l] removenode_eq [OF p n ne] by (simp add: tl_take_def)
qed

lemma threadlist_addhead_ok:
  assumes "tl_rep h L" and "L l = Some ts" and "tl_free h L t" and "Suc (length ts) < 2 ^ 32"
  shows "\<exists>h'. threadlist_addhead h l t = Some h' \<and> tl_put h L l (t # ts) t h'"
  using insert_at(1) [of h L l "[]" ts t] assms by (simp add: threadlist_addhead_def before_def)

lemma threadlist_addtail_ok:
  assumes "tl_rep h L" and "L l = Some ts" and "tl_free h L t" and "Suc (length ts) < 2 ^ 32"
  shows "\<exists>h'. threadlist_addtail h l t = Some h' \<and> tl_put h L l (ts @ [t]) t h'"
  using insert_at(2) [of h L l ts "[]" t] assms by (simp add: threadlist_addtail_def after_def)

lemma threadlist_insertafter_ok:
  assumes "tl_rep h L" and "L l = Some (us @ x # vs)" and "tl_free h L t" and "Suc (length (us @ x # vs)) < 2 ^ 32"
  shows "\<exists>h'. threadlist_insertafter h l x t = Some h' \<and> tl_put h L l (us @ x # t # vs) t h'"
  using insert_at(1) [of h L l "us @ [x]" vs t] assms by (simp add: threadlist_insertafter_def before_def)

lemma threadlist_insertbefore_ok:
  assumes "tl_rep h L" and "L l = Some (us @ x # vs)" and "tl_free h L t" and "Suc (length (us @ x # vs)) < 2 ^ 32"
  shows "\<exists>h'. threadlist_insertbefore h l t x = Some h' \<and> tl_put h L l (us @ t # x # vs) t h'"
  using insert_at(2) [of h L l us "x # vs" t] assms by (simp add: threadlist_insertbefore_def after_def)

lemma threadlist_remove_ok:
  assumes "tl_rep h L" and "L l = Some (us @ t # vs)"
  shows "\<exists>h'. threadlist_remove h l t = Some h' \<and> tl_take h L l (us @ vs) t h'"
  using remove_at [OF assms] by (auto simp: threadlist_remove_def)

lemma threadlist_remhead_ok:
  assumes "tl_rep h L" and "L l = Some ts"
  shows "case ts of
     [] \<Rightarrow> threadlist_remhead h l = Some (None, h)
   | t # us \<Rightarrow> \<exists>h'. threadlist_remhead h l = Some (Some t, h') \<and> tl_take h L l us t h'"
proof (cases ts)
  case Nil
  with tl_listD(1) [of h l "[]" "[]"] tl_repD(1) [OF assms] show ?thesis
    by (simp add: threadlist_remhead_def before_def after_def tl_list_def)
next
  case (Cons t us)
  note tl = tl_repD(1) [OF assms]
  have "tln_next h (TlHead l) = Some (TlThread t)" "tln_next h (TlThread t) = Some (after l us)"
    using tl_listD(1) [of h l "[]" ts] tl_listD(1) [of h l "[t]" us] tl Cons by (simp_all add: before_def after_def)
  moreover have "tln_self h (TlThread t) = Some t" using tl Cons by (simp add: tl_list_def)
  ultimately show ?thesis
    using remove_at [of h L l "[]" t us] assms Cons by (auto simp: threadlist_remhead_def bind_eq_Some_conv)
qed

lemma threadlist_remtail_ok:
  assumes "tl_rep h L" and "L l = Some ts"
  shows "if ts = [] then threadlist_remtail h l = Some (None, h)
     else \<exists>h'. threadlist_remtail h l = Some (Some (last ts), h') \<and> tl_take h L l (butlast ts) (last ts) h'"
proof (cases ts rule: rev_cases)
  case Nil
  with tl_listD(2) [of h l "[]" "[]"] tl_repD(1) [OF assms] show ?thesis
    by (simp add: threadlist_remtail_def before_def after_def tl_list_def)
next
  case (snoc us t)
  note tl = tl_repD(1) [OF assms]
  have "tln_prev h (TlTail l) = Some (TlThread t)" "tln_prev h (TlThread t) = Some (before l us)"
    using tl_listD(2) [of h l ts "[]"] tl_listD(2) [of h l us "[t]"] tl snoc by (simp_all add: before_def after_def)
  moreover have "tln_self h (TlThread t) = Some t" using tl snoc by (simp add: tl_list_def)
  ultimately show ?thesis
    using remove_at [of h L l us t "[]"] assms snoc by (auto simp: threadlist_remtail_def bind_eq_Some_conv)
qed

subsection \<open>The contract of a set of queues\<close>

text \<open>
  The loop that \<open>wchan_wakeall\<close> and \<open>thread_consider_migration\<close> share: take the head of one
  list and add it at the tail of another, until the first is empty.
\<close>

partial_function (option) move_all ::
  "('h \<Rightarrow> 'l \<Rightarrow> ('t option \<times> 'h) option) \<Rightarrow> ('h \<Rightarrow> 'l \<Rightarrow> 't \<Rightarrow> 'h option) \<Rightarrow> 'h \<Rightarrow> 'l \<Rightarrow> 'l \<Rightarrow> 'h option" where
  "move_all remhead addtail h a b = do {
     (target, h1) \<leftarrow> remhead h a;
     (case target of
        None \<Rightarrow> Some h1
      | Some t \<Rightarrow> do { h2 \<leftarrow> addtail h1 b t; move_all remhead addtail h2 a b })
   }"

declare move_all.simps [code]

locale thread_queues =
  fixes rep :: "'h \<Rightarrow> ('l \<Rightarrow> 't list option) \<Rightarrow> bool"
    and free :: "'h \<Rightarrow> ('l \<Rightarrow> 't list option) \<Rightarrow> 't \<Rightarrow> bool"
    and addtail :: "'h \<Rightarrow> 'l \<Rightarrow> 't \<Rightarrow> 'h option"
    and remhead :: "'h \<Rightarrow> 'l \<Rightarrow> ('t option \<times> 'h) option"
    and bound :: nat
  assumes free_notin: "free h L t \<Longrightarrow> L l = Some ts \<Longrightarrow> t \<notin> set ts"
    and addtail_ok: "rep h L \<Longrightarrow> L l = Some ts \<Longrightarrow> free h L t \<Longrightarrow> Suc (length ts) < bound \<Longrightarrow>
      \<exists>h'. addtail h l t = Some h' \<and> rep h' (L(l \<mapsto> ts @ [t])) \<and>
        (\<forall>t'. t' \<noteq> t \<longrightarrow> free h L t' \<longrightarrow> free h' (L(l \<mapsto> ts @ [t])) t')"
    and remhead_empty: "rep h L \<Longrightarrow> L l = Some [] \<Longrightarrow> remhead h l = Some (None, h)"
    and remhead_cons: "rep h L \<Longrightarrow> L l = Some (t # ts) \<Longrightarrow>
      \<exists>h'. remhead h l = Some (Some t, h') \<and> rep h' (L(l \<mapsto> ts)) \<and> free h' (L(l \<mapsto> ts)) t \<and>
        (\<forall>t'. free h L t' \<longrightarrow> free h' (L(l \<mapsto> ts)) t')"
begin

lemma move_all_ok:
  assumes "rep h L" and "L a = Some ts" and "L b = Some us" and "a \<noteq> b" and "length ts + length us < bound"
  shows "\<exists>h'. move_all remhead addtail h a b = Some h' \<and> rep h' (L(a \<mapsto> [], b \<mapsto> us @ ts)) \<and>
     (\<forall>t. free h L t \<longrightarrow> free h' (L(a \<mapsto> [], b \<mapsto> us @ ts)) t)"
  using assms
proof (induction ts arbitrary: h L us)
  case Nil
  have "L(a \<mapsto> [], b \<mapsto> us) = L" using Nil.prems(2-4) by (auto simp: fun_eq_iff)
  with Nil remhead_empty show ?case by (subst move_all.simps) simp
next
  case (Cons t ts)
  from remhead_cons [OF Cons.prems(1,2)] obtain h1 where
    h1: "remhead h a = Some (Some t, h1)" "rep h1 (L(a \<mapsto> ts))" "free h1 (L(a \<mapsto> ts)) t"
      "\<forall>t'. free h L t' \<longrightarrow> free h1 (L(a \<mapsto> ts)) t'" by blast
  have b: "(L(a \<mapsto> ts)) b = Some us" "Suc (length us) < bound" using Cons.prems(3-5) by simp_all
  from addtail_ok [OF h1(2) b(1) h1(3) b(2)] obtain h2 where
    h2: "addtail h1 b t = Some h2" "rep h2 (L(a \<mapsto> ts, b \<mapsto> us @ [t]))"
      "\<forall>t'. t' \<noteq> t \<longrightarrow> free h1 (L(a \<mapsto> ts)) t' \<longrightarrow> free h2 (L(a \<mapsto> ts, b \<mapsto> us @ [t])) t'" by blast
  have "(L(a \<mapsto> ts, b \<mapsto> us @ [t])) a = Some ts" "(L(a \<mapsto> ts, b \<mapsto> us @ [t])) b = Some (us @ [t])"
    "length ts + length (us @ [t]) < bound" using Cons.prems(4,5) by simp_all
  from Cons.IH [OF h2(2) this(1,2) Cons.prems(4) this(3)] obtain h' where
    h': "move_all remhead addtail h2 a b = Some h'"
      "rep h' ((L(a \<mapsto> ts, b \<mapsto> us @ [t]))(a \<mapsto> [], b \<mapsto> (us @ [t]) @ ts))"
      "\<forall>t'. free h2 (L(a \<mapsto> ts, b \<mapsto> us @ [t])) t' \<longrightarrow> free h' ((L(a \<mapsto> ts, b \<mapsto> us @ [t]))(a \<mapsto> [], b \<mapsto> (us @ [t]) @ ts)) t'"
    by blast
  have eq: "(L(a \<mapsto> ts, b \<mapsto> us @ [t]))(a \<mapsto> [], b \<mapsto> (us @ [t]) @ ts) = L(a \<mapsto> [], b \<mapsto> us @ t # ts)"
    using Cons.prems(4) by (auto simp: fun_eq_iff)
  have run: "move_all remhead addtail h a b = Some h'"
    using h1(1) h2(1) h'(1) by (subst move_all.simps) simp
  have "free h' (L(a \<mapsto> [], b \<mapsto> us @ t # ts)) t'" if "free h L t'" "t' \<noteq> t" for t'
    using that h1(4) h2(3) h'(3) unfolding eq by blast
  moreover have "\<not> free h L t" using free_notin [of h L t a "t # ts"] Cons.prems(2) by auto
  ultimately show ?case using run h'(2) unfolding eq by metis
qed

end

interpretation tq: thread_queues tl_rep tl_free threadlist_addtail threadlist_remhead "2 ^ 32"
proof
  fix h and L :: "nat \<Rightarrow> nat list option" and l ts and t :: nat
  show "tl_free h L t \<Longrightarrow> L l = Some ts \<Longrightarrow> t \<notin> set ts" by (rule tl_free_notin)
  show "\<exists>h'. threadlist_addtail h l t = Some h' \<and> tl_rep h' (L(l \<mapsto> ts @ [t])) \<and>
        (\<forall>t'. t' \<noteq> t \<longrightarrow> tl_free h L t' \<longrightarrow> tl_free h' (L(l \<mapsto> ts @ [t])) t')"
    if "tl_rep h L" "L l = Some ts" "tl_free h L t" "Suc (length ts) < 2 ^ 32"
    using threadlist_addtail_ok [OF that] by (simp add: tl_put_def)
  show "threadlist_remhead h l = Some (None, h)" if "tl_rep h L" "L l = Some []"
    using threadlist_remhead_ok [OF that] by simp
  show "\<exists>h'. threadlist_remhead h l = Some (Some t, h') \<and> tl_rep h' (L(l \<mapsto> ts)) \<and> tl_free h' (L(l \<mapsto> ts)) t \<and>
        (\<forall>t'. tl_free h L t' \<longrightarrow> tl_free h' (L(l \<mapsto> ts)) t')" if "tl_rep h L" "L l = Some (t # ts)"
    using threadlist_remhead_ok [OF that] by (simp add: tl_take_def)
qed

subsection \<open>Sequences of calls\<close>

datatype tl_call =
    AddHead nat nat | AddTail nat nat | RemHead nat | RemTail nat
  | InsertAfter nat nat nat | InsertBefore nat nat nat | Remove nat nat

fun tl_exec :: "tl_call \<Rightarrow> tlheap \<Rightarrow> (nat option \<times> tlheap) option" where
  "tl_exec (AddHead l t) h = map_option (Pair None) (threadlist_addhead h l t)"
| "tl_exec (AddTail l t) h = map_option (Pair None) (threadlist_addtail h l t)"
| "tl_exec (RemHead l) h = threadlist_remhead h l"
| "tl_exec (RemTail l) h = threadlist_remtail h l"
| "tl_exec (InsertAfter l x t) h = map_option (Pair None) (threadlist_insertafter h l x t)"
| "tl_exec (InsertBefore l t x) h = map_option (Pair None) (threadlist_insertbefore h l t x)"
| "tl_exec (Remove l t) h = map_option (Pair None) (threadlist_remove h l t)"

fun tl_run :: "tl_call list \<Rightarrow> tlheap \<Rightarrow> (nat option list \<times> tlheap) option" where
  "tl_run [] h = Some ([], h)"
| "tl_run (c # cs) h = do {
     (r, h1) \<leftarrow> tl_exec c h;
     (rs, h2) \<leftarrow> tl_run cs h1;
     Some (r # rs, h2)
   }"

text \<open>
  The same calls on sequences, over the threads \<open>T\<close>: a thread may be added only when it is on no
  list, and a position or a thread to remove must be on the list named.
\<close>

definition idle :: "nat set \<Rightarrow> (nat \<Rightarrow> nat list option) \<Rightarrow> nat \<Rightarrow> bool" where
  "idle T L t \<longleftrightarrow> t \<in> T \<and> (\<forall>l ts. L l = Some ts \<longrightarrow> t \<notin> set ts)"

inductive seq_exec :: "nat set \<Rightarrow> tl_call \<Rightarrow> (nat \<Rightarrow> nat list option) \<Rightarrow> nat option \<Rightarrow> (nat \<Rightarrow> nat list option) \<Rightarrow> bool"
  for T where
  add_head: "L l = Some ts \<Longrightarrow> idle T L t \<Longrightarrow> Suc (length ts) < 2 ^ 32 \<Longrightarrow>
     seq_exec T (AddHead l t) L None (L(l \<mapsto> t # ts))"
| add_tail: "L l = Some ts \<Longrightarrow> idle T L t \<Longrightarrow> Suc (length ts) < 2 ^ 32 \<Longrightarrow>
     seq_exec T (AddTail l t) L None (L(l \<mapsto> ts @ [t]))"
| insert_after: "L l = Some (us @ x # vs) \<Longrightarrow> idle T L t \<Longrightarrow> Suc (length (us @ x # vs)) < 2 ^ 32 \<Longrightarrow>
     seq_exec T (InsertAfter l x t) L None (L(l \<mapsto> us @ x # t # vs))"
| insert_before: "L l = Some (us @ x # vs) \<Longrightarrow> idle T L t \<Longrightarrow> Suc (length (us @ x # vs)) < 2 ^ 32 \<Longrightarrow>
     seq_exec T (InsertBefore l t x) L None (L(l \<mapsto> us @ t # x # vs))"
| rem_head_empty: "L l = Some [] \<Longrightarrow> seq_exec T (RemHead l) L None L"
| rem_head: "L l = Some (t # ts) \<Longrightarrow> seq_exec T (RemHead l) L (Some t) (L(l \<mapsto> ts))"
| rem_tail_empty: "L l = Some [] \<Longrightarrow> seq_exec T (RemTail l) L None L"
| rem_tail: "L l = Some (ts @ [t]) \<Longrightarrow> seq_exec T (RemTail l) L (Some t) (L(l \<mapsto> ts))"
| remove: "L l = Some (us @ t # vs) \<Longrightarrow> seq_exec T (Remove l t) L None (L(l \<mapsto> us @ vs))"

inductive seq_run ::
  "nat set \<Rightarrow> tl_call list \<Rightarrow> (nat \<Rightarrow> nat list option) \<Rightarrow> nat option list \<Rightarrow> (nat \<Rightarrow> nat list option) \<Rightarrow> bool"
  for T where
  nil: "seq_run T [] L [] L"
| cons: "seq_exec T c L r L1 \<Longrightarrow> seq_run T cs L1 rs L2 \<Longrightarrow> seq_run T (c # cs) L (r # rs) L2"

definition tl_sim :: "nat set \<Rightarrow> tlheap \<Rightarrow> (nat \<Rightarrow> nat list option) \<Rightarrow> bool" where
  "tl_sim T h L \<longleftrightarrow> tl_rep h L \<and> (\<forall>t. idle T L t \<longrightarrow> tl_free h L t)"

lemma tl_sim_put:
  assumes "tl_sim T h L" and "tl_put h L l ts t h'" and "L l = Some us" and "t \<in> set ts" and "set us \<subseteq> set ts"
  shows "tl_sim T h' (L(l \<mapsto> ts))"
proof -
  have "idle T L t' \<and> t' \<noteq> t" if "idle T (L(l \<mapsto> ts)) t'" for t'
    using that assms(3-5) unfolding idle_def by (metis fun_upd_apply option.inject subsetD)
  with assms(1,2) show ?thesis by (auto simp: tl_sim_def tl_put_def)
qed

lemma tl_sim_take:
  assumes "tl_sim T h L" and "tl_take h L l ts t h'" and "L l = Some us" and "set us \<subseteq> insert t (set ts)"
  shows "tl_sim T h' (L(l \<mapsto> ts))"
proof -
  have "idle T L t' \<or> t' = t" if "idle T (L(l \<mapsto> ts)) t'" for t'
    using that assms(3,4) unfolding idle_def by (metis fun_upd_apply insertE option.inject subsetD)
  with assms(1,2) show ?thesis by (auto simp: tl_sim_def tl_take_def)
qed

lemma tl_exec_refines:
  assumes "seq_exec T c L r L'" and sim: "tl_sim T h L"
  shows "\<exists>h'. tl_exec c h = Some (r, h') \<and> tl_sim T h' L'"
proof -
  have rep: "tl_rep h L" and free: "\<And>t. idle T L t \<Longrightarrow> tl_free h L t" using sim by (auto simp: tl_sim_def)
  show ?thesis using assms(1) rep free sim
  proof cases
    case (add_head l ts t)
    from threadlist_addhead_ok [OF rep add_head(4) free [OF add_head(5)] add_head(6)] obtain h' where
      h': "threadlist_addhead h l t = Some h'" "tl_put h L l (t # ts) t h'" by blast
    with tl_sim_put [OF sim h'(2) add_head(4)] add_head show ?thesis by auto
  next
    case (add_tail l ts t)
    from threadlist_addtail_ok [OF rep add_tail(4) free [OF add_tail(5)] add_tail(6)] obtain h' where
      h': "threadlist_addtail h l t = Some h'" "tl_put h L l (ts @ [t]) t h'" by blast
    with tl_sim_put [OF sim h'(2) add_tail(4)] add_tail show ?thesis by auto
  next
    case (insert_after l us x vs t)
    from threadlist_insertafter_ok [OF rep insert_after(4) free [OF insert_after(5)] insert_after(6)] obtain h' where
      h': "threadlist_insertafter h l x t = Some h'" "tl_put h L l (us @ x # t # vs) t h'" by blast
    with tl_sim_put [OF sim h'(2) insert_after(4)] insert_after show ?thesis by auto
  next
    case (insert_before l us x vs t)
    from threadlist_insertbefore_ok [OF rep insert_before(4) free [OF insert_before(5)] insert_before(6)] obtain h' where
      h': "threadlist_insertbefore h l t x = Some h'" "tl_put h L l (us @ t # x # vs) t h'" by blast
    with tl_sim_put [OF sim h'(2) insert_before(4)] insert_before show ?thesis by auto
  next
    case (rem_head l t ts)
    from threadlist_remhead_ok [OF rep rem_head(4)] obtain h' where
      h': "threadlist_remhead h l = Some (Some t, h')" "tl_take h L l ts t h'" by auto
    with tl_sim_take [OF sim h'(2) rem_head(4)] rem_head show ?thesis by auto
  next
    case (rem_tail l ts t)
    from threadlist_remtail_ok [OF rep rem_tail(4)] obtain h' where
      h': "threadlist_remtail h l = Some (Some t, h')" "tl_take h L l ts t h'" by auto
    with tl_sim_take [OF sim h'(2) rem_tail(4)] rem_tail show ?thesis by auto
  next
    case (remove l us t vs)
    from threadlist_remove_ok [OF rep remove(4)] obtain h' where
      h': "threadlist_remove h l t = Some h'" "tl_take h L l (us @ vs) t h'" by blast
    with tl_sim_take [OF sim h'(2) remove(4)] remove show ?thesis by auto
  qed (auto dest: threadlist_remhead_ok threadlist_remtail_ok)
qed

lemma tl_run_refines: "seq_run T cs L rs L' \<Longrightarrow> tl_sim T h L \<Longrightarrow> \<exists>h'. tl_run cs h = Some (rs, h') \<and> tl_sim T h' L'"
proof (induction arbitrary: h rule: seq_run.induct)
  case (cons c L r L1 cs rs L2)
  from tl_exec_refines [OF cons(1,4)] obtain h1 where h1: "tl_exec c h = Some (r, h1)" "tl_sim T h1 L1" by blast
  from cons(3) [OF h1(2)] h1(1) show ?case by auto
qed simp

text \<open>
  On every list the iteration macro ends by following the null \<open>tln_self\<close> of the tail node.
\<close>

lemma threadlist_forall_suffix:
  assumes tl: "tl_list h l ts" and "ts = us @ vs" and "length vs < fuel"
  shows "threadlist_forall_from fuel h (tln_self h (after l vs)) = Some None"
  using assms(2,3)
proof (induction vs arbitrary: us fuel)
  case Nil
  then show ?case using tl by (cases fuel) (auto simp: after_def tl_list_def)
next
  case (Cons v vs)
  then obtain f where f: "fuel = Suc f" by (cases fuel) auto
  have "tln_self h (TlThread v) = Some v" using tl Cons.prems(1) by (simp add: tl_list_def)
  moreover have "tln_next h (TlThread v) = Some (after l vs)"
    using tl_listD(1) [of h l "us @ [v]" vs] tl Cons.prems(1) by (simp add: before_def)
  ultimately show ?case using Cons.IH [of "us @ [v]" f] Cons.prems f by (simp add: after_def)
qed

lemma threadlist_forall_faults:
  assumes "tl_list h l ts" and "length ts < fuel"
  shows "threadlist_forall fuel h l = Some None"
  using threadlist_forall_suffix [OF assms(1), of "[]"] tl_listD(1) [of h l "[]" ts] assms
  by (simp add: threadlist_forall_def before_def)

subsection \<open>Property\<close>

definition tl_start :: "nat list \<Rightarrow> nat list \<Rightarrow> tlheap \<Rightarrow> tlheap" where
  "tl_start ls T h = fold (\<lambda>l h. threadlist_init h l) ls (fold (\<lambda>t h. threadlistnode_init h t) T h)"

lemma node_init_fold:
  "t \<in> set T \<or> tln_self h (TlThread t) = Some t \<and> tln_next h (TlThread t) = None \<and> tln_prev h (TlThread t) = None \<Longrightarrow>
   tln_self (fold (\<lambda>t h. threadlistnode_init h t) T h) (TlThread t) = Some t \<and>
   tln_next (fold (\<lambda>t h. threadlistnode_init h t) T h) (TlThread t) = None \<and>
   tln_prev (fold (\<lambda>t h. threadlistnode_init h t) T h) (TlThread t) = None"
proof (induction T arbitrary: h)
  case (Cons a T)
  show ?case using Cons.prems
    by simp (rule Cons.IH, auto simp: threadlistnode_init_def set_self_def set_next_def set_prev_def)
qed simp

lemma list_init_fold:
  "l \<in> set ls \<or> tl_list h l [] \<Longrightarrow> tl_list (fold (\<lambda>l h. threadlist_init h l) ls h) l []"
  "tln_self (fold (\<lambda>l h. threadlist_init h l) ls h) (TlThread t) = tln_self h (TlThread t) \<and>
   tln_next (fold (\<lambda>l h. threadlist_init h l) ls h) (TlThread t) = tln_next h (TlThread t) \<and>
   tln_prev (fold (\<lambda>l h. threadlist_init h l) ls h) (TlThread t) = tln_prev h (TlThread t)"
proof (induction ls arbitrary: h)
  case (Cons a ls)
  { case 1
    then show ?case
      by simp (rule Cons.IH(1), auto simp: threadlist_init_def set_self_def set_next_def set_prev_def set_count_def
          tl_list_def nodes_def Let_def)
  next
    case 2
    then show ?case
      using Cons.IH(2) [of "threadlist_init h a"]
      by (simp add: threadlist_init_def set_self_def set_next_def set_prev_def set_count_def Let_def) }
qed simp_all

lemma tl_start_sim: "tl_sim (set T) (tl_start ls T h) (\<lambda>l. if l \<in> set ls then Some [] else None)"
  using node_init_fold [of _ T h] list_init_fold(1) [of _ ls "fold (\<lambda>t h. threadlistnode_init h t) T h"]
    list_init_fold(2) [of ls "fold (\<lambda>t h. threadlistnode_init h t) T h"]
  by (auto simp: tl_sim_def tl_rep_def tl_free_def idle_def tl_start_def split: if_splits)

text \<open>
  C26. Thread lists are sequences. Start with freshly initialised lists and thread nodes and make
  any series of calls in which a thread is added only while it is on no list: the linked code
  returns what the sequences of threads would return, call by call, and ends with nodes linked
  in both directions in the order of those sequences and counts equal to their lengths. From there
  the loop that empties one list into another terminates and appends the first to the second.
\<close>

theorem threadlist_refines:
  assumes "seq_run (set T) cs (\<lambda>l. if l \<in> set ls then Some [] else None) rs L"
  shows "\<exists>h'. tl_run cs (tl_start ls T h) = Some (rs, h') \<and>
     (\<forall>l ts. L l = Some ts \<longrightarrow> linked h' (nodes l ts) \<and> tl_count h' l = length ts \<and>
        (threadlist_isempty h' l \<longleftrightarrow> ts = [])) \<and>
     (\<forall>a b ts us. L a = Some ts \<longrightarrow> L b = Some us \<longrightarrow> a \<noteq> b \<longrightarrow> length ts + length us < 2 ^ 32 \<longrightarrow>
        (\<exists>h''. move_all threadlist_remhead threadlist_addtail h' a b = Some h'' \<and>
           linked h'' (nodes b (us @ ts)) \<and> threadlist_isempty h'' a))"
proof -
  from tl_run_refines [OF assms tl_start_sim] obtain h' where
    h': "tl_run cs (tl_start ls T h) = Some (rs, h')" "tl_rep h' L" by (auto simp: tl_sim_def)
  have "linked h' (nodes l ts) \<and> tl_count h' l = length ts \<and> (threadlist_isempty h' l \<longleftrightarrow> ts = [])"
    if "L l = Some ts" for l ts using tl_repD(1) [OF h'(2) that] by (simp add: tl_list_def threadlist_isempty_def)
  moreover have "\<exists>h''. move_all threadlist_remhead threadlist_addtail h' a b = Some h'' \<and>
      linked h'' (nodes b (us @ ts)) \<and> threadlist_isempty h'' a"
    if ab: "L a = Some ts" "L b = Some us" "a \<noteq> b" "length ts + length us < 2 ^ 32" for a b ts us
  proof -
    from tq.move_all_ok [OF h'(2) ab] obtain h'' where
      h'': "move_all threadlist_remhead threadlist_addtail h' a b = Some h''"
        "tl_rep h'' (L(a \<mapsto> [], b \<mapsto> us @ ts))" by blast
    have "tl_list h'' b (us @ ts)" "tl_list h'' a []"
      using tl_repD(1) [OF h''(2), of b "us @ ts"] tl_repD(1) [OF h''(2), of a "[]"] ab(3) by auto
    with h''(1) show ?thesis by (simp add: tl_list_def threadlist_isempty_def)
  qed
  ultimately show ?thesis using h'(1) by blast
qed

theorem threadlist_refines_witness:
  "\<exists>h'. tl_run [AddTail 0 5, AddHead 0 6, RemTail 0, AddTail 1 5, RemHead 0, RemHead 0]
       (tl_start [0, 1] [5, 6] \<lparr>tln_prev = (\<lambda>n. None), tln_next = (\<lambda>n. None), tln_self = (\<lambda>n. None), tl_count = (\<lambda>l. 0)\<rparr>) = Some ([None, None, Some 5, None, Some 6, None], h') \<and>
     tl_count h' 1 = 1 \<and> threadlist_isempty h' 0"
proof -
  let ?L0 = "\<lambda>l :: nat. if l \<in> set [0, 1] then Some ([] :: nat list) else None"
  let ?L2 = "?L0(0 \<mapsto> [5], 0 \<mapsto> [6, 5])"
  have i: "idle (set [5, 6]) ?L0 5" "idle (set [5, 6]) (?L0(0 \<mapsto> [5])) 6" "idle (set [5, 6]) (?L2(0 \<mapsto> [6])) 5"
    by (auto simp: idle_def split: if_splits)
  have "seq_run (set [5, 6]) [AddTail 0 5, AddHead 0 6, RemTail 0, AddTail 1 5, RemHead 0, RemHead 0]
     ?L0 [None, None, Some 5, None, Some 6, None] (?L2(0 \<mapsto> [6], 1 \<mapsto> [5], 0 \<mapsto> []))"
    using add_tail [of ?L0 0 "[]" "set [5, 6]" 5] add_head [of "?L0(0 \<mapsto> [5])" 0 "[5]" "set [5, 6]" 6]
      rem_tail [of ?L2 0 "[6]" 5 "set [5, 6]"] add_tail [of "?L2(0 \<mapsto> [6])" 1 "[]" "set [5, 6]" 5]
      rem_head [of "?L2(0 \<mapsto> [6], 1 \<mapsto> [5])" 0 6 "[]" "set [5, 6]"]
      rem_head_empty [of "?L2(0 \<mapsto> [6], 1 \<mapsto> [5], 0 \<mapsto> [])" 0 "set [5, 6]"] i
    by (intro seq_run.intros) (auto intro: seq_run.nil)
  from threadlist_refines [OF this, of "\<lparr>tln_prev = (\<lambda>n. None), tln_next = (\<lambda>n. None), tln_self = (\<lambda>n. None), tl_count = (\<lambda>l. 0)\<rparr>"] obtain h' where
    h': "tl_run [AddTail 0 5, AddHead 0 6, RemTail 0, AddTail 1 5, RemHead 0, RemHead 0]
       (tl_start [0, 1] [5, 6] \<lparr>tln_prev = (\<lambda>n. None), tln_next = (\<lambda>n. None), tln_self = (\<lambda>n. None), tl_count = (\<lambda>l. 0)\<rparr>) = Some ([None, None, Some 5, None, Some 6, None], h')"
      "\<forall>l ts. (?L2(0 \<mapsto> [6], 1 \<mapsto> [5], 0 \<mapsto> [])) l = Some ts \<longrightarrow> linked h' (nodes l ts) \<and> tl_count h' l = length ts \<and>
        (threadlist_isempty h' l \<longleftrightarrow> ts = [])" by blast
  have "tl_count h' 1 = 1" using h'(2) [rule_format, of 1 "[5]"] by simp
  moreover have "threadlist_isempty h' 0" using h'(2) [rule_format, of 0 "[]"] by simp
  ultimately show ?thesis using h'(1) by blast
qed

end
