(* ===== verification/Kern_Synch.thy ===== *)
theory Kern_Synch
  imports Kern_Spinlock
begin

section \<open>Semaphores, locks and condition variables: \<open>kern/thread/synch.c\<close>\<close>

text \<open>
  Threads run on CPUs and interleave at the calls on spinlocks and wait channels: a step of a
  thread is one such call, or the statements between two of them. An object has a spinlock, a
  wait channel with its own spinlock, and a value. Object 0 is the semaphore or the lock, object
  1 the condition variable. A thread that waits for a spinlock makes no step; a thread may lose
  its CPU only while interrupts are on (\<open>Kern_Spinlock\<close>). Queues of threads are sequences
  (\<open>Kern_Threadlist\<close>).

  \<open>P\<close> and \<open>lock_acquire\<close> are the same code over a different test and assignment, and so are \<open>V\<close>
  and \<open>lock_release\<close>: they are steps over the operations of the value, \<open>sem_ops\<close> and \<open>lock_ops\<close>.

  The lemmas show that no assertion fails, that no wakeup is lost and that the threads inside
  these operations cannot block each other for ever.
\<close>

subsection \<open>The machine\<close>

type_synonym thread = nat

datatype lname = Spin nat | Wc nat

datatype trun = OnCpu cpu | Ready | Asleep

text \<open>Positions inside \<open>wchan_wakeone\<close>, \<open>P\<close> or \<open>lock_acquire\<close>, \<open>V\<close> or \<open>lock_release\<close>, and the operations on
  condition variables. The argument of \<open>W_ready\<close> and \<open>B_ready\<close> are threads taken from the channel
  and not yet runnable.\<close>

datatype wpc = W_lock | W_pop | W_ready "thread option"

datatype apc = A_spin | A_test | A_wlock | A_unspin | A_sleep | A_asleep | A_out

datatype rpc = R_spin | R_give | R_wake wpc | R_out

datatype pc =
    Idle
  | Acq apc
  | Rel rpc
  | Wait_spin | Wait_rel rpc | Wait_wlock | Wait_unspin | Wait_sleep | Wait_asleep | Wait_acq apc
  | Sig_spin | Sig_wake wpc | Sig_out
  | B_spin | B_lock | B_pop | B_ready "thread list" | B_out

record 'v mstate =
  m_val :: 'v
  m_spin :: "lname \<Rightarrow> spinlock"
  m_wq :: "nat \<Rightarrow> thread list"
  m_run :: "thread \<Rightarrow> trun"
  m_ipl :: "thread \<Rightarrow> thread_ipl"
  m_pc :: "thread \<Rightarrow> pc"

definition goto :: "'v mstate \<Rightarrow> thread \<Rightarrow> pc \<Rightarrow> 'v mstate" where
  "goto s t p = s\<lparr>m_pc := (m_pc s)(t := p)\<rparr>"

text \<open>
  Calls on spinlocks by thread \<open>t\<close> on CPU \<open>c\<close>, continuing at \<open>p\<close>. The result is \<open>None\<close> for a panic
  and \<open>Some None\<close> while the thread spins. \<open>wchan_lock_step\<close> and \<open>wchan_unlock_step\<close> are these calls on the
  spinlock of the channel.
\<close>

definition m_acquire :: "'v mstate \<Rightarrow> thread \<Rightarrow> cpu \<Rightarrow> lname \<Rightarrow> pc \<Rightarrow> 'v mstate option option" where
  "m_acquire s t c n p =
     map_option (map_option (\<lambda>(ipl, lk).
       goto (s\<lparr>m_ipl := (m_ipl s)(t := ipl), m_spin := (m_spin s)(n := lk)\<rparr>) t p))
       (spinlock_acquire (Some c) (m_ipl s t) (m_spin s n))"

definition m_release :: "'v mstate \<Rightarrow> thread \<Rightarrow> cpu \<Rightarrow> lname \<Rightarrow> pc \<Rightarrow> 'v mstate option" where
  "m_release s t c n p =
     map_option (\<lambda>(ipl, lk).
       goto (s\<lparr>m_ipl := (m_ipl s)(t := ipl), m_spin := (m_spin s)(n := lk)\<rparr>) t p)
       (spinlock_release (Some c) (m_ipl s t) (m_spin s n))"

definition wchan_lock_step :: "'v mstate \<Rightarrow> thread \<Rightarrow> cpu \<Rightarrow> nat \<Rightarrow> pc \<Rightarrow> 'v mstate option option" where
  "wchan_lock_step s t c i p = m_acquire s t c (Wc i) p"

definition wchan_unlock_step :: "'v mstate \<Rightarrow> thread \<Rightarrow> cpu \<Rightarrow> nat \<Rightarrow> pc \<Rightarrow> 'v mstate option" where
  "wchan_unlock_step s t c i p = m_release s t c (Wc i) p"

text \<open>
  \<open>wchan_sleep_step\<close>: \<open>thread_switch\<close> puts the thread on the channel, unlocks the channel and gives the
  CPU away.
\<close>

definition wchan_sleep_step :: "'v mstate \<Rightarrow> thread \<Rightarrow> cpu \<Rightarrow> nat \<Rightarrow> pc \<Rightarrow> 'v mstate option" where
  "wchan_sleep_step s t c i p = do {
     s' \<leftarrow> wchan_unlock_step (s\<lparr>m_wq := (m_wq s)(i := m_wq s i @ [t])\<rparr>) t c i p;
     Some (s'\<lparr>m_run := (m_run s')(t := Asleep)\<rparr>)
   }"

definition wake_thread :: "'v mstate \<Rightarrow> thread \<Rightarrow> 'v mstate" where
  "wake_thread s u = s\<lparr>m_run := (m_run s)(u := Ready)\<rparr>"

text \<open>\<open>wchan_wakeone\<close> on channel \<open>i\<close>, inside a caller with positions \<open>K\<close>, returning to \<open>ret\<close>.\<close>

fun wakeone_step ::
  "nat \<Rightarrow> (wpc \<Rightarrow> pc) \<Rightarrow> pc \<Rightarrow> 'v mstate \<Rightarrow> thread \<Rightarrow> cpu \<Rightarrow> wpc \<Rightarrow> 'v mstate option option" where
  "wakeone_step i K ret s t c W_lock = wchan_lock_step s t c i (K W_pop)"
| "wakeone_step i K ret s t c W_pop =
     (case m_wq s i of
        [] \<Rightarrow> map_option Some (wchan_unlock_step s t c i (K (W_ready None)))
      | u # us \<Rightarrow> map_option Some (wchan_unlock_step (s\<lparr>m_wq := (m_wq s)(i := us)\<rparr>) t c i (K (W_ready (Some u)))))"
| "wakeone_step i K ret s t c (W_ready None) = Some (Some (goto s t ret))"
| "wakeone_step i K ret s t c (W_ready (Some u)) = Some (Some (goto (wake_thread s u) t ret))"

subsection \<open>Values\<close>

text \<open>
  What \<open>P\<close> and \<open>lock_acquire\<close>, \<open>V\<close> and \<open>lock_release\<close> do to the value of their object: the condition
  of the wait loop, the assertion and assignment after it, the assertion on entry to a release
  and the assignment in it.
\<close>

record 'v sync_ops =
  must_wait :: "'v \<Rightarrow> bool"
  take_it :: "thread \<Rightarrow> 'v \<Rightarrow> 'v option"
  may_give :: "thread \<Rightarrow> 'v \<Rightarrow> bool"
  give_it :: "thread \<Rightarrow> 'v \<Rightarrow> 'v option"

record semaphore =
  sem_count :: int

definition sem_ops :: "semaphore sync_ops" where
  "sem_ops =
     \<lparr>must_wait = (\<lambda>sem. sem_count sem = 0),
      take_it = (\<lambda>t sem. do {
        kassert (sem_count sem > 0);
        Some (sem\<lparr>sem_count := swrap32 (sem_count sem - 1)\<rparr>)
      }),
      may_give = (\<lambda>t sem. True),
      give_it = (\<lambda>t sem. do {
        let sem' = sem\<lparr>sem_count := swrap32 (sem_count sem + 1)\<rparr>;
        kassert (sem_count sem' > 0);
        Some sem'
      })\<rparr>"

record lock =
  is_locked :: bool
  lk_owner :: "thread option"

definition lock_do_i_hold :: "thread \<Rightarrow> lock \<Rightarrow> bool" where
  "lock_do_i_hold curthread lock \<longleftrightarrow> lk_owner lock = Some curthread"

definition lock_ops :: "lock sync_ops" where
  "lock_ops =
     \<lparr>must_wait = is_locked,
      take_it = (\<lambda>t lock. do {
        kassert (\<not> is_locked lock);
        Some (lock\<lparr>is_locked := True, lk_owner := Some t\<rparr>)
      }),
      may_give = lock_do_i_hold,
      give_it = (\<lambda>t lock. Some (lock\<lparr>is_locked := False, lk_owner := None\<rparr>))\<rparr>"

text \<open>
  Creation, with the outcomes of the allocations of the object, its name and its channel. A new
  lock has whatever its memory held in \<open>lk_owner\<close>.
\<close>

definition sem_create :: "bool \<Rightarrow> bool \<Rightarrow> bool \<Rightarrow> int \<Rightarrow> semaphore option option" where
  "sem_create m_sem m_name m_wchan initial_count = do {
     kassert (initial_count \<ge> 0);
     Some (if m_sem \<and> m_name \<and> m_wchan then Some \<lparr>sem_count = initial_count\<rparr> else None)
   }"

definition lock_create :: "bool \<Rightarrow> bool \<Rightarrow> bool \<Rightarrow> thread option \<Rightarrow> lock option" where
  "lock_create m_lock m_name m_wchan junk =
     (if m_lock \<and> m_name \<and> m_wchan then Some \<lparr>is_locked = False, lk_owner = junk\<rparr> else None)"

definition cv_create :: "bool \<Rightarrow> bool \<Rightarrow> bool \<Rightarrow> unit option" where
  "cv_create m_cv m_name m_wchan = (if m_cv \<and> m_name \<and> m_wchan then Some () else None)"

text \<open>Destruction of an object: its spinlock and its channel must be free and the channel empty.\<close>

definition wchan_destroy :: "'v mstate \<Rightarrow> nat \<Rightarrow> unit option" where
  "wchan_destroy s i = do {
     spinlock_cleanup (m_spin s (Wc i));
     kassert (m_wq s i = [])
   }"

definition obj_destroy :: "'v mstate \<Rightarrow> nat \<Rightarrow> unit option" where
  "obj_destroy s i = do {
     spinlock_cleanup (m_spin s (Spin i));
     wchan_destroy s i
   }"

subsection \<open>The operations\<close>

text \<open>\<open>P\<close> and \<open>lock_acquire\<close>, inside a caller with positions \<open>K\<close>, returning to \<open>ret\<close>.\<close>

fun acq_step ::
  "'v sync_ops \<Rightarrow> (apc \<Rightarrow> pc) \<Rightarrow> pc \<Rightarrow> 'v mstate \<Rightarrow> thread \<Rightarrow> cpu \<Rightarrow> apc \<Rightarrow> 'v mstate option option" where
  "acq_step ops K ret s t c A_spin = m_acquire s t c (Spin 0) (K A_test)"
| "acq_step ops K ret s t c A_test =
     (if must_wait ops (m_val s) then Some (Some (goto s t (K A_wlock)))
      else do {
        v \<leftarrow> take_it ops t (m_val s);
        Some (Some (goto (s\<lparr>m_val := v\<rparr>) t (K A_out)))
      })"
| "acq_step ops K ret s t c A_wlock = wchan_lock_step s t c 0 (K A_unspin)"
| "acq_step ops K ret s t c A_unspin = map_option Some (m_release s t c (Spin 0) (K A_sleep))"
| "acq_step ops K ret s t c A_sleep = map_option Some (wchan_sleep_step s t c 0 (K A_asleep))"
| "acq_step ops K ret s t c A_asleep = m_acquire s t c (Spin 0) (K A_test)"
| "acq_step ops K ret s t c A_out = map_option Some (m_release s t c (Spin 0) ret)"

text \<open>\<open>V\<close> and \<open>lock_release\<close>.\<close>

fun rel_step ::
  "'v sync_ops \<Rightarrow> (rpc \<Rightarrow> pc) \<Rightarrow> pc \<Rightarrow> 'v mstate \<Rightarrow> thread \<Rightarrow> cpu \<Rightarrow> rpc \<Rightarrow> 'v mstate option option" where
  "rel_step ops K ret s t c R_spin = do {
     kassert (may_give ops t (m_val s));
     m_acquire s t c (Spin 0) (K R_give)
   }"
| "rel_step ops K ret s t c R_give = do {
     v \<leftarrow> give_it ops t (m_val s);
     Some (Some (goto (s\<lparr>m_val := v\<rparr>) t (K (R_wake W_lock))))
   }"
| "rel_step ops K ret s t c (R_wake w) = wakeone_step 0 (\<lambda>w. K (R_wake w)) (K R_out) s t c w"
| "rel_step ops K ret s t c R_out = map_option Some (m_release s t c (Spin 0) ret)"

definition P_step :: "semaphore mstate \<Rightarrow> thread \<Rightarrow> cpu \<Rightarrow> apc \<Rightarrow> semaphore mstate option option" where
  "P_step = acq_step sem_ops Acq Idle"

definition V_step :: "semaphore mstate \<Rightarrow> thread \<Rightarrow> cpu \<Rightarrow> rpc \<Rightarrow> semaphore mstate option option" where
  "V_step = rel_step sem_ops Rel Idle"

definition lock_acquire_step :: "lock mstate \<Rightarrow> thread \<Rightarrow> cpu \<Rightarrow> apc \<Rightarrow> lock mstate option option" where
  "lock_acquire_step = acq_step lock_ops Acq Idle"

definition lock_release_step :: "lock mstate \<Rightarrow> thread \<Rightarrow> cpu \<Rightarrow> rpc \<Rightarrow> lock mstate option option" where
  "lock_release_step = rel_step lock_ops Rel Idle"

text \<open>
  A step of thread \<open>t\<close> at position \<open>p\<close>: \<open>P\<close> or \<open>lock_acquire\<close>, \<open>V\<close> or \<open>lock_release\<close>, then \<open>cv_wait\<close>,
  \<open>cv_signal\<close> and \<open>cv_broadcast\<close>.
\<close>

fun cv_wait_step :: "'v sync_ops \<Rightarrow> 'v mstate \<Rightarrow> thread \<Rightarrow> cpu \<Rightarrow> pc \<Rightarrow> 'v mstate option option" where
  "cv_wait_step ops s t c Wait_spin = do {
     kassert (may_give ops t (m_val s));
     m_acquire s t c (Spin 1) (Wait_rel R_spin)
   }"
| "cv_wait_step ops s t c (Wait_rel r) = rel_step ops Wait_rel Wait_wlock s t c r"
| "cv_wait_step ops s t c Wait_wlock = wchan_lock_step s t c 1 Wait_unspin"
| "cv_wait_step ops s t c Wait_unspin = map_option Some (m_release s t c (Spin 1) Wait_sleep)"
| "cv_wait_step ops s t c Wait_sleep = map_option Some (wchan_sleep_step s t c 1 Wait_asleep)"
| "cv_wait_step ops s t c Wait_asleep = Some (Some (goto s t (Wait_acq A_spin)))"
| "cv_wait_step ops s t c (Wait_acq a) = acq_step ops Wait_acq Idle s t c a"
| "cv_wait_step ops s t c _ = Some None"

fun cv_signal_step :: "'v sync_ops \<Rightarrow> 'v mstate \<Rightarrow> thread \<Rightarrow> cpu \<Rightarrow> pc \<Rightarrow> 'v mstate option option" where
  "cv_signal_step ops s t c Sig_spin = do {
     kassert (may_give ops t (m_val s));
     m_acquire s t c (Spin 1) (Sig_wake W_lock)
   }"
| "cv_signal_step ops s t c (Sig_wake w) = wakeone_step 1 Sig_wake Sig_out s t c w"
| "cv_signal_step ops s t c Sig_out = map_option Some (m_release s t c (Spin 1) Idle)"
| "cv_signal_step ops s t c _ = Some None"

text \<open>\<open>cv_broadcast\<close>, with \<open>wchan_wakeall\<close>: the whole channel is taken to a private list first.\<close>

fun cv_broadcast_step :: "'v sync_ops \<Rightarrow> 'v mstate \<Rightarrow> thread \<Rightarrow> cpu \<Rightarrow> pc \<Rightarrow> 'v mstate option option" where
  "cv_broadcast_step ops s t c B_spin = do {
     kassert (may_give ops t (m_val s));
     m_acquire s t c (Spin 1) B_lock
   }"
| "cv_broadcast_step ops s t c B_lock = wchan_lock_step s t c 1 B_pop"
| "cv_broadcast_step ops s t c B_pop =
     map_option Some (wchan_unlock_step (s\<lparr>m_wq := (m_wq s)(1 := [])\<rparr>) t c 1 (B_ready (m_wq s 1)))"
| "cv_broadcast_step ops s t c (B_ready []) = Some (Some (goto s t B_out))"
| "cv_broadcast_step ops s t c (B_ready (u # us)) = Some (Some (goto (wake_thread s u) t (B_ready us)))"
| "cv_broadcast_step ops s t c B_out = map_option Some (m_release s t c (Spin 1) Idle)"
| "cv_broadcast_step ops s t c _ = Some None"

fun mstep :: "'v sync_ops \<Rightarrow> 'v mstate \<Rightarrow> thread \<Rightarrow> cpu \<Rightarrow> pc \<Rightarrow> 'v mstate option option" where
  "mstep ops s t c Idle = Some None"
| "mstep ops s t c (Acq a) = acq_step ops Acq Idle s t c a"
| "mstep ops s t c (Rel r) = rel_step ops Rel Idle s t c r"
| "mstep ops s t c Wait_spin = cv_wait_step ops s t c Wait_spin"
| "mstep ops s t c (Wait_rel r) = cv_wait_step ops s t c (Wait_rel r)"
| "mstep ops s t c Wait_wlock = cv_wait_step ops s t c Wait_wlock"
| "mstep ops s t c Wait_unspin = cv_wait_step ops s t c Wait_unspin"
| "mstep ops s t c Wait_sleep = cv_wait_step ops s t c Wait_sleep"
| "mstep ops s t c Wait_asleep = cv_wait_step ops s t c Wait_asleep"
| "mstep ops s t c (Wait_acq a) = cv_wait_step ops s t c (Wait_acq a)"
| "mstep ops s t c Sig_spin = cv_signal_step ops s t c Sig_spin"
| "mstep ops s t c (Sig_wake w) = cv_signal_step ops s t c (Sig_wake w)"
| "mstep ops s t c Sig_out = cv_signal_step ops s t c Sig_out"
| "mstep ops s t c B_spin = cv_broadcast_step ops s t c B_spin"
| "mstep ops s t c B_lock = cv_broadcast_step ops s t c B_lock"
| "mstep ops s t c B_pop = cv_broadcast_step ops s t c B_pop"
| "mstep ops s t c (B_ready us) = cv_broadcast_step ops s t c (B_ready us)"
| "mstep ops s t c B_out = cv_broadcast_step ops s t c B_out"

subsection \<open>Who holds which spinlock\<close>

fun heldW :: "nat \<Rightarrow> wpc \<Rightarrow> lname set" where
  "heldW i W_pop = {Wc i}"
| "heldW i _ = {}"

fun heldA :: "apc \<Rightarrow> lname set" where
  "heldA A_spin = {}"
| "heldA A_test = {Spin 0}"
| "heldA A_wlock = {Spin 0}"
| "heldA A_unspin = {Spin 0, Wc 0}"
| "heldA A_sleep = {Wc 0}"
| "heldA A_asleep = {}"
| "heldA A_out = {Spin 0}"

fun heldR :: "rpc \<Rightarrow> lname set" where
  "heldR R_spin = {}"
| "heldR R_give = {Spin 0}"
| "heldR (R_wake w) = insert (Spin 0) (heldW 0 w)"
| "heldR R_out = {Spin 0}"

fun held :: "pc \<Rightarrow> lname set" where
  "held Idle = {}"
| "held (Acq a) = heldA a"
| "held (Rel r) = heldR r"
| "held Wait_spin = {}"
| "held (Wait_rel r) = insert (Spin 1) (heldR r)"
| "held Wait_wlock = {Spin 1}"
| "held Wait_unspin = {Spin 1, Wc 1}"
| "held Wait_sleep = {Wc 1}"
| "held Wait_asleep = {}"
| "held (Wait_acq a) = heldA a"
| "held Sig_spin = {}"
| "held (Sig_wake w) = insert (Spin 1) (heldW 1 w)"
| "held Sig_out = {Spin 1}"
| "held B_spin = {}"
| "held B_lock = {Spin 1}"
| "held B_pop = {Spin 1, Wc 1}"
| "held (B_ready us) = {Spin 1}"
| "held B_out = {Spin 1}"

lemma finite_heldW [simp]: "finite (heldW i w)" by (cases w) auto
lemma finite_heldA [simp]: "finite (heldA a)" by (cases a) auto
lemma finite_heldR [simp]: "finite (heldR r)" by (cases r) auto
lemma finite_held [simp]: "finite (held p)" by (cases p) auto

definition spin_inv :: "'v mstate \<Rightarrow> bool" where
  "spin_inv s \<longleftrightarrow> (\<forall>n. spinlock_wf (m_spin s n)) \<and>
     (\<forall>n c. lk_holder (m_spin s n) = Some c \<longleftrightarrow> (\<exists>t. m_run s t = OnCpu c \<and> n \<in> held (m_pc s t))) \<and>
     (\<forall>t u c. m_run s t = OnCpu c \<longrightarrow> m_run s u = OnCpu c \<longrightarrow> t = u) \<and>
     (\<forall>t. (\<exists>c. m_run s t = OnCpu c) \<or> held (m_pc s t) = {}) \<and>
     (\<forall>t. ipl_ok (card (held (m_pc s t))) (m_ipl s t))"

lemma spin_invD:
  assumes "spin_inv s"
  shows "spinlock_wf (m_spin s n)"
    "lk_holder (m_spin s n) = Some c \<longleftrightarrow> (\<exists>t. m_run s t = OnCpu c \<and> n \<in> held (m_pc s t))"
    "m_run s t = OnCpu c \<Longrightarrow> m_run s u = OnCpu c \<Longrightarrow> t = u"
    "n \<in> held (m_pc s t) \<Longrightarrow> \<exists>c. m_run s t = OnCpu c"
    "ipl_ok (card (held (m_pc s t))) (m_ipl s t)"
  using assms by (auto simp: spin_inv_def)

lemma spin_invI:
  assumes "\<And>n. spinlock_wf (m_spin s n)"
    and "\<And>n c. lk_holder (m_spin s n) = Some c \<longleftrightarrow> (\<exists>t. m_run s t = OnCpu c \<and> n \<in> held (m_pc s t))"
    and "\<And>t u c. m_run s t = OnCpu c \<Longrightarrow> m_run s u = OnCpu c \<Longrightarrow> t = u"
    and "\<And>t n. n \<in> held (m_pc s t) \<Longrightarrow> \<exists>c. m_run s t = OnCpu c"
    and "\<And>t. ipl_ok (card (held (m_pc s t))) (m_ipl s t)"
  shows "spin_inv s"
  unfolding spin_inv_def using assms by (intro conjI allI impI) blast+

text \<open>At most one thread is inside a section guarded by a spinlock.\<close>

lemma held_unique:
  assumes "spin_inv s" and "n \<in> held (m_pc s t)" and "n \<in> held (m_pc s u)"
  shows "t = u"
proof -
  obtain c d where "m_run s t = OnCpu c" "m_run s u = OnCpu d"
    using spin_invD(4) [OF assms(1)] assms(2,3) by blast
  moreover from this assms have "lk_holder (m_spin s n) = Some c" "lk_holder (m_spin s n) = Some d"
    using spin_invD(2) [OF assms(1)] by blast+
  ultimately show ?thesis using spin_invD(3) [OF assms(1)] by auto
qed

lemma goto_simps [simp]:
  "m_val (goto s t p) = m_val s" "m_spin (goto s t p) = m_spin s" "m_wq (goto s t p) = m_wq s"
  "m_run (goto s t p) = m_run s" "m_ipl (goto s t p) = m_ipl s" "m_pc (goto s t p) = (m_pc s)(t := p)"
  by (simp_all add: goto_def)

lemma make_runnable_simps [simp]:
  "m_val (wake_thread s u) = m_val s" "m_spin (wake_thread s u) = m_spin s"
  "m_wq (wake_thread s u) = m_wq s" "m_run (wake_thread s u) = (m_run s)(u := Ready)"
  "m_ipl (wake_thread s u) = m_ipl s" "m_pc (wake_thread s u) = m_pc s"
  by (simp_all add: wake_thread_def)

text \<open>A call that succeeds changes the lock, the level and the position, nothing else.\<close>

definition acquired :: "'v mstate \<Rightarrow> thread \<Rightarrow> cpu \<Rightarrow> lname \<Rightarrow> pc \<Rightarrow> 'v mstate \<Rightarrow> bool" where
  "acquired s t c n p s' \<longleftrightarrow> m_val s' = m_val s \<and> m_wq s' = m_wq s \<and> m_run s' = m_run s \<and> m_pc s' = (m_pc s)(t := p) \<and>
     lk_holder (m_spin s n) = None \<and> m_spin s' = (m_spin s)(n := \<lparr>lk_lock = 1, lk_holder = Some c\<rparr>) \<and>
     m_ipl s' = (m_ipl s)(t := (m_ipl s t)\<lparr>irq_on := (irq_on (m_ipl s t) \<and> t_iplhigh_count (m_ipl s t) \<noteq> 0),
       t_iplhigh_count := t_iplhigh_count (m_ipl s t) + 1\<rparr>)"

definition released :: "'v mstate \<Rightarrow> thread \<Rightarrow> cpu \<Rightarrow> lname \<Rightarrow> pc \<Rightarrow> 'v mstate \<Rightarrow> bool" where
  "released s t c n p s' \<longleftrightarrow> m_val s' = m_val s \<and> m_wq s' = m_wq s \<and> m_run s' = m_run s \<and> m_pc s' = (m_pc s)(t := p) \<and>
     m_spin s' = (m_spin s)(n := spinlock_init) \<and>
     m_ipl s' = (m_ipl s)(t := (m_ipl s t)\<lparr>irq_on := (irq_on (m_ipl s t) \<or> t_iplhigh_count (m_ipl s t) = 1),
       t_iplhigh_count := t_iplhigh_count (m_ipl s t) - 1\<rparr>)"

lemma m_acquire_cases:
  assumes "spin_inv s" and "m_run s t = OnCpu c" and "n \<notin> held (m_pc s t)"
  obtains u where "u \<noteq> t" "n \<in> held (m_pc s u)" "m_acquire s t c n p = Some None"
  | s' where "m_acquire s t c n p = Some (Some s')" "acquired s t c n p s'"
proof -
  have nc: "lk_holder (m_spin s n) \<noteq> Some c"
    using spin_invD(2) [OF assms(1), of n c] spin_invD(3) [OF assms(1) assms(2)] assms(3) by auto
  show ?thesis
  proof (cases "lk_holder (m_spin s n)")
    case None
    then have "\<exists>s'. m_acquire s t c n p = Some (Some s') \<and> acquired s t c n p s'"
      using spinlock_acquire_cases [OF spin_invD(1) [OF assms(1), of n], of c "m_ipl s t"]
      by (simp add: m_acquire_def acquired_def goto_def)
    then show ?thesis using that(2) by blast
  next
    case (Some d)
    then obtain u where "m_run s u = OnCpu d" "n \<in> held (m_pc s u)" using spin_invD(2) [OF assms(1)] by blast
    with Some nc assms(2,3) that(1) [of u] spinlock_acquire_cases [OF spin_invD(1) [OF assms(1), of n], of c "m_ipl s t"]
    show ?thesis by (auto simp: m_acquire_def)
  qed
qed

lemma m_release_ok:
  assumes "spin_inv s" and "m_run s t = OnCpu c" and "n \<in> held (m_pc s t)"
  obtains s' where "m_release s t c n p = Some s'" "released s t c n p s'"
proof -
  have "lk_holder (m_spin s n) = Some c" using spin_invD(2) [OF assms(1)] assms(2,3) by blast
  then have "\<exists>s'. m_release s t c n p = Some s' \<and> released s t c n p s'"
    by (simp add: m_release_def released_def goto_def spinlock_release_cases)
  then show ?thesis using that by blast
qed

lemma spin_inv_acquired:
  assumes inv: "spin_inv s" and t: "m_run s t = OnCpu c" and a: "acquired s t c n p s'"
    and h: "held p = insert n (held (m_pc s t))" and new: "n \<notin> held (m_pc s t)"
  shows "spin_inv s'"
proof -
  note i = spin_invD [OF inv]
  have free: "n \<notin> held (m_pc s u)" for u
    using i(2) [of n] i(4) [of n u] a by (fastforce simp: acquired_def)
  have ipl: "ipl_ok (card (held (m_pc s' u))) (m_ipl s' u)" for u
    using a h new acquire_ipl_ok [OF i(5) [of t]] i(5) [of u] by (simp add: acquired_def)
  have hold: "lk_holder (m_spin s' k) = Some d \<longleftrightarrow> (\<exists>u. m_run s' u = OnCpu d \<and> k \<in> held (m_pc s' u))" for k d
  proof (cases "k = n")
    case True
    then show ?thesis using a t h free by (auto simp: acquired_def split: if_splits)
  next
    case False
    then show ?thesis using a h i(2) [of k d] by (auto simp: acquired_def)
  qed
  show ?thesis
  proof (rule spin_invI [OF _ hold _ _ ipl])
    show "spinlock_wf (m_spin s' k)" for k using a i(1) [of k] by (simp add: acquired_def spinlock_wf_def)
    show "m_run s' u = OnCpu d \<Longrightarrow> m_run s' w = OnCpu d \<Longrightarrow> u = w" for u w d using a i(3) by (simp add: acquired_def)
    show "\<exists>d. m_run s' u = OnCpu d" if "k \<in> held (m_pc s' u)" for k u
      using that a t i(4) [of k u] by (cases "u = t") (auto simp: acquired_def)
  qed
qed

lemma spin_inv_released:
  assumes inv: "spin_inv s" and t: "m_run s t = OnCpu c" and a: "released s t c n p s'"
    and h: "held p = held (m_pc s t) - {n}" and n: "n \<in> held (m_pc s t)"
  shows "spin_inv s'"
proof -
  note i = spin_invD [OF inv]
  have only: "u = t" if "n \<in> held (m_pc s u)" for u using held_unique [OF inv that n] .
  have "card (held (m_pc s t)) = Suc (card (held p))" unfolding h using n by (intro card.remove) simp_all
  then have "ipl_ok (Suc (card (held p))) (m_ipl s t)" using i(5) [of t] by simp
  then have ipl: "ipl_ok (card (held (m_pc s' u))) (m_ipl s' u)" for u
    using a release_ipl_ok [of "card (held p)" "m_ipl s t"] i(5) [of u] by (simp add: released_def)
  have hold: "lk_holder (m_spin s' k) = Some d \<longleftrightarrow> (\<exists>u. m_run s' u = OnCpu d \<and> k \<in> held (m_pc s' u))" for k d
  proof (cases "k = n")
    case True
    then show ?thesis using a h only by (auto simp: released_def)
  next
    case False
    then show ?thesis using a h i(2) [of k d] by (auto simp: released_def)
  qed
  show ?thesis
  proof (rule spin_invI [OF _ hold _ _ ipl])
    show "spinlock_wf (m_spin s' k)" for k using a i(1) [of k] by (simp add: released_def)
    show "m_run s' u = OnCpu d \<Longrightarrow> m_run s' w = OnCpu d \<Longrightarrow> u = w" for u w d using a i(3) by (simp add: released_def)
    show "\<exists>d. m_run s' u = OnCpu d" if "k \<in> held (m_pc s' u)" for k u
      using that a t i(4) [of k u] by (cases "u = t") (auto simp: released_def)
  qed
qed

text \<open>Steps that touch no spinlock.\<close>

lemma spin_inv_local:
  assumes inv: "spin_inv s" and "held p = held (m_pc s t)" and "m_spin s' = m_spin s" and "m_run s' = m_run s"
    and "m_ipl s' = m_ipl s" and "m_pc s' = (m_pc s)(t := p)"
  shows "spin_inv s'"
proof -
  have h: "held (m_pc s' u) = held (m_pc s u)" for u using assms(2,6) by simp
  show ?thesis using inv unfolding spin_inv_def h assms(3-5) .
qed

text \<open>A thread that holds no spinlock may gain or lose its CPU.\<close>

lemma spin_inv_run:
  assumes inv: "spin_inv s" and "held (m_pc s t) = {}" and "\<And>u c. r = OnCpu c \<Longrightarrow> m_run s u \<noteq> OnCpu c"
    and "m_spin s' = m_spin s" and "m_run s' = (m_run s)(t := r)" and "m_ipl s' = m_ipl s" and "m_pc s' = m_pc s"
  shows "spin_inv s'"
proof -
  note i = spin_invD [OF inv]
  show ?thesis
  proof (rule spin_invI)
    show "spinlock_wf (m_spin s' n)" for n using i(1) assms(4) by simp
    show "lk_holder (m_spin s' n) = Some c \<longleftrightarrow> (\<exists>t. m_run s' t = OnCpu c \<and> n \<in> held (m_pc s' t))" for n c
      using i(2) [of n c] assms(2,4,5,7) by auto
    show "m_run s' u = OnCpu c \<Longrightarrow> m_run s' w = OnCpu c \<Longrightarrow> u = w" for u w c
      using i(3) [of u c w] assms(3) [of c] assms(5) by (auto split: if_splits)
    show "n \<in> held (m_pc s' u) \<Longrightarrow> \<exists>c. m_run s' u = OnCpu c" for n u
      using i(4) [of n u] assms(2,5,7) by auto
    show "ipl_ok (card (held (m_pc s' u))) (m_ipl s' u)" for u using i(5) assms(6,7) by simp
  qed
qed

subsection \<open>Who sleeps where\<close>

fun targetsW :: "wpc \<Rightarrow> thread list" where
  "targetsW (W_ready (Some u)) = [u]"
| "targetsW _ = []"

fun targets :: "pc \<Rightarrow> thread list" where
  "targets (Rel (R_wake w)) = targetsW w"
| "targets (Wait_rel (R_wake w)) = targetsW w"
| "targets (Sig_wake w) = targetsW w"
| "targets (B_ready us) = us"
| "targets _ = []"

fun waits :: "pc \<Rightarrow> nat option" where
  "waits (Acq A_asleep) = Some 0"
| "waits (Wait_acq A_asleep) = Some 0"
| "waits Wait_asleep = Some 1"
| "waits _ = None"

text \<open>
  A thread is asleep exactly when it is on the channel it waits for or has been taken from it by a
  thread about to make it runnable.
\<close>

definition q_inv :: "'v mstate \<Rightarrow> bool" where
  "q_inv s \<longleftrightarrow> (\<forall>i. distinct (m_wq s i)) \<and>
     (\<forall>i t. t \<in> set (m_wq s i) \<longrightarrow> m_run s t = Asleep \<and> waits (m_pc s t) = Some i) \<and>
     (\<forall>t. distinct (targets (m_pc s t))) \<and>
     (\<forall>t u. u \<in> set (targets (m_pc s t)) \<longrightarrow> m_run s u = Asleep \<and> waits (m_pc s u) \<noteq> None \<and> (\<forall>i. u \<notin> set (m_wq s i))) \<and>
     (\<forall>t t' u. u \<in> set (targets (m_pc s t)) \<longrightarrow> u \<in> set (targets (m_pc s t')) \<longrightarrow> t = t') \<and>
     (\<forall>t. m_run s t = Asleep \<longrightarrow> (\<exists>i. t \<in> set (m_wq s i)) \<or> (\<exists>u. t \<in> set (targets (m_pc s u))))"

lemma q_invD:
  assumes "q_inv s"
  shows "distinct (m_wq s i)" "t \<in> set (m_wq s i) \<Longrightarrow> m_run s t = Asleep"
    "t \<in> set (m_wq s i) \<Longrightarrow> waits (m_pc s t) = Some i" "distinct (targets (m_pc s t))"
    "u \<in> set (targets (m_pc s t)) \<Longrightarrow> m_run s u = Asleep" "u \<in> set (targets (m_pc s t)) \<Longrightarrow> waits (m_pc s u) \<noteq> None"
    "u \<in> set (targets (m_pc s t)) \<Longrightarrow> u \<notin> set (m_wq s i)"
    "u \<in> set (targets (m_pc s t)) \<Longrightarrow> u \<in> set (targets (m_pc s t')) \<Longrightarrow> t = t'"
    "m_run s t = Asleep \<Longrightarrow> (\<exists>i. t \<in> set (m_wq s i)) \<or> (\<exists>u. t \<in> set (targets (m_pc s u)))"
  using assms unfolding q_inv_def by blast+

lemma q_invI:
  assumes "\<And>i. distinct (m_wq s i)"
    and "\<And>i t. t \<in> set (m_wq s i) \<Longrightarrow> m_run s t = Asleep \<and> waits (m_pc s t) = Some i"
    and "\<And>t. distinct (targets (m_pc s t))"
    and "\<And>t u i. u \<in> set (targets (m_pc s t)) \<Longrightarrow> m_run s u = Asleep \<and> waits (m_pc s u) \<noteq> None \<and> u \<notin> set (m_wq s i)"
    and "\<And>t t' u. u \<in> set (targets (m_pc s t)) \<Longrightarrow> u \<in> set (targets (m_pc s t')) \<Longrightarrow> t = t'"
    and "\<And>t. m_run s t = Asleep \<Longrightarrow> (\<exists>i. t \<in> set (m_wq s i)) \<or> (\<exists>u. t \<in> set (targets (m_pc s u)))"
  shows "q_inv s"
  unfolding q_inv_def using assms by (intro conjI allI impI) blast+

text \<open>The four ways a step can move threads between CPUs, channels and wakers.\<close>

definition q_plain :: "'v mstate \<Rightarrow> thread \<Rightarrow> 'v mstate \<Rightarrow> bool" where
  "q_plain s t s' \<longleftrightarrow> m_run s' = m_run s \<and> m_wq s' = m_wq s \<and>
     (\<exists>p. m_pc s' = (m_pc s)(t := p) \<and> targets p = targets (m_pc s t))"

definition q_sleep :: "nat \<Rightarrow> 'v mstate \<Rightarrow> thread \<Rightarrow> 'v mstate \<Rightarrow> bool" where
  "q_sleep i s t s' \<longleftrightarrow> m_run s' = (m_run s)(t := Asleep) \<and> m_wq s' = (m_wq s)(i := m_wq s i @ [t]) \<and>
     (\<exists>p. m_pc s' = (m_pc s)(t := p) \<and> waits p = Some i \<and> targets p = []) \<and> targets (m_pc s t) = []"

definition q_pop :: "nat \<Rightarrow> 'v mstate \<Rightarrow> thread \<Rightarrow> 'v mstate \<Rightarrow> bool" where
  "q_pop i s t s' \<longleftrightarrow> m_run s' = m_run s \<and> targets (m_pc s t) = [] \<and>
     (\<exists>us p. m_wq s i = us @ m_wq s' i \<and> m_wq s' = (m_wq s)(i := m_wq s' i) \<and> m_pc s' = (m_pc s)(t := p) \<and> targets p = us)"

definition q_ready :: "'v mstate \<Rightarrow> thread \<Rightarrow> thread \<Rightarrow> 'v mstate \<Rightarrow> bool" where
  "q_ready s t u s' \<longleftrightarrow> m_run s' = (m_run s)(u := Ready) \<and> m_wq s' = m_wq s \<and>
     (\<exists>p. m_pc s' = (m_pc s)(t := p) \<and> targets (m_pc s t) = u # targets p)"

lemma q_inv_plain:
  assumes inv: "q_inv s" and t: "m_run s t \<noteq> Asleep" and st: "q_plain s t s'"
  shows "q_inv s'"
proof -
  note i = q_invD [OF inv]
  from st obtain p where s': "m_run s' = m_run s" "m_wq s' = m_wq s" "m_pc s' = (m_pc s)(t := p)"
    "targets p = targets (m_pc s t)" by (auto simp: q_plain_def)
  have tg: "targets (m_pc s' u) = targets (m_pc s u)" for u using s' by simp
  have w: "waits (m_pc s' u) = waits (m_pc s u)" if "m_run s u = Asleep" for u using that s'(3) t by auto
  show ?thesis
  proof (rule q_invI)
    fix k u v v'
    show "distinct (m_wq s' k)" "distinct (targets (m_pc s' u))" using i(1,4) s'(2) tg by simp_all
    show "u \<in> set (m_wq s' k) \<Longrightarrow> m_run s' u = Asleep \<and> waits (m_pc s' u) = Some k" using i(2,3) s' w by simp
    show "u \<in> set (targets (m_pc s' v)) \<Longrightarrow> m_run s' u = Asleep \<and> waits (m_pc s' u) \<noteq> None \<and> u \<notin> set (m_wq s' k)"
      using i(5-7) s' w tg by metis
    show "u \<in> set (targets (m_pc s' v)) \<Longrightarrow> u \<in> set (targets (m_pc s' v')) \<Longrightarrow> v = v'" using i(8) tg by simp
    show "m_run s' u = Asleep \<Longrightarrow> (\<exists>i. u \<in> set (m_wq s' i)) \<or> (\<exists>v. u \<in> set (targets (m_pc s' v)))"
      using i(9) s'(1,2) tg by simp
  qed
qed

lemma q_inv_sleep:
  assumes inv: "q_inv s" and t: "m_run s t \<noteq> Asleep" and st: "q_sleep j s t s'"
  shows "q_inv s'"
proof -
  note i = q_invD [OF inv]
  from st obtain p where s': "m_run s' = (m_run s)(t := Asleep)" "m_wq s' = (m_wq s)(j := m_wq s j @ [t])"
    "m_pc s' = (m_pc s)(t := p)" "waits p = Some j" "targets p = []" "targets (m_pc s t) = []" by (auto simp: q_sleep_def)
  have tg: "targets (m_pc s' u) = targets (m_pc s u)" for u using s' by simp
  have out: "t \<notin> set (m_wq s k)" "t \<notin> set (targets (m_pc s u))" for k u using i(2,5) t by blast+
  have w: "waits (m_pc s' u) = waits (m_pc s u)" if "u \<noteq> t" for u using that s'(3) by auto
  show ?thesis
  proof (rule q_invI)
    fix k u v v'
    show "distinct (m_wq s' k)" "distinct (targets (m_pc s' u))" using i(1,4) out s'(2) tg by simp_all
    show "u \<in> set (m_wq s' k) \<Longrightarrow> m_run s' u = Asleep \<and> waits (m_pc s' u) = Some k"
      using i(2,3) [of u k] s' w [of u] out(1) [of k] by (cases "u = t") (auto split: if_splits)
    show "u \<in> set (targets (m_pc s' v)) \<Longrightarrow> m_run s' u = Asleep \<and> waits (m_pc s' u) \<noteq> None \<and> u \<notin> set (m_wq s' k)"
      using i(5-7) [of u v] s'(1,2) w [of u] out(2) [of v] tg by auto
    show "u \<in> set (targets (m_pc s' v)) \<Longrightarrow> u \<in> set (targets (m_pc s' v')) \<Longrightarrow> v = v'" using i(8) tg by simp
    show "m_run s' u = Asleep \<Longrightarrow> (\<exists>i. u \<in> set (m_wq s' i)) \<or> (\<exists>v. u \<in> set (targets (m_pc s' v)))"
    proof (cases "u = t")
      case True
      then show ?thesis using s'(2) by (intro disjI1 exI [of _ j]) simp
    next
      case False
      have "u \<in> set (m_wq s k) \<Longrightarrow> u \<in> set (m_wq s' k)" for k using s'(2) by auto
      moreover assume "m_run s' u = Asleep"
      ultimately show ?thesis using i(9) [of u] False s'(1) tg by auto
    qed
  qed
qed

lemma q_inv_pop:
  assumes inv: "q_inv s" and t: "m_run s t \<noteq> Asleep" and st: "q_pop j s t s'"
  shows "q_inv s'"
proof -
  note i = q_invD [OF inv]
  from st obtain us p where s': "m_run s' = m_run s" "targets (m_pc s t) = []" "m_wq s j = us @ m_wq s' j"
    "m_wq s' = (m_wq s)(j := m_wq s' j)" "m_pc s' = (m_pc s)(t := p)" "targets p = us" by (auto simp: q_pop_def)
  have q: "m_wq s' k = (if k = j then m_wq s' j else m_wq s k)" for k using s'(4) by (metis fun_upd_apply)
  have tg: "targets (m_pc s' u) = (if u = t then us else targets (m_pc s u))" for u using s'(5,6) by simp
  have w: "waits (m_pc s' u) = waits (m_pc s u)" if "m_run s u = Asleep" for u using that s'(5) t by auto
  have us: "u \<in> set us \<Longrightarrow> u \<in> set (m_wq s j)" for u using s'(3) by simp
  have sub: "u \<in> set (m_wq s' k) \<Longrightarrow> u \<in> set (m_wq s k)" for u k using q [of k] s'(3) by (auto split: if_splits)
  have d: "distinct (us @ m_wq s' j)" using i(1) [of j] s'(3) by simp
  have usk: "u \<notin> set (m_wq s' k)" if "u \<in> set us" for u k
    using d that i(3) [OF us [OF that]] i(3) [of u k] sub [of u k] q [of k] by (cases "k = j") auto
  show ?thesis
  proof (rule q_invI)
    fix k u v v'
    show "distinct (m_wq s' k)" using i(1) [of k] d q [of k] by auto
    show "distinct (targets (m_pc s' u))" using i(4) [of u] d tg by simp
    show "u \<in> set (m_wq s' k) \<Longrightarrow> m_run s' u = Asleep \<and> waits (m_pc s' u) = Some k" using i(2,3) sub s'(1) w by metis
    show "u \<in> set (targets (m_pc s' v)) \<Longrightarrow> m_run s' u = Asleep \<and> waits (m_pc s' u) \<noteq> None \<and> u \<notin> set (m_wq s' k)"
      using i(2,3) [OF us] i(5,6,7) [of u v] s'(1) w [of u] tg [of v] usk sub [of u k] by (auto split: if_splits)
    show "u \<in> set (targets (m_pc s' v)) \<Longrightarrow> u \<in> set (targets (m_pc s' v')) \<Longrightarrow> v = v'"
      using i(8) [of u v v'] i(7) [of u _ j] us tg [of v] tg [of v'] by (auto split: if_splits)
    show "m_run s' u = Asleep \<Longrightarrow> (\<exists>i. u \<in> set (m_wq s' i)) \<or> (\<exists>v. u \<in> set (targets (m_pc s' v)))"
    proof -
      assume "m_run s' u = Asleep"
      then consider k where "u \<in> set (m_wq s k)" | v where "u \<in> set (targets (m_pc s v))"
        using i(9) [of u] s'(1) by auto
      then show ?thesis
      proof cases
        case (1 k)
        show ?thesis
        proof (cases "k = j \<and> u \<in> set us")
          case True
          then show ?thesis using tg [of t] by auto
        next
          case False
          then have "u \<in> set (m_wq s' k)" using 1 s'(3) q [of k] by auto
          then show ?thesis by blast
        qed
      next
        case (2 v)
        then have "u \<in> set (targets (m_pc s' v))" using tg [of v] s'(2) by (cases "v = t") auto
        then show ?thesis by blast
      qed
    qed
  qed
qed

lemma q_inv_ready:
  assumes inv: "q_inv s" and t: "m_run s t \<noteq> Asleep" and st: "q_ready s t x s'"
  shows "q_inv s'"
proof -
  note i = q_invD [OF inv]
  from st obtain p where s': "m_run s' = (m_run s)(x := Ready)" "m_wq s' = m_wq s" "m_pc s' = (m_pc s)(t := p)"
    "targets (m_pc s t) = x # targets p" by (auto simp: q_ready_def)
  have x: "m_run s x = Asleep" "x \<notin> set (m_wq s k)" "x \<notin> set (targets p)" for k
    using i(5,7) [of x t] i(4) [of t] s'(4) by auto
  have tg: "targets (m_pc s' u) = (if u = t then targets p else targets (m_pc s u))" for u using s'(3) by simp
  have sub: "u \<in> set (targets (m_pc s' v)) \<Longrightarrow> u \<in> set (targets (m_pc s v))" for u v using tg [of v] s'(4) by (auto split: if_splits)
  have nx: "u \<noteq> x" if "u \<in> set (targets (m_pc s' v))" for u v
    using that x(3) i(8) [of x t v] tg [of v] s'(4) by (auto split: if_splits)
  have w: "waits (m_pc s' u) = waits (m_pc s u)" if "m_run s u = Asleep" for u using that s'(3) t by auto
  show ?thesis
  proof (rule q_invI)
    fix k u v v'
    show "distinct (m_wq s' k)" using i(1) s'(2) by simp
    show "distinct (targets (m_pc s' u))" using i(4) [of u] s'(4) tg [of u] by (auto split: if_splits)
    show "u \<in> set (m_wq s' k) \<Longrightarrow> m_run s' u = Asleep \<and> waits (m_pc s' u) = Some k"
      using i(2,3) [of u k] x(2) s'(1,2) w [of u] by auto
    show "u \<in> set (targets (m_pc s' v)) \<Longrightarrow> m_run s' u = Asleep \<and> waits (m_pc s' u) \<noteq> None \<and> u \<notin> set (m_wq s' k)"
      using i(5,6,7) [OF sub] nx s'(1,2) w [of u] by auto
    show "u \<in> set (targets (m_pc s' v)) \<Longrightarrow> u \<in> set (targets (m_pc s' v')) \<Longrightarrow> v = v'" using i(8) [OF sub sub] .
    show "m_run s' u = Asleep \<Longrightarrow> (\<exists>i. u \<in> set (m_wq s' i)) \<or> (\<exists>v. u \<in> set (targets (m_pc s' v)))"
    proof -
      assume a: "m_run s' u = Asleep"
      then have u: "m_run s u = Asleep" "u \<noteq> x" using s'(1) by (auto split: if_splits)
      have "u \<in> set (targets (m_pc s v)) \<Longrightarrow> u \<in> set (targets (m_pc s' v))" for v using u(2) tg [of v] s'(4) by auto
      then show ?thesis using i(9) [OF u(1)] s'(2) by auto
    qed
  qed
qed

lemma q_inv_run:
  assumes inv: "q_inv s" and "m_run s t \<noteq> Asleep" and "r \<noteq> Asleep"
    and "m_run s' = (m_run s)(t := r)" and "m_wq s' = m_wq s" and "m_pc s' = m_pc s"
  shows "q_inv s'"
proof -
  note i = q_invD [OF inv]
  have a: "m_run s' u = Asleep \<longleftrightarrow> m_run s u = Asleep" for u using assms(2-4) by auto
  show ?thesis using inv unfolding q_inv_def assms(5,6) a .
qed

subsection \<open>The effect of a step\<close>

text \<open>
  The part a thread plays for object 0: on the way to the test of the loop condition, committed to
  sleep (with the spinlock of the object, then only with that of the channel), in the channel or
  taken from it, and between an increment and the wakeup that follows it.
\<close>

datatype part = Other | Try | Commit | Commit_wc | Slept | Waker

fun roleA :: "apc \<Rightarrow> part" where
  "roleA A_spin = Try"
| "roleA A_test = Try"
| "roleA A_wlock = Commit"
| "roleA A_unspin = Commit"
| "roleA A_sleep = Commit_wc"
| "roleA A_asleep = Slept"
| "roleA A_out = Other"

fun roleR :: "rpc \<Rightarrow> part" where
  "roleR (R_wake W_lock) = Waker"
| "roleR (R_wake W_pop) = Waker"
| "roleR _ = Other"

fun role :: "pc \<Rightarrow> part" where
  "role (Acq a) = roleA a"
| "role (Wait_acq a) = roleA a"
| "role (Rel r) = roleR r"
| "role (Wait_rel r) = roleR r"
| "role _ = Other"

text \<open>The positions at which the caller still must hold what it is about to release.\<close>

fun needs_own :: "pc \<Rightarrow> bool" where
  "needs_own (Rel r) \<longleftrightarrow> r = R_spin \<or> r = R_give"
| "needs_own (Wait_rel r) \<longleftrightarrow> r = R_spin \<or> r = R_give"
| "needs_own Wait_spin \<longleftrightarrow> True"
| "needs_own Sig_spin \<longleftrightarrow> True"
| "needs_own B_spin \<longleftrightarrow> True"
| "needs_own _ \<longleftrightarrow> False"

text \<open>
  A bound on the steps left to a thread in its operation, wakeups of others included; \<open>n\<close> is the
  number of threads.
\<close>

fun weightA :: "apc \<Rightarrow> nat" where
  "weightA A_spin = 7"
| "weightA A_test = 6"
| "weightA A_wlock = 5"
| "weightA A_unspin = 4"
| "weightA A_sleep = 3"
| "weightA A_asleep = 7"
| "weightA A_out = 1"

fun weightW :: "wpc \<Rightarrow> nat" where
  "weightW W_lock = 10"
| "weightW W_pop = 9"
| "weightW (W_ready u) = 1"

fun weightR :: "rpc \<Rightarrow> nat" where
  "weightR R_spin = 13"
| "weightR R_give = 12"
| "weightR (R_wake w) = 1 + weightW w"
| "weightR R_out = 1"

fun weight :: "nat \<Rightarrow> pc \<Rightarrow> nat" where
  "weight n Idle = 0"
| "weight n (Acq a) = weightA a"
| "weight n (Rel r) = weightR r"
| "weight n Wait_spin = 19"
| "weight n (Wait_rel r) = 5 + weightR r"
| "weight n Wait_wlock = 5"
| "weight n Wait_unspin = 4"
| "weight n Wait_sleep = 3"
| "weight n Wait_asleep = 8"
| "weight n (Wait_acq a) = weightA a"
| "weight n Sig_spin = 12"
| "weight n (Sig_wake w) = 1 + weightW w"
| "weight n Sig_out = 1"
| "weight n B_spin = 5 + 8 * n"
| "weight n B_lock = 4 + 8 * n"
| "weight n B_pop = 3 + 8 * n"
| "weight n (B_ready us) = 2 + length us"
| "weight n B_out = 1"

definition slept :: "'v mstate \<Rightarrow> thread \<Rightarrow> cpu \<Rightarrow> nat \<Rightarrow> pc \<Rightarrow> 'v mstate \<Rightarrow> bool" where
  "slept s t c i p s' \<longleftrightarrow> (\<exists>s1. released (s\<lparr>m_wq := (m_wq s)(i := m_wq s i @ [t])\<rparr>) t c (Wc i) p s1 \<and>
     s' = s1\<lparr>m_run := (m_run s1)(t := Asleep)\<rparr>)"

definition popped :: "'v mstate \<Rightarrow> thread \<Rightarrow> cpu \<Rightarrow> nat \<Rightarrow> thread list \<Rightarrow> thread list \<Rightarrow> pc \<Rightarrow> 'v mstate \<Rightarrow> bool" where
  "popped s t c i us q p s' \<longleftrightarrow> m_wq s i = us @ q \<and> released (s\<lparr>m_wq := (m_wq s)(i := q)\<rparr>) t c (Wc i) p s'"

inductive effect :: "'v sync_ops \<Rightarrow> 'v mstate \<Rightarrow> thread \<Rightarrow> cpu \<Rightarrow> 'v mstate \<Rightarrow> bool" for ops s t c where
  acquire: "acquired s t c n p s' \<Longrightarrow> held p = insert n (held (m_pc s t)) \<Longrightarrow> n \<notin> held (m_pc s t) \<Longrightarrow>
     targets p = [] \<Longrightarrow> targets (m_pc s t) = [] \<Longrightarrow> (needs_own p \<longrightarrow> needs_own (m_pc s t)) \<Longrightarrow>
     role p = role (m_pc s t) \<and> role p \<noteq> Slept \<or> role (m_pc s t) = Slept \<and> role p = Try \<Longrightarrow>
     (\<forall>k. weight k p < weight k (m_pc s t)) \<Longrightarrow> effect ops s t c s'"
| release: "released s t c n p s' \<Longrightarrow> held p = held (m_pc s t) - {n} \<Longrightarrow> n \<in> held (m_pc s t) \<Longrightarrow>
     targets p = [] \<Longrightarrow> targets (m_pc s t) = [] \<Longrightarrow> \<not> needs_own p \<Longrightarrow>
     role p = Other \<and> role (m_pc s t) = Other \<or> role (m_pc s t) = Commit \<and> role p = Commit_wc \<Longrightarrow>
     (\<forall>k. weight k p < weight k (m_pc s t)) \<Longrightarrow> effect ops s t c s'"
| local: "s' = goto s t p \<Longrightarrow> held p = held (m_pc s t) \<Longrightarrow> targets p = [] \<Longrightarrow> targets (m_pc s t) = [] \<Longrightarrow> \<not> needs_own p \<Longrightarrow>
     role (m_pc s t) = Other \<and> (role p = Other \<or> role p = Try) \<or>
       role (m_pc s t) = Try \<and> role p = Commit \<and> must_wait ops (m_val s) \<and> Spin 0 \<in> held p \<Longrightarrow>
     (\<forall>k. weight k p < weight k (m_pc s t)) \<Longrightarrow> effect ops s t c s'"
| take: "s' = goto (s\<lparr>m_val := v\<rparr>) t p \<Longrightarrow> \<not> must_wait ops (m_val s) \<Longrightarrow> take_it ops t (m_val s) = Some v \<Longrightarrow>
     held p = held (m_pc s t) \<Longrightarrow> Spin 0 \<in> held p \<Longrightarrow> targets p = [] \<Longrightarrow> targets (m_pc s t) = [] \<Longrightarrow> \<not> needs_own p \<Longrightarrow>
     role (m_pc s t) = Try \<Longrightarrow> role p = Other \<Longrightarrow> (\<forall>k. weight k p < weight k (m_pc s t)) \<Longrightarrow> effect ops s t c s'"
| give: "s' = goto (s\<lparr>m_val := v\<rparr>) t p \<Longrightarrow> give_it ops t (m_val s) = Some v \<Longrightarrow>
     held p = held (m_pc s t) \<Longrightarrow> Spin 0 \<in> held p \<Longrightarrow> targets p = [] \<Longrightarrow> targets (m_pc s t) = [] \<Longrightarrow>
     needs_own (m_pc s t) \<Longrightarrow> \<not> needs_own p \<Longrightarrow>
     role (m_pc s t) = Other \<Longrightarrow> role p = Waker \<Longrightarrow> (\<forall>k. weight k p < weight k (m_pc s t)) \<Longrightarrow> effect ops s t c s'"
| sleep: "slept s t c i p s' \<Longrightarrow> held (m_pc s t) = {Wc i} \<Longrightarrow> held p = {} \<Longrightarrow> waits p = Some i \<Longrightarrow>
     targets p = [] \<Longrightarrow> targets (m_pc s t) = [] \<Longrightarrow> \<not> needs_own p \<Longrightarrow>
     i = 0 \<and> role (m_pc s t) = Commit_wc \<and> role p = Slept \<or> i \<noteq> 0 \<and> role (m_pc s t) = Other \<and> role p = Other \<Longrightarrow>
     (\<forall>k. 1 < weight k (m_pc s t)) \<Longrightarrow> effect ops s t c s'"
| pop: "popped s t c i us q p s' \<Longrightarrow> held p = held (m_pc s t) - {Wc i} \<Longrightarrow> {Spin i, Wc i} \<subseteq> held (m_pc s t) \<Longrightarrow>
     targets p = us \<Longrightarrow> targets (m_pc s t) = [] \<Longrightarrow> \<not> needs_own p \<Longrightarrow>
     i = 0 \<and> role (m_pc s t) = Waker \<and> role p = Other \<and> (us = [] \<and> q = [] \<or> (\<exists>u. us = [u])) \<or>
       i \<noteq> 0 \<and> role (m_pc s t) = Other \<and> role p = Other \<Longrightarrow>
     (\<forall>k. length us \<le> k \<longrightarrow> weight k p + 7 * length us < weight k (m_pc s t)) \<Longrightarrow> effect ops s t c s'"
| ready: "s' = goto (wake_thread s u) t p \<Longrightarrow> held p = held (m_pc s t) \<Longrightarrow> targets (m_pc s t) = u # targets p \<Longrightarrow>
     \<not> needs_own p \<Longrightarrow> role (m_pc s t) = Other \<Longrightarrow> role p = Other \<Longrightarrow>
     (\<forall>k. weight k p < weight k (m_pc s t)) \<Longrightarrow> effect ops s t c s'"

lemma m_acquireD:
  assumes "spinlock_wf (m_spin s n)" and "m_acquire s t c n p = Some (Some s')"
  shows "acquired s t c n p s'"
  using assms(2) spinlock_acquire_cases [OF assms(1), of c "m_ipl s t"]
  by (auto simp: m_acquire_def acquired_def split: if_splits)

lemma m_releaseD:
  assumes "m_release s t c n p = Some s'"
  shows "released s t c n p s'"
  using assms by (auto simp: m_release_def released_def spinlock_release_cases split: if_splits)

lemma wchan_sleepD: "wchan_sleep_step s t c i p = Some s' \<Longrightarrow> slept s t c i p s'"
  by (auto simp: wchan_sleep_step_def wchan_unlock_step_def slept_def bind_eq_Some_conv dest!: m_releaseD)

lemmas stepD = m_acquireD m_releaseD wchan_sleepD

lemma wakeone_effect:
  assumes wf: "\<And>n. spinlock_wf (m_spin s n)" and p: "m_pc s t = K w"
    and step: "wakeone_step i K ret s t c w = Some (Some s')"
    and K: "\<And>w. held (K w) = insert (Spin i) (B \<union> heldW i w)" "\<And>w. targets (K w) = targetsW w"
      "\<And>w. \<not> needs_own (K w)" "\<And>k w. weight k (K w) = b + weightW w" "Wc i \<notin> B"
      "\<And>w. role (K w) = (if i = 0 \<and> (w = W_lock \<or> w = W_pop) then Waker else Other)"
    and ret: "held ret = insert (Spin i) B" "targets ret = []" "\<not> needs_own ret" "role ret = Other" "\<And>k. weight k ret = b"
  shows "effect ops s t c s'"
proof (cases w)
  case W_lock
  with step have "acquired s t c (Wc i) (K W_pop) s'" by (auto simp: wchan_lock_step_def dest: m_acquireD [OF wf])
  then show ?thesis using K p W_lock by (intro effect.acquire [where n = "Wc i" and p = "K W_pop"]) auto
next
  case W_pop
  show ?thesis
  proof (cases "m_wq s i")
    case Nil
    with step W_pop have "released s t c (Wc i) (K (W_ready None)) s'" by (auto simp: wchan_unlock_step_def dest: m_releaseD)
    moreover have "s\<lparr>m_wq := (m_wq s)(i := [])\<rparr> = s" using Nil by (intro mstate.equality) auto
    ultimately have "popped s t c i [] [] (K (W_ready None)) s'" using Nil by (simp add: popped_def)
    then show ?thesis
      using K p W_pop by (intro effect.pop [where i = i and us = "[]" and q = "[]" and p = "K (W_ready None)"]) auto
  next
    case (Cons u us)
    with step W_pop have "popped s t c i [u] us (K (W_ready (Some u))) s'"
      by (auto simp: wchan_unlock_step_def popped_def dest: m_releaseD)
    then show ?thesis
      using K p W_pop by (intro effect.pop [where i = i and us = "[u]" and q = us and p = "K (W_ready (Some u))"]) auto
  qed
next
  case (W_ready u)
  show ?thesis
  proof (cases u)
    case None
    with step W_ready show ?thesis using K ret p by (intro effect.local [where p = ret]) auto
  next
    case (Some x)
    with step W_ready show ?thesis using K ret p by (intro effect.ready [where u = x and p = ret]) auto
  qed
qed

lemma acq_effect:
  assumes wf: "\<And>n. spinlock_wf (m_spin s n)" and p: "m_pc s t = K a"
    and step: "acq_step ops K Idle s t c a = Some (Some s')"
    and K: "\<And>a. held (K a) = heldA a" "\<And>a. targets (K a) = []" "\<And>a. \<not> needs_own (K a)" "\<And>k a. weight k (K a) = weightA a"
      "\<And>a. role (K a) = roleA a" "waits (K A_asleep) = Some 0"
  shows "effect ops s t c s'"
proof -
  have spin: "effect ops s t c s'" if "acquired s t c (Spin 0) (K A_test) s'" "a = A_spin \<or> a = A_asleep"
    using that K p by (intro effect.acquire [where n = "Spin 0" and p = "K A_test"]) auto
  show ?thesis
  proof (cases a)
    case A_spin
    with step spin show ?thesis by (auto dest: m_acquireD [OF wf])
  next
    case A_test
    show ?thesis
    proof (cases "must_wait ops (m_val s)")
      case True
      with step A_test show ?thesis using K p by (intro effect.local [where p = "K A_wlock"]) auto
    next
      case False
      with step A_test obtain v where "take_it ops t (m_val s) = Some v" "s' = goto (s\<lparr>m_val := v\<rparr>) t (K A_out)"
        by (auto simp: bind_eq_Some_conv)
      with False A_test show ?thesis using K p by (intro effect.take [where p = "K A_out" and v = v]) auto
    qed
  next
    case A_wlock
    with step have "acquired s t c (Wc 0) (K A_unspin) s'" by (auto simp: wchan_lock_step_def dest: m_acquireD [OF wf])
    with A_wlock show ?thesis using K p by (intro effect.acquire [where n = "Wc 0" and p = "K A_unspin"]) auto
  next
    case A_unspin
    with step have "released s t c (Spin 0) (K A_sleep) s'" by (auto dest: m_releaseD)
    with A_unspin show ?thesis using K p by (intro effect.release [where n = "Spin 0" and p = "K A_sleep"]) auto
  next
    case A_sleep
    with step have "slept s t c 0 (K A_asleep) s'" by (auto dest: wchan_sleepD)
    with A_sleep show ?thesis using K p by (intro effect.sleep [where i = 0 and p = "K A_asleep"]) auto
  next
    case A_asleep
    with step spin show ?thesis by (auto dest: m_acquireD [OF wf])
  next
    case A_out
    with step have "released s t c (Spin 0) Idle s'" by (auto dest: m_releaseD)
    with A_out show ?thesis using K p by (intro effect.release [where n = "Spin 0" and p = Idle]) auto
  qed
qed

lemma rel_effect:
  assumes wf: "\<And>n. spinlock_wf (m_spin s n)" and p: "m_pc s t = K r"
    and step: "rel_step ops K ret s t c r = Some (Some s')"
    and K: "\<And>r. held (K r) = B \<union> heldR r" "\<And>w. targets (K (R_wake w)) = targetsW w"
      "targets (K R_spin) = []" "targets (K R_give) = []" "targets (K R_out) = []"
      "\<And>r. needs_own (K r) \<longleftrightarrow> r = R_spin \<or> r = R_give" "\<And>k r. weight k (K r) = b + weightR r" "B \<subseteq> {Spin 1}"
      "\<And>r. role (K r) = roleR r"
    and ret: "held ret = B" "targets ret = []" "\<not> needs_own ret" "role ret = Other" "\<And>k. weight k ret = b"
  shows "effect ops s t c s'"
proof (cases r)
  case R_spin
  with step have "acquired s t c (Spin 0) (K R_give) s'" by (auto dest: m_acquireD [OF wf])
  with R_spin show ?thesis using K p by (intro effect.acquire [where n = "Spin 0" and p = "K R_give"]) auto
next
  case R_give
  with step obtain v where "give_it ops t (m_val s) = Some v" "s' = goto (s\<lparr>m_val := v\<rparr>) t (K (R_wake W_lock))"
    by (auto simp: bind_eq_Some_conv)
  with R_give show ?thesis using K p by (intro effect.give [where p = "K (R_wake W_lock)" and v = v]) auto
next
  case (R_wake w)
  have "role (K (R_wake w)) = (if w = W_lock \<or> w = W_pop then Waker else Other)" for w using K(9) by (cases w) auto
  moreover have "Wc 0 \<notin> B" using K(8) by auto
  ultimately show ?thesis
    using wakeone_effect [OF wf, where K = "\<lambda>w. K (R_wake w)" and ret = "K R_out" and i = 0 and B = B and b = "b + 1"] R_wake step K p
    by auto
next
  case R_out
  with step have "released s t c (Spin 0) ret s'" by (auto dest: m_releaseD)
  with R_out show ?thesis using K p ret by (intro effect.release [where n = "Spin 0" and p = ret]) auto
qed

lemma mstep_effect:
  assumes wf: "\<And>n. spinlock_wf (m_spin s n)" and step: "mstep ops s t c (m_pc s t) = Some (Some s')"
  shows "effect ops s t c s'"
proof (cases "m_pc s t")
  case (Acq a)
  with step show ?thesis by (intro acq_effect [OF wf, where K = Acq and a = a]) auto
next
  case (Rel r)
  with step show ?thesis by (intro rel_effect [OF wf, where K = Rel and r = r and B = "{}" and b = 0 and ret = Idle]) auto
next
  case Wait_spin
  with step have "acquired s t c (Spin 1) (Wait_rel R_spin) s'" by (auto dest: m_acquireD [OF wf])
  with Wait_spin show ?thesis by (intro effect.acquire [where n = "Spin 1" and p = "Wait_rel R_spin"]) auto
next
  case (Wait_rel r)
  with step show ?thesis
    by (intro rel_effect [OF wf, where K = Wait_rel and r = r and B = "{Spin 1}" and b = 5 and ret = Wait_wlock]) auto
next
  case Wait_wlock
  with step have "acquired s t c (Wc 1) Wait_unspin s'" by (auto simp: wchan_lock_step_def dest: m_acquireD [OF wf])
  with Wait_wlock show ?thesis by (intro effect.acquire [where n = "Wc 1" and p = Wait_unspin]) auto
next
  case Wait_unspin
  with step have "released s t c (Spin 1) Wait_sleep s'" by (auto dest: m_releaseD)
  with Wait_unspin show ?thesis by (intro effect.release [where n = "Spin 1" and p = Wait_sleep]) auto
next
  case Wait_sleep
  with step have "slept s t c 1 Wait_asleep s'" by (auto dest: wchan_sleepD)
  with Wait_sleep show ?thesis by (intro effect.sleep [where i = 1 and p = Wait_asleep]) auto
next
  case Wait_asleep
  with step show ?thesis by (intro effect.local [where p = "Wait_acq A_spin"]) auto
next
  case (Wait_acq a)
  with step show ?thesis by (intro acq_effect [OF wf, where K = Wait_acq and a = a]) auto
next
  case Sig_spin
  with step have "acquired s t c (Spin 1) (Sig_wake W_lock) s'" by (auto dest: m_acquireD [OF wf])
  with Sig_spin show ?thesis by (intro effect.acquire [where n = "Spin 1" and p = "Sig_wake W_lock"]) auto
next
  case (Sig_wake w)
  with step show ?thesis
    by (intro wakeone_effect [OF wf, where K = Sig_wake and w = w and i = 1 and B = "{}" and b = 1 and ret = Sig_out]) auto
next
  case Sig_out
  with step have "released s t c (Spin 1) Idle s'" by (auto dest: m_releaseD)
  with Sig_out show ?thesis by (intro effect.release [where n = "Spin 1" and p = Idle]) auto
next
  case B_spin
  with step have "acquired s t c (Spin 1) B_lock s'" by (auto dest: m_acquireD [OF wf])
  with B_spin show ?thesis by (intro effect.acquire [where n = "Spin 1" and p = B_lock]) auto
next
  case B_lock
  with step have "acquired s t c (Wc 1) B_pop s'" by (auto simp: wchan_lock_step_def dest: m_acquireD [OF wf])
  with B_lock show ?thesis by (intro effect.acquire [where n = "Wc 1" and p = B_pop]) auto
next
  case B_pop
  with step have "popped s t c 1 (m_wq s 1) [] (B_ready (m_wq s 1)) s'" by (auto simp: popped_def wchan_unlock_step_def dest: m_releaseD)
  with B_pop show ?thesis
    by (intro effect.pop [where i = 1 and us = "m_wq s 1" and q = "[]" and p = "B_ready (m_wq s 1)"]) auto
next
  case (B_ready us)
  show ?thesis
  proof (cases us)
    case Nil
    with step B_ready show ?thesis by (intro effect.local [where p = B_out]) auto
  next
    case (Cons u vs)
    with step B_ready show ?thesis by (intro effect.ready [where u = u and p = "B_ready vs"]) auto
  qed
next
  case B_out
  with step have "released s t c (Spin 1) Idle s'" by (auto dest: m_releaseD)
  with B_out show ?thesis by (intro effect.release [where n = "Spin 1" and p = Idle]) auto
qed (use step in simp)

text \<open>The spinlocks and the channels stay consistent.\<close>

lemma waits_held: "waits p \<noteq> None \<Longrightarrow> held p = {}"
  by (cases p rule: waits.cases) auto

lemma effect_spin_inv:
  assumes inv: "spin_inv s" and q: "q_inv s" and t: "m_run s t = OnCpu c" and "effect ops s t c s'"
  shows "spin_inv s'"
  using assms(4)
proof cases
  case (acquire n p)
  then show ?thesis by (intro spin_inv_acquired [OF inv t])
next
  case (release n p)
  then show ?thesis by (intro spin_inv_released [OF inv t])
next
  case (local p)
  then show ?thesis by (intro spin_inv_local [OF inv, where t = t and p = p]) simp_all
next
  case (take v p)
  then show ?thesis by (intro spin_inv_local [OF inv, where t = t and p = p]) simp_all
next
  case (give v p)
  then show ?thesis by (intro spin_inv_local [OF inv, where t = t and p = p]) simp_all
next
  case (sleep i p)
  let ?s0 = "s\<lparr>m_wq := (m_wq s)(i := m_wq s i @ [t])\<rparr>"
  from sleep(1) obtain s1 where
    s1: "released ?s0 t c (Wc i) p s1" "s' = s1\<lparr>m_run := (m_run s1)(t := Asleep)\<rparr>" by (auto simp: slept_def)
  have "spin_inv ?s0" using inv by (simp add: spin_inv_def)
  from spin_inv_released [OF this _ s1(1)] t sleep(2,3) have inv1: "spin_inv s1" by simp
  have "m_pc s1 t = p" using s1(1) by (simp add: released_def)
  then show ?thesis using sleep(3) s1(2) by (intro spin_inv_run [OF inv1, where t = t and r = Asleep]) simp_all
next
  case (pop i us q p)
  let ?s0 = "s\<lparr>m_wq := (m_wq s)(i := q)\<rparr>"
  have "spin_inv ?s0" using inv by (simp add: spin_inv_def)
  moreover have "released ?s0 t c (Wc i) p s'" using pop(1) by (simp add: popped_def)
  ultimately show ?thesis using spin_inv_released [of ?s0 t c "Wc i" p s'] pop(2,3) t by simp
next
  case (ready u p)
  have inv1: "spin_inv (goto s t p)" using ready by (intro spin_inv_local [OF inv, where t = t and p = p]) simp_all
  have u: "u \<in> set (targets (m_pc s t))" using ready by simp
  have "held (m_pc s u) = {}" using waits_held [OF q_invD(6) [OF q u]] .
  moreover have "u \<noteq> t" using q_invD(5) [OF q u] t by auto
  ultimately show ?thesis using ready by (intro spin_inv_run [OF inv1, where t = u and r = Ready]) simp_all
qed

lemma effect_q_inv:
  assumes inv: "q_inv s" and t: "m_run s t = OnCpu c" and "effect ops s t c s'"
  shows "q_inv s'"
proof -
  have na: "m_run s t \<noteq> Asleep" using t by simp
  show ?thesis using assms(3)
  proof cases
    case (acquire n p)
    then show ?thesis by (intro q_inv_plain [OF inv na]) (auto simp: q_plain_def acquired_def)
  next
    case (release n p)
    then show ?thesis by (intro q_inv_plain [OF inv na]) (auto simp: q_plain_def released_def)
  next
    case (local p)
    then show ?thesis by (intro q_inv_plain [OF inv na]) (auto simp: q_plain_def)
  next
    case (take v p)
    then show ?thesis by (intro q_inv_plain [OF inv na]) (auto simp: q_plain_def)
  next
    case (give v p)
    then show ?thesis by (intro q_inv_plain [OF inv na]) (auto simp: q_plain_def)
  next
    case (sleep i p)
    then show ?thesis by (intro q_inv_sleep [OF inv na, of i]) (auto simp: q_sleep_def slept_def released_def)
  next
    case (pop i us q p)
    then show ?thesis by (intro q_inv_pop [OF inv na, of i]) (auto simp: q_pop_def popped_def released_def)
  next
    case (ready u p)
    then show ?thesis by (intro q_inv_ready [OF inv na, of u]) (auto simp: q_ready_def)
  qed
qed

subsection \<open>No lost wakeup\<close>

text \<open>The threads that will test the condition of the wait loop, or wake one that will.\<close>

definition helper :: "'v mstate \<Rightarrow> thread \<Rightarrow> bool" where
  "helper s t \<longleftrightarrow> role (m_pc s t) = Try \<or> role (m_pc s t) = Waker \<or> role (m_pc s t) = Slept \<and> t \<notin> set (m_wq s 0)"

definition blocked :: "'v mstate \<Rightarrow> bool" where
  "blocked s \<longleftrightarrow> m_wq s 0 \<noteq> [] \<or> (\<exists>t. role (m_pc s t) = Commit \<or> role (m_pc s t) = Commit_wc)"

definition active :: "'v mstate \<Rightarrow> thread set" where
  "active s = {t. m_pc s t \<noteq> Idle}"

lemma role_held:
  "role p = Commit \<Longrightarrow> Spin 0 \<in> held p" "role p = Commit_wc \<Longrightarrow> Wc 0 \<in> held p" "role p = Waker \<Longrightarrow> Spin 0 \<in> held p"
proof -
  have A: "roleA x = Commit \<Longrightarrow> Spin 0 \<in> heldA x" "roleA x = Commit_wc \<Longrightarrow> Wc 0 \<in> heldA x" "roleA x \<noteq> Waker" for x
    by (cases x; simp)+
  have R: "roleR x \<noteq> Commit" "roleR x \<noteq> Commit_wc" "roleR x = Waker \<Longrightarrow> Spin 0 \<in> heldR x" for x
    by (cases x rule: roleR.cases; simp)+
  show "role p = Commit \<Longrightarrow> Spin 0 \<in> held p" "role p = Commit_wc \<Longrightarrow> Wc 0 \<in> held p" "role p = Waker \<Longrightarrow> Spin 0 \<in> held p"
    using A R by (cases p; auto)+
qed

lemma waits_role: "waits p = Some 0 \<longleftrightarrow> role p = Slept"
proof -
  have "roleA a = Slept \<longleftrightarrow> a = A_asleep" for a by (cases a) auto
  moreover have "roleR r \<noteq> Slept" for r by (cases r rule: roleR.cases) auto
  ultimately show ?thesis by (cases p rule: waits.cases) auto
qed

lemma helper_active: "helper s t \<Longrightarrow> t \<in> active s"
  by (auto simp: helper_def active_def)

lemma finite_helpers: "finite (active s) \<Longrightarrow> finite {t. helper s t}"
  by (rule finite_subset [of _ "active s"]) (auto dest: helper_active)

text \<open>Steps that change the position of \<open>t\<close> only, as far as object 0 is concerned.\<close>

lemma helpers_local:
  assumes "m_wq s' 0 = m_wq s 0" and "m_pc s' = (m_pc s)(t := p)"
  shows "helper s' t \<longleftrightarrow> helper s t \<Longrightarrow> {u. helper s' u} = {u. helper s u}"
    and "helper s' t \<Longrightarrow> {u. helper s' u} = insert t {u. helper s u}"
    and "\<not> helper s' t \<Longrightarrow> {u. helper s' u} = {u. helper s u} - {t}"
proof -
  have h: "helper s' u \<longleftrightarrow> helper s u" if "u \<noteq> t" for u using that assms by (simp add: helper_def)
  show "helper s' t \<longleftrightarrow> helper s t \<Longrightarrow> {u. helper s' u} = {u. helper s u}"
    "helper s' t \<Longrightarrow> {u. helper s' u} = insert t {u. helper s u}"
    "\<not> helper s' t \<Longrightarrow> {u. helper s' u} = {u. helper s u} - {t}" by (intro set_eqI; simp; metis h)+
qed

lemma blocked_local:
  assumes "m_wq s' 0 = m_wq s 0" and "m_pc s' = (m_pc s)(t := p)"
    and "role p = Commit \<or> role p = Commit_wc \<longleftrightarrow> role (m_pc s t) = Commit \<or> role (m_pc s t) = Commit_wc"
  shows "blocked s' \<longleftrightarrow> blocked s"
  unfolding blocked_def using assms by (metis fun_upd_apply)

end
