(* ===== verification/Synch_Live.thy ===== *)
theory Synch_Live
  imports Kern_Synch
begin

section \<open>No lost wakeups: executions of \<open>synch.c\<close>\<close>

text \<open>
  Executions of the machine of \<open>Kern_Synch\<close>: any number of threads on any number of CPUs call the
  operations, lose and regain their CPUs. The locale \<open>sync_object\<close> is the contract of the value of
  an object; semaphores and locks are its two instances. Under it hold: the invariant that no
  wakeup is lost (as many threads on their way to the value as there are units, when a thread
  waits), absence of panics, a bound on the number of steps, and progress.
\<close>

subsection \<open>Executions\<close>

text \<open>
  Steps of the machine: a thread on a CPU runs, enters an operation from \<open>E\<close> (one that releases
  the object only when it owns it), is put on an idle CPU, or loses its CPU to an interrupt. A step that
  takes or gives back a unit of the value is marked.
\<close>

datatype event = Tau | Took | Gave

datatype label = Run thread event | Call thread pc | Sched

fun eventA :: "'v sync_ops \<Rightarrow> 'v \<Rightarrow> apc \<Rightarrow> event" where
  "eventA ops v A_test = (if must_wait ops v then Tau else Took)"
| "eventA ops v _ = Tau"

fun eventR :: "rpc \<Rightarrow> event" where
  "eventR R_give = Gave"
| "eventR _ = Tau"

fun event_of :: "'v sync_ops \<Rightarrow> 'v \<Rightarrow> pc \<Rightarrow> event" where
  "event_of ops v (Acq a) = eventA ops v a"
| "event_of ops v (Wait_acq a) = eventA ops v a"
| "event_of ops v (Rel r) = eventR r"
| "event_of ops v (Wait_rel r) = eventR r"
| "event_of ops v _ = Tau"

inductive sync_trans ::
  "'v sync_ops \<Rightarrow> (thread \<Rightarrow> 'v \<Rightarrow> bool) \<Rightarrow> pc set \<Rightarrow> 'v mstate \<Rightarrow> label \<Rightarrow> 'v mstate \<Rightarrow> bool"
  for ops own E where
  run: "m_run s t = OnCpu c \<Longrightarrow> mstep ops s t c (m_pc s t) = Some (Some s') \<Longrightarrow>
     sync_trans ops own E s (Run t (event_of ops (m_val s) (m_pc s t))) s'"
| call: "m_run s t = OnCpu c \<Longrightarrow> m_pc s t = Idle \<Longrightarrow> p \<in> E \<Longrightarrow> (needs_own p \<longrightarrow> own t (m_val s)) \<Longrightarrow>
     sync_trans ops own E s (Call t p) (goto s t p)"
| dispatch: "m_run s t = Ready \<Longrightarrow> (\<forall>u. m_run s u \<noteq> OnCpu c) \<Longrightarrow>
     sync_trans ops own E s Sched (s\<lparr>m_run := (m_run s)(t := OnCpu c)\<rparr>)"
| preempt: "m_run s t = OnCpu c \<Longrightarrow> irq_on (m_ipl s t) \<Longrightarrow>
     sync_trans ops own E s Sched (s\<lparr>m_run := (m_run s)(t := Ready)\<rparr>)"

inductive sync_exec ::
  "'v sync_ops \<Rightarrow> (thread \<Rightarrow> 'v \<Rightarrow> bool) \<Rightarrow> pc set \<Rightarrow> 'v mstate \<Rightarrow> label list \<Rightarrow> 'v mstate \<Rightarrow> bool"
  for ops own E s where
  start: "sync_exec ops own E s [] s"
| step: "sync_exec ops own E s ls s' \<Longrightarrow> sync_trans ops own E s' l s'' \<Longrightarrow> sync_exec ops own E s (ls @ [l]) s''"

text \<open>Where the operations begin, and a machine on which no thread is inside one.\<close>

definition sem_calls :: "pc set" where
  "sem_calls = {Acq A_spin, Rel R_spin}"

definition lock_calls :: "pc set" where
  "lock_calls = {Acq A_spin, Rel R_spin, Wait_spin, Sig_spin, B_spin}"

definition quiet_machine :: "'v mstate \<Rightarrow> bool" where
  "quiet_machine s \<longleftrightarrow> m_spin s = (\<lambda>n. spinlock_init) \<and> m_wq s = (\<lambda>i. []) \<and> m_pc s = (\<lambda>t. Idle) \<and>
     m_ipl s = (\<lambda>t. \<lparr>t_curspl = IPL_NONE, t_iplhigh_count = 0, irq_on = True\<rparr>) \<and>
     (\<forall>t. m_run s t \<noteq> Asleep) \<and> (\<forall>t u c. m_run s t = OnCpu c \<longrightarrow> m_run s u = OnCpu c \<longrightarrow> t = u)"

lemma sem_lock_calls: "sem_calls \<subseteq> lock_calls"
  by (auto simp: sem_calls_def lock_calls_def)

lemma lock_callsD:
  assumes "p \<in> lock_calls"
  shows "held p = {}" "targets p = []" "role p = Other \<or> role p = Try" "waits p = None" "weight n p \<le> 19 + 8 * n"
  using assms by (auto simp: lock_calls_def)

text \<open>Executions in which one thread makes \<open>n\<close> steps, on a machine with two CPUs.\<close>

fun play :: "'v sync_ops \<Rightarrow> nat \<Rightarrow> thread \<Rightarrow> cpu \<Rightarrow> 'v mstate \<Rightarrow> (label list \<times> 'v mstate) option" where
  "play ops 0 t c s = Some ([], s)"
| "play ops (Suc n) t c s =
     (if m_run s t = OnCpu c then
        (case mstep ops s t c (m_pc s t) of
           Some (Some s') \<Rightarrow>
             map_option (\<lambda>(ls, s''). (Run t (event_of ops (m_val s) (m_pc s t)) # ls, s'')) (play ops n t c s')
         | _ \<Rightarrow> None)
      else None)"

lemma sync_exec_run:
  assumes "sync_exec ops own E s0 ls s" and "play ops n t c s = Some (ms, s')"
  shows "sync_exec ops own E s0 (ls @ ms) s'"
  using assms
proof (induction n arbitrary: ls ms s)
  case (Suc n)
  then obtain s1 ms' where s1: "m_run s t = OnCpu c" "mstep ops s t c (m_pc s t) = Some (Some s1)"
    "play ops n t c s1 = Some (ms', s')" "ms = Run t (event_of ops (m_val s) (m_pc s t)) # ms'"
    by (auto split: if_splits option.splits)
  have "sync_exec ops own E s0 (ls @ [Run t (event_of ops (m_val s) (m_pc s t))]) s1"
    using sync_exec.step [OF Suc.prems(1) sync_trans.run [OF s1(1,2)]] .
  from Suc.IH [OF this s1(3)] s1(4) show ?case by simp
qed simp

lemma sync_exec_call:
  assumes "sync_exec ops own E s0 ls s" and "m_run s t = OnCpu c" and "m_pc s t = Idle" and "p \<in> E"
    and "needs_own p \<longrightarrow> own t (m_val s)"
  shows "sync_exec ops own E s0 (ls @ [Call t p]) (goto s t p)"
  using assms(2-5) by (intro sync_exec.step [OF assms(1)] sync_trans.call)

definition two_cpus :: "'v \<Rightarrow> 'v mstate" where
  "two_cpus v = \<lparr>m_val = v, m_spin = (\<lambda>n. spinlock_init), m_wq = (\<lambda>i. []),
     m_run = (\<lambda>t. if t < 2 then OnCpu t else Ready),
     m_ipl = (\<lambda>t. \<lparr>t_curspl = IPL_NONE, t_iplhigh_count = 0, irq_on = True\<rparr>), m_pc = (\<lambda>t. Idle)\<rparr>"

lemma two_cpus_quiet: "quiet_machine (two_cpus v)" "m_val (two_cpus v) = v"
  by (auto simp: two_cpus_def quiet_machine_def split: if_splits)

text \<open>The spinlock a thread is about to ask for.\<close>

fun wantsW :: "nat \<Rightarrow> wpc \<Rightarrow> lname option" where
  "wantsW i W_lock = Some (Wc i)"
| "wantsW i _ = None"

fun wantsA :: "apc \<Rightarrow> lname option" where
  "wantsA A_spin = Some (Spin 0)"
| "wantsA A_wlock = Some (Wc 0)"
| "wantsA A_asleep = Some (Spin 0)"
| "wantsA _ = None"

fun wantsR :: "rpc \<Rightarrow> lname option" where
  "wantsR R_spin = Some (Spin 0)"
| "wantsR (R_wake w) = wantsW 0 w"
| "wantsR _ = None"

fun wants :: "pc \<Rightarrow> lname option" where
  "wants (Acq a) = wantsA a"
| "wants (Rel r) = wantsR r"
| "wants Wait_spin = Some (Spin 1)"
| "wants (Wait_rel r) = wantsR r"
| "wants Wait_wlock = Some (Wc 1)"
| "wants (Wait_acq a) = wantsA a"
| "wants Sig_spin = Some (Spin 1)"
| "wants (Sig_wake w) = wantsW 1 w"
| "wants B_spin = Some (Spin 1)"
| "wants B_lock = Some (Wc 1)"
| "wants _ = None"

text \<open>Spinlocks are asked for in a fixed order.\<close>

lemma heldW_cases: "n \<in> heldW i w \<Longrightarrow> n = Wc i" by (cases w) auto
lemma heldA_cases: "n \<in> heldA a \<Longrightarrow> n = Spin 0 \<or> n = Wc 0" by (cases a) auto
lemma heldR_cases: "n \<in> heldR r \<Longrightarrow> n = Spin 0 \<or> n = Wc 0" by (cases r) (auto dest: heldW_cases)

lemma held_cases: "n \<in> held p \<Longrightarrow> n \<in> {Spin 0, Spin 1, Wc 0, Wc 1}"
  by (cases p) (auto dest!: heldA_cases heldR_cases heldW_cases)

lemma orderW: "Wc i \<in> heldW j w \<Longrightarrow> wantsW j w = None" "Spin i \<notin> heldW j w" "wantsW j w \<noteq> Some (Spin i)" "wantsW j w = Some (Wc i) \<Longrightarrow> i = j"
  by (cases w; simp)+

lemma orderA:
  "Wc i \<in> heldA a \<Longrightarrow> wantsA a = None" "Spin 0 \<in> heldA a \<Longrightarrow> wantsA a = None \<or> wantsA a = Some (Wc 0)" "Spin (Suc 0) \<notin> heldA a"
  by (cases a; auto)+

lemma orderR:
  "Wc i \<in> heldR r \<Longrightarrow> wantsR r = None" "Spin 0 \<in> heldR r \<Longrightarrow> wantsR r = None \<or> wantsR r = Some (Wc 0)"
  "wantsR r \<noteq> Some (Spin (Suc 0))" "Spin (Suc 0) \<notin> heldR r"
  by (cases r; auto simp: orderW; metis lname.exhaust not_None_eq orderW(3,4))+

lemma lock_order:
  "Wc i \<in> held p \<Longrightarrow> wants p = None"
  "Spin 0 \<in> held p \<Longrightarrow> wants p = None \<or> wants p = Some (Wc 0)"
  "Spin 1 \<in> held p \<Longrightarrow> wants p \<noteq> Some (Spin 1)"
  by (cases p; simp add: orderA orderR orderW; fail)+

text \<open>Among the threads inside an operation and awake, one does not have to wait for a spinlock.\<close>

lemma some_unblocked:
  assumes sp: "spin_inv s" and t: "t \<in> active s" "m_run s t \<noteq> Asleep"
  obtains u where "u \<in> active s" "m_run s u \<noteq> Asleep" "\<And>n x. wants (m_pc s u) = Some n \<Longrightarrow> n \<notin> held (m_pc s x)"
proof -
  have act: "u \<in> active s" "m_run s u \<noteq> Asleep" if "n \<in> held (m_pc s u)" for n u
    using that spin_invD(4) [OF sp that] by (auto simp: active_def)
  have sub: "n = Spin 0 \<or> n = Spin 1 \<or> n = Wc 0 \<or> n = Wc 1" if "n \<in> held (m_pc s u)" for n u using held_cases [OF that] by simp
  consider (wc) i u where "Wc i \<in> held (m_pc s u)"
    | (spin0) u where "Spin 0 \<in> held (m_pc s u)" "\<And>i x. Wc i \<notin> held (m_pc s x)"
    | (spin1) u where "Spin 1 \<in> held (m_pc s u)" "\<And>i x. Wc i \<notin> held (m_pc s x)" "\<And>x. Spin 0 \<notin> held (m_pc s x)"
    | (none) "\<And>n x. n \<notin> held (m_pc s x)" using sub by metis
  then show ?thesis
  proof cases
    case (wc i u)
    then show ?thesis using that [of u] act lock_order(1) by auto
  next
    case (spin0 u)
    have "n \<notin> held (m_pc s x)" if "wants (m_pc s u) = Some n" for n x
      using lock_order(2) [OF spin0(1)] that spin0(2) by auto
    then show ?thesis using that [of u] act [OF spin0(1)] by blast
  next
    case (spin1 u)
    have "n \<notin> held (m_pc s x)" if "wants (m_pc s u) = Some n" for n x
      using lock_order(3) [OF spin1(1)] that sub [of n x] spin1(2,3) by auto
    then show ?thesis using that [of u] act [OF spin1(1)] by blast
  next
    case none
    then show ?thesis using that [of t] t by blast
  qed
qed

text \<open>
  What the step of a thread can do: it succeeds, or the thread waits for a spinlock that another
  thread holds.
\<close>

definition possible :: "'v mstate \<Rightarrow> thread \<Rightarrow> 'v mstate option option \<Rightarrow> bool" where
  "possible s t r \<longleftrightarrow> (\<exists>s'. r = Some (Some s')) \<or>
     r = Some None \<and> (\<exists>n u. wants (m_pc s t) = Some n \<and> n \<in> held (m_pc s u) \<and> u \<noteq> t)"

lemma possible_Some [simp]: "possible s t (Some (Some s'))" "\<not> possible s t None"
  by (simp_all add: possible_def)

lemma acquire_possible:
  assumes "spin_inv s" and "m_run s t = OnCpu c" and "n \<notin> held (m_pc s t)" and "wants (m_pc s t) = Some n"
  shows "possible s t (m_acquire s t c n p)"
  using assms(4) by (cases rule: m_acquire_cases [OF assms(1-3), of p]) (auto simp: possible_def)

lemma release_possible:
  assumes "spin_inv s" and "m_run s t = OnCpu c" and "n \<in> held (m_pc s t)"
  shows "possible s t (map_option Some (m_release s t c n p))"
  using m_release_ok [OF assms, of p] by (metis option.simps(9) possible_Some(1))

lemma spin_inv_wq [simp]: "spin_inv (s\<lparr>m_wq := q\<rparr>) \<longleftrightarrow> spin_inv s"
  by (simp add: spin_inv_def)

lemma release_wq_possible:
  assumes "spin_inv s" and "m_run s t = OnCpu c" and "n \<in> held (m_pc s t)"
  shows "possible s t (map_option Some (m_release (s\<lparr>m_wq := q\<rparr>) t c n p))"
  using m_release_ok [of "s\<lparr>m_wq := q\<rparr>" t c n p] assms by (metis mstate.select_convs mstate.update_convs option.simps(9) possible_Some(1) spin_inv_wq mstate.surjective)

lemma sleep_possible:
  assumes "spin_inv s" and "m_run s t = OnCpu c" and "Wc i \<in> held (m_pc s t)"
  shows "possible s t (map_option Some (wchan_sleep_step s t c i p))"
proof -
  obtain s' where "m_release (s\<lparr>m_wq := (m_wq s)(i := m_wq s i @ [t])\<rparr>) t c (Wc i) p = Some s'"
    using m_release_ok [of "s\<lparr>m_wq := (m_wq s)(i := m_wq s i @ [t])\<rparr>" t c "Wc i" p] assms by auto
  then show ?thesis by (simp add: wchan_sleep_step_def wchan_unlock_step_def)
qed

lemma wakeone_possible:
  assumes sp: "spin_inv s" "m_run s t = OnCpu c" and "m_pc s t = K w"
    and "\<And>w. held (K w) \<inter> {Wc i} = heldW i w" and "\<And>w. wants (K w) = wantsW i w"
  shows "possible s t (wakeone_step i K ret s t c w)"
proof (cases w)
  case W_lock
  then have "Wc i \<notin> held (m_pc s t)" "wants (m_pc s t) = Some (Wc i)" using assms(3) assms(4) [of W_lock] assms(5) [of W_lock] by auto
  then show ?thesis using acquire_possible [OF sp] W_lock by (simp add: wchan_lock_step_def)
next
  case W_pop
  then have "Wc i \<in> held (m_pc s t)" using assms(3) assms(4) [of W_pop] by auto
  then show ?thesis using release_wq_possible [OF sp] release_possible [OF sp] W_pop by (auto simp: wchan_unlock_step_def split: list.split)
next
  case (W_ready u)
  then show ?thesis by (cases u) simp_all
qed

text \<open>The value changes only at the marked steps.\<close>

fun event_ok :: "'v sync_ops \<Rightarrow> thread \<Rightarrow> event \<Rightarrow> 'v \<Rightarrow> 'v \<Rightarrow> bool" where
  "event_ok ops t Tau v v' \<longleftrightarrow> v' = v"
| "event_ok ops t Took v v' \<longleftrightarrow> \<not> must_wait ops v \<and> take_it ops t v = Some v'"
| "event_ok ops t Gave v v' \<longleftrightarrow> give_it ops t v = Some v'"

lemma call_val:
  "m_acquire s t c n p = Some (Some s') \<Longrightarrow> m_val s' = m_val s"
  "m_release s t c n p = Some s' \<Longrightarrow> m_val s' = m_val s"
  "wchan_sleep_step s t c i p = Some s' \<Longrightarrow> m_val s' = m_val s"
  by (auto simp: m_acquire_def m_release_def wchan_sleep_step_def wchan_unlock_step_def bind_eq_Some_conv)

lemma wakeone_val: "wakeone_step i K ret s t c w = Some (Some s') \<Longrightarrow> m_val s' = m_val s"
  by (cases w rule: targetsW.cases)
     (auto simp: wchan_lock_step_def wchan_unlock_step_def split: list.splits dest: call_val)

lemma acq_event: "acq_step ops K ret s t c a = Some (Some s') \<Longrightarrow> event_ok ops t (eventA ops (m_val s) a) (m_val s) (m_val s')"
  by (cases a) (auto simp: wchan_lock_step_def bind_eq_Some_conv split: if_splits dest: call_val)

lemma rel_event: "rel_step ops K ret s t c r = Some (Some s') \<Longrightarrow> event_ok ops t (eventR r) (m_val s) (m_val s')"
  by (cases r) (auto simp: bind_eq_Some_conv dest: call_val wakeone_val)

lemma mstep_event:
  assumes "mstep ops s t c p = Some (Some s')"
  shows "event_ok ops t (event_of ops (m_val s) p) (m_val s) (m_val s')"
proof (cases p)
  case (B_ready us)
  then show ?thesis using assms by (cases us) auto
qed (use assms in \<open>auto simp: wchan_lock_step_def wchan_unlock_step_def dest: call_val wakeone_val acq_event rel_event\<close>)

lemma event_own: "event_of ops v p = Gave \<Longrightarrow> needs_own p"
proof -
  have "eventA ops v a \<noteq> Gave" for a by (cases a) auto
  moreover have "eventR r = Gave \<longleftrightarrow> r = R_give" for r by (cases r) auto
  ultimately show "event_of ops v p = Gave \<Longrightarrow> needs_own p" by (cases p) auto
qed

text \<open>
  What is left to do inside the operations: a thread on a channel needs nothing until it is taken
  from it.
\<close>

definition on_wq :: "'v mstate \<Rightarrow> thread \<Rightarrow> bool" where
  "on_wq s t \<longleftrightarrow> (\<exists>i. t \<in> set (m_wq s i))"

definition tload :: "nat \<Rightarrow> 'v mstate \<Rightarrow> thread \<Rightarrow> nat" where
  "tload n s t = (if on_wq s t then 1 else weight n (m_pc s t))"

definition load :: "thread set \<Rightarrow> 'v mstate \<Rightarrow> nat" where
  "load T s = (\<Sum>t\<in>T. tload (card T) s t)"

lemma load_one:
  assumes "finite T" "t \<in> T" and "\<And>u. u \<noteq> t \<Longrightarrow> tload (card T) s' u = tload (card T) s u"
  shows "load T s' + tload (card T) s t = load T s + tload (card T) s' t"
proof -
  have "load T s = tload (card T) s t + (\<Sum>u\<in>T - {t}. tload (card T) s u)"
    "load T s' = tload (card T) s' t + (\<Sum>u\<in>T - {t}. tload (card T) s' u)"
    unfolding load_def using sum.remove [OF assms(1,2)] by blast+
  moreover have "(\<Sum>u\<in>T - {t}. tload (card T) s' u) = (\<Sum>u\<in>T - {t}. tload (card T) s u)"
    using assms(3) by (intro sum.cong) auto
  ultimately show ?thesis by linarith
qed

lemma load_plain:
  assumes "finite T" "t \<in> T" and "m_wq s' = m_wq s" and "m_pc s' = (m_pc s)(t := p)" and "\<not> on_wq s t"
    and "weight (card T) p < weight (card T) (m_pc s t)"
  shows "load T s' < load T s"
proof -
  have o: "on_wq s' u \<longleftrightarrow> on_wq s u" for u using assms(3) by (simp add: on_wq_def)
  have "load T s' + tload (card T) s t = load T s + tload (card T) s' t"
    using assms(4) o by (intro load_one [OF assms(1,2)]) (simp add: tload_def)
  moreover have "tload (card T) s' t < tload (card T) s t" using assms(4-6) o by (simp add: tload_def)
  ultimately show ?thesis by simp
qed

lemma load_run [simp]: "load T (s\<lparr>m_run := r\<rparr>) = load T s"
proof -
  have "tload n (s\<lparr>m_run := r\<rparr>) t = tload n s t" for n t by (simp add: tload_def on_wq_def)
  then show ?thesis by (simp add: load_def)
qed

lemma waits_weight: "waits p \<noteq> None \<Longrightarrow> weight n p \<le> 8"
  by (cases p rule: waits.cases) auto

lemma load_pop:
  fixes s s' :: "'v mstate"
  assumes fin: "finite T" "t \<in> T" and q: "q_inv s" and act: "active s \<subseteq> T" and nt: "\<not> on_wq s t"
    and s': "m_wq s i = us @ r" "m_wq s' = (m_wq s)(i := r)" "m_pc s' = (m_pc s)(t := p)"
    and w: "length us \<le> card T \<Longrightarrow> weight (card T) p + 7 * length us < weight (card T) (m_pc s t)"
  shows "load T s' < load T s"
proof -
  let ?n = "card T" and ?R = "T - {t} - set us"
  note i = q_invD [OF q]
  have us: "distinct us" "set us \<inter> set r = {}" using i(1) [of i] s'(1) by auto
  have wu: "waits (m_pc s u) = Some i" if "u \<in> set us" for u using that i(3) [of u i] s'(1) by auto
  have usT: "set us \<subseteq> T - {t}"
  proof
    fix u assume u: "u \<in> set us"
    have "m_pc s u \<noteq> Idle" using wu [OF u] by auto
    moreover have "u \<in> set (m_wq s i)" using u s'(1) by simp
    then have "u \<noteq> t" using nt by (auto simp: on_wq_def)
    ultimately show "u \<in> T - {t}" using act by (auto simp: active_def)
  qed
  have other: "tload ?n s' u = tload ?n s u" if "u \<in> ?R" for u
  proof -
    have "u \<in> set (m_wq s' j) \<longleftrightarrow> u \<in> set (m_wq s j)" for j using that s'(1,2) by auto
    then show ?thesis using that s'(3) by (simp add: tload_def on_wq_def)
  qed
  have pops: "tload ?n s' u \<le> tload ?n s u + 7" if "u \<in> set us" for u
  proof -
    have "u \<in> set (m_wq s i)" using that s'(1) by simp
    then have "tload ?n s u = 1" by (auto simp: tload_def on_wq_def)
    moreover have "u \<noteq> t" using that usT by auto
    then have "tload ?n s' u \<le> 8" using waits_weight [of "m_pc s u" ?n] wu [OF that] s'(3) by (simp add: tload_def)
    ultimately show ?thesis by simp
  qed
  have split: "load T x = tload ?n x t + (\<Sum>u\<in>?R. tload ?n x u) + (\<Sum>u\<in>set us. tload ?n x u)" for x :: "'v mstate"
    unfolding load_def using sum.remove [OF fin, of "tload ?n x"] sum.subset_diff [OF usT, of "tload ?n x"] fin(1) by simp
  have "(\<Sum>u\<in>set us. tload ?n s' u) \<le> (\<Sum>u\<in>set us. tload ?n s u + 7)" using pops by (rule sum_mono)
  also have "\<dots> = (\<Sum>u\<in>set us. tload ?n s u) + 7 * length us" using us(1) by (simp add: sum.distrib distinct_card)
  finally have a: "(\<Sum>u\<in>set us. tload ?n s' u) \<le> (\<Sum>u\<in>set us. tload ?n s u) + 7 * length us" .
  have "length us = card (set us)" using us(1) by (simp add: distinct_card)
  also have "\<dots> \<le> ?n" using usT fin(1) by (intro card_mono) auto
  finally have "weight ?n p + 7 * length us < weight ?n (m_pc s t)" using w by simp
  moreover have "t \<notin> set (m_wq s i)" "t \<notin> set (m_wq s j)" for j using nt by (auto simp: on_wq_def)
  then have "t \<notin> set (m_wq s' j)" for j using s'(1,2) by auto
  then have "tload ?n s' t = weight ?n p" "tload ?n s t = weight ?n (m_pc s t)"
    using nt s'(3) by (simp_all add: tload_def on_wq_def)
  moreover have "(\<Sum>u\<in>?R. tload ?n s' u) = (\<Sum>u\<in>?R. tload ?n s u)" using other by (rule sum.cong [OF refl])
  ultimately show ?thesis using split [of s] split [of s'] a by linarith
qed

lemma effect_load:
  assumes fin: "finite T" "t \<in> T" and q: "q_inv s" and act: "active s \<subseteq> T" and t: "m_run s t = OnCpu c"
    and "effect ops s t c s'"
  shows "load T s' < load T s"
proof -
  have nt: "\<not> on_wq s t" using q_invD(2) [OF q] t by (fastforce simp: on_wq_def)
  show ?thesis using assms(6)
  proof cases
    case (sleep i p)
    then have s': "m_wq s' = (m_wq s)(i := m_wq s i @ [t])" "m_pc s' = (m_pc s)(t := p)"
      by (auto simp: slept_def released_def)
    have "load T s' + tload (card T) s t = load T s + tload (card T) s' t"
      using s' by (intro load_one [OF fin]) (auto simp: tload_def on_wq_def)
    moreover have "tload (card T) s' t = 1" "1 < tload (card T) s t"
      using s' nt sleep(9) by (auto simp: tload_def on_wq_def)
    ultimately show ?thesis by simp
  next
    case (pop i us r p)
    then show ?thesis
      by (intro load_pop [OF fin q act nt, where i = i and us = us and r = r and p = p]) (auto simp: popped_def released_def)
  qed (rule load_plain [OF fin _ _ nt]; auto simp: acquired_def released_def)+
qed

text \<open>Counting along an execution.\<close>

fun is_run :: "label \<Rightarrow> bool" where
  "is_run (Run t e) \<longleftrightarrow> True"
| "is_run _ \<longleftrightarrow> False"

fun is_call :: "label \<Rightarrow> bool" where
  "is_call (Call t p) \<longleftrightarrow> True"
| "is_call _ \<longleftrightarrow> False"

fun has_event :: "event \<Rightarrow> label \<Rightarrow> bool" where
  "has_event e (Run t e') \<longleftrightarrow> e' = e"
| "has_event e _ \<longleftrightarrow> False"

definition runs :: "label list \<Rightarrow> nat" where
  "runs ls = length (filter is_run ls)"

definition calls :: "label list \<Rightarrow> nat" where
  "calls ls = length (filter is_call ls)"

definition takes :: "label list \<Rightarrow> nat" where
  "takes ls = length (filter (has_event Took) ls)"

definition gives :: "label list \<Rightarrow> nat" where
  "gives ls = length (filter (has_event Gave) ls)"

definition callers :: "label list \<Rightarrow> thread set" where
  "callers ls = {t. \<exists>p. Call t p \<in> set ls}"

lemmas count_defs = runs_def calls_def takes_def gives_def

lemma play_callers: "play ops n t c s = Some (ms, s') \<Longrightarrow> callers ms = {}"
proof (induction n arbitrary: s ms)
  case (Suc n)
  then show ?case by (fastforce simp: callers_def split: if_splits option.splits)
qed (simp add: callers_def)

lemma finite_callers: "finite (callers ls)"
proof -
  have "callers ls \<subseteq> (\<lambda>l. case l of Call t p \<Rightarrow> t | _ \<Rightarrow> 0) ` set ls" by (force simp: callers_def)
  then show ?thesis by (rule finite_subset) simp
qed

text \<open>
  The contract of a value that threads wait for: how many threads may still take it, who may
  give it back, and what the operations of the code do to it. Up to \<open>cap\<close> units can be given.
\<close>

locale sync_object =
  fixes ops :: "'v sync_ops" and wf :: "'v \<Rightarrow> bool" and units :: "'v \<Rightarrow> nat" and own :: "thread \<Rightarrow> 'v \<Rightarrow> bool" and cap :: nat
  assumes must_wait_iff: "wf v \<Longrightarrow> must_wait ops v \<longleftrightarrow> units v = 0"
    and take_ok: "wf v \<Longrightarrow> units v \<noteq> 0 \<Longrightarrow> \<exists>v'. take_it ops t v = Some v'"
    and take_units: "wf v \<Longrightarrow> units v \<noteq> 0 \<Longrightarrow> take_it ops t v = Some v' \<Longrightarrow> wf v' \<and> Suc (units v') = units v"
    and take_own: "wf v \<Longrightarrow> units v \<noteq> 0 \<Longrightarrow> take_it ops t v = Some v' \<Longrightarrow> own u v \<Longrightarrow> own u v'"
    and may_give: "wf v \<Longrightarrow> own t v \<Longrightarrow> may_give ops t v"
    and give_ok: "wf v \<Longrightarrow> own t v \<Longrightarrow> units v < cap \<Longrightarrow> \<exists>v'. give_it ops t v = Some v'"
    and give_units: "wf v \<Longrightarrow> own t v \<Longrightarrow> give_it ops t v = Some v' \<Longrightarrow> wf v' \<and> units v' = Suc (units v)"
    and give_own: "wf v \<Longrightarrow> own t v \<Longrightarrow> give_it ops t v = Some v' \<Longrightarrow> own u v \<Longrightarrow> u \<noteq> t \<Longrightarrow> own u v'"
begin

definition val_inv :: "'v mstate \<Rightarrow> bool" where
  "val_inv s \<longleftrightarrow> wf (m_val s) \<and> (\<forall>t. needs_own (m_pc s t) \<longrightarrow> own t (m_val s)) \<and>
     (\<forall>t. role (m_pc s t) = Commit \<longrightarrow> units (m_val s) = 0)"

definition wake_inv :: "'v mstate \<Rightarrow> bool" where
  "wake_inv s \<longleftrightarrow> finite (active s) \<and> (blocked s \<longrightarrow> units (m_val s) \<le> card {t. helper s t})"

definition inv :: "'v mstate \<Rightarrow> bool" where
  "inv s \<longleftrightarrow> spin_inv s \<and> q_inv s \<and> val_inv s \<and> wake_inv s"

lemma val_inv_same:
  assumes "val_inv s" and "m_val s' = m_val s" and "m_pc s' = (m_pc s)(t := p)"
    and "needs_own p \<longrightarrow> needs_own (m_pc s t)" and "role p = Commit \<longrightarrow> role (m_pc s t) = Commit \<or> must_wait ops (m_val s)"
  shows "val_inv s'"
  using assms must_wait_iff [of "m_val s"] unfolding val_inv_def by auto

lemma val_inv_change:
  assumes "val_inv s" and sp: "spin_inv s" and h: "Spin 0 \<in> held (m_pc s t)" and "m_pc s' = (m_pc s)(t := p)"
    and "\<not> needs_own p" and "role p \<noteq> Commit" and "wf (m_val s')"
    and "\<And>u. u \<noteq> t \<Longrightarrow> own u (m_val s) \<Longrightarrow> own u (m_val s')"
  shows "val_inv s'"
proof -
  have "role (m_pc s u) \<noteq> Commit" if "u \<noteq> t" for u
    using held_unique [OF sp h role_held(1)] that by blast
  then show ?thesis using assms unfolding val_inv_def by auto
qed

lemma effect_val_inv:
  assumes v: "val_inv s" and sp: "spin_inv s" and "effect ops s t c s'"
  shows "val_inv s'"
  using assms(3)
proof cases
  case (acquire n p)
  then show ?thesis by (intro val_inv_same [OF v, where t = t and p = p]) (auto simp: acquired_def)
next
  case (release n p)
  then show ?thesis by (intro val_inv_same [OF v, where t = t and p = p]) (auto simp: released_def)
next
  case (local p)
  then show ?thesis by (intro val_inv_same [OF v, where t = t and p = p]) auto
next
  case (take v' p)
  have wf: "wf (m_val s)" "units (m_val s) \<noteq> 0" using v take(2) must_wait_iff by (auto simp: val_inv_def)
  from take take_units [OF wf take(3)] take_own [OF wf take(3)] show ?thesis
    by (intro val_inv_change [OF v sp, where t = t and p = p]) auto
next
  case (give v' p)
  have wf: "wf (m_val s)" "own t (m_val s)" using v give(7) by (auto simp: val_inv_def)
  from give give_units [OF wf give(2)] give_own [OF wf give(2)] show ?thesis
    by (intro val_inv_change [OF v sp, where t = t and p = p]) auto
next
  case (sleep i p)
  then show ?thesis by (intro val_inv_same [OF v, where t = t and p = p]) (auto simp: slept_def released_def)
next
  case (pop i us q p)
  then show ?thesis by (intro val_inv_same [OF v, where t = t and p = p]) (auto simp: popped_def released_def)
next
  case (ready u p)
  then show ?thesis by (intro val_inv_same [OF v, where t = t and p = p]) auto
qed

lemma effect_active:
  assumes "effect ops s t c s'"
  shows "active s' \<subseteq> insert t (active s)"
  using assms by cases (auto simp: active_def acquired_def released_def slept_def popped_def)

lemma wake_same:
  assumes w: "blocked s \<longrightarrow> units (m_val s) \<le> card {u. helper s u}" and "m_val s' = m_val s"
    and "m_wq s' 0 = m_wq s 0" and "m_pc s' = (m_pc s)(t := p)"
    and r: "role p = Commit \<or> role p = Commit_wc \<longleftrightarrow> role (m_pc s t) = Commit \<or> role (m_pc s t) = Commit_wc"
    and h: "helper s' t \<longleftrightarrow> helper s t"
  shows "blocked s' \<longrightarrow> units (m_val s') \<le> card {u. helper s' u}"
  using w blocked_local [OF assms(3,4) r] helpers_local(1) [OF assms(3,4) h] assms(2) by simp

lemma effect_wake:
  assumes sp: "spin_inv s" and q: "q_inv s" and v: "val_inv s" and w: "wake_inv s" and t: "m_run s t = OnCpu c"
    and "effect ops s t c s'"
  shows "blocked s' \<longrightarrow> units (m_val s') \<le> card {u. helper s' u}"
proof -
  have w0: "blocked s \<longrightarrow> units (m_val s) \<le> card {u. helper s u}" and fin: "finite {u. helper s u}"
    using w finite_helpers by (auto simp: wake_inv_def)
  have tq: "t \<notin> set (m_wq s i)" for i using q_invD(2) [OF q, of t i] t by auto
  show ?thesis using assms(6)
  proof cases
    case (acquire n p)
    then show ?thesis using tq by (intro wake_same [OF w0, where t = t and p = p]) (auto simp: acquired_def helper_def)
  next
    case (release n p)
    then show ?thesis by (intro wake_same [OF w0, where t = t and p = p]) (auto simp: released_def helper_def)
  next
    case (local p)
    note pc = local(1)
    consider "role (m_pc s t) = Other" "role p = Other" | "role (m_pc s t) = Other" "role p = Try"
      | "role p = Commit" "must_wait ops (m_val s)" using local by blast
    then show ?thesis
    proof cases
      case 1
      then show ?thesis using pc by (intro wake_same [OF w0, where t = t and p = p]) (auto simp: helper_def)
    next
      case 2
      have h: "helper s' t" using 2 pc by (simp add: helper_def)
      have "blocked s' \<longleftrightarrow> blocked s" using 2 pc by (intro blocked_local [where t = t and p = p]) auto
      moreover have "card {u. helper s u} \<le> card {u. helper s' u}"
        using helpers_local(2) [OF _ _ h, of s p] pc fin by (simp add: card_insert_le)
      ultimately show ?thesis using w0 pc by auto
    next
      case 3
      then show ?thesis using v must_wait_iff pc by (simp add: val_inv_def)
    qed
  next
    case (take v' p)
    have wf: "wf (m_val s)" "units (m_val s) \<noteq> 0" using v take(2) must_wait_iff by (auto simp: val_inv_def)
    have h: "\<not> helper s' t" "helper s t" using take by (simp_all add: helper_def)
    have "blocked s' \<longleftrightarrow> blocked s" using take by (intro blocked_local [where t = t and p = p]) auto
    moreover have "card {u. helper s u} = Suc (card {u. helper s' u})"
      using helpers_local(3) [OF _ _ h(1), of s p] take fin h(2) card.remove [of "{u. helper s u}" t] by simp
    ultimately show ?thesis using w0 take_units [OF wf take(3)] take(1) by auto
  next
    case (give v' p)
    have wf: "wf (m_val s)" "own t (m_val s)" using v give(7) by (auto simp: val_inv_def)
    have h: "helper s' t" "\<not> helper s t" using give by (simp_all add: helper_def)
    have "blocked s' \<longleftrightarrow> blocked s" using give by (intro blocked_local [where t = t and p = p]) auto
    moreover have "card {u. helper s' u} = Suc (card {u. helper s u})"
      using helpers_local(2) [OF _ _ h(1), of s p] give fin h(2) by simp
    ultimately show ?thesis using w0 give_units [OF wf give(2)] give(1) by simp
  next
    case (sleep i p)
    show ?thesis
    proof (cases "i = 0")
      case False
      with sleep show ?thesis
        by (intro wake_same [OF w0, where t = t and p = p]) (auto simp: slept_def released_def helper_def)
    next
      case True
      then have r: "role (m_pc s t) = Commit_wc" "role p = Slept" using sleep(8) by auto
      have s': "m_val s' = m_val s" "m_wq s' 0 = m_wq s 0 @ [t]" "m_pc s' = (m_pc s)(t := p)"
        using sleep(1) True by (auto simp: slept_def released_def)
      have "helper s' u \<longleftrightarrow> helper s u" for u using r s' by (auto simp: helper_def)
      moreover have "blocked s" using r by (auto simp: blocked_def)
      ultimately show ?thesis using w0 s'(1) by simp
    qed
  next
    case (pop i us k p)
    have s': "m_val s' = m_val s" "m_wq s i = us @ k" "m_wq s' = (m_wq s)(i := k)" "m_pc s' = (m_pc s)(t := p)"
      using pop(1) by (auto simp: popped_def released_def)
    consider "i \<noteq> 0" | "i = 0" "us = []" "k = []" | u where "i = 0" "us = [u]" using pop(7) by blast
    then show ?thesis
    proof cases
      case 1
      then show ?thesis using pop(7) s' by (intro wake_same [OF w0, where t = t and p = p]) (auto simp: helper_def)
    next
      case 2
      have "\<not> blocked s'"
      proof
        assume "blocked s'"
        then obtain u where u: "u \<noteq> t" "role (m_pc s u) = Commit \<or> role (m_pc s u) = Commit_wc"
          using 2 s' pop(7) by (auto simp: blocked_def split: if_splits)
        then show False
          using held_unique [OF sp, of _ t u] role_held(1,2) [of "m_pc s u"] pop(3) 2(1) by blast
      qed
      then show ?thesis by simp
    next
      case 3
      have u: "u \<in> set (m_wq s 0)" "u \<noteq> t" "u \<notin> set k"
        using s'(2) 3 tq [of 0] q_invD(1) [OF q, of 0] by auto
      have ru: "role (m_pc s u) = Slept" using q_invD(3) [OF q u(1)] waits_role by simp
      have t0: "role (m_pc s t) = Waker" "role p = Other" using 3 pop(7) by auto
      have "helper s' x \<longleftrightarrow> x = u \<or> helper s x \<and> x \<noteq> t" for x
        using u ru t0 s' 3 by (auto simp: helper_def)
      then have "{x. helper s' x} = insert u ({x. helper s x} - {t})" by auto
      moreover have "helper s t" "\<not> helper s u" using t0 ru u(1) by (simp_all add: helper_def)
      ultimately have "card {x. helper s' x} = card {x. helper s x}"
        using fin card.remove [of "{x. helper s x}" t] by simp
      moreover have "blocked s" using u(1) by (auto simp: blocked_def)
      ultimately show ?thesis using w0 s'(1) by simp
    qed
  next
    case (ready u p)
    then show ?thesis by (intro wake_same [OF w0, where t = t and p = p]) (auto simp: helper_def)
  qed
qed

lemma effect_inv:
  assumes "inv s" and "m_run s t = OnCpu c" and "effect ops s t c s'"
  shows "inv s'"
proof -
  have i: "spin_inv s" "q_inv s" "val_inv s" "wake_inv s" using assms(1) by (simp_all add: inv_def)
  have "finite (active s')"
    using i(4) effect_active [OF assms(3)] finite_subset [of "active s'" "insert t (active s)"] by (simp add: wake_inv_def)
  then show ?thesis
    using effect_spin_inv [OF i(1,2) assms(2,3)] effect_q_inv [OF i(2) assms(2,3)] effect_val_inv [OF i(3,1) assms(3)]
      effect_wake [OF i assms(2,3)] by (simp add: inv_def wake_inv_def)
qed

text \<open>No assertion fails, and a thread waits only for a spinlock that another thread holds.\<close>

lemma acq_possible:
  assumes i: "inv s" and t: "m_run s t = OnCpu c" and p: "m_pc s t = K a"
    and K: "\<And>a. held (K a) = heldA a" "\<And>a. wants (K a) = wantsA a"
  shows "possible s t (acq_step ops K ret s t c a)"
proof -
  have sp: "spin_inv s" and v: "val_inv s" using i by (simp_all add: inv_def)
  have h: "held (m_pc s t) = heldA a" "wants (m_pc s t) = wantsA a" using p K by auto
  show ?thesis
  proof (cases a)
    case A_test
    have "wf (m_val s)" using v by (simp add: val_inv_def)
    then show ?thesis
      using A_test take_ok [of "m_val s" t] must_wait_iff [of "m_val s"] by (auto simp: bind_eq_Some_conv)
  qed (use h acquire_possible [OF sp t] release_possible [OF sp t] sleep_possible [OF sp t] in \<open>simp_all add: wchan_lock_step_def\<close>)
qed

lemma rel_possible:
  assumes i: "inv s" and t: "m_run s t = OnCpu c" and p: "m_pc s t = K r" and cap: "units (m_val s) < cap"
    and K: "\<And>r. held (K r) = B \<union> heldR r" "\<And>r. wants (K r) = wantsR r" "B \<subseteq> {Spin 1}"
      "\<And>r. needs_own (K r) \<longleftrightarrow> r = R_spin \<or> r = R_give"
  shows "possible s t (rel_step ops K ret s t c r)"
proof -
  have sp: "spin_inv s" and v: "val_inv s" using i by (simp_all add: inv_def)
  have h: "held (m_pc s t) = B \<union> heldR r" "wants (m_pc s t) = wantsR r" using p K by auto
  have wf: "wf (m_val s)" and own: "r = R_spin \<or> r = R_give \<Longrightarrow> own t (m_val s)"
    using v p K(4) by (auto simp: val_inv_def)
  have B: "Spin 0 \<notin> B" "Wc 0 \<notin> B" using K(3) by auto
  show ?thesis
  proof (cases r)
    case R_spin
    then show ?thesis using own may_give [OF wf] acquire_possible [OF sp t] h B by simp
  next
    case R_give
    then show ?thesis using own give_ok [OF wf, of t] cap by (cases "give_it ops t (m_val s)") auto
  next
    case (R_wake w)
    have "held (K (R_wake w)) \<inter> {Wc 0} = heldW 0 w" for w using K(1) B(2) heldW_cases [of _ 0 w] by auto
    then show ?thesis
      using wakeone_possible [OF sp t, where K = "\<lambda>w. K (R_wake w)" and i = 0] p K(2) R_wake by simp
  next
    case R_out
    then show ?thesis using release_possible [OF sp t] h by simp
  qed
qed

lemma mstep_possible:
  assumes i: "inv s" and t: "m_run s t = OnCpu c" and "m_pc s t \<noteq> Idle" and cap: "units (m_val s) < cap"
  shows "possible s t (mstep ops s t c (m_pc s t))"
proof -
  have sp: "spin_inv s" and v: "val_inv s" using i by (simp_all add: inv_def)
  have give: "may_give ops t (m_val s)" if "needs_own (m_pc s t)"
    using that v may_give by (auto simp: val_inv_def)
  note a = acquire_possible [OF sp t] and r = release_possible [OF sp t]
  show ?thesis
  proof (cases "m_pc s t")
    case (Acq a)
    then show ?thesis using acq_possible [OF i t, where K = Acq] by simp
  next
    case (Rel r)
    then show ?thesis using rel_possible [OF i t _ cap, where K = Rel and B = "{}"] by simp
  next
    case (Wait_rel r)
    then show ?thesis using rel_possible [OF i t _ cap, where K = Wait_rel and B = "{Spin 1}"] by simp
  next
    case (Wait_acq a)
    then show ?thesis using acq_possible [OF i t, where K = Wait_acq] by simp
  next
    case (Sig_wake w)
    have "held (Sig_wake w) \<inter> {Wc 1} = heldW 1 w" for w using heldW_cases [of _ 1 w] by auto
    then show ?thesis using wakeone_possible [OF sp t, where K = Sig_wake and i = 1] Sig_wake by simp
  next
    case Wait_sleep
    then show ?thesis using sleep_possible [OF sp t, of 1] by simp
  next
    case B_pop
    then show ?thesis using release_wq_possible [OF sp t, of "Wc 1"] by (simp add: wchan_unlock_step_def)
  next
    case (B_ready us)
    then show ?thesis by (cases us) simp_all
  qed (use assms(3) give a r in \<open>simp_all add: wchan_lock_step_def\<close>)
qed

lemma no_panic:
  assumes "inv s" and "m_run s t = OnCpu c" and "units (m_val s) < cap"
  shows "mstep ops s t c (m_pc s t) \<noteq> None"
  using mstep_possible [OF assms(1,2) _ assms(3)] by (cases "m_pc s t = Idle") (auto simp: possible_def)

lemma trans_inv:
  assumes i: "inv s" and E: "E \<subseteq> lock_calls" and "sync_trans ops own E s l s'"
  shows "inv s'"
  using assms(3)
proof cases
  case (run t c)
  then show ?thesis using effect_inv [OF i] mstep_effect spin_invD(1) i by (metis inv_def)
next
  case (call t c p)
  note p = lock_callsD [of p]
  have sp: "spin_inv s" and q: "q_inv s" and v: "val_inv s" and w: "wake_inv s" using i by (simp_all add: inv_def)
  have pl: "p \<in> lock_calls" using call E by auto
  have "spin_inv s'" using call p(1) [OF pl] by (intro spin_inv_local [OF sp, where t = t and p = p]) auto
  moreover have "q_inv s'" using call p(2) [OF pl] by (intro q_inv_plain [OF q, of t]) (auto simp: q_plain_def)
  moreover have "val_inv s'" using call p(3) [OF pl] v by (auto simp: val_inv_def)
  moreover have "wake_inv s'"
  proof -
    have fin: "finite {u. helper s u}" using w finite_helpers by (auto simp: wake_inv_def)
    have "blocked s' \<longleftrightarrow> blocked s" using call p(3) [OF pl] by (intro blocked_local [where t = t and p = p]) auto
    moreover have "{u. helper s u} \<subseteq> {u. helper s' u}" "{u. helper s' u} \<subseteq> insert t {u. helper s u}"
      using call by (auto simp: helper_def split: if_splits)
    then have "card {u. helper s u} \<le> card {u. helper s' u}" using fin finite_subset card_mono by (metis finite_insert)
    moreover have "active s' \<subseteq> insert t (active s)" using call by (auto simp: active_def)
    then have "finite (active s')" using w finite_subset by (auto simp: wake_inv_def)
    ultimately show ?thesis using w call by (auto simp: wake_inv_def)
  qed
  ultimately show ?thesis by (simp add: inv_def)
next
  case (dispatch t c)
  have sp: "spin_inv s" and q: "q_inv s" using i by (simp_all add: inv_def)
  have "held (m_pc s t) = {}" using spin_invD(4) [OF sp, of _ t] dispatch by auto
  then have "spin_inv s'" using dispatch by (intro spin_inv_run [OF sp, where t = t and r = "OnCpu c"]) auto
  moreover have "q_inv s'" using dispatch by (intro q_inv_run [OF q, where t = t and r = "OnCpu c"]) auto
  ultimately show ?thesis using i dispatch by (simp add: inv_def val_inv_def wake_inv_def helper_def blocked_def active_def)
next
  case (preempt t c)
  have sp: "spin_inv s" and q: "q_inv s" using i by (simp_all add: inv_def)
  have "card (held (m_pc s t)) = 0" using spin_invD(5) [OF sp, of t] preempt unfolding ipl_ok_def by linarith
  then have "held (m_pc s t) = {}" by simp
  then have "spin_inv s'" using preempt by (intro spin_inv_run [OF sp, where t = t and r = Ready]) auto
  moreover have "q_inv s'" using preempt by (intro q_inv_run [OF q, where t = t and r = Ready]) auto
  ultimately show ?thesis using i preempt by (simp add: inv_def val_inv_def wake_inv_def helper_def blocked_def active_def)
qed

lemma quiet_inv:
  assumes "quiet_machine s" and "wf (m_val s)"
  shows "inv s" "active s = {}"
proof -
  have m: "m_spin s = (\<lambda>n. spinlock_init)" "m_wq s = (\<lambda>i. [])" "m_pc s = (\<lambda>t. Idle)"
    "m_ipl s = (\<lambda>t. \<lparr>t_curspl = IPL_NONE, t_iplhigh_count = 0, irq_on = True\<rparr>)" "\<And>t. m_run s t \<noteq> Asleep"
    "\<And>t u c. m_run s t = OnCpu c \<Longrightarrow> m_run s u = OnCpu c \<Longrightarrow> t = u"
    using assms(1) by (simp_all add: quiet_machine_def)
  have "spin_inv s" using m by (intro spin_invI) (auto simp: spinlock_wf_def spinlock_init_def ipl_ok_def IPL_NONE_def)
  moreover have "q_inv s" using m by (simp add: q_inv_def)
  moreover show "active s = {}" using m by (simp add: active_def)
  ultimately show "inv s" using m assms(2) by (simp add: inv_def val_inv_def wake_inv_def blocked_def)
qed

lemma trans_units:
  assumes i: "inv s" and "sync_trans ops own E s l s'"
  shows "units (m_val s') + takes [l] = units (m_val s) + gives [l]"
  using assms(2)
proof cases
  case (run t c)
  have v: "val_inv s" and wf: "wf (m_val s)" using i by (simp_all add: inv_def val_inv_def)
  have e: "event_ok ops t (event_of ops (m_val s) (m_pc s t)) (m_val s) (m_val s')" using mstep_event [OF run(3)] .
  show ?thesis
  proof (cases "event_of ops (m_val s) (m_pc s t)")
    case Tau
    then show ?thesis using e run(1) by (simp add: takes_def gives_def)
  next
    case Took
    then show ?thesis using e run(1) must_wait_iff [OF wf] take_units [OF wf] by (auto simp: takes_def gives_def)
  next
    case Gave
    have "own t (m_val s)" using v event_own [OF Gave] by (simp add: val_inv_def)
    then show ?thesis using e Gave run(1) give_units [OF wf] by (auto simp: takes_def gives_def)
  qed
qed (auto simp: takes_def gives_def)

lemma trans_load:
  assumes i: "inv s" and "sync_trans ops own E s l s'" and T: "finite T" "active s \<subseteq> T" "callers [l] \<subseteq> T"
    and b: "\<And>p. p \<in> E \<Longrightarrow> weight (card T) p \<le> b"
  shows "active s' \<subseteq> T" "runs [l] + load T s' \<le> load T s + calls [l] * b"
proof -
  have sp: "spin_inv s" and q: "q_inv s" using i by (simp_all add: inv_def)
  have "active s' \<subseteq> T \<and> runs [l] + load T s' \<le> load T s + calls [l] * b" using assms(2)
  proof cases
    case (run t c)
    have e: "effect ops s t c s'" using mstep_effect [OF spin_invD(1) [OF sp] run(3)] .
    have t: "t \<in> T" using run(3) T(2) by (cases "m_pc s t = Idle") (auto simp: active_def)
    show ?thesis using effect_load [OF T(1) t q T(2) run(2) e] effect_active [OF e] T(2) t run(1) by (auto simp: count_defs)
  next
    case (call t c p)
    have t: "t \<in> T" using T(3) call by (auto simp: callers_def)
    have "active s' \<subseteq> T" using T(2) t call by (auto simp: active_def)
    moreover have "load T s' + tload (card T) s t = load T s + tload (card T) s' t"
      using call by (intro load_one [OF T(1) t]) (simp add: tload_def on_wq_def)
    moreover have "\<not> on_wq s t" using q_invD(2) [OF q] call by (fastforce simp: on_wq_def)
    then have "tload (card T) s' t \<le> b" using call b by (simp add: tload_def on_wq_def)
    ultimately show ?thesis using call by (simp add: count_defs)
  next
    case (dispatch t c)
    then show ?thesis using T(2) by (simp add: count_defs active_def)
  next
    case (preempt t c)
    then show ?thesis using T(2) by (simp add: count_defs active_def)
  qed
  then show "active s' \<subseteq> T" "runs [l] + load T s' \<le> load T s + calls [l] * b" by simp_all
qed

lemma count_append:
  "runs (ls @ ms) = runs ls + runs ms" "calls (ls @ ms) = calls ls + calls ms" "takes (ls @ ms) = takes ls + takes ms"
  "gives (ls @ ms) = gives ls + gives ms" "callers (ls @ ms) = callers ls \<union> callers ms"
  by (auto simp: count_defs callers_def)

lemma exec_inv:
  assumes "sync_exec ops own E s0 ls s" and "quiet_machine s0" and "wf (m_val s0)" and E: "E \<subseteq> lock_calls"
  shows "inv s" "units (m_val s) + takes ls = units (m_val s0) + gives ls"
  using assms(1)
proof (induction)
  case start
  show "inv s0" "units (m_val s0) + takes [] = units (m_val s0) + gives []"
    using quiet_inv [OF assms(2,3)] by (simp_all add: count_defs)
next
  case (step ls s' l s'')
  show "inv s''" using trans_inv [OF step.IH(1) E step.hyps(2)] .
  show "units (m_val s'') + takes (ls @ [l]) = units (m_val s0) + gives (ls @ [l])"
    using trans_units [OF step.IH(1) step.hyps(2)] step.IH(2) by (simp add: count_append)
qed

lemma exec_load:
  assumes "sync_exec ops own E s0 ls s" and q: "quiet_machine s0" "wf (m_val s0)" and E: "E \<subseteq> lock_calls"
    and "finite T" and "callers ls \<subseteq> T" and "\<And>p. p \<in> E \<Longrightarrow> weight (card T) p \<le> b"
  shows "active s \<subseteq> T \<and> runs ls + load T s \<le> calls ls * b"
  using assms(1,6)
proof (induction)
  case start
  have "tload (card T) s0 t = 0" for t using q(1) by (simp add: tload_def on_wq_def quiet_machine_def)
  then show ?case using quiet_inv(2) [OF q] by (simp add: count_defs load_def)
next
  case (step ls s' l s'')
  have c: "callers ls \<subseteq> T" "callers [l] \<subseteq> T" using step.prems by (simp_all add: count_append)
  have IH: "active s' \<subseteq> T" "runs ls + load T s' \<le> calls ls * b" using step.IH [OF c(1)] by simp_all
  note i = exec_inv(1) [OF step.hyps(1) q E]
  note l = trans_load [OF i step.hyps(2) assms(5) IH(1) c(2) assms(7)]
  show ?case using l IH(2) by (simp add: count_append algebra_simps)
qed

text \<open>When every thread inside an operation is asleep, each waits on a channel, and nothing is left to take.\<close>

lemma all_asleep:
  assumes i: "inv s" and all: "\<And>u. m_pc s u \<noteq> Idle \<Longrightarrow> m_run s u = Asleep" and t: "m_pc s t \<noteq> Idle"
  shows "t \<in> set (m_wq s 0) \<and> units (m_val s) = 0 \<or> t \<in> set (m_wq s 1) \<and> m_pc s t = Wait_asleep"
proof -
  have sp: "spin_inv s" and q: "q_inv s" and w: "wake_inv s" using i by (simp_all add: inv_def)
  have tg: "targets (m_pc s u) = []" for u
  proof (rule ccontr)
    assume a: "targets (m_pc s u) \<noteq> []"
    then have "held (m_pc s u) \<noteq> {}" by (cases "m_pc s u" rule: targets.cases) auto
    then show False using spin_invD(4) [OF sp] all [of u] a by fastforce
  qed
  have onq: "\<exists>i. u \<in> set (m_wq s i) \<and> waits (m_pc s u) = Some i" if "m_pc s u \<noteq> Idle" for u
    using q_invD(9) [OF q all [OF that]] tg q_invD(3) [OF q] by auto
  have w01: "waits p = Some j \<Longrightarrow> j = 0 \<or> j = 1 \<and> p = Wait_asleep" for p j by (cases p rule: waits.cases) auto
  have "\<not> helper s u" for u
  proof
    assume h: "helper s u"
    then have "m_pc s u \<noteq> Idle" using helper_active by (auto simp: active_def)
    then obtain j where j: "u \<in> set (m_wq s j)" "waits (m_pc s u) = Some j" using onq by blast
    from w01 [OF j(2)] show False
    proof
      assume "j = 0"
      then show False using j h waits_role [of "m_pc s u"] by (auto simp: helper_def)
    next
      assume "j = 1 \<and> m_pc s u = Wait_asleep"
      then show False using h by (auto simp: helper_def)
    qed
  qed
  then have "units (m_val s) = 0" if "m_wq s 0 \<noteq> []" using w that by (auto simp: wake_inv_def blocked_def)
  then show ?thesis using onq [OF t] w01 by (metis empty_iff list.set(1))
qed

lemma progress:
  assumes i: "inv s" and t: "m_pc s t \<noteq> Idle" "m_run s t \<noteq> Asleep" and cap: "units (m_val s) < cap"
  shows "\<exists>u. m_pc s u \<noteq> Idle \<and> (m_run s u = Ready \<or>
    (\<exists>c s'. m_run s u = OnCpu c \<and> mstep ops s u c (m_pc s u) = Some (Some s')))"
proof -
  have sp: "spin_inv s" using i by (simp add: inv_def)
  from some_unblocked [OF sp, of t] t obtain u where
    u: "u \<in> active s" "m_run s u \<noteq> Asleep" "\<And>n x. wants (m_pc s u) = Some n \<Longrightarrow> n \<notin> held (m_pc s x)"
    by (auto simp: active_def)
  have a: "m_pc s u \<noteq> Idle" using u(1) by (simp add: active_def)
  show ?thesis
  proof (cases "m_run s u")
    case (OnCpu c)
    have "possible s u (mstep ops s u c (m_pc s u))" using mstep_possible [OF i OnCpu a cap] .
    then show ?thesis using u(3) OnCpu a by (auto simp: possible_def)
  qed (use u a in auto)
qed

end

subsection \<open>Semaphores\<close>

definition sem_wf :: "semaphore \<Rightarrow> bool" where
  "sem_wf sem \<longleftrightarrow> 0 \<le> sem_count sem \<and> sem_count sem < 2 ^ 31"

interpretation sem: sync_object sem_ops sem_wf "\<lambda>sem. nat (sem_count sem)" "\<lambda>t sem. True" "2 ^ 31 - 1"
proof unfold_locales
  fix v v' :: semaphore and t :: thread
  assume wf: "sem_wf v"
  then have r: "0 \<le> sem_count v" "sem_count v < 2 ^ 31" by (simp_all add: sem_wf_def)
  show "must_wait sem_ops v \<longleftrightarrow> nat (sem_count v) = 0" using r by (auto simp: sem_ops_def)
  show "\<exists>v'. take_it sem_ops t v = Some v'" if "nat (sem_count v) \<noteq> 0" using that by (simp add: sem_ops_def)
  show "sem_wf v' \<and> Suc (nat (sem_count v')) = nat (sem_count v)" if "nat (sem_count v) \<noteq> 0" "take_it sem_ops t v = Some v'"
  proof -
    have "v' = v\<lparr>sem_count := swrap32 (sem_count v - 1)\<rparr>" using that by (simp add: sem_ops_def)
    moreover have "swrap32 (sem_count v - 1) = sem_count v - 1" using r that(1) by (simp add: swrap32_id)
    ultimately show ?thesis using r that(1) by (simp add: sem_wf_def)
  qed
  show "\<exists>v'. give_it sem_ops t v = Some v'" if "nat (sem_count v) < 2 ^ 31 - 1"
    using that r by (simp add: sem_ops_def swrap32_id)
  show "sem_wf v' \<and> nat (sem_count v') = Suc (nat (sem_count v))" if "give_it sem_ops t v = Some v'"
  proof -
    have v': "v' = v\<lparr>sem_count := swrap32 (sem_count v + 1)\<rparr>" "swrap32 (sem_count v + 1) > 0"
      using that by (auto simp: sem_ops_def Let_def bind_eq_Some_conv split: if_splits)
    have "sem_count v \<noteq> 2 ^ 31 - 1"
    proof
      assume "sem_count v = 2 ^ 31 - 1"
      then show False using v'(2) by (simp add: swrap32_def)
    qed
    then have "sem_count v + 1 < 2 ^ 31" using r by simp
    then show ?thesis using v' r by (simp add: sem_wf_def swrap32_id)
  qed
qed (simp_all add: sem_ops_def)

lemma sem_createD: "sem_create m_sem m_name m_wchan n = Some (Some sem) \<Longrightarrow> sem_count sem = n \<and> 0 \<le> n"
  by (auto simp: sem_create_def bind_eq_Some_conv split: if_splits)

text \<open>Threads that call \<open>P\<close> and \<open>V\<close> only are in no other operation.\<close>

lemma call_pc:
  "m_acquire s t c n p = Some (Some s') \<Longrightarrow> m_pc s' = (m_pc s)(t := p)"
  "m_release s t c n p = Some s' \<Longrightarrow> m_pc s' = (m_pc s)(t := p)"
  "wchan_sleep_step s t c i p = Some s' \<Longrightarrow> m_pc s' = (m_pc s)(t := p)"
  by (auto simp: m_acquire_def m_release_def wchan_sleep_step_def wchan_unlock_step_def bind_eq_Some_conv)

lemma wakeone_pc:
  "wakeone_step i K ret s t c w = Some (Some s') \<Longrightarrow> \<exists>p. m_pc s' = (m_pc s)(t := p) \<and> (p = ret \<or> p \<in> range K)"
  by (cases w rule: targetsW.cases)
     (auto simp: wchan_lock_step_def wchan_unlock_step_def split: list.splits dest!: call_pc)

lemma acq_pc:
  "acq_step ops K ret s t c a = Some (Some s') \<Longrightarrow> \<exists>p. m_pc s' = (m_pc s)(t := p) \<and> (p = ret \<or> p \<in> range K)"
  by (cases a) (auto simp: wchan_lock_step_def bind_eq_Some_conv split: if_splits dest!: call_pc)

lemma rel_pc:
  "rel_step ops K ret s t c r = Some (Some s') \<Longrightarrow> \<exists>p. m_pc s' = (m_pc s)(t := p) \<and> (p = ret \<or> p \<in> range K)"
  by (cases r) (auto simp: bind_eq_Some_conv dest!: call_pc wakeone_pc)

lemma sem_exec_pc:
  assumes "sync_exec ops own sem_calls s0 ls s" and "quiet_machine s0"
  shows "m_pc s t = Idle \<or> m_pc s t \<in> range Acq \<or> m_pc s t \<in> range Rel"
  using assms(1)
proof (induction arbitrary: t)
  case start
  then show ?case using assms(2) by (simp add: quiet_machine_def)
next
  case (step ls s' l s'')
  from step.hyps(2) show ?case
  proof cases
    case (run u c)
    obtain p where "m_pc s'' = (m_pc s')(u := p)" "p = Idle \<or> p \<in> range Acq \<or> p \<in> range Rel"
      using step.IH [of u] run(3) by (auto dest!: acq_pc rel_pc)
    then show ?thesis using step.IH [of t] by simp
  next
    case (call u c p)
    then show ?thesis using step.IH [of t] by (auto simp: sem_calls_def)
  qed (use step.IH [of t] in simp_all)
qed

lemma sem_weight: "p \<in> sem_calls \<Longrightarrow> weight n p \<le> 13"
  by (auto simp: sem_calls_def)

text \<open>C6. Semaphores: threads on any number of CPUs call \<open>P\<close> and \<open>V\<close> on one semaphore, interleaved in any
  way that the spinlocks and interrupt levels allow, and the count has not reached its maximum.
  Units are neither lost nor made up: the count is its initial value, plus the increments, minus
  the decrements, and never negative. No assertion fails. The calls take a bounded number of steps
  in total, wakeups that find the count taken again included. As long as a thread inside an
  operation is awake, one that is inside and awake can make a step or waits only for a CPU. When all
  threads inside are asleep, they sleep on the channel of the semaphore and the count is zero: no
  wakeup is lost.\<close>

theorem semaphore_live:
  assumes "sem_create True True True n = Some (Some sem)" and "quiet_machine s0" and "m_val s0 = sem"
    and "sync_exec sem_ops (\<lambda>t v. True) sem_calls s0 ls s" and "n + int (gives ls) < 2 ^ 31 - 1"
  shows "sem_count (m_val s) + int (takes ls) = n + int (gives ls) \<and> 0 \<le> sem_count (m_val s) \<and>
    (\<forall>t c. m_run s t = OnCpu c \<longrightarrow> mstep sem_ops s t c (m_pc s t) \<noteq> None) \<and>
    runs ls \<le> 13 * calls ls \<and>
    ((\<exists>t. m_pc s t \<noteq> Idle \<and> m_run s t \<noteq> Asleep) \<longrightarrow>
       (\<exists>u. m_pc s u \<noteq> Idle \<and> (m_run s u = Ready \<or>
          (\<exists>c s'. m_run s u = OnCpu c \<and> mstep sem_ops s u c (m_pc s u) = Some (Some s'))))) \<and>
    ((\<forall>t. m_pc s t \<noteq> Idle \<longrightarrow> m_run s t = Asleep) \<longrightarrow>
       (\<forall>t. m_pc s t \<noteq> Idle \<longrightarrow> t \<in> set (m_wq s 0) \<and> sem_count (m_val s) = 0))"
proof -
  have n: "0 \<le> n" "sem_count (m_val s0) = n" using sem_createD [OF assms(1)] assms(3) by simp_all
  have "n < 2 ^ 31" using assms(5) by linarith
  then have wf0: "sem_wf (m_val s0)" using n by (simp add: sem_wf_def)
  note i = sem.exec_inv [OF assms(4,2) wf0 sem_lock_calls]
  note l = sem.exec_load [OF assms(4,2) wf0 sem_lock_calls finite_callers subset_refl sem_weight]
  have wf: "0 \<le> sem_count (m_val s)" using i(1) by (simp add: sem.inv_def sem.val_inv_def sem_wf_def)
  have c: "sem_count (m_val s) + int (takes ls) = n + int (gives ls)" using i(2) n wf by linarith
  have cap: "nat (sem_count (m_val s)) < 2 ^ 31 - 1" using c assms(5) wf by (simp add: nat_less_iff)
  have "mstep sem_ops s t c (m_pc s t) \<noteq> None" if "m_run s t = OnCpu c" for t c
    using sem.no_panic [OF i(1) that cap] .
  moreover have "runs ls \<le> 13 * calls ls" using l by simp
  moreover note sem.progress [OF i(1) _ _ cap]
  moreover have "t \<in> set (m_wq s 0) \<and> sem_count (m_val s) = 0"
    if "\<forall>u. m_pc s u \<noteq> Idle \<longrightarrow> m_run s u = Asleep" "m_pc s t \<noteq> Idle" for t
    using sem.all_asleep [OF i(1) _ that(2)] that(1) sem_exec_pc [OF assms(4,2), of t] wf by auto
  ultimately show ?thesis using c wf by blast
qed

theorem semaphore_live_witness:
  "case play sem_ops 5 0 0 (goto (two_cpus \<lparr>sem_count = 0\<rparr>) 0 (Acq A_spin)) of
     Some (ls, s) \<Rightarrow> m_run s 0 = Asleep \<and> 0 \<in> set (m_wq s 0) \<and> sem_count (m_val s) = 0 \<and> takes ls = 0
   | None \<Rightarrow> False"
proof -
  let ?s0 = "two_cpus \<lparr>sem_count = 0\<rparr>" and ?l = "Call 0 (Acq A_spin)"
  have "case play sem_ops 5 0 0 (goto ?s0 0 (Acq A_spin)) of
      Some (ls, s) \<Rightarrow> m_run s 0 = Asleep \<and> m_pc s 0 = Acq A_asleep \<and> gives ls = 0 | None \<Rightarrow> False" by code_simp
  then obtain ls s where p: "play sem_ops 5 0 0 (goto ?s0 0 (Acq A_spin)) = Some (ls, s)" "m_run s 0 = Asleep"
      "m_pc s 0 = Acq A_asleep" "gives ls = 0" by (auto split: option.splits prod.splits)
  have c: "sem_create True True True 0 = Some (Some \<lparr>sem_count = 0\<rparr>)" by (simp add: sem_create_def)
  have "sync_exec sem_ops (\<lambda>t v. True) sem_calls ?s0 [?l] (goto ?s0 0 (Acq A_spin))"
    using sync_exec_call [OF sync_exec.start, where t = 0 and c = 0 and s = ?s0] by (simp add: two_cpus_def sem_calls_def)
  from sync_exec_run [OF this p(1)] have e: "sync_exec sem_ops (\<lambda>t v. True) sem_calls ?s0 (?l # ls) s" by simp
  have g: "gives (?l # ls) = 0" "takes (?l # ls) = takes ls" using p(4) by (simp_all add: gives_def takes_def)
  have cl: "callers (?l # ls) = {0}" using play_callers [OF p(1)] by (auto simp: callers_def)
  have "active s \<subseteq> {0}"
    using sem.exec_load [OF e two_cpus_quiet(1) _ sem_lock_calls, of "{0}" 13] cl sem_weight
    by (simp add: sem_wf_def two_cpus_quiet(2))
  then have "m_pc s t \<noteq> Idle \<longrightarrow> m_run s t = Asleep" for t using p(2) by (auto simp: active_def)
  then show ?thesis using semaphore_live [OF c two_cpus_quiet e] g p by auto
qed

subsection \<open>Locks\<close>

definition lock_own :: "thread \<Rightarrow> lock \<Rightarrow> bool" where
  "lock_own t lk \<longleftrightarrow> is_locked lk \<and> lk_owner lk = Some t"

definition lock_wf :: "lock \<Rightarrow> bool" where
  "lock_wf lk \<longleftrightarrow> (is_locked lk \<longrightarrow> lk_owner lk \<noteq> None)"

interpretation lk: sync_object lock_ops lock_wf "\<lambda>lk. if is_locked lk then 0 else 1" lock_own 2
  by unfold_locales
     (auto simp: lock_ops_def lock_wf_def lock_own_def lock_do_i_hold_def bind_eq_Some_conv split: if_splits)

lemma lock_createD: "lock_create m_lock m_name m_wchan junk = Some lk \<Longrightarrow> \<not> is_locked lk"
  by (auto simp: lock_create_def split: if_splits)

text \<open>
  Who holds the lock, read off an execution: a thread takes it only when nobody holds it and gives
  it back only when it holds it.
\<close>

fun lock_event :: "thread option \<Rightarrow> label \<Rightarrow> thread option option" where
  "lock_event None (Run t Took) = Some (Some t)"
| "lock_event (Some u) (Run t Took) = None"
| "lock_event None (Run t Gave) = None"
| "lock_event (Some u) (Run t Gave) = (if u = t then Some None else None)"
| "lock_event h _ = Some h"

fun lock_history :: "thread option \<Rightarrow> label list \<Rightarrow> thread option option" where
  "lock_history h [] = Some h"
| "lock_history h (l # ls) = lock_event h l \<bind> (\<lambda>h'. lock_history h' ls)"

lemma lock_history_append: "lock_history h (ls @ ms) = lock_history h ls \<bind> (\<lambda>h'. lock_history h' ms)"
  by (induction ls arbitrary: h) (auto simp: bind_assoc)

definition lock_holder :: "lock \<Rightarrow> thread option" where
  "lock_holder lk = (if is_locked lk then lk_owner lk else None)"

lemma lock_trans:
  assumes i: "lk.inv s" and "sync_trans lock_ops lock_own E s l s'"
  shows "lock_event (lock_holder (m_val s)) l = Some (lock_holder (m_val s'))"
  using assms(2)
proof cases
  case (run t c)
  have v: "lk.val_inv s" using i by (simp add: lk.inv_def)
  have e: "event_ok lock_ops t (event_of lock_ops (m_val s) (m_pc s t)) (m_val s) (m_val s')" using mstep_event [OF run(3)] .
  show ?thesis
  proof (cases "event_of lock_ops (m_val s) (m_pc s t)")
    case Tau
    then show ?thesis using e run(1) by simp
  next
    case Took
    then have "m_val s' = (m_val s)\<lparr>is_locked := True, lk_owner := Some t\<rparr>" "\<not> is_locked (m_val s)"
      using e by (auto simp: lock_ops_def)
    then show ?thesis using Took run(1) by (simp add: lock_holder_def)
  next
    case Gave
    then have "lock_own t (m_val s)" using v event_own [OF Gave] by (simp add: lk.val_inv_def)
    moreover have "m_val s' = (m_val s)\<lparr>is_locked := False, lk_owner := None\<rparr>"
      using e Gave by (auto simp: lock_ops_def)
    ultimately show ?thesis using Gave run(1) by (simp add: lock_holder_def lock_own_def)
  qed
qed (auto simp: lock_holder_def)

lemma lock_exec:
  assumes "sync_exec lock_ops lock_own lock_calls s0 ls s" and "quiet_machine s0"
    and "lock_create m_lock m_name m_wchan junk = Some (m_val s0)"
  shows "lk.inv s" "lock_history None ls = Some (lock_holder (m_val s))"
proof -
  have u: "\<not> is_locked (m_val s0)" using lock_createD [OF assms(3)] .
  then have wf: "lock_wf (m_val s0)" by (simp add: lock_wf_def)
  note inv = lk.exec_inv(1) [OF _ assms(2) wf subset_refl]
  show "lk.inv s" using inv [OF assms(1)] .
  show "lock_history None ls = Some (lock_holder (m_val s))" using assms(1)
  proof (induction)
    case start
    then show ?case using u by (simp add: lock_holder_def)
  next
    case (step ls s' l s'')
    then show ?case using lock_trans [OF inv [OF step.hyps(1)] step.hyps(2)] by (simp add: lock_history_append)
  qed
qed


text \<open>C20. Locks and condition variables do not block threads for ever by themselves: the calls take a
  bounded number of steps in total; while a thread inside an operation is awake, one inside and
  awake can make a step or waits only for a CPU; when all threads inside are asleep, each of them waits
  to be signalled, or waits for the lock while another call holds it.\<close>

theorem lock_cv_live:
  assumes "lock_create True True True junk = Some (m_val s0)" and "quiet_machine s0"
    and "sync_exec lock_ops lock_own lock_calls s0 ls s"
  shows "runs ls \<le> (19 + 8 * card (callers ls)) * calls ls \<and>
    ((\<exists>t. m_pc s t \<noteq> Idle \<and> m_run s t \<noteq> Asleep) \<longrightarrow>
       (\<exists>u. m_pc s u \<noteq> Idle \<and> (m_run s u = Ready \<or>
          (\<exists>c s'. m_run s u = OnCpu c \<and> mstep lock_ops s u c (m_pc s u) = Some (Some s'))))) \<and>
    ((\<forall>t. m_pc s t \<noteq> Idle \<longrightarrow> m_run s t = Asleep) \<longrightarrow>
       (\<forall>t. m_pc s t \<noteq> Idle \<longrightarrow> t \<in> set (m_wq s 0) \<and> is_locked (m_val s) \<or>
          t \<in> set (m_wq s 1) \<and> m_pc s t = Wait_asleep))"
proof -
  note e = lock_exec [OF assms(3,2,1)]
  have wf: "lock_wf (m_val s0)" using lock_createD [OF assms(1)] by (simp add: lock_wf_def)
  have cap: "(if is_locked (m_val s) then 0 else 1) < (2 :: nat)" by simp
  have "runs ls \<le> (19 + 8 * card (callers ls)) * calls ls"
    using lk.exec_load [OF assms(3,2) wf subset_refl finite_callers subset_refl lock_callsD(5)] by (simp add: mult.commute)
  moreover note lk.progress [OF e(1) _ _ cap]
  moreover have "t \<in> set (m_wq s 0) \<and> is_locked (m_val s) \<or> t \<in> set (m_wq s 1) \<and> m_pc s t = Wait_asleep"
    if "\<forall>u. m_pc s u \<noteq> Idle \<longrightarrow> m_run s u = Asleep" "m_pc s t \<noteq> Idle" for t
    using lk.all_asleep [OF e(1) _ that(2)] that(1) by (auto split: if_splits)
  ultimately show ?thesis by blast
qed

text \<open>Thread 0 takes a lock and goes on to \<open>cv_broadcast\<close>.\<close>

definition locked_play :: "nat \<Rightarrow> (label list \<times> lock mstate) option" where
  "locked_play n = do {
     let s0 = two_cpus \<lparr>is_locked = False, lk_owner = None\<rparr>;
     (ls, s) \<leftarrow> play lock_ops 3 0 0 (goto s0 0 (Acq A_spin));
     (ms, s') \<leftarrow> play lock_ops n 0 0 (goto s 0 B_spin);
     Some (Call 0 (Acq A_spin) # ls @ Call 0 B_spin # ms, s')
   }"

lemma locked_play_exec:
  assumes "locked_play n = Some (ls, s)"
  shows "sync_exec lock_ops lock_own lock_calls (two_cpus \<lparr>is_locked = False, lk_owner = None\<rparr>) ls s"
proof -
  let ?s0 = "two_cpus \<lparr>is_locked = False, lk_owner = None\<rparr>"
  obtain ms s1 ns where p: "play lock_ops 3 0 0 (goto ?s0 0 (Acq A_spin)) = Some (ms, s1)"
      "play lock_ops n 0 0 (goto s1 0 B_spin) = Some (ns, s)" "ls = Call 0 (Acq A_spin) # ms @ Call 0 B_spin # ns"
    using assms by (auto simp: locked_play_def Let_def bind_eq_Some_conv)
  have "case play lock_ops 3 0 0 (goto ?s0 0 (Acq A_spin)) of
      Some (ms, s) \<Rightarrow> m_run s 0 = OnCpu 0 \<and> m_pc s 0 = Idle \<and> lock_own 0 (m_val s) | None \<Rightarrow> False" by code_simp
  then have s1: "m_run s1 0 = OnCpu 0" "m_pc s1 0 = Idle" "lock_own 0 (m_val s1)" using p(1) by simp_all
  have "sync_exec lock_ops lock_own lock_calls ?s0 [Call 0 (Acq A_spin)] (goto ?s0 0 (Acq A_spin))"
    using sync_exec_call [OF sync_exec.start, where t = 0 and c = 0 and s = ?s0] by (simp add: two_cpus_def lock_calls_def)
  from sync_exec_run [OF this p(1)] have "sync_exec lock_ops lock_own lock_calls ?s0 (Call 0 (Acq A_spin) # ms) s1" by simp
  from sync_exec_call [OF this s1(1,2), of B_spin] s1(3)
  have "sync_exec lock_ops lock_own lock_calls ?s0 ((Call 0 (Acq A_spin) # ms) @ [Call 0 B_spin]) (goto s1 0 B_spin)"
    by (simp add: lock_calls_def)
  from sync_exec_run [OF this p(2)] p(3) show ?thesis by simp
qed

lemma plain_lock: "lock_create True True True None = Some (m_val (two_cpus \<lparr>is_locked = False, lk_owner = None\<rparr>))"
  by (simp add: lock_create_def two_cpus_quiet)


theorem lock_cv_live_witness:
  "case locked_play 2 of
     Some (ls, s) \<Rightarrow> runs ls = 5 \<and> calls ls = 2 \<and> runs ls \<le> 54 \<and>
       (\<exists>u. m_pc s u \<noteq> Idle \<and> (m_run s u = Ready \<or>
          (\<exists>c s'. m_run s u = OnCpu c \<and> mstep lock_ops s u c (m_pc s u) = Some (Some s'))))
   | None \<Rightarrow> False"
proof -
  have "case locked_play 2 of
     Some (ls, s) \<Rightarrow> m_run s 0 = OnCpu 0 \<and> m_pc s 0 = B_pop \<and> runs ls = 5 \<and> calls ls = 2 | None \<Rightarrow> False" by code_simp
  then obtain ls s where s: "locked_play 2 = Some (ls, s)" "m_run s 0 = OnCpu 0" "m_pc s 0 = B_pop" "runs ls = 5" "calls ls = 2"
    by (auto split: option.splits prod.splits)
  have "m_pc s 0 \<noteq> Idle \<and> m_run s 0 \<noteq> Asleep" using s by simp
  then show ?thesis
    using lock_cv_live [OF plain_lock two_cpus_quiet(1) locked_play_exec [OF s(1)]] s(1,4,5) by auto
qed

subsection \<open>Condition variables\<close>

text \<open>A thread inside \<open>cv_wait\<close> that has given the lock away and not come back from the channel.\<close>

fun in_wait :: "pc \<Rightarrow> bool" where
  "in_wait (Wait_rel r) \<longleftrightarrow> r \<noteq> R_spin \<and> r \<noteq> R_give"
| "in_wait Wait_wlock \<longleftrightarrow> True"
| "in_wait Wait_unspin \<longleftrightarrow> True"
| "in_wait Wait_sleep \<longleftrightarrow> True"
| "in_wait Wait_asleep \<longleftrightarrow> True"
| "in_wait _ \<longleftrightarrow> False"

lemma in_wait_asleep:
  assumes sp: "spin_inv s" and u: "{Spin 1, Wc 1} \<subseteq> held (m_pc s u)" and t: "in_wait (m_pc s t)" and "t \<noteq> u"
  shows "m_pc s t = Wait_asleep"
proof -
  have "Spin 1 \<notin> held (m_pc s t)" "Wc 1 \<notin> held (m_pc s t)"
    using held_unique [OF sp, of _ t u] u assms(4) by auto
  then show ?thesis using t by (cases "m_pc s t" rule: in_wait.cases) auto
qed

lemma pop_step:
  assumes sp: "spin_inv s" "m_run s u = OnCpu c" and p: "m_pc s u = B_pop \<or> m_pc s u = Sig_wake W_pop"
  shows "\<exists>s'. mstep ops s u c (m_pc s u) = Some (Some s') \<and>
       (m_pc s u = B_pop \<longrightarrow> m_pc s' u = B_ready (m_wq s 1) \<and> m_wq s' 1 = []) \<and>
       (m_pc s u = Sig_wake W_pop \<longrightarrow>
          (case m_wq s 1 of [] \<Rightarrow> m_pc s' u = Sig_wake (W_ready None)
           | t # ts \<Rightarrow> m_pc s' u = Sig_wake (W_ready (Some t)) \<and> m_wq s' 1 = ts))"
proof -
  have h: "Wc 1 \<in> held (m_pc s u)" using p by auto
  have rel: "\<exists>s'. m_release (s\<lparr>m_wq := q\<rparr>) u c (Wc 1) p = Some s' \<and> m_pc s' u = p \<and> m_wq s' = q" for q p
  proof -
    have "spin_inv (s\<lparr>m_wq := q\<rparr>)" "m_run (s\<lparr>m_wq := q\<rparr>) u = OnCpu c" "Wc 1 \<in> held (m_pc (s\<lparr>m_wq := q\<rparr>) u)"
      using sp h by simp_all
    then obtain s' where "m_release (s\<lparr>m_wq := q\<rparr>) u c (Wc 1) p = Some s'" "released (s\<lparr>m_wq := q\<rparr>) u c (Wc 1) p s'"
      by (rule m_release_ok)
    then show ?thesis by (intro exI [of _ s'] conjI) (simp_all add: released_def)
  qed
  show ?thesis
  proof (cases "m_pc s u = B_pop")
    case True
    then show ?thesis using rel [of "(m_wq s)(1 := [])" "B_ready (m_wq s 1)"] by (auto simp: wchan_unlock_step_def)
  next
    case False
    then have p: "m_pc s u = Sig_wake W_pop" using p by simp
    have same: "s\<lparr>m_wq := m_wq s\<rparr> = s" by simp
    show ?thesis
    proof (cases "m_wq s 1")
      case Nil
      then show ?thesis using rel [of "m_wq s" "Sig_wake (W_ready None)"] p by (auto simp: wchan_unlock_step_def same)
    next
      case (Cons t ts)
      then show ?thesis
        using rel [of "(m_wq s)(1 := ts)" "Sig_wake (W_ready (Some t))"] p by (auto simp: wchan_unlock_step_def)
    qed
  qed
qed

text \<open>C21. Waiting on a condition variable releases the lock and goes to sleep as one operation as far
  as signals are concerned: when a thread that calls \<open>cv_signal\<close> or \<open>cv_broadcast\<close> is about to look at the
  channel, every thread that has given the lock away in \<open>cv_wait\<close> and has not been woken up is on
  the channel already, or taken from it by an earlier call. The signal takes the first
  of them, the broadcast takes all of them and leaves the channel empty, whatever the
  interleaving.\<close>

theorem cv_no_lost_signal:
  assumes "lock_create True True True junk = Some (m_val s0)" and "quiet_machine s0"
    and "sync_exec lock_ops lock_own lock_calls s0 ls s" and "m_run s u = OnCpu c"
    and "m_pc s u = B_pop \<or> m_pc s u = Sig_wake W_pop"
  shows "(\<forall>t. in_wait (m_pc s t) \<longrightarrow> m_pc s t = Wait_asleep \<and>
       (m_run s t = Asleep \<longrightarrow> t \<in> set (m_wq s 1) \<or> (\<exists>w. w \<noteq> u \<and> t \<in> set (targets (m_pc s w))))) \<and>
    (\<forall>t. t \<in> set (m_wq s 1) \<longrightarrow> in_wait (m_pc s t)) \<and>
    (\<exists>s'. mstep lock_ops s u c (m_pc s u) = Some (Some s') \<and>
       (m_pc s u = B_pop \<longrightarrow> m_pc s' u = B_ready (m_wq s 1) \<and> m_wq s' 1 = []) \<and>
       (m_pc s u = Sig_wake W_pop \<longrightarrow>
          (case m_wq s 1 of [] \<Rightarrow> m_pc s' u = Sig_wake (W_ready None)
           | t # ts \<Rightarrow> m_pc s' u = Sig_wake (W_ready (Some t)) \<and> m_wq s' 1 = ts)))"
proof -
  have sp: "spin_inv s" and q: "q_inv s" using lock_exec(1) [OF assms(3,2,1)] by (simp_all add: lk.inv_def)
  have h: "{Spin 1, Wc 1} \<subseteq> held (m_pc s u)" and tu: "targets (m_pc s u) = []" and nw: "\<not> in_wait (m_pc s u)"
    using assms(5) by auto
  have w: "m_pc s t = Wait_asleep" if "in_wait (m_pc s t)" for t using in_wait_asleep [OF sp h that] that nw by auto
  have on: "t \<in> set (m_wq s 1) \<or> (\<exists>w. w \<noteq> u \<and> t \<in> set (targets (m_pc s w)))"
    if t: "in_wait (m_pc s t)" "m_run s t = Asleep" for t
  proof (cases "\<exists>i. t \<in> set (m_wq s i)")
    case True
    then obtain i where i: "t \<in> set (m_wq s i)" by blast
    then have "i = 1" using q_invD(3) [OF q i] w [OF t(1)] by simp
    then show ?thesis using i by simp
  next
    case False
    then obtain w where "t \<in> set (targets (m_pc s w))" using q_invD(9) [OF q t(2)] by blast
    then show ?thesis using tu by (cases "w = u") auto
  qed
  have "in_wait (m_pc s t)" if "t \<in> set (m_wq s 1)" for t
    using q_invD(3) [OF q that] by (cases "m_pc s t" rule: waits.cases) auto
  then show ?thesis by (intro conjI allI impI pop_step [OF sp assms(4,5)] w on)
qed

theorem cv_no_lost_signal_witness:
  "case locked_play 2 of
     Some (ls, s) \<Rightarrow> (\<exists>s'. mstep lock_ops s 0 0 (m_pc s 0) = Some (Some s') \<and> m_pc s' 0 = B_ready [] \<and> m_wq s' 1 = [])
   | None \<Rightarrow> False"
proof -
  have "case locked_play 2 of
     Some (ls, s) \<Rightarrow> m_run s 0 = OnCpu 0 \<and> m_pc s 0 = B_pop \<and> m_wq s 1 = [] | None \<Rightarrow> False" by code_simp
  then obtain ls s where s: "locked_play 2 = Some (ls, s)" "m_run s 0 = OnCpu 0" "m_pc s 0 = B_pop" "m_wq s 1 = []"
    by (auto split: option.splits prod.splits)
  then show ?thesis
    using cv_no_lost_signal [OF plain_lock two_cpus_quiet(1) locked_play_exec [OF s(1)] s(2)] by auto
qed

end
