(* ===== verification/Kern_Thread.thy ===== *)
theory Kern_Thread
  imports OS161_Prelude
begin

section \<open>Threads and CPUs: \<open>kern/thread/thread.c\<close> and \<open>clock.c\<close>\<close>

text \<open>
  Thread structures, run queues, zombies and wait channels, as sequences of threads
  (\<open>Kern_Threadlist\<close>), and the operations on them: each is what a CPU does while it holds the lock
  of the queue concerned. The functions that release and retake locks in between are sequences
  of such operations: \<open>thread_switch\<close> with its idle loop, and \<open>thread_consider_migration\<close>.
  Channels are numbered in the order of their creation; \<open>lbolt\<close> is one of them.

  The lemmas show that in every interleaving each thread is in exactly one place, that no two
  CPUs use the same thread, that no assertion fails, and that a CPU does not sleep while
  its run queue has a thread.
\<close>

unbundle bit_operations_syntax

subsection \<open>Threads\<close>

datatype threadstate = S_RUN | S_READY | S_SLEEP | S_ZOMBIE

definition THREAD_STACK_MAGIC :: "32 word" where
  "THREAD_STACK_MAGIC = 0xbaadf00d"

text \<open>\<open>t_stack\<close> holds the words at the bottom end of the stack; the boot thread has none.\<close>

record kthread =
  t_state :: threadstate
  t_stack :: "32 word list option"
  t_cpu :: "nat option"
  t_proc :: "nat option"

definition thread_checkstack_init :: "32 word list \<Rightarrow> 32 word list" where
  "thread_checkstack_init st =
     st[0 := THREAD_STACK_MAGIC, 1 := THREAD_STACK_MAGIC, 2 := THREAD_STACK_MAGIC, 3 := THREAD_STACK_MAGIC]"

definition thread_checkstack :: "kthread \<Rightarrow> unit option" where
  "thread_checkstack th =
     (case t_stack th of
        None \<Rightarrow> Some ()
      | Some st \<Rightarrow> kassert (length st \<ge> 4 \<and> st ! 0 = THREAD_STACK_MAGIC \<and> st ! 1 = THREAD_STACK_MAGIC \<and>
          st ! 2 = THREAD_STACK_MAGIC \<and> st ! 3 = THREAD_STACK_MAGIC))"

text \<open>\<open>m_thread\<close> is the address \<open>kmalloc\<close> returned, \<open>m_name\<close> whether \<open>kstrdup\<close> succeeded.\<close>

definition thread_create :: "nat option \<Rightarrow> bool \<Rightarrow> (nat \<times> kthread) option" where
  "thread_create m_thread m_name =
     (case m_thread of
        None \<Rightarrow> None
      | Some t \<Rightarrow>
          (if m_name then Some (t, \<lparr>t_state = S_READY, t_stack = None, t_cpu = None, t_proc = None\<rparr>) else None))"

subsection \<open>CPUs\<close>

record tlbshootdown =
  ts_addrspace :: nat
  ts_vaddr :: nat

record kcpu =
  c_curthread :: nat
  c_zombies :: "nat list"
  c_hardclocks :: nat
  c_isidle :: bool
  c_runqueue :: "nat list"
  c_ipi_pending :: "32 word"
  c_shootdown :: "tlbshootdown list"
  c_numshootdown :: int

definition TLBSHOOTDOWN_MAX :: nat where
  "TLBSHOOTDOWN_MAX = 16"

definition TLBSHOOTDOWN_ALL :: int where
  "TLBSHOOTDOWN_ALL = - 1"

definition IPI_PANIC :: nat where "IPI_PANIC = 0"
definition IPI_OFFLINE :: nat where "IPI_OFFLINE = 1"
definition IPI_UNIDLE :: nat where "IPI_UNIDLE = 2"
definition IPI_TLBSHOOTDOWN :: nat where "IPI_TLBSHOOTDOWN = 3"

text \<open>The system: the array of CPUs, the thread structures by address, and the channels.\<close>

record tsys =
  allcpus :: "kcpu list"
  ts_thread :: "nat \<rightharpoonup> kthread"
  wchans :: "nat list list"

definition put_cpu :: "tsys \<Rightarrow> nat \<Rightarrow> kcpu \<Rightarrow> tsys" where
  "put_cpu s c k = s\<lparr>allcpus := (allcpus s)[c := k]\<rparr>"

definition put_thread :: "tsys \<Rightarrow> nat \<Rightarrow> kthread \<Rightarrow> tsys" where
  "put_thread s t th = s\<lparr>ts_thread := (ts_thread s)(t \<mapsto> th)\<rparr>"

text \<open>A list node is on at most one list: adding a thread that is on one already fails.\<close>

definition on_list :: "tsys \<Rightarrow> nat \<Rightarrow> bool" where
  "on_list s t \<longleftrightarrow> (\<exists>k \<in> set (allcpus s). t \<in> set (c_runqueue k) \<or> t \<in> set (c_zombies k)) \<or>
     (\<exists>q \<in> set (wchans s). t \<in> set q)"

subsection \<open>Interprocessor interrupts\<close>

definition ipi_send :: "tsys \<Rightarrow> nat \<Rightarrow> nat \<Rightarrow> tsys option" where
  "ipi_send s target code = do {
     kassert (code < 32);
     k \<leftarrow> slot_get (allcpus s) target;
     Some (put_cpu s target (k\<lparr>c_ipi_pending := c_ipi_pending k OR push_bit code 1\<rparr>))
   }"

fun ipi_broadcast_from :: "nat list \<Rightarrow> tsys \<Rightarrow> nat \<Rightarrow> nat \<Rightarrow> tsys option" where
  "ipi_broadcast_from [] s curcpu code = Some s"
| "ipi_broadcast_from (i # is) s curcpu code =
     (if i = curcpu then ipi_broadcast_from is s curcpu code
      else do {
        s' \<leftarrow> ipi_send s i code;
        ipi_broadcast_from is s' curcpu code
      })"

definition ipi_broadcast :: "tsys \<Rightarrow> nat \<Rightarrow> nat \<Rightarrow> tsys option" where
  "ipi_broadcast s curcpu code = ipi_broadcast_from [0..<length (allcpus s)] s curcpu code"

definition ipi_tlbshootdown :: "tsys \<Rightarrow> nat \<Rightarrow> tlbshootdown \<Rightarrow> tsys option" where
  "ipi_tlbshootdown s target mapping = do {
     k \<leftarrow> slot_get (allcpus s) target;
     let n = c_numshootdown k;
     k' \<leftarrow> (if n = int TLBSHOOTDOWN_MAX then Some (k\<lparr>c_numshootdown := TLBSHOOTDOWN_ALL\<rparr>)
           else do {
             kassert (0 \<le> n);
             sh \<leftarrow> slot_set (c_shootdown k) (nat n) mapping;
             Some (k\<lparr>c_shootdown := sh, c_numshootdown := n + 1\<rparr>)
           });
     Some (put_cpu s target (k'\<lparr>c_ipi_pending := c_ipi_pending k' OR push_bit IPI_TLBSHOOTDOWN 1\<rparr>))
   }"

text \<open>
  What the handler asks of the TLB, or that it stops the CPU for good. The VM system of this kernel
  implements neither \<open>vm_tlbshootdown_all\<close> nor \<open>vm_tlbshootdown\<close>: both panic.
\<close>

datatype ipi_outcome = Halted | Flush_all | Flush "tlbshootdown list"

definition interprocessor_interrupt :: "tsys \<Rightarrow> nat \<Rightarrow> (ipi_outcome \<times> tsys) option" where
  "interprocessor_interrupt s curcpu = do {
     k \<leftarrow> slot_get (allcpus s) curcpu;
     let bits = c_ipi_pending k;
     if bit bits IPI_PANIC \<or> bit bits IPI_OFFLINE then Some (Halted, s)
     else if bit bits IPI_TLBSHOOTDOWN then do {
       let k' = k\<lparr>c_numshootdown := 0, c_ipi_pending := 0\<rparr>;
       Some (if c_numshootdown k = TLBSHOOTDOWN_ALL then Flush_all
             else Flush (take (nat (c_numshootdown k)) (c_shootdown k)), put_cpu s curcpu k')
     }
     else Some (Flush [], put_cpu s curcpu (k\<lparr>c_ipi_pending := 0\<rparr>))
   }"

subsection \<open>Making threads runnable\<close>

definition runqueue_add :: "tsys \<Rightarrow> nat \<Rightarrow> nat \<Rightarrow> tsys option" where
  "runqueue_add s c t = do {
     k \<leftarrow> slot_get (allcpus s) c;
     kassert (\<not> on_list s t);
     Some (put_cpu s c (k\<lparr>c_runqueue := c_runqueue k @ [t]\<rparr>))
   }"

definition thread_make_runnable :: "tsys \<Rightarrow> nat \<Rightarrow> tsys option" where
  "thread_make_runnable s target = do {
     th \<leftarrow> ts_thread s target;
     targetcpu \<leftarrow> t_cpu th;
     k \<leftarrow> slot_get (allcpus s) targetcpu;
     s' \<leftarrow> runqueue_add s targetcpu target;
     if c_isidle k then ipi_send s' targetcpu IPI_UNIDLE else Some s'
   }"

subsection \<open>Wait channels\<close>

definition wchan_create :: "bool \<Rightarrow> tsys \<Rightarrow> (nat option \<times> tsys)" where
  "wchan_create m_wchan s = (if m_wchan then (Some (length (wchans s)), s\<lparr>wchans := wchans s @ [[]]\<rparr>) else (None, s))"

definition wchan_isempty :: "tsys \<Rightarrow> nat \<Rightarrow> bool option" where
  "wchan_isempty s w = map_option (\<lambda>q. q = []) (slot_get (wchans s) w)"

text \<open>
  Waking up: threads are taken from the channel while it is locked (all of them to a private
  list, \<open>Kern_Threadlist.move_all\<close>), and then made runnable one by one.
\<close>

definition wchan_grab :: "bool \<Rightarrow> tsys \<Rightarrow> nat \<Rightarrow> (nat list \<times> tsys) option" where
  "wchan_grab all s w = do {
     q \<leftarrow> slot_get (wchans s) w;
     let n = (if all then length q else 1);
     Some (take n q, s\<lparr>wchans := (wchans s)[w := drop n q]\<rparr>)
   }"

fun make_all_runnable :: "tsys \<Rightarrow> nat list \<Rightarrow> tsys option" where
  "make_all_runnable s [] = Some s"
| "make_all_runnable s (target # list) = do {
     s' \<leftarrow> thread_make_runnable s target;
     make_all_runnable s' list
   }"

definition wchan_wakeone :: "tsys \<Rightarrow> nat \<Rightarrow> tsys option" where
  "wchan_wakeone s w = do {
     (list, s') \<leftarrow> wchan_grab False s w;
     make_all_runnable s' list
   }"

definition wchan_wakeall :: "tsys \<Rightarrow> nat \<Rightarrow> tsys option" where
  "wchan_wakeall s w = do {
     (list, s') \<leftarrow> wchan_grab True s w;
     make_all_runnable s' list
   }"

subsection \<open>Switching threads\<close>

definition thread_destroy :: "tsys \<Rightarrow> nat \<Rightarrow> nat \<Rightarrow> tsys option" where
  "thread_destroy s curthread t = do {
     th \<leftarrow> ts_thread s t;
     kassert (t \<noteq> curthread);
     kassert (t_state th \<noteq> S_RUN);
     kassert (t_proc th = None);
     kassert (\<not> on_list s t);
     Some (s\<lparr>ts_thread := (ts_thread s)(t := None)\<rparr>)
   }"

function exorcise :: "tsys \<Rightarrow> nat \<Rightarrow> tsys option" where
  "exorcise s c =
     (case slot_get (allcpus s) c of
        None \<Rightarrow> None
      | Some k \<Rightarrow>
          (case c_zombies k of
             [] \<Rightarrow> Some s
           | z # zs \<Rightarrow> do {
               th \<leftarrow> ts_thread s z;
               kassert (z \<noteq> c_curthread k);
               kassert (t_state th = S_ZOMBIE);
               s' \<leftarrow> thread_destroy (put_cpu s c (k\<lparr>c_zombies := zs\<rparr>)) (c_curthread k) z;
               exorcise s' c
             }))"
  by pat_completeness auto
termination
  by (relation "measure (\<lambda>(s, c). length (c_zombies (allcpus s ! c)))")
     (auto simp: thread_destroy_def put_cpu_def bind_eq_Some_conv)

declare exorcise.simps [simp del]

text \<open>
  The end of \<open>thread_switch\<close> and the beginning of \<open>thread_startup\<close>, in the thread switched to.
\<close>

definition thread_resume :: "tsys \<Rightarrow> nat \<Rightarrow> tsys option" where
  "thread_resume s c = do {
     k \<leftarrow> slot_get (allcpus s) c;
     th \<leftarrow> ts_thread s (c_curthread k);
     exorcise (put_thread s (c_curthread k) (th\<lparr>t_state := S_RUN\<rparr>)) c
   }"

text \<open>
  One round of the loop that looks for the next thread, with the run queue locked. When it finds
  none the CPU stays idle and calls \<open>cpu_idle\<close>.
\<close>

definition thread_next :: "tsys \<Rightarrow> nat \<Rightarrow> tsys option" where
  "thread_next s c = do {
     k \<leftarrow> slot_get (allcpus s) c;
     (case c_runqueue k of
        [] \<Rightarrow> Some s
      | next # q \<Rightarrow> thread_resume (put_cpu s c (k\<lparr>c_runqueue := q, c_isidle := False, c_curthread := next\<rparr>)) c)
   }"

text \<open>\<open>thread_switch\<close> up to the end of the first round of that loop: the run queue stays locked.\<close>

definition thread_switch :: "tsys \<Rightarrow> nat \<Rightarrow> threadstate \<Rightarrow> nat \<Rightarrow> tsys option" where
  "thread_switch s c newstate wc = do {
     k \<leftarrow> slot_get (allcpus s) c;
     if c_isidle k then Some s
     else do {
       let cur = c_curthread k;
       th \<leftarrow> ts_thread s cur;
       thread_checkstack th;
       if newstate = S_READY \<and> c_runqueue k = [] then Some s
       else do {
         s1 \<leftarrow> (case newstate of
                 S_RUN \<Rightarrow> panic
               | S_READY \<Rightarrow> thread_make_runnable s cur
               | S_SLEEP \<Rightarrow> do {
                   q \<leftarrow> slot_get (wchans s) wc;
                   kassert (\<not> on_list s cur);
                   Some (s\<lparr>wchans := (wchans s)[wc := q @ [cur]]\<rparr>)
                 }
               | S_ZOMBIE \<Rightarrow> do {
                   kassert (\<not> on_list s cur);
                   Some (put_cpu s c (k\<lparr>c_zombies := c_zombies k @ [cur]\<rparr>))
                 });
         th1 \<leftarrow> ts_thread s1 cur;
         k1 \<leftarrow> slot_get (allcpus s1) c;
         thread_next (put_cpu (put_thread s1 cur (th1\<lparr>t_state := newstate\<rparr>)) c (k1\<lparr>c_isidle := True\<rparr>)) c
       }
     }
   }"

definition thread_yield :: "tsys \<Rightarrow> nat \<Rightarrow> tsys option" where
  "thread_yield s c = thread_switch s c S_READY 0"

definition wchan_sleep :: "tsys \<Rightarrow> nat \<Rightarrow> nat \<Rightarrow> tsys option" where
  "wchan_sleep s c wc = thread_switch s c S_SLEEP wc"

text \<open>
  \<open>thread_exit\<close>: the thread leaves its process; \<open>sem\<close> is the channel of \<open>sem_runprogram\<close>, when it exists,
  on which \<open>V\<close> wakes up a thread.
\<close>

definition thread_detach :: "tsys \<Rightarrow> nat \<Rightarrow> tsys option" where
  "thread_detach s c = do {
     k \<leftarrow> slot_get (allcpus s) c;
     th \<leftarrow> ts_thread s (c_curthread k);
     thread_checkstack th;
     Some (put_thread s (c_curthread k) (th\<lparr>t_proc := None\<rparr>))
   }"

definition thread_exit :: "tsys \<Rightarrow> nat \<Rightarrow> nat option \<Rightarrow> tsys option" where
  "thread_exit s c sem = do {
     s1 \<leftarrow> thread_detach s c;
     s2 \<leftarrow> (case sem of None \<Rightarrow> Some s1 | Some w \<Rightarrow> wchan_wakeone s1 w);
     thread_switch s2 c S_ZOMBIE 0
   }"

text \<open>
  \<open>thread_fork\<close>; the stack is what \<open>kmalloc\<close> returned, \<open>r_proc\<close> the result of \<open>proc_addthread\<close>.
\<close>

definition thread_fork ::
  "nat option \<Rightarrow> bool \<Rightarrow> 32 word list option \<Rightarrow> errno option \<Rightarrow> tsys \<Rightarrow> nat \<Rightarrow> nat option \<Rightarrow> (unit kresult \<times> tsys) option" where
  "thread_fork m_thread m_name m_stack r_proc s c proc =
     (case thread_create m_thread m_name of
        None \<Rightarrow> Some (Inl ENOMEM, s)
      | Some (newthread, th) \<Rightarrow> do {
          k \<leftarrow> slot_get (allcpus s) c;
          cur \<leftarrow> ts_thread s (c_curthread k);
          (case m_stack of
             None \<Rightarrow> do {
               s' \<leftarrow> thread_destroy (put_thread s newthread th) (c_curthread k) newthread;
               Some (Inl ENOMEM, s')
             }
           | Some st \<Rightarrow> do {
               let th1 = th\<lparr>t_stack := Some (thread_checkstack_init st), t_cpu := t_cpu cur\<rparr>;
               (case r_proc of
                  Some e \<Rightarrow> do {
                    s' \<leftarrow> thread_destroy (put_thread s newthread th1) (c_curthread k) newthread;
                    Some (Inl e, s')
                  }
                | None \<Rightarrow> do {
                    let th2 = th1\<lparr>t_proc := (if proc = None then t_proc cur else proc)\<rparr>;
                    s' \<leftarrow> thread_make_runnable (put_thread s newthread th2) newthread;
                    Some (Inr (), s')
                  })
             })
        })"

text \<open>
  A CPU structure with its first thread, which runs on it: the boot thread of the first CPU has no
  stack of its own. Failures of the allocations panic.
\<close>

definition cpu_create :: "nat option \<Rightarrow> bool \<Rightarrow> 32 word list option \<Rightarrow> nat \<Rightarrow> tsys \<Rightarrow> tsys option" where
  "cpu_create m_thread m_name m_stack kproc s = do {
     (t, th) \<leftarrow> thread_create m_thread m_name;
     let c = length (allcpus s);
     st \<leftarrow> (if c = 0 then Some None else map_option (\<lambda>st. Some (thread_checkstack_init st)) m_stack);
     Some (put_thread (s\<lparr>allcpus := allcpus s @
         [\<lparr>c_curthread = t, c_zombies = [], c_hardclocks = 0, c_isidle = False, c_runqueue = [], c_ipi_pending = 0,
           c_shootdown = replicate TLBSHOOTDOWN_MAX \<lparr>ts_addrspace = 0, ts_vaddr = 0\<rparr>, c_numshootdown = 0\<rparr>]\<rparr>)
       t (th\<lparr>t_stack := st, t_cpu := Some c, t_proc := Some kproc\<rparr>))
   }"

text \<open>A new CPU reports to the semaphore (on channel \<open>sem\<close>) its creator waits on, and its first thread exits.\<close>

definition cpu_hatch :: "tsys \<Rightarrow> nat \<Rightarrow> nat \<Rightarrow> tsys option" where
  "cpu_hatch s c sem = do {
     s' \<leftarrow> wchan_wakeone s sem;
     thread_exit s' c None
   }"

text \<open>On a panic the other CPUs are stopped and the run queue is dropped; a shutdown only stops them.\<close>

definition thread_panic :: "tsys \<Rightarrow> nat \<Rightarrow> tsys option" where
  "thread_panic s c = do {
     s' \<leftarrow> ipi_broadcast s c IPI_PANIC;
     k \<leftarrow> slot_get (allcpus s') c;
     Some (put_cpu s' c (k\<lparr>c_runqueue := []\<rparr>))
   }"

definition thread_shutdown :: "tsys \<Rightarrow> nat \<Rightarrow> tsys option" where
  "thread_shutdown s c = ipi_broadcast s c IPI_OFFLINE"

subsection \<open>Migration and the clock\<close>

text \<open>
  \<open>thread_consider_migration\<close> on CPU \<open>c\<close>: one step for each section in which it holds a lock. It counts
  the threads of CPU \<open>i\<close>; takes \<open>to_send\<close> threads from its own queue; fills the queue of CPU \<open>i\<close> from
  these victims; puts back what is left.
\<close>

datatype mig = Mig_count nat nat nat | Mig_take nat nat | Mig_send nat nat nat "nat list" | Mig_back "nat list"

fun migrate_take :: "nat \<Rightarrow> tsys \<Rightarrow> nat \<Rightarrow> nat list \<Rightarrow> (tsys \<times> nat list) option" where
  "migrate_take 0 s c victims = Some (s, victims)"
| "migrate_take (Suc n) s c victims = do {
     k \<leftarrow> slot_get (allcpus s) c;
     kassert (c_runqueue k \<noteq> []);
     migrate_take n (put_cpu s c (k\<lparr>c_runqueue := butlast (c_runqueue k)\<rparr>)) c (last (c_runqueue k) # victims)
   }"

text \<open>The current thread of an idle CPU may be among the victims; it is not moved.\<close>

fun migrate_fill :: "nat \<Rightarrow> tsys \<Rightarrow> nat \<Rightarrow> nat \<Rightarrow> nat \<Rightarrow> nat list \<Rightarrow> (tsys \<times> nat \<times> nat list) option" where
  "migrate_fill 0 s c i one_share victims = Some (s, 0, victims)"
| "migrate_fill (Suc to_send) s c i one_share victims = do {
     k \<leftarrow> slot_get (allcpus s) i;
     self \<leftarrow> slot_get (allcpus s) c;
     if length (c_runqueue k) < one_share then
       (case victims of
          [] \<Rightarrow> None
        | t # vs \<Rightarrow>
            (if t = c_curthread self then migrate_fill to_send s c i one_share (vs @ [t])
             else do {
               th \<leftarrow> ts_thread s t;
               s1 \<leftarrow> runqueue_add (put_thread s t (th\<lparr>t_cpu := Some i\<rparr>)) i t;
               s2 \<leftarrow> (if c_isidle k then ipi_send s1 i IPI_UNIDLE else Some s1);
               migrate_fill to_send s2 c i one_share vs
             }))
     else Some (s, Suc to_send, victims)
   }"

fun put_back :: "tsys \<Rightarrow> nat \<Rightarrow> nat list \<Rightarrow> tsys option" where
  "put_back s c [] = Some s"
| "put_back s c (t # victims) = do {
     s' \<leftarrow> runqueue_add s c t;
     put_back s' c victims
   }"

fun mig_step :: "tsys \<Rightarrow> nat \<Rightarrow> mig \<Rightarrow> (tsys \<times> mig option) option" where
  "mig_step s c (Mig_count i my_count total_count) =
     (if i < length (allcpus s) then do {
        k \<leftarrow> slot_get (allcpus s) i;
        Some (s, Some (Mig_count (i + 1) (if i = c then length (c_runqueue k) else my_count)
          (wrap32 (total_count + length (c_runqueue k)))))
      }
      else do {
        let one_share = DIVROUNDUP total_count (length (allcpus s));
        Some (s, if my_count < one_share then None else Some (Mig_take one_share (my_count - one_share)))
      })"
| "mig_step s c (Mig_take one_share to_send) = do {
     (s', victims) \<leftarrow> migrate_take to_send s c [];
     Some (s', Some (Mig_send 0 one_share to_send victims))
   }"
| "mig_step s c (Mig_send i one_share to_send victims) =
     (if i < length (allcpus s) \<and> 0 < to_send then
        (if i = c then Some (s, Some (Mig_send (i + 1) one_share to_send victims))
         else do {
           (s', to_send', victims') \<leftarrow> migrate_fill to_send s c i one_share victims;
           Some (s', Some (Mig_send (i + 1) one_share to_send' victims'))
         })
      else Some (s, if victims = [] then None else Some (Mig_back victims)))"
| "mig_step s c (Mig_back victims) = do {
     s' \<leftarrow> put_back s c victims;
     Some (s', None)
   }"

definition MIGRATE_HARDCLOCKS :: nat where
  "MIGRATE_HARDCLOCKS = 16"

text \<open>\<open>hardclock\<close> up to the call of \<open>thread_consider_migration\<close>, and whether it is called; \<open>schedule\<close> does nothing.\<close>

definition hardclock :: "tsys \<Rightarrow> nat \<Rightarrow> (tsys \<times> mig option) option" where
  "hardclock s c = do {
     k \<leftarrow> slot_get (allcpus s) c;
     let n = wrap32 (c_hardclocks k + 1);
     Some (put_cpu s c (k\<lparr>c_hardclocks := n\<rparr>), if n mod MIGRATE_HARDCLOCKS = 0 then Some (Mig_count 0 0 0) else None)
   }"

definition timerclock :: "tsys \<Rightarrow> nat \<Rightarrow> tsys option" where
  "timerclock s lbolt = wchan_wakeall s lbolt"

text \<open>\<open>clocksleep\<close> sleeps on \<open>lbolt\<close> once for each second: the seconds left after a wakeup.\<close>

definition clocksleep_step :: "tsys \<Rightarrow> nat \<Rightarrow> nat \<Rightarrow> int \<Rightarrow> (tsys \<times> int) option" where
  "clocksleep_step s c lbolt num_secs =
     (if num_secs > 0 then map_option (\<lambda>s'. (s', num_secs - 1)) (wchan_sleep s c lbolt) else Some (s, num_secs))"

subsection \<open>The system\<close>

text \<open>
  Each CPU runs a thread, handles an interrupt, or is idle; an idle CPU waits in \<open>cpu_idle\<close> (\<open>cf_wait\<close>) or
  is about to look at its run queue. A CPU in the middle of a migration or with threads to wake up
  has a job to finish, with interrupts off.
\<close>

datatype job = Migrate mig | Wake "nat list"

record tcfg =
  cf_sys :: tsys
  cf_wait :: "nat \<Rightarrow> bool"
  cf_job :: "nat \<Rightarrow> job option"

definition idle_at :: "tsys \<Rightarrow> nat \<Rightarrow> bool" where
  "idle_at s c \<longleftrightarrow> c_isidle (allcpus s ! c)"

definition on_cpu :: "tcfg \<Rightarrow> nat \<Rightarrow> bool" where
  "on_cpu f c \<longleftrightarrow> c < length (allcpus (cf_sys f)) \<and> cf_job f c = None"

definition running :: "tcfg \<Rightarrow> nat \<Rightarrow> bool" where
  "running f c \<longleftrightarrow> on_cpu f c \<and> \<not> idle_at (cf_sys f) c"

definition cur_at :: "tsys \<Rightarrow> nat \<Rightarrow> nat" where
  "cur_at s c = c_curthread (allcpus s ! c)"

definition settle :: "tcfg \<Rightarrow> nat \<Rightarrow> tsys \<Rightarrow> tcfg" where
  "settle f c s' = f\<lparr>cf_sys := s', cf_wait := (cf_wait f)(c := idle_at s' c)\<rparr>"

text \<open>The end of the clock interrupt: \<open>thread_yield\<close>, which does nothing on an idle CPU.\<close>

definition clock_yield :: "tcfg \<Rightarrow> nat \<Rightarrow> tsys \<Rightarrow> tcfg option" where
  "clock_yield f c s = do {
     s' \<leftarrow> thread_yield s c;
     Some (if idle_at s c then f\<lparr>cf_sys := s', cf_wait := (cf_wait f)(c := False)\<rparr> else settle f c s')
   }"

text \<open>
  The steps. \<open>thread_fork\<close> gets memory that is not in use and a stack of at least four words. An interrupt
  ends the wait in \<open>cpu_idle\<close>.
\<close>

inductive tstep :: "tcfg \<Rightarrow> tcfg \<Rightarrow> bool" where
  fork: "running f c \<Longrightarrow> (\<forall>t. m_thread = Some t \<longrightarrow> ts_thread (cf_sys f) t = None) \<Longrightarrow>
     (\<forall>st. m_stack = Some st \<longrightarrow> 4 \<le> length st) \<Longrightarrow>
     thread_fork m_thread m_name m_stack r_proc (cf_sys f) c proc = Some (r, s') \<Longrightarrow> tstep f (f\<lparr>cf_sys := s'\<rparr>)"
| detach: "running f c \<Longrightarrow> thread_detach (cf_sys f) c = Some s' \<Longrightarrow> tstep f (f\<lparr>cf_sys := s'\<rparr>)"
| exit: "running f c \<Longrightarrow> ts_thread (cf_sys f) (cur_at (cf_sys f) c) = Some th \<Longrightarrow> t_proc th = None \<Longrightarrow>
     thread_switch (cf_sys f) c S_ZOMBIE 0 = Some s' \<Longrightarrow> tstep f (settle f c s')"
| yield: "running f c \<Longrightarrow> thread_yield (cf_sys f) c = Some s' \<Longrightarrow> tstep f (settle f c s')"
| sleep: "running f c \<Longrightarrow> wchan_sleep (cf_sys f) c w = Some s' \<Longrightarrow> tstep f (settle f c s')"
| channel: "wchan_create m_wchan (cf_sys f) = (r, s') \<Longrightarrow> tstep f (f\<lparr>cf_sys := s'\<rparr>)"
| grab: "on_cpu f c \<Longrightarrow> wchan_grab all (cf_sys f) w = Some (list, s') \<Longrightarrow>
     tstep f (f\<lparr>cf_sys := s', cf_wait := (cf_wait f)(c := False), cf_job := (cf_job f)(c \<mapsto> Wake list)\<rparr>)"
| wake: "cf_job f c = Some (Wake (t # list)) \<Longrightarrow> thread_make_runnable (cf_sys f) t = Some s' \<Longrightarrow>
     tstep f (f\<lparr>cf_sys := s', cf_job := (cf_job f)(c \<mapsto> Wake list)\<rparr>)"
| woken: "cf_job f c = Some (Wake []) \<Longrightarrow> tstep f (f\<lparr>cf_job := (cf_job f)(c := None)\<rparr>)"
| clock: "on_cpu f c \<Longrightarrow> hardclock (cf_sys f) c = Some (s', None) \<Longrightarrow> clock_yield f c s' = Some f' \<Longrightarrow> tstep f f'"
| clock_migrate: "on_cpu f c \<Longrightarrow> hardclock (cf_sys f) c = Some (s', Some m) \<Longrightarrow>
     tstep f (f\<lparr>cf_sys := s', cf_wait := (cf_wait f)(c := False), cf_job := (cf_job f)(c \<mapsto> Migrate m)\<rparr>)"
| migrate: "cf_job f c = Some (Migrate m) \<Longrightarrow> mig_step (cf_sys f) c m = Some (s', Some m') \<Longrightarrow>
     tstep f (f\<lparr>cf_sys := s', cf_job := (cf_job f)(c \<mapsto> Migrate m')\<rparr>)"
| migrated: "cf_job f c = Some (Migrate m) \<Longrightarrow> mig_step (cf_sys f) c m = Some (s', None) \<Longrightarrow>
     clock_yield (f\<lparr>cf_job := (cf_job f)(c := None)\<rparr>) c s' = Some f' \<Longrightarrow> tstep f f'"
| ipi: "on_cpu f c \<Longrightarrow> interprocessor_interrupt (cf_sys f) c = Some (Flush [], s') \<Longrightarrow>
     tstep f (f\<lparr>cf_sys := s', cf_wait := (cf_wait f)(c := False)\<rparr>)"
| look: "on_cpu f c \<Longrightarrow> idle_at (cf_sys f) c \<Longrightarrow> \<not> cf_wait f c \<Longrightarrow> thread_next (cf_sys f) c = Some s' \<Longrightarrow>
     tstep f (settle f c s')"

inductive tsteps :: "tcfg \<Rightarrow> tcfg \<Rightarrow> bool" for f where
  start: "tsteps f f"
| step: "tsteps f f' \<Longrightarrow> tstep f' f'' \<Longrightarrow> tsteps f f''"

text \<open>A machine with \<open>n\<close> CPUs after \<open>cpu_create\<close> for each of them.\<close>

fun boot_cpus :: "nat \<Rightarrow> tsys option" where
  "boot_cpus 0 = Some \<lparr>allcpus = [], ts_thread = Map.empty, wchans = []\<rparr>"
| "boot_cpus (Suc n) = do {
     s \<leftarrow> boot_cpus n;
     cpu_create (Some n) True (Some [0, 0, 0, 0]) 0 s
   }"

definition boot_cfg :: "tsys \<Rightarrow> tcfg" where
  "boot_cfg s = \<lparr>cf_sys = s, cf_wait = (\<lambda>c. False), cf_job = (\<lambda>c. None)\<rparr>"

subsection \<open>Where threads are\<close>

text \<open>
  The places a thread can be in: the run queue or the zombie list of a CPU, running on it, on a
  channel, among the victims of a migration, or taken from a channel and about to be made runnable.
\<close>

datatype place = Rq nat | Zomb nat | Cur nat | Wch nat | Held nat | Woken nat

fun contents :: "tsys \<Rightarrow> (nat \<Rightarrow> nat list) \<Rightarrow> (nat \<Rightarrow> nat list) \<Rightarrow> place \<Rightarrow> nat list" where
  "contents s V W (Rq c) = (if c < length (allcpus s) then c_runqueue (allcpus s ! c) else [])"
| "contents s V W (Zomb c) = (if c < length (allcpus s) then c_zombies (allcpus s ! c) else [])"
| "contents s V W (Cur c) = (if c < length (allcpus s) \<and> \<not> idle_at s c then [cur_at s c] else [])"
| "contents s V W (Wch w) = (if w < length (wchans s) then wchans s ! w else [])"
| "contents s V W (Held c) = V c"
| "contents s V W (Woken c) = W c"

fun place_ok :: "nat \<Rightarrow> place \<Rightarrow> kthread \<Rightarrow> bool" where
  "place_ok n (Rq c) th \<longleftrightarrow> c < n \<and> t_cpu th = Some c \<and> (t_state th = S_READY \<or> t_state th = S_SLEEP)"
| "place_ok n (Zomb c) th \<longleftrightarrow> c < n \<and> t_cpu th = Some c \<and> t_state th = S_ZOMBIE \<and> t_proc th = None"
| "place_ok n (Cur c) th \<longleftrightarrow> c < n \<and> t_cpu th = Some c \<and> (t_state th = S_RUN \<or> t_state th = S_READY)"
| "place_ok n (Wch w) th \<longleftrightarrow> (\<exists>c < n. t_cpu th = Some c) \<and> t_state th = S_SLEEP"
| "place_ok n (Held c) th \<longleftrightarrow> c < n \<and> t_cpu th = Some c \<and> (t_state th = S_READY \<or> t_state th = S_SLEEP)"
| "place_ok n (Woken d) th \<longleftrightarrow> (\<exists>c < n. t_cpu th = Some c) \<and> t_state th = S_SLEEP"

definition stack_ok :: "kthread \<Rightarrow> bool" where
  "stack_ok th \<longleftrightarrow> thread_checkstack th = Some ()"

definition places_inv :: "(place \<Rightarrow> nat list) \<Rightarrow> (nat \<rightharpoonup> kthread) \<Rightarrow> nat \<Rightarrow> bool" where
  "places_inv C T n \<longleftrightarrow> (\<forall>p. distinct (C p)) \<and> (\<forall>t p q. t \<in> set (C p) \<longrightarrow> t \<in> set (C q) \<longrightarrow> p = q) \<and>
     (\<forall>t th. T t = Some th \<longrightarrow> stack_ok th \<and> (\<exists>p. t \<in> set (C p) \<and> place_ok n p th)) \<and>
     (\<forall>t p. t \<in> set (C p) \<longrightarrow> T t \<noteq> None)"

lemma places_invD:
  assumes "places_inv C T n"
  shows "distinct (C p)" "t \<in> set (C p) \<Longrightarrow> t \<in> set (C q) \<Longrightarrow> p = q" "T t = Some th \<Longrightarrow> stack_ok th"
    "t \<in> set (C p) \<Longrightarrow> \<exists>th. T t = Some th \<and> place_ok n p th \<and> stack_ok th" "T t = Some th \<Longrightarrow> \<exists>p. t \<in> set (C p) \<and> place_ok n p th"
proof -
  show "distinct (C p)" "t \<in> set (C p) \<Longrightarrow> t \<in> set (C q) \<Longrightarrow> p = q" "T t = Some th \<Longrightarrow> stack_ok th"
    "T t = Some th \<Longrightarrow> \<exists>p. t \<in> set (C p) \<and> place_ok n p th" using assms unfolding places_inv_def by blast+
  show "\<exists>th. T t = Some th \<and> place_ok n p th \<and> stack_ok th" if tp: "t \<in> set (C p)"
  proof -
    have "T t \<noteq> None" using assms tp unfolding places_inv_def by blast
    then obtain th where th: "T t = Some th" by blast
    then obtain q where "stack_ok th" "t \<in> set (C q)" "place_ok n q th" using assms unfolding places_inv_def by blast
    moreover have "q = p" using assms tp \<open>t \<in> set (C q)\<close> unfolding places_inv_def by blast
    ultimately show ?thesis using th by blast
  qed
qed

lemma places_invI:
  assumes "\<And>p. distinct (C p)" and "\<And>t p q. t \<in> set (C p) \<Longrightarrow> t \<in> set (C q) \<Longrightarrow> p = q"
    and "\<And>t th. T t = Some th \<Longrightarrow> stack_ok th \<and> (\<exists>p. t \<in> set (C p) \<and> place_ok n p th)"
    and "\<And>t p. t \<in> set (C p) \<Longrightarrow> T t \<noteq> None"
  shows "places_inv C T n"
  unfolding places_inv_def
proof (intro conjI allI impI)
  show "distinct (C p)" for p by (rule assms(1))
  show "p = q" if "t \<in> set (C p)" "t \<in> set (C q)" for t p q using assms(2) [OF that] .
  show "stack_ok th" "\<exists>p. t \<in> set (C p) \<and> place_ok n p th" if "T t = Some th" for t th using assms(3) [OF that] by simp_all
  show "T t \<noteq> None" if "t \<in> set (C p)" for t p using assms(4) [OF that] .
qed

text \<open>A thread moves from one place to another and may change on the way.\<close>

lemma places_move:
  assumes i: "places_inv C T n" and t: "t \<in> set (C p)" and pq: "p \<noteq> q"
    and C': "C' = C(p := xs, q := ys)" and xs: "distinct xs" "set xs = set (C p) - {t}"
    and ys: "distinct ys" "set ys = insert t (set (C q))" and T': "T' = T(t \<mapsto> th)" and ok: "place_ok n q th" "stack_ok th"
  shows "places_inv C' T' n"
proof -
  note d = places_invD [OF i]
  have mem: "u \<in> set (C' r) \<longleftrightarrow> (if u = t then r = q else u \<in> set (C r))" for u r
  proof -
    have r: "t \<in> set (C r) \<longleftrightarrow> r = p" using d(2) [OF t, of r] t by blast
    have C': "C' r = (if r = q then ys else if r = p then xs else C r)" using C' by simp
    show ?thesis using xs(2) ys(2) pq r by (simp add: C')
  qed
  show ?thesis
  proof (rule places_invI)
    show "distinct (C' r)" for r using C' xs(1) ys(1) d(1) by simp
    show "r = r'" if "u \<in> set (C' r)" "u \<in> set (C' r')" for u r r'
      using that d(2) [of u r r'] by (auto simp: mem split: if_splits)
    show "stack_ok h \<and> (\<exists>p. u \<in> set (C' p) \<and> place_ok n p h)" if "T' u = Some h" for u h
    proof (cases "u = t")
      case True
      then show ?thesis using that T' ok mem by auto
    next
      case False
      then have u: "T u = Some h" using that T' by simp
      show ?thesis using d(3,5) [OF u] False mem by auto
    qed
    show "T' u \<noteq> None" if "u \<in> set (C' r)" for u r
      using that mem T' d(4) [of u r] by (auto split: if_splits)
  qed
qed

lemma places_change:
  assumes i: "places_inv C T n" and t: "t \<in> set (C p)" and T': "T' = T(t \<mapsto> th)" and ok: "place_ok n p th" "stack_ok th"
  shows "places_inv C T' n"
proof -
  note d = places_invD [OF i]
  show ?thesis
  proof (rule places_invI)
    show "stack_ok h \<and> (\<exists>p. u \<in> set (C p) \<and> place_ok n p h)" if "T' u = Some h" for u h
      using that T' ok t d(3,5) [of u h] by (cases "u = t") auto
    show "T' u \<noteq> None" if "u \<in> set (C r)" for u r using d(4) [OF that] T' by auto
  qed (fact d(1) d(2))+
qed

lemma places_new:
  assumes i: "places_inv C T n" and t: "T t = None" and C': "C' = C(q := ys)"
    and ys: "distinct ys" "set ys = insert t (set (C q))" and T': "T' = T(t \<mapsto> th)" and ok: "place_ok n q th" "stack_ok th"
  shows "places_inv C' T' n"
proof -
  note d = places_invD [OF i]
  have nt: "t \<notin> set (C p)" for p using d(4) [of t p] t by auto
  have mem: "u \<in> set (C' r) \<longleftrightarrow> (if u = t then r = q else u \<in> set (C r))" for u r
    using C' ys(2) nt by auto
  show ?thesis
  proof (rule places_invI)
    show "distinct (C' r)" for r using C' ys(1) d(1) by simp
    show "r = r'" if "u \<in> set (C' r)" "u \<in> set (C' r')" for u r r'
      using that d(2) [of u r r'] by (auto simp: mem split: if_splits)
    show "stack_ok h \<and> (\<exists>p. u \<in> set (C' p) \<and> place_ok n p h)" if "T' u = Some h" for u h
    proof (cases "u = t")
      case True
      then show ?thesis using that T' ok mem by auto
    next
      case False
      then have u: "T u = Some h" using that T' by simp
      show ?thesis using d(3,5) [OF u] False mem by auto
    qed
    show "T' u \<noteq> None" if "u \<in> set (C' r)" for u r
      using that mem T' d(4) [of u r] by (auto split: if_splits)
  qed
qed

lemma places_perm:
  assumes "places_inv C T n" and "\<And>p. set (C' p) = set (C p)" and "\<And>p. distinct (C' p)"
  shows "places_inv C' T n"
  using assms unfolding places_inv_def by simp

lemma places_gone:
  assumes i: "places_inv C T n" and t: "C p = t # ts" and C': "C' = C(p := ts)" and T': "T' = T(t := None)"
  shows "places_inv C' T' n"
proof -
  note d = places_invD [OF i]
  have mem: "u \<in> set (C' r) \<longleftrightarrow> u \<noteq> t \<and> u \<in> set (C r)" for u r
  proof -
    have "t \<notin> set ts" using d(1) [of p] t by simp
    moreover have "t \<in> set (C r) \<longleftrightarrow> r = p" using d(2) [of t p r] t by auto
    moreover have "C' r = (if r = p then ts else C r)" using C' by simp
    ultimately show ?thesis using t by auto
  qed
  show ?thesis
  proof (rule places_invI)
    show "distinct (C' r)" for r using C' t d(1) [of r] d(1) [of p] by simp
    show "r = r'" if "u \<in> set (C' r)" "u \<in> set (C' r')" for u r r'
      using that d(2) [of u r r'] by (simp add: mem)
    show "stack_ok h \<and> (\<exists>p. u \<in> set (C' p) \<and> place_ok n p h)" if "T' u = Some h" for u h
    proof -
      have u: "T u = Some h" "u \<noteq> t" using that T' by (auto split: if_splits)
      then show ?thesis using d(3,5) [OF u(1)] mem by auto
    qed
    show "T' u \<noteq> None" if "u \<in> set (C' r)" for u r using that mem T' d(4) [of u r] by auto
  qed
qed

text \<open>The whole system; the thread that is current on a CPU, idle or not, belongs to that CPU.\<close>

definition cur_inv :: "tsys \<Rightarrow> bool" where
  "cur_inv s \<longleftrightarrow> (\<forall>c < length (allcpus s). \<exists>th. ts_thread s (cur_at s c) = Some th \<and> t_cpu th = Some c)"

definition sys_inv :: "tsys \<Rightarrow> (nat \<Rightarrow> nat list) \<Rightarrow> (nat \<Rightarrow> nat list) \<Rightarrow> bool" where
  "sys_inv s V W \<longleftrightarrow> places_inv (contents s V W) (ts_thread s) (length (allcpus s)) \<and> cur_inv s"

lemma put_simps [simp]:
  "allcpus (put_cpu s c k) = (allcpus s)[c := k]" "ts_thread (put_cpu s c k) = ts_thread s" "wchans (put_cpu s c k) = wchans s"
  "allcpus (put_thread s t th) = allcpus s" "ts_thread (put_thread s t th) = (ts_thread s)(t \<mapsto> th)"
  "wchans (put_thread s t th) = wchans s"
  by (simp_all add: put_cpu_def put_thread_def)

lemma at_simps [simp]:
  "idle_at (put_thread s t th) = idle_at s" "cur_at (put_thread s t th) = cur_at s"
  "idle_at (s\<lparr>wchans := q\<rparr>) = idle_at s" "cur_at (s\<lparr>wchans := q\<rparr>) = cur_at s"
  "idle_at (s\<lparr>ts_thread := T\<rparr>) = idle_at s" "cur_at (s\<lparr>ts_thread := T\<rparr>) = cur_at s"
  by (simp_all add: idle_at_def cur_at_def fun_eq_iff)

lemma at_put [simp]:
  "c < length (allcpus s) \<Longrightarrow> idle_at (put_cpu s c k) d = (if d = c then c_isidle k else idle_at s d)"
  "c < length (allcpus s) \<Longrightarrow> cur_at (put_cpu s c k) d = (if d = c then c_curthread k else cur_at s d)"
  by (auto simp: idle_at_def cur_at_def nth_list_update)

lemma stack_ok_update [simp]:
  "stack_ok (th\<lparr>t_state := ns\<rparr>) \<longleftrightarrow> stack_ok th" "stack_ok (th\<lparr>t_cpu := c\<rparr>) \<longleftrightarrow> stack_ok th"
  "stack_ok (th\<lparr>t_proc := p\<rparr>) \<longleftrightarrow> stack_ok th"
  by (simp_all add: stack_ok_def thread_checkstack_def)

lemma contents_put_thread [simp]: "contents (put_thread s t th) V W = contents s V W"
proof
  show "contents (put_thread s t th) V W r = contents s V W r" for r by (cases r) auto
qed

lemma on_listD:
  assumes "on_list s t"
  obtains p where "t \<in> set (contents s V W p)" "\<And>c. p \<noteq> Cur c" "\<And>c. p \<noteq> Held c" "\<And>c. p \<noteq> Woken c"
proof -
  consider k where "k \<in> set (allcpus s)" "t \<in> set (c_runqueue k)" | k where "k \<in> set (allcpus s)" "t \<in> set (c_zombies k)"
    | q where "q \<in> set (wchans s)" "t \<in> set q" using assms unfolding on_list_def by blast
  then show ?thesis
  proof cases
    case 1
    then obtain c where "c < length (allcpus s)" "allcpus s ! c = k" by (auto simp: in_set_conv_nth)
    then show ?thesis using that [of "Rq c"] 1 by simp
  next
    case 2
    then obtain c where "c < length (allcpus s)" "allcpus s ! c = k" by (auto simp: in_set_conv_nth)
    then show ?thesis using that [of "Zomb c"] 2 by simp
  next
    case 3
    then obtain w where "w < length (wchans s)" "wchans s ! w = q" by (auto simp: in_set_conv_nth)
    then show ?thesis using that [of "Wch w"] 3 by simp
  qed
qed

lemma not_on_list:
  assumes i: "places_inv (contents s V W) T n"
  shows "t \<in> set (contents s V W (Cur c)) \<Longrightarrow> \<not> on_list s t" "t \<in> set (contents s V W (Held c)) \<Longrightarrow> \<not> on_list s t"
    "t \<in> set (contents s V W (Woken c)) \<Longrightarrow> \<not> on_list s t" "T t = None \<Longrightarrow> \<not> on_list s t"
proof -
  note d = places_invD(2) [OF i]
  show "t \<in> set (contents s V W (Cur c)) \<Longrightarrow> \<not> on_list s t" using on_listD [of s t V W] d [of t "Cur c"] by metis
  show "t \<in> set (contents s V W (Held c)) \<Longrightarrow> \<not> on_list s t" using on_listD [of s t V W] d [of t "Held c"] by metis
  show "t \<in> set (contents s V W (Woken c)) \<Longrightarrow> \<not> on_list s t" using on_listD [of s t V W] d [of t "Woken c"] by metis
  show "T t = None \<Longrightarrow> \<not> on_list s t" using on_listD [of s t V W] places_invD(4) [OF i, of t] by (metis option.distinct(1))
qed

lemma sys_invD:
  assumes "sys_inv s V W"
  shows "places_inv (contents s V W) (ts_thread s) (length (allcpus s))" "cur_inv s"
  using assms by (simp_all add: sys_inv_def)

lemma cur_invD: "cur_inv s \<Longrightarrow> c < length (allcpus s) \<Longrightarrow> \<exists>th. ts_thread s (cur_at s c) = Some th \<and> t_cpu th = Some c"
  by (simp add: cur_inv_def)

subsection \<open>What an operation of a CPU leaves alone\<close>

text \<open>
  An idle CPU with a thread to run has been sent an interrupt. Operations of CPU \<open>c\<close> keep that for
  the others, and take no thread from their queues.
\<close>

definition unidled :: "tsys \<Rightarrow> nat \<Rightarrow> bool" where
  "unidled s d \<longleftrightarrow> idle_at s d \<and>
     (c_runqueue (allcpus s ! d) \<noteq> [] \<longrightarrow> bit (c_ipi_pending (allcpus s ! d)) IPI_UNIDLE)"

definition keeps :: "nat \<Rightarrow> tsys \<Rightarrow> tsys \<Rightarrow> bool" where
  "keeps c s s' \<longleftrightarrow> length (allcpus s') = length (allcpus s) \<and> length (wchans s) \<le> length (wchans s') \<and>
     (\<forall>d. d < length (allcpus s) \<longrightarrow> d \<noteq> c \<longrightarrow> (unidled s d \<longrightarrow> unidled s' d) \<and>
        length (c_runqueue (allcpus s ! d)) \<le> length (c_runqueue (allcpus s' ! d)))"

lemma keeps_refl [simp]: "keeps c s s"
  by (simp add: keeps_def)

lemma keeps_trans: "keeps c s s' \<Longrightarrow> keeps c s' s'' \<Longrightarrow> keeps c s s''"
  unfolding keeps_def by (metis le_trans)

lemma keepsD:
  assumes "keeps c s s'"
  shows "length (allcpus s') = length (allcpus s)" "length (wchans s) \<le> length (wchans s')"
    "d < length (allcpus s) \<Longrightarrow> d \<noteq> c \<Longrightarrow> unidled s d \<Longrightarrow> unidled s' d"
    "d < length (allcpus s) \<Longrightarrow> d \<noteq> c \<Longrightarrow> length (c_runqueue (allcpus s ! d)) \<le> length (c_runqueue (allcpus s' ! d))"
  using assms by (simp_all add: keeps_def)

lemma keeps_put:
  "keeps c s (put_cpu s c k)" "keeps c s (put_thread s t th)" "keeps c s (s\<lparr>ts_thread := T\<rparr>)"
  "length (wchans s) \<le> length q \<Longrightarrow> keeps c s (s\<lparr>wchans := q\<rparr>)"
  by (auto simp: keeps_def unidled_def idle_at_def)

text \<open>Adding a thread to a run queue, with an interrupt for the CPU when it is idle.\<close>

definition rq_added :: "tsys \<Rightarrow> nat \<Rightarrow> nat \<Rightarrow> tsys \<Rightarrow> bool" where
  "rq_added s d t s' \<longleftrightarrow> (\<exists>b. s' = put_cpu s d ((allcpus s ! d)\<lparr>c_runqueue := c_runqueue (allcpus s ! d) @ [t], c_ipi_pending := b\<rparr>) \<and>
     (idle_at s d \<longrightarrow> bit b IPI_UNIDLE))"

lemma bit_unidle: "bit (b OR push_bit IPI_UNIDLE (1 :: 32 word)) IPI_UNIDLE"
  by (simp add: bit_or_iff bit_push_bit_iff IPI_UNIDLE_def bit_1_iff)

lemma rq_add_ok:
  assumes "\<not> on_list s t" and d: "d < length (allcpus s)"
  shows "\<exists>s'. (do {s1 \<leftarrow> runqueue_add s d t; if idle_at s d then ipi_send s1 d IPI_UNIDLE else Some s1}) = Some s' \<and> rq_added s d t s'"
proof -
  let ?k = "(allcpus s ! d)\<lparr>c_runqueue := c_runqueue (allcpus s ! d) @ [t]\<rparr>"
  have a: "runqueue_add s d t = Some (put_cpu s d ?k)" using assms by (simp add: runqueue_add_def)
  show ?thesis
  proof (cases "idle_at s d")
    case True
    let ?b = "c_ipi_pending ?k OR push_bit IPI_UNIDLE 1"
    have "ipi_send (put_cpu s d ?k) d IPI_UNIDLE = Some (put_cpu s d (?k\<lparr>c_ipi_pending := ?b\<rparr>))"
      using d by (simp add: ipi_send_def IPI_UNIDLE_def put_cpu_def)
    then show ?thesis using a True by (auto simp: rq_added_def intro!: exI [of _ ?b] bit_unidle)
  next
    case False
    then show ?thesis using a by (auto simp: rq_added_def intro!: exI [of _ "c_ipi_pending ?k"])
  qed
qed

lemma make_runnable_ok:
  assumes "ts_thread s t = Some th" and "t_cpu th = Some d" and "d < length (allcpus s)" and "\<not> on_list s t"
  obtains s' where "thread_make_runnable s t = Some s'" "rq_added s d t s'"
  using rq_add_ok [OF assms(4,3)] assms that by (auto simp: thread_make_runnable_def idle_at_def)

lemma rq_addedD:
  assumes "rq_added s d t s'" and d: "d < length (allcpus s)"
  shows "contents s' V W = (contents s V W)(Rq d := contents s V W (Rq d) @ [t])" "ts_thread s' = ts_thread s"
    "length (allcpus s') = length (allcpus s)" "keeps c s s'" "idle_at s' = idle_at s" "cur_at s' = cur_at s"
proof -
  obtain b where b: "s' = put_cpu s d ((allcpus s ! d)\<lparr>c_runqueue := c_runqueue (allcpus s ! d) @ [t], c_ipi_pending := b\<rparr>)"
    "idle_at s d \<longrightarrow> bit b IPI_UNIDLE" using assms(1) by (auto simp: rq_added_def)
  show at: "idle_at s' = idle_at s" "cur_at s' = cur_at s" using b(1) d by (auto simp: idle_at_def cur_at_def fun_eq_iff nth_list_update)
  show T: "ts_thread s' = ts_thread s" and n: "length (allcpus s') = length (allcpus s)" using b(1) by simp_all
  show "contents s' V W = (contents s V W)(Rq d := contents s V W (Rq d) @ [t])"
  proof
    fix p
    show "contents s' V W p = ((contents s V W)(Rq d := contents s V W (Rq d) @ [t])) p"
      using b(1) d at by (cases p) (auto simp: nth_list_update)
  qed
  show "keeps c s s'" using b d at by (auto simp: keeps_def unidled_def nth_list_update)
qed

lemma contents_lists:
  "contents s (V(c := vs)) W = (contents s V W)(Held c := vs)" "contents s V (W(c := vs)) = (contents s V W)(Woken c := vs)"
proof -
  show "contents s (V(c := vs)) W = (contents s V W)(Held c := vs)"
  proof
    show "contents s (V(c := vs)) W p = ((contents s V W)(Held c := vs)) p" for p by (cases p) auto
  qed
  show "contents s V (W(c := vs)) = (contents s V W)(Woken c := vs)"
  proof
    show "contents s V (W(c := vs)) p = ((contents s V W)(Woken c := vs)) p" for p by (cases p) auto
  qed
qed

lemma map_triv: "T t = Some th \<Longrightarrow> T(t \<mapsto> th) = T"
  by (rule ext) simp

subsection \<open>Waking threads up\<close>

lemma sys_invI:
  assumes "places_inv (contents s' V W) (ts_thread s') (length (allcpus s))" and "length (allcpus s') = length (allcpus s)"
    and "cur_inv s'"
  shows "sys_inv s' V W"
  using assms by (simp add: sys_inv_def)

lemma cur_inv_same:
  assumes "cur_inv s" and "length (allcpus s') = length (allcpus s)" and "\<And>d. d < length (allcpus s) \<Longrightarrow> cur_at s' d = cur_at s d"
    and "\<And>d th. d < length (allcpus s) \<Longrightarrow> ts_thread s (cur_at s d) = Some th \<Longrightarrow> t_cpu th = Some d \<Longrightarrow>
      \<exists>th'. ts_thread s' (cur_at s d) = Some th' \<and> t_cpu th' = Some d"
  shows "cur_inv s'"
  unfolding cur_inv_def
proof (intro allI impI)
  fix d assume "d < length (allcpus s')"
  then have d: "d < length (allcpus s)" using assms(2) by simp
  show "\<exists>th. ts_thread s' (cur_at s' d) = Some th \<and> t_cpu th = Some d"
    using cur_invD [OF assms(1) d] assms(4) [OF d] assms(3) [OF d] by auto
qed

lemma wake_ok:
  assumes i: "sys_inv s V W" and w: "W c = t # list"
  shows "\<exists>s'. thread_make_runnable s t = Some s' \<and> sys_inv s' V (W(c := list)) \<and> keeps d s s' \<and>
    idle_at s' = idle_at s"
proof -
  note p = sys_invD(1) [OF i]
  let ?C = "contents s V W"
  have t: "t \<in> set (?C (Woken c))" using w by simp
  obtain th e where th: "ts_thread s t = Some th" "stack_ok th" "e < length (allcpus s)" "t_cpu th = Some e" "t_state th = S_SLEEP"
    using places_invD(4) [OF p t] by auto
  obtain s' where s': "thread_make_runnable s t = Some s'" "rq_added s e t s'"
    using make_runnable_ok [OF th(1,4,3) not_on_list(3) [OF p t]] by blast
  note a = rq_addedD [OF s'(2) th(3)]
  have dl: "distinct (t # list)" using places_invD(1) [OF p, of "Woken c"] w by simp
  have nr: "t \<notin> set (?C (Rq e))" using places_invD(2) [OF p t, of "Rq e"] by auto
  have "places_inv (contents s' V (W(c := list))) (ts_thread s') (length (allcpus s))"
  proof (rule places_move [OF p t, where q = "Rq e" and xs = list and ys = "?C (Rq e) @ [t]" and th = th])
    show "contents s' V (W(c := list)) = ?C(Woken c := list, Rq e := ?C (Rq e) @ [t])"
      by (simp only: contents_lists(2) a(1) fun_upd_twist [of "Rq e" "Woken c"] place.distinct not_False_eq_True)
    show "ts_thread s' = (ts_thread s)(t \<mapsto> th)" using a(2) th(1) by (simp add: map_triv)
    show "set list = set (?C (Woken c)) - {t}" using dl w by auto
    show "distinct (?C (Rq e) @ [t])" using places_invD(1) [OF p, of "Rq e"] nr by simp
  qed (use dl th in auto)
  moreover have "cur_inv s'" using cur_inv_same [OF sys_invD(2) [OF i] a(3)] a(2,6) by simp
  ultimately show ?thesis using s'(1) a(4) [of d] a(5) sys_invI [OF _ a(3)] by blast
qed

text \<open>Threads leave the front of a channel.\<close>

lemma places_take:
  assumes i: "places_inv C T n" and p: "C p = us @ ts" and pq: "p \<noteq> q" and q: "C q = []" and C': "C' = C(p := ts, q := us)"
    and ok: "\<And>u th. u \<in> set us \<Longrightarrow> T u = Some th \<Longrightarrow> place_ok n p th \<Longrightarrow> place_ok n q th"
  shows "places_inv C' T n"
proof -
  note d = places_invD [OF i]
  have dis: "distinct us" "distinct ts" "set us \<inter> set ts = {}" using d(1) [of p] p by simp_all
  have C'r: "C' r = (if r = q then us else if r = p then ts else C r)" for r using C' by simp
  have old: "u \<in> set (C (if r = q then p else r))" if "u \<in> set (C' r)" for u r
    using that p by (auto simp: C'r split: if_splits)
  show ?thesis
  proof (rule places_invI)
    show "distinct (C' r)" for r using dis d(1) by (simp add: C'r)
    show "r = r'" if u: "u \<in> set (C' r)" "u \<in> set (C' r')" for u r r'
      using d(2) [OF old [OF u(1)] old [OF u(2)]] u dis(3) pq by (auto simp: C'r split: if_splits)
    show "stack_ok h \<and> (\<exists>r. u \<in> set (C' r) \<and> place_ok n r h)" if u: "T u = Some h" for u h
    proof -
      obtain r where r: "u \<in> set (C r)" "place_ok n r h" using d(5) [OF u] by blast
      have "r \<noteq> q" using r q by auto
      then have "\<exists>r. u \<in> set (C' r) \<and> place_ok n r h"
        using r p ok [OF _ u] by (cases "r = p"; cases "u \<in> set us") (force simp: C'r)+
      then show ?thesis using d(3) [OF u] by simp
    qed
    show "T u \<noteq> None" if "u \<in> set (C' r)" for u r using d(4) [OF old [OF that]] by auto
  qed
qed

lemma grab_ok:
  assumes i: "sys_inv s V W" and w: "w < length (wchans s)" and W: "W c = []"
  obtains list s' where "wchan_grab all s w = Some (list, s')" "sys_inv s' V (W(c := list))" "keeps d s s'"
    "idle_at s' = idle_at s" "allcpus s' = allcpus s"
proof -
  note p = sys_invD(1) [OF i]
  let ?C = "contents s V W" and ?n = "if all then length (wchans s ! w) else 1"
  let ?us = "take ?n (wchans s ! w)" and ?ts = "drop ?n (wchans s ! w)"
  let ?s = "s\<lparr>wchans := (wchans s)[w := ?ts]\<rparr>"
  have C: "contents ?s V W = ?C(Wch w := ?ts)"
  proof
    show "contents ?s V W r = (?C(Wch w := ?ts)) r" for r using w by (cases r) (auto simp: nth_list_update)
  qed
  have "places_inv (contents ?s V (W(c := ?us))) (ts_thread s) (length (allcpus s))"
    using w W by (intro places_take [OF p, where p = "Wch w" and q = "Woken c" and us = ?us and ts = ?ts])
      (auto simp: contents_lists(2) C)
  moreover have "cur_inv ?s" using sys_invD(2) [OF i] by (simp add: cur_inv_def)
  ultimately have "sys_inv ?s V (W(c := ?us))" by (simp add: sys_inv_def)
  moreover have "wchan_grab all s w = Some (?us, ?s)" using w by (simp add: wchan_grab_def Let_def)
  ultimately show ?thesis using that [of ?us ?s] keeps_put(4) [of s "(wchans s)[w := ?ts]"] by simp
qed

lemma make_all_ok:
  assumes "sys_inv s V (W(c := list))"
  shows "\<exists>s'. make_all_runnable s list = Some s' \<and> sys_inv s' V (W(c := [])) \<and> keeps d s s' \<and> idle_at s' = idle_at s"
  using assms
proof (induction list arbitrary: s)
  case Nil
  then show ?case by simp
next
  case (Cons t list)
  obtain s1 where s1: "thread_make_runnable s t = Some s1" "sys_inv s1 V (W(c := list))" "keeps d s s1" "idle_at s1 = idle_at s"
    using wake_ok [OF Cons.prems, of c t list d] by (simp only: fun_upd_same fun_upd_upd simp_thms) blast
  from Cons.IH [OF s1(2)] show ?case using s1 keeps_trans [OF s1(3)] by auto
qed

subsection \<open>Switching\<close>

text \<open>The CPU structures agree up to the zombies of CPU \<open>c\<close>.\<close>

definition same_but_zombies :: "nat \<Rightarrow> tsys \<Rightarrow> tsys \<Rightarrow> bool" where
  "same_but_zombies c s s' \<longleftrightarrow> wchans s' = wchans s \<and>
     (\<exists>zs. allcpus s' = (allcpus s)[c := (allcpus s ! c)\<lparr>c_zombies := zs\<rparr>])"

lemma same_but_zombiesD:
  assumes "same_but_zombies c s s'" and "c < length (allcpus s)"
  shows "keeps c s s'" "idle_at s' = idle_at s" "cur_at s' = cur_at s"
  using assms by (auto simp: same_but_zombies_def keeps_def unidled_def idle_at_def cur_at_def nth_list_update fun_eq_iff split: if_splits)

lemma exorcise_ok:
  assumes "sys_inv s V W" and "c < length (allcpus s)" and "\<not> idle_at s c"
  shows "\<exists>s'. exorcise s c = Some s' \<and> sys_inv s' V W \<and> same_but_zombies c s s'"
  using assms
proof (induction "length (c_zombies (allcpus s ! c))" arbitrary: s)
  case 0
  have "(allcpus s)[c := (allcpus s ! c)\<lparr>c_zombies := []\<rparr>] = allcpus s"
    using 0(1) by (metis (no_types) kcpu.surjective kcpu.update_convs(2) length_0_conv list_update_id)
  then have "same_but_zombies c s s" unfolding same_but_zombies_def by (metis (no_types))
  moreover have "exorcise s c = Some s" using 0 by (subst exorcise.simps) simp
  ultimately show ?case using 0(2) by blast
next
  case (Suc m)
  let ?k = "allcpus s ! c" and ?C = "contents s V W"
  obtain z zs where z: "c_zombies ?k = z # zs" using Suc.hyps(2) by (cases "c_zombies ?k") auto
  note p = sys_invD(1) [OF Suc.prems(1)]
  have zC: "?C (Zomb c) = z # zs" using z Suc.prems(2) by simp
  have zin: "z \<in> set (?C (Zomb c))" by (simp only: zC) simp
  obtain th where th: "ts_thread s z = Some th" "t_state th = S_ZOMBIE" "t_proc th = None" "t_cpu th = Some c"
    using places_invD(4) [OF p zin] by auto
  have cur: "c_curthread ?k \<in> set (?C (Cur c))" using Suc.prems by (simp add: cur_at_def)
  have nz: "z \<noteq> c_curthread ?k" using places_invD(2) [OF p cur, of "Zomb c"] zin by auto
  let ?s1 = "put_cpu s c (?k\<lparr>c_zombies := zs\<rparr>)"
  let ?s2 = "?s1\<lparr>ts_thread := (ts_thread s)(z := None)\<rparr>"
  have C1: "contents ?s2 V W = ?C(Zomb c := zs)"
  proof
    show "contents ?s2 V W r = (?C(Zomb c := zs)) r" for r
      using Suc.prems(2) by (cases r) (auto simp: nth_list_update idle_at_def cur_at_def)
  qed
  have p2: "places_inv (contents ?s2 V W) ((ts_thread s)(z := None)) (length (allcpus s))"
    using places_gone [OF p zC C1 refl] .
  have nl: "\<not> on_list ?s1 z"
  proof -
    have "\<not> on_list ?s2 z" using not_on_list(4) [OF p2] by simp
    then show ?thesis by (simp add: on_list_def)
  qed
  have "cur_inv ?s2"
  proof (rule cur_inv_same [OF sys_invD(2) [OF Suc.prems(1)]])
    show "\<exists>th'. ts_thread ?s2 (cur_at s d) = Some th' \<and> t_cpu th' = Some d"
      if "d < length (allcpus s)" "ts_thread s (cur_at s d) = Some h" "t_cpu h = Some d" for d h
      using that th nz by (cases "cur_at s d = z") (auto simp: cur_at_def)
  qed (use Suc.prems(2) in \<open>auto simp: cur_at_def nth_list_update\<close>)
  then have i2: "sys_inv ?s2 V W" using p2 by (simp add: sys_inv_def)
  have d: "thread_destroy ?s1 (c_curthread ?k) z = Some ?s2"
    using th nz nl by (simp add: thread_destroy_def)
  have "m = length (c_zombies (allcpus ?s2 ! c))" "c < length (allcpus ?s2)" "\<not> idle_at ?s2 c"
    using Suc.hyps(2) Suc.prems(2,3) z by (simp_all add: idle_at_def)
  from Suc.hyps(1) [OF this(1) i2 this(2,3)]
  obtain s' where s': "exorcise ?s2 c = Some s'" "sys_inv s' V W" "same_but_zombies c ?s2 s'" by blast
  have "exorcise s c = Some s'"
    using s'(1) d z th nz Suc.prems(2) by (subst exorcise.simps) simp
  moreover have "same_but_zombies c s s'"
    using s'(3) Suc.prems(2) by (auto simp: same_but_zombies_def)
  ultimately show ?case using s'(2) by blast
qed

lemma thread_next_ok:
  assumes i: "sys_inv s V W" and c: "c < length (allcpus s)" and idle: "idle_at s c"
  shows "\<exists>s'. thread_next s c = Some s' \<and> sys_inv s' V W \<and> keeps c s s' \<and>
    (idle_at s' c \<longrightarrow> c_runqueue (allcpus s' ! c) = []) \<and> (\<forall>d. d \<noteq> c \<longrightarrow> idle_at s' d = idle_at s d)"
proof (cases "c_runqueue (allcpus s ! c)")
  case Nil
  then show ?thesis using i c by (auto simp: thread_next_def)
next
  case (Cons t q)
  note p = sys_invD(1) [OF i]
  let ?k = "allcpus s ! c" and ?C = "contents s V W"
  have t: "t \<in> set (?C (Rq c))" using Cons c by simp
  obtain th where th: "ts_thread s t = Some th" "stack_ok th" "t_cpu th = Some c" using places_invD(4) [OF p t] by auto
  let ?s1 = "put_cpu s c (?k\<lparr>c_runqueue := q, c_isidle := False, c_curthread := t\<rparr>)"
  let ?s2 = "put_thread ?s1 t (th\<lparr>t_state := S_RUN\<rparr>)"
  have C2: "contents ?s2 V W = ?C(Rq c := q, Cur c := [t])"
  proof
    show "contents ?s2 V W r = (?C(Rq c := q, Cur c := [t])) r" for r
      using c by (cases r) (auto simp: nth_list_update)
  qed
  have dq: "distinct (t # q)" using places_invD(1) [OF p, of "Rq c"] Cons c by simp
  have "places_inv (contents ?s2 V W) (ts_thread ?s2) (length (allcpus s))"
  proof (rule places_move [OF p t _ C2, where th = "th\<lparr>t_state := S_RUN\<rparr>"])
    show "set q = set (?C (Rq c)) - {t}" using dq Cons c by auto
  qed (use dq c idle th in auto)
  moreover have "cur_inv ?s2" unfolding cur_inv_def
  proof (intro allI impI)
    fix d assume "d < length (allcpus ?s2)"
    then show "\<exists>h. ts_thread ?s2 (cur_at ?s2 d) = Some h \<and> t_cpu h = Some d"
      using cur_invD [OF sys_invD(2) [OF i], of d] c th by (cases "d = c") auto
  qed
  ultimately have i2: "sys_inv ?s2 V W" by (simp add: sys_inv_def)
  have c2: "c < length (allcpus ?s2)" "\<not> idle_at ?s2 c" using c by simp_all
  obtain s' where s': "exorcise ?s2 c = Some s'" "sys_inv s' V W" "same_but_zombies c ?s2 s'"
    using exorcise_ok [OF i2 c2] by blast
  note z = same_but_zombiesD [OF s'(3) c2(1)]
  have "keeps c s ?s2" using keeps_trans [OF keeps_put(1) keeps_put(2)] .
  then have "keeps c s s'" using keeps_trans z(1) by blast
  moreover have "thread_next s c = Some s'"
    using Cons c th s'(1) by (simp add: thread_next_def thread_resume_def)
  ultimately show ?thesis using s'(2) z(2) c by simp
qed

text \<open>The current thread of a running CPU leaves it for the end of a list.\<close>

lemma leave_cpu:
  assumes i: "sys_inv s V W" and c: "c < length (allcpus s)" and idle: "\<not> idle_at s c"
    and th: "ts_thread s (cur_at s c) = Some th" and q: "q \<noteq> Cur c"
    and s': "length (allcpus s') = length (allcpus s)" "cur_at s' = cur_at s"
      "contents s' V W = (contents s V W)(Cur c := [], q := contents s V W q @ [cur_at s c])"
      "ts_thread s' = (ts_thread s)(cur_at s c \<mapsto> th\<lparr>t_state := ns\<rparr>)"
    and ok: "place_ok (length (allcpus s)) q (th\<lparr>t_state := ns\<rparr>)"
  shows "sys_inv s' V W"
proof -
  note p = sys_invD(1) [OF i]
  let ?C = "contents s V W" and ?t = "cur_at s c"
  have t: "?t \<in> set (?C (Cur c))" using c idle by simp
  have nq: "?t \<notin> set (?C q)" using places_invD(2) [OF p t, of q] q by auto
  have "places_inv (contents s' V W) (ts_thread s') (length (allcpus s))"
  proof (rule places_move [OF p t _ s'(3) _ _ _ _ s'(4) ok])
    show "stack_ok (th\<lparr>t_state := ns\<rparr>)"
      using places_invD(3) [OF p th] by simp
    show "distinct (?C q @ [?t])" using places_invD(1) [OF p, of q] nq by simp
  qed (use q c idle in auto)
  moreover have "cur_inv s'"
    using s'(4) th by (intro cur_inv_same [OF sys_invD(2) [OF i] s'(1)]) (auto simp: s'(2))
  ultimately show ?thesis using sys_invI [OF _ s'(1)] by blast
qed

lemma cur_on_cpu:
  assumes i: "sys_inv s V W" and c: "c < length (allcpus s)" and idle: "\<not> idle_at s c"
  obtains th where "ts_thread s (cur_at s c) = Some th" "t_cpu th = Some c" "thread_checkstack th = Some ()"
    "\<not> on_list s (cur_at s c)"
proof -
  note p = sys_invD(1) [OF i]
  have t: "cur_at s c \<in> set (contents s V W (Cur c))" using c idle by simp
  show ?thesis using places_invD(4) [OF p t] not_on_list(1) [OF p t] that by (auto simp: stack_ok_def)
qed

lemma thread_switch_ok:
  assumes i: "sys_inv s V W" and c: "c < length (allcpus s)" and ns: "newstate \<noteq> S_RUN"
    and sl: "newstate = S_SLEEP \<longrightarrow> wc < length (wchans s)"
    and zo: "newstate = S_ZOMBIE \<longrightarrow> (\<exists>th. ts_thread s (cur_at s c) = Some th \<and> t_proc th = None)"
  shows "\<exists>s'. thread_switch s c newstate wc = Some s' \<and> sys_inv s' V W \<and> keeps c s s' \<and>
    (\<not> idle_at s c \<longrightarrow> idle_at s' c \<longrightarrow> c_runqueue (allcpus s' ! c) = []) \<and> (idle_at s c \<longrightarrow> s' = s)"
proof (cases "idle_at s c \<or> newstate = S_READY \<and> c_runqueue (allcpus s ! c) = []")
  case True
  show ?thesis
  proof (cases "idle_at s c")
    case True
    then show ?thesis using i c by (simp add: thread_switch_def idle_at_def)
  next
    case False
    then obtain th where "ts_thread s (cur_at s c) = Some th" "thread_checkstack th = Some ()" using cur_on_cpu [OF i c] by blast
    then show ?thesis using i c True False by (simp add: thread_switch_def idle_at_def cur_at_def)
  qed
next
  case False
  let ?k = "allcpus s ! c" and ?t = "cur_at s c" and ?C = "contents s V W"
  have idle: "\<not> idle_at s c" using False by simp
  obtain th where th: "ts_thread s ?t = Some th" "t_cpu th = Some c" "thread_checkstack th = Some ()" "\<not> on_list s ?t"
    using cur_on_cpu [OF i c idle] by blast
  let ?th = "th\<lparr>t_state := newstate\<rparr>"
  have cc: "c_curthread ?k = ?t" by (simp add: cur_at_def)
  have "\<exists>s2. thread_switch s c newstate wc = thread_next s2 c \<and> sys_inv s2 V W \<and> keeps c s s2 \<and> idle_at s2 c \<and>
    length (allcpus s2) = length (allcpus s)"
  proof (cases newstate)
    case S_RUN
    then show ?thesis using ns by simp
  next
    case S_READY
    obtain s1 where s1: "thread_make_runnable s ?t = Some s1" "rq_added s c ?t s1"
      using make_runnable_ok [OF th(1,2) c th(4)] by blast
    then obtain b where b: "s1 = put_cpu s c (?k\<lparr>c_runqueue := c_runqueue ?k @ [?t], c_ipi_pending := b\<rparr>)"
      by (auto simp: rq_added_def)
    let ?s2 = "put_cpu (put_thread s1 ?t ?th) c (?k\<lparr>c_runqueue := c_runqueue ?k @ [?t], c_ipi_pending := b, c_isidle := True\<rparr>)"
    have "contents ?s2 V W = ?C(Cur c := [], Rq c := ?C (Rq c) @ [?t])"
    proof
      show "contents ?s2 V W r = (?C(Cur c := [], Rq c := ?C (Rq c) @ [?t])) r" for r
        using c b by (cases r) (auto simp: nth_list_update)
    qed
    then have "sys_inv ?s2 V W"
      using th S_READY c b by (intro leave_cpu [OF i c idle th(1), where q = "Rq c" and ns = newstate]) (auto simp: fun_eq_iff cc)
    moreover have "keeps c s ?s2"
      using keeps_trans [OF keeps_trans [OF rq_addedD(4) [OF s1(2) c] keeps_put(2)] keeps_put(1)] .
    moreover have "thread_switch s c newstate wc = thread_next ?s2 c"
      using th s1(1) b False S_READY c by (simp add: thread_switch_def idle_at_def cur_at_def Let_def)
    ultimately show ?thesis using b c by (intro exI [of _ ?s2]) simp
  next
    case S_SLEEP
    let ?s2 = "put_cpu (put_thread (s\<lparr>wchans := (wchans s)[wc := wchans s ! wc @ [?t]]\<rparr>) ?t ?th) c (?k\<lparr>c_isidle := True\<rparr>)"
    have "contents ?s2 V W = ?C(Cur c := [], Wch wc := ?C (Wch wc) @ [?t])"
    proof
      show "contents ?s2 V W r = (?C(Cur c := [], Wch wc := ?C (Wch wc) @ [?t])) r" for r
        using c sl S_SLEEP by (cases r) (auto simp: nth_list_update)
    qed
    then have "sys_inv ?s2 V W"
      using th S_SLEEP c by (intro leave_cpu [OF i c idle th(1), where q = "Wch wc" and ns = newstate]) (auto simp: fun_eq_iff cc)
    moreover have "keeps c s ?s2"
      by (intro keeps_trans [OF keeps_trans [OF keeps_put(4) keeps_put(2)] keeps_put(1)]) simp
    moreover have "thread_switch s c newstate wc = thread_next ?s2 c"
      using th False S_SLEEP sl c by (simp add: thread_switch_def idle_at_def cur_at_def Let_def)
    ultimately show ?thesis using c by (intro exI [of _ ?s2]) simp
  next
    case S_ZOMBIE
    let ?s2 = "put_cpu (put_thread (put_cpu s c (?k\<lparr>c_zombies := c_zombies ?k @ [?t]\<rparr>)) ?t ?th) c (?k\<lparr>c_zombies := c_zombies ?k @ [?t], c_isidle := True\<rparr>)"
    have "contents ?s2 V W = ?C(Cur c := [], Zomb c := ?C (Zomb c) @ [?t])"
    proof
      show "contents ?s2 V W r = (?C(Cur c := [], Zomb c := ?C (Zomb c) @ [?t])) r" for r
        using c by (cases r) (auto simp: nth_list_update)
    qed
    then have "sys_inv ?s2 V W"
      using th S_ZOMBIE zo c by (intro leave_cpu [OF i c idle th(1), where q = "Zomb c" and ns = newstate]) (auto simp: fun_eq_iff cc)
    moreover have "keeps c s ?s2"
      using keeps_trans [OF keeps_trans [OF keeps_put(1) keeps_put(2)] keeps_put(1)] .
    moreover have "thread_switch s c newstate wc = thread_next ?s2 c"
      using th False S_ZOMBIE c by (simp add: thread_switch_def idle_at_def cur_at_def Let_def)
    ultimately show ?thesis using c by (intro exI [of _ ?s2]) simp
  qed
  then obtain s2 where s2: "thread_switch s c newstate wc = thread_next s2 c" "sys_inv s2 V W" "keeps c s s2" "idle_at s2 c"
    "length (allcpus s2) = length (allcpus s)" by blast
  obtain s' where s': "thread_next s2 c = Some s'" "sys_inv s' V W" "keeps c s2 s'"
      "idle_at s' c \<longrightarrow> c_runqueue (allcpus s' ! c) = []" using thread_next_ok [OF s2(2) _ s2(4)] s2(5) c by auto
  then show ?thesis using s2 keeps_trans [OF s2(3) s'(3)] idle by auto
qed

lemma detach_ok:
  assumes i: "sys_inv s V W" and c: "c < length (allcpus s)" and idle: "\<not> idle_at s c"
  shows "\<exists>s'. thread_detach s c = Some s' \<and> sys_inv s' V W \<and> keeps d s s' \<and> idle_at s' = idle_at s \<and> allcpus s' = allcpus s"
proof -
  note p = sys_invD(1) [OF i]
  let ?t = "cur_at s c"
  have t: "?t \<in> set (contents s V W (Cur c))" using c idle by simp
  obtain th where th: "ts_thread s ?t = Some th" "place_ok (length (allcpus s)) (Cur c) th" "stack_ok th"
    using places_invD(4) [OF p t] by auto
  let ?s = "put_thread s ?t (th\<lparr>t_proc := None\<rparr>)"
  have "places_inv (contents ?s V W) (ts_thread ?s) (length (allcpus s))"
    using places_change [OF p t refl, of "th\<lparr>t_proc := None\<rparr>"] th by simp
  moreover have "cur_inv ?s" using th(1) by (intro cur_inv_same [OF sys_invD(2) [OF i]]) auto
  ultimately have "sys_inv ?s V W" by (simp add: sys_inv_def)
  moreover have "thread_detach s c = Some ?s" using c th by (simp add: thread_detach_def cur_at_def stack_ok_def)
  ultimately show ?thesis using keeps_put(2) by auto
qed

lemma exit_ok:
  assumes i: "sys_inv s V W" and c: "c < length (allcpus s)" and idle: "\<not> idle_at s c"
  shows "\<exists>s'. thread_exit s c None = Some s'"
proof -
  obtain s1 where s1: "thread_detach s c = Some s1" "sys_inv s1 V W" "idle_at s1 = idle_at s" "allcpus s1 = allcpus s"
    using detach_ok [OF i c idle] by blast
  have "\<exists>th. ts_thread s1 (cur_at s1 c) = Some th \<and> t_proc th = None"
    using s1(1) c by (auto simp: thread_detach_def cur_at_def bind_eq_Some_conv)
  then show ?thesis using thread_switch_ok [OF s1(2), of c S_ZOMBIE 0] s1 c by (auto simp: thread_exit_def)
qed

lemma fork_ok:
  assumes i: "sys_inv s V W" and c: "c < length (allcpus s)" and idle: "\<not> idle_at s c"
    and fresh: "\<forall>t. m_thread = Some t \<longrightarrow> ts_thread s t = None" and st: "\<forall>st. m_stack = Some st \<longrightarrow> 4 \<le> length st"
  shows "\<exists>r s'. thread_fork m_thread m_name m_stack r_proc s c proc = Some (r, s') \<and> sys_inv s' V W \<and> keeps d s s' \<and>
    idle_at s' = idle_at s"
proof (cases "thread_create m_thread m_name")
  case None
  then show ?thesis using i by (simp add: thread_fork_def)
next
  case (Some r)
  then obtain t where t: "m_thread = Some t" and r: "r = (t, \<lparr>t_state = S_READY, t_stack = None, t_cpu = None, t_proc = None\<rparr>)"
    by (auto simp: thread_create_def split: option.splits if_splits)
  note p = sys_invD(1) [OF i]
  have tn: "ts_thread s t = None" using fresh t by simp
  have nl: "\<not> on_list s t" using not_on_list(4) [OF p tn] .
  obtain cth where cth: "ts_thread s (cur_at s c) = Some cth" "t_cpu cth = Some c" using cur_on_cpu [OF i c idle] by blast
  have nt: "t \<noteq> c_curthread (allcpus s ! c)" using cth tn by (auto simp: cur_at_def)
  have destroy: "thread_destroy (put_thread s t th) (c_curthread (allcpus s ! c)) t = Some s"
    if "t_state th = S_READY" "t_proc th = None" for th
  proof -
    have "(ts_thread s)(t := None) = ts_thread s" using tn by auto
    then show ?thesis using that nt nl by (simp add: thread_destroy_def on_list_def put_thread_def)
  qed
  show ?thesis
  proof (cases "m_stack = None \<or> r_proc \<noteq> None")
    case True
    then show ?thesis using i c Some r destroy cth by (auto simp: thread_fork_def cur_at_def Let_def split: option.split)
  next
    case False
    then obtain stk where stk: "m_stack = Some stk" "r_proc = None" by auto
    let ?th = "\<lparr>t_state = S_READY, t_stack = Some (thread_checkstack_init stk), t_cpu = Some c,
      t_proc = if proc = None then t_proc cth else proc\<rparr>"
    let ?s1 = "put_thread s t ?th"
    have nl1: "\<not> on_list ?s1 t" using nl by (simp add: on_list_def)
    obtain s' where s': "thread_make_runnable ?s1 t = Some s'" "rq_added ?s1 c t s'"
      using make_runnable_ok [of ?s1 t ?th c] nl1 c by auto
    have c1: "c < length (allcpus ?s1)" using c by simp
    note a = rq_addedD [OF s'(2) c1]
    have C: "contents s' V W = (contents s V W)(Rq c := contents s V W (Rq c) @ [t])"
      using a(1) [of V W] by simp
    have nr: "t \<notin> set (contents s V W (Rq c))" using places_invD(4) [OF p, of t "Rq c"] tn by auto
    have "places_inv (contents s' V W) (ts_thread s') (length (allcpus s))"
    proof (rule places_new [OF p tn C, where th = ?th])
      show "distinct (contents s V W (Rq c) @ [t])" using places_invD(1) [OF p, of "Rq c"] nr by simp
      have "4 \<le> length stk" "stk \<noteq> []" using st stk(1) by auto
      then show "stack_ok ?th" by (simp add: stack_ok_def thread_checkstack_def thread_checkstack_init_def nth_list_update)
    qed (use a(2) c in auto)
    moreover have "cur_inv s'"
    proof (rule cur_inv_same [OF sys_invD(2) [OF i]])
      show "\<exists>th'. ts_thread s' (cur_at s d) = Some th' \<and> t_cpu th' = Some d"
        if "ts_thread s (cur_at s d) = Some h" "t_cpu h = Some d" for d h
        using that a(2) tn by (cases "cur_at s d = t") auto
    qed (use a(3,6) in simp_all)
    ultimately have "sys_inv s' V W" using a(3) by (simp add: sys_inv_def)
    moreover have "keeps d s s'" using keeps_trans [OF keeps_put(2) a(4)] .
    ultimately show ?thesis
      using Some r stk c cth s'(1) a(5) by (simp add: thread_fork_def Let_def cur_at_def)
  qed
qed

subsection \<open>Migrating\<close>

lemma migrate_take_ok:
  assumes "sys_inv s V W" and "c < length (allcpus s)" and "n \<le> length (c_runqueue (allcpus s ! c))"
  shows "\<exists>s' vs. migrate_take n s c (V c) = Some (s', vs) \<and> sys_inv s' (V(c := vs)) W \<and> keeps c s s' \<and>
    idle_at s' = idle_at s \<and> length vs = length (V c) + n"
  using assms
proof (induction n arbitrary: s V)
  case 0
  have "sys_inv s (V(c := V c)) W" using 0(1) by (simp only: fun_upd_triv)
  then show ?case by (intro exI [of _ s] exI [of _ "V c"] conjI) simp_all
next
  case (Suc n)
  note p = sys_invD(1) [OF Suc.prems(1)] and c = Suc.prems(2)
  let ?k = "allcpus s ! c" and ?C = "contents s V W"
  obtain q t where q: "c_runqueue ?k = q @ [t]" using Suc.prems(3) by (cases "c_runqueue ?k" rule: rev_cases) auto
  have t: "t \<in> set (?C (Rq c))" using q c by simp
  have dq: "distinct (q @ [t])" using places_invD(1) [OF p, of "Rq c"] c q by simp
  obtain th where th: "ts_thread s t = Some th" "place_ok (length (allcpus s)) (Rq c) th" "stack_ok th"
    using places_invD(4) [OF p t] by blast
  let ?s1 = "put_cpu s c (?k\<lparr>c_runqueue := q\<rparr>)" and ?V = "V(c := t # V c)"
  have C1: "contents ?s1 ?V W = ?C(Rq c := q, Held c := t # ?C (Held c))"
  proof
    show "contents ?s1 ?V W r = (?C(Rq c := q, Held c := t # ?C (Held c))) r" for r
      using c by (cases r) (auto simp: nth_list_update cur_at_def idle_at_def)
  qed
  have nh: "t \<notin> set (?C (Held c))" using places_invD(2) [OF p t, of "Held c"] by auto
  have "places_inv (contents ?s1 ?V W) (ts_thread ?s1) (length (allcpus s))"
  proof (rule places_move [OF p t _ C1, where th = th])
    show "set q = set (?C (Rq c)) - {t}" using dq q c by auto
    show "distinct (t # ?C (Held c))" using places_invD(1) [OF p, of "Held c"] nh by simp
  qed (use dq th in \<open>auto simp: map_triv\<close>)
  moreover have "cur_inv ?s1" using c by (intro cur_inv_same [OF sys_invD(2) [OF Suc.prems(1)]]) (auto simp: cur_at_def nth_list_update)
  ultimately have i1: "sys_inv ?s1 ?V W" by (simp add: sys_inv_def)
  have "c < length (allcpus ?s1)" "n \<le> length (c_runqueue (allcpus ?s1 ! c))" using c Suc.prems(3) q by simp_all
  from Suc.IH [OF i1 this] obtain s' vs where "migrate_take n ?s1 c (?V c) = Some (s', vs)"
    "sys_inv s' (?V(c := vs)) W" and s'1: "keeps c ?s1 s'" "idle_at s' = idle_at ?s1" "length vs = length (?V c) + n" by blast
  then have s': "migrate_take n ?s1 c (t # V c) = Some (s', vs)" "sys_inv s' (V(c := vs)) W"
    by (simp_all only: fun_upd_same fun_upd_upd)
  have "idle_at ?s1 = idle_at s" using c by (auto simp: fun_eq_iff) (simp_all add: idle_at_def)
  then have "idle_at s' = idle_at s" using s'1(2) by simp
  moreover have "migrate_take (Suc n) s c (V c) = Some (s', vs)" using s'(1) q c by simp
  moreover have "length vs = length (V c) + Suc n" using s'1(3) by simp
  ultimately show ?case using s'(2) keeps_trans [OF keeps_put(1) s'1(1)] by blast
qed

text \<open>A victim goes to the queue of CPU \<open>e\<close>, which becomes its CPU.\<close>

lemma place_victim:
  assumes i: "sys_inv s V W" and c: "c < length (allcpus s)" and v: "V c = t # vs" and e: "e < length (allcpus s)"
    and cur: "t = cur_at s c \<longrightarrow> e = c"
  shows "\<exists>th s'. ts_thread s t = Some th \<and>
    (do {s1 \<leftarrow> runqueue_add (put_thread s t (th\<lparr>t_cpu := Some e\<rparr>)) e t; if idle_at s e then ipi_send s1 e IPI_UNIDLE else Some s1}) = Some s' \<and>
    rq_added (put_thread s t (th\<lparr>t_cpu := Some e\<rparr>)) e t s' \<and> t_cpu th = Some c \<and> sys_inv s' (V(c := vs)) W"
proof -
  note p = sys_invD(1) [OF i]
  let ?C = "contents s V W"
  have t: "t \<in> set (?C (Held c))" using v by simp
  obtain th where th: "ts_thread s t = Some th" "place_ok (length (allcpus s)) (Held c) th" "stack_ok th"
    using places_invD(4) [OF p t] by blast
  let ?th = "th\<lparr>t_cpu := Some e\<rparr>" and ?s1 = "put_thread s t (th\<lparr>t_cpu := Some e\<rparr>)"
  have nl: "\<not> on_list ?s1 t" using not_on_list(2) [OF p t] by (simp add: on_list_def)
  have e1: "e < length (allcpus ?s1)" using e by simp
  obtain s' where s': "(do {s1 \<leftarrow> runqueue_add ?s1 e t; if idle_at ?s1 e then ipi_send s1 e IPI_UNIDLE else Some s1}) = Some s'"
    "rq_added ?s1 e t s'" using rq_add_ok [OF nl e1] by blast
  note a = rq_addedD [OF s'(2) e1]
  have dv: "distinct (t # vs)" using places_invD(1) [OF p, of "Held c"] v by simp
  have nr: "t \<notin> set (?C (Rq e))" using places_invD(2) [OF p t, of "Rq e"] by auto
  have "places_inv (contents s' (V(c := vs)) W) (ts_thread s') (length (allcpus s))"
  proof (rule places_move [OF p t, where q = "Rq e" and xs = vs and ys = "?C (Rq e) @ [t]" and th = ?th])
    show "contents s' (V(c := vs)) W = ?C(Held c := vs, Rq e := ?C (Rq e) @ [t])"
      by (simp only: contents_lists(1) a(1) contents_put_thread fun_upd_twist [of "Rq e" "Held c"] place.distinct not_False_eq_True)
    show "set vs = set (?C (Held c)) - {t}" using dv v by auto
    show "distinct (?C (Rq e) @ [t])" using places_invD(1) [OF p, of "Rq e"] nr by simp
  qed (use dv th e a(2) in auto)
  moreover have "cur_inv s'"
  proof (rule cur_inv_same [OF sys_invD(2) [OF i]])
    show "\<exists>th'. ts_thread s' (cur_at s d) = Some th' \<and> t_cpu th' = Some d"
      if "ts_thread s (cur_at s d) = Some h" "t_cpu h = Some d" for d h
      using that a(2) th cur by (cases "cur_at s d = t") auto
  qed (use a(3,6) in simp_all)
  ultimately have "sys_inv s' (V(c := vs)) W" using a(3) by (simp add: sys_inv_def)
  then show ?thesis using th s' by auto
qed

lemma migrate_fill_ok:
  assumes "sys_inv s V W" and "c < length (allcpus s)" and "e < length (allcpus s)" and "e \<noteq> c" and "n \<le> length (V c)"
  shows "\<exists>s' n' vs. migrate_fill n s c e one_share (V c) = Some (s', n', vs) \<and> sys_inv s' (V(c := vs)) W \<and> keeps c s s' \<and>
    idle_at s' = idle_at s \<and> n' \<le> length vs"
  using assms
proof (induction n arbitrary: s V)
  case 0
  have "sys_inv s (V(c := V c)) W" using 0(1) by (simp only: fun_upd_triv)
  then show ?case by (intro exI [of _ s] exI [of _ 0] exI [of _ "V c"] conjI) simp_all
next
  case (Suc n)
  note p = sys_invD(1) [OF Suc.prems(1)] and c = Suc.prems(2) and e = Suc.prems(3)
  let ?k = "allcpus s ! e"
  obtain t vs where v: "V c = t # vs" using Suc.prems(5) by (cases "V c") auto
  consider (full) "one_share \<le> length (c_runqueue ?k)" | (cur) "length (c_runqueue ?k) < one_share" "t = cur_at s c"
    | (move) "length (c_runqueue ?k) < one_share" "t \<noteq> cur_at s c" by linarith
  then show ?case
  proof cases
    case full
    have "sys_inv s (V(c := V c)) W" using Suc.prems(1) by (simp only: fun_upd_triv)
    then show ?thesis using full c e Suc.prems(5) by (intro exI [of _ s] exI [of _ "Suc n"] exI [of _ "V c"] conjI) simp_all
  next
    case cur
    let ?V = "V(c := vs @ [t])"
    have "sys_inv s ?V W"
    proof (rule sys_invI [OF _ refl sys_invD(2) [OF Suc.prems(1)]])
      show "places_inv (contents s ?V W) (ts_thread s) (length (allcpus s))"
        using places_invD(1) [OF p, of "Held c"] places_invD(1) [OF p] v by (intro places_perm [OF p]) (auto simp: contents_lists(1))
    qed
    moreover have "n \<le> length (?V c)" using Suc.prems(5) v by simp
    ultimately obtain s' n' vs' where "migrate_fill n s c e one_share (?V c) = Some (s', n', vs')"
        "sys_inv s' (?V(c := vs')) W" and s'1: "keeps c s s'" "idle_at s' = idle_at s" "n' \<le> length vs'"
      using Suc.IH [OF _ c e Suc.prems(4)] by blast
    then have s': "migrate_fill n s c e one_share (vs @ [t]) = Some (s', n', vs')" "sys_inv s' (V(c := vs')) W"
      by (simp_all only: fun_upd_same fun_upd_upd)
    have "migrate_fill (Suc n) s c e one_share (V c) = Some (s', n', vs')" using s'(1) cur v c e by (simp add: cur_at_def)
    then show ?thesis using s'(2) s'1 by blast
  next
    case move
    then have "t = cur_at s c \<longrightarrow> e = c" by simp
    then obtain th s2 where th: "ts_thread s t = Some th" "rq_added (put_thread s t (th\<lparr>t_cpu := Some e\<rparr>)) e t s2"
        "(do {s1 \<leftarrow> runqueue_add (put_thread s t (th\<lparr>t_cpu := Some e\<rparr>)) e t; if idle_at s e then ipi_send s1 e IPI_UNIDLE else Some s1}) = Some s2"
        "sys_inv s2 (V(c := vs)) W"
      using place_victim [OF Suc.prems(1) c v e] by blast
    have e1: "e < length (allcpus (put_thread s t (th\<lparr>t_cpu := Some e\<rparr>)))" using e by simp
    note a = rq_addedD [OF th(2) e1]
    have k2: "keeps c s s2" using keeps_trans [OF keeps_put(2) a(4)] .
    have n2: "length (allcpus s2) = length (allcpus s)" "idle_at s2 = idle_at s" using a(3,5) by simp_all
    have c2: "c < length (allcpus s2)" "e < length (allcpus s2)" using c e n2(1) by simp_all
    have "n \<le> length ((V(c := vs)) c)" using Suc.prems(5) v by simp
    then obtain s' n' vs' where "migrate_fill n s2 c e one_share ((V(c := vs)) c) = Some (s', n', vs')"
        "sys_inv s' ((V(c := vs))(c := vs')) W" and s'1: "keeps c s2 s'" "idle_at s' = idle_at s2" "n' \<le> length vs'"
      using Suc.IH [OF th(4) c2 Suc.prems(4)] by blast
    then have s': "migrate_fill n s2 c e one_share vs = Some (s', n', vs')" "sys_inv s' (V(c := vs')) W"
      by (simp_all only: fun_upd_same fun_upd_upd)
    have "migrate_fill (Suc n) s c e one_share (V c) = Some (s', n', vs')"
      using move v c e th(1,3) s'(1) by (auto simp: cur_at_def idle_at_def bind_eq_Some_conv)
    moreover have "idle_at s' = idle_at s" using s'1(2) n2(2) by simp
    ultimately show ?thesis using s'(2) s'1(3) keeps_trans [OF k2 s'1(1)] by blast
  qed
qed

lemma put_back_ok:
  assumes "sys_inv s V W" and "c < length (allcpus s)"
  shows "\<exists>s'. put_back s c (V c) = Some s' \<and> sys_inv s' (V(c := [])) W \<and> keeps c s s' \<and> idle_at s' = idle_at s"
  using assms
proof (induction "V c" arbitrary: s V)
  case Nil
  have "V(c := []) = V" using Nil(1) by (metis fun_upd_triv)
  then have "sys_inv s (V(c := [])) W" using Nil(2) by simp
  moreover have "put_back s c (V c) = Some s" by (simp add: Nil(1) [symmetric])
  ultimately show ?case using keeps_refl by blast
next
  case (Cons t vs)
  note p = sys_invD(1) [OF Cons.prems(1)] and c = Cons.prems(2) and v = Cons.hyps(2) [symmetric]
  let ?C = "contents s V W" and ?k = "allcpus s ! c"
  have t: "t \<in> set (?C (Held c))" using v by simp
  obtain th where th: "ts_thread s t = Some th" "place_ok (length (allcpus s)) (Held c) th" "stack_ok th"
    using places_invD(4) [OF p t] by blast
  have dv: "distinct (t # vs)" using places_invD(1) [OF p, of "Held c"] v by simp
  have nr: "t \<notin> set (?C (Rq c))" using places_invD(2) [OF p t, of "Rq c"] by auto
  let ?s1 = "put_cpu s c (?k\<lparr>c_runqueue := c_runqueue ?k @ [t]\<rparr>)" and ?V = "V(c := vs)"
  have C1: "contents ?s1 ?V W = ?C(Held c := vs, Rq c := ?C (Rq c) @ [t])"
  proof
    show "contents ?s1 ?V W r = (?C(Held c := vs, Rq c := ?C (Rq c) @ [t])) r" for r
      using c by (cases r) (auto simp: nth_list_update cur_at_def idle_at_def)
  qed
  have "places_inv (contents ?s1 ?V W) (ts_thread ?s1) (length (allcpus s))"
  proof (rule places_move [OF p t _ C1, where th = th])
    show "set vs = set (?C (Held c)) - {t}" using dv v by auto
    show "distinct (?C (Rq c) @ [t])" using places_invD(1) [OF p, of "Rq c"] nr by simp
  qed (use dv th in \<open>auto simp: map_triv\<close>)
  moreover have "cur_inv ?s1" using c by (intro cur_inv_same [OF sys_invD(2) [OF Cons.prems(1)]]) (auto simp: cur_at_def nth_list_update)
  ultimately have i1: "sys_inv ?s1 ?V W" by (simp add: sys_inv_def)
  have "vs = ?V c" "c < length (allcpus ?s1)" using c by simp_all
  from Cons.hyps(1) [OF this(1) i1 this(2)] obtain s' where "put_back ?s1 c (?V c) = Some s'" "sys_inv s' (?V(c := [])) W"
    and s'1: "keeps c ?s1 s'" "idle_at s' = idle_at ?s1" by blast
  then have s': "put_back ?s1 c vs = Some s'" "sys_inv s' (V(c := [])) W" by (simp_all only: fun_upd_same fun_upd_upd)
  have "runqueue_add s c t = Some ?s1" using c not_on_list(2) [OF p t] by (simp add: runqueue_add_def)
  then have "put_back s c (V c) = Some s'" using s'(1) v by simp
  moreover have "idle_at ?s1 = idle_at s" using c by (auto simp: fun_eq_iff) (simp_all add: idle_at_def)
  ultimately show ?case using s'(2) s'1 keeps_trans [OF keeps_put(1) s'1(1)] by metis
qed

fun job_victims :: "job option \<Rightarrow> nat list" where
  "job_victims (Some (Migrate (Mig_send i one_share to_send victims))) = victims"
| "job_victims (Some (Migrate (Mig_back victims))) = victims"
| "job_victims _ = []"

fun job_woken :: "job option \<Rightarrow> nat list" where
  "job_woken (Some (Wake list)) = list"
| "job_woken _ = []"

fun job_ok :: "tsys \<Rightarrow> nat \<Rightarrow> job \<Rightarrow> bool" where
  "job_ok s c (Migrate (Mig_count i my_count total_count)) \<longleftrightarrow> my_count \<le> length (c_runqueue (allcpus s ! c))"
| "job_ok s c (Migrate (Mig_take one_share to_send)) \<longleftrightarrow> to_send \<le> length (c_runqueue (allcpus s ! c))"
| "job_ok s c (Migrate (Mig_send i one_share to_send victims)) \<longleftrightarrow> to_send \<le> length victims"
| "job_ok s c _ \<longleftrightarrow> True"

lemma mig_step_ok:
  assumes i: "sys_inv s V W" and c: "c < length (allcpus s)" and v: "V c = job_victims (Some (Migrate m))" and ok: "job_ok s c (Migrate m)"
  shows "\<exists>s' m'. mig_step s c m = Some (s', m') \<and> sys_inv s' (V(c := job_victims (map_option Migrate m'))) W \<and>
    keeps c s s' \<and> idle_at s' = idle_at s \<and> (\<forall>j. m' = Some j \<longrightarrow> job_ok s' c (Migrate j))"
proof -
  have same: "sys_inv s (V(c := vs)) W" if "V c = vs" for vs using i that by (metis fun_upd_triv)
  show ?thesis
  proof (cases m)
    case (Mig_count k my_count total_count)
    have "V c = []" using v Mig_count by simp
    then have "sys_inv s (V(c := [])) W" by (rule same)
    moreover have "\<exists>m'. mig_step s c m = Some (s, m') \<and> job_victims (map_option Migrate m') = [] \<and>
        (\<forall>j. m' = Some j \<longrightarrow> job_ok s c (Migrate j))"
      using Mig_count ok c by (auto simp: Let_def)
    ultimately show ?thesis using keeps_refl by metis
  next
    case (Mig_take one_share to_send)
    then have le: "to_send \<le> length (c_runqueue (allcpus s ! c))" and Vc: "V c = []" using ok v by simp_all
    obtain s' vs where s': "migrate_take to_send s c (V c) = Some (s', vs)" "sys_inv s' (V(c := vs)) W" "keeps c s s'"
      "idle_at s' = idle_at s" "length vs = length (V c) + to_send" using migrate_take_ok [OF i c le] by blast
    have "mig_step s c m = Some (s', Some (Mig_send 0 one_share to_send vs))" using Mig_take s'(1) Vc by simp
    moreover have "job_ok s' c (Migrate (Mig_send 0 one_share to_send vs))" using s'(5) by simp
    moreover have "sys_inv s' (V(c := job_victims (map_option Migrate (Some (Mig_send 0 one_share to_send vs))))) W"
      using s'(2) by (simp only: option.map job_victims.simps)
    ultimately show ?thesis using s'(3,4) by blast
  next
    case (Mig_send k one_share to_send victims)
    then have Vc: "V c = victims" and le: "to_send \<le> length (V c)" using v ok by simp_all
    show ?thesis
    proof (cases "k < length (allcpus s) \<and> 0 < to_send \<and> k \<noteq> c")
      case True
      then have k: "k < length (allcpus s)" "k \<noteq> c" by simp_all
      obtain s' n' vs where s': "migrate_fill to_send s c k one_share (V c) = Some (s', n', vs)" "sys_inv s' (V(c := vs)) W"
        "keeps c s s'" "idle_at s' = idle_at s" "n' \<le> length vs" using migrate_fill_ok [OF i c k le] by blast
      have "mig_step s c m = Some (s', Some (Mig_send (k + 1) one_share n' vs))" using Mig_send True s'(1) Vc by simp
      moreover have "job_ok s' c (Migrate (Mig_send (k + 1) one_share n' vs))" using s'(5) by simp
      moreover have "sys_inv s' (V(c := job_victims (map_option Migrate (Some (Mig_send (k + 1) one_share n' vs))))) W"
        using s'(2) by (simp only: option.map job_victims.simps)
      ultimately show ?thesis using s'(3,4) by blast
    next
      case False
      have "\<exists>m'. mig_step s c m = Some (s, m') \<and> job_victims (map_option Migrate m') = victims \<and>
          (\<forall>j. m' = Some j \<longrightarrow> job_ok s c (Migrate j))"
        using Mig_send False ok by auto
      then show ?thesis using same [OF Vc] keeps_refl by metis
    qed
  next
    case (Mig_back victims)
    then obtain s' where "put_back s c (V c) = Some s'" "sys_inv s' (V(c := [])) W" "keeps c s s'" "idle_at s' = idle_at s"
      using put_back_ok [OF i c] by blast
    moreover from this have "mig_step s c m = Some (s', None)" using Mig_back v by simp
    moreover have "job_victims (map_option Migrate None) = []" by simp
    ultimately show ?thesis by (metis option.distinct(1))
  qed
qed

definition cfg_inv :: "tcfg \<Rightarrow> bool" where
  "cfg_inv f \<longleftrightarrow> sys_inv (cf_sys f) (\<lambda>c. job_victims (cf_job f c)) (\<lambda>c. job_woken (cf_job f c)) \<and>
     (\<forall>c. cf_wait f c \<longrightarrow> c < length (allcpus (cf_sys f)) \<and> cf_job f c = None \<and> unidled (cf_sys f) c) \<and>
     (\<forall>c j. cf_job f c = Some j \<longrightarrow> c < length (allcpus (cf_sys f)) \<and> job_ok (cf_sys f) c j)"

lemma cfg_invD:
  assumes "cfg_inv f"
  shows "sys_inv (cf_sys f) (\<lambda>c. job_victims (cf_job f c)) (\<lambda>c. job_woken (cf_job f c))"
    "cf_wait f c \<Longrightarrow> c < length (allcpus (cf_sys f)) \<and> cf_job f c = None \<and> unidled (cf_sys f) c"
    "cf_job f c = Some j \<Longrightarrow> c < length (allcpus (cf_sys f)) \<and> job_ok (cf_sys f) c j"
  using assms by (auto simp: cfg_inv_def)

text \<open>A step of CPU \<open>c\<close>, after which it has job \<open>j\<close> and waits or not.\<close>

lemma cfg_inv_step:
  assumes i: "cfg_inv f" and k: "keeps c (cf_sys f) s'"
    and s': "sys_inv s' ((\<lambda>d. job_victims (cf_job f d))(c := job_victims j)) ((\<lambda>d. job_woken (cf_job f d))(c := job_woken j))"
    and w: "b \<longrightarrow> c < length (allcpus s') \<and> j = None \<and> unidled s' c" and jo: "\<And>j'. j = Some j' \<Longrightarrow> c < length (allcpus s') \<and> job_ok s' c j'"
    and f': "cf_sys f' = s'" "cf_wait f' = (cf_wait f)(c := b)" "cf_job f' = (cf_job f)(c := j)"
  shows "cfg_inv f'"
  unfolding cfg_inv_def
proof (intro conjI allI impI)
  note kd = keepsD [OF k]
  have V: "(\<lambda>d. job_victims (cf_job f' d)) = (\<lambda>d. job_victims (cf_job f d))(c := job_victims j)" using f'(3) by auto
  have W: "(\<lambda>d. job_woken (cf_job f' d)) = (\<lambda>d. job_woken (cf_job f d))(c := job_woken j)" using f'(3) by auto
  show "sys_inv (cf_sys f') (\<lambda>d. job_victims (cf_job f' d)) (\<lambda>d. job_woken (cf_job f' d))" using s' f'(1) by (simp only: V W)
  show "d < length (allcpus (cf_sys f'))" "cf_job f' d = None" "unidled (cf_sys f') d" if "cf_wait f' d" for d
    using that cfg_invD(2) [OF i, of d] w f' kd(1) kd(3) [of d] by (cases "d = c"; auto)+
  fix d j' assume j': "cf_job f' d = Some j'"
  show "d < length (allcpus (cf_sys f'))" using j' jo cfg_invD(3) [OF i, of d] f' kd(1) by (cases "d = c") auto
  show "job_ok (cf_sys f') d j'"
  proof (cases "d = c")
    case True
    then show ?thesis using j' jo f' by simp
  next
    case False
    then have "d < length (allcpus (cf_sys f)) \<and> job_ok (cf_sys f) d j'" using j' cfg_invD(3) [OF i, of d] f' by simp
    then show ?thesis using kd(4) [of d] False f'(1) by (cases "(s', d, j')" rule: job_ok.cases) auto
  qed
qed

lemma cfg_inv_own:
  assumes i: "cfg_inv f" and c: "on_cpu f c" and k: "keeps c (cf_sys f) s'"
    and s': "sys_inv s' (\<lambda>d. job_victims (cf_job f d)) (\<lambda>d. job_woken (cf_job f d))" and b: "b \<longrightarrow> unidled s' c"
    and f': "cf_sys f' = s'" "cf_wait f' = (cf_wait f)(c := b)" "cf_job f' = cf_job f"
  shows "cfg_inv f'"
proof (rule cfg_inv_step [OF i k _ _ _ f'(1,2), where j = None])
  have j: "cf_job f c = None" "c < length (allcpus s')" using c keepsD(1) [OF k] by (simp_all add: on_cpu_def)
  then show "cf_job f' = (cf_job f)(c := None)" using f'(3) by auto
  have "(\<lambda>d. job_victims (cf_job f d))(c := job_victims None) = (\<lambda>d. job_victims (cf_job f d))"
    "(\<lambda>d. job_woken (cf_job f d))(c := job_woken None) = (\<lambda>d. job_woken (cf_job f d))" using j by auto
  then show "sys_inv s' ((\<lambda>d. job_victims (cf_job f d))(c := job_victims None)) ((\<lambda>d. job_woken (cf_job f d))(c := job_woken None))"
    using s' by simp
  show "b \<longrightarrow> c < length (allcpus s') \<and> None = None \<and> unidled s' c" using b j by simp
qed simp

lemma running_wait: "cfg_inv f \<Longrightarrow> running f c \<Longrightarrow> \<not> cf_wait f c"
  using cfg_invD(2) by (auto simp: running_def unidled_def)

lemma cfg_inv_running:
  assumes "cfg_inv f" and "running f c" and "keeps c (cf_sys f) s'"
    and "sys_inv s' (\<lambda>d. job_victims (cf_job f d)) (\<lambda>d. job_woken (cf_job f d))"
  shows "cfg_inv (f\<lparr>cf_sys := s'\<rparr>)"
  using assms running_wait [OF assms(1,2)]
  by (intro cfg_inv_own [OF assms(1), where c = c and b = False]) (auto simp: running_def fun_eq_iff)

lemma cfg_inv_settle:
  assumes "cfg_inv f" and "on_cpu f c" and "keeps c (cf_sys f) s'"
    and "sys_inv s' (\<lambda>d. job_victims (cf_job f d)) (\<lambda>d. job_woken (cf_job f d))"
    and "idle_at s' c \<longrightarrow> c_runqueue (allcpus s' ! c) = []"
  shows "cfg_inv (settle f c s')"
  using assms by (intro cfg_inv_own [OF assms(1), where c = c and b = "idle_at s' c"]) (auto simp: settle_def unidled_def)

lemma put_cpu_inv:
  assumes i: "sys_inv s V W" and c: "c < length (allcpus s)" and k: "c_runqueue k = c_runqueue (allcpus s ! c)"
    "c_zombies k = c_zombies (allcpus s ! c)" "c_isidle k = c_isidle (allcpus s ! c)" "c_curthread k = c_curthread (allcpus s ! c)"
  shows "sys_inv (put_cpu s c k) V W" "idle_at (put_cpu s c k) = idle_at s" "cur_at (put_cpu s c k) = cur_at s"
proof -
  show at: "idle_at (put_cpu s c k) = idle_at s" "cur_at (put_cpu s c k) = cur_at s"
    using c k by (auto simp: idle_at_def cur_at_def nth_list_update fun_eq_iff)
  have "contents (put_cpu s c k) V W = contents s V W"
  proof
    show "contents (put_cpu s c k) V W r = contents s V W r" for r
    proof (cases r)
      case (Cur d)
      then show ?thesis by (simp only: contents.simps at put_simps length_list_update)
    qed (use k c in \<open>auto simp: nth_list_update\<close>)
  qed
  moreover have "cur_inv (put_cpu s c k)" using sys_invD(2) [OF i] unfolding cur_inv_def by (simp only: at put_simps length_list_update)
  ultimately show "sys_inv (put_cpu s c k) V W" using i by (simp add: sys_inv_def)
qed

lemma hardclock_ok:
  assumes i: "sys_inv s V W" and c: "c < length (allcpus s)"
  shows "\<exists>s' m. hardclock s c = Some (s', m) \<and> sys_inv s' V W \<and> keeps c s s' \<and> idle_at s' = idle_at s \<and> cur_at s' = cur_at s \<and>
    (m = None \<or> m = Some (Mig_count 0 0 0))"
  using put_cpu_inv [OF i c] keeps_put(1) c by (simp add: hardclock_def Let_def)

lemma ipi_ok:
  assumes i: "sys_inv s V W" and c: "c < length (allcpus s)"
  shows "\<exists>o' s'. interprocessor_interrupt s c = Some (o', s') \<and> sys_inv s' V W \<and> keeps c s s'"
  using put_cpu_inv(1) [OF i c] keeps_put(1) c i by (simp add: interprocessor_interrupt_def Let_def)

lemma clock_yield_ok:
  assumes i: "cfg_inv f" and c: "on_cpu f c" and s: "sys_inv s (\<lambda>d. job_victims (cf_job f d)) (\<lambda>d. job_woken (cf_job f d))"
    and k: "keeps c (cf_sys f) s"
  shows "\<exists>f'. clock_yield f c s = Some f' \<and> cfg_inv f'"
proof -
  have "c < length (allcpus s)" using c keepsD(1) [OF k] by (simp add: on_cpu_def)
  then obtain s' where s': "thread_yield s c = Some s'" "sys_inv s' (\<lambda>d. job_victims (cf_job f d)) (\<lambda>d. job_woken (cf_job f d))"
    "keeps c s s'" "\<not> idle_at s c \<longrightarrow> idle_at s' c \<longrightarrow> c_runqueue (allcpus s' ! c) = []"
    using thread_switch_ok [OF s, of c S_READY 0] by (auto simp: thread_yield_def)
  have k': "keeps c (cf_sys f) s'" using keeps_trans [OF k s'(3)] .
  show ?thesis
  proof (cases "idle_at s c")
    case True
    have "cfg_inv (f\<lparr>cf_sys := s', cf_wait := (cf_wait f)(c := False)\<rparr>)"
      by (intro cfg_inv_own [OF i c k' s'(2), where b = False]) simp_all
    then show ?thesis using True s'(1) by (simp add: clock_yield_def)
  next
    case False
    then show ?thesis using cfg_inv_settle [OF i c k' s'(2)] s'(1,4) by (simp add: clock_yield_def)
  qed
qed

lemma job_wait: "cfg_inv f \<Longrightarrow> cf_job f c = Some j \<Longrightarrow> (cf_wait f)(c := False) = cf_wait f"
  using cfg_invD(2) [of f c] by (cases "cf_wait f c") (auto simp: fun_eq_iff)

lemma wake_job_ok:
  assumes i: "cfg_inv f" and j: "cf_job f c = Some (Wake (t # list))"
  shows "\<exists>s'. thread_make_runnable (cf_sys f) t = Some s' \<and>
    cfg_inv (f\<lparr>cf_sys := s', cf_job := (cf_job f)(c \<mapsto> Wake list)\<rparr>)"
proof -
  let ?V = "\<lambda>d. job_victims (cf_job f d)" and ?W = "\<lambda>d. job_woken (cf_job f d)"
  have w: "?W c = t # list" and c: "c < length (allcpus (cf_sys f))" using j cfg_invD(3) [OF i j] by simp_all
  obtain s' where s': "thread_make_runnable (cf_sys f) t = Some s'" "sys_inv s' ?V (?W(c := list))" "keeps c (cf_sys f) s'"
    using wake_ok [OF cfg_invD(1) [OF i] w] by blast
  have "?V = ?V(c := job_victims (Some (Wake list)))" using j by auto
  then have "sys_inv s' (?V(c := job_victims (Some (Wake list)))) (?W(c := job_woken (Some (Wake list))))"
    using s'(2) by (metis job_woken.simps(1))
  moreover note job_wait [OF i j]
  ultimately have "cfg_inv (f\<lparr>cf_sys := s', cf_job := (cf_job f)(c \<mapsto> Wake list)\<rparr>)"
    using keepsD(1) [OF s'(3)] c
    by (intro cfg_inv_step [OF i s'(3), where j = "Some (Wake list)" and b = False]) auto
  then show ?thesis using s'(1) by blast
qed

lemma mig_job_ok:
  assumes i: "cfg_inv f" and j: "cf_job f c = Some (Migrate m)"
  shows "\<exists>s' m'. mig_step (cf_sys f) c m = Some (s', m') \<and>
    (case m' of Some m2 \<Rightarrow> cfg_inv (f\<lparr>cf_sys := s', cf_job := (cf_job f)(c \<mapsto> Migrate m2)\<rparr>)
     | None \<Rightarrow> (\<exists>f'. clock_yield (f\<lparr>cf_job := (cf_job f)(c := None)\<rparr>) c s' = Some f' \<and> cfg_inv f'))"
proof -
  let ?V = "\<lambda>d. job_victims (cf_job f d)" and ?W = "\<lambda>d. job_woken (cf_job f d)"
  have c: "c < length (allcpus (cf_sys f))" and ok: "job_ok (cf_sys f) c (Migrate m)" using cfg_invD(3) [OF i j] by simp_all
  have v: "?V c = job_victims (Some (Migrate m))" using j by simp
  note nw = job_wait [OF i j]
  obtain s' m' where s': "mig_step (cf_sys f) c m = Some (s', m')" "sys_inv s' (?V(c := job_victims (map_option Migrate m'))) ?W"
    "keeps c (cf_sys f) s'" "\<forall>j. m' = Some j \<longrightarrow> job_ok s' c (Migrate j)"
    using mig_step_ok [OF cfg_invD(1) [OF i] c v ok] by blast
  have W: "?W = ?W(c := job_woken (map_option Migrate m'))" using j by (cases m') auto
  have inv: "sys_inv s' (?V(c := job_victims (map_option Migrate m'))) (?W(c := job_woken (map_option Migrate m')))"
    using s'(2) W by metis
  have c': "c < length (allcpus s')" using c keepsD(1) [OF s'(3)] by simp
  show ?thesis
  proof (cases m')
    case (Some m2)
    have "cfg_inv (f\<lparr>cf_sys := s', cf_job := (cf_job f)(c \<mapsto> Migrate m2)\<rparr>)"
      using s'(4) Some c' nw inv
      by (intro cfg_inv_step [OF i s'(3) inv, where b = False]) auto
    then show ?thesis using s'(1) Some by auto
  next
    case None
    let ?f = "f\<lparr>cf_sys := s', cf_job := (cf_job f)(c := None)\<rparr>"
    have i': "cfg_inv ?f" using None c' nw by (intro cfg_inv_step [OF i s'(3) inv, where b = False]) auto
    have "\<exists>f'. clock_yield ?f c s' = Some f' \<and> cfg_inv f'"
      using cfg_invD(1) [OF i'] c' by (intro clock_yield_ok [OF i']) (simp_all add: on_cpu_def)
    moreover have "clock_yield ?f c s' = clock_yield (f\<lparr>cf_job := (cf_job f)(c := None)\<rparr>) c s'"
      by (cases "idle_at s' c") (simp_all add: clock_yield_def settle_def)
    ultimately show ?thesis using s'(1) None by auto
  qed
qed

lemma sleep_channel:
  assumes "wchan_sleep s c w = Some s'" and "c < length (allcpus s)" and "\<not> idle_at s c"
  shows "w < length (wchans s)"
  using assms by (auto simp: wchan_sleep_def thread_switch_def idle_at_def Let_def bind_eq_Some_conv)

lemma create_inv:
  assumes "sys_inv s V W"
  shows "sys_inv (s\<lparr>wchans := wchans s @ [[]]\<rparr>) V W"
proof -
  have "contents (s\<lparr>wchans := wchans s @ [[]]\<rparr>) V W = contents s V W"
  proof
    show "contents (s\<lparr>wchans := wchans s @ [[]]\<rparr>) V W r = contents s V W r" for r by (cases r) (auto simp: nth_append)
  qed
  then show ?thesis using assms by (simp add: sys_inv_def cur_inv_def)
qed

lemma no_job: "cfg_inv f \<Longrightarrow> cf_job f (length (allcpus (cf_sys f))) = None \<and> \<not> cf_wait f (length (allcpus (cf_sys f)))"
  using cfg_invD(2,3) [of f "length (allcpus (cf_sys f))"] by (cases "cf_job f (length (allcpus (cf_sys f)))") auto

lemma create_step:
  assumes i: "cfg_inv f" and "wchan_create m (cf_sys f) = (r, s')"
  shows "cfg_inv (f\<lparr>cf_sys := s'\<rparr>)"
proof -
  let ?c = "length (allcpus (cf_sys f))" and ?V = "\<lambda>d. job_victims (cf_job f d)" and ?W = "\<lambda>d. job_woken (cf_job f d)"
  have s': "sys_inv s' ?V ?W" "keeps ?c (cf_sys f) s'"
    using assms(2) create_inv [OF cfg_invD(1) [OF i]] cfg_invD(1) [OF i] keeps_put(4) [of "cf_sys f" "wchans (cf_sys f) @ [[]]"]
    by (auto simp: wchan_create_def split: if_splits)
  have "?V = ?V(?c := job_victims None)" "?W = ?W(?c := job_woken None)" using no_job [OF i] by auto
  then have "sys_inv s' (?V(?c := job_victims None)) (?W(?c := job_woken None))" using s'(1) by metis
  then show ?thesis
    using no_job [OF i] by (intro cfg_inv_step [OF i s'(2), where j = None and b = False]) (auto simp: fun_eq_iff)
qed

lemma grab_step:
  assumes i: "cfg_inv f" and c: "on_cpu f c" and g: "wchan_grab all (cf_sys f) w = Some (list, s')"
  shows "cfg_inv (f\<lparr>cf_sys := s', cf_wait := (cf_wait f)(c := False), cf_job := (cf_job f)(c \<mapsto> Wake list)\<rparr>)"
proof -
  let ?V = "\<lambda>d. job_victims (cf_job f d)" and ?W = "\<lambda>d. job_woken (cf_job f d)"
  have w: "w < length (wchans (cf_sys f))" using g by (auto simp: wchan_grab_def bind_eq_Some_conv)
  have j: "cf_job f c = None" "c < length (allcpus (cf_sys f))" using c by (simp_all add: on_cpu_def)
  have "?W c = []" using j by simp
  then have s': "sys_inv s' ?V (?W(c := list))" "keeps c (cf_sys f) s'"
    using grab_ok [OF cfg_invD(1) [OF i] w, of c all c] g by (metis option.inject prod.inject)+
  have "?V = ?V(c := job_victims (Some (Wake list)))" using j by auto
  then have "sys_inv s' (?V(c := job_victims (Some (Wake list)))) (?W(c := job_woken (Some (Wake list))))"
    using s'(1) by (metis job_woken.simps(1))
  then show ?thesis
    using keepsD(1) [OF s'(2)] j by (intro cfg_inv_step [OF i s'(2), where j = "Some (Wake list)" and b = False]) auto
qed

lemma woken_step:
  assumes i: "cfg_inv f" and j: "cf_job f c = Some (Wake [])"
  shows "cfg_inv (f\<lparr>cf_job := (cf_job f)(c := None)\<rparr>)"
proof -
  let ?V = "\<lambda>d. job_victims (cf_job f d)" and ?W = "\<lambda>d. job_woken (cf_job f d)"
  have "?V = ?V(c := job_victims None)" "?W = ?W(c := job_woken None)" using j by auto
  then have "sys_inv (cf_sys f) (?V(c := job_victims None)) (?W(c := job_woken None))" using cfg_invD(1) [OF i] by metis
  moreover note job_wait [OF i j]
  ultimately show ?thesis by (intro cfg_inv_step [OF i keeps_refl, where j = None and b = False and c = c]) auto
qed

lemma clock_migrate_step:
  assumes i: "cfg_inv f" and c: "on_cpu f c" and h: "hardclock (cf_sys f) c = Some (s', Some m)"
  shows "cfg_inv (f\<lparr>cf_sys := s', cf_wait := (cf_wait f)(c := False), cf_job := (cf_job f)(c \<mapsto> Migrate m)\<rparr>)"
proof -
  let ?V = "\<lambda>d. job_victims (cf_job f d)" and ?W = "\<lambda>d. job_woken (cf_job f d)"
  have j: "cf_job f c = None" "c < length (allcpus (cf_sys f))" using c by (simp_all add: on_cpu_def)
  have s': "sys_inv s' ?V ?W" "keeps c (cf_sys f) s'" and m: "m = Mig_count 0 0 0"
    using hardclock_ok [OF cfg_invD(1) [OF i] j(2)] h by auto
  have "?V = ?V(c := job_victims (Some (Migrate m)))" "?W = ?W(c := job_woken (Some (Migrate m)))" using j m by auto
  then have "sys_inv s' (?V(c := job_victims (Some (Migrate m)))) (?W(c := job_woken (Some (Migrate m))))" using s'(1) by metis
  then show ?thesis
    using keepsD(1) [OF s'(2)] j m by (intro cfg_inv_step [OF i s'(2), where j = "Some (Migrate m)" and b = False]) auto
qed

lemma step_inv:
  assumes i: "cfg_inv f" and "tstep f f'"
  shows "cfg_inv f'"
  using assms(2)
proof cases
  case (fork c m_thread m_stack m_name r_proc proc r s')
  then show ?thesis
    using fork_ok [OF cfg_invD(1) [OF i], of c m_thread m_stack m_name r_proc proc] cfg_inv_running [OF i fork(2)]
    by (auto simp: running_def on_cpu_def)
next
  case (detach c s')
  then show ?thesis
    using detach_ok [OF cfg_invD(1) [OF i], of c] cfg_inv_running [OF i detach(2)] by (auto simp: running_def on_cpu_def)
next
  case (exit c th s')
  then show ?thesis
    using thread_switch_ok [OF cfg_invD(1) [OF i], of c S_ZOMBIE 0] cfg_inv_settle [OF i, of c s'] by (auto simp: running_def on_cpu_def)
next
  case (yield c s')
  then show ?thesis
    using thread_switch_ok [OF cfg_invD(1) [OF i], of c S_READY 0] cfg_inv_settle [OF i, of c s']
    by (auto simp: running_def on_cpu_def thread_yield_def)
next
  case (sleep c w s')
  then have "w < length (wchans (cf_sys f))" using sleep_channel by (auto simp: running_def on_cpu_def)
  then show ?thesis
    using sleep thread_switch_ok [OF cfg_invD(1) [OF i], of c S_SLEEP w] cfg_inv_settle [OF i, of c s']
    by (auto simp: running_def on_cpu_def wchan_sleep_def)
next
  case (clock c s')
  then have c: "c < length (allcpus (cf_sys f))" by (simp add: on_cpu_def)
  have "sys_inv s' (\<lambda>d. job_victims (cf_job f d)) (\<lambda>d. job_woken (cf_job f d))" "keeps c (cf_sys f) s'"
    using hardclock_ok [OF cfg_invD(1) [OF i] c] clock(2) by auto
  from clock_yield_ok [OF i clock(1) this] clock(3) show ?thesis by auto
next
  case (migrate c m s' m')
  then show ?thesis using mig_job_ok [OF i migrate(2)] by auto
next
  case (migrated c m s')
  then show ?thesis using mig_job_ok [OF i migrated(1)] by auto
next
  case (wake c t list s')
  then show ?thesis using wake_job_ok [OF i wake(2)] by auto
next
  case (ipi c s')
  then show ?thesis
    using ipi_ok [OF cfg_invD(1) [OF i], of c] by (intro cfg_inv_own [OF i ipi(2), where b = False]) (auto simp: on_cpu_def)
next
  case (look c s')
  then show ?thesis
    using thread_next_ok [OF cfg_invD(1) [OF i], of c] cfg_inv_settle [OF i look(2)] by (auto simp: on_cpu_def)
next
  case (channel m_wchan r s')
  then show ?thesis using create_step [OF i] by auto
next
  case (grab c all w list s')
  then show ?thesis using grab_step [OF i] by auto
next
  case (woken c)
  then show ?thesis using woken_step [OF i] by auto
next
  case (clock_migrate c s' m)
  then show ?thesis using clock_migrate_step [OF i] by auto
qed

subsection \<open>Booting\<close>

lemma place_ok_mono: "place_ok n p th \<Longrightarrow> n \<le> m \<Longrightarrow> place_ok m p th"
  by (cases p) auto

lemma places_mono: "places_inv C T n \<Longrightarrow> n \<le> m \<Longrightarrow> places_inv C T m"
  unfolding places_inv_def using place_ok_mono by blast

lemma cpu_create_ok:
  assumes i: "sys_inv s V W" and t: "ts_thread s t = None" and st: "4 \<le> length st"
  shows "\<exists>s'. cpu_create (Some t) True (Some st) kproc s = Some s' \<and> sys_inv s' V W \<and>
    length (allcpus s') = Suc (length (allcpus s)) \<and> dom (ts_thread s') = insert t (dom (ts_thread s))"
proof -
  let ?n = "length (allcpus s)"
  let ?k = "\<lparr>c_curthread = t, c_zombies = [], c_hardclocks = 0, c_isidle = False, c_runqueue = [], c_ipi_pending = 0,
    c_shootdown = replicate TLBSHOOTDOWN_MAX \<lparr>ts_addrspace = 0, ts_vaddr = 0\<rparr>, c_numshootdown = 0\<rparr>"
  let ?th = "\<lparr>t_state = S_READY, t_stack = (if ?n = 0 then None else Some (thread_checkstack_init st)), t_cpu = Some ?n, t_proc = Some kproc\<rparr>"
  let ?s = "put_thread (s\<lparr>allcpus := allcpus s @ [?k]\<rparr>) t ?th"
  note p = sys_invD(1) [OF i]
  have at: "cur_at ?s c = (if c = ?n then t else cur_at s c)" "idle_at ?s c = (if c = ?n then False else idle_at s c)" if "c \<le> ?n" for c
    using that by (auto simp: cur_at_def idle_at_def nth_append)
  have C: "contents ?s V W = (contents s V W)(Cur ?n := [t])"
  proof
    show "contents ?s V W r = ((contents s V W)(Cur ?n := [t])) r" for r
      using at by (cases r) (auto simp: nth_append less_Suc_eq)
  qed
  have p': "places_inv (contents s V W) (ts_thread s) (Suc ?n)" using places_mono [OF p] by simp
  have "st \<noteq> []" using st by auto
  then have "stack_ok ?th" using st by (simp add: stack_ok_def thread_checkstack_def thread_checkstack_init_def nth_list_update)
  then have "places_inv (contents ?s V W) (ts_thread ?s) (Suc ?n)"
    by (intro places_new [OF p' t C, where th = ?th]) auto
  moreover have "cur_inv ?s" unfolding cur_inv_def
  proof (intro allI impI)
    fix d assume "d < length (allcpus ?s)"
    then have d: "d \<le> ?n" by simp
    show "\<exists>h. ts_thread ?s (cur_at ?s d) = Some h \<and> t_cpu h = Some d"
      unfolding at(1) [OF d] using cur_invD [OF sys_invD(2) [OF i], of d] d t by (cases "d = ?n") auto
  qed
  ultimately have "sys_inv ?s V W" by (simp add: sys_inv_def)
  moreover have "cpu_create (Some t) True (Some st) kproc s = Some ?s" by (simp add: cpu_create_def thread_create_def Let_def)
  ultimately show ?thesis by auto
qed

lemma boot_ok:
  "\<exists>s. boot_cpus n = Some s \<and> length (allcpus s) = n \<and> sys_inv s (\<lambda>c. []) (\<lambda>c. []) \<and> dom (ts_thread s) = {..<n}"
proof (induction n)
  case 0
  have "contents \<lparr>allcpus = [], ts_thread = Map.empty, wchans = []\<rparr> (\<lambda>c. []) (\<lambda>c. []) r = []" for r by (cases r) auto
  then show ?case by (simp add: sys_inv_def places_inv_def cur_inv_def)
next
  case (Suc n)
  then obtain s where s: "boot_cpus n = Some s" "length (allcpus s) = n" "sys_inv s (\<lambda>c. []) (\<lambda>c. [])" "dom (ts_thread s) = {..<n}"
    by blast
  then have "ts_thread s n = None" by (metis domIff lessThan_iff less_irrefl)
  from cpu_create_ok [OF s(3) this, of "[0, 0, 0, 0]" 0] show ?case using s by (auto simp: lessThan_Suc)
qed

lemma reach_inv:
  assumes "boot_cpus n = Some s" and "tsteps (boot_cfg s) f"
  shows "cfg_inv f"
  using assms(2)
proof induction
  case start
  have "sys_inv s (\<lambda>c. []) (\<lambda>c. [])" using boot_ok [of n] assms(1) by auto
  then show ?case by (simp add: cfg_inv_def boot_cfg_def)
next
  case (step f' f'')
  then show ?case using step_inv by blast
qed

text \<open>C9. The thread system, in every interleaving of forks, exits, yields, sleeps, wakeups, clock
  interrupts with migration, interprocessor interrupts and idle loops on any number of CPUs: each
  thread is in exactly one place (running, on one run queue, one channel, one zombie list, or in the
  hands of one migrating or waking CPU); the current threads of two CPUs are different, idle CPUs
  included; and a CPU that waits in its idle loop with a thread on its run queue has an
  interrupt pending that ends the wait.\<close>

theorem thread_system_consistent:
  assumes "boot_cpus n = Some s" and "tsteps (boot_cfg s) f"
  shows "(\<forall>t. ts_thread (cf_sys f) t \<noteq> None \<longleftrightarrow>
      (\<exists>!p. t \<in> set (contents (cf_sys f) (\<lambda>c. job_victims (cf_job f c)) (\<lambda>c. job_woken (cf_job f c)) p))) \<and>
    (\<forall>p. distinct (contents (cf_sys f) (\<lambda>c. job_victims (cf_job f c)) (\<lambda>c. job_woken (cf_job f c)) p)) \<and>
    (\<forall>c d. c < length (allcpus (cf_sys f)) \<longrightarrow> d < length (allcpus (cf_sys f)) \<longrightarrow> cur_at (cf_sys f) c = cur_at (cf_sys f) d \<longrightarrow> c = d) \<and>
    (\<forall>c. cf_wait f c \<longrightarrow> c_runqueue (allcpus (cf_sys f) ! c) \<noteq> [] \<longrightarrow> bit (c_ipi_pending (allcpus (cf_sys f) ! c)) IPI_UNIDLE)"
proof (intro conjI allI impI)
  note i = reach_inv [OF assms]
  note s = cfg_invD(1) [OF i]
  note p = places_invD [OF sys_invD(1) [OF s]]
  show "ts_thread (cf_sys f) t \<noteq> None \<longleftrightarrow>
      (\<exists>!p. t \<in> set (contents (cf_sys f) (\<lambda>c. job_victims (cf_job f c)) (\<lambda>c. job_woken (cf_job f c)) p))" for t
    using p(2,4,5) [of t] by blast
  show "distinct (contents (cf_sys f) (\<lambda>c. job_victims (cf_job f c)) (\<lambda>c. job_woken (cf_job f c)) q)" for q by (rule p(1))
  show "c = d" if "c < length (allcpus (cf_sys f))" "d < length (allcpus (cf_sys f))" "cur_at (cf_sys f) c = cur_at (cf_sys f) d" for c d
    using cur_invD [OF sys_invD(2) [OF s] that(1)] cur_invD [OF sys_invD(2) [OF s] that(2)] that(3) by auto
  show "bit (c_ipi_pending (allcpus (cf_sys f) ! c)) IPI_UNIDLE" if "cf_wait f c" "c_runqueue (allcpus (cf_sys f) ! c) \<noteq> []" for c
    using cfg_invD(2) [OF i that(1)] that(2) by (simp add: unidled_def)
qed

theorem thread_system_consistent_witness:
  "case boot_cpus 2 of
     Some s \<Rightarrow> (case thread_fork (Some 2) True (Some [0, 0, 0, 0]) None s 0 None of
       Some (r, s') \<Rightarrow> (\<exists>!p. 2 \<in> set (contents s' (\<lambda>c. []) (\<lambda>c. []) p)) \<and> c_runqueue (allcpus s' ! 0) = [2]
     | None \<Rightarrow> False)
   | None \<Rightarrow> False"
proof -
  have "case boot_cpus 2 of
     Some s \<Rightarrow> length (allcpus s) = 2 \<and> \<not> idle_at s 0 \<and> ts_thread s 2 = None \<and>
       (case thread_fork (Some 2) True (Some [0, 0, 0, 0]) None s 0 None of
       Some (r, s') \<Rightarrow> c_runqueue (allcpus s' ! 0) = [2] \<and> ts_thread s' 2 \<noteq> None | None \<Rightarrow> False)
   | None \<Rightarrow> False" by code_simp
  then obtain s r s' where s: "boot_cpus 2 = Some s" "length (allcpus s) = 2" "\<not> idle_at s 0" "ts_thread s 2 = None"
      "thread_fork (Some 2) True (Some [0, 0, 0, 0]) None s 0 None = Some (r, s')" "c_runqueue (allcpus s' ! 0) = [2]"
      "ts_thread s' 2 \<noteq> None"
    by (auto split: option.splits prod.splits)
  have "tstep (boot_cfg s) ((boot_cfg s)\<lparr>cf_sys := s'\<rparr>)"
    using s by (intro tstep.fork [where c = 0]) (auto simp: running_def on_cpu_def boot_cfg_def)
  then have "tsteps (boot_cfg s) ((boot_cfg s)\<lparr>cf_sys := s'\<rparr>)" using tsteps.step [OF tsteps.start] by blast
  from thread_system_consistent [OF s(1) this] show ?thesis using s by (simp add: boot_cfg_def)
qed



subsection \<open>Shooting down TLB entries\<close>

fun shootdowns :: "tsys \<Rightarrow> nat \<Rightarrow> tlbshootdown list \<Rightarrow> tsys option" where
  "shootdowns s target [] = Some s"
| "shootdowns s target (m # ms) = do {
     s' \<leftarrow> ipi_tlbshootdown s target m;
     shootdowns s' target ms
   }"

definition shoot_cpu :: "kcpu \<Rightarrow> tlbshootdown list \<Rightarrow> bool" where
  "shoot_cpu k ms \<longleftrightarrow> length (c_shootdown k) = TLBSHOOTDOWN_MAX \<and> c_numshootdown k = int (length ms) \<and>
     length ms \<le> TLBSHOOTDOWN_MAX \<and> take (length ms) (c_shootdown k) = ms \<and>
     (\<forall>i. bit (c_ipi_pending k) i \<longrightarrow> i = IPI_TLBSHOOTDOWN) \<and> (ms \<noteq> [] \<longrightarrow> bit (c_ipi_pending k) IPI_TLBSHOOTDOWN)"

lemma bit_shoot: "bit (b OR 2 ^ IPI_TLBSHOOTDOWN :: 32 word) i \<longleftrightarrow> bit b i \<or> i = IPI_TLBSHOOTDOWN"
proof -
  have "bit (2 ^ IPI_TLBSHOOTDOWN :: 32 word) i \<longleftrightarrow> i = IPI_TLBSHOOTDOWN"
    unfolding bit_exp_iff by (auto simp: IPI_TLBSHOOTDOWN_def)
  then show ?thesis by (simp add: bit_or_iff)
qed

lemma shoot_one:
  assumes "shoot_cpu (allcpus s ! c) ms" and c: "c < length (allcpus s)"
  shows "length ms < TLBSHOOTDOWN_MAX \<Longrightarrow>
      \<exists>s'. ipi_tlbshootdown s c m = Some s' \<and> shoot_cpu (allcpus s' ! c) (ms @ [m]) \<and> length (allcpus s') = length (allcpus s)"
    and "length ms = TLBSHOOTDOWN_MAX \<Longrightarrow>
      \<exists>s'. ipi_tlbshootdown s c m = Some s' \<and> c_numshootdown (allcpus s' ! c) = TLBSHOOTDOWN_ALL \<and> length (allcpus s') = length (allcpus s) \<and>
        (\<forall>i. bit (c_ipi_pending (allcpus s' ! c)) i \<longleftrightarrow> i = IPI_TLBSHOOTDOWN)"
proof -
  let ?k = "allcpus s ! c"
  note k = assms(1) [unfolded shoot_cpu_def]
  {
    assume l: "length ms < TLBSHOOTDOWN_MAX"
    let ?s = "put_cpu s c (?k\<lparr>c_shootdown := (c_shootdown ?k)[length ms := m], c_numshootdown := int (length ms) + 1,
      c_ipi_pending := c_ipi_pending ?k OR push_bit IPI_TLBSHOOTDOWN 1\<rparr>)"
    have "ipi_tlbshootdown s c m = Some ?s" using k l c by (simp add: ipi_tlbshootdown_def Let_def)
    moreover have "shoot_cpu (allcpus ?s ! c) (ms @ [m])"
      using k l c by (simp add: shoot_cpu_def bit_shoot take_Suc_conv_app_nth)
    ultimately show "\<exists>s'. ipi_tlbshootdown s c m = Some s' \<and> shoot_cpu (allcpus s' ! c) (ms @ [m]) \<and> length (allcpus s') = length (allcpus s)"
      by (intro exI [of _ ?s]) simp
  }
  assume l: "length ms = TLBSHOOTDOWN_MAX"
  then have "ms \<noteq> []" by (auto simp: TLBSHOOTDOWN_MAX_def)
  then show "\<exists>s'. ipi_tlbshootdown s c m = Some s' \<and> c_numshootdown (allcpus s' ! c) = TLBSHOOTDOWN_ALL \<and> length (allcpus s') = length (allcpus s) \<and>
      (\<forall>i. bit (c_ipi_pending (allcpus s' ! c)) i \<longleftrightarrow> i = IPI_TLBSHOOTDOWN)"
    using k l c by (auto simp: ipi_tlbshootdown_def Let_def bit_shoot)
qed

lemma shootdowns_few:
  assumes "shoot_cpu (allcpus s ! c) ms" and "c < length (allcpus s)" and "length ms + length ns \<le> TLBSHOOTDOWN_MAX"
  shows "\<exists>s'. shootdowns s c ns = Some s' \<and> shoot_cpu (allcpus s' ! c) (ms @ ns) \<and> length (allcpus s') = length (allcpus s)"
  using assms
proof (induction ns arbitrary: s ms)
  case Nil
  then show ?case by simp
next
  case (Cons n ns)
  obtain s1 where s1: "ipi_tlbshootdown s c n = Some s1" "shoot_cpu (allcpus s1 ! c) (ms @ [n])" "length (allcpus s1) = length (allcpus s)"
    using shoot_one(1) [OF Cons.prems(1,2), of n] Cons.prems(3) by auto
  show ?case using Cons.IH [OF s1(2)] Cons.prems(2,3) s1 by auto
qed

lemma shootdowns_append: "shootdowns s c (ms @ ns) = shootdowns s c ms \<bind> (\<lambda>s'. shootdowns s' c ns)"
  by (induction ms arbitrary: s) (auto simp: bind_assoc)



end
