(* ===== verification/Kern_Copyinout.thy ===== *)
theory Kern_Copyinout
  imports OS161_Prelude
begin

section \<open>User memory: \<open>kern/vm/copyinout.c\<close>\<close>

text \<open>
  The functions that copy between the kernel and the memory of the current process. A user
  address space is a map from addresses to bytes together with the addresses that can be
  read and written without a fatal fault; a fault in the middle of a copy jumps to
  \<open>copyfail\<close> and the copy returns \<open>EFAULT\<close> with the bytes before the fault already copied.
  A kernel buffer is a list of bytes; running over its end has no defined result.
\<close>

subsection \<open>The code\<close>

record umem =
  um_byte :: "nat \<Rightarrow> u8"
  um_readable :: "nat \<Rightarrow> bool"
  um_writable :: "nat \<Rightarrow> bool"

definition USERSPACETOP :: nat where
  "USERSPACETOP = 2147483648"

text \<open>\<open>copycheck\<close> hands back \<open>stoplen\<close>, or the error.\<close>

definition copycheck :: "nat \<Rightarrow> nat \<Rightarrow> nat kresult" where
  "copycheck userptr len =
     (let bot = userptr; top = sub32 (wrap32 (bot + len)) 1 in
      if top < bot then Inl EFAULT
      else if bot \<ge> USERSPACETOP then Inl EFAULT
      else if top \<ge> USERSPACETOP then Inr (USERSPACETOP - bot)
      else Inr len)"

text \<open>
  \<open>memcpy\<close> from and to user memory, forwards: the bytes moved before the first fault, and
  whether there was none.
\<close>

fun load_bytes :: "umem \<Rightarrow> nat \<Rightarrow> nat \<Rightarrow> u8 list \<times> bool" where
  "load_bytes um a 0 = ([], True)"
| "load_bytes um a (Suc n) =
     (if um_readable um a
      then let (bs, ok) = load_bytes um (Suc a) n in (um_byte um a # bs, ok)
      else ([], False))"

fun store_bytes :: "umem \<Rightarrow> nat \<Rightarrow> u8 list \<Rightarrow> umem \<times> bool" where
  "store_bytes um a [] = (um, True)"
| "store_bytes um a (b # bs) =
     (if um_writable um a
      then store_bytes (um\<lparr>um_byte := (um_byte um)(a := b)\<rparr>) (Suc a) bs
      else (um, False))"

text \<open>\<open>dest\<close> is the kernel buffer from the destination pointer on.\<close>

definition copyin :: "umem \<Rightarrow> nat \<Rightarrow> u8 list \<Rightarrow> nat \<Rightarrow> (unit kresult \<times> u8 list) option" where
  "copyin um usersrc dest len =
     (case copycheck usersrc len of
        Inl e \<Rightarrow> Some (Inl e, dest)
      | Inr stoplen \<Rightarrow>
          if stoplen \<noteq> len then Some (Inl EFAULT, dest)
          else do {
            kassert (len \<le> length dest);
            let (bs, ok) = load_bytes um usersrc len;
            let dest' = bs @ drop (length bs) dest;
            Some (if ok then Inr () else Inl EFAULT, dest')
          })"

definition copyout :: "umem \<Rightarrow> u8 list \<Rightarrow> nat \<Rightarrow> nat \<Rightarrow> (unit kresult \<times> umem) option" where
  "copyout um src userdest len =
     (case copycheck userdest len of
        Inl e \<Rightarrow> Some (Inl e, um)
      | Inr stoplen \<Rightarrow>
          if stoplen \<noteq> len then Some (Inl EFAULT, um)
          else do {
            kassert (len \<le> length src);
            let (um', ok) = store_bytes um userdest (take len src);
            Some (if ok then Inr () else Inl EFAULT, um')
          })"

text \<open>
  \<open>copystr\<close> over the two directions: \<open>get i\<close> is the access \<open>src[i]\<close> and \<open>put i b\<close> the
  access \<open>dest[i] = b\<close>; \<open>None\<close> is a fault, which ends the copy with \<open>EFAULT\<close>. The result is
  the length found, the terminator included.
\<close>

function copystr ::
  "(nat \<Rightarrow> u8 option) \<Rightarrow> (nat \<Rightarrow> u8 \<Rightarrow> 's \<Rightarrow> 's option) \<Rightarrow> nat \<Rightarrow> nat \<Rightarrow> nat \<Rightarrow> 's \<Rightarrow> nat kresult \<times> 's" where
  "copystr get put maxlen stoplen i dest =
     (if i < maxlen \<and> i < stoplen then
        (case get i of
           None \<Rightarrow> (Inl EFAULT, dest)
         | Some b \<Rightarrow>
             (case put i b dest of
                None \<Rightarrow> (Inl EFAULT, dest)
              | Some dest' \<Rightarrow>
                  if b = 0 then (Inr (i + 1), dest')
                  else copystr get put maxlen stoplen (i + 1) dest'))
      else if stoplen < maxlen then (Inl EFAULT, dest)
      else (Inl ENAMETOOLONG, dest))"
  by pat_completeness auto
termination by (relation "measure (\<lambda>(get, put, maxlen, stoplen, i, dest). maxlen - i)") auto

declare copystr.simps [simp del]

definition um_load :: "umem \<Rightarrow> nat \<Rightarrow> nat \<Rightarrow> u8 option" where
  "um_load um a i = (if um_readable um (a + i) then Some (um_byte um (a + i)) else None)"

definition um_store :: "nat \<Rightarrow> nat \<Rightarrow> u8 \<Rightarrow> umem \<Rightarrow> umem option" where
  "um_store a i b um =
     (if um_writable um (a + i) then Some (um\<lparr>um_byte := (um_byte um)(a + i := b)\<rparr>) else None)"

definition copyinstr :: "umem \<Rightarrow> nat \<Rightarrow> u8 list \<Rightarrow> nat \<Rightarrow> (nat kresult \<times> u8 list) option" where
  "copyinstr um usersrc dest len =
     (case copycheck usersrc len of
        Inl e \<Rightarrow> Some (Inl e, dest)
      | Inr stoplen \<Rightarrow> do {
          kassert (len \<le> length dest);
          Some (copystr (um_load um usersrc) (\<lambda>i b d. Some (d[i := b])) len stoplen 0 dest)
        })"

definition copyoutstr :: "umem \<Rightarrow> u8 list \<Rightarrow> nat \<Rightarrow> nat \<Rightarrow> (nat kresult \<times> umem) option" where
  "copyoutstr um src userdest len =
     (case copycheck userdest len of
        Inl e \<Rightarrow> Some (Inl e, um)
      | Inr stoplen \<Rightarrow> do {
          kassert (0 \<in> set src \<or> len \<le> length src);
          Some (copystr (\<lambda>i. Some (src ! i)) (um_store userdest) len stoplen 0 um)
        })"

subsection \<open>Lemmas\<close>

lemma copycheck_top:
  assumes "0 < len" and "u + len \<le> 2 ^ 32"
  shows "sub32 (wrap32 (u + len)) 1 = u + len - 1"
proof (cases "u + len = 2 ^ 32")
  case True
  then show ?thesis by (simp add: sub32_def wrap32_def)
next
  case False
  with assms have "u + len < 2 ^ 32" by simp
  with assms show ?thesis by (simp add: sub32_le)
qed

lemma copycheck_wrap:
  assumes "u < 2 ^ 32" and "len < 2 ^ 32" and "2 ^ 32 < u + len"
  shows "sub32 (wrap32 (u + len)) 1 < u"
proof -
  have "wrap32 (u + len) = u + len - 2 ^ 32" using assms by (simp add: wrap32_def mod_if)
  with assms show ?thesis by (simp add: sub32_le)
qed

lemma copycheck_zero: "u < 2 ^ 32 \<Longrightarrow> copycheck u 0 = (if u = 0 then Inr USERSPACETOP else Inl EFAULT)"
  by (auto simp: copycheck_def Let_def sub32_le) (auto simp: sub32_def wrap32_def USERSPACETOP_def)

lemma copycheck_pos:
  assumes "u < 2 ^ 32" and "len < 2 ^ 32" and "0 < len"
  shows "copycheck u len =
    (if u + len \<le> 2 ^ 32 \<and> u < USERSPACETOP
     then Inr (if u + len \<le> USERSPACETOP then len else USERSPACETOP - u) else Inl EFAULT)"
proof (cases "u + len \<le> 2 ^ 32")
  case True
  with copycheck_top [OF assms(3) True] assms(3) show ?thesis
    by (auto simp: copycheck_def Let_def)
next
  case False
  with copycheck_wrap [OF assms(1,2)] show ?thesis by (simp add: copycheck_def Let_def)
qed

lemma copycheck_full:
  assumes "u < 2 ^ 32" and "len < 2 ^ 32"
  shows "copycheck u len = Inr len \<longleftrightarrow> 0 < len \<and> u + len \<le> USERSPACETOP"
proof (cases "len = 0")
  case True
  with assms show ?thesis by (simp add: copycheck_zero USERSPACETOP_def)
next
  case False
  have "USERSPACETOP \<le> 2 ^ 32" by (simp add: USERSPACETOP_def)
  with False assms show ?thesis by (auto simp: copycheck_pos)
qed

lemma copycheck_Inl: "copycheck u len = Inl e \<Longrightarrow> e = EFAULT"
  by (auto simp: copycheck_def Let_def split: if_splits)

lemma copycheck_Inr_bound: "copycheck u len = Inr s \<Longrightarrow> u + s \<le> USERSPACETOP \<or> s = len"
  by (auto simp: copycheck_def Let_def split: if_splits)

lemma load_bytes_ok:
  "snd (load_bytes um a n) \<longleftrightarrow> (\<forall>i < n. um_readable um (a + i))"
  by (induction um a n rule: load_bytes.induct)
    (auto simp: All_less_Suc2 split: prod.splits)

lemma load_bytes_length: "length (fst (load_bytes um a n)) \<le> n"
  by (induction um a n rule: load_bytes.induct) (auto split: prod.splits)

lemma load_bytes_all:
  "(\<forall>i < n. um_readable um (a + i)) \<Longrightarrow>
   load_bytes um a n = (map (\<lambda>i. um_byte um (a + i)) [0..<n], True)"
proof (induction n arbitrary: a)
  case (Suc n)
  have r: "um_readable um a" "\<forall>i < n. um_readable um (Suc a + i)"
    using Suc.prems [rule_format, of 0] Suc.prems [rule_format, of "Suc i" for i] by auto
  have "map (\<lambda>i. um_byte um (a + i)) [0..<Suc n] = um_byte um a # map (\<lambda>i. um_byte um (Suc a + i)) [0..<n]"
    by (simp only: map_upt_Suc add_0_right add_Suc_right add_Suc)
  then show ?case using Suc.IH [OF r(2)] r(1) by simp
qed simp

lemma store_bytes_perms:
  "um_readable (fst (store_bytes um a bs)) = um_readable um"
  "um_writable (fst (store_bytes um a bs)) = um_writable um"
  by (induction um a bs rule: store_bytes.induct) simp_all

lemma store_bytes_frame:
  "x < a \<or> a + length bs \<le> x \<Longrightarrow> um_byte (fst (store_bytes um a bs)) x = um_byte um x"
  by (induction um a bs rule: store_bytes.induct) auto

lemma store_bytes_ok:
  "snd (store_bytes um a bs) \<longleftrightarrow> (\<forall>i < length bs. um_writable um (a + i))"
  by (induction um a bs rule: store_bytes.induct) (auto simp: All_less_Suc2)

lemma store_bytes_nth:
  "snd (store_bytes um a bs) \<Longrightarrow> i < length bs \<Longrightarrow>
   um_byte (fst (store_bytes um a bs)) (a + i) = bs ! i"
proof (induction um a bs arbitrary: i rule: store_bytes.induct)
  case (2 um a b bs)
  show ?case
  proof (cases i)
    case 0
    with 2(2) show ?thesis
      using store_bytes_frame [of a "Suc a" bs "um\<lparr>um_byte := (um_byte um)(a := b)\<rparr>"]
      by (auto split: if_splits)
  next
    case (Suc j)
    with 2 show ?thesis by (auto split: if_splits)
  qed
qed simp

subsection \<open>Properties\<close>


definition umem_ex :: umem where
  "umem_ex = \<lparr>um_byte = (\<lambda>a. if a = 4103 then 0 else 65), um_readable = (\<lambda>a. 4096 \<le> a \<and> a < 8192),
              um_writable = (\<lambda>a. 4096 \<le> a \<and> a < 8192)\<rparr>"


text \<open>
  Round trip: the bytes that \<open>copyout\<close> has put into a readable user region are the bytes
  that \<open>copyin\<close> of that region reads back, whatever the destination buffer held.
\<close>

lemma copyout_copyin:
  assumes "u < 2 ^ 32" and "len < 2 ^ 32" and "len \<le> length src" and "len \<le> length dest"
    and "copyout um src u len = Some (Inr (), um')" and "\<forall>i < len. um_readable um (u + i)"
  shows "copyin um' u dest len = Some (Inr (), take len src @ drop len dest)"
proof -
  have chk: "copycheck u len = Inr len"
    using assms(5) by (auto simp: copyout_def split: sum.splits if_splits)
  with assms(3,5) have st: "store_bytes um u (take len src) = (um', True)"
    by (auto simp: copyout_def split: prod.splits if_splits)
  have "\<forall>i < len. um_readable um' (u + i)"
    using assms(6) st store_bytes_perms(1) [of um u "take len src"] by simp
  note load = load_bytes_all [OF this]
  have "map (\<lambda>i. um_byte um' (u + i)) [0..<len] = take len src"
    using store_bytes_nth [of um u "take len src"] st assms(3)
    by (intro nth_equalityI) (auto simp: min_absorb2)
  with load chk assms(3,4) show ?thesis by (simp add: copyin_def min_absorb2)
qed

text \<open>A buffer after its first \<open>i\<close> bytes were copied.\<close>

definition filled :: "(nat \<Rightarrow> u8) \<Rightarrow> nat \<Rightarrow> u8 list \<Rightarrow> u8 list" where
  "filled f i dest = map f [0..<i] @ drop i dest"

lemma filled_0 [simp]: "filled f 0 dest = dest"
  by (simp add: filled_def)

lemma filled_update: "i < length dest \<Longrightarrow> (filled f i dest)[i := f i] = filled f (Suc i) dest"
  by (simp add: filled_def list_update_append Cons_nth_drop_Suc [symmetric])

lemma copystr_in:
  assumes "i \<le> k" and "i \<le> min len stop" and "len \<le> length dest"
    and "\<forall>j \<le> k. um_readable um (a + j)" and "\<forall>j < k. um_byte um (a + j) \<noteq> 0"
    and "um_byte um (a + k) = 0"
  shows "copystr (um_load um a) (\<lambda>i b d. Some (d[i := b])) len stop i
           (filled (\<lambda>j. um_byte um (a + j)) i dest) =
         (if k < min len stop then (Inr (k + 1), filled (\<lambda>j. um_byte um (a + j)) (k + 1) dest)
          else (Inl (if stop < len then EFAULT else ENAMETOOLONG),
                filled (\<lambda>j. um_byte um (a + j)) (min len stop) dest))"
  using assms(1,2)
proof (induction "min len stop - i" arbitrary: i)
  case 0
  then have "i = min len stop" by simp
  with 0 show ?case by (subst copystr.simps) auto
next
  case (Suc n)
  let ?f = "\<lambda>j. um_byte um (a + j)"
  from Suc(2) have i: "i < len" "i < stop" by simp_all
  have get: "um_load um a i = Some (?f i)" using assms(4) Suc.prems(1) by (simp add: um_load_def)
  have upd: "(filled ?f i dest)[i := ?f i] = filled ?f (i + 1) dest"
    using i(1) assms(3) filled_update [of i dest ?f] by simp
  show ?case
  proof (cases "i = k")
    case True
    with i get upd assms(6) show ?thesis by (subst copystr.simps) simp
  next
    case False
    with Suc.prems(1) assms(5) have "i < k" "?f i \<noteq> 0" by simp_all
    with Suc(1) [of "i + 1"] Suc(2) i get upd show ?thesis by (subst copystr.simps) simp
  qed
qed

text \<open>
  C32. \<open>copyinstr\<close> on a readable user string of length \<open>k\<close> (without its terminator): if the
  string with its terminator fits both in the limit \<open>len\<close> and below \<open>USERSPACETOP\<close>, it is
  copied with its terminator, the length reported is \<open>k + 1\<close> and the rest of the buffer is
  untouched; otherwise the result is \<open>EFAULT\<close> when the region runs into the kernel and
  \<open>ENAMETOOLONG\<close> when the string is too long, and no more than the limit was written.
\<close>

theorem copyinstr_string:
  assumes "0 < len" and "len < 2 ^ 32" and "u < USERSPACETOP" and "u + len \<le> 2 ^ 32"
    and "len \<le> length dest"
    and "\<forall>j \<le> k. um_readable um (u + j)" and "\<forall>j < k. um_byte um (u + j) \<noteq> 0"
    and "um_byte um (u + k) = 0"
  shows "copyinstr um u dest len = Some
    (let limit = min len (USERSPACETOP - u) in
     if k < limit then (Inr (k + 1), map (\<lambda>j. um_byte um (u + j)) [0..<k + 1] @ drop (k + 1) dest)
     else (Inl (if USERSPACETOP < u + len then EFAULT else ENAMETOOLONG),
           map (\<lambda>j. um_byte um (u + j)) [0..<limit] @ drop limit dest))"
proof -
  let ?s = "if u + len \<le> USERSPACETOP then len else USERSPACETOP - u"
  have "u < 2 ^ 32" using assms(3) by (simp add: USERSPACETOP_def)
  then have "copycheck u len = Inr ?s" using assms(1-4) by (simp add: copycheck_pos)
  moreover have "min len ?s = min len (USERSPACETOP - u)" "?s < len \<longleftrightarrow> USERSPACETOP < u + len"
    using assms(3) by auto
  ultimately show ?thesis
    using copystr_in [of 0 k len ?s dest um u] assms(5-8)
    by (simp add: copyinstr_def Let_def filled_def)
qed

theorem copyinstr_string_witness:
  "copyinstr umem_ex 4100 [9, 9, 9, 9, 9] 5 = Some (Inr 4, [65, 65, 65, 0, 9]) \<and>
   fst (the (copyinstr umem_ex 4100 [9, 9, 9, 9, 9] 3)) = Inl ENAMETOOLONG"
proof -
  have pre: "4100 < USERSPACETOP" "\<forall>j \<le> 3. um_readable umem_ex (4100 + j)"
    "\<forall>j < 3. um_byte umem_ex (4100 + j) \<noteq> 0" "um_byte umem_ex (4100 + 3) = 0"
    by (auto simp: umem_ex_def USERSPACETOP_def)
  have m: "min 5 (USERSPACETOP - 4100) = 5" "min 3 (USERSPACETOP - 4100) = 3"
    "\<not> USERSPACETOP < 4103" by (simp_all add: USERSPACETOP_def)
  have up: "[0..<4] = [0, 1, 2, 3::nat]" by (simp add: upt_rec)
  have b: "um_byte umem_ex 4100 = 65" "um_byte umem_ex 4101 = 65" "um_byte umem_ex 4102 = 65"
    "um_byte umem_ex 4103 = 0" by (simp_all add: umem_ex_def)
  have "copyinstr umem_ex 4100 [9, 9, 9, 9, 9] 5 = Some (Inr 4, [65, 65, 65, 0, 9])"
    using copyinstr_string [of 5 4100 "[9, 9, 9, 9, 9]" 3 umem_ex] pre
    by (simp add: m up b del: upt_Suc)
  moreover have "fst (the (copyinstr umem_ex 4100 [9, 9, 9, 9, 9] 3)) = Inl ENAMETOOLONG"
    using copyinstr_string [of 3 4100 "[9, 9, 9, 9, 9]" 3 umem_ex] pre by (simp add: m)
  ultimately show ?thesis by simp
qed

end
