(* ===== verification/Vm_Addrspace.thy ===== *)
theory Vm_Addrspace
  imports Kern_Copyinout
begin

section \<open>Physical memory, page tables and address spaces\<close>

text \<open>
  \<open>kern/arch/mips/vm/ram.c\<close>, \<open>kern/vm/coremap.c\<close>, \<open>kern/vm/pt.c\<close>, \<open>kern/vm/segments.c\<close>,
  \<open>kern/vm/addrspace.c\<close> and \<open>kern/vm/uw-vmstats.c\<close>. Addresses are 32-bit values; the masks of
  the code are bit operations on them. A page table is the list of its entries, \<open>None\<close> while
  \<open>ptable\<close> is \<open>NULL\<close>; \<open>pte_create\<close> initialises one field of an entry and leaves the others as
  \<open>kmalloc\<close> returned them. \<open>stealmem_lock\<close> and \<open>stats_lock\<close> make each allocation of frames
  and each update of a counter one step, so they do not appear beyond the check that
  \<open>stats_lock\<close> exists.
\<close>

subsection \<open>Constants\<close>

definition PAGE_SIZE :: nat where
  "PAGE_SIZE = 4096"

definition PAGE_FRAME :: nat where
  "PAGE_FRAME = 4294963200"

definition MIPS_KSEG0 :: nat where
  "MIPS_KSEG0 = 2147483648"

definition PADDR_TO_KVADDR :: "nat \<Rightarrow> nat" where
  "PADDR_TO_KVADDR pa = wrap32 (pa + MIPS_KSEG0)"

definition USERSTACK :: nat where
  "USERSTACK = USERSPACETOP"

definition STACKPAGES :: nat where
  "STACKPAGES = 12"

lemmas vm_consts = PAGE_SIZE_def PAGE_FRAME_def MIPS_KSEG0_def USERSTACK_def STACKPAGES_def USERSPACETOP_def

subsection \<open>Physical memory: \<open>ram.c\<close>\<close>

record ram =
  firstpaddr :: nat
  lastpaddr :: nat

text \<open>
  \<open>firstfree\<close> is the value \<open>start.S\<close> saved, \<open>ramsize\<close> what \<open>mainbus_ramsize\<close> returned.
\<close>

definition ram_bootstrap :: "nat \<Rightarrow> nat \<Rightarrow> ram" where
  "ram_bootstrap firstfree ramsize =
     (let ramsize = (if ramsize > 508 * 1024 * 1024 then 508 * 1024 * 1024 else ramsize) in
      \<lparr> firstpaddr = sub32 firstfree MIPS_KSEG0, lastpaddr = ramsize \<rparr>)"

definition ram_stealmem :: "nat \<Rightarrow> ram \<Rightarrow> nat \<times> ram" where
  "ram_stealmem npages r =
     (let size = wrap32 (npages * PAGE_SIZE) in
      if wrap32 (firstpaddr r + size) > lastpaddr r then (0, r)
      else (firstpaddr r, r\<lparr>firstpaddr := wrap32 (firstpaddr r + size)\<rparr>))"

definition ram_getsize :: "ram \<Rightarrow> (nat \<times> nat) \<times> ram" where
  "ram_getsize r = ((firstpaddr r, lastpaddr r), r\<lparr>firstpaddr := 0, lastpaddr := 0\<rparr>)"

definition getppages :: "nat \<Rightarrow> ram \<Rightarrow> (nat \<times> ram) option" where
  "getppages npages r =
     (let (pa, r') = ram_stealmem npages r in
      if pa = 0 then panic else Some (pa, r'))"

definition alloc_kpages :: "nat \<Rightarrow> ram \<Rightarrow> (nat \<times> ram) option" where
  "alloc_kpages npages r = do {
     (pa, r) \<leftarrow> getppages npages r;
     if pa = 0 then Some (0, r) else Some (PADDR_TO_KVADDR pa, r) }"

text \<open>\<open>free_kpages\<close> keeps the memory.\<close>

definition free_kpages :: "nat \<Rightarrow> ram \<Rightarrow> ram" where
  "free_kpages addr r = r"

subsection \<open>Statistics: \<open>uw-vmstats.c\<close>\<close>

definition VMSTAT_TLB_FAULT :: nat where "VMSTAT_TLB_FAULT = 0"
definition VMSTAT_TLB_FAULT_FREE :: nat where "VMSTAT_TLB_FAULT_FREE = 1"
definition VMSTAT_TLB_FAULT_REPLACE :: nat where "VMSTAT_TLB_FAULT_REPLACE = 2"
definition VMSTAT_TLB_INVALIDATE :: nat where "VMSTAT_TLB_INVALIDATE = 3"
definition VMSTAT_TLB_RELOAD :: nat where "VMSTAT_TLB_RELOAD = 4"
definition VMSTAT_PAGE_FAULT_ZERO :: nat where "VMSTAT_PAGE_FAULT_ZERO = 5"
definition VMSTAT_PAGE_FAULT_DISK :: nat where "VMSTAT_PAGE_FAULT_DISK = 6"
definition VMSTAT_ELF_FILE_READ :: nat where "VMSTAT_ELF_FILE_READ = 7"
definition VMSTAT_SWAP_FILE_READ :: nat where "VMSTAT_SWAP_FILE_READ = 8"
definition VMSTAT_COUNT :: nat where "VMSTAT_COUNT = 10"

lemmas vmstat_ids = VMSTAT_TLB_FAULT_def VMSTAT_TLB_FAULT_FREE_def VMSTAT_TLB_FAULT_REPLACE_def
  VMSTAT_TLB_INVALIDATE_def VMSTAT_TLB_RELOAD_def VMSTAT_PAGE_FAULT_ZERO_def
  VMSTAT_PAGE_FAULT_DISK_def VMSTAT_ELF_FILE_READ_def VMSTAT_SWAP_FILE_READ_def VMSTAT_COUNT_def

record vmstats =
  stats_counts :: "nat list"
  stats_lock :: bool

definition vmstats_inc_unlocked :: "nat \<Rightarrow> vmstats \<Rightarrow> vmstats option" where
  "vmstats_inc_unlocked index st = do {
     kassert (index < VMSTAT_COUNT);
     c \<leftarrow> slot_get (stats_counts st) index;
     cs \<leftarrow> slot_set (stats_counts st) index (wrap32 (c + 1));
     Some (st\<lparr>stats_counts := cs\<rparr>) }"

definition vmstats_inc :: "nat \<Rightarrow> vmstats \<Rightarrow> vmstats option" where
  "vmstats_inc index st = do {
     kassert (stats_lock st);
     vmstats_inc_unlocked index st }"

fun vmstats_zero :: "nat \<Rightarrow> nat list \<Rightarrow> nat list" where
  "vmstats_zero 0 cs = cs"
| "vmstats_zero (Suc i) cs = (vmstats_zero i cs)[i := 0]"

text \<open>\<open>created\<close>: \<open>lock_create\<close> returned a lock.\<close>

definition vmstats_init :: "bool \<Rightarrow> vmstats \<Rightarrow> vmstats option" where
  "vmstats_init created st = do {
     kassert (\<not> stats_lock st);
     kassert created;
     Some (st\<lparr>stats_lock := True, stats_counts := vmstats_zero VMSTAT_COUNT (stats_counts st)\<rparr>) }"

text \<open>
  \<open>vmstats_print\<close>: the counters, the three sums and which of the three warnings are printed.
\<close>

record vmstats_report =
  vr_counts :: "nat list"
  vr_free_plus_replace :: int
  vr_disk_plus_zeroed_plus_reload :: int
  vr_elf_plus_swap_reads :: int
  vr_warn_faults :: bool
  vr_warn_reload :: bool
  vr_warn_disk :: bool

definition vmstats_print :: "vmstats \<Rightarrow> vmstats_report option" where
  "vmstats_print st = do {
     kassert (stats_lock st);
     kassert (length (stats_counts st) = VMSTAT_COUNT);
     (let c = (\<lambda>i. stats_counts st ! i);
          tlb_faults = swrap32 (int (c VMSTAT_TLB_FAULT));
          free_plus_replace = swrap32 (int (c VMSTAT_TLB_FAULT_FREE + c VMSTAT_TLB_FAULT_REPLACE));
          disk_plus_zeroed_plus_reload =
            swrap32 (int (c VMSTAT_PAGE_FAULT_DISK + c VMSTAT_PAGE_FAULT_ZERO + c VMSTAT_TLB_RELOAD));
          elf_plus_swap_reads = swrap32 (int (c VMSTAT_ELF_FILE_READ + c VMSTAT_SWAP_FILE_READ));
          disk_reads = swrap32 (int (c VMSTAT_PAGE_FAULT_DISK))
      in Some \<lparr> vr_counts = stats_counts st, vr_free_plus_replace = free_plus_replace,
                vr_disk_plus_zeroed_plus_reload = disk_plus_zeroed_plus_reload,
                vr_elf_plus_swap_reads = elf_plus_swap_reads,
                vr_warn_faults = (tlb_faults \<noteq> free_plus_replace),
                vr_warn_reload = (tlb_faults \<noteq> disk_plus_zeroed_plus_reload),
                vr_warn_disk = (disk_reads \<noteq> elf_plus_swap_reads) \<rparr>) }"

subsection \<open>The state of the VM system\<close>

text \<open>
  What the functions below share: the two bounds of the free physical memory, the counters,
  the TLB of the processor as its 64 pairs of \<open>entryhi\<close> and \<open>entrylo\<close>, the round robin
  pointer \<open>next_victim\<close> and the bytes of the physical memory.
\<close>

record vmstate =
  vm_ram :: ram
  vm_stats :: vmstats
  vm_tlb :: "(nat \<times> nat) list"
  next_victim :: nat
  vm_mem :: "nat \<Rightarrow> u8"

definition vm_stat :: "nat \<Rightarrow> vmstate \<Rightarrow> vmstate option" where
  "vm_stat index vm = do {
     st \<leftarrow> vmstats_inc index (vm_stats vm);
     Some (vm\<lparr>vm_stats := st\<rparr>) }"

definition vm_bootstrap :: "bool \<Rightarrow> vmstate \<Rightarrow> vmstate option" where
  "vm_bootstrap created vm = do {
     st \<leftarrow> vmstats_init created (vm_stats vm);
     Some (vm\<lparr>vm_stats := st\<rparr>) }"

subsection \<open>Page table entries: \<open>pt.c\<close>, \<open>coremap.c\<close>\<close>

record pte =
  pt_valid :: int
  pt_dirty :: int
  pt_paddr :: nat

definition pte_create :: "pte \<Rightarrow> pte" where
  "pte_create p = p\<lparr>pt_valid := 0\<rparr>"

definition pte_load :: "pte \<Rightarrow> vmstate \<Rightarrow> (nat \<times> pte \<times> vmstate) option" where
  "pte_load p vm = do {
     (paddr, r) \<leftarrow> getppages 1 (vm_ram vm);
     Some (paddr, p\<lparr>pt_paddr := paddr, pt_valid := 1\<rparr>, vm\<lparr>vm_ram := r\<rparr>) }"

definition pte_reload :: "pte \<Rightarrow> nat \<Rightarrow> vmstate \<Rightarrow> (nat \<times> vmstate) option" where
  "pte_reload p offset vm = do {
     vm \<leftarrow> vm_stat VMSTAT_TLB_RELOAD vm;
     Some (wrap32 (pt_paddr p + offset), vm) }"

text \<open>\<open>coremap_init\<close> fills the table that starts at \<open>first\<close>; \<open>cm\<close> is the memory there.\<close>

definition coremap_init :: "nat \<Rightarrow> nat \<Rightarrow> (nat \<Rightarrow> pte) \<Rightarrow> pte list option" where
  "coremap_init first lst cm =
     (let total_pages = wrap32 (lst + PAGE_SIZE - 1) div PAGE_SIZE;
          free_pages = wrap32 (sub32 lst first + PAGE_SIZE - 1) div PAGE_SIZE;
          kernel_pages = sub32 total_pages free_pages
      in if PADDR_TO_KVADDR first = 0 then panic
         else Some (map (\<lambda>i. (cm i)\<lparr>pt_paddr := wrap32 (kernel_pages + PAGE_SIZE * i),
                                   pt_valid := 1, pt_dirty := 1\<rparr>) [0..<free_pages]))"

subsection \<open>Segments: \<open>segments.c\<close>\<close>

datatype segment_t = CODE | STACK | DATA

record segment =
  vbase :: nat
  npages :: nat
  ptable :: "pte list option"
  tsegment :: segment_t

text \<open>
  \<open>km\<close> is what \<open>kmalloc\<close> returned for the page table. It is not checked: the first
  \<open>pte_create\<close> writes through it.
\<close>

definition segment_prepare :: "pte kmem \<Rightarrow> segment \<Rightarrow> segment option" where
  "segment_prepare km seg = do {
     kassert (npages seg \<noteq> 0);
     junk \<leftarrow> km;
     Some (seg\<lparr>ptable := Some (map pte_create (kblock junk (npages seg)))\<rparr>) }"

definition segment_create :: "pte kmem \<Rightarrow> segment_t \<Rightarrow> segment option" where
  "segment_create km ty =
     (let seg = \<lparr> vbase = 0, npages = 0, ptable = None, tsegment = ty \<rparr> in
      if ty = STACK then do {
        seg \<leftarrow> segment_prepare km (seg\<lparr>npages := STACKPAGES\<rparr>);
        Some (seg\<lparr>vbase := sub32 USERSTACK (npages seg * PAGE_SIZE)\<rparr>) }
      else Some seg)"

definition segment_lookup ::
    "segment \<Rightarrow> nat \<Rightarrow> bool \<Rightarrow> vmstate \<Rightarrow> (nat \<times> segment \<times> vmstate) option" where
  "segment_lookup seg va dirty vm = do {
     let vpn = sub32 va (vbase seg) div PAGE_SIZE;
     pt \<leftarrow> ptable seg;
     p \<leftarrow> slot_get pt vpn;
     let p = (if dirty then p\<lparr>pt_dirty := 1\<rparr> else p);
     if pt_valid p = 0 then do {
       (paddr, p, vm) \<leftarrow> pte_load p vm;
       Some (paddr, seg\<lparr>ptable := Some (pt[vpn := p])\<rparr>, vm) }
     else do {
       (paddr, vm) \<leftarrow> pte_reload p (sub32 va (vbase seg) mod PAGE_SIZE) vm;
       Some (paddr, seg\<lparr>ptable := Some (pt[vpn := p])\<rparr>, vm) } }"

subsection \<open>Address spaces: \<open>addrspace.c\<close>\<close>

record addrspace =
  as_vbase1 :: nat
  as_pbase1 :: nat
  as_npages1 :: nat
  as_vbase2 :: nat
  as_pbase2 :: nat
  as_npages2 :: nat
  as_stackpbase :: nat
  as_code :: segment
  as_data :: segment
  as_stack :: segment
  loaded :: bool

text \<open>\<open>kas\<close>, \<open>kpt\<close>: the outcomes of \<open>kmalloc\<close> for the structure and for the stack's table.\<close>

definition as_create :: "unit kmem \<Rightarrow> pte kmem \<Rightarrow> addrspace option option" where
  "as_create kas kpt =
     (case kas of
        None \<Rightarrow> Some None
      | Some _ \<Rightarrow> do {
          code \<leftarrow> segment_create None CODE;
          dat \<leftarrow> segment_create None DATA;
          stack \<leftarrow> segment_create kpt STACK;
          Some (Some \<lparr> as_vbase1 = 0, as_pbase1 = 0, as_npages1 = 0,
                       as_vbase2 = 0, as_pbase2 = 0, as_npages2 = 0, as_stackpbase = 0,
                       as_code = code, as_data = dat, as_stack = stack, loaded = False \<rparr>) })"

definition as_define_region :: "pte kmem \<Rightarrow> addrspace \<Rightarrow> nat \<Rightarrow> nat \<Rightarrow> (unit kresult \<times> addrspace) option" where
  "as_define_region km as va sz =
     (let sz = wrap32 (sz + (va AND (2 ^ 32 - 1 - PAGE_FRAME)));
          va = va AND PAGE_FRAME;
          sz = wrap32 (sz + PAGE_SIZE - 1) AND PAGE_FRAME;
          n = sz div PAGE_SIZE
      in if as_vbase1 as = 0 \<and> vbase (as_code as) = 0 then do {
           seg \<leftarrow> segment_prepare km ((as_code as)\<lparr>npages := n\<rparr>);
           Some (Inr (), as\<lparr>as_vbase1 := va, as_npages1 := n, as_code := seg\<lparr>vbase := va\<rparr>\<rparr>) }
         else if as_vbase2 as = 0 \<and> vbase (as_data as) = 0 then do {
           seg \<leftarrow> segment_prepare km ((as_data as)\<lparr>npages := n\<rparr>);
           Some (Inr (), as\<lparr>as_vbase2 := va, as_npages2 := n, as_data := seg\<lparr>vbase := va\<rparr>\<rparr>) }
         else Some (Inl EUNIMP, as))"

definition as_prepare_load :: "addrspace \<Rightarrow> unit kresult" where
  "as_prepare_load as = Inr ()"

definition as_complete_load :: "addrspace \<Rightarrow> unit kresult \<times> addrspace" where
  "as_complete_load as = (Inr (), as\<lparr>loaded := True\<rparr>)"

definition as_define_stack :: "addrspace \<Rightarrow> nat kresult" where
  "as_define_stack as = Inr USERSTACK"

text \<open>\<open>bzero\<close> and \<open>memmove\<close> on memory reached through kseg0 addresses.\<close>

definition phys_zero :: "nat \<Rightarrow> nat \<Rightarrow> vmstate \<Rightarrow> vmstate" where
  "phys_zero pa len vm = vm\<lparr>vm_mem := (\<lambda>a. if pa \<le> a \<and> a < pa + len then 0 else vm_mem vm a)\<rparr>"

definition phys_move :: "nat \<Rightarrow> nat \<Rightarrow> nat \<Rightarrow> vmstate \<Rightarrow> vmstate" where
  "phys_move dst src len vm =
     vm\<lparr>vm_mem := (\<lambda>a. if dst \<le> a \<and> a < dst + len then vm_mem vm (src + (a - dst)) else vm_mem vm a)\<rparr>"

definition as_zero_region :: "nat \<Rightarrow> nat \<Rightarrow> vmstate \<Rightarrow> vmstate" where
  "as_zero_region pa n vm = phys_zero pa (wrap32 (n * PAGE_SIZE)) vm"

definition as_copy ::
    "unit kmem \<Rightarrow> pte kmem \<Rightarrow> addrspace \<Rightarrow> vmstate \<Rightarrow> (addrspace kresult \<times> vmstate) option" where
  "as_copy kas kpt old vm = do {
     created \<leftarrow> as_create kas kpt;
     case created of
       None \<Rightarrow> Some (Inl ENOMEM, vm)
     | Some new \<Rightarrow>
         (let new = new\<lparr>as_vbase1 := as_vbase1 old, as_npages1 := as_npages1 old,
                        as_vbase2 := as_vbase2 old, as_npages2 := as_npages2 old\<rparr>
          in case as_prepare_load new of
               Inl e \<Rightarrow> Some (Inl ENOMEM, vm)
             | Inr _ \<Rightarrow> do {
                 kassert (as_pbase1 new \<noteq> 0);
                 kassert (as_pbase2 new \<noteq> 0);
                 kassert (as_stackpbase new \<noteq> 0);
                 let vm = phys_move (as_pbase1 new) (as_pbase1 old) (wrap32 (as_npages1 old * PAGE_SIZE)) vm;
                 let vm = phys_move (as_pbase2 new) (as_pbase2 old) (wrap32 (as_npages2 old * PAGE_SIZE)) vm;
                 let vm = phys_move (as_stackpbase new) (as_stackpbase old) (STACKPAGES * PAGE_SIZE) vm;
                 Some (Inr new, vm) }) }"

subsection \<open>Page arithmetic\<close>

lemma and_PAGE_FRAME:
  assumes "a < 2 ^ 32" shows "a AND PAGE_FRAME = a - a mod PAGE_SIZE"
proof -
  have f: "PAGE_FRAME = push_bit 12 (mask 20)" by (simp add: PAGE_FRAME_def push_bit_nat_def mask_eq_exp_minus_1)
  have "a AND PAGE_FRAME = push_bit 12 (drop_bit 12 a AND mask 20)"
    unfolding f by (rule bit_eqI) (auto simp: bit_simps)
  also have "drop_bit 12 a AND mask 20 = a div 4096"
    using assms by (simp add: take_bit_eq_mask [symmetric] take_bit_eq_mod drop_bit_nat_def div_less_iff_less_mult)
  also have "push_bit 12 (a div 4096) = a - a mod 4096"
    by (simp add: push_bit_nat_def minus_mod_eq_div_mult)
  finally show ?thesis by (simp add: PAGE_SIZE_def)
qed

lemma and_not_PAGE_FRAME: "a AND (2 ^ 32 - 1 - PAGE_FRAME) = a mod PAGE_SIZE"
proof -
  have "(2 ^ 32 - 1 - PAGE_FRAME :: nat) = mask 12" by (simp add: PAGE_FRAME_def mask_eq_exp_minus_1)
  then show ?thesis by (simp only: take_bit_eq_mask [symmetric] take_bit_eq_mod) (simp add: PAGE_SIZE_def)
qed

lemma bit_aligned: "PAGE_SIZE dvd a \<Longrightarrow> i < 12 \<Longrightarrow> \<not> bit (a :: nat) i"
proof -
  assume "PAGE_SIZE dvd a" "i < 12"
  then obtain k where "a = 4096 * k" by (auto simp: PAGE_SIZE_def elim: dvdE)
  then have "a = push_bit 12 k" by (simp add: push_bit_nat_def)
  with \<open>i < 12\<close> show ?thesis by (simp add: bit_simps)
qed

subsection \<open>Allocation of frames\<close>

text \<open>
  The bounds of the physical memory once \<open>ram_bootstrap\<close> has run: page aligned, inside the
  512 megabytes that kseg0 reaches, and not empty at the bottom.
\<close>

definition ram_ok :: "ram \<Rightarrow> bool" where
  "ram_ok r \<longleftrightarrow> PAGE_SIZE dvd firstpaddr r \<and> 0 < firstpaddr r \<and> firstpaddr r \<le> lastpaddr r \<and>
     lastpaddr r \<le> 508 * 1024 * 1024"

lemma ram_okD:
  assumes "ram_ok r"
  shows "PAGE_SIZE dvd firstpaddr r" "0 < firstpaddr r" "firstpaddr r \<le> lastpaddr r" "lastpaddr r \<le> 532676608"
  using assms by (auto simp: ram_ok_def)

lemma ram_bootstrap_ok:
  assumes "MIPS_KSEG0 < firstfree" "firstfree < 2 ^ 32" "PAGE_SIZE dvd firstfree"
    and "firstfree - MIPS_KSEG0 \<le> ramsize" "firstfree - MIPS_KSEG0 \<le> 532676608"
  shows "ram_ok (ram_bootstrap firstfree ramsize)"
proof -
  have "PAGE_SIZE dvd MIPS_KSEG0" by (simp add: vm_consts)
  then have "PAGE_SIZE dvd firstfree - MIPS_KSEG0" using assms(3) by (rule dvd_diff_nat [rotated])
  then show ?thesis using assms by (auto simp: ram_bootstrap_def ram_ok_def sub32_le)
qed

lemma getppages_one:
  assumes "ram_ok r"
  shows "getppages 1 r =
    (if firstpaddr r + PAGE_SIZE \<le> lastpaddr r
     then Some (firstpaddr r, r\<lparr>firstpaddr := firstpaddr r + PAGE_SIZE\<rparr>) else None)"
  using ram_okD [OF assms] by (auto simp: getppages_def ram_stealmem_def Let_def PAGE_SIZE_def)

text \<open>
  A request of at most two gigabytes moves the free pointer by exactly its size. A larger
  one need not: the sum wraps.
\<close>

lemma getppages_ok:
  assumes "ram_ok r" "getppages n r = Some (pa, r')" "n \<le> 2 ^ 19"
  shows "ram_ok r'" "pa = firstpaddr r" "lastpaddr r' = lastpaddr r"
    "firstpaddr r' = firstpaddr r + n * PAGE_SIZE"
proof -
  have w: "wrap32 (n * PAGE_SIZE) = n * PAGE_SIZE" using assms(3) by (simp add: PAGE_SIZE_def)
  have s: "wrap32 (firstpaddr r + n * PAGE_SIZE) = firstpaddr r + n * PAGE_SIZE"
    using assms(3) ram_okD [OF assms(1)] by (simp add: PAGE_SIZE_def)
  have *: "pa = firstpaddr r" "r' = r\<lparr>firstpaddr := firstpaddr r + n * PAGE_SIZE\<rparr>"
    "firstpaddr r + n * PAGE_SIZE \<le> lastpaddr r"
    using assms(2) w s by (auto simp: getppages_def ram_stealmem_def Let_def split: if_splits)
  then show "pa = firstpaddr r" "lastpaddr r' = lastpaddr r" "firstpaddr r' = firstpaddr r + n * PAGE_SIZE"
    by simp_all
  show "ram_ok r'" using * ram_okD [OF assms(1)] by (auto simp: ram_ok_def)
qed


subsection \<open>Well-formed address spaces\<close>

text \<open>
  A segment of an address space that the code built: its base is page aligned, it has at most
  \<open>2 ^ 20 - 1\<close> pages, and its page table, once there is one, has one entry per page. A space
  is ready for page faults when both regions have a base other than 0; no page is loaded
  before. \<open>as_segment\<close> is the order in which \<open>vm_fault\<close> looks at the three ranges, \<open>slot_of\<close>
  the entry of a page table that a page belongs to and \<open>slot_frame\<close> the frame an entry holds.
\<close>

definition as_seg :: "addrspace \<Rightarrow> segment_t \<Rightarrow> segment" where
  "as_seg as t = (case t of CODE \<Rightarrow> as_code as | STACK \<Rightarrow> as_stack as | DATA \<Rightarrow> as_data as)"

definition seg_covers :: "nat \<Rightarrow> nat \<Rightarrow> nat \<Rightarrow> bool" where
  "seg_covers base tp va \<longleftrightarrow> va \<ge> base \<and> va < tp"

definition as_set_seg :: "addrspace \<Rightarrow> segment_t \<Rightarrow> segment \<Rightarrow> addrspace" where
  "as_set_seg as t g = (case t of CODE \<Rightarrow> as\<lparr>as_code := g\<rparr> | STACK \<Rightarrow> as\<lparr>as_stack := g\<rparr> | DATA \<Rightarrow> as\<lparr>as_data := g\<rparr>)"

definition seg_top :: "segment \<Rightarrow> nat" where
  "seg_top g = wrap32 (vbase g + npages g * PAGE_SIZE)"

definition as_segment :: "addrspace \<Rightarrow> nat \<Rightarrow> segment_t option" where
  "as_segment as va =
     (if seg_covers (vbase (as_code as)) (seg_top (as_code as)) va then Some CODE
      else if seg_covers (vbase (as_data as)) (seg_top (as_data as)) va then Some DATA
      else if seg_covers (vbase (as_stack as)) (seg_top (as_stack as)) va then Some STACK
      else None)"

definition seg_index :: "segment \<Rightarrow> nat \<Rightarrow> nat" where
  "seg_index g va = (va - vbase g) div PAGE_SIZE"

definition slot_of :: "addrspace \<Rightarrow> nat \<Rightarrow> (segment_t \<times> nat) option" where
  "slot_of as va = map_option (\<lambda>t. (t, seg_index (as_seg as t) va)) (as_segment as va)"

definition slot_frame :: "addrspace \<Rightarrow> segment_t \<times> nat \<Rightarrow> nat option" where
  "slot_frame as x =
     (case ptable (as_seg as (fst x)) of
        None \<Rightarrow> None
      | Some pt \<Rightarrow> if snd x < length pt \<and> pt_valid (pt ! snd x) \<noteq> 0 then Some (pt_paddr (pt ! snd x)) else None)"

definition frame_at :: "addrspace \<Rightarrow> nat \<Rightarrow> nat option" where
  "frame_at as va = slot_of as va \<bind> slot_frame as"

definition seg_ok :: "segment \<Rightarrow> bool" where
  "seg_ok g \<longleftrightarrow> npages g < 2 ^ 20 \<and> vbase g < 2 ^ 32 \<and> PAGE_SIZE dvd vbase g \<and>
     (case ptable g of None \<Rightarrow> vbase g = 0 \<and> npages g = 0 | Some pt \<Rightarrow> length pt = npages g \<and> npages g \<noteq> 0)"

definition as_ready :: "addrspace \<Rightarrow> bool" where
  "as_ready as \<longleftrightarrow> vbase (as_code as) \<noteq> 0 \<and> vbase (as_data as) \<noteq> 0"

definition as_ok :: "addrspace \<Rightarrow> bool" where
  "as_ok as \<longleftrightarrow> (\<forall>t. seg_ok (as_seg as t)) \<and>
     as_vbase1 as = vbase (as_code as) \<and> as_vbase2 as = vbase (as_data as) \<and>
     vbase (as_stack as) = USERSTACK - STACKPAGES * PAGE_SIZE \<and> npages (as_stack as) = STACKPAGES \<and>
     as_pbase1 as = 0 \<and> as_pbase2 as = 0 \<and> as_stackpbase as = 0 \<and>
     (\<not> as_ready as \<longrightarrow> (\<forall>x. slot_frame as x = None))"

lemma as_seg_simps [simp]:
  "as_seg as CODE = as_code as" "as_seg as STACK = as_stack as" "as_seg as DATA = as_data as"
  by (simp_all add: as_seg_def)

lemma as_set_seg_simps [simp]:
  "as_seg (as_set_seg as t g) t' = (if t' = t then g else as_seg as t')"
  "loaded (as_set_seg as t g) = loaded as" "as_vbase1 (as_set_seg as t g) = as_vbase1 as"
  "as_vbase2 (as_set_seg as t g) = as_vbase2 as" "as_pbase1 (as_set_seg as t g) = as_pbase1 as"
  "as_pbase2 (as_set_seg as t g) = as_pbase2 as" "as_stackpbase (as_set_seg as t g) = as_stackpbase as"
  by (cases t; cases t'; simp add: as_set_seg_def)+

lemma as_seg_unfold: "as_code as = as_seg as CODE" "as_stack as = as_seg as STACK" "as_data as = as_seg as DATA"
  by simp_all

lemma all_segment_t: "(\<forall>t. P t) \<longleftrightarrow> P CODE \<and> P STACK \<and> P DATA"
  by (metis segment_t.exhaust)

lemma as_okD:
  assumes "as_ok as"
  shows "seg_ok (as_seg as t)" "as_vbase1 as = vbase (as_code as)" "as_vbase2 as = vbase (as_data as)"
    "vbase (as_stack as) = USERSTACK - STACKPAGES * PAGE_SIZE" "npages (as_stack as) = STACKPAGES"
    "\<not> as_ready as \<Longrightarrow> slot_frame as x = None"
  using assms by (cases x; auto simp: as_ok_def)+

lemma seg_okD:
  assumes "seg_ok g"
  shows "npages g < 2 ^ 20" "vbase g < 2 ^ 32" "PAGE_SIZE dvd vbase g"
    "ptable g = Some pt \<Longrightarrow> length pt = npages g"
    "ptable g = None \<Longrightarrow> npages g = 0" "vbase g \<noteq> 0 \<Longrightarrow> npages g \<noteq> 0"
  using assms by (auto simp: seg_ok_def split: option.splits)

text \<open>A range that wraps around the end of the address space covers no address.\<close>

lemma seg_covers_iff:
  assumes "seg_ok g" "seg_covers (vbase g) (seg_top g) va"
  shows "vbase g \<le> va" "va < vbase g + npages g * PAGE_SIZE" "seg_index g va < npages g"
proof -
  show "vbase g \<le> va" using assms(2) by (simp add: seg_covers_def)
  moreover show "va < vbase g + npages g * PAGE_SIZE"
    using assms(2) mod_less_eq_dividend [of "vbase g + npages g * PAGE_SIZE" "2 ^ 32"]
    unfolding seg_covers_def seg_top_def wrap32_def by linarith
  ultimately show "seg_index g va < npages g"
    by (auto simp: seg_index_def PAGE_SIZE_def div_less_iff_less_mult)
qed

lemma as_segmentD:
  assumes "as_segment as va = Some t"
  shows "seg_covers (vbase (as_seg as t)) (seg_top (as_seg as t)) va"
  using assms by (auto simp: as_segment_def split: if_splits)

text \<open>Distinct pages belong to distinct entries.\<close>

lemma slot_of_inj:
  assumes "as_ok as" "slot_of as va = Some x" "slot_of as va' = Some x" "PAGE_SIZE dvd va" "PAGE_SIZE dvd va'"
  shows "va = va'"
proof -
  obtain t where t: "as_segment as va = Some t" "as_segment as va' = Some t"
      "seg_index (as_seg as t) va = seg_index (as_seg as t) va'"
    using assms(2,3) by (auto simp: slot_of_def)
  let ?b = "vbase (as_seg as t)"
  have ge: "?b \<le> va" "?b \<le> va'" and d: "PAGE_SIZE dvd ?b"
    using seg_covers_iff(1) [OF as_okD(1) [OF assms(1)] as_segmentD] t seg_okD(3) [OF as_okD(1) [OF assms(1)]]
    by blast+
  have "PAGE_SIZE dvd va - ?b" "PAGE_SIZE dvd va' - ?b" using assms(4,5) d by (auto intro: dvd_diff_nat)
  with t(3) have "va - ?b = va' - ?b" by (metis seg_index_def dvd_div_mult_self)
  with ge show ?thesis by linarith
qed

lemma slot_frame_none: "(\<And>t pt. ptable (as_seg as t) = Some pt \<Longrightarrow> \<forall>p \<in> set pt. pt_valid p = 0) \<Longrightarrow> slot_frame as x = None"
  by (auto simp: slot_frame_def split: option.splits)

lemma pte_create_invalid: "\<forall>p \<in> set (map pte_create ps). pt_valid p = 0"
  by (auto simp: pte_create_def)

lemma as_create_ok:
  assumes "as_create kas kpt = Some (Some as)"
  shows "as_ok as" "\<not> as_ready as" "slot_frame as x = None" "\<not> loaded as"
proof -
  obtain junk where as: "as = \<lparr> as_vbase1 = 0, as_pbase1 = 0, as_npages1 = 0, as_vbase2 = 0, as_pbase2 = 0,
      as_npages2 = 0, as_stackpbase = 0,
      as_code = \<lparr> vbase = 0, npages = 0, ptable = None, tsegment = CODE \<rparr>,
      as_data = \<lparr> vbase = 0, npages = 0, ptable = None, tsegment = DATA \<rparr>,
      as_stack = \<lparr> vbase = USERSTACK - STACKPAGES * PAGE_SIZE, npages = STACKPAGES,
        ptable = Some (map pte_create (kblock junk STACKPAGES)), tsegment = STACK \<rparr>, loaded = False \<rparr>"
    using assms
    by (auto simp: as_create_def segment_create_def segment_prepare_def Let_def sub32_def wrap32_def bind_eq_Some_conv
        vm_consts split: option.splits)
  show nr: "\<not> as_ready as" and "\<not> loaded as" by (simp_all add: as as_ready_def)
  have nf: "slot_frame as x = None" for x
  proof (rule slot_frame_none)
    fix t pt assume "ptable (as_seg as t) = Some pt"
    then show "\<forall>p \<in> set pt. pt_valid p = 0" using pte_create_invalid by (cases t) (auto simp: as)
  qed
  show "slot_frame as x = None" by (rule nf)
  have "\<forall>t. seg_ok (as_seg as t)" by (simp add: all_segment_t as seg_ok_def vm_consts)
  then show "as_ok as" using nf by (simp add: as_ok_def) (simp add: as)
qed

lemma segment_prepareD:
  assumes "segment_prepare km g = Some g'"
  shows "\<exists>pt. g' = g\<lparr>ptable := Some pt\<rparr> \<and> length pt = npages g \<and> npages g \<noteq> 0 \<and> (\<forall>p \<in> set pt. pt_valid p = 0)"
proof -
  obtain junk where "npages g \<noteq> 0" "g' = g\<lparr>ptable := Some (map pte_create (kblock junk (npages g)))\<rparr>"
    using assms by (auto simp: segment_prepare_def bind_eq_Some_conv)
  then show ?thesis using pte_create_invalid by (intro exI [of _ "map pte_create (kblock junk (npages g))"]) simp
qed

text \<open>
  \<open>as_define_region\<close>: the first call that leaves a base other than 0 fixes the code, the next
  the data, and a ready space refuses further regions.
\<close>

definition region_pages :: "nat \<Rightarrow> nat \<Rightarrow> nat" where
  "region_pages va sz = wrap32 (wrap32 (sz + va mod PAGE_SIZE) + PAGE_SIZE - 1) div PAGE_SIZE"

lemma region_pages_code:
  "(wrap32 (wrap32 (sz + (va AND (2 ^ 32 - 1 - PAGE_FRAME))) + PAGE_SIZE - 1) AND PAGE_FRAME) div PAGE_SIZE
   = region_pages va sz"
proof -
  have "(x - x mod PAGE_SIZE) div PAGE_SIZE = x div PAGE_SIZE" for x
    by (metis PAGE_SIZE_def minus_mod_eq_mult_div nonzero_mult_div_cancel_left zero_neq_numeral)
  then show ?thesis unfolding and_not_PAGE_FRAME region_pages_def and_PAGE_FRAME [OF wrap32_less] by blast
qed

lemma region_pages_less: "region_pages va sz < 2 ^ 20"
  using wrap32_less by (auto simp: region_pages_def PAGE_SIZE_def div_less_iff_less_mult)

lemma page_dvd: "PAGE_SIZE dvd va - va mod PAGE_SIZE"
  by (simp add: dvd_minus_mod)

lemma as_define_region_eq:
  assumes "va < 2 ^ 32"
  shows "as_define_region km as va sz =
     (if as_vbase1 as = 0 \<and> vbase (as_code as) = 0 then do {
           seg \<leftarrow> segment_prepare km ((as_code as)\<lparr>npages := region_pages va sz\<rparr>);
           Some (Inr (), as\<lparr>as_vbase1 := va - va mod PAGE_SIZE, as_npages1 := region_pages va sz,
              as_code := seg\<lparr>vbase := va - va mod PAGE_SIZE\<rparr>\<rparr>) }
         else if as_vbase2 as = 0 \<and> vbase (as_data as) = 0 then do {
           seg \<leftarrow> segment_prepare km ((as_data as)\<lparr>npages := region_pages va sz\<rparr>);
           Some (Inr (), as\<lparr>as_vbase2 := va - va mod PAGE_SIZE, as_npages2 := region_pages va sz,
              as_data := seg\<lparr>vbase := va - va mod PAGE_SIZE\<rparr>\<rparr>) }
         else Some (Inl EUNIMP, as))"
  unfolding as_define_region_def Let_def region_pages_code and_PAGE_FRAME [OF assms] by (rule refl)

lemma as_define_region_ready:
  assumes "as_ok as" "as_ready as" "va < 2 ^ 32"
  shows "as_define_region km as va sz = Some (Inl EUNIMP, as)"
  using assms by (simp add: as_define_region_eq as_ready_def)

lemma seg_ok_new:
  "length pt = n \<Longrightarrow> n \<noteq> 0 \<Longrightarrow> n < 2 ^ 20 \<Longrightarrow> v < 2 ^ 32 \<Longrightarrow> PAGE_SIZE dvd v \<Longrightarrow>
   seg_ok (g\<lparr>npages := n, ptable := Some pt, vbase := v\<rparr>)"
  by (simp add: seg_ok_def)

lemma as_define_region_cases:
  assumes "va < 2 ^ 32" "as_define_region km as va sz = Some (r, as')"
  obtains (code) pt where "as_vbase1 as = 0" "vbase (as_code as) = 0" "length pt = region_pages va sz"
      "region_pages va sz \<noteq> 0" "\<forall>p \<in> set pt. pt_valid p = 0"
      "as' = as\<lparr>as_vbase1 := va - va mod PAGE_SIZE, as_npages1 := region_pages va sz,
         as_code := (as_code as)\<lparr>npages := region_pages va sz, ptable := Some pt, vbase := va - va mod PAGE_SIZE\<rparr>\<rparr>"
  | (data) pt where "as_vbase2 as = 0" "vbase (as_data as) = 0" "length pt = region_pages va sz"
      "region_pages va sz \<noteq> 0" "\<forall>p \<in> set pt. pt_valid p = 0"
      "as' = as\<lparr>as_vbase2 := va - va mod PAGE_SIZE, as_npages2 := region_pages va sz,
         as_data := (as_data as)\<lparr>npages := region_pages va sz, ptable := Some pt, vbase := va - va mod PAGE_SIZE\<rparr>\<rparr>"
  | (none) "as' = as"
proof -
  note res = assms(2) [unfolded as_define_region_eq [OF assms(1)]]
  consider (c) "as_vbase1 as = 0 \<and> vbase (as_code as) = 0"
    | (d) "\<not> (as_vbase1 as = 0 \<and> vbase (as_code as) = 0)" "as_vbase2 as = 0 \<and> vbase (as_data as) = 0"
    | (n) "\<not> (as_vbase1 as = 0 \<and> vbase (as_code as) = 0)" "\<not> (as_vbase2 as = 0 \<and> vbase (as_data as) = 0)"
    by blast
  then show thesis
  proof cases
    case c
    obtain seg where s: "segment_prepare km ((as_code as)\<lparr>npages := region_pages va sz\<rparr>) = Some seg"
      "as' = as\<lparr>as_vbase1 := va - va mod PAGE_SIZE, as_npages1 := region_pages va sz, as_code := seg\<lparr>vbase := va - va mod PAGE_SIZE\<rparr>\<rparr>"
      using res unfolding if_P [OF c] by (auto simp: bind_eq_Some_conv)
    obtain pt where "seg = (as_code as)\<lparr>npages := region_pages va sz, ptable := Some pt\<rparr>"
      "length pt = region_pages va sz" "region_pages va sz \<noteq> 0" "\<forall>p \<in> set pt. pt_valid p = 0"
      using segment_prepareD [OF s(1)] by auto
    then show thesis using c s(2) by (intro code [of pt]) simp_all
  next
    case d
    obtain seg where s: "segment_prepare km ((as_data as)\<lparr>npages := region_pages va sz\<rparr>) = Some seg"
      "as' = as\<lparr>as_vbase2 := va - va mod PAGE_SIZE, as_npages2 := region_pages va sz, as_data := seg\<lparr>vbase := va - va mod PAGE_SIZE\<rparr>\<rparr>"
      using res unfolding if_not_P [OF d(1)] if_P [OF d(2)] by (auto simp: bind_eq_Some_conv)
    obtain pt where "seg = (as_data as)\<lparr>npages := region_pages va sz, ptable := Some pt\<rparr>"
      "length pt = region_pages va sz" "region_pages va sz \<noteq> 0" "\<forall>p \<in> set pt. pt_valid p = 0"
      using segment_prepareD [OF s(1)] by auto
    then show thesis using d s(2) by (intro data [of pt]) simp_all
  next
    case n
    then show thesis using res unfolding if_not_P [OF n(1)] if_not_P [OF n(2)] by (simp add: none)
  qed
qed

lemma slot_frame_none_tables:
  assumes "\<And>x. slot_frame as x = None" "ptable (as_seg as t) = Some pt" "p \<in> set pt"
  shows "pt_valid p = 0"
proof -
  obtain k where "k < length pt" "p = pt ! k" using assms(3) by (metis in_set_conv_nth)
  then show ?thesis using assms(1) [of "(t, k)"] assms(2) by (simp add: slot_frame_def split: if_splits)
qed

lemma as_define_region_ok:
  assumes ok: "as_ok as" and va: "va < 2 ^ 32"
    and res: "as_define_region km as va sz = Some (r, as')"
  shows "as_ok as' \<and> (\<forall>x. slot_frame as' x = slot_frame as x) \<and> loaded as' = loaded as"
proof (cases "as_ready as")
  case True
  then show ?thesis using as_define_region_ready [OF ok True va] res ok by auto
next
  case False
  have so: "seg_ok (as_seg as t)" for t by (rule as_okD(1) [OF ok])
  have nf: "slot_frame as x = None" for x by (rule as_okD(6) [OF ok False])
  note inv = slot_frame_none_tables [OF nf]
  obtain v n where v: "v = va - va mod PAGE_SIZE" "n = region_pages va sz" by blast
  have vn: "v < 2 ^ 32" "PAGE_SIZE dvd v" "n < 2 ^ 20" using va region_pages_less by (simp_all add: v)
  from va res show ?thesis
  proof (cases rule: as_define_region_cases)
    case (code pt)
    note code = code [folded v]
    have "slot_frame as' x = None" for x
      using code(5) inv [of DATA] inv [of STACK]
      by (intro slot_frame_none) (auto simp: code(6) as_seg_def split: segment_t.splits)
    then show ?thesis using nf seg_ok_new [OF code(3,4) vn(3,1,2)] so [of DATA] so [of STACK] ok
      by (auto simp: as_ok_def all_segment_t code(6))
  next
    case (data pt)
    note data = data [folded v]
    have "slot_frame as' x = None" for x
      using data(5) inv [of CODE] inv [of STACK]
      by (intro slot_frame_none) (auto simp: data(6) as_seg_def split: segment_t.splits)
    then show ?thesis using nf seg_ok_new [OF data(3,4) vn(3,1,2)] so [of CODE] so [of STACK] ok
      by (auto simp: as_ok_def all_segment_t data(6))
  next
    case none then show ?thesis using ok by simp
  qed
qed

lemma loaded_simps:
  "as_seg (as\<lparr>loaded := b\<rparr>) = as_seg as" "as_segment (as\<lparr>loaded := b\<rparr>) = as_segment as"
  "slot_of (as\<lparr>loaded := b\<rparr>) = slot_of as" "slot_frame (as\<lparr>loaded := b\<rparr>) = slot_frame as"
  "frame_at (as\<lparr>loaded := b\<rparr>) = frame_at as" "as_ready (as\<lparr>loaded := b\<rparr>) = as_ready as"
proof -
  show s: "as_seg (as\<lparr>loaded := b\<rparr>) = as_seg as" by (simp add: fun_eq_iff as_seg_def split: segment_t.split)
  show "as_segment (as\<lparr>loaded := b\<rparr>) = as_segment as" by (simp add: fun_eq_iff as_segment_def)
  then show o: "slot_of (as\<lparr>loaded := b\<rparr>) = slot_of as" by (simp add: fun_eq_iff slot_of_def s)
  show f: "slot_frame (as\<lparr>loaded := b\<rparr>) = slot_frame as" by (simp add: fun_eq_iff slot_frame_def s)
  show "frame_at (as\<lparr>loaded := b\<rparr>) = frame_at as" by (simp add: fun_eq_iff frame_at_def o f)
  show "as_ready (as\<lparr>loaded := b\<rparr>) = as_ready as" by (simp add: as_ready_def)
qed

lemma as_complete_load_ok:
  assumes "as_ok as"
  shows "as_ok (as\<lparr>loaded := True\<rparr>)"
  using assms by (simp add: as_ok_def loaded_simps)

subsection \<open>Properties\<close>

text \<open>The regions of a program, defined one after the other as \<open>load_elf\<close> does.\<close>

fun as_define_regions :: "(pte kmem \<times> nat \<times> nat) list \<Rightarrow> addrspace \<Rightarrow> addrspace option" where
  "as_define_regions [] as = Some as"
| "as_define_regions ((km, va, sz) # rs) as = do {
     (r, as) \<leftarrow> as_define_region km as va sz;
     case r of Inl e \<Rightarrow> Some as | Inr _ \<Rightarrow> as_define_regions rs as }"

lemma as_define_regions_ok:
  assumes "as_ok as" "as_define_regions rs as = Some as'" "\<forall>(km, va, sz) \<in> set rs. va < 2 ^ 32"
  shows "as_ok as' \<and> (\<forall>x. slot_frame as' x = slot_frame as x)"
  using assms
proof (induction rs as rule: as_define_regions.induct)
  case (2 km va sz rs as)
  obtain r a where a: "as_define_region km as va sz = Some (r, a)" using "2.prems"(2) by (auto simp: bind_eq_Some_conv)
  have v: "va < 2 ^ 32" using "2.prems"(3) by simp
  have ok: "as_ok a" "\<forall>x. slot_frame a x = slot_frame as x" using as_define_region_ok [OF "2.prems"(1) v a] by auto
  show ?case
  proof (cases r)
    case (Inl e) then show ?thesis using "2.prems"(2) a ok by simp
  next
    case (Inr u)
    then have "as_define_regions rs a = Some as'" using "2.prems"(2) a by simp
    then have "as_ok as' \<and> (\<forall>x. slot_frame as' x = slot_frame a x)"
      using "2.IH" [OF a refl Inr ok(1)] "2.prems"(3) by simp
    then show ?thesis using ok(2) by simp
  qed
qed simp

text \<open>
  C28. Address spaces are well formed. Whatever regions an executable asks for, with any outcome of
  \<open>kmalloc\<close> that does not panic, the address space that \<open>as_create\<close> and \<open>as_define_region\<close>
  build has page-aligned segments, page tables with exactly one entry per page, no page loaded
  yet, and for every address that \<open>vm_fault\<close> finds in a segment the index that
  \<open>segment_lookup\<close> computes is inside that segment's page table.
\<close>

theorem address_space_formed:
  assumes "as_create kas kpt = Some (Some as)" "as_define_regions rs as = Some as'"
    and "\<forall>(km, va, sz) \<in> set rs. va < 2 ^ 32"
  shows "as_ok as' \<and> (\<forall>x. slot_frame as' x = None) \<and>
    (\<forall>va t. as_segment as' va = Some t \<longrightarrow>
       (\<exists>pt. ptable (as_seg as' t) = Some pt \<and> length pt = npages (as_seg as' t) \<and>
          seg_index (as_seg as' t) va < length pt))"
proof -
  note c = as_create_ok [OF assms(1)]
  have ok: "as_ok as'" "\<forall>x. slot_frame as' x = None" using as_define_regions_ok [OF c(1) assms(2,3)] c(3) by simp_all
  have "\<exists>pt. ptable (as_seg as' t) = Some pt \<and> length pt = npages (as_seg as' t) \<and> seg_index (as_seg as' t) va < length pt"
    if s: "as_segment as' va = Some t" for va t
  proof -
    have so: "seg_ok (as_seg as' t)" by (rule as_okD(1) [OF ok(1)])
    have n: "seg_index (as_seg as' t) va < npages (as_seg as' t)" by (rule seg_covers_iff(3) [OF so as_segmentD [OF s]])
    then obtain pt where pt: "ptable (as_seg as' t) = Some pt" using seg_okD(5) [OF so] by (cases "ptable (as_seg as' t)") auto
    then show ?thesis using n seg_okD(4) [OF so pt] by simp
  qed
  then show ?thesis using ok by blast
qed

text \<open>Witness: a code region and a data region.\<close>

theorem address_space_formed_witness:
  "\<exists>as'. as_define_regions [(Some (\<lambda>_. \<lparr> pt_valid = 1, pt_dirty = 1, pt_paddr = 5 \<rparr>), 4194304, 8192)]
      (the (the (as_create (Some (\<lambda>_. ())) (Some (\<lambda>_. \<lparr> pt_valid = 1, pt_dirty = 1, pt_paddr = 5 \<rparr>))))) = Some as' \<and> as_ok as'"
proof -
  let ?p = "\<lparr> pt_valid = 1, pt_dirty = 1, pt_paddr = 5 \<rparr>"
  obtain as where as: "as_create (Some (\<lambda>_. ())) (Some (\<lambda>_. ?p)) = Some (Some as)" "as_vbase1 as = 0" "vbase (as_code as) = 0"
    by (simp add: as_create_def segment_create_def segment_prepare_def STACKPAGES_def Let_def)
  obtain as' where as': "as_define_regions [(Some (\<lambda>_. ?p), 4194304, 8192)] as = Some as'"
    using as(2,3) by (simp add: as_define_region_eq segment_prepare_def region_pages_def wrap32_def PAGE_SIZE_def)
  then have "as_ok as'" using address_space_formed [OF as(1) as'] by simp
  then show ?thesis using as(1) as' by simp
qed

text \<open>
  C24. \<open>as_copy\<close> never copies an address space: it returns \<open>ENOMEM\<close> when the structure cannot be
  allocated and otherwise always fails an assertion, because \<open>as_prepare_load\<close> no longer sets
  \<open>as_pbase1\<close>. So every \<open>fork\<close> that gets as far as \<open>as_copy\<close> with memory available panics.
\<close>

theorem as_copy_panics:
  "as_copy kas kpt old vm = (if kas = None then Some (Inl ENOMEM, vm) else None)"
proof (cases kas)
  case None then show ?thesis by (simp add: as_copy_def as_create_def)
next
  case (Some u)
  show ?thesis
  proof (cases "as_create kas kpt")
    case None then show ?thesis using Some by (simp add: as_copy_def)
  next
    case c: (Some r)
    then obtain a where "r = Some a" "as_pbase1 a = 0"
      using Some by (auto simp: as_create_def bind_eq_Some_conv)
    then show ?thesis using c Some by (simp add: as_copy_def as_prepare_load_def Let_def)
  qed
qed

text \<open>
  The sum in \<open>ram_stealmem\<close> wraps: a request for 1048575 pages succeeds and moves the free
  pointer back by a page, so that the next page handed out is one that is already in use.
\<close>

lemma getppages_rewinds:
  assumes "ram_ok r" "PAGE_SIZE < firstpaddr r"
  shows "getppages 1048575 r = Some (firstpaddr r, r\<lparr>firstpaddr := firstpaddr r - PAGE_SIZE\<rparr>)"
proof -
  have "wrap32 (firstpaddr r + 4294963200) = firstpaddr r - 4096"
    using assms ram_okD [OF assms(1)] by (simp add: wrap32_def mod_if PAGE_SIZE_def)
  then show ?thesis using ram_okD [OF assms(1)] assms(2)
    by (simp add: getppages_def ram_stealmem_def Let_def PAGE_SIZE_def wrap32_def)
qed

end
