(* ===== verification/Vm_Fault.thy ===== *)
theory Vm_Fault
  imports Vm_Addrspace
begin

section \<open>Page faults and the TLB: \<open>kern/vm/vm.c\<close>\<close>

text \<open>
  \<open>vm_fault\<close> with the TLB, the part of \<open>mips_trap\<close> (\<open>kern/arch/mips/locore/trap.c\<close>) that
  handles exceptions other than interrupts and system calls, and what a load or a store of a
  process does on the machine: it is retried until the TLB has an entry that permits it or the
  process ends. Each processor has its own TLB; this is the view of one processor.
\<close>

subsection \<open>The code\<close>

definition VM_FAULT_READ :: nat where "VM_FAULT_READ = 0"
definition VM_FAULT_WRITE :: nat where "VM_FAULT_WRITE = 1"
definition VM_FAULT_READONLY :: nat where "VM_FAULT_READONLY = 2"

definition NUM_TLB :: nat where "NUM_TLB = 64"
definition TLBLO_DIRTY :: nat where "TLBLO_DIRTY = 1024"
definition TLBLO_VALID :: nat where "TLBLO_VALID = 512"

definition TLBHI_INVALID :: "nat \<Rightarrow> nat" where
  "TLBHI_INVALID entryno = wrap32 (push_bit 12 (524288 + entryno))"

lemmas vm_fault_types = VM_FAULT_READ_def VM_FAULT_WRITE_def VM_FAULT_READONLY_def

definition tlb_get_rr_victim :: "vmstate \<Rightarrow> nat \<times> vmstate" where
  "tlb_get_rr_victim vm = (next_victim vm, vm\<lparr>next_victim := wrap32 (next_victim vm + 1) mod NUM_TLB\<rparr>)"

definition tlb_write :: "nat \<Rightarrow> nat \<Rightarrow> nat \<Rightarrow> vmstate \<Rightarrow> vmstate option" where
  "tlb_write ehi elo index vm = do {
     t \<leftarrow> slot_set (vm_tlb vm) index (ehi, elo);
     Some (vm\<lparr>vm_tlb := t\<rparr>) }"

text \<open>\<open>has_as\<close>: the current process has an address space.\<close>

fun tlb_invalidate :: "nat \<Rightarrow> vmstate \<Rightarrow> vmstate option" where
  "tlb_invalidate 0 vm = Some vm"
| "tlb_invalidate (Suc i) vm = do {
     vm \<leftarrow> tlb_invalidate i vm;
     tlb_write (TLBHI_INVALID i) 0 i vm }"

definition as_activate :: "bool \<Rightarrow> vmstate \<Rightarrow> vmstate option" where
  "as_activate has_as vm =
     (if \<not> has_as then Some vm
      else do {
        vm \<leftarrow> tlb_invalidate NUM_TLB vm;
        vm_stat VMSTAT_TLB_INVALIDATE vm })"

text \<open>The search for an entry that is not valid, from entry \<open>i\<close> on.\<close>

fun tlb_scan :: "nat \<Rightarrow> (nat \<times> nat) list \<Rightarrow> nat option" where
  "tlb_scan i [] = None"
| "tlb_scan i ((ehi, elo) # t) = (if elo AND TLBLO_VALID \<noteq> 0 then tlb_scan (Suc i) t else Some i)"

definition tlb_fill :: "nat \<Rightarrow> nat \<Rightarrow> bool \<Rightarrow> vmstate \<Rightarrow> vmstate option" where
  "tlb_fill faultaddress paddr readonly vm = do {
     kassert (paddr AND PAGE_FRAME = paddr);
     vm \<leftarrow> vm_stat VMSTAT_TLB_FAULT vm;
     let elo = (if readonly then paddr OR TLBLO_VALID else paddr OR TLBLO_DIRTY OR TLBLO_VALID);
     case tlb_scan 0 (take NUM_TLB (vm_tlb vm)) of
       Some i \<Rightarrow> do {
         vm \<leftarrow> tlb_write faultaddress elo i vm;
         vm_stat VMSTAT_TLB_FAULT_FREE vm }
     | None \<Rightarrow> do {
         let (i, vm) = tlb_get_rr_victim vm;
         vm \<leftarrow> tlb_write faultaddress elo i vm;
         vm_stat VMSTAT_TLB_FAULT_REPLACE vm } }"

text \<open>
  The outcome of a call: it returns 0 or an error code, or it ends the process with
  \<open>sys__exit\<close> and does not return.
\<close>

datatype fault_outcome = FaultReturn "unit kresult" | FaultExit int

definition vm_fault ::
    "nat \<Rightarrow> nat \<Rightarrow> addrspace option \<Rightarrow> vmstate \<Rightarrow> (fault_outcome \<times> addrspace option \<times> vmstate) option" where
  "vm_fault faulttype faultaddress curas vm =
     (let fa = faultaddress AND PAGE_FRAME in
      if faulttype = VM_FAULT_READONLY then Some (FaultExit 0, curas, vm)
      else if faulttype \<noteq> VM_FAULT_READ \<and> faulttype \<noteq> VM_FAULT_WRITE
      then Some (FaultReturn (Inl EINVAL), curas, vm)
      else
        let attempting_write = (faulttype = VM_FAULT_WRITE) in
        case curas of
          None \<Rightarrow> Some (FaultReturn (Inl EFAULT), None, vm)
        | Some as \<Rightarrow> do {
            kassert (vbase (as_code as) \<noteq> 0);
            kassert (npages (as_code as) \<noteq> 0);
            kassert (vbase (as_data as) \<noteq> 0);
            kassert (npages (as_data as) \<noteq> 0);
            kassert (vbase (as_stack as) \<noteq> 0);
            kassert (vbase (as_code as) AND PAGE_FRAME = vbase (as_code as));
            kassert (vbase (as_code as) AND PAGE_FRAME = vbase (as_code as));
            kassert (vbase (as_stack as) AND PAGE_FRAME = vbase (as_stack as));
            let vbase1 = vbase (as_code as);
            let vtop1 = wrap32 (vbase1 + npages (as_code as) * PAGE_SIZE);
            let vbase2 = vbase (as_data as);
            let vtop2 = wrap32 (vbase2 + npages (as_data as) * PAGE_SIZE);
            let stackbase = USERSTACK - STACKPAGES * PAGE_SIZE;
            let stacktop = USERSTACK;
            if seg_covers vbase1 vtop1 fa then do {
              (paddr, seg, vm) \<leftarrow> segment_lookup (as_code as) fa attempting_write vm;
              vm \<leftarrow> tlb_fill fa paddr (loaded as) vm;
              Some (FaultReturn (Inr ()), Some (as\<lparr>as_code := seg\<rparr>), vm) }
            else if seg_covers vbase2 vtop2 fa then do {
              (paddr, seg, vm) \<leftarrow> segment_lookup (as_data as) fa attempting_write vm;
              vm \<leftarrow> tlb_fill fa paddr False vm;
              Some (FaultReturn (Inr ()), Some (as\<lparr>as_data := seg\<rparr>), vm) }
            else if seg_covers stackbase stacktop fa then do {
              (paddr, seg, vm) \<leftarrow> segment_lookup (as_stack as) fa attempting_write vm;
              vm \<leftarrow> tlb_fill fa paddr False vm;
              Some (FaultReturn (Inr ()), Some (as\<lparr>as_stack := seg\<rparr>), vm) }
            else Some (FaultReturn (Inl EFAULT), Some as, vm) })"

subsection \<open>Exceptions: \<open>trap.c\<close>\<close>

definition EX_MOD :: nat where "EX_MOD = 1"
definition EX_TLBL :: nat where "EX_TLBL = 2"
definition EX_TLBS :: nat where "EX_TLBS = 3"
definition EX_ADEL :: nat where "EX_ADEL = 4"
definition EX_ADES :: nat where "EX_ADES = 5"
definition EX_IBE :: nat where "EX_IBE = 6"
definition EX_DBE :: nat where "EX_DBE = 7"
definition EX_SYS :: nat where "EX_SYS = 8"
definition EX_IRQ :: nat where "EX_IRQ = 0"
definition NTRAPCODES :: nat where "NTRAPCODES = 13"

lemmas trap_codes = EX_MOD_def EX_TLBL_def EX_TLBS_def EX_ADEL_def EX_ADES_def EX_IBE_def EX_DBE_def
  EX_SYS_def EX_IRQ_def NTRAPCODES_def

text \<open>\<open>kill_curthread\<close> returns the exit code it passes to \<open>sys__exit\<close>.\<close>

definition kill_curthread :: "nat \<Rightarrow> int option" where
  "kill_curthread code = do {
     kassert (code < NTRAPCODES);
     kassert (code \<notin> {EX_IRQ, EX_IBE, EX_DBE, EX_SYS});
     Some (int code) }"

text \<open>
  What becomes of the instruction that trapped: it is retried, the process exits, or the
  kernel continues at \<open>tm_badfaultfunc\<close>.
\<close>

datatype trap_outcome = TrapRetry | TrapExit int | TrapBadfault

definition mips_trap_fault ::
    "nat \<Rightarrow> nat \<Rightarrow> bool \<Rightarrow> bool \<Rightarrow> addrspace option \<Rightarrow> vmstate
     \<Rightarrow> (trap_outcome \<times> addrspace option \<times> vmstate) option" where
  "mips_trap_fault code va iskern badfaultfunc curas vm = do {
     (done, curas, vm) \<leftarrow>
       (if code = EX_MOD then vm_fault VM_FAULT_READONLY va curas vm
        else if code = EX_TLBL then vm_fault VM_FAULT_READ va curas vm
        else if code = EX_TLBS then vm_fault VM_FAULT_WRITE va curas vm
        else if code = EX_IBE \<or> code = EX_DBE then panic
        else Some (FaultReturn (Inl EFAULT), curas, vm));
     case done of
       FaultExit c \<Rightarrow> Some (TrapExit c, curas, vm)
     | FaultReturn (Inr _) \<Rightarrow> Some (TrapRetry, curas, vm)
     | FaultReturn (Inl _) \<Rightarrow>
         if \<not> iskern then do {
           c \<leftarrow> kill_curthread code;
           Some (TrapExit c, curas, vm) }
         else if badfaultfunc then Some (TrapBadfault, curas, vm)
         else panic }"

subsection \<open>Loads and stores\<close>

text \<open>
  The TLB entry that the processor finds for an address, and an access of a process (or of
  \<open>copyin\<close> and \<open>copyout\<close>, with \<open>tm_badfaultfunc\<close> set) to an address: an address of the
  kernel is an address error, a missing or invalid entry is a TLB miss, a store through an
  entry without the dirty bit is a TLB modification.
\<close>

datatype vm_access = Load | Store u8

datatype access_outcome = Val u8 | Exited int | Badfault

definition tlb_match :: "nat \<Rightarrow> (nat \<times> nat) list \<Rightarrow> nat option" where
  "tlb_match va t = map_option snd (find (\<lambda>e. fst e AND PAGE_FRAME = va AND PAGE_FRAME) t)"

definition access_trap :: "vm_access \<Rightarrow> nat \<Rightarrow> vmstate \<Rightarrow> nat option" where
  "access_trap a va vm =
     (if va \<ge> USERSPACETOP then Some (if a = Load then EX_ADEL else EX_ADES)
      else case tlb_match va (vm_tlb vm) of
        None \<Rightarrow> Some (if a = Load then EX_TLBL else EX_TLBS)
      | Some elo \<Rightarrow>
          if elo AND TLBLO_VALID = 0 then Some (if a = Load then EX_TLBL else EX_TLBS)
          else if a \<noteq> Load \<and> elo AND TLBLO_DIRTY = 0 then Some EX_MOD
          else None)"

definition phys_addr :: "nat \<Rightarrow> vmstate \<Rightarrow> nat" where
  "phys_addr va vm = (the (tlb_match va (vm_tlb vm)) AND PAGE_FRAME) + va mod PAGE_SIZE"

definition access_mem :: "vm_access \<Rightarrow> nat \<Rightarrow> vmstate \<Rightarrow> u8 \<times> vmstate" where
  "access_mem a pa vm =
     (case a of
        Load \<Rightarrow> (vm_mem vm pa, vm)
      | Store b \<Rightarrow> (b, vm\<lparr>vm_mem := (vm_mem vm)(pa := b)\<rparr>))"

partial_function (option) user_access ::
    "bool \<Rightarrow> vm_access \<Rightarrow> nat \<Rightarrow> addrspace option \<Rightarrow> vmstate
     \<Rightarrow> (access_outcome \<times> addrspace option \<times> vmstate) option" where
  "user_access iskern a va curas vm =
     (case access_trap a va vm of
        None \<Rightarrow> (let (b, vm) = access_mem a (phys_addr va vm) vm in Some (Val b, curas, vm))
      | Some code \<Rightarrow> do {
          (out, curas, vm) \<leftarrow> mips_trap_fault code va iskern iskern curas vm;
          case out of
            TrapRetry \<Rightarrow> user_access iskern a va curas vm
          | TrapExit c \<Rightarrow> Some (Exited c, curas, vm)
          | TrapBadfault \<Rightarrow> Some (Badfault, curas, vm) })"

declare user_access.simps [code]

subsection \<open>The TLB\<close>

definition page_of :: "nat \<Rightarrow> nat" where
  "page_of va = va - va mod PAGE_SIZE"

lemma page_of_and: "va < 2 ^ 32 \<Longrightarrow> va AND PAGE_FRAME = page_of va"
  by (simp add: and_PAGE_FRAME page_of_def)

lemma page_of_dvd [simp]: "PAGE_SIZE dvd page_of va"
  by (simp add: page_of_def)

lemma page_of_id: "PAGE_SIZE dvd va \<Longrightarrow> page_of va = va"
  by (simp add: page_of_def dvd_imp_mod_0)

lemma page_of_le: "page_of va \<le> va"
  by (simp add: page_of_def)

lemma page_of_off: "page_of va + va mod PAGE_SIZE = va"
  by (simp add: page_of_def)

lemma off_less: "va mod PAGE_SIZE < PAGE_SIZE"
  by (simp add: PAGE_SIZE_def)

lemma frame_off_eq:
  assumes "PAGE_SIZE dvd a" "PAGE_SIZE dvd b" "x < PAGE_SIZE" "y < PAGE_SIZE" "a + x = b + y"
  shows "a = b" "x = y"
proof -
  obtain j k where "a = PAGE_SIZE * j" "b = PAGE_SIZE * k" using assms(1,2) by (auto elim!: dvdE)
  then have "(a + x) div PAGE_SIZE = j" "(b + y) div PAGE_SIZE = k" "(a + x) mod PAGE_SIZE = x" "(b + y) mod PAGE_SIZE = y"
    using assms(3,4) by (simp_all add: PAGE_SIZE_def)
  then show "a = b" "x = y" using assms(5) \<open>a = PAGE_SIZE * j\<close> \<open>b = PAGE_SIZE * k\<close> by auto
qed

definition mk_elo :: "nat \<Rightarrow> bool \<Rightarrow> nat" where
  "mk_elo pa ro = (if ro then pa OR TLBLO_VALID else pa OR TLBLO_DIRTY OR TLBLO_VALID)"

lemma and_VALID: "(x :: nat) AND TLBLO_VALID = 0 \<longleftrightarrow> \<not> bit x 9"
  using and_exp_eq_0_iff_not_bit [of x 9] by (simp add: TLBLO_VALID_def)

lemma and_DIRTY: "(x :: nat) AND TLBLO_DIRTY = 0 \<longleftrightarrow> \<not> bit x 10"
  using and_exp_eq_0_iff_not_bit [of x 10] by (simp add: TLBLO_DIRTY_def)

lemma bit_VALID: "bit TLBLO_VALID i \<longleftrightarrow> i = 9"
  using bit_exp_iff [of 9 i, where 'a = nat] by (simp add: TLBLO_VALID_def)

lemma bit_DIRTY: "bit TLBLO_DIRTY i \<longleftrightarrow> i = 10"
  using bit_exp_iff [of 10 i, where 'a = nat] by (simp add: TLBLO_DIRTY_def)

lemma mk_elo_VALID: "mk_elo pa ro AND TLBLO_VALID \<noteq> 0"
  by (simp only: and_VALID) (simp add: mk_elo_def bit_or_iff bit_VALID)

lemma mk_elo_DIRTY: "PAGE_SIZE dvd pa \<Longrightarrow> mk_elo pa ro AND TLBLO_DIRTY = 0 \<longleftrightarrow> ro"
  by (simp only: and_DIRTY) (simp add: mk_elo_def bit_or_iff bit_VALID bit_DIRTY bit_aligned)

lemma mk_elo_frame:
  assumes "PAGE_SIZE dvd pa" "pa < 2 ^ 32"
  shows "mk_elo pa ro AND PAGE_FRAME = pa"
proof -
  have f: "bit PAGE_FRAME i \<longleftrightarrow> 12 \<le> i \<and> i < 32" for i
  proof -
    have pf: "PAGE_FRAME = push_bit 12 (mask 20)" by (simp add: PAGE_FRAME_def push_bit_nat_def mask_eq_exp_minus_1)
    show ?thesis unfolding pf by (auto simp: bit_simps)
  qed
  have hi: "\<not> bit pa i" if "32 \<le> i" for i
  proof -
    have "take_bit 32 pa = pa" using assms(2) by (simp add: take_bit_nat_eq_self_iff)
    then show ?thesis using that by (metis bit_take_bit_iff not_le)
  qed
  have "bit (mk_elo pa ro AND PAGE_FRAME) i = bit pa i" for i
    using bit_aligned [OF assms(1), of i] hi [of i]
    by (cases "i < 12"; cases "i < 32") (auto simp: mk_elo_def bit_and_iff bit_or_iff f bit_VALID bit_DIRTY)
  then show ?thesis by (simp add: bit_eq_iff)
qed

lemma TLBHI_INVALID_eq: "i < NUM_TLB \<Longrightarrow> TLBHI_INVALID i = USERSPACETOP + i * PAGE_SIZE"
  by (simp add: TLBHI_INVALID_def NUM_TLB_def push_bit_nat_def vm_consts)

lemma tlb_invalidate_eq:
  "n \<le> length (vm_tlb vm) \<Longrightarrow>
   tlb_invalidate n vm = Some (vm\<lparr>vm_tlb := map (\<lambda>i. (TLBHI_INVALID i, 0)) [0..<n] @ drop n (vm_tlb vm)\<rparr>)"
proof (induction n)
  case 0 then show ?case by simp
next
  case (Suc n)
  let ?xs = "map (\<lambda>i. (TLBHI_INVALID i, 0 :: nat)) [0..<n]"
  have "(?xs @ drop n (vm_tlb vm))[n := (TLBHI_INVALID n, 0)] = ?xs @ (TLBHI_INVALID n, 0) # drop (Suc n) (vm_tlb vm)"
    using Suc.prems by (simp add: list_update_append Cons_nth_drop_Suc [symmetric])
  then show ?case using Suc by (simp add: tlb_write_def)
qed

lemma tlb_scan_Some:
  "tlb_scan i t = Some k \<Longrightarrow> i \<le> k \<and> k - i < length t \<and> snd (t ! (k - i)) AND TLBLO_VALID = 0"
proof (induction i t arbitrary: k rule: tlb_scan.induct)
  case (2 i ehi elo t)
  show ?case
  proof (cases "elo AND TLBLO_VALID \<noteq> 0")
    case True
    then have "Suc i \<le> k \<and> k - Suc i < length t \<and> snd (t ! (k - Suc i)) AND TLBLO_VALID = 0" using 2 by simp
    moreover from this have "k - i = Suc (k - Suc i)" by linarith
    ultimately show ?thesis by simp
  next
    case False then show ?thesis using 2(2) by auto
  qed
qed simp

subsection \<open>Counters\<close>

text \<open>\<open>vmstats_ok\<close>: every fault counted is counted as one with a free entry or with a replaced one.\<close>

definition stat :: "nat \<Rightarrow> vmstate \<Rightarrow> nat" where
  "stat i vm = stats_counts (vm_stats vm) ! i"

definition vmstats_ready :: "vmstate \<Rightarrow> bool" where
  "vmstats_ready vm \<longleftrightarrow> stats_lock (vm_stats vm) \<and> length (stats_counts (vm_stats vm)) = VMSTAT_COUNT"

definition vmstats_ok :: "vmstate \<Rightarrow> bool" where
  "vmstats_ok vm \<longleftrightarrow> vmstats_ready vm \<and> stat VMSTAT_TLB_FAULT vm =
     wrap32 (stat VMSTAT_TLB_FAULT_FREE vm + stat VMSTAT_TLB_FAULT_REPLACE vm)"

lemma vm_stat_inc:
  assumes "vmstats_ready vm" "i < VMSTAT_COUNT"
  obtains st where "vm_stat i vm = Some (vm\<lparr>vm_stats := st\<rparr>)"
    "vmstats_ready (vm\<lparr>vm_stats := st\<rparr>)"
    "\<And>j. j < VMSTAT_COUNT \<Longrightarrow> stat j (vm\<lparr>vm_stats := st\<rparr>) = (if j = i then wrap32 (stat i vm + 1) else stat j vm)"
  using assms by (auto simp: vm_stat_def vmstats_inc_def vmstats_inc_unlocked_def vmstats_ready_def stat_def nth_list_update)

lemma stat_simps [simp]:
  "stat i (vm\<lparr>vm_tlb := t\<rparr>) = stat i vm" "stat i (vm\<lparr>vm_ram := r\<rparr>) = stat i vm"
  "stat i (vm\<lparr>next_victim := v\<rparr>) = stat i vm" "stat i (vm\<lparr>vm_mem := m\<rparr>) = stat i vm"
  "vmstats_ready (vm\<lparr>vm_tlb := t\<rparr>) = vmstats_ready vm" "vmstats_ready (vm\<lparr>vm_ram := r\<rparr>) = vmstats_ready vm"
  "vmstats_ready (vm\<lparr>next_victim := v\<rparr>) = vmstats_ready vm" "vmstats_ready (vm\<lparr>vm_mem := m\<rparr>) = vmstats_ready vm"
  "vmstats_ok (vm\<lparr>vm_tlb := t\<rparr>) = vmstats_ok vm" "vmstats_ok (vm\<lparr>vm_ram := r\<rparr>) = vmstats_ok vm"
  "vmstats_ok (vm\<lparr>next_victim := v\<rparr>) = vmstats_ok vm" "vmstats_ok (vm\<lparr>vm_mem := m\<rparr>) = vmstats_ok vm"
  by (simp_all add: stat_def vmstats_ready_def vmstats_ok_def)

lemma vm_stat_ok:
  assumes "vmstats_ok vm" "i < VMSTAT_COUNT" "VMSTAT_TLB_FAULT_REPLACE < i"
  obtains st where "vm_stat i vm = Some (vm\<lparr>vm_stats := st\<rparr>)" "vmstats_ok (vm\<lparr>vm_stats := st\<rparr>)"
    "stat VMSTAT_TLB_FAULT (vm\<lparr>vm_stats := st\<rparr>) = stat VMSTAT_TLB_FAULT vm"
proof -
  have rd: "vmstats_ready vm" using assms(1) by (simp add: vmstats_ok_def)
  obtain st where st: "vm_stat i vm = Some (vm\<lparr>vm_stats := st\<rparr>)" "vmstats_ready (vm\<lparr>vm_stats := st\<rparr>)"
    and *: "\<And>j. j < VMSTAT_COUNT \<Longrightarrow> stat j (vm\<lparr>vm_stats := st\<rparr>) = (if j = i then wrap32 (stat i vm + 1) else stat j vm)"
    using vm_stat_inc [OF rd assms(2)] by blast
  have eq: "stat j (vm\<lparr>vm_stats := st\<rparr>) = stat j vm" if "j \<le> VMSTAT_TLB_FAULT_REPLACE" for j
    using * [of j] that assms(3) by (simp add: vmstat_ids)
  show thesis
  proof (rule that [OF st(1)])
    show "vmstats_ok (vm\<lparr>vm_stats := st\<rparr>)"
      using st(2) eq [of VMSTAT_TLB_FAULT] eq [of VMSTAT_TLB_FAULT_FREE] eq [of VMSTAT_TLB_FAULT_REPLACE] assms(1)
      by (simp add: vmstats_ok_def) (simp add: vmstat_ids)
    show "stat VMSTAT_TLB_FAULT (vm\<lparr>vm_stats := st\<rparr>) = stat VMSTAT_TLB_FAULT vm"
      by (rule eq) (simp add: vmstat_ids)
  qed
qed

text \<open>Two counters are incremented by one fault, the total and one of its two parts.\<close>

lemma vm_stat_pair:
  assumes ok: "vmstats_ok vm" and i: "i = VMSTAT_TLB_FAULT_FREE \<or> i = VMSTAT_TLB_FAULT_REPLACE"
  obtains s1 s2 where "vm_stat VMSTAT_TLB_FAULT vm = Some (vm\<lparr>vm_stats := s1\<rparr>)"
    "\<forall>t v. vm_stat i (vm\<lparr>vm_stats := s1, vm_tlb := t, next_victim := v\<rparr>)
       = Some (vm\<lparr>vm_stats := s2, vm_tlb := t, next_victim := v\<rparr>)"
    "vmstats_ok (vm\<lparr>vm_stats := s2\<rparr>)"
proof -
  have rd: "vmstats_ready vm" and eq: "stat VMSTAT_TLB_FAULT vm = wrap32 (stat VMSTAT_TLB_FAULT_FREE vm + stat VMSTAT_TLB_FAULT_REPLACE vm)"
    using ok by (simp_all add: vmstats_ok_def)
  have c: "VMSTAT_TLB_FAULT < VMSTAT_COUNT" "i < VMSTAT_COUNT" using i by (auto simp: vmstat_ids)
  obtain s1 where s1: "vm_stat VMSTAT_TLB_FAULT vm = Some (vm\<lparr>vm_stats := s1\<rparr>)" "vmstats_ready (vm\<lparr>vm_stats := s1\<rparr>)"
    and e1: "\<And>j. j < VMSTAT_COUNT \<Longrightarrow> stat j (vm\<lparr>vm_stats := s1\<rparr>) = (if j = VMSTAT_TLB_FAULT then wrap32 (stat VMSTAT_TLB_FAULT vm + 1) else stat j vm)"
    using vm_stat_inc [OF rd c(1)] by blast
  obtain s2 where s2: "vm_stat i (vm\<lparr>vm_stats := s1\<rparr>) = Some (vm\<lparr>vm_stats := s2\<rparr>)" "vmstats_ready (vm\<lparr>vm_stats := s2\<rparr>)"
    and e2: "\<And>j. j < VMSTAT_COUNT \<Longrightarrow> stat j (vm\<lparr>vm_stats := s2\<rparr>) = (if j = i then wrap32 (stat i (vm\<lparr>vm_stats := s1\<rparr>) + 1) else stat j (vm\<lparr>vm_stats := s1\<rparr>))"
    using vm_stat_inc [OF s1(2) c(2)] by auto
  have ct: "vm_stat i (vm\<lparr>vm_stats := s1, vm_tlb := t, next_victim := v\<rparr>) = Some (vm\<lparr>vm_stats := s2, vm_tlb := t, next_victim := v\<rparr>)" for t v
  proof -
    obtain y where "vmstats_inc i s1 = Some y" "vm\<lparr>vm_stats := y\<rparr> = vm\<lparr>vm_stats := s2\<rparr>"
      using s2(1) by (auto simp: vm_stat_def bind_eq_Some_conv)
    moreover from this have "y = s2" by (metis vmstate.simps(2) vmstate.surjective vmstate.update_convs(2))
    ultimately show ?thesis by (simp add: vm_stat_def)
  qed
  show thesis
  proof (rule that [OF s1(1)])
    show "\<forall>t v. vm_stat i (vm\<lparr>vm_stats := s1, vm_tlb := t, next_victim := v\<rparr>) = Some (vm\<lparr>vm_stats := s2, vm_tlb := t, next_victim := v\<rparr>)"
      using ct by blast
    have "wrap32 (wrap32 (a + b) + 1) = wrap32 (wrap32 (a + 1) + b)" "wrap32 (wrap32 (a + b) + 1) = wrap32 (a + wrap32 (b + 1))" for a b
      by (simp_all add: wrap32_def mod_simps ac_simps)
    then show "vmstats_ok (vm\<lparr>vm_stats := s2\<rparr>)" using s2(2) i eq
      by (auto simp: vmstats_ok_def e1 e2 vmstat_ids)
  qed
qed

subsection \<open>One page fault\<close>

text \<open>
  \<open>segment_lookup\<close> hands back the frame of the page: the one its entry holds, or the first
  free one, which the entry then holds.
\<close>

definition pte_same :: "pte \<Rightarrow> pte \<Rightarrow> bool" where
  "pte_same p q \<longleftrightarrow> pt_valid p = pt_valid q \<and> pt_paddr p = pt_paddr q"

lemma segment_lookup_hit:
  assumes g: "seg_ok g" "seg_covers (vbase g) (seg_top g) va" "PAGE_SIZE dvd va" "va < 2 ^ 32"
    and pt: "ptable g = Some pt" "pt_valid (pt ! seg_index g va) \<noteq> 0" "pt_paddr (pt ! seg_index g va) < 2 ^ 32"
    and st: "vmstats_ok vm"
  obtains p s where "segment_lookup g va w vm =
      Some (pt_paddr p, g\<lparr>ptable := Some (pt[seg_index g va := p])\<rparr>, vm\<lparr>vm_stats := s\<rparr>)"
    "pte_same p (pt ! seg_index g va)" "vmstats_ok (vm\<lparr>vm_stats := s\<rparr>)"
proof -
  let ?n = "seg_index g va"
  note c = seg_covers_iff [OF g(1,2)]
  have n: "sub32 va (vbase g) div PAGE_SIZE = ?n" "?n < length pt"
    using c g(4) seg_okD(4) [OF g(1) pt(1)] by (simp_all add: sub32_le seg_index_def)
  have "PAGE_SIZE dvd va - vbase g" using g(3) seg_okD(3) [OF g(1)] by (rule dvd_diff_nat)
  then have o: "sub32 va (vbase g) mod PAGE_SIZE = 0" using c g(4) by (simp add: sub32_le)
  obtain s where s: "vm_stat VMSTAT_TLB_RELOAD vm = Some (vm\<lparr>vm_stats := s\<rparr>)" "vmstats_ok (vm\<lparr>vm_stats := s\<rparr>)"
    using vm_stat_ok [OF st, of VMSTAT_TLB_RELOAD] by (auto simp: vmstat_ids)
  define p where "p = (if w then (pt ! ?n)\<lparr>pt_dirty := 1\<rparr> else pt ! ?n)"
  have p: "pte_same p (pt ! ?n)" by (simp add: p_def pte_same_def)
  have "segment_lookup g va w vm = Some (pt_paddr p, g\<lparr>ptable := Some (pt[?n := p])\<rparr>, vm\<lparr>vm_stats := s\<rparr>)"
    using n o pt s(1) p by (simp add: segment_lookup_def pte_reload_def pte_same_def p_def [symmetric] Let_def)
  from that [OF this p s(2)] show thesis .
qed

lemma segment_lookup_miss:
  assumes g: "seg_ok g" "seg_covers (vbase g) (seg_top g) va" "va < 2 ^ 32"
    and pt: "ptable g = Some pt" "pt_valid (pt ! seg_index g va) = 0" and r: "ram_ok (vm_ram vm)"
  shows "segment_lookup g va w vm =
    (if firstpaddr (vm_ram vm) + PAGE_SIZE \<le> lastpaddr (vm_ram vm)
     then Some (firstpaddr (vm_ram vm),
       g\<lparr>ptable := Some (pt[seg_index g va := (if w then (pt ! seg_index g va)\<lparr>pt_dirty := 1\<rparr> else pt ! seg_index g va)
          \<lparr>pt_paddr := firstpaddr (vm_ram vm), pt_valid := 1\<rparr>])\<rparr>,
       vm\<lparr>vm_ram := (vm_ram vm)\<lparr>firstpaddr := firstpaddr (vm_ram vm) + PAGE_SIZE\<rparr>\<rparr>)
     else None)"
proof -
  note c = seg_covers_iff [OF g(1,2)]
  have n: "sub32 va (vbase g) div PAGE_SIZE = seg_index g va" "seg_index g va < length pt"
    using c g(3) seg_okD(4) [OF g(1) pt(1)] by (simp_all add: sub32_le seg_index_def)
  show ?thesis using n pt getppages_one [OF r] by (simp add: segment_lookup_def pte_load_def Let_def)
qed

definition tlb_shape :: "vmstate \<Rightarrow> bool" where
  "tlb_shape vm \<longleftrightarrow> length (vm_tlb vm) = NUM_TLB \<and> next_victim vm < NUM_TLB"

lemma tlb_fill_eq:
  assumes pa: "PAGE_SIZE dvd pa" "pa < 2 ^ 32" and ok: "vmstats_ok vm" "tlb_shape vm"
  obtains k s v where "tlb_fill fa pa ro vm = Some (vm\<lparr>vm_stats := s, vm_tlb := (vm_tlb vm)[k := (fa, mk_elo pa ro)], next_victim := v\<rparr>)"
    "k < NUM_TLB" "v < NUM_TLB" "vmstats_ok (vm\<lparr>vm_stats := s\<rparr>)"
    "snd (vm_tlb vm ! k) AND TLBLO_VALID = 0 \<or> k = next_victim vm"
proof -
  have a: "pa AND PAGE_FRAME = pa" using pa by (simp add: and_PAGE_FRAME dvd_imp_mod_0)
  have len: "length (vm_tlb vm) = NUM_TLB" "next_victim vm < NUM_TLB" using ok(2) by (simp_all add: tlb_shape_def)
  show thesis
  proof (cases "tlb_scan 0 (vm_tlb vm)")
    case (Some k)
    have k: "k < NUM_TLB" "snd (vm_tlb vm ! k) AND TLBLO_VALID = 0" using tlb_scan_Some [OF Some] len by simp_all
    obtain s1 s2 where s1: "vm_stat VMSTAT_TLB_FAULT vm = Some (vm\<lparr>vm_stats := s1\<rparr>)"
      and s2: "\<forall>t v. vm_stat VMSTAT_TLB_FAULT_FREE (vm\<lparr>vm_stats := s1, vm_tlb := t, next_victim := v\<rparr>)
        = Some (vm\<lparr>vm_stats := s2, vm_tlb := t, next_victim := v\<rparr>)"
      and ok': "vmstats_ok (vm\<lparr>vm_stats := s2\<rparr>)"
      by (rule vm_stat_pair [OF ok(1) disjI1 [OF refl]])
    have s3: "vm_stat VMSTAT_TLB_FAULT_FREE (vm\<lparr>vm_stats := s1, vm_tlb := t\<rparr>) = Some (vm\<lparr>vm_stats := s2, vm_tlb := t, next_victim := next_victim vm\<rparr>)" for t
      using s2 [rule_format, of "next_victim vm" t] by simp
    show thesis
      by (rule that [OF _ k(1) len(2) ok']) (use a s1 s3 Some k len in \<open>simp_all add: tlb_fill_def tlb_write_def mk_elo_def Let_def\<close>)
  next
    case None
    let ?v = "wrap32 (next_victim vm + 1) mod NUM_TLB"
    obtain s1 s2 where s1: "vm_stat VMSTAT_TLB_FAULT vm = Some (vm\<lparr>vm_stats := s1\<rparr>)"
      and s2: "\<forall>t v. vm_stat VMSTAT_TLB_FAULT_REPLACE (vm\<lparr>vm_stats := s1, vm_tlb := t, next_victim := v\<rparr>)
        = Some (vm\<lparr>vm_stats := s2, vm_tlb := t, next_victim := v\<rparr>)"
      and ok': "vmstats_ok (vm\<lparr>vm_stats := s2\<rparr>)"
      by (rule vm_stat_pair [OF ok(1) disjI2 [OF refl]])
    have s3: "vm_stat VMSTAT_TLB_FAULT_REPLACE (vm\<lparr>vm_stats := s1, next_victim := v, vm_tlb := t\<rparr>) = Some (vm\<lparr>vm_stats := s2, vm_tlb := t, next_victim := v\<rparr>)" for t v
      using s2 [rule_format, of v t] by (cases vm) simp
    have v: "?v < NUM_TLB" by (simp add: NUM_TLB_def)
    show thesis
      by (rule that [OF _ len(2) v ok']) (use a s1 s3 None len in \<open>simp_all add: tlb_fill_def tlb_write_def mk_elo_def tlb_get_rr_victim_def Let_def\<close>)
  qed
qed

text \<open>On a well-formed space that is ready, \<open>vm_fault\<close> is a lookup followed by a TLB fill.\<close>

lemma vm_fault_eq:
  assumes ok: "as_ok as" and rd: "as_ready as" and va: "va < 2 ^ 32" and w: "w \<longleftrightarrow> ft = VM_FAULT_WRITE"
    and ft: "ft = VM_FAULT_READ \<or> ft = VM_FAULT_WRITE"
  shows "vm_fault ft va (Some as) vm =
    (case as_segment as (page_of va) of
       None \<Rightarrow> Some (FaultReturn (Inl EFAULT), Some as, vm)
     | Some t \<Rightarrow> do {
         (paddr, seg, vm) \<leftarrow> segment_lookup (as_seg as t) (page_of va) w vm;
         vm \<leftarrow> tlb_fill (page_of va) paddr (t = CODE \<and> loaded as) vm;
         Some (FaultReturn (Inr ()), Some (as_set_seg as t seg), vm) })"
proof -
  have so: "seg_ok (as_seg as t)" for t by (rule as_okD(1) [OF ok])
  have al: "vbase (as_seg as t) AND PAGE_FRAME = vbase (as_seg as t)" for t
    using seg_okD(2,3) [OF so [of t]] by (simp add: and_PAGE_FRAME dvd_imp_mod_0)
  have nz: "vbase (as_code as) \<noteq> 0" "vbase (as_data as) \<noteq> 0" "npages (as_code as) \<noteq> 0" "npages (as_data as) \<noteq> 0"
    using rd seg_okD(6) [OF so [of CODE]] seg_okD(6) [OF so [of DATA]] by (simp_all add: as_ready_def)
  have st: "vbase (as_stack as) = USERSTACK - STACKPAGES * PAGE_SIZE" "seg_top (as_stack as) = USERSTACK"
    "vbase (as_stack as) \<noteq> 0"
    using as_okD(4,5) [OF ok] by (simp_all add: seg_top_def vm_consts)
  have f: "ft \<noteq> VM_FAULT_READONLY" using ft by (auto simp: vm_fault_types)
  show ?thesis
    using nz st al [of CODE] al [of STACK] ft w f
    by (auto simp: vm_fault_def Let_def page_of_and [OF va] as_segment_def as_set_seg_def seg_top_def [symmetric]
        split: if_splits)
qed

text \<open>A space whose page tables hold other frames, with the same segments.\<close>

definition as_sim :: "addrspace \<Rightarrow> addrspace \<Rightarrow> bool" where
  "as_sim as as' \<longleftrightarrow> as_ok as' \<and> loaded as' = loaded as \<and>
     (\<forall>t. vbase (as_seg as' t) = vbase (as_seg as t) \<and> npages (as_seg as' t) = npages (as_seg as t))"

lemma as_simD:
  assumes "as_sim as as'"
  shows "as_ok as'" "loaded as' = loaded as" "as_ready as' = as_ready as" "as_segment as' = as_segment as"
    "slot_of as' = slot_of as"
proof -
  have *: "vbase (as_seg as' t) = vbase (as_seg as t)" "npages (as_seg as' t) = npages (as_seg as t)" for t
    using assms by (simp_all add: as_sim_def)
  show "as_ok as'" "loaded as' = loaded as" using assms by (simp_all add: as_sim_def)
  show "as_ready as' = as_ready as" using * [of CODE] * [of DATA] by (simp add: as_ready_def)
  show s: "as_segment as' = as_segment as"
    using * [of CODE] * [of DATA] * [of STACK] by (simp add: fun_eq_iff as_segment_def seg_top_def)
  show "slot_of as' = slot_of as" by (simp add: fun_eq_iff slot_of_def s seg_index_def *)
qed

lemma slot_frame_set:
  assumes "ptable (as_seg as t) = Some pt" "n < length pt" "pt_valid p \<noteq> 0"
  shows "slot_frame (as_set_seg as t ((as_seg as t)\<lparr>ptable := Some (pt[n := p])\<rparr>)) = (slot_frame as)((t, n) := Some (pt_paddr p))"
  using assms by (auto simp: fun_eq_iff slot_frame_def nth_list_update split: option.splits)

lemma as_sim_set:
  assumes "as_ok as" "as_ready as" "ptable (as_seg as t) = Some pt"
  shows "as_sim as (as_set_seg as t ((as_seg as t)\<lparr>ptable := Some (pt[n := p])\<rparr>))"
proof -
  let ?as = "as_set_seg as t ((as_seg as t)\<lparr>ptable := Some (pt[n := p])\<rparr>)"
  have *: "vbase (as_seg ?as u) = vbase (as_seg as u)" "npages (as_seg ?as u) = npages (as_seg as u)" for u by simp_all
  have "seg_ok ((as_seg as t)\<lparr>ptable := Some (pt[n := p])\<rparr>)"
    using as_okD(1) [OF assms(1), of t] assms(3) by (simp add: seg_ok_def)
  then have "\<forall>u. seg_ok (as_seg ?as u)" using as_okD(1) [OF assms(1)] by simp
  moreover have "as_ready ?as" using assms(2) * [of CODE] * [of DATA] by (simp add: as_ready_def)
  ultimately have "as_ok ?as"
    using assms(1) * [of CODE] * [of DATA] * [of STACK] unfolding as_ok_def as_seg_simps by simp
  then show ?thesis by (simp add: as_sim_def)
qed

lemma slot_table:
  assumes "as_ok as" "as_segment as va = Some t"
  obtains pt where "ptable (as_seg as t) = Some pt" "seg_index (as_seg as t) va < length pt"
proof -
  have so: "seg_ok (as_seg as t)" by (rule as_okD(1) [OF assms(1)])
  have n: "seg_index (as_seg as t) va < npages (as_seg as t)"
    by (rule seg_covers_iff(3) [OF so as_segmentD [OF assms(2)]])
  then obtain pt where "ptable (as_seg as t) = Some pt" using seg_okD(5) [OF so] by (cases "ptable (as_seg as t)") auto
  then show thesis using that n seg_okD(4) [OF so] by simp
qed

lemma vm_fault_run:
  assumes ok: "as_ok as" "as_ready as" "va < 2 ^ 32" and w: "w \<longleftrightarrow> ft = VM_FAULT_WRITE"
    and ft: "ft = VM_FAULT_READ \<or> ft = VM_FAULT_WRITE"
    and vm: "vmstats_ok vm" "tlb_shape vm" "ram_ok (vm_ram vm)"
    and seg: "as_segment as (page_of va) = Some t" "slot_of as (page_of va) = Some x"
    and fr: "\<And>pa. slot_frame as x = Some pa \<Longrightarrow> PAGE_SIZE dvd pa \<and> pa < 2 ^ 32"
    and room: "slot_frame as x \<noteq> None \<or> firstpaddr (vm_ram vm) + PAGE_SIZE \<le> lastpaddr (vm_ram vm)"
  obtains pa as' r s k v where
    "vm_fault ft va (Some as) vm = Some (FaultReturn (Inr ()), Some as',
       vm\<lparr>vm_ram := r, vm_stats := s, vm_tlb := (vm_tlb vm)[k := (page_of va, mk_elo pa (t = CODE \<and> loaded as))], next_victim := v\<rparr>)"
    "as_sim as as'" "slot_frame as' = (slot_frame as)(x := Some pa)" "k < NUM_TLB" "v < NUM_TLB"
    "vmstats_ok (vm\<lparr>vm_stats := s\<rparr>)"
    "slot_frame as x = Some pa \<and> r = vm_ram vm \<or>
     slot_frame as x = None \<and> pa = firstpaddr (vm_ram vm) \<and> pa + PAGE_SIZE \<le> lastpaddr (vm_ram vm) \<and>
     r = (vm_ram vm)\<lparr>firstpaddr := pa + PAGE_SIZE\<rparr>"
proof -
  let ?g = "as_seg as t" and ?p = "page_of va" and ?n = "seg_index (as_seg as t) (page_of va)"
  have x: "x = (t, ?n)" using seg by (simp add: slot_of_def)
  have p: "?p < 2 ^ 32" using ok(3) page_of_le [of va] by linarith
  note g = as_okD(1) [OF ok(1), of t] as_segmentD [OF seg(1)]
  obtain pt where pt: "ptable ?g = Some pt" "?n < length pt" using slot_table [OF ok(1) seg(1)] .
  note eq = vm_fault_eq [OF ok w ft, of vm]
  show thesis
  proof (cases "pt_valid (pt ! ?n) = 0")
    case False
    have sf: "slot_frame as x = Some (pt_paddr (pt ! ?n))" using x pt False by (simp add: slot_frame_def)
    obtain q s where q: "segment_lookup ?g ?p w vm = Some (pt_paddr q, ?g\<lparr>ptable := Some (pt[?n := q])\<rparr>, vm\<lparr>vm_stats := s\<rparr>)"
      "pte_same q (pt ! ?n)" "vmstats_ok (vm\<lparr>vm_stats := s\<rparr>)"
      using segment_lookup_hit [OF g page_of_dvd p pt(1) False _ vm(1)] fr [OF sf] by blast
    have qa: "PAGE_SIZE dvd pt_paddr q" "pt_paddr q < 2 ^ 32" "pt_paddr q = pt_paddr (pt ! ?n)" "pt_valid q \<noteq> 0"
      using fr [OF sf] q(2) False by (simp_all add: pte_same_def)
    have sh: "tlb_shape (vm\<lparr>vm_stats := s\<rparr>)" using vm(2) by (simp add: tlb_shape_def)
    obtain k s' v where f: "tlb_fill ?p (pt_paddr q) (t = CODE \<and> loaded as) (vm\<lparr>vm_stats := s\<rparr>) =
        Some (vm\<lparr>vm_stats := s\<rparr>\<lparr>vm_stats := s', vm_tlb := (vm_tlb (vm\<lparr>vm_stats := s\<rparr>))[k := (?p, mk_elo (pt_paddr q) (t = CODE \<and> loaded as))], next_victim := v\<rparr>)"
      "k < NUM_TLB" "v < NUM_TLB" "vmstats_ok (vm\<lparr>vm_stats := s\<rparr>\<lparr>vm_stats := s'\<rparr>)"
      by (rule tlb_fill_eq [OF qa(1,2) q(3) sh])
    show thesis
      by (rule that [where r = "vm_ram vm" and s = s' and k = k and pa = "pt_paddr q" and v = v, OF _ as_sim_set [OF ok(1,2) pt(1), of ?n q]])
        (use eq q(1) f seg(1) slot_frame_set [OF pt qa(4)] x sf qa(3) in simp_all)
  next
    case True
    let ?pa = "firstpaddr (vm_ram vm)" and ?vm = "vm\<lparr>vm_ram := (vm_ram vm)\<lparr>firstpaddr := firstpaddr (vm_ram vm) + PAGE_SIZE\<rparr>\<rparr>"
    have sf: "slot_frame as x = None" using x pt True by (simp add: slot_frame_def)
    have rm: "?pa + PAGE_SIZE \<le> lastpaddr (vm_ram vm)" using room sf by simp
    obtain q where q: "segment_lookup ?g ?p w vm = Some (?pa, ?g\<lparr>ptable := Some (pt[?n := q])\<rparr>, ?vm)"
      "pt_paddr q = ?pa" "pt_valid q \<noteq> 0"
      using segment_lookup_miss [OF g p pt(1) True vm(3), of w] rm by simp
    have pa: "PAGE_SIZE dvd ?pa" "?pa < 2 ^ 32" using ram_okD [OF vm(3)] by auto
    have sh: "tlb_shape ?vm" "vmstats_ok ?vm" using vm by (simp_all add: tlb_shape_def)
    obtain k s' v where f: "tlb_fill ?p ?pa (t = CODE \<and> loaded as) ?vm =
        Some (?vm\<lparr>vm_stats := s', vm_tlb := (vm_tlb ?vm)[k := (?p, mk_elo ?pa (t = CODE \<and> loaded as))], next_victim := v\<rparr>)"
      "k < NUM_TLB" "v < NUM_TLB" "vmstats_ok (?vm\<lparr>vm_stats := s'\<rparr>)"
      by (rule tlb_fill_eq [OF pa sh(2,1)])
    have st: "vmstats_ok (vm\<lparr>vm_stats := s'\<rparr>)" using f(4) by (simp add: vmstats_ok_def vmstats_ready_def stat_def)
    show thesis
      by (rule that [where r = "vm_ram ?vm" and s = s' and k = k and pa = ?pa and v = v, OF _ as_sim_set [OF ok(1,2) pt(1), of ?n q]])
        (use eq q f(1-3) st seg(1) slot_frame_set [OF pt q(3)] x sf rm in simp_all)
  qed
qed

end
