(* ===== verification/Vm_System.thy ===== *)
theory Vm_System
  imports Vm_Fault
begin

section \<open>A system of address spaces\<close>

text \<open>
  Address spaces that are created, switched, loaded, used and destroyed in any order on one
  processor, with the kernel taking and writing pages of its own in between. The abstract
  view is a memory per address space: one byte for every address, 0 until it is stored to.
  The theorems say that loads and stores through \<open>vm_fault\<close>, the page tables and the TLB
  behave like that memory, that no page of a process is shared with another process or with
  the kernel, and when a store to the code of a loaded program is refused.
\<close>

subsection \<open>The operations\<close>

record vmsys =
  sy_vm :: vmstate
  sy_spaces :: "addrspace option list"
  sy_cur :: "nat option"
  sy_kern :: "(nat \<times> nat) list"

text \<open>
  \<open>sy_spaces\<close> are the address spaces by number, \<open>None\<close> once destroyed, \<open>sy_cur\<close> the one of
  the current process and \<open>sy_kern\<close> the start and length of every piece of physical memory the
  kernel holds: its image and what \<open>alloc_kpages\<close> gave it. The operations:
  \<^item> \<open>OpCreate\<close>: \<open>as_create\<close>; the new space gets the next number.
  \<^item> \<open>OpSwitch\<close>: a thread of a process with the given address space, or of none, starts to
    run (\<open>thread_switch\<close>), or the current process takes it (\<open>curproc_setas\<close>); both call
    \<open>as_activate\<close>.
  \<^item> \<open>OpRegion\<close>, \<open>OpComplete\<close>: \<open>as_define_region\<close> and \<open>as_complete_load\<close> on the current
    space, as \<open>load_elf\<close> does.
  \<^item> \<open>OpAccess\<close>: a load or a store of the current process, or of the kernel on its behalf.
  \<^item> \<open>OpKpages\<close>, \<open>OpKwrite\<close>: the kernel takes pages, and writes a byte of its memory.
  \<^item> \<open>OpDestroy\<close>: \<open>proc_destroy\<close> clears \<open>p_addrspace\<close> and calls \<open>as_destroy\<close>.
\<close>

datatype vmop =
    OpCreate "unit kmem" "pte kmem"
  | OpSwitch "nat option"
  | OpRegion nat nat "pte kmem"
  | OpComplete
  | OpAccess bool vm_access nat
  | OpKpages nat
  | OpKwrite nat u8
  | OpDestroy nat

datatype vmout = OutNone | OutErr errno | OutAccess access_outcome

definition space_get :: "vmsys \<Rightarrow> nat \<Rightarrow> addrspace option" where
  "space_get sy i = (if i < length (sy_spaces sy) then sy_spaces sy ! i else None)"

definition cur_space :: "vmsys \<Rightarrow> addrspace option" where
  "cur_space sy = (case sy_cur sy of None \<Rightarrow> None | Some i \<Rightarrow> space_get sy i)"

definition set_cur_space :: "addrspace option \<Rightarrow> vmsys \<Rightarrow> vmsys" where
  "set_cur_space as sy =
     (case sy_cur sy of None \<Rightarrow> sy | Some i \<Rightarrow> sy\<lparr>sy_spaces := (sy_spaces sy)[i := as]\<rparr>)"

definition vm_step :: "vmop \<Rightarrow> vmsys \<Rightarrow> (vmout \<times> vmsys) option" where
  "vm_step op sy =
     (case op of
        OpCreate kas kpt \<Rightarrow> do {
          r \<leftarrow> as_create kas kpt;
          case r of
            None \<Rightarrow> Some (OutErr ENOMEM, sy)
          | Some as \<Rightarrow> Some (OutNone, sy\<lparr>sy_spaces := sy_spaces sy @ [Some as]\<rparr>) }
      | OpSwitch c \<Rightarrow> do {
          let sy = sy\<lparr>sy_cur := c\<rparr>;
          vm \<leftarrow> as_activate (cur_space sy \<noteq> None) (sy_vm sy);
          Some (OutNone, sy\<lparr>sy_vm := vm\<rparr>) }
      | OpRegion va sz km \<Rightarrow> do {
          as \<leftarrow> cur_space sy;
          (r, as) \<leftarrow> as_define_region km as va sz;
          Some (case r of Inl e \<Rightarrow> OutErr e | Inr _ \<Rightarrow> OutNone, set_cur_space (Some as) sy) }
      | OpComplete \<Rightarrow> do {
          as \<leftarrow> cur_space sy;
          let (r, as) = as_complete_load as;
          Some (OutNone, set_cur_space (Some as) sy) }
      | OpAccess iskern a va \<Rightarrow> do {
          (out, as, vm) \<leftarrow> user_access iskern a va (cur_space sy) (sy_vm sy);
          let sy = set_cur_space as (sy\<lparr>sy_vm := vm\<rparr>);
          Some (OutAccess out, case out of Exited _ \<Rightarrow> sy\<lparr>sy_cur := None\<rparr> | _ \<Rightarrow> sy) }
      | OpKpages n \<Rightarrow> do {
          (va, r) \<leftarrow> alloc_kpages n (vm_ram (sy_vm sy));
          Some (OutNone, sy\<lparr>sy_vm := (sy_vm sy)\<lparr>vm_ram := r\<rparr>,
                           sy_kern := sy_kern sy @ [(sub32 va MIPS_KSEG0, n * PAGE_SIZE)]\<rparr>) }
      | OpKwrite pa b \<Rightarrow>
          Some (OutNone, sy\<lparr>sy_vm := (sy_vm sy)\<lparr>vm_mem := (vm_mem (sy_vm sy))(pa := b)\<rparr>\<rparr>)
      | OpDestroy i \<Rightarrow>
          Some (OutNone, sy\<lparr>sy_spaces := (sy_spaces sy)[i := None],
                           sy_cur := (if sy_cur sy = Some i then None else sy_cur sy)\<rparr>))"

text \<open>
  What the rest of the kernel guarantees of an operation: a switch is to no address space or
  to one that exists, 32-bit arguments, \<open>copyin\<close> and \<open>copyout\<close> check the address against
  \<open>USERSPACETOP\<close> first, a request for pages is not larger than the address space, and the
  kernel writes only memory it holds. Regions are defined, and a load completed, in the space
  that runs.
\<close>

definition in_piece :: "nat \<Rightarrow> nat \<times> nat \<Rightarrow> bool" where
  "in_piece pa k \<longleftrightarrow> fst k \<le> pa \<and> pa < fst k + snd k"

definition vmop_ok :: "vmop \<Rightarrow> vmsys \<Rightarrow> bool" where
  "vmop_ok op sy =
     (case op of
        OpCreate kas kpt \<Rightarrow> True
      | OpSwitch c \<Rightarrow> (case c of None \<Rightarrow> True | Some i \<Rightarrow> space_get sy i \<noteq> None)
      | OpRegion va sz km \<Rightarrow> cur_space sy \<noteq> None \<and> va < 2 ^ 32 \<and> sz < 2 ^ 32
      | OpComplete \<Rightarrow> cur_space sy \<noteq> None
      | OpAccess iskern a va \<Rightarrow> cur_space sy \<noteq> None \<and> va < 2 ^ 32 \<and> (iskern \<longrightarrow> va < USERSPACETOP)
      | OpKpages n \<Rightarrow> n \<le> 2 ^ 19
      | OpKwrite pa b \<Rightarrow> (\<exists>k \<in> set (sy_kern sy). in_piece pa k)
      | OpDestroy i \<Rightarrow> i < length (sy_spaces sy))"

inductive vm_reachable :: "vmsys \<Rightarrow> vmsys \<Rightarrow> bool" for s0 where
  start: "vm_reachable s0 s0"
| step: "vm_reachable s0 sy \<Longrightarrow> vmop_ok op sy \<Longrightarrow> vm_step op sy = Some (out, sy') \<Longrightarrow> vm_reachable s0 sy'"

text \<open>
  The system after \<open>vm_bootstrap\<close>: no address space yet, nothing valid in the TLB, and the
  kernel holds what lies below the free memory.
\<close>

definition vm_boot :: "ram \<Rightarrow> (nat \<Rightarrow> u8) \<Rightarrow> vmsys" where
  "vm_boot r m =
     \<lparr> sy_vm = \<lparr> vm_ram = r, vm_stats = \<lparr> stats_counts = replicate VMSTAT_COUNT 0, stats_lock = True \<rparr>,
                 vm_tlb = map (\<lambda>i. (TLBHI_INVALID i, 0)) [0..<NUM_TLB],
                 next_victim = 0, vm_mem = m \<rparr>,
       sy_spaces = [], sy_cur = None, sy_kern = [(0, firstpaddr r)] \<rparr>"

subsection \<open>The abstract memory and the invariant\<close>

text \<open>The byte an address space has at an address; 0 for a page that is not loaded.\<close>

definition vm_byte :: "vmsys \<Rightarrow> nat \<Rightarrow> nat \<Rightarrow> u8" where
  "vm_byte sy i va =
     (case space_get sy i of
        None \<Rightarrow> 0
      | Some as \<Rightarrow> (case frame_at as (page_of va) of
            None \<Rightarrow> 0
          | Some pa \<Rightarrow> vm_mem (sy_vm sy) (pa + va mod PAGE_SIZE)))"

definition sframe :: "vmsys \<Rightarrow> nat \<times> segment_t \<times> nat \<Rightarrow> nat option" where
  "sframe sy p = (case space_get sy (fst p) of None \<Rightarrow> None | Some as \<Rightarrow> slot_frame as (snd p))"

definition entry_ok :: "addrspace \<Rightarrow> nat \<times> nat \<Rightarrow> bool" where
  "entry_ok as e \<longleftrightarrow> fst e < USERSPACETOP \<and> PAGE_SIZE dvd fst e \<and>
     (\<exists>pa ro. frame_at as (fst e) = Some pa \<and> snd e = mk_elo pa ro \<and>
        (ro \<longrightarrow> as_segment as (fst e) = Some CODE \<and> loaded as))"

definition tlb_ok :: "addrspace \<Rightarrow> (nat \<times> nat) list \<Rightarrow> bool" where
  "tlb_ok as tlb \<longleftrightarrow> (\<forall>k < NUM_TLB. tlb ! k = (TLBHI_INVALID k, 0) \<or> entry_ok as (tlb ! k)) \<and> distinct (map fst tlb)"

definition frames_ok :: "vmsys \<Rightarrow> bool" where
  "frames_ok sy \<longleftrightarrow>
     (\<forall>p pa. sframe sy p = Some pa \<longrightarrow>
        PAGE_SIZE dvd pa \<and> pa + PAGE_SIZE \<le> firstpaddr (vm_ram (sy_vm sy)) \<and>
        (\<forall>k \<in> set (sy_kern sy). pa + PAGE_SIZE \<le> fst k \<or> fst k + snd k \<le> pa)) \<and>
     (\<forall>p q pa. sframe sy p = Some pa \<longrightarrow> sframe sy q = Some pa \<longrightarrow> p = q)"

definition kern_ok :: "vmsys \<Rightarrow> bool" where
  "kern_ok sy \<longleftrightarrow> (\<forall>k \<in> set (sy_kern sy). fst k + snd k \<le> firstpaddr (vm_ram (sy_vm sy))) \<and>
     sorted_wrt (\<lambda>j k. fst j + snd j \<le> fst k) (sy_kern sy)"

definition vsys_ok :: "vmsys \<Rightarrow> bool" where
  "vsys_ok sy \<longleftrightarrow>
     ram_ok (vm_ram (sy_vm sy)) \<and> vmstats_ok (sy_vm sy) \<and> tlb_shape (sy_vm sy) \<and>
     (\<forall>i as. space_get sy i = Some as \<longrightarrow> as_ok as) \<and>
     frames_ok sy \<and> kern_ok sy \<and> (sy_cur sy \<noteq> None \<longrightarrow> cur_space sy \<noteq> None) \<and>
     (\<forall>as. cur_space sy = Some as \<longrightarrow> tlb_ok as (vm_tlb (sy_vm sy))) \<and>
     (\<forall>a. firstpaddr (vm_ram (sy_vm sy)) \<le> a \<longrightarrow> a < lastpaddr (vm_ram (sy_vm sy)) \<longrightarrow> vm_mem (sy_vm sy) a = 0)"

lemma vsys_okD:
  assumes "vsys_ok sy"
  shows "ram_ok (vm_ram (sy_vm sy))" "vmstats_ok (sy_vm sy)" "tlb_shape (sy_vm sy)"
    "space_get sy i = Some as \<Longrightarrow> as_ok as" "frames_ok sy" "kern_ok sy"
    "cur_space sy = Some as \<Longrightarrow> tlb_ok as (vm_tlb (sy_vm sy))"
    "firstpaddr (vm_ram (sy_vm sy)) \<le> a \<Longrightarrow> a < lastpaddr (vm_ram (sy_vm sy)) \<Longrightarrow> vm_mem (sy_vm sy) a = 0"
    "sy_cur sy = Some j \<Longrightarrow> cur_space sy \<noteq> None"
  using assms unfolding vsys_ok_def by blast+

lemma frames_okD:
  assumes "frames_ok sy" "sframe sy p = Some pa"
  shows "PAGE_SIZE dvd pa" "pa + PAGE_SIZE \<le> firstpaddr (vm_ram (sy_vm sy))"
    "k \<in> set (sy_kern sy) \<Longrightarrow> pa + PAGE_SIZE \<le> fst k \<or> fst k + snd k \<le> pa"
    "sframe sy q = Some pa \<Longrightarrow> p = q"
  using assms unfolding frames_ok_def by blast+

lemma cur_spaceD: "cur_space sy = Some as \<Longrightarrow> \<exists>i. sy_cur sy = Some i \<and> space_get sy i = Some as \<and> i < length (sy_spaces sy)"
  by (auto simp: cur_space_def space_get_def split: option.splits if_splits)

lemma space_get_set:
  "i < length (sy_spaces sy) \<Longrightarrow> space_get (sy\<lparr>sy_spaces := (sy_spaces sy)[i := as]\<rparr>) j = (if j = i then as else space_get sy j)"
  by (simp add: space_get_def)

subsection \<open>The TLB and the page tables\<close>

lemma entry_not_invalid: "entry_ok as e \<Longrightarrow> snd e AND TLBLO_VALID \<noteq> 0"
  unfolding entry_ok_def using mk_elo_VALID by metis

lemma TLBHI_INVALID_page:
  assumes "k < NUM_TLB" shows "TLBHI_INVALID k < 2 ^ 32" "PAGE_SIZE dvd TLBHI_INVALID k"
proof -
  have "k * PAGE_SIZE \<le> 63 * PAGE_SIZE" using assms by (intro mult_le_mono1) (simp add: NUM_TLB_def)
  then show "TLBHI_INVALID k < 2 ^ 32" unfolding TLBHI_INVALID_eq [OF assms] by (simp add: PAGE_SIZE_def USERSPACETOP_def)
  have "PAGE_SIZE dvd USERSPACETOP" by (simp add: vm_consts)
  then show "PAGE_SIZE dvd TLBHI_INVALID k" unfolding TLBHI_INVALID_eq [OF assms] by (intro dvd_add dvd_triv_right)
qed

lemma tlb_okD:
  assumes "tlb_ok as tlb"
  shows "k < NUM_TLB \<Longrightarrow> tlb ! k = (TLBHI_INVALID k, 0) \<or> entry_ok as (tlb ! k)" "distinct (map fst tlb)"
  using assms unfolding tlb_ok_def by blast+

lemma find_map_of:
  "(\<And>e. e \<in> set t \<Longrightarrow> P e \<longleftrightarrow> fst e = x) \<Longrightarrow> map_option snd (find P t) = map_of t x"
  by (induction t) (auto split: prod.splits)

lemma tlb_match_eq:
  assumes "tlb_ok as tlb" "length tlb = NUM_TLB" "va < 2 ^ 32"
  shows "tlb_match va tlb = map_of tlb (page_of va)"
proof -
  have al: "fst e AND PAGE_FRAME = fst e" if e: "e \<in> set tlb" for e
  proof -
    obtain k where k: "k < NUM_TLB" "e = tlb ! k" using e assms(2) by (auto simp: in_set_conv_nth)
    have "fst e < 2 ^ 32 \<and> PAGE_SIZE dvd fst e"
    proof (cases "e = (TLBHI_INVALID k, 0)")
      case True
      then show ?thesis using TLBHI_INVALID_page [OF k(1)] by simp
    next
      case False
      then have "entry_ok as e" using tlb_okD(1) [OF assms(1) k(1)] k(2) by simp
      then show ?thesis unfolding entry_ok_def by (simp add: USERSPACETOP_def)
    qed
    then show ?thesis using page_of_and [of "fst e"] page_of_id [of "fst e"] by simp
  qed
  have "map_option snd (find (\<lambda>e. fst e AND PAGE_FRAME = page_of va) tlb) = map_of tlb (page_of va)"
    by (rule find_map_of) (simp only: al)
  then show ?thesis unfolding tlb_match_def page_of_and [OF assms(3)] .
qed

lemma tlb_match_Some:
  assumes tlb: "tlb_ok as tlb" "length tlb = NUM_TLB" and va: "va < USERSPACETOP"
    and m: "tlb_match va tlb = Some elo"
  shows "entry_ok as (page_of va, elo)"
proof -
  have v: "va < 2 ^ 32" using va by (simp add: USERSPACETOP_def)
  have "(page_of va, elo) \<in> set tlb" using m unfolding tlb_match_eq [OF tlb v] by (rule map_of_SomeD)
  then obtain k where k: "k < NUM_TLB" "(page_of va, elo) = tlb ! k" using tlb(2) by (auto simp: in_set_conv_nth)
  have "page_of va < USERSPACETOP" using va page_of_le [of va] by linarith
  then have "(page_of va, elo) \<noteq> (TLBHI_INVALID k, 0)" using TLBHI_INVALID_eq [OF k(1)] by simp
  then show ?thesis using tlb_okD(1) [OF tlb(1) k(1)] k(2) by simp
qed

lemma invalid_tlb_ok: "tlb_ok as (map (\<lambda>i. (TLBHI_INVALID i, 0)) [0..<NUM_TLB])"
proof -
  have "inj_on TLBHI_INVALID {0..<NUM_TLB}" by (rule inj_onI) (auto simp: TLBHI_INVALID_eq PAGE_SIZE_def)
  then show ?thesis by (simp add: tlb_ok_def comp_def distinct_map)
qed

lemma tlb_ok_mono:
  assumes "tlb_ok as tlb" "as_segment as' = as_segment as" "loaded as \<Longrightarrow> loaded as'"
    and "\<And>h pa. frame_at as h = Some pa \<Longrightarrow> frame_at as' h = Some pa"
  shows "tlb_ok as' tlb"
proof -
  have "entry_ok as' e" if "entry_ok as e" for e using that assms(2-4) unfolding entry_ok_def by metis
  then show ?thesis using assms(1) unfolding tlb_ok_def by blast
qed

lemma tlb_ok_insert:
  assumes "tlb_ok as tlb" "length tlb = NUM_TLB" "entry_ok as e" "fst e \<notin> fst ` set tlb" "k < NUM_TLB"
  shows "tlb_ok as (tlb[k := e])"
proof -
  have "distinct ((map fst tlb)[k := fst e])"
    using assms by (intro distinct_list_update) (auto simp: tlb_ok_def)
  then show ?thesis using assms by (auto simp: tlb_ok_def map_update nth_list_update)
qed

subsection \<open>The effect of one operation on the memory\<close>

lemma sframe_cur: "space_get sy i = Some as \<Longrightarrow> sframe sy (i, x) = slot_frame as x"
  by (simp add: sframe_def)

lemma vm_byte_frame:
  "space_get sy i = Some as \<Longrightarrow>
   vm_byte sy i va = (case frame_at as (page_of va) of None \<Rightarrow> 0 | Some pa \<Rightarrow> vm_mem (sy_vm sy) (pa + va mod PAGE_SIZE))"
  by (simp add: vm_byte_def)

lemma frame_at_slot: "frame_at as va = Some pa \<Longrightarrow> \<exists>x. slot_of as va = Some x \<and> slot_frame as x = Some pa"
  by (auto simp: frame_at_def bind_eq_Some_conv)

lemma frame_at_none: "(\<And>x. slot_frame as x = None) \<Longrightarrow> frame_at as h = None"
  by (cases "slot_of as h") (simp_all add: frame_at_def)

lemma frame_below:
  assumes "vsys_ok sy" "space_get sy i = Some as" "slot_frame as x = Some pa"
  shows "PAGE_SIZE dvd pa" "pa + PAGE_SIZE \<le> firstpaddr (vm_ram (sy_vm sy))" "pa < 2 ^ 32"
  using frames_okD(1,2) [OF vsys_okD(5) [OF assms(1)], of "(i, x)" pa] assms(2,3) ram_okD(3,4) [OF vsys_okD(1) [OF assms(1)]]
  by (auto simp: sframe_cur)

text \<open>A page fault on a page of the current space, seen from the system.\<close>

definition after_fault :: "vmsys \<Rightarrow> addrspace \<Rightarrow> vmstate \<Rightarrow> vmsys" where
  "after_fault sy as vm = set_cur_space (Some as) (sy\<lparr>sy_vm := vm\<rparr>)"

lemma after_fault_simps:
  assumes "cur_space sy = Some as0" "sy_cur sy = Some i"
  shows "sy_vm (after_fault sy as vm) = vm" "sy_cur (after_fault sy as vm) = Some i" "sy_kern (after_fault sy as vm) = sy_kern sy"
    "space_get (after_fault sy as vm) j = (if j = i then Some as else space_get sy j)"
    "cur_space (after_fault sy as vm) = Some as"
proof -
  have l: "i < length (sy_spaces sy)" using cur_spaceD [OF assms(1)] assms(2) by auto
  show "sy_vm (after_fault sy as vm) = vm" "sy_cur (after_fault sy as vm) = Some i" "sy_kern (after_fault sy as vm) = sy_kern sy"
    using assms(2) by (simp_all add: after_fault_def set_cur_space_def)
  show s: "space_get (after_fault sy as vm) j = (if j = i then Some as else space_get sy j)" for j
    using assms(2) l by (simp add: after_fault_def set_cur_space_def space_get_def)
  show "cur_space (after_fault sy as vm) = Some as"
    using assms(2) s [of i] by (simp add: cur_space_def after_fault_def set_cur_space_def)
qed

definition page_fault ::
    "vmsys \<Rightarrow> addrspace \<Rightarrow> addrspace \<Rightarrow> vmstate \<Rightarrow> nat \<Rightarrow> segment_t \<times> nat \<Rightarrow> nat \<Rightarrow> nat \<Rightarrow> bool \<Rightarrow> nat \<Rightarrow> bool" where
  "page_fault sy as as' vm' i x va pa ro k \<longleftrightarrow>
     vsys_ok sy \<and> cur_space sy = Some as \<and> sy_cur sy = Some i \<and> as_sim as as' \<and> slot_of as (page_of va) = Some x \<and>
     slot_frame as' = (slot_frame as)(x := Some pa) \<and>
     vm_tlb vm' = (vm_tlb (sy_vm sy))[k := (page_of va, mk_elo pa ro)] \<and> k < NUM_TLB \<and>
     next_victim vm' < NUM_TLB \<and> vmstats_ok vm' \<and> vm_mem vm' = vm_mem (sy_vm sy) \<and>
     (slot_frame as x = Some pa \<and> vm_ram vm' = vm_ram (sy_vm sy) \<or>
      slot_frame as x = None \<and> pa = firstpaddr (vm_ram (sy_vm sy)) \<and>
      pa + PAGE_SIZE \<le> lastpaddr (vm_ram (sy_vm sy)) \<and>
      vm_ram vm' = (vm_ram (sy_vm sy))\<lparr>firstpaddr := pa + PAGE_SIZE\<rparr>) \<and>
     page_of va \<notin> fst ` set (vm_tlb (sy_vm sy)) \<and> va < USERSPACETOP \<and>
     (ro \<longrightarrow> as_segment as (page_of va) = Some CODE \<and> loaded as)"

lemma page_faultD:
  assumes "page_fault sy as as' vm' i x va pa ro k"
  shows "vsys_ok sy" "cur_space sy = Some as" "sy_cur sy = Some i" "as_sim as as'" "slot_of as (page_of va) = Some x"
    "slot_frame as' = (slot_frame as)(x := Some pa)"
    "vm_tlb vm' = (vm_tlb (sy_vm sy))[k := (page_of va, mk_elo pa ro)]" "k < NUM_TLB"
    "next_victim vm' < NUM_TLB" "vmstats_ok vm'" "vm_mem vm' = vm_mem (sy_vm sy)"
    "slot_frame as x = Some pa \<and> vm_ram vm' = vm_ram (sy_vm sy) \<or>
      slot_frame as x = None \<and> pa = firstpaddr (vm_ram (sy_vm sy)) \<and>
      pa + PAGE_SIZE \<le> lastpaddr (vm_ram (sy_vm sy)) \<and>
      vm_ram vm' = (vm_ram (sy_vm sy))\<lparr>firstpaddr := pa + PAGE_SIZE\<rparr>"
    "page_of va \<notin> fst ` set (vm_tlb (sy_vm sy))" "va < USERSPACETOP"
    "ro \<Longrightarrow> as_segment as (page_of va) = Some CODE \<and> loaded as"
  using assms unfolding page_fault_def by blast+

lemma pf_get:
  assumes pf: "page_fault sy as as' vm' i x va pa ro k"
  shows "space_get sy i = Some as"
  using page_faultD(2,3) [OF pf] by (simp add: cur_space_def)

lemma pf_after:
  assumes pf: "page_fault sy as as' vm' i x va pa ro k"
  shows "sy_vm (after_fault sy as' vm') = vm'" "sy_cur (after_fault sy as' vm') = Some i"
    "sy_kern (after_fault sy as' vm') = sy_kern sy"
    "space_get (after_fault sy as' vm') j = (if j = i then Some as' else space_get sy j)"
    "cur_space (after_fault sy as' vm') = Some as'"
  by (rule after_fault_simps [OF page_faultD(2,3) [OF pf]])+

lemma pf_ram_ok:
  assumes pf: "page_fault sy as as' vm' i x va pa ro k"
  shows "ram_ok (vm_ram vm')"
proof -
  note D = page_faultD [OF pf]
  show ?thesis
    using D(12)
  proof
    assume "slot_frame as x = Some pa \<and> vm_ram vm' = vm_ram (sy_vm sy)"
    then show ?thesis using vsys_okD(1) [OF D(1)] by simp
  next
    assume "slot_frame as x = None \<and> pa = firstpaddr (vm_ram (sy_vm sy)) \<and> pa + PAGE_SIZE \<le> lastpaddr (vm_ram (sy_vm sy)) \<and>
        vm_ram vm' = (vm_ram (sy_vm sy))\<lparr>firstpaddr := pa + PAGE_SIZE\<rparr>"
    then show ?thesis using ram_okD [OF vsys_okD(1) [OF D(1)]] by (simp add: ram_ok_def)
  qed
qed

lemma pf_first_mono:
  assumes pf: "page_fault sy as as' vm' i x va pa ro k"
  shows "firstpaddr (vm_ram (sy_vm sy)) \<le> firstpaddr (vm_ram vm')"
  "lastpaddr (vm_ram vm') = lastpaddr (vm_ram (sy_vm sy))"
  using page_faultD(12) [OF pf] by auto

lemma pf_sframe:
  assumes pf: "page_fault sy as as' vm' i x va pa ro k"
  shows "sframe (after_fault sy as' vm') p = (if p = (i, x) then Some pa else sframe sy p)"
  using pf_get [OF pf] by (cases p) (auto simp: sframe_def pf_after [OF pf] page_faultD(6) [OF pf])

lemma pf_frame_mono:
  assumes pf: "page_fault sy as as' vm' i x va pa ro k"
  shows "frame_at as h = Some q \<Longrightarrow> frame_at as' h = Some q"
proof -
  note D = page_faultD [OF pf]
  assume "frame_at as h = Some q"
  then obtain y where "slot_of as h = Some y" "slot_frame as y = Some q" using frame_at_slot by blast
  moreover have "slot_frame as' y = Some q" using calculation(2) D(12) by (auto simp: D(6))
  ultimately show ?thesis using as_simD(5) [OF D(4)] by (simp add: frame_at_def)
qed

lemma pf_frame_new:
  assumes pf: "page_fault sy as as' vm' i x va pa ro k"
  shows "frame_at as' (page_of va) = Some pa"
  using page_faultD(5) [OF pf] as_simD(5) [OF page_faultD(4) [OF pf]] by (simp add: frame_at_def page_faultD(6) [OF pf])

lemma pf_frames_ok:
  assumes pf: "page_fault sy as as' vm' i x va pa ro k"
  shows "frames_ok (after_fault sy as' vm')"
proof -
  note D = page_faultD [OF pf]
  note fo = frames_okD [OF vsys_okD(5) [OF D(1)]]
  have ko: "kern_ok sy" by (rule vsys_okD(6) [OF D(1)])
  have old: "PAGE_SIZE dvd q \<and> q + PAGE_SIZE \<le> firstpaddr (vm_ram vm') \<and> (\<forall>k \<in> set (sy_kern sy). q + PAGE_SIZE \<le> fst k \<or> fst k + snd k \<le> q)"
    if "sframe sy p = Some q" for p q
    using fo(1-3) [OF that] pf_first_mono(1) [OF pf] by (meson order_trans)
  have new: "PAGE_SIZE dvd pa \<and> pa + PAGE_SIZE \<le> firstpaddr (vm_ram vm') \<and> (\<forall>k \<in> set (sy_kern sy). pa + PAGE_SIZE \<le> fst k \<or> fst k + snd k \<le> pa)"
    using D(12)
  proof
    assume "slot_frame as x = Some pa \<and> vm_ram vm' = vm_ram (sy_vm sy)"
    then show ?thesis using old [of "(i, x)" pa] sframe_cur [OF pf_get [OF pf]] by simp
  next
    assume *: "slot_frame as x = None \<and> pa = firstpaddr (vm_ram (sy_vm sy)) \<and> pa + PAGE_SIZE \<le> lastpaddr (vm_ram (sy_vm sy)) \<and>
      vm_ram vm' = (vm_ram (sy_vm sy))\<lparr>firstpaddr := pa + PAGE_SIZE\<rparr>"
    then show ?thesis using ram_okD(1) [OF vsys_okD(1) [OF D(1)]] ko by (simp add: kern_ok_def)
  qed
  have inj: "p = (i, x)" if "sframe sy p = Some pa" for p
    using D(12)
  proof
    assume "slot_frame as x = Some pa \<and> vm_ram vm' = vm_ram (sy_vm sy)"
    then show ?thesis using fo(4) [OF that, of "(i, x)"] sframe_cur [OF pf_get [OF pf]] by simp
  next
    assume "slot_frame as x = None \<and> pa = firstpaddr (vm_ram (sy_vm sy)) \<and> pa + PAGE_SIZE \<le> lastpaddr (vm_ram (sy_vm sy)) \<and>
      vm_ram vm' = (vm_ram (sy_vm sy))\<lparr>firstpaddr := pa + PAGE_SIZE\<rparr>"
    then show ?thesis using fo(2) [OF that] by (simp add: PAGE_SIZE_def)
  qed
  show ?thesis
    unfolding frames_ok_def pf_sframe [OF pf] pf_after [OF pf]
  proof (intro conjI allI impI)
    fix p q assume "(if p = (i, x) then Some pa else sframe sy p) = Some q"
    then show "PAGE_SIZE dvd q" "q + PAGE_SIZE \<le> firstpaddr (vm_ram vm')"
        "\<forall>k \<in> set (sy_kern sy). q + PAGE_SIZE \<le> fst k \<or> fst k + snd k \<le> q"
      using old new by (auto split: if_splits)
  next
    fix p p' q assume "(if p = (i, x) then Some pa else sframe sy p) = Some q" "(if p' = (i, x) then Some pa else sframe sy p') = Some q"
    then show "p = p'" using inj fo(4) by (auto split: if_splits)
  qed
qed

lemma pf_tlb_ok:
  assumes pf: "page_fault sy as as' vm' i x va pa ro k"
  shows "tlb_ok as' (vm_tlb vm')"
proof -
  note D = page_faultD [OF pf]
  have len: "length (vm_tlb (sy_vm sy)) = NUM_TLB" using vsys_okD(3) [OF D(1)] by (simp add: tlb_shape_def)
  have "tlb_ok as' (vm_tlb (sy_vm sy))"
    by (rule tlb_ok_mono [OF vsys_okD(7) [OF D(1) D(2)]]) (use as_simD [OF D(4)] pf_frame_mono [OF pf] in auto)
  moreover have "page_of va < USERSPACETOP" using D(14) page_of_le [of va] by linarith
  then have "entry_ok as' (page_of va, mk_elo pa ro)"
    using pf_frame_new [OF pf] D(15) as_simD [OF D(4)] unfolding entry_ok_def fst_conv snd_conv by auto
  ultimately show ?thesis unfolding D(7) by (rule tlb_ok_insert [OF _ len]) (use D(13) D(8) in auto)
qed

lemma pf_mem_zero:
  assumes pf: "page_fault sy as as' vm' i x va pa ro k"
  shows "firstpaddr (vm_ram vm') \<le> a \<Longrightarrow> a < lastpaddr (vm_ram vm') \<Longrightarrow> vm_mem vm' a = 0"
  using vsys_okD(8) [OF page_faultD(1) [OF pf], of a] pf_first_mono [OF pf] page_faultD(11) [OF pf] by simp

lemma pf_vsys_ok:
  assumes pf: "page_fault sy as as' vm' i x va pa ro k"
  shows "vsys_ok (after_fault sy as' vm')"
proof -
  note D = page_faultD [OF pf]
  have sp: "as_ok a" if "space_get (after_fault sy as' vm') j = Some a" for j a
    using that vsys_okD(4) [OF D(1)] as_simD(1) [OF D(4)] unfolding pf_after(4) [OF pf] by (auto split: if_splits)
  have ko: "kern_ok (after_fault sy as' vm')"
    using vsys_okD(6) [OF D(1)] pf_first_mono(1) [OF pf] unfolding kern_ok_def pf_after [OF pf] by (meson order_trans)
  have ts: "tlb_shape vm'" using vsys_okD(3) [OF D(1)] D(7-11) by (simp add: tlb_shape_def)
  show ?thesis
    unfolding vsys_ok_def pf_after(1,5) [OF pf] using pf_ram_ok [OF pf] D(10) ts sp pf_frames_ok [OF pf] ko pf_tlb_ok [OF pf] pf_mem_zero [OF pf] by simp
qed

lemma pf_vm_byte:
  assumes pf: "page_fault sy as as' vm' i x va pa ro k"
  shows "vm_byte (after_fault sy as' vm') j v = vm_byte sy j v"
proof -
  note D = page_faultD [OF pf]
  show ?thesis
  proof (cases "j = i")
    case False
    then show ?thesis unfolding vm_byte_def pf_after [OF pf] D(11) by simp
  next
    case True
    have b: "vm_byte (after_fault sy as' vm') j v = (case frame_at as' (page_of v) of None \<Rightarrow> 0 | Some q \<Rightarrow> vm_mem (sy_vm sy) (q + v mod PAGE_SIZE))"
      unfolding vm_byte_def pf_after [OF pf] D(11) by (simp add: True)
    show ?thesis
    proof (cases "frame_at as (page_of v)")
      case (Some q)
      then show ?thesis using pf_frame_mono [OF pf Some] b vm_byte_frame [OF pf_get [OF pf], of v] True by simp
    next
      case None
      have z: "vm_byte sy j v = 0" using None vm_byte_frame [OF pf_get [OF pf], of v] True by simp
      show ?thesis
      proof (cases "frame_at as' (page_of v)")
        case None then show ?thesis using b z by simp
      next
        case (Some q)
        then obtain y where y: "slot_of as (page_of v) = Some y" "slot_frame as' y = Some q"
          using frame_at_slot as_simD(5) [OF D(4)] by metis
        have "y = x \<and> q = pa \<and> slot_frame as x = None"
          using y \<open>frame_at as (page_of v) = None\<close> by (auto simp: D(6) frame_at_def split: if_splits)
        then have "q = firstpaddr (vm_ram (sy_vm sy))" "q + PAGE_SIZE \<le> lastpaddr (vm_ram (sy_vm sy))" using D(12) by auto
        moreover have "v mod PAGE_SIZE < PAGE_SIZE" by (rule off_less)
        ultimately have "vm_mem (sy_vm sy) (q + v mod PAGE_SIZE) = 0"
          using vsys_okD(8) [OF D(1), of "q + v mod PAGE_SIZE"] by linarith
        then show ?thesis using b z Some by simp
      qed
    qed
  qed
qed

lemma pf_match:
  assumes pf: "page_fault sy as as' vm' i x va pa ro k"
  shows "tlb_match va (vm_tlb vm') = Some (mk_elo pa ro)"
proof -
  note D = page_faultD [OF pf]
  have len: "length (vm_tlb vm') = NUM_TLB" using vsys_okD(3) [OF D(1)] D(7) by (simp add: tlb_shape_def)
  have v: "va < 2 ^ 32" using D(14) by (simp add: USERSPACETOP_def)
  have "(page_of va, mk_elo pa ro) \<in> set (vm_tlb vm')"
    unfolding D(7) using D(8) len by (simp add: set_update_memI D(7))
  then show ?thesis unfolding tlb_match_eq [OF pf_tlb_ok [OF pf] len v] using tlb_okD(2) [OF pf_tlb_ok [OF pf]] by simp
qed

subsection \<open>Loads and stores\<close>

definition mapped :: "addrspace \<Rightarrow> nat \<Rightarrow> bool" where
  "mapped as va \<longleftrightarrow> as_segment as (page_of va) \<noteq> None"

text \<open>Memory is left for the page: it is loaded, or a frame is free.\<close>

definition can_load :: "vmsys \<Rightarrow> addrspace \<Rightarrow> nat \<Rightarrow> bool" where
  "can_load sy as va \<longleftrightarrow> frame_at as (page_of va) \<noteq> None \<or>
     firstpaddr (vm_ram (sy_vm sy)) + PAGE_SIZE \<le> lastpaddr (vm_ram (sy_vm sy))"

lemma tlb_len: "vsys_ok sy \<Longrightarrow> length (vm_tlb (sy_vm sy)) = NUM_TLB"
  using vsys_okD(3) by (auto simp: tlb_shape_def)

lemma tlb_miss:
  assumes "vsys_ok sy" "cur_space sy = Some as" "va < USERSPACETOP" "tlb_match va (vm_tlb (sy_vm sy)) = None"
  shows "page_of va \<notin> fst ` set (vm_tlb (sy_vm sy))"
proof -
  have "va < 2 ^ 32" using assms(3) by (simp add: USERSPACETOP_def)
  then show ?thesis
    using assms(4) tlb_match_eq [OF vsys_okD(7) [OF assms(1,2)] tlb_len [OF assms(1)]] by (simp add: map_of_eq_None_iff)
qed

lemma vm_fault_page_fault:
  assumes ok: "vsys_ok sy" and cur: "cur_space sy = Some as" "sy_cur sy = Some i" and rd: "as_ready as"
    and va: "va < USERSPACETOP" "mapped as va" "can_load sy as va"
    and miss: "tlb_match va (vm_tlb (sy_vm sy)) = None"
    and ft: "ft = VM_FAULT_READ \<or> ft = VM_FAULT_WRITE"
  obtains as' vm' x pa k where
    "vm_fault ft va (Some as) (sy_vm sy) = Some (FaultReturn (Inr ()), Some as', vm')"
    "page_fault sy as as' vm' i x va pa (as_segment as (page_of va) = Some CODE \<and> loaded as) k"
proof -
  have get: "space_get sy i = Some as" using cur by (simp add: cur_space_def)
  have aok: "as_ok as" by (rule vsys_okD(4) [OF ok get])
  have v: "va < 2 ^ 32" using va(1) by (simp add: USERSPACETOP_def)
  obtain t where t: "as_segment as (page_of va) = Some t" using va(2) by (auto simp: mapped_def)
  obtain x where x: "slot_of as (page_of va) = Some x" using t by (simp add: slot_of_def)
  have fa: "frame_at as (page_of va) = slot_frame as x" by (simp add: frame_at_def x)
  obtain pa as' r s k w where run:
      "vm_fault ft va (Some as) (sy_vm sy) = Some (FaultReturn (Inr ()), Some as', (sy_vm sy)\<lparr>vm_ram := r, vm_stats := s,
         vm_tlb := (vm_tlb (sy_vm sy))[k := (page_of va, mk_elo pa (t = CODE \<and> loaded as))], next_victim := w\<rparr>)"
      "as_sim as as'" "slot_frame as' = (slot_frame as)(x := Some pa)" "k < NUM_TLB" "w < NUM_TLB"
      "vmstats_ok ((sy_vm sy)\<lparr>vm_stats := s\<rparr>)"
      "slot_frame as x = Some pa \<and> r = vm_ram (sy_vm sy) \<or>
       slot_frame as x = None \<and> pa = firstpaddr (vm_ram (sy_vm sy)) \<and> pa + PAGE_SIZE \<le> lastpaddr (vm_ram (sy_vm sy)) \<and>
       r = (vm_ram (sy_vm sy))\<lparr>firstpaddr := pa + PAGE_SIZE\<rparr>"
    by (rule vm_fault_run [OF aok rd v refl ft vsys_okD(2,3,1) [OF ok] t x])
      (use frame_below [OF ok get] va(3) fa in \<open>auto simp: can_load_def\<close>)
  let ?vm = "(sy_vm sy)\<lparr>vm_ram := r, vm_stats := s,
         vm_tlb := (vm_tlb (sy_vm sy))[k := (page_of va, mk_elo pa (t = CODE \<and> loaded as))], next_victim := w\<rparr>"
  have st: "vmstats_ok ?vm" using run(6) by (simp add: vmstats_ok_def vmstats_ready_def stat_def)
  have "page_fault sy as as' ?vm i x va pa (as_segment as (page_of va) = Some CODE \<and> loaded as) k"
    unfolding page_fault_def using ok cur run(2-5,7) st x tlb_miss [OF ok cur(1) va(1) miss] va(1) t by simp
  from that [OF run(1) this] show thesis .
qed

text \<open>Writing a byte below the free memory keeps the invariant.\<close>

definition poke :: "vmsys \<Rightarrow> nat \<Rightarrow> u8 \<Rightarrow> vmsys" where
  "poke sy pa b = sy\<lparr>sy_vm := (sy_vm sy)\<lparr>vm_mem := (vm_mem (sy_vm sy))(pa := b)\<rparr>\<rparr>"

lemma poke_simps [simp]:
  "vm_ram (sy_vm (poke sy pa b)) = vm_ram (sy_vm sy)" "vm_tlb (sy_vm (poke sy pa b)) = vm_tlb (sy_vm sy)"
  "vm_mem (sy_vm (poke sy pa b)) = (vm_mem (sy_vm sy))(pa := b)" "sy_kern (poke sy pa b) = sy_kern sy"
  "vmstats_ok (sy_vm (poke sy pa b)) = vmstats_ok (sy_vm sy)" "tlb_shape (sy_vm (poke sy pa b)) = tlb_shape (sy_vm sy)"
  "space_get (poke sy pa b) j = space_get sy j" "sy_cur (poke sy pa b) = sy_cur sy"
  by (simp_all add: poke_def tlb_shape_def space_get_def)

lemma poke_spaces [simp]: "cur_space (poke sy pa b) = cur_space sy" "sframe (poke sy pa b) p = sframe sy p"
  by (simp_all add: cur_space_def sframe_def split: option.split)

lemma poke_ok:
  assumes "vsys_ok sy" "pa < firstpaddr (vm_ram (sy_vm sy))"
  shows "vsys_ok (poke sy pa b)"
proof -
  have "frames_ok (poke sy pa b) = frames_ok sy" "kern_ok (poke sy pa b) = kern_ok sy"
    by (simp_all add: frames_ok_def kern_ok_def)
  then show ?thesis using assms unfolding vsys_ok_def by simp
qed

lemma after_fault_same: "cur_space sy = Some as \<Longrightarrow> after_fault sy as vm = sy\<lparr>sy_vm := vm\<rparr>"
proof -
  assume "cur_space sy = Some as"
  then obtain i where "sy_cur sy = Some i" "i < length (sy_spaces sy)" "sy_spaces sy ! i = Some as"
    using cur_spaceD [of sy as] by (auto simp: space_get_def)
  then show ?thesis using list_update_id [of "sy_spaces sy" i] by (simp add: after_fault_def set_cur_space_def)
qed

text \<open>A store changes one byte of one address space.\<close>

lemma vm_byte_poke:
  assumes ok: "vsys_ok sy" and get: "space_get sy i = Some as" and fr: "frame_at as (page_of va) = Some pa"
  shows "vm_byte (poke sy (pa + va mod PAGE_SIZE) b) j v = (if j = i \<and> v = va then b else vm_byte sy j v)"
proof -
  obtain x where x: "slot_of as (page_of va) = Some x" "slot_frame as x = Some pa" using frame_at_slot [OF fr] by blast
  note fb = frame_below [OF ok get x(2)]
  show ?thesis
  proof (cases "\<exists>as' q. space_get sy j = Some as' \<and> frame_at as' (page_of v) = Some q \<and> q + v mod PAGE_SIZE = pa + va mod PAGE_SIZE")
    case False
    then have "\<not> (j = i \<and> v = va)" using get fr by blast
    moreover have "vm_byte (poke sy (pa + va mod PAGE_SIZE) b) j v = vm_byte sy j v"
      using False by (cases "space_get sy j") (auto simp: vm_byte_def split: option.splits)
    ultimately show ?thesis by auto
  next
    case True
    then obtain as' q where q: "space_get sy j = Some as'" "frame_at as' (page_of v) = Some q"
      "q + v mod PAGE_SIZE = pa + va mod PAGE_SIZE" by blast
    obtain y where y: "slot_of as' (page_of v) = Some y" "slot_frame as' y = Some q" using frame_at_slot [OF q(2)] by blast
    have e: "q = pa" "v mod PAGE_SIZE = va mod PAGE_SIZE"
      using frame_off_eq [OF frame_below(1) [OF ok q(1) y(2)] fb(1) off_less off_less q(3)] by simp_all
    have "(j, y) = (i, x)"
      using frames_okD(4) [OF vsys_okD(5) [OF ok], of "(j, y)" pa "(i, x)"] sframe_cur [OF q(1)] sframe_cur [OF get] y(2) x(2) e(1) by simp
    then have "page_of v = page_of va"
      using slot_of_inj [OF vsys_okD(4) [OF ok get] _ x(1)] y(1) q(1) get page_of_dvd by simp
    then have "v = va" using e(2) page_of_off by metis
    then show ?thesis using \<open>(j, y) = (i, x)\<close> get fr by (simp add: vm_byte_def)
  qed
qed

text \<open>An access that the TLB permits.\<close>

definition bytes_after :: "vm_access \<Rightarrow> nat \<Rightarrow> nat \<Rightarrow> (nat \<Rightarrow> nat \<Rightarrow> u8) \<Rightarrow> nat \<Rightarrow> nat \<Rightarrow> u8" where
  "bytes_after a i va m = (case a of Load \<Rightarrow> m | Store b \<Rightarrow> m(i := (m i)(va := b)))"

definition byte_got :: "vm_access \<Rightarrow> nat \<Rightarrow> nat \<Rightarrow> (nat \<Rightarrow> nat \<Rightarrow> u8) \<Rightarrow> u8" where
  "byte_got a i va m = (case a of Load \<Rightarrow> m i va | Store b \<Rightarrow> b)"

lemma access_permitted:
  assumes ok: "vsys_ok sy" and cur: "cur_space sy = Some as" "sy_cur sy = Some i" and va: "va < USERSPACETOP"
    and tr: "access_trap a va (sy_vm sy) = None"
  obtains vm where "access_mem a (phys_addr va (sy_vm sy)) (sy_vm sy) = (byte_got a i va (vm_byte sy), vm)"
    "vsys_ok (after_fault sy as vm)" "vm_byte (after_fault sy as vm) = bytes_after a i va (vm_byte sy)"
proof -
  have get: "space_get sy i = Some as" using cur by (simp add: cur_space_def)
  obtain elo where m: "tlb_match va (vm_tlb (sy_vm sy)) = Some elo"
    using tr va by (auto simp: access_trap_def split: option.splits)
  have "entry_ok as (page_of va, elo)" by (rule tlb_match_Some [OF vsys_okD(7) [OF ok cur(1)] tlb_len [OF ok] va m])
  then obtain pa ro where pa: "frame_at as (page_of va) = Some pa" "elo = mk_elo pa ro" by (auto simp: entry_ok_def)
  obtain x where x: "slot_of as (page_of va) = Some x" "slot_frame as x = Some pa" using frame_at_slot [OF pa(1)] by blast
  note fb = frame_below [OF ok get x(2)]
  have ph: "phys_addr va (sy_vm sy) = pa + va mod PAGE_SIZE" using m pa(2) mk_elo_frame [OF fb(1,3)] by (simp add: phys_addr_def)
  show thesis
  proof (cases a)
    case Load
    have "after_fault sy as (sy_vm sy) = sy" by (simp add: after_fault_same [OF cur(1)])
    then show thesis using that [of "sy_vm sy"] ok Load ph pa(1) vm_byte_frame [OF get, of va]
      by (simp add: access_mem_def bytes_after_def byte_got_def)
  next
    case (Store b)
    let ?q = "pa + va mod PAGE_SIZE"
    have p: "after_fault sy as ((sy_vm sy)\<lparr>vm_mem := (vm_mem (sy_vm sy))(?q := b)\<rparr>) = poke sy ?q b"
      by (simp add: after_fault_same [OF cur(1)] poke_def)
    have "?q < firstpaddr (vm_ram (sy_vm sy))" using fb(2) off_less [of va] by linarith
    then have o: "vsys_ok (poke sy ?q b)" by (rule poke_ok [OF ok])
    have "vm_byte (poke sy ?q b) = (vm_byte sy)(i := (vm_byte sy i)(va := b))"
      by (intro ext) (simp add: vm_byte_poke [OF ok get pa(1)])
    then show thesis using that [of "(sy_vm sy)\<lparr>vm_mem := (vm_mem (sy_vm sy))(?q := b)\<rparr>"] o Store ph p
      by (simp add: access_mem_def bytes_after_def byte_got_def)
  qed
qed

text \<open>
  What an access may do according to the abstract memory: an address of the kernel or outside
  the three segments ends the process (or the copy), any other load returns the byte, any
  other store changes it, and a store to the code of a loaded program may instead end the
  process with exit code 0.
\<close>

definition access_spec ::
    "bool \<Rightarrow> vm_access \<Rightarrow> nat \<Rightarrow> nat \<Rightarrow> addrspace \<Rightarrow> (nat \<Rightarrow> nat \<Rightarrow> u8) \<Rightarrow> access_outcome \<Rightarrow> (nat \<Rightarrow> nat \<Rightarrow> u8) \<Rightarrow> bool" where
  "access_spec iskern a i va as m out m' \<longleftrightarrow>
     (if va \<ge> USERSPACETOP then out = Exited (if a = Load then 4 else 5) \<and> m' = m
      else if \<not> mapped as va then out = (if iskern then Badfault else Exited (if a = Load then 2 else 3)) \<and> m' = m
      else out = Val (byte_got a i va m) \<and> m' = bytes_after a i va m \<or>
        a \<noteq> Load \<and> as_segment as (page_of va) = Some CODE \<and> loaded as \<and> out = Exited 0 \<and> m' = m)"

lemma access_trap_match:
  assumes "va < USERSPACETOP" "tlb_match va (vm_tlb vm) = Some (mk_elo pa ro)" "PAGE_SIZE dvd pa"
  shows "access_trap a va vm = (if a \<noteq> Load \<and> ro then Some EX_MOD else None)"
  using assms by (auto simp: access_trap_def mk_elo_VALID mk_elo_DIRTY)

lemma user_access_mod:
  "access_trap a va vm = Some EX_MOD \<Longrightarrow> user_access iskern a va (Some as) vm = Some (Exited 0, Some as, vm)"
  by (subst user_access.simps) (simp add: mips_trap_fault_def vm_fault_def Let_def)

lemma user_access_hit:
  assumes ok: "vsys_ok sy" and cur: "cur_space sy = Some as" "sy_cur sy = Some i" and va: "va < USERSPACETOP"
    and m: "tlb_match va (vm_tlb (sy_vm sy)) = Some elo"
  obtains out vm where "user_access iskern a va (Some as) (sy_vm sy) = Some (out, Some as, vm)"
    "vsys_ok (after_fault sy as vm)" "access_spec iskern a i va as (vm_byte sy) out (vm_byte (after_fault sy as vm))"
    "tlb_match va (vm_tlb vm) \<noteq> None"
proof -
  have get: "space_get sy i = Some as" using cur by (simp add: cur_space_def)
  have "entry_ok as (page_of va, elo)" by (rule tlb_match_Some [OF vsys_okD(7) [OF ok cur(1)] tlb_len [OF ok] va m])
  then obtain pa ro where pa: "frame_at as (page_of va) = Some pa" "elo = mk_elo pa ro"
    and ro: "ro \<Longrightarrow> as_segment as (page_of va) = Some CODE \<and> loaded as" by (auto simp: entry_ok_def)
  have mp: "mapped as va" using pa(1) by (cases "as_segment as (page_of va)") (simp_all add: mapped_def frame_at_def slot_of_def)
  obtain x where "slot_frame as x = Some pa" using frame_at_slot [OF pa(1)] by blast
  note fb = frame_below [OF ok get this]
  note tr = access_trap_match [OF va m [unfolded pa(2)] fb(1), of a]
  show thesis
  proof (cases "a \<noteq> Load \<and> ro")
    case True
    have "after_fault sy as (sy_vm sy) = sy" by (simp add: after_fault_same [OF cur(1)])
    then show thesis using that [of "Exited 0" "sy_vm sy"] user_access_mod [of a va "sy_vm sy" iskern as] tr True ok ro va mp m
      by (simp add: access_spec_def)
  next
    case False
    then have tr: "access_trap a va (sy_vm sy) = None" using tr by simp
    obtain vm where vm: "access_mem a (phys_addr va (sy_vm sy)) (sy_vm sy) = (byte_got a i va (vm_byte sy), vm)"
      "vsys_ok (after_fault sy as vm)" "vm_byte (after_fault sy as vm) = bytes_after a i va (vm_byte sy)"
      by (rule access_permitted [OF ok cur va tr])
    have "user_access iskern a va (Some as) (sy_vm sy) = Some (Val (byte_got a i va (vm_byte sy)), Some as, vm)"
      by (subst user_access.simps) (simp add: tr vm(1))
    moreover have "vm_tlb vm = vm_tlb (sy_vm sy)" using vm(1) by (cases a) (auto simp: access_mem_def)
    ultimately show thesis using that vm(2,3) va mp m by (simp add: access_spec_def)
  qed
qed

lemma user_access_kernel_address:
  assumes "va \<ge> USERSPACETOP"
  shows "user_access False a va (Some as) vm = Some (Exited (if a = Load then 4 else 5), Some as, vm)"
  using assms by (subst user_access.simps) (simp add: access_trap_def mips_trap_fault_def kill_curthread_def trap_codes)

lemma user_access_miss:
  assumes "va < USERSPACETOP" "tlb_match va (vm_tlb vm) = None"
  shows "user_access iskern a va curas vm = do {
     (out, curas, vm) \<leftarrow> mips_trap_fault (if a = Load then EX_TLBL else EX_TLBS) va iskern iskern curas vm;
     case out of
       TrapRetry \<Rightarrow> user_access iskern a va curas vm
     | TrapExit c \<Rightarrow> Some (Exited c, curas, vm)
     | TrapBadfault \<Rightarrow> Some (Badfault, curas, vm) }"
  using assms by (subst user_access.simps) (simp add: access_trap_def)

lemma trap_tlb:
  "mips_trap_fault (if a = Load then EX_TLBL else EX_TLBS) va iskern iskern curas vm = do {
     (done, curas, vm) \<leftarrow> vm_fault (if a = Load then VM_FAULT_READ else VM_FAULT_WRITE) va curas vm;
     case done of
       FaultExit c \<Rightarrow> Some (TrapExit c, curas, vm)
     | FaultReturn (Inr _) \<Rightarrow> Some (TrapRetry, curas, vm)
     | FaultReturn (Inl _) \<Rightarrow>
         Some (if iskern then TrapBadfault else TrapExit (if a = Load then 2 else 3), curas, vm) }"
proof -
  have k: "kill_curthread EX_TLBL = Some 2" "kill_curthread EX_TLBS = Some 3" by (simp_all add: kill_curthread_def trap_codes)
  have n: "EX_TLBL \<noteq> EX_MOD" "EX_TLBS \<noteq> EX_MOD" "EX_TLBS \<noteq> EX_TLBL" by (simp_all add: trap_codes)
  show ?thesis
    by (cases iskern; cases "a = Load") (auto simp: mips_trap_fault_def k n split: fault_outcome.splits sum.splits intro!: Option.bind_cong)
qed

lemma user_access_run:
  assumes ok: "vsys_ok sy" and cur: "cur_space sy = Some as" "sy_cur sy = Some i" and rd: "as_ready as"
    and va: "va < 2 ^ 32" "iskern \<Longrightarrow> va < USERSPACETOP" "mapped as va \<Longrightarrow> can_load sy as va"
  obtains out as' vm where "user_access iskern a va (Some as) (sy_vm sy) = Some (out, Some as', vm)"
    "vsys_ok (after_fault sy as' vm)" "access_spec iskern a i va as (vm_byte sy) out (vm_byte (after_fault sy as' vm))"
    "va < USERSPACETOP \<and> mapped as va \<longrightarrow> tlb_match va (vm_tlb vm) \<noteq> None" "as_sim as as'"
proof -
  have get: "space_get sy i = Some as" using cur by (simp add: cur_space_def)
  have same: "after_fault sy as (sy_vm sy) = sy" by (simp add: after_fault_same [OF cur(1)])
  have self: "as_sim as as" using vsys_okD(4) [OF ok get] by (simp add: as_sim_def)
  let ?ft = "if a = Load then VM_FAULT_READ else VM_FAULT_WRITE"
  consider (kern) "va \<ge> USERSPACETOP" | (hit) elo where "va < USERSPACETOP" "tlb_match va (vm_tlb (sy_vm sy)) = Some elo"
    | (out) "va < USERSPACETOP" "tlb_match va (vm_tlb (sy_vm sy)) = None" "\<not> mapped as va"
    | (load) "va < USERSPACETOP" "tlb_match va (vm_tlb (sy_vm sy)) = None" "mapped as va"
    by (cases "tlb_match va (vm_tlb (sy_vm sy))"; cases "va \<ge> USERSPACETOP"; cases "mapped as va") (simp_all add: not_le)
  then show thesis
  proof cases
    case kern
    then have "\<not> iskern" using va(2) by auto
    then show thesis using that [of "Exited (if a = Load then 4 else 5)" as "sy_vm sy"] kern user_access_kernel_address [OF kern] ok same self
      by (simp add: access_spec_def)
  next
    case hit
    show thesis by (rule user_access_hit [OF ok cur hit]) (rule that [OF _ _ _ _ self], assumption+, blast)
  next
    case out
    have "vm_fault ?ft va (Some as) (sy_vm sy) = Some (FaultReturn (Inl EFAULT), Some as, sy_vm sy)"
      using vm_fault_eq [OF vsys_okD(4) [OF ok get] rd va(1) refl, of ?ft] out(3) by (simp add: mapped_def)
    then have "user_access iskern a va (Some as) (sy_vm sy) =
        Some (if iskern then Badfault else Exited (if a = Load then 2 else 3), Some as, sy_vm sy)"
      unfolding user_access_miss [OF out(1,2)] trap_tlb by simp
    then show thesis using that ok same out self by (simp add: access_spec_def)
  next
    case load
    have ft: "?ft = VM_FAULT_READ \<or> ?ft = VM_FAULT_WRITE" by simp
    obtain as' vm' x pa k where f: "vm_fault ?ft va (Some as) (sy_vm sy) = Some (FaultReturn (Inr ()), Some as', vm')"
      and pf: "page_fault sy as as' vm' i x va pa (as_segment as (page_of va) = Some CODE \<and> loaded as) k"
      by (rule vm_fault_page_fault [OF ok cur rd load(1,3) va(3) [OF load(3)] load(2) ft])
    let ?sy = "after_fault sy as' vm'"
    note aft = pf_after [OF pf] and sim = as_simD [OF page_faultD(4) [OF pf]]
    have m: "tlb_match va (vm_tlb (sy_vm ?sy)) = Some (mk_elo pa (as_segment as (page_of va) = Some CODE \<and> loaded as))"
      unfolding aft(1) by (rule pf_match [OF pf])
    obtain out vm where o: "user_access iskern a va (Some as') (sy_vm ?sy) = Some (out, Some as', vm)"
      "vsys_ok (after_fault ?sy as' vm)" "access_spec iskern a i va as' (vm_byte ?sy) out (vm_byte (after_fault ?sy as' vm))"
      "tlb_match va (vm_tlb vm) \<noteq> None"
      by (rule user_access_hit [OF pf_vsys_ok [OF pf] aft(5,2) load(1) m])
    have e: "after_fault ?sy as' vm = after_fault sy as' vm"
      using cur(2) by (simp add: after_fault_def set_cur_space_def)
    have b: "vm_byte ?sy = vm_byte sy" by (intro ext) (rule pf_vm_byte [OF pf])
    have sp: "access_spec iskern a i va as (vm_byte sy) out (vm_byte (after_fault sy as' vm))"
      using o(3) unfolding e b access_spec_def mapped_def sim .
    have "user_access iskern a va (Some as) (sy_vm sy) = Some (out, Some as', vm)"
      unfolding user_access_miss [OF load(1,2)] trap_tlb using f o(1) aft(1) by simp
    then show thesis using that o(2) [unfolded e] sp o(4) page_faultD(4) [OF pf] by blast
  qed
qed

subsection \<open>Every operation keeps the invariant\<close>

lemma no_entry:
  assumes "vsys_ok sy" "cur_space sy = Some as" "va < USERSPACETOP" "frame_at as (page_of va) = None"
  shows "tlb_match va (vm_tlb (sy_vm sy)) = None"
proof (cases "tlb_match va (vm_tlb (sy_vm sy))")
  case (Some elo)
  then have "entry_ok as (page_of va, elo)"
    using tlb_match_Some [OF vsys_okD(7) [OF assms(1,2)] tlb_len [OF assms(1)] assms(3)] by blast
  then show ?thesis using assms(4) by (auto simp: entry_ok_def)
qed simp

text \<open>An access returns only if the space is ready and memory is left for the page.\<close>

lemma user_access_returns:
  assumes ok: "vsys_ok sy" and cur: "cur_space sy = Some as" "sy_cur sy = Some i" and va: "va < USERSPACETOP"
    and r: "user_access iskern a va (Some as) (sy_vm sy) = Some res"
  shows "as_ready as" "mapped as va \<Longrightarrow> can_load sy as va"
proof -
  have get: "space_get sy i = Some as" using cur by (simp add: cur_space_def)
  have aok: "as_ok as" by (rule vsys_okD(4) [OF ok get])
  have v: "va < 2 ^ 32" using va by (simp add: USERSPACETOP_def)
  let ?ft = "if a = Load then VM_FAULT_READ else VM_FAULT_WRITE"
  have fault: "vm_fault ?ft va (Some as) (sy_vm sy) \<noteq> None" if f: "frame_at as (page_of va) = None"
  proof
    assume n: "vm_fault ?ft va (Some as) (sy_vm sy) = None"
    have "user_access iskern a va (Some as) (sy_vm sy) = None"
      unfolding user_access_miss [OF va no_entry [OF ok cur(1) va f]] trap_tlb n by simp
    with r show False by simp
  qed
  show rd: "as_ready as"
  proof (rule ccontr)
    assume n: "\<not> as_ready as"
    then have "frame_at as (page_of va) = None" using as_okD(6) [OF aok n] by (simp add: frame_at_none)
    moreover have "vm_fault ?ft va (Some as) (sy_vm sy) = None"
      using n by (auto simp: vm_fault_def as_ready_def vm_fault_types Let_def kassert_def)
    ultimately show False using fault by simp
  qed
  show "can_load sy as va" if mp: "mapped as va"
  proof (rule ccontr)
    assume n: "\<not> can_load sy as va"
    then have f: "frame_at as (page_of va) = None" and room: "\<not> firstpaddr (vm_ram (sy_vm sy)) + PAGE_SIZE \<le> lastpaddr (vm_ram (sy_vm sy))"
      by (simp_all add: can_load_def)
    obtain t where t: "as_segment as (page_of va) = Some t" using mp by (auto simp: mapped_def)
    obtain pt where pt: "ptable (as_seg as t) = Some pt" "seg_index (as_seg as t) (page_of va) < length pt" using slot_table [OF aok t] .
    have "pt_valid (pt ! seg_index (as_seg as t) (page_of va)) = 0"
      using f t pt by (simp add: frame_at_def slot_of_def slot_frame_def split: if_splits)
    moreover have "page_of va < 2 ^ 32" using v page_of_le [of va] by linarith
    ultimately have "segment_lookup (as_seg as t) (page_of va) w (sy_vm sy) = None" for w
      using segment_lookup_miss [OF as_okD(1) [OF aok] as_segmentD [OF t] _ pt(1) _ vsys_okD(1) [OF ok]] room by simp
    then have "vm_fault ?ft va (Some as) (sy_vm sy) = None"
      using vm_fault_eq [OF aok rd v refl, of ?ft "sy_vm sy"] t by simp
    then show False using fault f by simp
  qed
qed

lemma vm_byte_cong:
  "space_get sy' j = space_get sy j \<Longrightarrow> vm_mem (sy_vm sy') = vm_mem (sy_vm sy) \<Longrightarrow> vm_byte sy' j v = vm_byte sy j v"
  unfolding vm_byte_def by (simp only:)

lemma vsys_ok_no_cur:
  assumes "vsys_ok sy" shows "vsys_ok (sy\<lparr>sy_cur := None\<rparr>)" "vm_byte (sy\<lparr>sy_cur := None\<rparr>) = vm_byte sy"
proof -
  have g: "space_get (sy\<lparr>sy_cur := None\<rparr>) j = space_get sy j" for j by (simp add: space_get_def)
  have s: "sframe (sy\<lparr>sy_cur := None\<rparr>) p = sframe sy p" for p by (simp add: sframe_def g)
  show "vm_byte (sy\<lparr>sy_cur := None\<rparr>) = vm_byte sy" by (intro ext vm_byte_cong) (simp_all add: g)
  have "frames_ok (sy\<lparr>sy_cur := None\<rparr>)" "kern_ok (sy\<lparr>sy_cur := None\<rparr>)"
    using vsys_okD(5,6) [OF assms] by (simp_all add: frames_ok_def kern_ok_def s)
  then show "vsys_ok (sy\<lparr>sy_cur := None\<rparr>)"
    using vsys_okD [OF assms] by (simp add: vsys_ok_def g cur_space_def)
qed

lemma step_access:
  assumes ok: "vsys_ok sy" and op: "vmop_ok (OpAccess iskern a va) sy"
    and st: "vm_step (OpAccess iskern a va) sy = Some (out, sy')"
  shows "vsys_ok sy' \<and> (\<exists>i as ao. sy_cur sy = Some i \<and> space_get sy i = Some as \<and> out = OutAccess ao \<and>
    access_spec iskern a i va as (vm_byte sy) ao (vm_byte sy'))"
proof -
  obtain as where as: "cur_space sy = Some as" and va: "va < 2 ^ 32" "iskern \<Longrightarrow> va < USERSPACETOP"
    using op by (auto simp: vmop_ok_def)
  obtain i where i: "sy_cur sy = Some i" "space_get sy i = Some as" using cur_spaceD [OF as] by blast
  obtain ao as2 vm2 where ua: "user_access iskern a va (Some as) (sy_vm sy) = Some (ao, as2, vm2)"
    and out: "out = OutAccess ao"
    and sy': "sy' = (case ao of Exited _ \<Rightarrow> (set_cur_space as2 (sy\<lparr>sy_vm := vm2\<rparr>))\<lparr>sy_cur := None\<rparr> | _ \<Rightarrow> set_cur_space as2 (sy\<lparr>sy_vm := vm2\<rparr>))"
    using st by (auto simp: vm_step_def as bind_eq_Some_conv Let_def)
  obtain as' where a': "as2 = Some as'" and inv: "vsys_ok (after_fault sy as' vm2)"
    and sp: "access_spec iskern a i va as (vm_byte sy) ao (vm_byte (after_fault sy as' vm2))"
  proof (cases "va \<ge> USERSPACETOP")
    case True
    then have nk: "\<not> iskern" using va(2) by auto
    then have "ao = Exited (if a = Load then 4 else 5)" "as2 = Some as" "vm2 = sy_vm sy"
      using ua user_access_kernel_address [OF True, of a as "sy_vm sy"] by auto
    moreover have "after_fault sy as (sy_vm sy) = sy" by (simp add: after_fault_same [OF as])
    ultimately show thesis using that ok True by (simp add: access_spec_def)
  next
    case False
    then have v: "va < USERSPACETOP" by simp
    note rt = user_access_returns [OF ok as i(1) v ua]
    show thesis by (rule user_access_run [OF ok as i(1) rt(1) va rt(2), of iskern a]) (use ua that in auto)
  qed
  have e: "set_cur_space as2 (sy\<lparr>sy_vm := vm2\<rparr>) = after_fault sy as' vm2" by (simp add: a' after_fault_def)
  have "vsys_ok sy' \<and> vm_byte sy' = vm_byte (after_fault sy as' vm2)"
    unfolding sy' e using inv vsys_ok_no_cur [OF inv] by (cases ao) simp_all
  then show ?thesis using i sp out by auto
qed

text \<open>
  Operations that replace the current space by one with the same frames, or add or remove a
  space without frames.
\<close>

lemma vsys_ok_spaces:
  assumes ok: "vsys_ok sy" and vm: "sy_vm sy' = sy_vm sy" "sy_kern sy' = sy_kern sy"
    and as: "\<And>j a. space_get sy' j = Some a \<Longrightarrow> as_ok a"
    and fr: "\<And>p q. sframe sy' p = Some q \<Longrightarrow> sframe sy p = Some q"
    and cur: "sy_cur sy' \<noteq> None \<Longrightarrow> cur_space sy' \<noteq> None"
      "\<And>a. cur_space sy' = Some a \<Longrightarrow> tlb_ok a (vm_tlb (sy_vm sy))"
  shows "vsys_ok sy'"
proof -
  have "frames_ok sy'"
    using vsys_okD(5) [OF ok] fr unfolding frames_ok_def vm by blast
  moreover have "kern_ok sy'" using vsys_okD(6) [OF ok] by (simp add: kern_ok_def vm)
  ultimately show ?thesis using vsys_okD(1,2,3) [OF ok] vsys_okD(8) [OF ok] as cur unfolding vsys_ok_def vm by blast
qed

lemma no_frames_tlb_ok:
  assumes "tlb_ok as tlb" "\<And>h. frame_at as h = None"
  shows "tlb_ok as' tlb"
proof -
  have "\<not> entry_ok as e" for e using assms(2) by (simp add: entry_ok_def)
  then show ?thesis using assms(1) unfolding tlb_ok_def by blast
qed

lemma step_create:
  assumes ok: "vsys_ok sy" and st: "vm_step (OpCreate kas kpt) sy = Some (out, sy')"
  shows "vsys_ok sy' \<and> vm_byte sy' = vm_byte sy"
proof -
  obtain r where r: "as_create kas kpt = Some r" using st by (auto simp: vm_step_def bind_eq_Some_conv)
  show ?thesis
  proof (cases r)
    case None then show ?thesis using st r ok by (simp add: vm_step_def)
  next
    case (Some a)
    have sy': "sy' = sy\<lparr>sy_spaces := sy_spaces sy @ [Some a]\<rparr>" using st r Some by (simp add: vm_step_def)
    note c = as_create_ok [OF r [unfolded Some]]
    have g: "space_get sy' j = (if j = length (sy_spaces sy) then Some a else space_get sy j)" for j
      by (auto simp: sy' space_get_def nth_append)
    have old: "space_get sy (length (sy_spaces sy)) = None" by (simp add: space_get_def)
    have sc: "sy_cur sy' = sy_cur sy" by (simp add: sy')
    have cs: "cur_space sy' = cur_space sy"
      using vsys_okD(9) [OF ok] old by (cases "sy_cur sy") (auto simp: cur_space_def g sc)
    have "vsys_ok sy'"
      by (rule vsys_ok_spaces [OF ok]) (use c vsys_okD(4,7,9) [OF ok] in \<open>auto simp: cs sc sy' [THEN arg_cong [of _ _ sy_vm]] sy' [THEN arg_cong [of _ _ sy_kern]] g sframe_def split: option.splits if_splits\<close>)
    moreover have "vm_byte sy' j v = vm_byte sy j v" for j v
    proof (cases "j = length (sy_spaces sy)")
      case True
      have "frame_at a (page_of v) = None" using c(3) by (rule frame_at_none)
      then show ?thesis using True old by (simp add: vm_byte_def g)
    next
      case False then show ?thesis by (intro vm_byte_cong) (simp_all add: g, simp add: sy')
    qed
    ultimately show ?thesis by (simp add: fun_eq_iff)
  qed
qed

lemma set_cur_get:
  assumes "cur_space sy = Some as" "sy_cur sy = Some i"
  shows "space_get (set_cur_space (Some a) sy) j = (if j = i then Some a else space_get sy j)"
    "cur_space (set_cur_space (Some a) sy) = Some a" "sy_vm (set_cur_space (Some a) sy) = sy_vm sy"
    "sy_kern (set_cur_space (Some a) sy) = sy_kern sy"
  using after_fault_simps [OF assms, of a "sy_vm sy"] by (simp_all add: after_fault_def)

lemma replace_cur:
  assumes ok: "vsys_ok sy" and cur: "cur_space sy = Some as" "sy_cur sy = Some i"
    and a: "as_ok a" "slot_frame a = slot_frame as" "tlb_ok a (vm_tlb (sy_vm sy))"
    and eq: "\<And>h. frame_at a h = frame_at as h"
  shows "vsys_ok (set_cur_space (Some a) sy) \<and> vm_byte (set_cur_space (Some a) sy) = vm_byte sy"
proof
  note g = set_cur_get [OF cur, of a]
  have get: "space_get sy i = Some as" using cur by (simp add: cur_space_def)
  have f: "sframe (set_cur_space (Some a) sy) p = sframe sy p" for p using get a(2) by (simp add: sframe_def g)
  show "vsys_ok (set_cur_space (Some a) sy)"
    by (rule vsys_ok_spaces [OF ok]) (use a vsys_okD(4) [OF ok] in \<open>auto simp: g f split: if_splits\<close>)
  have "vm_byte (set_cur_space (Some a) sy) j v = vm_byte sy j v" for j v
    unfolding vm_byte_def g(1,3) using get by (simp add: eq)
  then show "vm_byte (set_cur_space (Some a) sy) = vm_byte sy" by (simp add: fun_eq_iff)
qed

lemma step_region:
  assumes ok: "vsys_ok sy" and op: "vmop_ok (OpRegion va sz km) sy" and st: "vm_step (OpRegion va sz km) sy = Some (out, sy')"
  shows "vsys_ok sy' \<and> vm_byte sy' = vm_byte sy"
proof -
  obtain as where as: "cur_space sy = Some as" and va: "va < 2 ^ 32" using op by (auto simp: vmop_ok_def)
  obtain i where i: "sy_cur sy = Some i" "space_get sy i = Some as" using cur_spaceD [OF as] by blast
  obtain r a where a: "as_define_region km as va sz = Some (r, a)" "sy' = set_cur_space (Some a) sy"
    using st as by (auto simp: vm_step_def bind_eq_Some_conv)
  have aok: "as_ok as" by (rule vsys_okD(4) [OF ok i(2)])
  have p: "as_ok a" "slot_frame a = slot_frame as" using as_define_region_ok [OF aok va a(1)] by auto
  have "tlb_ok a (vm_tlb (sy_vm sy)) \<and> (\<forall>h. frame_at a h = frame_at as h)"
  proof (cases "as_ready as")
    case True
    then show ?thesis using as_define_region_ready [OF aok True va, of km sz] a(1) vsys_okD(7) [OF ok as] by simp
  next
    case False
    have "frame_at as h = None" "frame_at a h = None" for h
      using as_okD(6) [OF aok False] p(2) by (simp_all add: frame_at_none)
    then show ?thesis using no_frames_tlb_ok [OF vsys_okD(7) [OF ok as]] by simp
  qed
  then show ?thesis unfolding a(2) using replace_cur [OF ok as i(1) p] by blast
qed

lemma step_complete:
  assumes ok: "vsys_ok sy" and op: "vmop_ok OpComplete sy" and st: "vm_step OpComplete sy = Some (out, sy')"
  shows "vsys_ok sy' \<and> vm_byte sy' = vm_byte sy"
proof -
  obtain as where as: "cur_space sy = Some as" using op by (auto simp: vmop_ok_def)
  obtain i where i: "sy_cur sy = Some i" "space_get sy i = Some as" using cur_spaceD [OF as] by blast
  let ?a = "as\<lparr>loaded := True\<rparr>"
  have sy': "sy' = set_cur_space (Some ?a) sy" using st as by (simp add: vm_step_def as_complete_load_def)
  have "tlb_ok ?a (vm_tlb (sy_vm sy))"
    by (rule tlb_ok_mono [OF vsys_okD(7) [OF ok as] loaded_simps(2)]) (simp_all add: loaded_simps)
  then show ?thesis unfolding sy'
    using replace_cur [OF ok as i(1) as_complete_load_ok [OF vsys_okD(4) [OF ok i(2)]] loaded_simps(4)] loaded_simps(5) by metis
qed

lemma as_activate_eq:
  assumes "vsys_ok sy"
  obtains st where "as_activate True (sy_vm sy) =
      Some ((sy_vm sy)\<lparr>vm_tlb := map (\<lambda>i. (TLBHI_INVALID i, 0)) [0..<NUM_TLB], vm_stats := st\<rparr>)"
    "vmstats_ok ((sy_vm sy)\<lparr>vm_stats := st\<rparr>)"
proof -
  let ?t = "map (\<lambda>i. (TLBHI_INVALID i, 0)) [0..<NUM_TLB]"
  have t: "tlb_invalidate NUM_TLB (sy_vm sy) = Some ((sy_vm sy)\<lparr>vm_tlb := ?t\<rparr>)"
    using tlb_invalidate_eq [of NUM_TLB "sy_vm sy"] tlb_len [OF assms] by simp
  have "vmstats_ok ((sy_vm sy)\<lparr>vm_tlb := ?t\<rparr>)" using vsys_okD(2) [OF assms] by simp
  then obtain st where st: "vm_stat VMSTAT_TLB_INVALIDATE ((sy_vm sy)\<lparr>vm_tlb := ?t\<rparr>) = Some ((sy_vm sy)\<lparr>vm_tlb := ?t, vm_stats := st\<rparr>)"
      "vmstats_ok ((sy_vm sy)\<lparr>vm_tlb := ?t, vm_stats := st\<rparr>)"
    using vm_stat_ok [of "(sy_vm sy)\<lparr>vm_tlb := ?t\<rparr>" VMSTAT_TLB_INVALIDATE] by (auto simp: vmstat_ids)
  show thesis
    by (rule that [of st]) (use t st in \<open>simp_all add: as_activate_def vmstats_ok_def vmstats_ready_def stat_def\<close>)
qed

lemma vsys_ok_switch:
  assumes ok: "vsys_ok sy" and g: "space_get sy i \<noteq> None" and st: "vmstats_ok ((sy_vm sy)\<lparr>vm_stats := st\<rparr>)"
  shows "vsys_ok (sy\<lparr>sy_cur := Some i, sy_vm := (sy_vm sy)\<lparr>vm_tlb := map (\<lambda>i. (TLBHI_INVALID i, 0)) [0..<NUM_TLB], vm_stats := st\<rparr>\<rparr>)"
    (is "vsys_ok ?sy")
proof -
  have s: "space_get ?sy j = space_get sy j" for j by (simp add: space_get_def)
  have f: "sframe ?sy p = sframe sy p" for p by (simp add: sframe_def s)
  have "frames_ok ?sy" "kern_ok ?sy" using vsys_okD(5,6) [OF ok] by (simp_all add: frames_ok_def kern_ok_def f)
  moreover have "tlb_shape (sy_vm ?sy)" using vsys_okD(3) [OF ok] by (simp add: tlb_shape_def)
  moreover have "vmstats_ok (sy_vm ?sy)" using st by (simp add: vmstats_ok_def vmstats_ready_def stat_def)
  moreover have "cur_space ?sy = space_get sy i" by (simp add: cur_space_def space_get_def)
  ultimately show ?thesis
    using vsys_okD(1) [OF ok] vsys_okD(4,8) [OF ok] g invalid_tlb_ok unfolding vsys_ok_def s by simp
qed

lemma step_switch:
  assumes ok: "vsys_ok sy" and op: "vmop_ok (OpSwitch c) sy" and st: "vm_step (OpSwitch c) sy = Some (out, sy')"
  shows "vsys_ok sy' \<and> vm_byte sy' = vm_byte sy"
proof (cases c)
  case None
  then have "sy' = sy\<lparr>sy_cur := None\<rparr>" using st by (simp add: vm_step_def cur_space_def as_activate_def)
  then show ?thesis using vsys_ok_no_cur [OF ok] by simp
next
  case (Some i)
  have g: "space_get sy i \<noteq> None" using op Some by (simp add: vmop_ok_def)
  obtain s where s: "as_activate True (sy_vm sy) =
      Some ((sy_vm sy)\<lparr>vm_tlb := map (\<lambda>i. (TLBHI_INVALID i, 0)) [0..<NUM_TLB], vm_stats := s\<rparr>)"
    "vmstats_ok ((sy_vm sy)\<lparr>vm_stats := s\<rparr>)" by (rule as_activate_eq [OF ok])
  have "cur_space (sy\<lparr>sy_cur := Some i\<rparr>) = space_get sy i" by (simp add: cur_space_def space_get_def)
  then have "cur_space (sy\<lparr>sy_cur := Some i\<rparr>) \<noteq> None" using g by simp
  then have sy': "sy' = sy\<lparr>sy_cur := Some i, sy_vm := (sy_vm sy)\<lparr>vm_tlb := map (\<lambda>i. (TLBHI_INVALID i, 0)) [0..<NUM_TLB], vm_stats := s\<rparr>\<rparr>"
    using st Some s(1) by (simp add: vm_step_def)
  have "vm_byte sy' j v = vm_byte sy j v" for j v by (rule vm_byte_cong) (simp_all add: sy' space_get_def)
  then show ?thesis using vsys_ok_switch [OF ok g s(2)] sy' by (simp add: fun_eq_iff)
qed

lemma step_kpages:
  assumes ok: "vsys_ok sy" and op: "vmop_ok (OpKpages n) sy" and st: "vm_step (OpKpages n) sy = Some (out, sy')"
  shows "vsys_ok sy' \<and> vm_byte sy' = vm_byte sy"
proof -
  let ?r = "vm_ram (sy_vm sy)"
  have n: "n \<le> 2 ^ 19" using op by (simp add: vmop_ok_def)
  obtain pa r where g: "getppages n ?r = Some (pa, r)" and pa: "pa \<noteq> 0"
    and sy': "sy' = sy\<lparr>sy_vm := (sy_vm sy)\<lparr>vm_ram := r\<rparr>, sy_kern := sy_kern sy @ [(sub32 (PADDR_TO_KVADDR pa) MIPS_KSEG0, n * PAGE_SIZE)]\<rparr>"
    using st by (auto simp: vm_step_def alloc_kpages_def getppages_def bind_eq_Some_conv Let_def split: if_splits prod.splits)
  note gp = getppages_ok [OF vsys_okD(1) [OF ok] g n]
  have b: "pa \<le> 532676608" using gp(2) ram_okD(3,4) [OF vsys_okD(1) [OF ok]] by simp
  then have kv: "sub32 (PADDR_TO_KVADDR pa) MIPS_KSEG0 = pa"
    by (simp add: PADDR_TO_KVADDR_def MIPS_KSEG0_def sub32_le)
  have s: "space_get sy' j = space_get sy j" for j by (simp add: sy' space_get_def)
  have f: "sframe sy' p = sframe sy p" for p by (simp add: sframe_def s)
  have sc: "sy_cur sy' = sy_cur sy" by (simp add: sy')
  then have cs: "cur_space sy' = cur_space sy" by (cases "sy_cur sy") (simp_all add: cur_space_def s)
  have sk: "sy_kern sy' = sy_kern sy @ [(pa, n * PAGE_SIZE)]" and sr: "vm_ram (sy_vm sy') = r" by (simp_all add: sy' kv)
  have le: "firstpaddr ?r \<le> firstpaddr r" using gp(4) by simp
  note fo = frames_okD [OF vsys_okD(5) [OF ok]]
  have "PAGE_SIZE dvd q \<and> q + PAGE_SIZE \<le> firstpaddr r \<and>
      (\<forall>k \<in> set (sy_kern sy @ [(pa, n * PAGE_SIZE)]). q + PAGE_SIZE \<le> fst k \<or> fst k + snd k \<le> q)"
    if q: "sframe sy p = Some q" for p q
    using fo(1-3) [OF q] le gp(2) by auto
  then have "frames_ok sy'" unfolding frames_ok_def f sk sr using fo(4) by blast
  moreover have "kern_ok sy'"
    unfolding kern_ok_def sk sr using vsys_okD(6) [OF ok] gp(2,4) le
    by (auto simp: kern_ok_def sorted_wrt_append intro: order_trans)
  moreover have "vm_byte sy' = vm_byte sy" by (intro ext vm_byte_cong) (simp_all add: s, simp add: sy')
  moreover have "vmstats_ok (sy_vm sy')" "tlb_shape (sy_vm sy')" using vsys_okD(2,3) [OF ok] by (simp_all add: sy' tlb_shape_def)
  moreover have "vm_mem (sy_vm sy') a = 0" if "firstpaddr (vm_ram (sy_vm sy')) \<le> a" "a < lastpaddr (vm_ram (sy_vm sy'))" for a
    using that vsys_okD(8) [OF ok, of a] gp by (simp add: sy')
  moreover have "vm_tlb (sy_vm sy') = vm_tlb (sy_vm sy)" by (simp add: sy')
  ultimately show ?thesis
    using gp(1) vsys_okD(4,7,9) [OF ok] unfolding vsys_ok_def s cs sc sr by auto
qed

lemma step_kwrite:
  assumes ok: "vsys_ok sy" and op: "vmop_ok (OpKwrite pa b) sy" and st: "vm_step (OpKwrite pa b) sy = Some (out, sy')"
  shows "vsys_ok sy' \<and> vm_byte sy' = vm_byte sy"
proof -
  have sy': "sy' = poke sy pa b" using st by (simp add: vm_step_def poke_def)
  obtain k where k: "k \<in> set (sy_kern sy)" "fst k \<le> pa" "pa < fst k + snd k" using op by (auto simp: vmop_ok_def in_piece_def)
  have "fst k + snd k \<le> firstpaddr (vm_ram (sy_vm sy))" using vsys_okD(6) [OF ok] k(1) by (simp add: kern_ok_def)
  then have o: "vsys_ok (poke sy pa b)" using poke_ok [OF ok] k(3) by simp
  have "vm_byte (poke sy pa b) j v = vm_byte sy j v" for j v
  proof (cases "\<exists>as q. space_get sy j = Some as \<and> frame_at as (page_of v) = Some q")
    case True
    then obtain as q where q: "space_get sy j = Some as" "frame_at as (page_of v) = Some q" by blast
    obtain y where y: "slot_frame as y = Some q" using frame_at_slot [OF q(2)] by blast
    have "q + PAGE_SIZE \<le> fst k \<or> fst k + snd k \<le> q"
      using frames_okD(3) [OF vsys_okD(5) [OF ok], of "(j, y)" q k] sframe_cur [OF q(1)] y k(1) by simp
    then have "q + v mod PAGE_SIZE \<noteq> pa" using k(2,3) off_less [of v] by linarith
    then show ?thesis using q by (simp add: vm_byte_def)
  next
    case False
    then show ?thesis by (cases "space_get sy j") (auto simp: vm_byte_def split: option.splits)
  qed
  then show ?thesis using o sy' by (simp add: fun_eq_iff)
qed

lemma step_destroy:
  assumes ok: "vsys_ok sy" and op: "vmop_ok (OpDestroy i) sy" and st: "vm_step (OpDestroy i) sy = Some (out, sy')"
  shows "vsys_ok sy' \<and> vm_byte sy' = (vm_byte sy)(i := \<lambda>_. 0)"
proof -
  have i: "i < length (sy_spaces sy)" using op by (simp add: vmop_ok_def)
  have sy': "sy' = sy\<lparr>sy_spaces := (sy_spaces sy)[i := None], sy_cur := (if sy_cur sy = Some i then None else sy_cur sy)\<rparr>"
    using st by (simp add: vm_step_def)
  have g: "space_get sy' j = (if j = i then None else space_get sy j)" for j using i by (simp add: sy' space_get_def)
  have v: "sy_vm sy' = sy_vm sy" "sy_kern sy' = sy_kern sy" "sy_cur sy' = (if sy_cur sy = Some i then None else sy_cur sy)"
    by (simp_all add: sy')
  have cs: "cur_space sy' = (if sy_cur sy = Some i then None else cur_space sy)"
    by (cases "sy_cur sy") (auto simp: cur_space_def g v)
  have "vsys_ok sy'"
  proof (rule vsys_ok_spaces [OF ok v(1,2)])
    show "as_ok a" if "space_get sy' j = Some a" for j a using that vsys_okD(4) [OF ok] by (simp add: g split: if_splits)
    show "sframe sy p = Some q" if "sframe sy' p = Some q" for p q using that by (simp add: sframe_def g split: if_splits)
    show "cur_space sy' \<noteq> None" if "sy_cur sy' \<noteq> None" using that vsys_okD(9) [OF ok] by (auto simp: cs v split: if_splits)
    show "tlb_ok a (vm_tlb (sy_vm sy))" if "cur_space sy' = Some a" for a using that vsys_okD(7) [OF ok] by (simp add: cs split: if_splits)
  qed
  moreover have "vm_byte sy' j v = ((vm_byte sy)(i := \<lambda>_. 0)) j v" for j v
    unfolding vm_byte_def g v(1) by (simp add: vm_byte_def)
  ultimately show ?thesis by blast
qed

subsection \<open>Reachable systems\<close>

lemma vm_boot_ok:
  assumes "ram_ok r" "\<forall>a. firstpaddr r \<le> a \<longrightarrow> m a = 0"
  shows "vsys_ok (vm_boot r m)"
proof -
  have "frames_ok (vm_boot r m)" "kern_ok (vm_boot r m)"
    by (simp_all add: frames_ok_def kern_ok_def sframe_def space_get_def vm_boot_def)
  moreover have "vmstats_ok (sy_vm (vm_boot r m))" "tlb_shape (sy_vm (vm_boot r m))"
    by (simp_all add: vmstats_ok_def vmstats_ready_def stat_def vm_boot_def tlb_shape_def NUM_TLB_def vmstat_ids wrap32_def)
  moreover have "space_get (vm_boot r m) i = None" "cur_space (vm_boot r m) = None" for i
    by (simp_all add: space_get_def cur_space_def vm_boot_def)
  ultimately show ?thesis using assms by (simp add: vsys_ok_def) (simp add: vm_boot_def)
qed

definition op_memory :: "vmop \<Rightarrow> vmsys \<Rightarrow> vmout \<Rightarrow> vmsys \<Rightarrow> bool" where
  "op_memory op sy out sy' =
     (case op of
        OpAccess iskern a va \<Rightarrow>
          (\<exists>i as ao. sy_cur sy = Some i \<and> space_get sy i = Some as \<and> out = OutAccess ao \<and>
             access_spec iskern a i va as (vm_byte sy) ao (vm_byte sy'))
      | OpDestroy i \<Rightarrow> vm_byte sy' = (vm_byte sy)(i := \<lambda>_. 0)
      | _ \<Rightarrow> vm_byte sy' = vm_byte sy)"

lemma step_ok:
  assumes "vsys_ok sy" "vmop_ok op sy" "vm_step op sy = Some (out, sy')"
  shows "vsys_ok sy' \<and> op_memory op sy out sy'"
proof (cases op)
  case (OpAccess iskern a va)
  show ?thesis using step_access [OF assms(1) assms(2,3) [unfolded OpAccess]] by (simp add: op_memory_def OpAccess)
next
  case (OpDestroy i)
  show ?thesis using step_destroy [OF assms(1) assms(2,3) [unfolded OpDestroy]] by (simp add: op_memory_def OpDestroy)
next
  case (OpCreate kas kpt)
  show ?thesis using step_create [OF assms(1) assms(3) [unfolded OpCreate]] by (simp add: op_memory_def OpCreate)
next
  case (OpSwitch c)
  show ?thesis using step_switch [OF assms(1) assms(2,3) [unfolded OpSwitch]] by (simp add: op_memory_def OpSwitch)
next
  case (OpRegion va sz km)
  show ?thesis using step_region [OF assms(1) assms(2,3) [unfolded OpRegion]] by (simp add: op_memory_def OpRegion)
next
  case OpComplete
  show ?thesis using step_complete [OF assms(1) assms(2,3) [unfolded OpComplete]] by (simp add: op_memory_def OpComplete)
next
  case (OpKpages n)
  show ?thesis using step_kpages [OF assms(1) assms(2,3) [unfolded OpKpages]] by (simp add: op_memory_def OpKpages)
next
  case (OpKwrite pa b)
  show ?thesis using step_kwrite [OF assms(1) assms(2,3) [unfolded OpKwrite]] by (simp add: op_memory_def OpKwrite)
qed

lemma reachable_ok:
  assumes "vm_reachable (vm_boot r m) sy" "ram_ok r" "\<forall>a. firstpaddr r \<le> a \<longrightarrow> m a = 0"
  shows "vsys_ok sy"
  using assms(1)
proof induction
  case start then show ?case by (rule vm_boot_ok [OF assms(2,3)])
next
  case step then show ?case using step_ok by blast
qed

lemma step_returns:
  assumes ok: "vsys_ok sy" and cur: "sy_cur sy = Some i" "space_get sy i = Some as" and rd: "as_ready as"
    and va: "va < 2 ^ 32" "iskern \<longrightarrow> va < USERSPACETOP" "mapped as va \<longrightarrow> can_load sy as va"
  shows "\<exists>out sy'. vm_step (OpAccess iskern a va) sy = Some (out, sy')"
proof -
  have cs: "cur_space sy = Some as" using cur by (simp add: cur_space_def)
  obtain ao as' vm where "user_access iskern a va (Some as) (sy_vm sy) = Some (ao, Some as', vm)"
    by (rule user_access_run [OF ok cs cur(1) rd va(1) va(2) [rule_format] va(3) [rule_format], where a = a])
  then show ?thesis by (simp add: vm_step_def cs Let_def)
qed

subsection \<open>Code of a loaded program\<close>

definition tlb_writable :: "nat \<Rightarrow> vmstate \<Rightarrow> bool" where
  "tlb_writable va vm \<longleftrightarrow>
     (case tlb_match va (vm_tlb vm) of None \<Rightarrow> False | Some elo \<Rightarrow> elo AND TLBLO_DIRTY \<noteq> 0)"

lemma code_store:
  assumes ok: "vsys_ok sy" and cur: "sy_cur sy = Some i" "space_get sy i = Some as" and rd: "as_ready as"
    and code: "loaded as" "as_segment as (page_of va) = Some CODE"
    and va: "va < USERSPACETOP" "can_load sy as va"
  shows "\<exists>as' vm. user_access iskern (Store b) va (Some as) (sy_vm sy) =
    Some (if tlb_writable va (sy_vm sy) then Val b else Exited 0, as', vm)"
proof -
  have cs: "cur_space sy = Some as" using cur by (simp add: cur_space_def)
  have v: "va < 2 ^ 32" using va(1) by (simp add: USERSPACETOP_def)
  show ?thesis
  proof (cases "tlb_match va (vm_tlb (sy_vm sy))")
    case (Some elo)
    then have "entry_ok as (page_of va, elo)"
      using tlb_match_Some [OF vsys_okD(7) [OF ok cs] tlb_len [OF ok] va(1)] by blast
    then obtain pa ro where pa: "frame_at as (page_of va) = Some pa" "elo = mk_elo pa ro" by (auto simp: entry_ok_def)
    obtain x where "slot_frame as x = Some pa" using frame_at_slot [OF pa(1)] by blast
    then have al: "PAGE_SIZE dvd pa" by (rule frame_below(1) [OF ok cur(2)])
    note tr = access_trap_match [OF va(1) Some [unfolded pa(2)] al, of "Store b"]
    have w: "tlb_writable va (sy_vm sy) \<longleftrightarrow> \<not> ro" using Some pa(2) mk_elo_DIRTY [OF al] by (simp add: tlb_writable_def)
    show ?thesis
    proof (cases ro)
      case True
      then show ?thesis using user_access_mod [of "Store b" va "sy_vm sy" iskern as] tr w by simp
    next
      case False
      then show ?thesis using tr w by (subst user_access.simps) (simp add: access_mem_def)
    qed
  next
    case None
    have mp: "mapped as va" using code(2) by (simp add: mapped_def)
    have ft: "VM_FAULT_WRITE = VM_FAULT_READ \<or> VM_FAULT_WRITE = VM_FAULT_WRITE" by simp
    obtain as' vm' x pa k where f: "vm_fault VM_FAULT_WRITE va (Some as) (sy_vm sy) = Some (FaultReturn (Inr ()), Some as', vm')"
      and pf: "page_fault sy as as' vm' i x va pa (as_segment as (page_of va) = Some CODE \<and> loaded as) k"
      by (rule vm_fault_page_fault [OF ok cs cur(1) rd va(1) mp va(2) None ft])
    have m: "tlb_match va (vm_tlb vm') = Some (mk_elo pa True)" using pf_match [OF pf] code by simp
    have "slot_frame as' x = Some pa" using page_faultD(6) [OF pf] by simp
    then have "PAGE_SIZE dvd pa"
      using frame_below(1) [OF pf_vsys_ok [OF pf], of i as' x pa] pf_after(4) [OF pf] by simp
    then have "access_trap (Store b) va vm' = Some EX_MOD" using access_trap_match [OF va(1) m, of "Store b"] by simp
    then have "user_access iskern (Store b) va (Some as') vm' = Some (Exited 0, Some as', vm')" by (rule user_access_mod)
    then have "user_access iskern (Store b) va (Some as) (sy_vm sy) = Some (Exited 0, Some as', vm')"
      unfolding user_access_miss [OF va(1) None] trap_tlb using f by simp
    then show ?thesis using None by (simp add: tlb_writable_def)
  qed
qed

subsection \<open>Properties\<close>

text \<open>
  C2. Loads and stores behave like a memory per address space. From the state after boot, with
  the free physical memory zero, run any operations: create, switch, load and destroy address
  spaces, let the kernel take pages and write its own memory. Then a load of a process from one
  of its segments returns the byte it last stored there, or 0, whatever was evicted from the
  TLB or run in between; a store changes exactly that byte of exactly that address space; an
  access outside the segments ends the process (or the kernel's copy) and changes nothing; and
  no other operation changes a byte of any address space, except that a destroyed one is gone.
\<close>

theorem vm_memory_refined:
  assumes "ram_ok r" "\<forall>a. firstpaddr r \<le> a \<longrightarrow> m a = 0"
    and "vm_reachable (vm_boot r m) sy" "vmop_ok op sy" "vm_step op sy = Some (out, sy')"
  shows "op_memory op sy out sy'"
  using step_ok [OF reachable_ok [OF assms(3,1,2)] assms(4,5)] by blast

text \<open>
  C7. No memory is shared by accident. In every reachable state the frame in a page table is page
  aligned and below the free memory, two different entries of the page tables of all address
  spaces hold different frames, no frame overlaps a piece of memory the kernel holds, the
  pieces of the kernel do not overlap each other, and every valid entry of the TLB maps a page
  of the current address space to the frame that its page table has for it, with no page
  entered twice.
\<close>

theorem vm_frames_isolated:
  assumes "ram_ok r" "\<forall>a. firstpaddr r \<le> a \<longrightarrow> m a = 0" "vm_reachable (vm_boot r m) sy"
  shows "(\<forall>p pa. sframe sy p = Some pa \<longrightarrow> PAGE_SIZE dvd pa \<and> pa + PAGE_SIZE \<le> firstpaddr (vm_ram (sy_vm sy))) \<and>
    (\<forall>p q pa. sframe sy p = Some pa \<longrightarrow> sframe sy q = Some pa \<longrightarrow> p = q) \<and>
    (\<forall>p pa k a. sframe sy p = Some pa \<longrightarrow> k \<in> set (sy_kern sy) \<longrightarrow> in_piece a k \<longrightarrow> \<not> in_piece a (pa, PAGE_SIZE)) \<and>
    sorted_wrt (\<lambda>j k. fst j + snd j \<le> fst k) (sy_kern sy) \<and>
    (\<forall>as hi lo. cur_space sy = Some as \<longrightarrow> (hi, lo) \<in> set (vm_tlb (sy_vm sy)) \<longrightarrow> lo AND TLBLO_VALID \<noteq> 0 \<longrightarrow>
       frame_at as hi = Some (lo AND PAGE_FRAME)) \<and>
    (cur_space sy \<noteq> None \<longrightarrow> distinct (map fst (vm_tlb (sy_vm sy))))"
proof (intro conjI allI impI)
  note ok = reachable_ok [OF assms(3,1,2)]
  note fo = frames_okD [OF vsys_okD(5) [OF ok]]
  show "PAGE_SIZE dvd pa" "pa + PAGE_SIZE \<le> firstpaddr (vm_ram (sy_vm sy))" if "sframe sy p = Some pa" for p pa
    using fo(1,2) [OF that] by simp_all
  show "p = q" if "sframe sy p = Some pa" "sframe sy q = Some pa" for p q pa by (rule fo(4) [OF that])
  show "\<not> in_piece a (pa, PAGE_SIZE)" if "sframe sy p = Some pa" "k \<in> set (sy_kern sy)" "in_piece a k" for p pa k a
    using fo(3) [OF that(1,2)] that(3) by (auto simp: in_piece_def)
  show "sorted_wrt (\<lambda>j k. fst j + snd j \<le> fst k) (sy_kern sy)" using vsys_okD(6) [OF ok] by (simp add: kern_ok_def)
  show "distinct (map fst (vm_tlb (sy_vm sy)))" if "cur_space sy \<noteq> None"
    using that tlb_okD(2) [OF vsys_okD(7) [OF ok]] by auto
next
  fix as hi lo assume as: "cur_space sy = Some as" and e: "(hi, lo) \<in> set (vm_tlb (sy_vm sy))" and v: "lo AND TLBLO_VALID \<noteq> 0"
  note ok = reachable_ok [OF assms(3,1,2)]
  obtain i where i: "space_get sy i = Some as" using cur_spaceD [OF as] by blast
  obtain k where k: "k < NUM_TLB" "(hi, lo) = vm_tlb (sy_vm sy) ! k" using e tlb_len [OF ok] by (auto simp: in_set_conv_nth)
  have "lo \<noteq> 0" using v by (rule contrapos_nn) simp
  then have "(hi, lo) \<noteq> (TLBHI_INVALID k, 0)" by simp
  then have "entry_ok as (hi, lo)" using tlb_okD(1) [OF vsys_okD(7) [OF ok as] k(1)] k(2) by simp
  then obtain pa ro where pa: "frame_at as hi = Some pa" "lo = mk_elo pa ro" by (auto simp: entry_ok_def)
  obtain x where "slot_frame as x = Some pa" using frame_at_slot [OF pa(1)] by blast
  then show "frame_at as hi = Some (lo AND PAGE_FRAME)"
    using frame_below(1,3) [OF ok i] mk_elo_frame pa by simp
qed

text \<open>
  C13. An access ends. In every reachable state in which the current address space has its two
  regions, a load or a store at any address returns after at most two exceptions, as long as
  the page is loaded or a frame is free: no assertion of \<open>vm_fault\<close> fails and the access is not
  retried for ever.
\<close>

theorem vm_access_returns:
  assumes "ram_ok r" "\<forall>a. firstpaddr r \<le> a \<longrightarrow> m a = 0" "vm_reachable (vm_boot r m) sy"
    and "sy_cur sy = Some i" "space_get sy i = Some as" "as_ready as"
    and "va < 2 ^ 32" "iskern \<longrightarrow> va < USERSPACETOP" "mapped as va \<longrightarrow> can_load sy as va"
  shows "\<exists>out sy'. vm_step (OpAccess iskern a va) sy = Some (out, sy')"
  using step_returns [OF reachable_ok [OF assms(3,1,2)] assms(4-9)] .

text \<open>
  C23. A store to the code of a loaded program. It ends the process with exit code 0, unless the
  TLB still has an entry for the page that was made while the program was being loaded: then
  the store goes through, because \<open>as_complete_load\<close> does not clear the TLB. After the next
  switch to the address space no entry is left, and every such store ends the process.
\<close>

theorem code_store_outcome:
  assumes "ram_ok r" "\<forall>a. firstpaddr r \<le> a \<longrightarrow> m a = 0" "vm_reachable (vm_boot r m) sy"
    and "sy_cur sy = Some i" "space_get sy i = Some as" "as_ready as"
    and "loaded as" "as_segment as (page_of va) = Some CODE" "va < USERSPACETOP" "can_load sy as va"
  shows "(\<exists>sy'. vm_step (OpAccess iskern (Store b) va) sy =
      Some (OutAccess (if tlb_writable va (sy_vm sy) then Val b else Exited 0), sy')) \<and>
    (\<exists>sy'. vm_step (OpSwitch (Some i)) sy = Some (OutNone, sy') \<and> \<not> tlb_writable va (sy_vm sy'))"
proof
  note ok = reachable_ok [OF assms(3,1,2)]
  have cs: "cur_space sy = Some as" using assms(4,5) by (simp add: cur_space_def)
  show "\<exists>sy'. vm_step (OpAccess iskern (Store b) va) sy =
      Some (OutAccess (if tlb_writable va (sy_vm sy) then Val b else Exited 0), sy')"
    using code_store [OF ok assms(4-10), of iskern b] cs by (auto simp: vm_step_def)
  let ?t = "map (\<lambda>i. (TLBHI_INVALID i, 0)) [0..<NUM_TLB]"
  obtain st where st: "as_activate True (sy_vm sy) = Some ((sy_vm sy)\<lparr>vm_tlb := ?t, vm_stats := st\<rparr>)"
    by (rule as_activate_eq [OF ok])
  have "tlb_match va ?t = None"
  proof (rule ccontr)
    assume "tlb_match va ?t \<noteq> None"
    then obtain elo where "tlb_match va ?t = Some elo" by blast
    moreover have v: "va < 2 ^ 32" using assms(9) by (simp add: USERSPACETOP_def)
    ultimately have "map_of ?t (page_of va) = Some elo" using tlb_match_eq [OF invalid_tlb_ok _ v] by simp
    then have "(page_of va, elo) \<in> set ?t" by (rule map_of_SomeD)
    then show False using assms(9) page_of_le [of va] by (auto simp: TLBHI_INVALID_eq)
  qed
  then have nw: "\<not> tlb_writable va ((sy_vm sy)\<lparr>vm_tlb := ?t, vm_stats := st\<rparr>)" by (simp add: tlb_writable_def)
  have "cur_space (sy\<lparr>sy_cur := Some i\<rparr>) = space_get sy i" by (simp add: cur_space_def space_get_def)
  then show "\<exists>sy'. vm_step (OpSwitch (Some i)) sy = Some (OutNone, sy') \<and> \<not> tlb_writable va (sy_vm sy')"
    using st nw assms(5) by (simp add: vm_step_def)
qed

subsection \<open>An example\<close>

text \<open>A machine with 8 megabytes on which a program with a code and a data segment is loaded.\<close>

definition ex_ram :: ram where
  "ex_ram = ram_bootstrap 2147745792 8388608"

definition ex_junk :: pte where
  "ex_junk = \<lparr> pt_valid = 1, pt_dirty = 7, pt_paddr = 99 \<rparr>"

definition ex_space :: addrspace where
  "ex_space = \<lparr> as_vbase1 = 4194304, as_pbase1 = 0, as_npages1 = 2, as_vbase2 = 268435456, as_pbase2 = 0,
      as_npages2 = 1, as_stackpbase = 0,
      as_code = \<lparr> vbase = 4194304, npages = 2, ptable = Some (map pte_create (kblock (\<lambda>_. ex_junk) 2)), tsegment = CODE \<rparr>,
      as_data = \<lparr> vbase = 268435456, npages = 1, ptable = Some (map pte_create (kblock (\<lambda>_. ex_junk) 1)), tsegment = DATA \<rparr>,
      as_stack = \<lparr> vbase = 2147434496, npages = 12, ptable = Some (map pte_create (kblock (\<lambda>_. ex_junk) 12)), tsegment = STACK \<rparr>,
      loaded = True \<rparr>"

lemma ex_ram_eq: "ex_ram = \<lparr> firstpaddr = 262144, lastpaddr = 8388608 \<rparr>"
  by (simp add: ex_ram_def ram_bootstrap_def sub32_def wrap32_def MIPS_KSEG0_def)

lemma ex_ram_ok: "ram_ok ex_ram" by (simp add: ex_ram_eq ram_ok_def PAGE_SIZE_def)

lemma ex_ready:
  "\<exists>sy. vm_reachable (vm_boot ex_ram (\<lambda>_. 0)) sy \<and> sy_cur sy = Some 0 \<and>
     space_get sy 0 = Some (ex_space\<lparr>loaded := False\<rparr>) \<and> vm_ram (sy_vm sy) = ex_ram"
proof -
  let ?km = "Some (\<lambda>_. ex_junk)" and ?s0 = "vm_boot ex_ram (\<lambda>_. 0)"
  let ?a0 = "\<lparr> as_vbase1 = 0, as_pbase1 = 0, as_npages1 = 0, as_vbase2 = 0, as_pbase2 = 0,
      as_npages2 = 0, as_stackpbase = 0,
      as_code = \<lparr> vbase = 0, npages = 0, ptable = None, tsegment = CODE \<rparr>,
      as_data = \<lparr> vbase = 0, npages = 0, ptable = None, tsegment = DATA \<rparr>,
      as_stack = \<lparr> vbase = 2147434496, npages = 12,
        ptable = Some (map pte_create (kblock (\<lambda>_. ex_junk) 12)), tsegment = STACK \<rparr>, loaded = False \<rparr>"
  let ?s1 = "?s0\<lparr>sy_spaces := [Some ?a0]\<rparr>"
  have ok0: "vsys_ok ?s0" by (rule vm_boot_ok [OF ex_ram_ok]) simp
  have c: "as_create (Some (\<lambda>_. ())) ?km = Some (Some ?a0)"
    by (simp add: as_create_def segment_create_def segment_prepare_def Let_def sub32_def wrap32_def vm_consts)
  have 1: "vm_step (OpCreate (Some (\<lambda>_. ())) ?km) ?s0 = Some (OutNone, ?s1)" by (simp add: vm_step_def c) (simp add: vm_boot_def)
  have r1: "vm_reachable ?s0 ?s1" by (rule vm_reachable.step [OF vm_reachable.start _ 1]) (simp add: vmop_ok_def)
  obtain st where st: "as_activate True (sy_vm ?s1) = Some ((sy_vm ?s1)\<lparr>vm_tlb := map (\<lambda>i. (TLBHI_INVALID i, 0)) [0..<NUM_TLB], vm_stats := st\<rparr>)"
    using as_activate_eq [OF step_create [OF ok0 1, THEN conjunct1]] by blast
  let ?s2 = "?s1\<lparr>sy_cur := Some 0, sy_vm := (sy_vm ?s1)\<lparr>vm_tlb := map (\<lambda>i. (TLBHI_INVALID i, 0)) [0..<NUM_TLB], vm_stats := st\<rparr>\<rparr>"
  have 2: "vm_step (OpSwitch (Some 0)) ?s1 = Some (OutNone, ?s2)"
    using st by (simp add: vm_step_def cur_space_def space_get_def)
  have r2: "vm_reachable ?s0 ?s2" by (rule vm_reachable.step [OF r1 _ 2]) (simp add: vmop_ok_def space_get_def)
  let ?a1 = "?a0\<lparr>as_vbase1 := 4194304, as_npages1 := 2, as_code := as_code ex_space\<rparr>"
  let ?a2 = "?a1\<lparr>as_vbase2 := 268435456, as_npages2 := 1, as_data := as_data ex_space\<rparr>"
  let ?s3 = "?s2\<lparr>sy_spaces := [Some ?a1]\<rparr>" and ?s4 = "?s2\<lparr>sy_spaces := [Some ?a2]\<rparr>"
  have d1: "as_define_region ?km ?a0 4194304 8192 = Some (Inr (), ?a1)"
    by (simp add: as_define_region_eq region_pages_def segment_prepare_def wrap32_def PAGE_SIZE_def ex_space_def)
  have d2: "as_define_region ?km ?a1 268435556 100 = Some (Inr (), ?a2)"
    by (simp add: as_define_region_eq region_pages_def segment_prepare_def wrap32_def PAGE_SIZE_def ex_space_def)
  have d3: "?a2 = ex_space\<lparr>loaded := False\<rparr>" by (simp add: ex_space_def)
  have 3: "vm_step (OpRegion 4194304 8192 ?km) ?s2 = Some (OutNone, ?s3)"
    using d1 by (simp add: vm_step_def cur_space_def space_get_def set_cur_space_def)
  have 4: "vm_step (OpRegion 268435556 100 ?km) ?s3 = Some (OutNone, ?s4)"
    using d2 by (simp add: vm_step_def cur_space_def space_get_def set_cur_space_def)
  have r3: "vm_reachable ?s0 ?s3" by (rule vm_reachable.step [OF r2 _ 3]) (simp add: vmop_ok_def cur_space_def space_get_def)
  have r4: "vm_reachable ?s0 ?s4" by (rule vm_reachable.step [OF r3 _ 4]) (simp add: vmop_ok_def cur_space_def space_get_def)
  show ?thesis unfolding d3 [symmetric] by (intro exI [of _ ?s4] conjI r4) (simp_all add: space_get_def vm_boot_def)
qed

text \<open>\<open>as_complete_load\<close> leaves the TLB and the memory as they are.\<close>

lemma complete_step:
  assumes "sy_cur sy = Some i" "space_get sy i = Some as"
  obtains sy' where "vmop_ok OpComplete sy" "vm_step OpComplete sy = Some (OutNone, sy')" "sy_cur sy' = Some i"
    "space_get sy' i = Some (as\<lparr>loaded := True\<rparr>)" "sy_vm sy' = sy_vm sy"
proof -
  have cs: "cur_space sy = Some as" using assms by (simp add: cur_space_def)
  show thesis
    by (rule that [of "set_cur_space (Some (as\<lparr>loaded := True\<rparr>)) sy"])
      (use assms cs set_cur_get [OF cs assms(1)] in \<open>simp_all add: vmop_ok_def vm_step_def as_complete_load_def set_cur_space_def\<close>)
qed

lemma ex_loaded:
  "\<exists>sy. vm_reachable (vm_boot ex_ram (\<lambda>_. 0)) sy \<and> sy_cur sy = Some 0 \<and> space_get sy 0 = Some ex_space \<and>
     vm_ram (sy_vm sy) = ex_ram"
proof -
  obtain sy where sy: "vm_reachable (vm_boot ex_ram (\<lambda>_. 0)) sy" "sy_cur sy = Some 0"
    "space_get sy 0 = Some (ex_space\<lparr>loaded := False\<rparr>)" "vm_ram (sy_vm sy) = ex_ram" using ex_ready by blast
  obtain sy' where c: "vmop_ok OpComplete sy" "vm_step OpComplete sy = Some (OutNone, sy')" "sy_cur sy' = Some 0"
    "space_get sy' 0 = Some (ex_space\<lparr>loaded := False\<rparr>\<lparr>loaded := True\<rparr>)" "sy_vm sy' = sy_vm sy"
    by (rule complete_step [OF sy(2,3)])
  have "ex_space\<lparr>loaded := False\<rparr>\<lparr>loaded := True\<rparr> = ex_space" by (simp add: ex_space_def)
  then show ?thesis using vm_reachable.step [OF sy(1) c(1,2)] c(3-5) sy(4) by auto
qed

lemma ex_space_facts:
  "as_ready ex_space" "loaded ex_space" "as_segment ex_space 4194304 = Some CODE" "page_of 4194304 = 4194304"
  "page_of 268435456 = 268435456" "as_segment ex_space 268435456 = Some DATA"
  by (simp_all add: ex_space_def as_ready_def as_segment_def seg_covers_def seg_top_def wrap32_def page_of_def PAGE_SIZE_def)

lemma ex_can_load: "vm_ram (sy_vm sy) = ex_ram \<Longrightarrow> can_load sy as va"
  by (simp add: can_load_def ex_ram_eq PAGE_SIZE_def)

text \<open>Witness: a store to the data segment of the loaded program.\<close>

theorem vm_memory_refined_witness:
  "\<exists>sy ao sy'. vm_step (OpAccess False (Store 42) 268435456) sy = Some (OutAccess ao, sy') \<and>
     ao = Val 42 \<and> vm_byte sy' 0 268435456 = 42"
proof -
  obtain sy where sy: "vm_reachable (vm_boot ex_ram (\<lambda>_. 0)) sy" "sy_cur sy = Some 0" "space_get sy 0 = Some ex_space"
    "vm_ram (sy_vm sy) = ex_ram" using ex_loaded by blast
  have op: "vmop_ok (OpAccess False (Store 42) 268435456) sy" using sy by (simp add: vmop_ok_def cur_space_def)
  have ok: "vsys_ok sy" by (rule reachable_ok [OF sy(1) ex_ram_ok]) simp
  obtain out sy' where st: "vm_step (OpAccess False (Store 42) 268435456) sy = Some (out, sy')"
    using step_returns [OF ok sy(2,3), of 268435456 False "Store 42"] ex_space_facts ex_can_load [OF sy(4)] by auto
  have "op_memory (OpAccess False (Store 42) 268435456) sy out sy'"
    by (rule vm_memory_refined [OF ex_ram_ok _ sy(1) op st]) simp
  then obtain ao where ao: "out = OutAccess ao"
    and sp: "access_spec False (Store 42) 0 268435456 ex_space (vm_byte sy) ao (vm_byte sy')"
    using sy(2,3) by (auto simp: op_memory_def)
  have "ao = Val 42 \<and> vm_byte sy' 0 268435456 = 42"
    using sp ex_space_facts by (simp add: access_spec_def mapped_def USERSPACETOP_def byte_got_def bytes_after_def)
  then show ?thesis using st ao by blast
qed

text \<open>Witness: the state after loading.\<close>

theorem vm_frames_isolated_witness:
  "\<exists>sy. vm_reachable (vm_boot ex_ram (\<lambda>_. 0)) sy \<and> cur_space sy = Some ex_space \<and> distinct (map fst (vm_tlb (sy_vm sy)))"
proof -
  obtain sy where sy: "vm_reachable (vm_boot ex_ram (\<lambda>_. 0)) sy" "sy_cur sy = Some 0" "space_get sy 0 = Some ex_space"
    using ex_loaded by blast
  then have "cur_space sy = Some ex_space" by (simp add: cur_space_def)
  moreover have "cur_space sy \<noteq> None \<longrightarrow> distinct (map fst (vm_tlb (sy_vm sy)))"
    using vm_frames_isolated [OF ex_ram_ok _ sy(1)] by simp
  ultimately show ?thesis using sy(1) by auto
qed

text \<open>Witness: the first instruction fetch of the loaded program.\<close>

theorem vm_access_returns_witness:
  "\<exists>sy. cur_space sy = Some ex_space \<and> (\<exists>out sy'. vm_step (OpAccess False Load 4194304) sy = Some (out, sy'))"
proof -
  obtain sy where sy: "vm_reachable (vm_boot ex_ram (\<lambda>_. 0)) sy" "sy_cur sy = Some 0" "space_get sy 0 = Some ex_space"
    "vm_ram (sy_vm sy) = ex_ram" using ex_loaded by blast
  have "\<exists>out sy'. vm_step (OpAccess False Load 4194304) sy = Some (out, sy')"
    by (rule vm_access_returns [OF ex_ram_ok _ sy(1-3)]) (simp_all add: ex_space_facts ex_can_load [OF sy(4)])
  moreover have "cur_space sy = Some ex_space" using sy(2,3) by (simp add: cur_space_def)
  ultimately show ?thesis by blast
qed

text \<open>
  Witness: the program is loaded, with one store to its first page while that happens
  (\<open>load_segment\<close> copies the code there). A store of the running program to that page then
  goes through.
\<close>

lemma ex_stale:
  "\<exists>sy as. vm_reachable (vm_boot ex_ram (\<lambda>_. 0)) sy \<and> sy_cur sy = Some 0 \<and> space_get sy 0 = Some as \<and> as_ready as \<and> loaded as \<and>
     as_segment as 4194304 = Some CODE \<and> can_load sy as 4194304 \<and> tlb_writable 4194304 (sy_vm sy)"
proof -
  let ?a = "ex_space\<lparr>loaded := False\<rparr>" and ?op = "OpAccess True (Store 0) 4194304"
  obtain sy where sy: "vm_reachable (vm_boot ex_ram (\<lambda>_. 0)) sy" "sy_cur sy = Some 0"
    "space_get sy 0 = Some ?a" "vm_ram (sy_vm sy) = ex_ram" using ex_ready by blast
  have cs: "cur_space sy = Some ?a" using sy(2,3) by (simp add: cur_space_def)
  have ok: "vsys_ok sy" by (rule reachable_ok [OF sy(1) ex_ram_ok]) simp
  have a: "as_ready ?a" "as_segment ?a (page_of 4194304) = Some CODE" "mapped ?a 4194304"
    using ex_space_facts by (simp_all add: loaded_simps mapped_def)
  have top: "4194304 < USERSPACETOP" by (simp add: USERSPACETOP_def)
  obtain out as' vm where u: "user_access True (Store 0) 4194304 (Some ?a) (sy_vm sy) = Some (out, Some as', vm)"
    "vsys_ok (after_fault sy as' vm)" "access_spec True (Store 0) 0 4194304 ?a (vm_byte sy) out (vm_byte (after_fault sy as' vm))"
    "4194304 < USERSPACETOP \<and> mapped ?a 4194304 \<longrightarrow> tlb_match 4194304 (vm_tlb vm) \<noteq> None" "as_sim ?a as'"
    by (rule user_access_run [OF ok cs sy(2) a(1), of 4194304 True "Store 0"]) (use top ex_can_load [OF sy(4)] in simp_all)
  let ?s = "after_fault sy as' vm"
  note aft = after_fault_simps [OF cs sy(2), of as' vm] and sim = as_simD [OF u(5)]
  have out: "out = Val 0" using u(3) top a by (simp add: access_spec_def byte_got_def)
  have st: "vm_step ?op sy = Some (OutAccess (Val 0), ?s)"
    using u(1) out cs by (simp add: vm_step_def after_fault_def)
  have r: "vm_reachable (vm_boot ex_ram (\<lambda>_. 0)) ?s"
    by (rule vm_reachable.step [OF sy(1) _ st]) (use cs top in \<open>simp add: vmop_ok_def\<close>)
  obtain elo where m: "tlb_match 4194304 (vm_tlb vm) = Some elo" using u(4) top a(3) by blast
  then have "entry_ok as' (page_of 4194304, elo)"
    using tlb_match_Some [OF vsys_okD(7) [OF u(2) aft(5)] tlb_len [OF u(2)] top] aft(1) by simp
  then obtain pa where pa: "frame_at as' (page_of 4194304) = Some pa" "elo = mk_elo pa False"
    using sim(2) by (auto simp: entry_ok_def)
  obtain x where "slot_frame as' x = Some pa" using frame_at_slot [OF pa(1)] by blast
  then have "PAGE_SIZE dvd pa" using frame_below(1) [OF u(2), of 0 as' x pa] aft(4) [of 0] by simp
  then have w: "tlb_writable 4194304 vm" using m pa(2) mk_elo_DIRTY by (simp add: tlb_writable_def)
  obtain sy' where c: "vmop_ok OpComplete ?s" "vm_step OpComplete ?s = Some (OutNone, sy')" "sy_cur sy' = Some 0"
    "space_get sy' 0 = Some (as'\<lparr>loaded := True\<rparr>)" "sy_vm sy' = sy_vm ?s"
    by (rule complete_step [OF aft(2)]) (use aft(4) [of 0] in auto)
  have l: "as_ready (as'\<lparr>loaded := True\<rparr>)" "as_segment (as'\<lparr>loaded := True\<rparr>) 4194304 = Some CODE"
    "frame_at (as'\<lparr>loaded := True\<rparr>) (page_of 4194304) = Some pa"
    using sim(3,4) a(1,2) pa(1) ex_space_facts(4)
    by (simp_all add: loaded_simps)
  then have "can_load sy' (as'\<lparr>loaded := True\<rparr>) 4194304" by (simp add: can_load_def)
  then show ?thesis using vm_reachable.step [OF r c(1,2)] c(3-5) l(1,2) w aft(1) by auto
qed

theorem code_store_outcome_witness:
  "\<exists>sy as sy'. cur_space sy = Some as \<and> loaded as \<and> as_segment as 4194304 = Some CODE \<and>
     vm_step (OpAccess False (Store 1) 4194304) sy = Some (OutAccess (Val 1), sy')"
proof -
  obtain sy as where sy: "vm_reachable (vm_boot ex_ram (\<lambda>_. 0)) sy" "sy_cur sy = Some 0" "space_get sy 0 = Some as"
    "as_ready as" "loaded as" "as_segment as (page_of 4194304) = Some CODE" "can_load sy as 4194304" "tlb_writable 4194304 (sy_vm sy)"
    using ex_stale ex_space_facts(4) by auto
  have "\<exists>sy'. vm_step (OpAccess False (Store 1) 4194304) sy = Some (OutAccess (Val 1), sy')"
    using code_store_outcome [OF ex_ram_ok _ sy(1-6) _ sy(7), of False 1] sy(8) by (simp add: USERSPACETOP_def)
  moreover have "cur_space sy = Some as" using sy(2,3) by (simp add: cur_space_def)
  ultimately show ?thesis using sy(5,6) ex_space_facts(4) by auto
qed

end
