(* ===== verification/Kern_Kmalloc.thy ===== *)
theory Kern_Kmalloc
  imports Vm_Addrspace
begin

section \<open>The kernel heap: \<open>kern/vm/kmalloc.c\<close>\<close>

text \<open>
  The pool-based subpage allocator and \<open>kmalloc\<close> and \<open>kfree\<close> on top of it. A pointer to a
  \<open>struct pageref\<close> is its index in \<open>pagerefs\<close>; the heap's memory is a map from the addresses of
  32-bit words to their values, and a free block holds the address of the next one in its first
  word. \<open>kmalloc_spinlock\<close> is held throughout, except while \<open>subpage_kmalloc\<close> calls
  \<open>alloc_kpages\<close>: the code before and after that call are two definitions, so that other calls
  can come in between.
\<close>

subsection \<open>The code\<close>

definition NSIZES :: nat where "NSIZES = 8"

definition sizes :: "nat list" where
  "sizes = [16, 32, 64, 128, 256, 512, 1024, 2048]"

definition SMALLEST_SUBPAGE_SIZE :: nat where "SMALLEST_SUBPAGE_SIZE = 16"
definition LARGEST_SUBPAGE_SIZE :: nat where "LARGEST_SUBPAGE_SIZE = 2048"

record pageref =
  next_samesize :: "nat option"
  next_all :: "nat option"
  pageaddr_and_blocktype :: nat
  freelist_offset :: nat
  nfree :: nat

definition INVALID_OFFSET :: nat where "INVALID_OFFSET = 65535"

definition PR_PAGEADDR :: "pageref \<Rightarrow> nat" where
  "PR_PAGEADDR pr = pageaddr_and_blocktype pr AND PAGE_FRAME"

definition PR_BLOCKTYPE :: "pageref \<Rightarrow> nat" where
  "PR_BLOCKTYPE pr = pageaddr_and_blocktype pr AND (2 ^ 32 - 1 - PAGE_FRAME)"

definition MKPAB :: "nat \<Rightarrow> nat \<Rightarrow> nat" where
  "MKPAB pa blk = (pa AND PAGE_FRAME) OR (blk AND (2 ^ 32 - 1 - PAGE_FRAME))"

definition NPAGEREFS :: nat where "NPAGEREFS = 256"
definition INUSE_WORDS :: nat where "INUSE_WORDS = 8"

text \<open>The static variables, the memory, and the free physical memory \<open>alloc_kpages\<close> takes from.\<close>

record kheap =
  pagerefs :: "pageref list"
  pagerefs_inuse :: "u32 list"
  sizebases :: "nat option list"
  allbase :: "nat option"
  kh_mem :: "nat \<Rightarrow> nat"
  kh_ram :: ram

text \<open>
  \<open>allocpageref\<close>: the inner loop looks for a clear bit of one word, \<open>k\<close> being \<open>1 << j\<close>, until
  \<open>k\<close> is shifted out; the outer loop goes over the words.
\<close>

fun clear_bit :: "nat \<Rightarrow> u32 \<Rightarrow> nat \<Rightarrow> nat option" where
  "clear_bit 0 w j = None"
| "clear_bit (Suc n) w j = (if w AND push_bit j 1 = 0 then Some j else clear_bit n w (Suc j))"

fun allocpageref_from :: "nat \<Rightarrow> nat \<Rightarrow> kheap \<Rightarrow> (nat option \<times> kheap) option" where
  "allocpageref_from 0 i h = Some (None, h)"
| "allocpageref_from (Suc n) i h = do {
     w \<leftarrow> slot_get (pagerefs_inuse h) i;
     if w = 4294967295 then allocpageref_from n (Suc i) h
     else do {
       j \<leftarrow> clear_bit 32 w 0;
       Some (Some (i * 32 + j), h\<lparr>pagerefs_inuse := (pagerefs_inuse h)[i := w OR push_bit j 1]\<rparr>) } }"

definition allocpageref :: "kheap \<Rightarrow> (nat option \<times> kheap) option" where
  "allocpageref h = allocpageref_from INUSE_WORDS 0 h"

definition freepageref :: "nat \<Rightarrow> kheap \<Rightarrow> kheap option" where
  "freepageref j h = do {
     kassert (j < NPAGEREFS);
     w \<leftarrow> slot_get (pagerefs_inuse h) (j div 32);
     kassert (w AND push_bit (j mod 32) 1 \<noteq> 0);
     Some (h\<lparr>pagerefs_inuse := (pagerefs_inuse h)[j div 32 := w AND NOT (push_bit (j mod 32) 1)]\<rparr>) }"

definition pr_update :: "nat \<Rightarrow> (pageref \<Rightarrow> pageref) \<Rightarrow> kheap \<Rightarrow> kheap option" where
  "pr_update i f h = do {
     r \<leftarrow> slot_get (pagerefs h) i;
     Some (h\<lparr>pagerefs := (pagerefs h)[i := f r]\<rparr>) }"

text \<open>
  \<open>remove_lists\<close>: \<open>guy\<close> is the place the pointer under inspection is stored in, the base of the
  list (\<open>None\<close>) or the link of a page.
\<close>

definition set_samesize :: "nat \<Rightarrow> nat option \<Rightarrow> nat option \<Rightarrow> kheap \<Rightarrow> kheap option" where
  "set_samesize blktype guy v h =
     (case guy of
        None \<Rightarrow> do { b \<leftarrow> slot_set (sizebases h) blktype v; Some (h\<lparr>sizebases := b\<rparr>) }
      | Some j \<Rightarrow> pr_update j (\<lambda>r. r\<lparr>next_samesize := v\<rparr>) h)"

definition set_all :: "nat option \<Rightarrow> nat option \<Rightarrow> kheap \<Rightarrow> kheap option" where
  "set_all guy v h =
     (case guy of
        None \<Rightarrow> Some (h\<lparr>allbase := v\<rparr>)
      | Some j \<Rightarrow> pr_update j (\<lambda>r. r\<lparr>next_all := v\<rparr>) h)"

partial_function (option) remove_samesize :: "nat \<Rightarrow> nat \<Rightarrow> nat option \<Rightarrow> nat option \<Rightarrow> kheap \<Rightarrow> kheap option" where
  "remove_samesize blktype pr guy cur h =
     (case cur of
        None \<Rightarrow> Some h
      | Some i \<Rightarrow> do {
          r \<leftarrow> slot_get (pagerefs h) i;
          if i = pr then set_samesize blktype guy (next_samesize r) h
          else remove_samesize blktype pr (Some i) (next_samesize r) h })"

partial_function (option) remove_all :: "nat \<Rightarrow> nat option \<Rightarrow> nat option \<Rightarrow> kheap \<Rightarrow> kheap option" where
  "remove_all pr guy cur h =
     (case cur of
        None \<Rightarrow> Some h
      | Some i \<Rightarrow> do {
          r \<leftarrow> slot_get (pagerefs h) i;
          if i = pr then set_all guy (next_all r) h
          else remove_all pr (Some i) (next_all r) h })"

definition remove_lists :: "nat \<Rightarrow> nat \<Rightarrow> kheap \<Rightarrow> kheap option" where
  "remove_lists pr blktype h = do {
     kassert (blktype < NSIZES);
     base \<leftarrow> slot_get (sizebases h) blktype;
     h \<leftarrow> remove_samesize blktype pr None base h;
     remove_all pr None (allbase h) h }"

fun blocktype_from :: "nat \<Rightarrow> nat list \<Rightarrow> nat \<Rightarrow> nat option" where
  "blocktype_from i [] sz = panic"
| "blocktype_from i (s # ss) sz = (if sz \<le> s then Some i else blocktype_from (Suc i) ss sz)"

definition blocktype :: "nat \<Rightarrow> nat option" where
  "blocktype sz = blocktype_from 0 sizes sz"

text \<open>The code at \<open>doalloc\<close>: take the first free block of a page.\<close>

definition doalloc :: "nat \<Rightarrow> kheap \<Rightarrow> (nat \<times> kheap) option" where
  "doalloc pr h = do {
     r \<leftarrow> slot_get (pagerefs h) pr;
     kassert (freelist_offset r < PAGE_SIZE);
     let prpage = PR_PAGEADDR r;
     let fla = wrap32 (prpage + freelist_offset r);
     let fl = kh_mem h fla;
     let n = nfree r - 1;
     if fl \<noteq> 0 then do {
       kassert (n > 0);
       kassert (sub32 fl prpage < PAGE_SIZE);
       h \<leftarrow> pr_update pr (\<lambda>r. r\<lparr>nfree := n, freelist_offset := sub32 fl prpage\<rparr>) h;
       Some (fla, h) }
     else do {
       kassert (n = 0);
       h \<leftarrow> pr_update pr (\<lambda>r. r\<lparr>nfree := n, freelist_offset := INVALID_OFFSET\<rparr>) h;
       Some (fla, h) } }"

text \<open>The loop over the pages of one size; \<open>Some (Some pr)\<close> is the first with a free block.\<close>

partial_function (option) find_page :: "nat \<Rightarrow> nat option \<Rightarrow> kheap \<Rightarrow> nat option option" where
  "find_page blktype pr h =
     (case pr of
        None \<Rightarrow> Some None
      | Some i \<Rightarrow> do {
          r \<leftarrow> slot_get (pagerefs h) i;
          kassert (PR_BLOCKTYPE r = blktype);
          if nfree r > 0 then Some (Some i) else find_page blktype (next_samesize r) h })"

text \<open>\<open>subpage_kmalloc\<close> up to the call of \<open>alloc_kpages\<close>.\<close>

definition subpage_take :: "nat \<Rightarrow> kheap \<Rightarrow> (nat option \<times> kheap) option" where
  "subpage_take blktype h = do {
     base \<leftarrow> slot_get (sizebases h) blktype;
     p \<leftarrow> find_page blktype base h;
     case p of
       None \<Rightarrow> Some (None, h)
     | Some pr \<Rightarrow> do {
         (ptr, h) \<leftarrow> doalloc pr h;
         Some (Some ptr, h) } }"

text \<open>The loop that links the blocks of a fresh page, from block \<open>i\<close> on.\<close>

fun link_blocks :: "nat \<Rightarrow> nat \<Rightarrow> nat \<Rightarrow> nat \<Rightarrow> (nat \<Rightarrow> nat) \<Rightarrow> (nat \<Rightarrow> nat) option" where
  "link_blocks 0 fla sz i m = Some m"
| "link_blocks (Suc n) fla sz i m = do {
     kassert (wrap32 (fla + i * sz) \<noteq> wrap32 (fla + (i - 1) * sz));
     link_blocks n fla sz (Suc i) (m(wrap32 (fla + i * sz) := wrap32 (fla + (i - 1) * sz))) }"

text \<open>\<open>subpage_kmalloc\<close> once it has a page; \<open>Some (None, h)\<close> is \<open>NULL\<close>.\<close>

definition subpage_grow :: "nat \<Rightarrow> nat \<Rightarrow> kheap \<Rightarrow> (nat option \<times> kheap) option" where
  "subpage_grow blktype prpage h = do {
     sz \<leftarrow> slot_get sizes blktype;
     (p, h) \<leftarrow> allocpageref h;
     case p of
       None \<Rightarrow> Some (None, h\<lparr>kh_ram := free_kpages prpage (kh_ram h)\<rparr>)
     | Some pr \<Rightarrow> do {
         let n = PAGE_SIZE div sz;
         m \<leftarrow> link_blocks (n - 1) prpage sz 1 ((kh_mem h)(prpage := 0));
         let h = h\<lparr>kh_mem := m\<rparr>;
         base \<leftarrow> slot_get (sizebases h) blktype;
         h \<leftarrow> pr_update pr (\<lambda>r. r\<lparr>pageaddr_and_blocktype := MKPAB prpage blktype, nfree := n,
                 freelist_offset := sub32 (wrap32 (prpage + (n - 1) * sz)) prpage\<rparr>) h;
         r \<leftarrow> slot_get (pagerefs h) pr;
         kassert (freelist_offset r = (n - 1) * sz);
         h \<leftarrow> pr_update pr (\<lambda>r. r\<lparr>next_samesize := base\<rparr>) h;
         bases \<leftarrow> slot_set (sizebases h) blktype (Some pr);
         let h = h\<lparr>sizebases := bases\<rparr>;
         h \<leftarrow> pr_update pr (\<lambda>r. r\<lparr>next_all := allbase h\<rparr>) h;
         let h = h\<lparr>allbase := Some pr\<rparr>;
         (ptr, h) \<leftarrow> doalloc pr h;
         Some (Some ptr, h) } }"

definition subpage_kmalloc :: "nat \<Rightarrow> kheap \<Rightarrow> (nat option \<times> kheap) option" where
  "subpage_kmalloc sz h = do {
     blktype \<leftarrow> blocktype sz;
     (p, h) \<leftarrow> subpage_take blktype h;
     case p of
       Some ptr \<Rightarrow> Some (Some ptr, h)
     | None \<Rightarrow> do {
         (prpage, r) \<leftarrow> alloc_kpages 1 (kh_ram h);
         let h = h\<lparr>kh_ram := r\<rparr>;
         if prpage = 0 then Some (None, h) else subpage_grow blktype prpage h } }"

text \<open>\<open>fill_deadbeef\<close>, from word \<open>i\<close> on.\<close>

fun fill_deadbeef :: "nat \<Rightarrow> nat \<Rightarrow> (nat \<Rightarrow> nat) \<Rightarrow> nat \<Rightarrow> nat" where
  "fill_deadbeef ptr 0 m = m"
| "fill_deadbeef ptr (Suc n) m = (fill_deadbeef ptr n m)(wrap32 (ptr + n * 4) := 3735928559)"

text \<open>The loop of \<open>subpage_kfree\<close>: the page the pointer points into.\<close>

partial_function (option) find_owner :: "nat \<Rightarrow> nat option \<Rightarrow> kheap \<Rightarrow> nat option option" where
  "find_owner ptraddr pr h =
     (case pr of
        None \<Rightarrow> Some None
      | Some i \<Rightarrow> do {
          r \<leftarrow> slot_get (pagerefs h) i;
          let prpage = PR_PAGEADDR r;
          kassert (PR_BLOCKTYPE r < NSIZES);
          if ptraddr \<ge> prpage \<and> ptraddr < wrap32 (prpage + PAGE_SIZE) then Some (Some i)
          else find_owner ptraddr (next_all r) h })"

text \<open>\<open>subpage_kfree\<close> returns whether the pointer was on one of its pages (0 or -1).\<close>

definition subpage_kfree :: "nat \<Rightarrow> kheap \<Rightarrow> (bool \<times> kheap) option" where
  "subpage_kfree ptr h = do {
     p \<leftarrow> find_owner ptr (allbase h) h;
     case p of
       None \<Rightarrow> Some (False, h)
     | Some pr \<Rightarrow> do {
         r \<leftarrow> slot_get (pagerefs h) pr;
         let prpage = PR_PAGEADDR r;
         let blktype = PR_BLOCKTYPE r;
         sz \<leftarrow> slot_get sizes blktype;
         let offset = sub32 ptr prpage;
         kassert (offset < PAGE_SIZE \<and> offset mod sz = 0);
         let m = fill_deadbeef ptr (sz div 4) (kh_mem h);
         let m = m(wrap32 (prpage + offset) :=
                     (if freelist_offset r = INVALID_OFFSET then 0 else wrap32 (prpage + freelist_offset r)));
         let n = (nfree r + 1) mod 65536;
         h \<leftarrow> pr_update pr (\<lambda>r. r\<lparr>freelist_offset := offset mod 65536, nfree := n\<rparr>) (h\<lparr>kh_mem := m\<rparr>);
         kassert (n \<le> PAGE_SIZE div sz);
         if n = PAGE_SIZE div sz then do {
           h \<leftarrow> remove_lists pr blktype h;
           h \<leftarrow> freepageref pr h;
           Some (True, h\<lparr>kh_ram := free_kpages prpage (kh_ram h)\<rparr>) }
         else Some (True, h) } }"

definition kmalloc :: "nat \<Rightarrow> kheap \<Rightarrow> (nat option \<times> kheap) option" where
  "kmalloc sz h =
     (if sz \<ge> LARGEST_SUBPAGE_SIZE then do {
        let npages = wrap32 (sz + PAGE_SIZE - 1) div PAGE_SIZE;
        (address, r) \<leftarrow> alloc_kpages npages (kh_ram h);
        let h = h\<lparr>kh_ram := r\<rparr>;
        if address = 0 then Some (None, h) else Some (Some address, h) }
      else subpage_kmalloc sz h)"

definition kfree :: "nat \<Rightarrow> kheap \<Rightarrow> kheap option" where
  "kfree ptr h =
     (if ptr = 0 then Some h
      else do {
        (found, h) \<leftarrow> subpage_kfree ptr h;
        if found then Some h
        else do {
          kassert (ptr mod PAGE_SIZE = 0);
          Some (h\<lparr>kh_ram := free_kpages ptr (kh_ram h)\<rparr>) } })"

subsection \<open>The consistency checks\<close>

text \<open>
  \<open>checksubpage\<close> and \<open>checksubpages\<close>, compiled in with \<open>SLOWER\<close>. The first walks the free list
  of a page and counts its blocks.
\<close>

definition MIPS_KSEG1 :: nat where "MIPS_KSEG1 = 2684354560"

partial_function (option) check_freelist :: "nat \<Rightarrow> nat \<Rightarrow> nat \<Rightarrow> nat \<Rightarrow> (nat \<Rightarrow> nat) \<Rightarrow> nat option" where
  "check_freelist fl prpage sz n m =
     (if fl = 0 then Some n
      else do {
        kassert (fl \<ge> prpage \<and> fl < wrap32 (prpage + PAGE_SIZE));
        kassert ((fl - prpage) mod sz = 0);
        kassert (fl \<ge> MIPS_KSEG0);
        kassert (fl < MIPS_KSEG1);
        check_freelist (m fl) prpage sz (n + 1) m })"

definition checksubpage :: "nat \<Rightarrow> kheap \<Rightarrow> unit option" where
  "checksubpage pr h = do {
     r \<leftarrow> slot_get (pagerefs h) pr;
     if freelist_offset r = INVALID_OFFSET then kassert (nfree r = 0)
     else do {
       let prpage = PR_PAGEADDR r;
       sz \<leftarrow> slot_get sizes (PR_BLOCKTYPE r);
       kassert (freelist_offset r < PAGE_SIZE);
       kassert (freelist_offset r mod sz = 0);
       n \<leftarrow> check_freelist (wrap32 (prpage + freelist_offset r)) prpage sz 0 (kh_mem h);
       kassert (n = nfree r) } }"

partial_function (option) check_samesize :: "nat option \<Rightarrow> nat \<Rightarrow> kheap \<Rightarrow> nat option" where
  "check_samesize pr sc h =
     (case pr of
        None \<Rightarrow> Some sc
      | Some i \<Rightarrow> do {
          checksubpage i h;
          kassert (sc < NPAGEREFS);
          r \<leftarrow> slot_get (pagerefs h) i;
          check_samesize (next_samesize r) (sc + 1) h })"

fun check_sizes :: "nat option list \<Rightarrow> nat \<Rightarrow> kheap \<Rightarrow> nat option" where
  "check_sizes [] sc h = Some sc"
| "check_sizes (b # bs) sc h = do {
     sc \<leftarrow> check_samesize b sc h;
     check_sizes bs sc h }"

partial_function (option) check_all :: "nat option \<Rightarrow> nat \<Rightarrow> kheap \<Rightarrow> nat option" where
  "check_all pr ac h =
     (case pr of
        None \<Rightarrow> Some ac
      | Some i \<Rightarrow> do {
          checksubpage i h;
          kassert (ac < NPAGEREFS);
          r \<leftarrow> slot_get (pagerefs h) i;
          check_all (next_all r) (ac + 1) h })"

definition checksubpages :: "kheap \<Rightarrow> unit option" where
  "checksubpages h = do {
     sc \<leftarrow> check_sizes (sizebases h) 0 h;
     ac \<leftarrow> check_all (allbase h) 0 h;
     kassert (sc = ac) }"

subsection \<open>The statistics\<close>

text \<open>
  \<open>dumpsubpage\<close>: the arguments of its first \<open>kprintf\<close> (address, size, free and total number of
  blocks) and the text of the map that follows; \<open>kheap_printstats\<close> does this for all pages.
\<close>

partial_function (option) dump_freemap :: "nat \<Rightarrow> nat \<Rightarrow> nat \<Rightarrow> nat \<Rightarrow> u32 list \<Rightarrow> (nat \<Rightarrow> nat) \<Rightarrow> u32 list option" where
  "dump_freemap fl prpage sz n freemap m =
     (if fl = 0 then Some freemap
      else do {
        let index = sub32 fl prpage div sz;
        kassert (index < n);
        w \<leftarrow> slot_get freemap (index div 32);
        dump_freemap (m fl) prpage sz n (freemap[index div 32 := w OR push_bit (index mod 32) 1]) m })"

definition dump_sep :: "nat \<Rightarrow> nat \<Rightarrow> string" where
  "dump_sep n i = (if i mod 64 = 63 \<and> i < n - 1 then [CHR 0x0A] @ ''   '' else [])"

fun dump_chars :: "nat \<Rightarrow> nat \<Rightarrow> nat \<Rightarrow> u32 list \<Rightarrow> string option" where
  "dump_chars 0 i n freemap = Some [CHR 0x0A]"
| "dump_chars (Suc c) i n freemap = do {
     w \<leftarrow> slot_get freemap (i div 32);
     s \<leftarrow> dump_chars c (Suc i) n freemap;
     Some ((if w AND push_bit (i mod 32) 1 \<noteq> 0 then CHR ''.'' else CHR ''*'') # dump_sep n i @ s) }"

definition dumpsubpage :: "nat \<Rightarrow> kheap \<Rightarrow> ((nat \<times> nat \<times> nat \<times> nat) \<times> string) option" where
  "dumpsubpage pr h = do {
     r \<leftarrow> slot_get (pagerefs h) pr;
     let prpage = PR_PAGEADDR r;
     sz \<leftarrow> slot_get sizes (PR_BLOCKTYPE r);
     let n = PAGE_SIZE div sz;
     kassert (n \<le> 32 * 8);
     freemap \<leftarrow> (if freelist_offset r \<noteq> INVALID_OFFSET
        then dump_freemap (wrap32 (prpage + freelist_offset r)) prpage sz n (replicate 8 0) (kh_mem h)
        else Some (replicate 8 0));
     s \<leftarrow> dump_chars n 0 n freemap;
     Some ((prpage, sz, nfree r, n), ''   '' @ s) }"

partial_function (option) printstats_from :: "nat option \<Rightarrow> kheap \<Rightarrow> ((nat \<times> nat \<times> nat \<times> nat) \<times> string) list option" where
  "printstats_from pr h =
     (case pr of
        None \<Rightarrow> Some []
      | Some i \<Rightarrow> do {
          d \<leftarrow> dumpsubpage i h;
          r \<leftarrow> slot_get (pagerefs h) i;
          ds \<leftarrow> printstats_from (next_all r) h;
          Some (d # ds) })"

definition kheap_printstats :: "kheap \<Rightarrow> ((nat \<times> nat \<times> nat \<times> nat) \<times> string) list option" where
  "kheap_printstats h = printstats_from (allbase h) h"

subsection \<open>Linked lists\<close>

text \<open>The elements of a list that starts at a pointer, by the link function of the elements.\<close>

primrec chained :: "(nat \<Rightarrow> nat option) \<Rightarrow> nat option \<Rightarrow> nat list \<Rightarrow> bool" where
  "chained nxt p [] \<longleftrightarrow> p = None"
| "chained nxt p (x # xs) \<longleftrightarrow> p = Some x \<and> chained nxt (nxt x) xs"

lemma chained_cong: "(\<And>x. x \<in> set xs \<Longrightarrow> nxt' x = nxt x) \<Longrightarrow> chained nxt' p xs = chained nxt p xs"
  by (induction xs arbitrary: p) auto

lemma chained_None [simp]: "chained nxt None xs \<longleftrightarrow> xs = []"
  by (cases xs) auto

lemma chained_Some: "chained nxt (Some x) xs \<longleftrightarrow> (\<exists>ys. xs = x # ys \<and> chained nxt (nxt x) ys)"
  by (cases xs) auto

abbreviation ss :: "kheap \<Rightarrow> nat \<Rightarrow> nat option" where
  "ss h i \<equiv> next_samesize (pagerefs h ! i)"

abbreviation na :: "kheap \<Rightarrow> nat \<Rightarrow> nat option" where
  "na h i \<equiv> next_all (pagerefs h ! i)"

abbreviation page :: "kheap \<Rightarrow> nat \<Rightarrow> nat" where
  "page h i \<equiv> PR_PAGEADDR (pagerefs h ! i)"

abbreviation btype :: "kheap \<Rightarrow> nat \<Rightarrow> nat" where
  "btype h i \<equiv> PR_BLOCKTYPE (pagerefs h ! i)"

abbreviation bsize :: "kheap \<Rightarrow> nat \<Rightarrow> nat" where
  "bsize h i \<equiv> sizes ! btype h i"

text \<open>The free list of a page, as the numbers of its blocks.\<close>

definition fl_ptr :: "nat \<Rightarrow> nat \<Rightarrow> nat list \<Rightarrow> nat" where
  "fl_ptr pa sz fs = (case fs of [] \<Rightarrow> 0 | n # _ \<Rightarrow> pa + n * sz)"

primrec freelist :: "(nat \<Rightarrow> nat) \<Rightarrow> nat \<Rightarrow> nat \<Rightarrow> nat list \<Rightarrow> bool" where
  "freelist m pa sz [] \<longleftrightarrow> True"
| "freelist m pa sz (n # ns) \<longleftrightarrow> m (pa + n * sz) = fl_ptr pa sz ns \<and> freelist m pa sz ns"

lemma freelist_cong: "(\<And>n. n \<in> set fs \<Longrightarrow> m' (pa + n * sz) = m (pa + n * sz)) \<Longrightarrow> freelist m' pa sz fs = freelist m pa sz fs"
  by (induction fs) auto

lemma fl_ptr_simps [simp]: "fl_ptr pa sz [] = 0" "fl_ptr pa sz (n # ns) = pa + n * sz"
  by (simp_all add: fl_ptr_def)

subsection \<open>The invariant\<close>

text \<open>
  \<open>A\<close> is the list of all pages, \<open>S k\<close> the list of those with blocks of size number \<open>k\<close> and
  \<open>F i\<close> the free list of page \<open>i\<close>, as block numbers.
\<close>

definition page_in :: "ram \<Rightarrow> nat \<Rightarrow> bool" where
  "page_in r pa \<longleftrightarrow> PAGE_SIZE dvd pa \<and> MIPS_KSEG0 < pa \<and> pa + PAGE_SIZE \<le> MIPS_KSEG0 + firstpaddr r"

definition page_ok :: "kheap \<Rightarrow> nat \<Rightarrow> nat list \<Rightarrow> bool" where
  "page_ok h i fs \<longleftrightarrow>
     btype h i < NSIZES \<and> page_in (kh_ram h) (page h i) \<and>
     distinct fs \<and> set fs \<subseteq> {..<PAGE_SIZE div bsize h i} \<and> length fs < PAGE_SIZE div bsize h i \<and>
     nfree (pagerefs h ! i) = length fs \<and>
     freelist_offset (pagerefs h ! i) = (case fs of [] \<Rightarrow> INVALID_OFFSET | n # _ \<Rightarrow> n * bsize h i) \<and>
     freelist (kh_mem h) (page h i) (bsize h i) fs"

definition heap_shape :: "kheap \<Rightarrow> bool" where
  "heap_shape h \<longleftrightarrow> length (pagerefs h) = NPAGEREFS \<and> length (pagerefs_inuse h) = INUSE_WORDS \<and>
     length (sizebases h) = NSIZES \<and> ram_ok (kh_ram h)"

definition heap_lists :: "kheap \<Rightarrow> nat list \<Rightarrow> (nat \<Rightarrow> nat list) \<Rightarrow> bool" where
  "heap_lists h A S \<longleftrightarrow>
     chained (na h) (allbase h) A \<and> distinct A \<and> set A \<subseteq> {..<NPAGEREFS} \<and>
     (\<forall>k < NSIZES. chained (ss h) (sizebases h ! k) (S k) \<and> distinct (S k) \<and>
        set (S k) = {i \<in> set A. btype h i = k}) \<and>
     (\<forall>i < NPAGEREFS. bit (pagerefs_inuse h ! (i div 32)) (i mod 32) \<longleftrightarrow> i \<in> set A)"

definition heap_rep :: "kheap \<Rightarrow> nat list \<Rightarrow> (nat \<Rightarrow> nat list) \<Rightarrow> (nat \<Rightarrow> nat list) \<Rightarrow> bool" where
  "heap_rep h A S F \<longleftrightarrow> heap_shape h \<and> heap_lists h A S \<and>
     (\<forall>i \<in> set A. page_ok h i (F i)) \<and>
     (\<forall>i \<in> set A. \<forall>j \<in> set A. page h i = page h j \<longrightarrow> i = j)"

text \<open>The blocks that are not on a free list, with their size.\<close>

definition used :: "kheap \<Rightarrow> nat list \<Rightarrow> (nat \<Rightarrow> nat list) \<Rightarrow> (nat \<times> nat) set" where
  "used h A F = {(i, n). i \<in> set A \<and> n < PAGE_SIZE div bsize h i \<and> n \<notin> set (F i)}"

definition block :: "kheap \<Rightarrow> nat \<times> nat \<Rightarrow> nat \<times> nat" where
  "block h = (\<lambda>(i, n). (page h i + n * bsize h i, bsize h i))"

definition allocated :: "kheap \<Rightarrow> nat list \<Rightarrow> (nat \<Rightarrow> nat list) \<Rightarrow> (nat \<times> nat) set" where
  "allocated h A F = block h ` used h A F"

subsection \<open>Block sizes and page words\<close>

lemma less_NSIZES: "k < NSIZES \<Longrightarrow> k \<in> {0, 1, 2, 3, 4, 5, 6, 7}"
  by (auto simp: NSIZES_def)

lemma size_facts:
  assumes "k < NSIZES"
  shows "16 \<le> sizes ! k" "sizes ! k \<le> 2048" "(PAGE_SIZE div sizes ! k) * sizes ! k = PAGE_SIZE"
    "4 dvd sizes ! k" "2 \<le> PAGE_SIZE div sizes ! k" "PAGE_SIZE div sizes ! k \<le> 256" "k < length sizes" "k < 8"
  using less_NSIZES [OF assms] by (auto simp: sizes_def PAGE_SIZE_def)

lemma block_fits:
  assumes "k < NSIZES" "n < PAGE_SIZE div sizes ! k"
  shows "n * sizes ! k + sizes ! k \<le> PAGE_SIZE" "n * sizes ! k < PAGE_SIZE"
proof -
  have "Suc n * sizes ! k \<le> (PAGE_SIZE div sizes ! k) * sizes ! k" using assms(2) by (intro mult_le_mono1) simp
  then show "n * sizes ! k + sizes ! k \<le> PAGE_SIZE" using size_facts(3) [OF assms(1)] by simp
  then show "n * sizes ! k < PAGE_SIZE" using size_facts(1) [OF assms(1)] by linarith
qed

lemma blocktype_eq:
  "sz < LARGEST_SUBPAGE_SIZE \<Longrightarrow> \<exists>k. blocktype sz = Some k \<and> k < NSIZES \<and> sz \<le> sizes ! k"
  by (simp add: blocktype_def sizes_def NSIZES_def LARGEST_SUBPAGE_SIZE_def)

lemma or_and_nat: "(a OR b) AND (m::nat) = (a AND m) OR (b AND m)"
  by (rule bit_eqI) (auto simp: bit_simps)

lemma MKPAB_parts:
  assumes "PAGE_SIZE dvd pa" "pa < 2 ^ 32" "k < NSIZES" "pageaddr_and_blocktype r = MKPAB pa k"
  shows "PR_PAGEADDR r = pa" "PR_BLOCKTYPE r = k"
proof -
  have pa: "pa AND PAGE_FRAME = pa" using assms(1,2) by (simp add: and_PAGE_FRAME dvd_imp_mod_0)
  have k: "k AND (2 ^ 32 - 1 - PAGE_FRAME) = k" using size_facts(8) [OF assms(3)] unfolding and_not_PAGE_FRAME by (simp add: PAGE_SIZE_def)
  have kf: "k AND PAGE_FRAME = 0" using size_facts(8) [OF assms(3)] and_PAGE_FRAME [of k] by (simp add: PAGE_SIZE_def)
  have pf: "pa AND (2 ^ 32 - 1 - PAGE_FRAME) = 0" unfolding and_not_PAGE_FRAME using assms(1) by (rule dvd_imp_mod_0)
  have m: "pageaddr_and_blocktype r = pa OR k" unfolding assms(4) MKPAB_def pa k ..
  show "PR_PAGEADDR r = pa" unfolding PR_PAGEADDR_def m or_and_nat pa kf by simp
  show "PR_BLOCKTYPE r = k" unfolding PR_BLOCKTYPE_def m or_and_nat pf k by simp
qed

lemma page_inD:
  assumes "page_in r pa" "ram_ok r"
  shows "PAGE_SIZE dvd pa" "0 < pa" "MIPS_KSEG0 < pa" "pa + PAGE_SIZE \<le> MIPS_KSEG1" "pa + PAGE_SIZE < 2 ^ 32"
    "pa + PAGE_SIZE \<le> MIPS_KSEG0 + firstpaddr r"
  using assms ram_okD [OF assms(2)] by (auto simp: page_in_def MIPS_KSEG0_def MIPS_KSEG1_def)

subsection \<open>Consequences of the invariant\<close>

lemma heap_repD:
  assumes "heap_rep h A S F"
  shows "heap_shape h" "heap_lists h A S" "i \<in> set A \<Longrightarrow> page_ok h i (F i)"
    "i \<in> set A \<Longrightarrow> j \<in> set A \<Longrightarrow> page h i = page h j \<Longrightarrow> i = j"
  using assms unfolding heap_rep_def by blast+

lemma heap_shapeD:
  assumes "heap_shape h"
  shows "length (pagerefs h) = NPAGEREFS" "length (pagerefs_inuse h) = INUSE_WORDS" "length (sizebases h) = NSIZES"
    "ram_ok (kh_ram h)"
  using assms by (simp_all add: heap_shape_def)

lemma heap_listsD:
  assumes "heap_lists h A S"
  shows "chained (na h) (allbase h) A" "distinct A" "i \<in> set A \<Longrightarrow> i < NPAGEREFS"
    "k < NSIZES \<Longrightarrow> chained (ss h) (sizebases h ! k) (S k)" "k < NSIZES \<Longrightarrow> distinct (S k)"
    "k < NSIZES \<Longrightarrow> set (S k) = {i \<in> set A. btype h i = k}"
    "i < NPAGEREFS \<Longrightarrow> bit (pagerefs_inuse h ! (i div 32)) (i mod 32) \<longleftrightarrow> i \<in> set A"
  using assms unfolding heap_lists_def by blast+

lemma page_okD:
  assumes "page_ok h i fs"
  shows "btype h i < NSIZES" "page_in (kh_ram h) (page h i)" "distinct fs" "n \<in> set fs \<Longrightarrow> n < PAGE_SIZE div bsize h i"
    "length fs < PAGE_SIZE div bsize h i" "nfree (pagerefs h ! i) = length fs"
    "freelist_offset (pagerefs h ! i) = (case fs of [] \<Rightarrow> INVALID_OFFSET | n # _ \<Rightarrow> n * bsize h i)"
    "freelist (kh_mem h) (page h i) (bsize h i) fs"
  using assms unfolding page_ok_def by blast+

lemma pr_less:
  "heap_rep h A S F \<Longrightarrow> i \<in> set A \<Longrightarrow> i < length (pagerefs h)"
  using heap_listsD(3) [OF heap_repD(2)] heap_shapeD(1) [OF heap_repD(1)] by metis

text \<open>Two blocks are the same or have no byte in common.\<close>

lemma pages_apart:
  assumes "heap_rep h A S F" "i \<in> set A" "j \<in> set A" "i \<noteq> j"
  shows "page h i + PAGE_SIZE \<le> page h j \<or> page h j + PAGE_SIZE \<le> page h i"
proof -
  have ne: "page h i \<noteq> page h j" using heap_repD(4) [OF assms(1-3)] assms(4) by blast
  have "PAGE_SIZE dvd page h i" "PAGE_SIZE dvd page h j"
    using page_okD(2) [OF heap_repD(3) [OF assms(1,2)]] page_okD(2) [OF heap_repD(3) [OF assms(1,3)]] by (auto simp: page_in_def)
  then obtain a b where "page h i = PAGE_SIZE * a" "page h j = PAGE_SIZE * b" by (auto elim!: dvdE)
  then show ?thesis using ne by (auto simp: PAGE_SIZE_def)
qed

lemma blocks_apart:
  assumes rep: "heap_rep h A S F" and i: "i \<in> set A" "n < PAGE_SIZE div bsize h i"
    and j: "j \<in> set A" "m < PAGE_SIZE div bsize h j" and ne: "(i, n) \<noteq> (j, m)"
  shows "page h i + n * bsize h i + bsize h i \<le> page h j + m * bsize h j \<or>
    page h j + m * bsize h j + bsize h j \<le> page h i + n * bsize h i"
proof (cases "i = j")
  case False
  have "n * bsize h i + bsize h i \<le> PAGE_SIZE" "m * bsize h j + bsize h j \<le> PAGE_SIZE"
    using block_fits(1) page_okD(1) [OF heap_repD(3) [OF rep]] i j by blast+
  then show ?thesis using pages_apart [OF rep i(1) j(1) False] by linarith
next
  case True
  then have "n < m \<or> m < n" using ne by auto
  then have "Suc n * bsize h i \<le> m * bsize h i \<or> Suc m * bsize h i \<le> n * bsize h i"
    using mult_le_mono1 [of "Suc n" m "bsize h i"] mult_le_mono1 [of "Suc m" n "bsize h i"] by fastforce
  then show ?thesis using True by auto
qed

text \<open>A heap that differs in the free list of one page.\<close>

lemma heap_frame:
  assumes rep: "heap_rep h A S F" and i: "i \<in> set A"
    and pr: "pagerefs h' = (pagerefs h)[i := r]" "next_samesize r = ss h i" "next_all r = na h i"
      "pageaddr_and_blocktype r = pageaddr_and_blocktype (pagerefs h ! i)"
    and eq: "pagerefs_inuse h' = pagerefs_inuse h" "sizebases h' = sizebases h" "allbase h' = allbase h" "kh_ram h' = kh_ram h"
    and mem: "\<And>j n. j \<in> set A \<Longrightarrow> j \<noteq> i \<Longrightarrow> n \<in> set (F j) \<Longrightarrow> kh_mem h' (page h j + n * bsize h j) = kh_mem h (page h j + n * bsize h j)"
  shows "heap_shape h'" "heap_lists h' A S" "j \<in> set A \<Longrightarrow> j \<noteq> i \<Longrightarrow> page_ok h' j (F j)"
    "page h' j = page h j" "btype h' j = btype h j"
proof -
  have il: "i < length (pagerefs h)" by (rule pr_less [OF rep i])
  have s: "pagerefs h' ! j = (if j = i then r else pagerefs h ! j)" for j using il by (simp add: pr(1) nth_list_update)
  have e: "na h' j = na h j" "ss h' j = ss h j" "page h' j = page h j" "btype h' j = btype h j" for j
    unfolding s using pr(2-4) by (auto simp: PR_PAGEADDR_def PR_BLOCKTYPE_def)
  show "page h' j = page h j" "btype h' j = btype h j" by (rule e)+
  show "heap_shape h'" using heap_repD(1) [OF rep] by (simp add: heap_shape_def eq pr(1))
  show "heap_lists h' A S" using heap_repD(2) [OF rep] unfolding heap_lists_def e eq by (simp add: e(1,2) [abs_def])
  assume j: "j \<in> set A" "j \<noteq> i"
  then have "freelist (kh_mem h') (page h j) (bsize h j) (F j) = freelist (kh_mem h) (page h j) (bsize h j) (F j)"
    using mem by (intro freelist_cong) simp
  then show "page_ok h' j (F j)" using heap_repD(3) [OF rep j(1)] j(2) unfolding page_ok_def e eq by (simp add: s)
qed

lemma heap_rep_page:
  assumes rep: "heap_rep h A S F" and i: "i \<in> set A"
    and pr: "pagerefs h' = (pagerefs h)[i := r]" "next_samesize r = ss h i" "next_all r = na h i"
      "pageaddr_and_blocktype r = pageaddr_and_blocktype (pagerefs h ! i)"
    and eq: "pagerefs_inuse h' = pagerefs_inuse h" "sizebases h' = sizebases h" "allbase h' = allbase h" "kh_ram h' = kh_ram h"
    and mem: "\<And>j n. j \<in> set A \<Longrightarrow> j \<noteq> i \<Longrightarrow> n \<in> set (F j) \<Longrightarrow> kh_mem h' (page h j + n * bsize h j) = kh_mem h (page h j + n * bsize h j)"
    and ok: "page_ok h' i fs"
  shows "heap_rep h' A S (F(i := fs))"
proof -
  have fr: "heap_shape h'" "heap_lists h' A S" "j \<in> set A \<Longrightarrow> j \<noteq> i \<Longrightarrow> page_ok h' j (F j)" "page h' j = page h j" for j
    by (rule heap_frame [OF rep i pr eq mem]; assumption)+
  then show ?thesis using ok heap_repD(4) [OF rep] unfolding heap_rep_def by auto
qed

lemma allocated_page:
  assumes "i \<in> set A" "\<And>j. page h' j = page h j" "\<And>j. btype h' j = btype h j"
    and F: "F i = n # fs" "distinct (F i)" "n < PAGE_SIZE div bsize h i"
  shows "allocated h' A (F(i := fs)) = insert (page h i + n * bsize h i, bsize h i) (allocated h A F)"
proof -
  have b: "block h' = block h" by (auto simp: block_def assms(2,3) fun_eq_iff)
  have "used h' A (F(i := fs)) = insert (i, n) (used h A F)"
    unfolding used_def assms(3) using assms(1) F by (auto split: if_splits)
  then show ?thesis unfolding allocated_def b by (simp add: block_def)
qed

lemma doalloc_ok:
  assumes rep: "heap_rep h A S F" and i: "i \<in> set A" and F: "F i = n # fs"
  obtains h' where "doalloc i h = Some (page h i + n * bsize h i, h')" "heap_rep h' A S (F(i := fs))"
    "allocated h' A (F(i := fs)) = insert (page h i + n * bsize h i, bsize h i) (allocated h A F)"
    "kh_mem h' = kh_mem h" "kh_ram h' = kh_ram h" "page h' = page h" "btype h' = btype h"
proof -
  let ?r = "pagerefs h ! i" and ?p = "page h i" and ?s = "bsize h i"
  note ok = page_okD [OF heap_repD(3) [OF rep i], unfolded F]
  note pin = page_inD [OF ok(2) heap_shapeD(4) [OF heap_repD(1) [OF rep]]]
  have il: "i < length (pagerefs h)" by (rule pr_less [OF rep i])
  have fit: "n * ?s < PAGE_SIZE" "m \<in> set fs \<Longrightarrow> m * ?s < PAGE_SIZE" for m
    using block_fits(2) [OF ok(1)] ok(4) by auto
  have off: "freelist_offset ?r = n * ?s" using ok(7) by simp
  have fla: "wrap32 (?p + n * ?s) = ?p + n * ?s" using pin(5) fit(1) by simp
  have nx: "kh_mem h (?p + n * ?s) = fl_ptr ?p ?s fs" using ok(8) by simp
  define r where "r = ?r\<lparr>nfree := length fs, freelist_offset := (case fs of [] \<Rightarrow> INVALID_OFFSET | m # _ \<Rightarrow> m * ?s)\<rparr>"
  let ?h = "h\<lparr>pagerefs := (pagerefs h)[i := r]\<rparr>"
  have da: "doalloc i h = Some (?p + n * ?s, ?h)"
  proof (cases fs)
    case Nil
    then show ?thesis using il off fit(1) fla nx ok(6) by (simp add: doalloc_def pr_update_def r_def Let_def)
  next
    case (Cons m ms)
    have "sub32 (?p + m * ?s) ?p = m * ?s" using pin(5) fit(2) [of m] Cons by (simp add: sub32_le)
    then show ?thesis using il off fit fla nx ok(6) pin(2) Cons by (simp add: doalloc_def pr_update_def r_def Let_def)
  qed
  have e: "page ?h i = page h i" "btype ?h i = btype h i"
    using il by (simp_all add: r_def PR_PAGEADDR_def PR_BLOCKTYPE_def)
  have pk: "page_ok ?h i fs"
    unfolding page_ok_def e using ok(1-6,8) il by (simp add: subset_iff) (simp add: r_def)
  have rp: "heap_rep ?h A S (F(i := fs))"
    by (rule heap_rep_page [OF rep i, where r = r]; (use pk in \<open>simp add: r_def\<close>)?)
  have pb: "page ?h j = page h j" "btype ?h j = btype h j" for j
    using e by (cases "j = i"; simp)+
  have al: "allocated ?h A (F(i := fs)) = insert (?p + n * ?s, ?s) (allocated h A F)"
    by (rule allocated_page [where F = F and n = n]; (rule i pb F)?) (use ok(3,4) F in simp_all)
  have "page ?h = page h" "btype ?h = btype h" "kh_mem ?h = kh_mem h" "kh_ram ?h = kh_ram h"
    using pb by (simp_all add: fun_eq_iff)
  then show thesis by (intro that [OF da rp al])
qed

lemma findD: "find P xs = Some x \<Longrightarrow> x \<in> set xs \<and> P x"
  by (induction xs) (auto split: if_splits)

lemma find_page_eq:
  assumes "chained (ss h) p xs" "\<And>i. i \<in> set xs \<Longrightarrow> i < length (pagerefs h) \<and> btype h i = k"
  shows "find_page k p h = Some (find (\<lambda>i. nfree (pagerefs h ! i) > 0) xs)"
  using assms
proof (induction xs arbitrary: p)
  case Nil then show ?case by (subst find_page.simps) simp
next
  case (Cons x xs)
  then have "find_page k (ss h x) h = Some (find (\<lambda>i. nfree (pagerefs h ! i) > 0) xs)" by simp
  then show ?case using Cons.prems by (subst find_page.simps) simp
qed

lemma subpage_take_ok:
  assumes rep: "heap_rep h A S F" and k: "k < NSIZES"
  obtains (full) "subpage_take k h = Some (None, h)"
  | (hit) h' i n fs where "subpage_take k h = Some (Some (page h i + n * sizes ! k), h')" "i \<in> set A" "btype h i = k"
      "F i = n # fs" "heap_rep h' A S (F(i := fs))"
      "allocated h' A (F(i := fs)) = insert (page h i + n * sizes ! k, sizes ! k) (allocated h A F)"
      "kh_mem h' = kh_mem h" "kh_ram h' = kh_ram h" "page h' = page h" "btype h' = btype h"
proof -
  note hl = heap_listsD [OF heap_repD(2) [OF rep]]
  let ?P = "\<lambda>i. nfree (pagerefs h ! i) > 0"
  have fp: "find_page k (sizebases h ! k) h = Some (find ?P (S k))"
    by (rule find_page_eq [OF hl(4) [OF k]]) (use hl(6) [OF k] pr_less [OF rep] in auto)
  have kl: "k < length (sizebases h)" using k heap_shapeD(3) [OF heap_repD(1) [OF rep]] by simp
  show thesis
  proof (cases "find ?P (S k)")
    case None
    then show thesis using full fp kl by (simp add: subpage_take_def)
  next
    case (Some i)
    then have i: "i \<in> set A" "btype h i = k" "0 < nfree (pagerefs h ! i)"
      using hl(6) [OF k] by (auto dest: findD)
    then obtain n fs where F: "F i = n # fs" using page_okD(6) [OF heap_repD(3) [OF rep i(1)]] by (cases "F i") auto
    obtain h' where h': "doalloc i h = Some (page h i + n * bsize h i, h')" "heap_rep h' A S (F(i := fs))"
      "allocated h' A (F(i := fs)) = insert (page h i + n * bsize h i, bsize h i) (allocated h A F)"
      "kh_mem h' = kh_mem h" "kh_ram h' = kh_ram h" "page h' = page h" "btype h' = btype h"
      by (rule doalloc_ok [OF rep i(1) F])
    have "subpage_take k h = Some (Some (page h i + n * sizes ! k), h')"
      using fp kl Some h'(1) i(2) by (simp add: subpage_take_def)
    then show thesis by (rule hit [OF _ i(1,2) F h'(2) h'(3) [unfolded i(2)] h'(4-7)])
  qed
qed

subsection \<open>A fresh page\<close>

lemma word_and_bit: "w AND 2 ^ j = 0 \<longleftrightarrow> \<not> bit w j" if "j < 32" for w :: u32
proof
  assume "w AND 2 ^ j = 0"
  then have "\<not> bit (w AND 2 ^ j) j" by simp
  then show "\<not> bit w j" using that by (simp add: bit_simps)
next
  assume "\<not> bit w j"
  then show "w AND 2 ^ j = 0" by (intro bit_word_eqI) (auto simp: bit_simps)
qed

lemma clear_bit_Some: "clear_bit n w j = Some i \<Longrightarrow> j + n \<le> 32 \<Longrightarrow> j \<le> i \<and> i < j + n \<and> \<not> bit w i"
  by (induction n w j rule: clear_bit.induct) (auto simp: word_and_bit split: if_splits)

lemma clear_bit_None: "clear_bit n w j = None \<Longrightarrow> j + n \<le> 32 \<Longrightarrow> j \<le> i \<Longrightarrow> i < j + n \<Longrightarrow> bit w i"
proof (induction n w j rule: clear_bit.induct)
  case (2 n w j)
  then show ?case by (cases "i = j") (auto simp: word_and_bit split: if_splits)
qed simp

lemma clear_bit_found:
  assumes "w \<noteq> 4294967295"
  obtains j where "clear_bit 32 w 0 = Some j" "j < 32" "\<not> bit w j"
proof (cases "clear_bit 32 w 0")
  case None
  have "bit w i" if "i < 32" for i using clear_bit_None [OF None, of i] that by simp
  then have "w = - 1" by (intro bit_word_eqI) simp
  then show thesis using assms by simp
next
  case (Some j)
  then show thesis using clear_bit_Some [OF Some] that by simp
qed

lemma allocpageref_from_ok:
  assumes "i + n \<le> length (pagerefs_inuse h)"
  shows "allocpageref_from n i h = Some (None, h) \<or>
    (\<exists>w j. i \<le> w \<and> w < i + n \<and> j < 32 \<and> \<not> bit (pagerefs_inuse h ! w) j \<and>
       allocpageref_from n i h = Some (Some (w * 32 + j),
         h\<lparr>pagerefs_inuse := (pagerefs_inuse h)[w := pagerefs_inuse h ! w OR push_bit j 1]\<rparr>))"
  using assms
proof (induction n arbitrary: i)
  case 0 then show ?case by simp
next
  case (Suc n)
  show ?case
  proof (cases "pagerefs_inuse h ! i = 4294967295")
    case True
    then show ?thesis using Suc.IH [of "Suc i"] Suc.prems by fastforce
  next
    case False
    then obtain j where "clear_bit 32 (pagerefs_inuse h ! i) 0 = Some j" "j < 32" "\<not> bit (pagerefs_inuse h ! i) j"
      by (rule clear_bit_found)
    then show ?thesis using False Suc.prems by auto
  qed
qed

lemma inuse_update:
  assumes "length bs = INUSE_WORDS" "i < NPAGEREFS" "j < NPAGEREFS"
  shows "bit (bs[j div 32 := bs ! (j div 32) OR push_bit (j mod 32) 1] ! (i div 32)) (i mod 32) \<longleftrightarrow>
      i = j \<or> bit (bs ! (i div 32) :: u32) (i mod 32)"
    "bit (bs[j div 32 := bs ! (j div 32) AND NOT (push_bit (j mod 32) 1)] ! (i div 32)) (i mod 32) \<longleftrightarrow>
      i \<noteq> j \<and> bit (bs ! (i div 32) :: u32) (i mod 32)"
proof -
  have l: "i div 32 < length bs" "j div 32 < length bs" using assms by (auto simp: INUSE_WORDS_def NPAGEREFS_def)
  have e: "i = j \<longleftrightarrow> i div 32 = j div 32 \<and> i mod 32 = j mod 32" by (metis div_mult_mod_eq)
  have m: "i mod 32 < 32" by simp
  show "bit (bs[j div 32 := bs ! (j div 32) OR push_bit (j mod 32) 1] ! (i div 32)) (i mod 32) \<longleftrightarrow>
      i = j \<or> bit (bs ! (i div 32) :: u32) (i mod 32)"
    using l m unfolding e by (auto simp: nth_list_update bit_simps)
  show "bit (bs[j div 32 := bs ! (j div 32) AND NOT (push_bit (j mod 32) 1)] ! (i div 32)) (i mod 32) \<longleftrightarrow>
      i \<noteq> j \<and> bit (bs ! (i div 32) :: u32) (i mod 32)"
    using l m unfolding e by (auto simp: nth_list_update bit_simps)
qed

lemma allocpageref_ok:
  assumes "heap_shape h" "heap_lists h A S"
  obtains (full) "allocpageref h = Some (None, h)"
  | (found) pr where "pr < NPAGEREFS" "pr \<notin> set A"
      "allocpageref h = Some (Some pr, h\<lparr>pagerefs_inuse :=
         (pagerefs_inuse h)[pr div 32 := pagerefs_inuse h ! (pr div 32) OR push_bit (pr mod 32) 1]\<rparr>)"
proof -
  have l: "length (pagerefs_inuse h) = INUSE_WORDS" by (rule heap_shapeD(2) [OF assms(1)])
  have "allocpageref_from INUSE_WORDS 0 h = Some (None, h) \<or>
    (\<exists>w j. 0 \<le> w \<and> w < 0 + INUSE_WORDS \<and> j < 32 \<and> \<not> bit (pagerefs_inuse h ! w) j \<and>
       allocpageref_from INUSE_WORDS 0 h = Some (Some (w * 32 + j),
         h\<lparr>pagerefs_inuse := (pagerefs_inuse h)[w := pagerefs_inuse h ! w OR push_bit j 1]\<rparr>))"
    by (rule allocpageref_from_ok) (simp add: l)
  then show thesis
  proof (elim disjE exE conjE)
    assume "allocpageref_from INUSE_WORDS 0 h = Some (None, h)"
    then show thesis using full by (simp add: allocpageref_def)
  next
    fix w j
    assume w: "w < 0 + INUSE_WORDS" and j: "j < 32" and b: "\<not> bit (pagerefs_inuse h ! w) j"
      and a: "allocpageref_from INUSE_WORDS 0 h = Some (Some (w * 32 + j),
         h\<lparr>pagerefs_inuse := (pagerefs_inuse h)[w := pagerefs_inuse h ! w OR push_bit j 1]\<rparr>)"
    have p: "w * 32 + j < NPAGEREFS" using w j by (simp add: INUSE_WORDS_def NPAGEREFS_def)
    have d: "(w * 32 + j) div 32 = w" "(w * 32 + j) mod 32 = j" using j by simp_all
    have "w * 32 + j \<notin> set A" using heap_listsD(7) [OF assms(2) p] b unfolding d by simp
    then show thesis using found [OF p] a unfolding allocpageref_def d by blast
  qed
qed

lemma link_blocks_ok:
  assumes "fla + (i + c) * sz < 2 ^ 32" "0 < sz" "0 < i"
  shows "\<exists>m'. link_blocks c fla sz i m = Some m' \<and>
    (\<forall>j. i \<le> j \<and> j < i + c \<longrightarrow> m' (fla + j * sz) = fla + (j - 1) * sz) \<and>
    (\<forall>a. (\<forall>j. i \<le> j \<and> j < i + c \<longrightarrow> a \<noteq> fla + j * sz) \<longrightarrow> m' a = m a)"
  using assms
proof (induction c arbitrary: i m)
  case 0 then show ?case by simp
next
  case (Suc c)
  have le: "i * sz \<le> (i + Suc c) * sz" "(i - 1) * sz \<le> (i + Suc c) * sz" by (intro mult_le_mono1; simp)+
  then have w: "wrap32 (fla + i * sz) = fla + i * sz" "wrap32 (fla + (i - 1) * sz) = fla + (i - 1) * sz"
    using Suc.prems(1) by simp_all
  have ne: "fla + i * sz \<noteq> fla + (i - 1) * sz" using Suc.prems(2,3) by simp
  have s: "Suc i + c = i + Suc c" by simp
  obtain m' where m': "link_blocks c fla sz (Suc i) (m(fla + i * sz := fla + (i - 1) * sz)) = Some m'"
    "\<forall>j. Suc i \<le> j \<and> j < i + Suc c \<longrightarrow> m' (fla + j * sz) = fla + (j - 1) * sz"
    "\<forall>a. (\<forall>j. Suc i \<le> j \<and> j < i + Suc c \<longrightarrow> a \<noteq> fla + j * sz) \<longrightarrow> m' a = (m(fla + i * sz := fla + (i - 1) * sz)) a"
    using Suc.IH [of "Suc i", unfolded s] Suc.prems by blast
  have own: "m' (fla + i * sz) = fla + (i - 1) * sz" using m'(3) Suc.prems(2) by auto
  have "link_blocks (Suc c) fla sz i m = Some m'" using m'(1) w ne by simp
  moreover have "m' (fla + j * sz) = fla + (j - 1) * sz" if "i \<le> j" "j < i + Suc c" for j
    using that m'(2) own by (cases "i = j") auto
  moreover have "m' a = m a" if a: "\<forall>j. i \<le> j \<and> j < i + Suc c \<longrightarrow> a \<noteq> fla + j * sz" for a
  proof -
    have "a \<noteq> fla + i * sz" using a by auto
    then show ?thesis using m'(3) a by (metis Suc_leD fun_upd_other)
  qed
  ultimately show ?case by blast
qed

lemma freelist_rev:
  assumes "\<And>j. 0 < j \<Longrightarrow> j < n \<Longrightarrow> m (pa + j * sz) = pa + (j - 1) * sz" "m pa = 0"
  shows "freelist m pa sz (rev [0..<n])"
  using assms(1)
proof (induction n)
  case (Suc n)
  have "m (pa + n * sz) = fl_ptr pa sz (rev [0..<n])" using Suc.prems [of n] assms(2) by (cases n) simp_all
  then show ?case using Suc by simp
qed simp

text \<open>The heap with page \<open>pa\<close> as pageref \<open>i\<close>, its last block taken.\<close>

definition grown :: "nat \<Rightarrow> nat \<Rightarrow> nat \<Rightarrow> (nat \<Rightarrow> nat) \<Rightarrow> kheap \<Rightarrow> kheap" where
  "grown i k pa m h = h\<lparr>pagerefs_inuse := (pagerefs_inuse h)[i div 32 := pagerefs_inuse h ! (i div 32) OR push_bit (i mod 32) 1],
    kh_mem := m, sizebases := (sizebases h)[k := Some i], allbase := Some i,
    pagerefs := (pagerefs h)[i := (pagerefs h ! i)\<lparr>pageaddr_and_blocktype := MKPAB pa k, next_samesize := sizebases h ! k,
      next_all := allbase h, nfree := PAGE_SIZE div sizes ! k - 1,
      freelist_offset := (PAGE_SIZE div sizes ! k - 2) * sizes ! k\<rparr>]\<rparr>"

lemma grown_nth:
  assumes "heap_shape h" "i < NPAGEREFS" "k < NSIZES" "page_in (kh_ram h) pa"
  shows "j \<noteq> i \<Longrightarrow> pagerefs (grown i k pa m h) ! j = pagerefs h ! j"
    "page (grown i k pa m h) i = pa" "btype (grown i k pa m h) i = k"
    "na (grown i k pa m h) i = allbase h" "ss (grown i k pa m h) i = sizebases h ! k"
    "nfree (pagerefs (grown i k pa m h) ! i) = PAGE_SIZE div sizes ! k - 1"
    "freelist_offset (pagerefs (grown i k pa m h) ! i) = (PAGE_SIZE div sizes ! k - 2) * sizes ! k"
proof -
  have il: "i < length (pagerefs h)" using assms(2) heap_shapeD(1) [OF assms(1)] by simp
  note pin = page_inD [OF assms(4) heap_shapeD(4) [OF assms(1)]]
  have lt: "pa < 2 ^ 32" using pin(5) by linarith
  show "page (grown i k pa m h) i = pa" "btype (grown i k pa m h) i = k"
    by (rule MKPAB_parts [OF pin(1) lt assms(3)]; use il in \<open>simp add: grown_def\<close>)+
qed (use assms(2) heap_shapeD(1) [OF assms(1)] in \<open>simp_all add: grown_def\<close>)

lemma grown_lists:
  assumes sh: "heap_shape h" and ls: "heap_lists h A S" and i: "i < NPAGEREFS" "i \<notin> set A" and k: "k < NSIZES"
    and pa: "page_in (kh_ram h) pa"
  shows "heap_lists (grown i k pa m h) (i # A) (S(k := i # S k))"
proof -
  let ?h = "grown i k pa m h"
  note hl = heap_listsD [OF ls] and gn = grown_nth [OF sh i(1) k pa]
  have A: "chained (na ?h) (na ?h i) A"
    unfolding gn(4) by (subst chained_cong [where nxt = "na h"]) (use hl(1) i(2) gn(1) in metis)+
  have gA: "pagerefs ?h ! j = pagerefs h ! j" if "j \<in> set A" for j using gn(1) that i(2) by metis
  have S: "chained (ss ?h) (sizebases h ! l) (S l)" if l: "l < NSIZES" for l
    by (subst chained_cong [where nxt = "ss h"]) (use hl(4,6) [OF l] gA in auto)
  have sb: "sizebases ?h ! l = (if l = k then Some i else sizebases h ! l)" if "l < NSIZES" for l
    using that heap_shapeD(3) [OF sh] by (simp add: grown_def nth_list_update)
  have bt: "{j \<in> set (i # A). btype ?h j = l} = (if l = k then insert i {j \<in> set A. btype h j = l} else {j \<in> set A. btype h j = l})" for l
    using gA gn(3) i(2) by (auto split: if_splits)
  have sizes_ok: "chained (ss ?h) (sizebases ?h ! l) ((S(k := i # S k)) l) \<and> distinct ((S(k := i # S k)) l) \<and>
      set ((S(k := i # S k)) l) = {j \<in> set (i # A). btype ?h j = l}" if l: "l < NSIZES" for l
    unfolding bt sb [OF l] using S [OF l] hl(5,6) [OF l] i(2) gn(5) by auto
  have bits: "bit (pagerefs_inuse ?h ! (j div 32)) (j mod 32) \<longleftrightarrow> j \<in> set (i # A)" if "j < NPAGEREFS" for j
    using inuse_update(1) [OF heap_shapeD(2) [OF sh] that i(1)] hl(7) [OF that] by (simp add: grown_def)
  show ?thesis
    unfolding heap_lists_def using A sizes_ok bits hl(2,3) i by (auto simp: grown_def [of i k pa m h])
qed

lemma grown_rep:
  assumes rep: "heap_rep h A S F" and i: "i < NPAGEREFS" "i \<notin> set A" and k: "k < NSIZES"
    and pa: "page_in (kh_ram h) pa" and fresh: "\<And>j. j \<in> set A \<Longrightarrow> page h j \<noteq> pa"
    and m: "freelist m pa (sizes ! k) (rev [0..<PAGE_SIZE div sizes ! k - 1])"
      "\<And>a. a < pa \<or> pa + PAGE_SIZE \<le> a \<Longrightarrow> m a = kh_mem h a"
  shows "heap_rep (grown i k pa m h) (i # A) (S(k := i # S k)) (F(i := rev [0..<PAGE_SIZE div sizes ! k - 1]))"
proof -
  let ?h = "grown i k pa m h" and ?n = "PAGE_SIZE div sizes ! k - 1"
  note sh = heap_repD(1) [OF rep]
  note gn = grown_nth [OF sh i(1) k pa]
  have n: "?n = Suc (PAGE_SIZE div sizes ! k - 2)" using size_facts(5) [OF k] by simp
  have fl: "(case rev [0..<?n] of [] \<Rightarrow> INVALID_OFFSET | x # _ \<Rightarrow> x * sizes ! k) = (PAGE_SIZE div sizes ! k - 2) * sizes ! k"
    unfolding n by simp
  have flds: "kh_ram ?h = kh_ram h" "kh_mem ?h = m" by (simp_all add: grown_def)
  have own: "page_ok ?h i (rev [0..<?n])"
    unfolding page_ok_def gn(2,3,6,7) flds fl using k pa m(1) size_facts(5) [OF k] by auto
  have other: "page_ok ?h j (F j)" if j: "j \<in> set A" for j
  proof -
    have ji: "j \<noteq> i" using j i(2) by auto
    note ok = page_okD [OF heap_repD(3) [OF rep j]]
    obtain a b where ab: "page h j = PAGE_SIZE * a" "pa = PAGE_SIZE * b" using ok(2) pa by (auto simp: page_in_def elim!: dvdE)
    then have ap: "page h j + PAGE_SIZE \<le> pa \<or> pa + PAGE_SIZE \<le> page h j" using fresh [OF j] by (auto simp: PAGE_SIZE_def)
    have "freelist m (page h j) (bsize h j) (F j) = freelist (kh_mem h) (page h j) (bsize h j) (F j)"
      using block_fits(2) [OF ok(1)] ok(4) ap by (intro freelist_cong m(2)) fastforce
    then show ?thesis using heap_repD(3) [OF rep j] unfolding page_ok_def gn(1) [OF ji] flds by simp
  qed
  have "heap_shape ?h" using sh by (simp add: heap_shape_def grown_def)
  moreover have "page ?h j = page ?h l \<longrightarrow> j = l" if "j \<in> set (i # A)" "l \<in> set (i # A)" for j l
    using that fresh heap_repD(4) [OF rep] gn(1,2) i(2) by (metis set_ConsD)
  ultimately show ?thesis
    unfolding heap_rep_def using grown_lists [OF sh heap_repD(2) [OF rep] i k pa] own other i(2) by auto
qed

lemma grown_allocated:
  assumes "heap_shape h" "i < NPAGEREFS" "i \<notin> set A" "k < NSIZES" "page_in (kh_ram h) pa"
  shows "allocated (grown i k pa m h) (i # A) (F(i := rev [0..<PAGE_SIZE div sizes ! k - 1])) =
    insert (pa + (PAGE_SIZE div sizes ! k - 1) * sizes ! k, sizes ! k) (allocated h A F)"
proof -
  let ?h = "grown i k pa m h" and ?n = "PAGE_SIZE div sizes ! k - 1"
  note gn = grown_nth [OF assms(1,2,4,5)]
  have gA: "pagerefs ?h ! j = pagerefs h ! j" if "j \<in> set A" for j using gn(1) that assms(3) by metis
  have "used ?h (i # A) (F(i := rev [0..<?n])) = insert (i, ?n) (used h A F)"
    using assms(3) gA gn(3) size_facts(5) [OF assms(4)] by (auto simp: used_def split: if_splits)
  moreover have "block ?h ` used h A F = block h ` used h A F"
    using gA by (intro image_cong) (auto simp: used_def block_def)
  ultimately show ?thesis unfolding allocated_def by (simp add: block_def gn(2,3))
qed

lemma subpage_grow_eq:
  assumes sh: "heap_shape h" and pr: "allocpageref h = Some (Some i, h\<lparr>pagerefs_inuse :=
         (pagerefs_inuse h)[i div 32 := pagerefs_inuse h ! (i div 32) OR push_bit (i mod 32) 1]\<rparr>)" "i < NPAGEREFS"
    and k: "k < NSIZES" and pa: "page_in (kh_ram h) pa"
  obtains m where "subpage_grow k pa h = Some (Some (pa + (PAGE_SIZE div sizes ! k - 1) * sizes ! k), grown i k pa m h)"
    "freelist m pa (sizes ! k) (rev [0..<PAGE_SIZE div sizes ! k - 1])"
    "\<forall>a. a < pa \<or> pa + PAGE_SIZE \<le> a \<longrightarrow> m a = kh_mem h a"
proof -
  let ?sz = "sizes ! k"
  define n where "n = PAGE_SIZE div ?sz"
  note sf = size_facts [OF k, folded n_def] and pin = page_inD [OF pa heap_shapeD(4) [OF sh]]
  have le: "j * ?sz < PAGE_SIZE" if "j < n" for j using that block_fits(2) [OF k] by (simp add: n_def)
  have c: "pa + (1 + (n - 1)) * ?sz < 2 ^ 32" using sf(3,5) pin(5) by simp
  obtain m where m: "link_blocks (n - 1) pa ?sz 1 ((kh_mem h)(pa := 0)) = Some m"
    "\<forall>j. 1 \<le> j \<and> j < 1 + (n - 1) \<longrightarrow> m (pa + j * ?sz) = pa + (j - 1) * ?sz"
    "\<forall>a. (\<forall>j. 1 \<le> j \<and> j < 1 + (n - 1) \<longrightarrow> a \<noteq> pa + j * ?sz) \<longrightarrow> m a = ((kh_mem h)(pa := 0)) a"
    using link_blocks_ok [OF c, of "(kh_mem h)(pa := 0)"] sf(1) by auto
  have own: "m pa = 0" using m(3) sf(1) by auto
  have fl: "freelist m pa ?sz (rev [0..<n - 1])" using m(2) own by (intro freelist_rev) auto
  have rest: "m a = kh_mem h a" if a: "a < pa \<or> pa + PAGE_SIZE \<le> a" for a
  proof -
    have "a \<noteq> pa + j * ?sz" if "j < n" for j using a le [OF that] by auto
    moreover have "a \<noteq> pa" using a by (auto simp: PAGE_SIZE_def)
    moreover have "j < n" if "1 \<le> j \<and> j < 1 + (n - 1)" for j using that sf(5) by linarith
    ultimately show ?thesis using m(3) by (metis fun_upd_other)
  qed
  obtain q where q: "n = Suc (Suc q)" using sf(5) by (metis add_2_eq_Suc le_Suc_ex)
  have s: "sub32 (pa + j * ?sz) pa = j * ?sz" "wrap32 (pa + j * ?sz) = pa + j * ?sz" if "j < n" for j
    using le [OF that] pin(5) by (simp_all add: sub32_le)
  have nx: "m (pa + Suc q * ?sz) = pa + q * ?sz" using m(2) by (simp add: q del: mult_Suc)
  have P: "PR_PAGEADDR r = pa" if "pageaddr_and_blocktype r = MKPAB pa k" for r
    by (rule MKPAB_parts(1) [OF pin(1) _ k that]) (use pin(5) in linarith)
  have lens: "length (pagerefs h) = NPAGEREFS" "length (sizebases h) = NSIZES" by (rule heap_shapeD [OF sh])+
  have "subpage_grow k pa h = Some (Some (pa + Suc q * ?sz), grown i k pa m h)"
    unfolding subpage_grow_def doalloc_def grown_def pr_update_def
    using pr m(1) lens k le [of "Suc q"] le [of q] s [of "Suc q"] s [of q] nx pin(2) P sf(7)
    by (simp add: n_def [symmetric] q Let_def del: mult_Suc)
  then show thesis using that fl rest q unfolding n_def by simp
qed

lemma subpage_grow_ok:
  assumes rep: "heap_rep h A S F" and k: "k < NSIZES" and pa: "page_in (kh_ram h) pa"
    and fresh: "\<forall>j \<in> set A. page h j \<noteq> pa"
  obtains (none) "subpage_grow k pa h = Some (None, h)"
  | (grow) h' i S' F' where "subpage_grow k pa h = Some (Some (pa + (PAGE_SIZE div sizes ! k - 1) * sizes ! k), h')"
      "heap_rep h' (i # A) S' F'" "page h' i = pa" "btype h' i = k" "\<forall>j \<in> set A. page h' j = page h j"
      "allocated h' (i # A) F' = insert (pa + (PAGE_SIZE div sizes ! k - 1) * sizes ! k, sizes ! k) (allocated h A F)"
      "kh_ram h' = kh_ram h" "\<forall>a. a < pa \<or> pa + PAGE_SIZE \<le> a \<longrightarrow> kh_mem h' a = kh_mem h a"
proof -
  note sh = heap_repD(1) [OF rep]
  show thesis
  proof (rule allocpageref_ok [OF sh heap_repD(2) [OF rep]])
    assume "allocpageref h = Some (None, h)"
    then show thesis using none size_facts(7) [OF k] by (simp add: subpage_grow_def free_kpages_def)
  next
    fix i
    assume i: "i < NPAGEREFS" "i \<notin> set A" and a: "allocpageref h = Some (Some i, h\<lparr>pagerefs_inuse :=
         (pagerefs_inuse h)[i div 32 := pagerefs_inuse h ! (i div 32) OR push_bit (i mod 32) 1]\<rparr>)"
    note gn = grown_nth [OF sh i(1) k pa]
    obtain m where m: "subpage_grow k pa h = Some (Some (pa + (PAGE_SIZE div sizes ! k - 1) * sizes ! k), grown i k pa m h)"
      "freelist m pa (sizes ! k) (rev [0..<PAGE_SIZE div sizes ! k - 1])"
      "\<forall>a. a < pa \<or> pa + PAGE_SIZE \<le> a \<longrightarrow> m a = kh_mem h a"
      by (rule subpage_grow_eq [OF sh a i(1) k pa])
    have pgs: "\<forall>j \<in> set A. page (grown i k pa m h) j = page h j" using gn(1) i(2) by metis
    have rep': "heap_rep (grown i k pa m h) (i # A) (S(k := i # S k)) (F(i := rev [0..<PAGE_SIZE div sizes ! k - 1]))"
      by (rule grown_rep [OF rep i k pa _ m(2)]) (use fresh m(3) in blast)+
    note alloc' = grown_allocated [OF sh i k pa, where F = F and m = m]
    have "kh_ram (grown i k pa m h) = kh_ram h"
      "\<forall>a. a < pa \<or> pa + PAGE_SIZE \<le> a \<longrightarrow> kh_mem (grown i k pa m h) a = kh_mem h a"
      using m(3) by (simp_all add: grown_def)
    then show thesis by (rule grow [OF m(1) rep' gn(2,3) pgs alloc'])
  qed
qed

subsection \<open>Freeing a block\<close>

lemma find_owner_eq:
  assumes "chained (na h) p xs"
    and "\<And>i. i \<in> set xs \<Longrightarrow> i < length (pagerefs h) \<and> btype h i < NSIZES \<and> page h i + PAGE_SIZE < 2 ^ 32"
  shows "find_owner a p h = Some (find (\<lambda>i. page h i \<le> a \<and> a < page h i + PAGE_SIZE) xs)"
  using assms
proof (induction xs arbitrary: p)
  case Nil then show ?case by (subst find_owner.simps) simp
next
  case (Cons x xs)
  have w: "wrap32 (page h x + PAGE_SIZE) = page h x + PAGE_SIZE" using Cons.prems(2) [of x] by simp
  have "find_owner a (na h x) h = Some (find (\<lambda>i. page h i \<le> a \<and> a < page h i + PAGE_SIZE) xs)"
    using Cons by simp
  then show ?case using Cons.prems by (subst find_owner.simps) (simp add: w Let_def)
qed

lemma find_owner_rep:
  assumes rep: "heap_rep h A S F"
  shows "find_owner a (allbase h) h = Some (find (\<lambda>i. page h i \<le> a \<and> a < page h i + PAGE_SIZE) A)"
  by (rule find_owner_eq [OF heap_listsD(1) [OF heap_repD(2) [OF rep]]])
    (use pr_less [OF rep] page_okD(1,2) [OF heap_repD(3) [OF rep]] page_inD(5) [OF _ heap_shapeD(4) [OF heap_repD(1) [OF rep]]] in blast)

lemma find_owner_in:
  assumes rep: "heap_rep h A S F" and i: "i \<in> set A" and n: "n < PAGE_SIZE div bsize h i"
  shows "find_owner (page h i + n * bsize h i) (allbase h) h = Some (Some i)"
proof -
  let ?P = "\<lambda>j. page h j \<le> page h i + n * bsize h i \<and> page h i + n * bsize h i < page h j + PAGE_SIZE"
  have lt: "n * bsize h i < PAGE_SIZE" by (rule block_fits(2) [OF page_okD(1) [OF heap_repD(3) [OF rep i]] n])
  then have Pi: "?P i" by simp
  have un: "j = i" if "j \<in> set A" "?P j" for j
    using pages_apart [OF rep that(1) i] that(2) lt by linarith
  have "find ?P A = Some i"
  proof (cases "find ?P A")
    case None then show ?thesis using Pi i unfolding find_None_iff by blast
  next
    case (Some j) then show ?thesis using findD [OF Some] un by blast
  qed
  then show ?thesis unfolding find_owner_rep [OF rep] by simp
qed

lemma fill_deadbeef_frame:
  assumes "ptr + n * 4 \<le> 2 ^ 32" "a < ptr \<or> ptr + n * 4 \<le> a"
  shows "fill_deadbeef ptr n m a = m a"
  using assms by (induction n) auto

text \<open>Taking an element out of a list.\<close>

lemma chained_unlink:
  assumes "chained nxt p (us @ x # vs)" "distinct (us @ x # vs)"
  shows "us = [] \<Longrightarrow> chained nxt (nxt x) vs" "us \<noteq> [] \<Longrightarrow> chained (nxt(last us := nxt x)) p (us @ vs)"
proof -
  show "us = [] \<Longrightarrow> chained nxt (nxt x) vs" using assms(1) by simp
  show "us \<noteq> [] \<Longrightarrow> chained (nxt(last us := nxt x)) p (us @ vs)" using assms
  proof (induction us arbitrary: p)
    case (Cons u us)
    show ?case
    proof (cases "us = []")
      case True
      then have "chained (nxt(u := nxt x)) (nxt x) vs = chained nxt (nxt x) vs"
        using Cons.prems(3) by (intro chained_cong) auto
      then show ?thesis using Cons.prems True by (simp add: fun_upd_def)
    next
      case False
      then have "u \<noteq> last us" using Cons.prems(3) by auto
      then show ?thesis using Cons False by simp
    qed
  qed simp
qed

definition prev_of :: "nat option \<Rightarrow> nat list \<Rightarrow> nat option" where
  "prev_of guy us = (if us = [] then guy else Some (last us))"

lemma prev_of_Cons [simp]: "prev_of guy (u # us) = prev_of (Some u) us" "prev_of guy [] = guy"
  by (simp_all add: prev_of_def)

lemma remove_samesize_eq:
  assumes "chained (ss h) cur (us @ x # vs)" "x \<notin> set us" "set (us @ [x]) \<subseteq> {..<length (pagerefs h)}"
  shows "remove_samesize k x guy cur h = set_samesize k (prev_of guy us) (ss h x) h"
  using assms
proof (induction us arbitrary: guy cur)
  case Nil then show ?case by (subst remove_samesize.simps) simp
next
  case (Cons u us)
  then have "remove_samesize k x (Some u) (ss h u) h = set_samesize k (prev_of (Some u) us) (ss h x) h" by simp
  then show ?case using Cons.prems by (subst remove_samesize.simps) auto
qed

lemma remove_all_eq:
  assumes "chained (na h) cur (us @ x # vs)" "x \<notin> set us" "set (us @ [x]) \<subseteq> {..<length (pagerefs h)}"
  shows "remove_all x guy cur h = set_all (prev_of guy us) (na h x) h"
  using assms
proof (induction us arbitrary: guy cur)
  case Nil then show ?case by (subst remove_all.simps) simp
next
  case (Cons u us)
  then have "remove_all x (Some u) (na h u) h = set_all (prev_of (Some u) us) (na h x) h" by simp
  then show ?case using Cons.prems by (subst remove_all.simps) auto
qed

text \<open>What unlinking a page leaves alone.\<close>

definition same_pages :: "kheap \<Rightarrow> kheap \<Rightarrow> bool" where
  "same_pages h h' \<longleftrightarrow> length (pagerefs h') = length (pagerefs h) \<and> length (sizebases h') = length (sizebases h) \<and>
     length (pagerefs_inuse h') = length (pagerefs_inuse h) \<and> kh_mem h' = kh_mem h \<and> kh_ram h' = kh_ram h \<and>
     (\<forall>j. page h' j = page h j \<and> btype h' j = btype h j \<and> nfree (pagerefs h' ! j) = nfree (pagerefs h ! j) \<and>
        freelist_offset (pagerefs h' ! j) = freelist_offset (pagerefs h ! j))"

lemma same_pagesD:
  assumes "same_pages h h'"
  shows "heap_shape h' \<longleftrightarrow> heap_shape h" "page h' j = page h j" "btype h' j = btype h j"
    "page_ok h' j fs \<longleftrightarrow> page_ok h j fs" "kh_mem h' = kh_mem h" "kh_ram h' = kh_ram h"
    "length (pagerefs h') = length (pagerefs h)" "length (pagerefs_inuse h') = length (pagerefs_inuse h)"
    "length (sizebases h') = length (sizebases h)"
proof -
  have e: "page h' j = page h j" "btype h' j = btype h j" "nfree (pagerefs h' ! j) = nfree (pagerefs h ! j)"
    "freelist_offset (pagerefs h' ! j) = freelist_offset (pagerefs h ! j)" "kh_mem h' = kh_mem h" "kh_ram h' = kh_ram h" for j
    using assms unfolding same_pages_def by blast+
  show "page_ok h' j fs \<longleftrightarrow> page_ok h j fs" unfolding page_ok_def e ..
  show "page h' j = page h j" "btype h' j = btype h j" "kh_mem h' = kh_mem h" "kh_ram h' = kh_ram h" by (rule e)+
qed (use assms in \<open>simp_all add: same_pages_def heap_shape_def\<close>)

lemma same_pages_trans: "same_pages h h' \<Longrightarrow> same_pages h' h'' \<Longrightarrow> same_pages h h''"
  unfolding same_pages_def by simp

lemma pr_field [simp]:
  "PR_PAGEADDR (r\<lparr>next_samesize := v\<rparr>) = PR_PAGEADDR r" "PR_BLOCKTYPE (r\<lparr>next_samesize := v\<rparr>) = PR_BLOCKTYPE r"
  "PR_PAGEADDR (r\<lparr>next_all := v\<rparr>) = PR_PAGEADDR r" "PR_BLOCKTYPE (r\<lparr>next_all := v\<rparr>) = PR_BLOCKTYPE r"
  "PR_PAGEADDR (r\<lparr>freelist_offset := c, nfree := d\<rparr>) = PR_PAGEADDR r"
  "PR_BLOCKTYPE (r\<lparr>freelist_offset := c, nfree := d\<rparr>) = PR_BLOCKTYPE r"
  by (simp_all add: PR_PAGEADDR_def PR_BLOCKTYPE_def)

lemma set_samesize_ok:
  assumes "chained (ss h) (sizebases h ! k) (us @ x # vs)" "distinct (us @ x # vs)"
    "set us \<subseteq> {..<length (pagerefs h)}" "k < length (sizebases h)"
  obtains h' where "set_samesize k (prev_of None us) (ss h x) h = Some h'" "chained (ss h') (sizebases h' ! k) (us @ vs)"
    "\<forall>l. l \<noteq> k \<longrightarrow> sizebases h' ! l = sizebases h ! l" "\<forall>j. j \<notin> set us \<longrightarrow> ss h' j = ss h j" "na h' = na h"
    "allbase h' = allbase h" "pagerefs_inuse h' = pagerefs_inuse h" "same_pages h h'"
proof (cases "us = []")
  case True
  let ?h = "h\<lparr>sizebases := (sizebases h)[k := ss h x]\<rparr>"
  have "set_samesize k (prev_of None us) (ss h x) h = Some ?h" using assms(4) True by (simp add: set_samesize_def)
  moreover have "chained (ss ?h) (sizebases ?h ! k) (us @ vs)" using chained_unlink(1) [OF assms(1,2) True] True assms(4) by simp
  ultimately show thesis by (rule that) (simp_all add: same_pages_def)
next
  case False
  let ?l = "last us"
  let ?h = "h\<lparr>pagerefs := (pagerefs h)[?l := (pagerefs h ! ?l)\<lparr>next_samesize := ss h x\<rparr>]\<rparr>"
  have l: "?l \<in> set us" "?l < length (pagerefs h)" using False assms(3) last_in_set [of us] by blast+
  have s: "ss ?h = (ss h)(?l := ss h x)" using l(2) by (auto simp: fun_eq_iff nth_list_update)
  have a: "set_samesize k (prev_of None us) (ss h x) h = Some ?h"
    using l False by (simp add: set_samesize_def prev_of_def pr_update_def)
  have c: "chained (ss ?h) (sizebases ?h ! k) (us @ vs)" using chained_unlink(2) [OF assms(1,2) False] unfolding s by simp
  have n: "na ?h = na h" using l(2) by (auto simp: fun_eq_iff nth_list_update)
  have j: "\<forall>j. j \<notin> set us \<longrightarrow> ss ?h j = ss h j" using l by (auto simp: nth_list_update)
  have sp: "same_pages h ?h" using l(2) by (auto simp: same_pages_def nth_list_update)
  show thesis by (rule that [OF a c _ j n _ _ sp]) simp_all
qed

lemma set_all_ok:
  assumes "chained (na h) (allbase h) (us @ x # vs)" "distinct (us @ x # vs)" "set us \<subseteq> {..<length (pagerefs h)}"
  obtains h' where "set_all (prev_of None us) (na h x) h = Some h'" "chained (na h') (allbase h') (us @ vs)"
    "sizebases h' = sizebases h" "ss h' = ss h" "pagerefs_inuse h' = pagerefs_inuse h" "same_pages h h'"
proof (cases "us = []")
  case True
  let ?h = "h\<lparr>allbase := na h x\<rparr>"
  have "set_all (prev_of None us) (na h x) h = Some ?h" using True by (simp add: set_all_def)
  moreover have "chained (na ?h) (allbase ?h) (us @ vs)" using chained_unlink(1) [OF assms(1,2) True] True by simp
  ultimately show thesis by (rule that) (simp_all add: same_pages_def)
next
  case False
  let ?l = "last us"
  let ?h = "h\<lparr>pagerefs := (pagerefs h)[?l := (pagerefs h ! ?l)\<lparr>next_all := na h x\<rparr>]\<rparr>"
  have l: "?l < length (pagerefs h)" using False assms(3) last_in_set [of us] by blast+
  have s: "na ?h = (na h)(?l := na h x)" using l by (auto simp: fun_eq_iff nth_list_update)
  have a: "set_all (prev_of None us) (na h x) h = Some ?h"
    using l False by (simp add: set_all_def prev_of_def pr_update_def)
  have c: "chained (na ?h) (allbase ?h) (us @ vs)" using chained_unlink(2) [OF assms(1,2) False] unfolding s by simp
  have n: "ss ?h = ss h" using l by (auto simp: fun_eq_iff nth_list_update)
  have sp: "same_pages h ?h" using l by (auto simp: same_pages_def nth_list_update)
  show thesis by (rule that [OF a c _ n _ sp]) simp_all
qed

lemma remove_lists_ok:
  assumes sh: "heap_shape h" and ls: "heap_lists h A S" and i: "i \<in> set A" "btype h i = k" "k < NSIZES"
  obtains h' where "remove_lists i k h = Some h'" "chained (na h') (allbase h') (remove1 i A)"
    "\<forall>l < NSIZES. chained (ss h') (sizebases h' ! l) ((S(k := remove1 i (S k))) l)"
    "pagerefs_inuse h' = pagerefs_inuse h" "same_pages h h'"
proof -
  note hl = heap_listsD [OF ls] and len = heap_shapeD [OF sh]
  have pl: "set A \<subseteq> {..<length (pagerefs h)}" using hl(3) len(1) by auto
  have iS: "i \<in> set (S k)" "set (S k) \<subseteq> set A" using hl(6) [OF i(3)] i by auto
  obtain us vs where S: "S k = us @ i # vs" "i \<notin> set us" using split_list_first [OF iS(1)] by auto
  obtain as bs where A: "A = as @ i # bs" "i \<notin> set as" using split_list_first [OF i(1)] by auto
  have r1: "remove1 i (S k) = us @ vs" "remove1 i A = as @ bs" using S A by (simp_all add: remove1_append)
  have ul: "set us \<subseteq> {..<length (pagerefs h)}" "set (us @ [i]) \<subseteq> {..<length (pagerefs h)}" using S iS pl by auto
  have kl: "k < length (sizebases h)" using i(3) len(3) by simp
  obtain h1 where h1: "set_samesize k (prev_of None us) (ss h i) h = Some h1" "chained (ss h1) (sizebases h1 ! k) (us @ vs)"
    "\<forall>l. l \<noteq> k \<longrightarrow> sizebases h1 ! l = sizebases h ! l" "\<forall>j. j \<notin> set us \<longrightarrow> ss h1 j = ss h j" "na h1 = na h"
    "allbase h1 = allbase h" "pagerefs_inuse h1 = pagerefs_inuse h" "same_pages h h1"
    by (rule set_samesize_ok [OF hl(4) [OF i(3), unfolded S(1)] hl(5) [OF i(3), unfolded S(1)] ul(1) kl])
  have al: "set as \<subseteq> {..<length (pagerefs h1)}" "set (as @ [i]) \<subseteq> {..<length (pagerefs h1)}"
    using A pl same_pagesD(7) [OF h1(8)] by auto
  have A1: "chained (na h1) (allbase h1) (as @ i # bs)" using hl(1) unfolding h1(5,6) A(1) .
  obtain h2 where h2: "set_all (prev_of None as) (na h1 i) h1 = Some h2" "chained (na h2) (allbase h2) (as @ bs)"
    "sizebases h2 = sizebases h1" "ss h2 = ss h1" "pagerefs_inuse h2 = pagerefs_inuse h1" "same_pages h1 h2"
    by (rule set_all_ok [OF A1 hl(2) [unfolded A(1)] al(1)])
  have "remove_lists i k h = Some h2"
    using i(3) kl remove_samesize_eq [OF hl(4) [OF i(3), unfolded S(1)] S(2) ul(2), of k None] h1(1)
      remove_all_eq [OF A1 A(2) al(2), of None] h2(1) by (simp add: remove_lists_def)
  moreover have "chained (ss h2) (sizebases h2 ! l) ((S(k := remove1 i (S k))) l)" if l: "l < NSIZES" for l
  proof (cases "l = k")
    case True then show ?thesis using h1(2) h2(3,4) r1 by simp
  next
    case False
    have "chained (ss h1) (sizebases h ! l) (S l) = chained (ss h) (sizebases h ! l) (S l)"
      using h1(4) hl(6) [OF l] hl(6) [OF i(3)] S(1) False by (intro chained_cong) auto
    then show ?thesis using False h1(3) h2(3,4) hl(4) [OF l] by simp
  qed
  ultimately show thesis
    using h2(2,5) h1(7) same_pages_trans [OF h1(8) h2(6)] r1(2) by (intro that) simp_all
qed

lemma unlink_ok:
  assumes sh: "heap_shape h" and ls: "heap_lists h A S" and i: "i \<in> set A" "btype h i = k" "k < NSIZES"
  obtains h1 h' where "remove_lists i k h = Some h1" "freepageref i h1 = Some h'"
    "heap_lists h' (remove1 i A) (S(k := remove1 i (S k)))" "same_pages h h'"
proof -
  note hl = heap_listsD [OF ls] and len = heap_shapeD [OF sh]
  obtain h1 where h1: "remove_lists i k h = Some h1" "chained (na h1) (allbase h1) (remove1 i A)"
    "\<forall>l < NSIZES. chained (ss h1) (sizebases h1 ! l) ((S(k := remove1 i (S k))) l)"
    "pagerefs_inuse h1 = pagerefs_inuse h" "same_pages h h1"
    by (rule remove_lists_ok [OF sh ls i])
  let ?w = "pagerefs_inuse h ! (i div 32)"
  let ?h = "h1\<lparr>pagerefs_inuse := (pagerefs_inuse h)[i div 32 := ?w AND NOT (push_bit (i mod 32) 1)]\<rparr>"
  have iN: "i < NPAGEREFS" by (rule hl(3) [OF i(1)])
  have "bit ?w (i mod 32)" using hl(7) [OF iN] i(1) by simp
  then have "freepageref i h1 = Some ?h"
    using iN len(2) by (simp add: freepageref_def h1(4) INUSE_WORDS_def NPAGEREFS_def word_and_bit)
  moreover have sp: "same_pages h ?h" using h1(5) by (simp add: same_pages_def)
  moreover have "heap_lists ?h (remove1 i A) (S(k := remove1 i (S k)))"
  proof -
    have "distinct ((S(k := remove1 i (S k))) l) \<and> set ((S(k := remove1 i (S k))) l) = {j \<in> set (remove1 i A). btype ?h j = l}"
      if l: "l < NSIZES" for l
    proof -
      have "set (remove1 i A) = set A - {i}" "set (remove1 i (S l)) = set (S l) - {i}" using hl(2) hl(5) [OF l] by simp_all
      then show ?thesis unfolding same_pagesD(3) [OF sp] using hl(5,6) [OF l] i by (cases "l = k") auto
    qed
    moreover have "bit (pagerefs_inuse ?h ! (j div 32)) (j mod 32) \<longleftrightarrow> j \<in> set (remove1 i A)" if "j < NPAGEREFS" for j
      using inuse_update(2) [OF len(2) that iN] hl(7) [OF that] set_remove1_eq [OF hl(2)] by (simp add: conj_commute)
    moreover have "chained (na ?h) (allbase ?h) (remove1 i A)" using h1(2) by simp
    moreover have "\<forall>l < NSIZES. chained (ss ?h) (sizebases ?h ! l) ((S(k := remove1 i (S k))) l)" using h1(3) by simp
    moreover have "distinct (remove1 i A)" "set (remove1 i A) \<subseteq> {..<NPAGEREFS}" using hl(2,3) by auto
    ultimately show ?thesis unfolding heap_lists_def by blast
  qed
  ultimately show thesis using that h1(1) by blast
qed

lemma block_inj:
  assumes rep: "heap_rep h A S F" shows "inj_on (block h) {(i, n). i \<in> set A \<and> n < PAGE_SIZE div bsize h i}"
proof (rule inj_onI, clarify)
  fix i n j m
  assume i: "i \<in> set A" "n < PAGE_SIZE div bsize h i" and j: "j \<in> set A" "m < PAGE_SIZE div bsize h j"
    and eq: "block h (i, n) = block h (j, m)"
  have "0 < bsize h i" using size_facts(1) [OF page_okD(1) [OF heap_repD(3) [OF rep i(1)]]] by simp
  then show "i = j \<and> n = m"
    using blocks_apart [OF rep i j] eq unfolding block_def by (cases "(i, n) = (j, m)") auto
qed

lemma allocated_minus:
  assumes rep: "heap_rep h A S F" and u: "(i, n) \<in> used h A F" and b: "\<And>x. x \<in> used h A F \<Longrightarrow> block h' x = block h x"
    and used: "used h' A' F' = used h A F - {(i, n)}"
  shows "allocated h' A' F' = allocated h A F - {block h (i, n)}"
proof -
  have "used h A F \<subseteq> {(i, n). i \<in> set A \<and> n < PAGE_SIZE div bsize h i}" by (auto simp: used_def)
  then have "inj_on (block h) (used h A F)" using block_inj [OF rep] by (rule inj_on_subset [rotated])
  then have "block h ` (used h A F - {(i, n)}) = block h ` used h A F - block h ` {(i, n)}"
    using u by (intro inj_on_image_set_diff [where C = "used h A F"]) auto
  moreover have "block h' ` (used h A F - {(i, n)}) = block h ` (used h A F - {(i, n)})"
    using b by (intro image_cong) auto
  ultimately show ?thesis unfolding allocated_def used by simp
qed

text \<open>The heap after the block was put on the free list of its page.\<close>

definition freed :: "nat \<Rightarrow> nat \<Rightarrow> nat \<Rightarrow> (nat \<Rightarrow> nat) \<Rightarrow> kheap \<Rightarrow> kheap" where
  "freed i n c m h = h\<lparr>kh_mem := m,
     pagerefs := (pagerefs h)[i := (pagerefs h ! i)\<lparr>freelist_offset := n * bsize h i, nfree := c\<rparr>]\<rparr>"

lemma freed_frame:
  assumes rep: "heap_rep h A S F" and u: "(i, n) \<in> used h A F"
    and m: "\<And>a. a < page h i + n * bsize h i \<or> page h i + n * bsize h i + bsize h i \<le> a \<Longrightarrow> m a = kh_mem h a"
  shows "heap_shape (freed i n c m h)" "heap_lists (freed i n c m h) A S"
    "j \<in> set A \<Longrightarrow> j \<noteq> i \<Longrightarrow> page_ok (freed i n c m h) j (F j)"
    "page (freed i n c m h) j = page h j" "btype (freed i n c m h) j = btype h j"
proof -
  let ?r = "(pagerefs h ! i)\<lparr>freelist_offset := n * bsize h i, nfree := c\<rparr>"
  have i: "i \<in> set A" "n < PAGE_SIZE div bsize h i" using u by (auto simp: used_def)
  have mem: "kh_mem (freed i n c m h) (page h j + x * bsize h j) = kh_mem h (page h j + x * bsize h j)"
    if "j \<in> set A" "j \<noteq> i" "x \<in> set (F j)" for j x
  proof -
    note ok = page_okD [OF heap_repD(3) [OF rep that(1)]]
    have "page h i + n * bsize h i + bsize h i \<le> page h j + x * bsize h j \<or>
      page h j + x * bsize h j + bsize h j \<le> page h i + n * bsize h i"
      using blocks_apart [OF rep i that(1) ok(4) [OF that(3)]] that(2) by blast
    then have "m (page h j + x * bsize h j) = kh_mem h (page h j + x * bsize h j)"
      using size_facts(1) [OF ok(1)] by (intro m) linarith
    then show ?thesis by (simp add: freed_def)
  qed
  have flds: "pagerefs (freed i n c m h) = (pagerefs h)[i := ?r]" "next_samesize ?r = ss h i" "next_all ?r = na h i"
    "pageaddr_and_blocktype ?r = pageaddr_and_blocktype (pagerefs h ! i)"
    "pagerefs_inuse (freed i n c m h) = pagerefs_inuse h" "sizebases (freed i n c m h) = sizebases h"
    "allbase (freed i n c m h) = allbase h" "kh_ram (freed i n c m h) = kh_ram h"
    by (simp_all add: freed_def)
  show "heap_shape (freed i n c m h)" "heap_lists (freed i n c m h) A S"
    "j \<in> set A \<Longrightarrow> j \<noteq> i \<Longrightarrow> page_ok (freed i n c m h) j (F j)"
    "page (freed i n c m h) j = page h j" "btype (freed i n c m h) j = btype h j"
    by (rule heap_frame [OF rep i(1) flds mem]; assumption)+
qed

lemma freed_rep:
  assumes rep: "heap_rep h A S F" and u: "(i, n) \<in> used h A F"
    and m: "\<And>a. a < page h i + n * bsize h i \<or> page h i + n * bsize h i + bsize h i \<le> a \<Longrightarrow> m a = kh_mem h a"
      "m (page h i + n * bsize h i) = fl_ptr (page h i) (bsize h i) (F i)"
    and c: "c = Suc (length (F i))" "c < PAGE_SIZE div bsize h i"
  shows "heap_rep (freed i n c m h) A S (F(i := n # F i))"
    "allocated (freed i n c m h) A (F(i := n # F i)) = allocated h A F - {block h (i, n)}"
proof -
  let ?h = "freed i n c m h"
  have i: "i \<in> set A" "n < PAGE_SIZE div bsize h i" "n \<notin> set (F i)" using u by (auto simp: used_def)
  note ok = page_okD [OF heap_repD(3) [OF rep i(1)]]
  have fr: "heap_shape ?h" "heap_lists ?h A S" "j \<in> set A \<Longrightarrow> j \<noteq> i \<Longrightarrow> page_ok ?h j (F j)"
    "page ?h j = page h j" "btype ?h j = btype h j" for j
    by (rule freed_frame [OF rep u m(1)]; assumption)+
  have "m (page h i + x * bsize h i) = kh_mem h (page h i + x * bsize h i)" if "x \<in> set (F i)" for x
  proof -
    have "(i, n) \<noteq> (i, x)" using that i(3) by auto
    from blocks_apart [OF rep i(1,2,1) ok(4) [OF that] this] size_facts(1) [OF ok(1)]
    show ?thesis by (intro m(1)) linarith
  qed
  then have "freelist m (page h i) (bsize h i) (F i)" using ok(8) by (subst freelist_cong)
  moreover have "pagerefs ?h ! i = (pagerefs h ! i)\<lparr>freelist_offset := n * bsize h i, nfree := c\<rparr>"
    "kh_ram ?h = kh_ram h" "kh_mem ?h = m" using pr_less [OF rep i(1)] by (simp_all add: freed_def)
  ultimately have "page_ok ?h i (n # F i)"
    unfolding page_ok_def fr(4,5) using ok i m(2) c by (auto simp: subset_iff)
  then show "heap_rep ?h A S (F(i := n # F i))"
    unfolding heap_rep_def fr(4) using fr(1-3) heap_repD(4) [OF rep] by auto
  have "used ?h A (F(i := n # F i)) = used h A F - {(i, n)}"
    unfolding used_def fr(5) by (auto split: if_splits)
  then show "allocated ?h A (F(i := n # F i)) = allocated h A F - {block h (i, n)}"
    by (intro allocated_minus [OF rep u]) (simp_all add: block_def fr(4,5) split: prod.splits)
qed

lemma freed_unlink:
  assumes rep: "heap_rep h A S F" and u: "(i, n) \<in> used h A F"
    and m: "\<And>a. a < page h i + n * bsize h i \<or> page h i + n * bsize h i + bsize h i \<le> a \<Longrightarrow> m a = kh_mem h a"
    and c: "Suc (length (F i)) = PAGE_SIZE div bsize h i"
  obtains h1 h' S' where "remove_lists i (btype h i) (freed i n c m h) = Some h1" "freepageref i h1 = Some h'"
    "heap_rep h' (remove1 i A) S' F" "allocated h' (remove1 i A) F = allocated h A F - {block h (i, n)}"
    "\<forall>j. page h' j = page h j" "kh_mem h' = m" "kh_ram h' = kh_ram h"
proof -
  let ?h = "freed i n c m h"
  have i: "i \<in> set A" "n < PAGE_SIZE div bsize h i" "n \<notin> set (F i)" using u by (auto simp: used_def)
  note ok = page_okD [OF heap_repD(3) [OF rep i(1)]]
  have fr: "heap_shape ?h" "heap_lists ?h A S" "j \<in> set A \<Longrightarrow> j \<noteq> i \<Longrightarrow> page_ok ?h j (F j)"
    "page ?h j = page h j" "btype ?h j = btype h j" for j
    by (rule freed_frame [OF rep u m]; assumption)+
  obtain h1 h' where h': "remove_lists i (btype h i) ?h = Some h1" "freepageref i h1 = Some h'"
    "heap_lists h' (remove1 i A) (S(btype h i := remove1 i (S (btype h i))))" "same_pages ?h h'"
    by (rule unlink_ok [OF fr(1,2) i(1) fr(5) ok(1)])
  note sp = same_pagesD [OF h'(4)]
  have A': "set (remove1 i A) = set A - {i}" using heap_listsD(2) [OF heap_repD(2) [OF rep]] by simp
  have rep': "heap_rep h' (remove1 i A) (S(btype h i := remove1 i (S (btype h i)))) F"
    unfolding heap_rep_def A' sp(1,2,4) fr(4) using fr(1,3) h'(3) heap_repD(4) [OF rep] by auto
  have "card (insert n (set (F i))) = card {..<PAGE_SIZE div bsize h i}"
    using c i(3) distinct_card [OF ok(3)] by simp
  then have full: "insert n (set (F i)) = {..<PAGE_SIZE div bsize h i}"
    using i(2) ok(4) by (intro card_subset_eq) auto
  have us: "used h' (remove1 i A) F = used h A F - {(i, n)}"
    unfolding used_def sp(3) fr(5) A' using full by auto
  have "allocated h' (remove1 i A) F = allocated h A F - {block h (i, n)}"
    by (rule allocated_minus [OF rep u _ us]) (simp add: block_def sp(2,3) fr(4,5) split: prod.splits)
  then show thesis using sp(2,5,6) fr(4) by (intro that [OF h'(1,2) rep']) (simp_all add: freed_def)
qed

text \<open>\<open>subpage_kfree\<close> of a block in use.\<close>

lemma subpage_kfree_eq:
  assumes rep: "heap_rep h A S F" and u: "(i, n) \<in> used h A F"
  obtains m where "\<forall>a. a < page h i + n * bsize h i \<or> page h i + n * bsize h i + bsize h i \<le> a \<longrightarrow> m a = kh_mem h a"
    "m (page h i + n * bsize h i) = fl_ptr (page h i) (bsize h i) (F i)"
    "subpage_kfree (page h i + n * bsize h i) h =
       (let h1 = freed i n (Suc (length (F i))) m h in
        if Suc (length (F i)) = PAGE_SIZE div bsize h i then do {
          h1 \<leftarrow> remove_lists i (btype h i) h1;
          h1 \<leftarrow> freepageref i h1;
          Some (True, h1) }
        else Some (True, h1))"
proof -
  let ?p = "page h i" and ?s = "bsize h i"
  have i: "i \<in> set A" "n < PAGE_SIZE div ?s" "n \<notin> set (F i)" using u by (auto simp: used_def)
  note ok = page_okD [OF heap_repD(3) [OF rep i(1)]]
  note pin = page_inD [OF ok(2) heap_shapeD(4) [OF heap_repD(1) [OF rep]]] and sf = size_facts [OF ok(1)]
  have fit: "x < PAGE_SIZE div ?s \<Longrightarrow> x * ?s + ?s \<le> PAGE_SIZE" "x < PAGE_SIZE div ?s \<Longrightarrow> x * ?s < PAGE_SIZE" for x
    by (rule block_fits [OF ok(1)]; assumption)+
  define m where "m = (fill_deadbeef (?p + n * ?s) (?s div 4) (kh_mem h))(?p + n * ?s := fl_ptr ?p ?s (F i))"
  have s4: "?s div 4 * 4 = ?s" using sf(4) by simp
  have m: "m a = kh_mem h a" if "a < ?p + n * ?s \<or> ?p + n * ?s + ?s \<le> a" for a
    using that fit(1) [OF i(2)] pin(5) sf(1) fill_deadbeef_frame [of "?p + n * ?s" "?s div 4" a "kh_mem h"]
    unfolding m_def s4 by auto
  have w: "wrap32 (?p + x * ?s) = ?p + x * ?s" if "x < PAGE_SIZE div ?s" for x using fit(2) [OF that] pin(5) by simp
  have off: "sub32 (?p + n * ?s) ?p = n * ?s" using fit(2) [OF i(2)] pin(5) by (simp add: sub32_le)
  have next_ptr: "(if freelist_offset (pagerefs h ! i) = INVALID_OFFSET then 0 else wrap32 (?p + freelist_offset (pagerefs h ! i))) =
      fl_ptr ?p ?s (F i)"
  proof (cases "F i")
    case (Cons x xs)
    then have x: "x < PAGE_SIZE div ?s" using ok(4) by simp
    have "x * ?s \<noteq> INVALID_OFFSET" using fit(2) [OF x] by (simp add: INVALID_OFFSET_def PAGE_SIZE_def)
    then show ?thesis using ok(7) Cons w [OF x] by simp
  qed (use ok(7) in simp)
  have small: "n * ?s < 65536" "Suc (length (F i)) < 65536" "Suc (length (F i)) \<le> PAGE_SIZE div ?s"
    using fit(2) [OF i(2)] ok(5) sf(6) by (auto simp: PAGE_SIZE_def)
  have "subpage_kfree (?p + n * ?s) h =
       (let h1 = freed i n (Suc (length (F i))) m h in
        if Suc (length (F i)) = PAGE_SIZE div ?s then do {
          h1 \<leftarrow> remove_lists i (btype h i) h1;
          h1 \<leftarrow> freepageref i h1;
          Some (True, h1) }
        else Some (True, h1))"
    unfolding subpage_kfree_def find_owner_in [OF rep i(1,2)] Let_def
    using pr_less [OF rep i(1)] sf(7) off fit(2) [OF i(2)] next_ptr w [OF i(2)] ok(6) small
    by (simp add: pr_update_def freed_def m_def free_kpages_def)
  then show thesis using m by (intro that [of m]) (simp_all add: m_def)
qed

lemma subpage_kfree_ok:
  assumes rep: "heap_rep h A S F" and a: "(p, sz) \<in> allocated h A F"
  obtains h' A' S' F' where "subpage_kfree p h = Some (True, h')" "heap_rep h' A' S' F'"
    "allocated h' A' F' = allocated h A F - {(p, sz)}" "A' = A \<or> (\<exists>i. A' = remove1 i A)" "\<forall>j. page h' j = page h j"
    "kh_ram h' = kh_ram h" "\<forall>a. a < p \<or> p + sz \<le> a \<longrightarrow> kh_mem h' a = kh_mem h a"
proof -
  obtain i n where u: "(i, n) \<in> used h A F" and b: "block h (i, n) = (p, sz)" using a by (auto simp: allocated_def)
  have e: "p = page h i + n * bsize h i" "sz = bsize h i" using b unfolding block_def by auto
  obtain m where m: "\<forall>a. a < page h i + n * bsize h i \<or> page h i + n * bsize h i + bsize h i \<le> a \<longrightarrow> m a = kh_mem h a"
    "m (page h i + n * bsize h i) = fl_ptr (page h i) (bsize h i) (F i)"
    "subpage_kfree (page h i + n * bsize h i) h =
       (let h1 = freed i n (Suc (length (F i))) m h in
        if Suc (length (F i)) = PAGE_SIZE div bsize h i then do {
          h1 \<leftarrow> remove_lists i (btype h i) h1;
          h1 \<leftarrow> freepageref i h1;
          Some (True, h1) }
        else Some (True, h1))"
    by (rule subpage_kfree_eq [OF rep u])
  note m1 = m(1) [rule_format]
  have i: "i \<in> set A" using u by (auto simp: used_def)
  show thesis
  proof (cases "Suc (length (F i)) = PAGE_SIZE div bsize h i")
    case False
    let ?h = "freed i n (Suc (length (F i))) m h"
    have lt: "Suc (length (F i)) < PAGE_SIZE div bsize h i" using False page_okD(5) [OF heap_repD(3) [OF rep i]] by simp
    have fr: "heap_rep ?h A S (F(i := n # F i))" "allocated ?h A (F(i := n # F i)) = allocated h A F - {(p, sz)}"
      using freed_rep [OF rep u m1 m(2) refl lt] b by simp_all
    have "\<forall>j. page ?h j = page h j" using freed_frame(4) [OF rep u m1] by blast
    moreover have "subpage_kfree p h = Some (True, ?h)" using m(3) False e by simp
    ultimately show thesis using m(1) e by (intro that [OF _ fr]) (simp_all add: freed_def)
  next
    case True
    obtain h1 h' S' where h': "remove_lists i (btype h i) (freed i n (Suc (length (F i))) m h) = Some h1" "freepageref i h1 = Some h'"
      "heap_rep h' (remove1 i A) S' F" "allocated h' (remove1 i A) F = allocated h A F - {block h (i, n)}"
      "\<forall>j. page h' j = page h j" "kh_mem h' = m" "kh_ram h' = kh_ram h"
      by (rule freed_unlink [OF rep u m1 True])
    have "subpage_kfree p h = Some (True, h')" using m(3) h'(1,2) True e by simp
    then show thesis using m(1) e b h'(4-7) by (intro that [OF _ h'(3)]) auto
  qed
qed

subsection \<open>The consistency checks pass\<close>

lemma check_freelist_ok:
  assumes "freelist m pa sz fs" "\<And>n. n \<in> set fs \<Longrightarrow> n * sz < PAGE_SIZE" "0 < pa" "MIPS_KSEG0 < pa" "pa + PAGE_SIZE \<le> MIPS_KSEG1"
  shows "check_freelist (fl_ptr pa sz fs) pa sz c m = Some (c + length fs)"
  using assms(1,2)
proof (induction fs arbitrary: c)
  case Nil then show ?case by (subst check_freelist.simps) simp
next
  case (Cons n fs)
  have w: "wrap32 (pa + PAGE_SIZE) = pa + PAGE_SIZE" using assms(5) by (simp add: MIPS_KSEG1_def)
  have n: "n * sz < PAGE_SIZE" by (rule Cons.prems(2)) simp
  then have k: "pa + n * sz < MIPS_KSEG1" "MIPS_KSEG0 \<le> pa + n * sz" using assms(4,5) by linarith+
  have IH: "check_freelist (fl_ptr pa sz fs) pa sz (Suc c) m = Some (Suc c + length fs)" using Cons by simp
  show ?case using Cons.prems(1) assms(3) n k IH by (subst check_freelist.simps) (simp add: w)
qed

lemma checksubpage_ok:
  assumes rep: "heap_rep h A S F" and i: "i \<in> set A"
  shows "checksubpage i h = Some ()"
proof (cases "F i")
  case Nil
  then show ?thesis using pr_less [OF rep i] page_okD(6,7) [OF heap_repD(3) [OF rep i]] by (simp add: checksubpage_def)
next
  case (Cons n fs)
  note ok = page_okD [OF heap_repD(3) [OF rep i]]
  note pin = page_inD [OF ok(2) heap_shapeD(4) [OF heap_repD(1) [OF rep]]]
  have fit: "x \<in> set (F i) \<Longrightarrow> x * bsize h i < PAGE_SIZE" for x using block_fits(2) [OF ok(1) ok(4)] .
  have n: "n * bsize h i < PAGE_SIZE" using fit Cons by simp
  have c: "check_freelist (page h i + n * bsize h i) (page h i) (bsize h i) 0 (kh_mem h) = Some (length (F i))"
    using check_freelist_ok [OF ok(8) fit pin(2-4), of 0] Cons by simp
  have w: "wrap32 (page h i + n * bsize h i) = page h i + n * bsize h i" using n pin(5) by simp
  have "n * bsize h i \<noteq> INVALID_OFFSET" using n by (simp add: INVALID_OFFSET_def PAGE_SIZE_def)
  then show ?thesis
    using pr_less [OF rep i] ok(6,7) Cons n c w size_facts(7) [OF ok(1)] by (simp add: checksubpage_def Let_def)
qed

lemma check_samesize_ok:
  assumes "chained (ss h) p xs" "\<And>i. i \<in> set xs \<Longrightarrow> i < length (pagerefs h) \<and> checksubpage i h = Some ()"
    "c + length xs \<le> NPAGEREFS"
  shows "check_samesize p c h = Some (c + length xs)"
  using assms
proof (induction xs arbitrary: p c)
  case Nil then show ?case by (subst check_samesize.simps) simp
next
  case (Cons x xs)
  have "check_samesize (ss h x) (Suc c) h = Some (Suc c + length xs)" using Cons by simp
  then show ?case using Cons.prems by (subst check_samesize.simps) simp
qed

lemma check_all_ok:
  assumes "chained (na h) p xs" "\<And>i. i \<in> set xs \<Longrightarrow> i < length (pagerefs h) \<and> checksubpage i h = Some ()"
    "c + length xs \<le> NPAGEREFS"
  shows "check_all p c h = Some (c + length xs)"
  using assms
proof (induction xs arbitrary: p c)
  case Nil then show ?case by (subst check_all.simps) simp
next
  case (Cons x xs)
  have "check_all (na h x) (Suc c) h = Some (Suc c + length xs)" using Cons by simp
  then show ?case using Cons.prems by (subst check_all.simps) simp
qed

lemma check_sizes_ok:
  assumes "list_all2 (\<lambda>p xs. chained (ss h) p xs) bs xss"
    "\<And>xs i. xs \<in> set xss \<Longrightarrow> i \<in> set xs \<Longrightarrow> i < length (pagerefs h) \<and> checksubpage i h = Some ()"
    "c + sum_list (map length xss) \<le> NPAGEREFS"
  shows "check_sizes bs c h = Some (c + sum_list (map length xss))"
  using assms
proof (induction bs xss arbitrary: c rule: list_all2_induct)
  case (Cons p bs xs xss)
  have "check_samesize p c h = Some (c + length xs)" by (rule check_samesize_ok) (use Cons in auto)
  moreover have "check_sizes bs (c + length xs) h = Some (c + length xs + sum_list (map length xss))"
    by (rule Cons.IH) (use Cons.prems in auto)
  ultimately show ?case by (simp add: add.assoc)
qed simp

lemma length_by_type:
  assumes "distinct A" "\<And>k. k < n \<Longrightarrow> distinct (S k) \<and> set (S k) = {i \<in> set A. f i = k}" "\<And>i. i \<in> set A \<Longrightarrow> f i < n"
  shows "sum_list (map length (map S [0..<n])) = length A"
proof -
  have "sum_list (map length (map S [0..<n])) = (\<Sum>k < n. length (S k))"
    by (simp add: sum_list_sum_nth lessThan_atLeast0)
  also have "\<dots> = (\<Sum>k < n. card {i \<in> set A. f i = k})"
    using assms(2) by (intro sum.cong) (auto simp: distinct_card [symmetric])
  also have "\<dots> = card (\<Union>k \<in> {..<n}. {i \<in> set A. f i = k})" by (subst card_UN_disjoint) auto
  also have "(\<Union>k \<in> {..<n}. {i \<in> set A. f i = k}) = set A" using assms(3) by auto
  finally show ?thesis using distinct_card [OF assms(1)] by simp
qed

lemma checksubpages_ok:
  assumes rep: "heap_rep h A S F"
  shows "checksubpages h = Some ()"
proof -
  note hl = heap_listsD [OF heap_repD(2) [OF rep]]
  have el: "i < length (pagerefs h) \<and> checksubpage i h = Some ()" if "i \<in> set A" for i
    using pr_less [OF rep that] checksubpage_ok [OF rep that] by simp
  have "length A = card (set A)" using distinct_card [OF hl(2)] by simp
  also have "\<dots> \<le> card {..<NPAGEREFS}" using hl(3) by (intro card_mono) auto
  finally have lA: "length A \<le> NPAGEREFS" by simp
  have tot: "sum_list (map length (map S [0..<NSIZES])) = length A"
    by (rule length_by_type [where f = "btype h", OF hl(2)]) (use hl(5,6) page_okD(1) [OF heap_repD(3) [OF rep]] in auto)
  have l2: "list_all2 (\<lambda>p xs. chained (ss h) p xs) (sizebases h) (map S [0..<NSIZES])"
    using hl(4) heap_shapeD(3) [OF heap_repD(1) [OF rep]] by (simp add: list_all2_conv_all_nth)
  have "check_sizes (sizebases h) 0 h = Some (0 + sum_list (map length (map S [0..<NSIZES])))"
    by (rule check_sizes_ok [OF l2]) (use hl(6) el tot lA in auto)
  moreover have "check_all (allbase h) 0 h = Some (0 + length A)"
    by (rule check_all_ok [OF hl(1)]) (use el lA in auto)
  ultimately show ?thesis unfolding tot by (simp add: checksubpages_def)
qed

subsection \<open>The statistics show the free blocks\<close>

lemma dump_freemap_ok:
  assumes "freelist m pa sz fs" "\<And>n. n \<in> set fs \<Longrightarrow> n < N \<and> n * sz < PAGE_SIZE" "0 < pa" "pa + PAGE_SIZE < 2 ^ 32" "0 < sz"
    "N \<le> 256" "length bs = INUSE_WORDS"
  shows "\<exists>bs'. dump_freemap (fl_ptr pa sz fs) pa sz N bs m = Some bs' \<and> length bs' = INUSE_WORDS \<and>
    (\<forall>x < NPAGEREFS. bit (bs' ! (x div 32)) (x mod 32) \<longleftrightarrow> x \<in> set fs \<or> bit (bs ! (x div 32)) (x mod 32))"
  using assms(1,2,7)
proof (induction fs arbitrary: bs)
  case Nil then show ?case by (subst dump_freemap.simps) simp
next
  case (Cons n fs)
  have n: "n < N" "n * sz < PAGE_SIZE" using Cons.prems(2) by auto
  have i: "sub32 (pa + n * sz) pa div sz = n" using n(2) assms(4,5) by (simp add: sub32_le)
  have nN: "n < NPAGEREFS" "n div 32 < length bs" using n(1) assms(6) Cons.prems(3) by (auto simp: NPAGEREFS_def INUSE_WORDS_def)
  let ?bs = "bs[n div 32 := bs ! (n div 32) OR push_bit (n mod 32) 1]"
  obtain bs' where bs': "dump_freemap (fl_ptr pa sz fs) pa sz N ?bs m = Some bs'" "length bs' = INUSE_WORDS"
    "\<forall>x < NPAGEREFS. bit (bs' ! (x div 32)) (x mod 32) \<longleftrightarrow> x \<in> set fs \<or> bit (?bs ! (x div 32)) (x mod 32)"
    using Cons.IH [of ?bs] Cons.prems by auto
  have "dump_freemap (fl_ptr pa sz (n # fs)) pa sz N bs m = Some bs'"
    using Cons.prems(1) assms(3) n(1) nN(2) bs'(1) by (subst dump_freemap.simps) (simp add: i)
  then show ?case using bs'(2,3) inuse_update(1) [OF Cons.prems(3) _ nN(1)] by auto
qed

lemma dump_chars_ok:
  assumes "\<And>x. x < i + c \<Longrightarrow> bit (bs ! (x div 32)) (x mod 32) \<longleftrightarrow> x \<in> X" "i + c \<le> 256" "length bs = INUSE_WORDS"
  shows "dump_chars c i n bs =
    Some (concat (map (\<lambda>x. (if x \<in> X then CHR ''.'' else CHR ''*'') # dump_sep n x) [i..<i + c]) @ [CHR 0x0A])"
  using assms(1,2)
proof (induction c arbitrary: i)
  case (Suc c)
  have d: "i div 32 < length bs" using Suc.prems(2) assms(3) by (simp add: INUSE_WORDS_def)
  have b: "bs ! (i div 32) AND 2 ^ (i mod 32) = 0 \<longleftrightarrow> i \<notin> X" using Suc.prems(1) [of i] by (simp add: word_and_bit)
  have "dump_chars c (Suc i) n bs =
    Some (concat (map (\<lambda>x. (if x \<in> X then CHR ''.'' else CHR ''*'') # dump_sep n x) [Suc i..<Suc i + c]) @ [CHR 0x0A])"
    using Suc by simp
  moreover have "[i..<i + Suc c] = i # [Suc i..<Suc i + c]" by (simp add: upt_conv_Cons)
  ultimately show ?case using d b by simp
qed simp

definition page_stats :: "kheap \<Rightarrow> nat list \<Rightarrow> nat \<Rightarrow> (nat \<times> nat \<times> nat \<times> nat) \<times> string" where
  "page_stats h fs i = (let n = PAGE_SIZE div bsize h i in
     ((page h i, bsize h i, length fs, n),
      ''   '' @ concat (map (\<lambda>x. (if x \<in> set fs then CHR ''.'' else CHR ''*'') # dump_sep n x) [0..<n]) @ [CHR 0x0A]))"

lemma dumpsubpage_ok:
  assumes rep: "heap_rep h A S F" and i: "i \<in> set A"
  shows "dumpsubpage i h = Some (page_stats h (F i) i)"
proof -
  note ok = page_okD [OF heap_repD(3) [OF rep i]]
  note pin = page_inD [OF ok(2) heap_shapeD(4) [OF heap_repD(1) [OF rep]]] and sf = size_facts [OF ok(1)]
  define n where "n = PAGE_SIZE div bsize h i"
  have n: "n \<le> 256" using sf(6) by (simp add: n_def)
  have lt: "x \<in> set (F i) \<Longrightarrow> x < n \<and> x * bsize h i < PAGE_SIZE" for x
    using ok(4) block_fits(2) [OF ok(1) ok(4)] by (simp add: n_def)
  have l: "length (replicate 8 (0 :: u32)) = INUSE_WORDS" by (simp add: INUSE_WORDS_def)
  obtain bs where bs: "dump_freemap (fl_ptr (page h i) (bsize h i) (F i)) (page h i) (bsize h i) n (replicate 8 0) (kh_mem h) = Some bs"
    "length bs = INUSE_WORDS"
    "\<forall>x < NPAGEREFS. bit (bs ! (x div 32)) (x mod 32) \<longleftrightarrow> x \<in> set (F i) \<or> bit (replicate 8 (0 :: u32) ! (x div 32)) (x mod 32)"
    using dump_freemap_ok [OF ok(8) lt pin(2,5) _ n l] sf(1) by auto
  have fm: "(if freelist_offset (pagerefs h ! i) \<noteq> INVALID_OFFSET
        then dump_freemap (wrap32 (page h i + freelist_offset (pagerefs h ! i))) (page h i) (bsize h i) n (replicate 8 0) (kh_mem h)
        else Some (replicate 8 0)) = Some bs"
  proof (cases "F i")
    case Nil
    then show ?thesis using ok(7) bs(1) dump_freemap.simps [of 0] by simp
  next
    case (Cons x xs)
    then have "x * bsize h i < PAGE_SIZE" using lt by simp
    moreover from this have "x * bsize h i \<noteq> INVALID_OFFSET" by (simp add: INVALID_OFFSET_def PAGE_SIZE_def)
    ultimately show ?thesis using ok(7) bs(1) Cons pin(5) by simp
  qed
  have "dump_chars n 0 n bs =
    Some (concat (map (\<lambda>x. (if x \<in> set (F i) then CHR ''.'' else CHR ''*'') # dump_sep n x) [0..<0 + n]) @ [CHR 0x0A])"
    by (rule dump_chars_ok) (use bs(2,3) n in \<open>auto simp: NPAGEREFS_def nth_replicate\<close>)
  then show ?thesis
    using pr_less [OF rep i] sf(7) n fm ok(6)
    by (cases "freelist_offset (pagerefs h ! i) = INVALID_OFFSET")
      (simp_all add: dumpsubpage_def page_stats_def n_def [symmetric] Let_def)
qed

lemma printstats_from_ok:
  assumes "chained (na h) p xs" "\<And>i. i \<in> set xs \<Longrightarrow> i < length (pagerefs h) \<and> dumpsubpage i h = Some (d i)"
  shows "printstats_from p h = Some (map d xs)"
  using assms
proof (induction xs arbitrary: p)
  case Nil then show ?case by (subst printstats_from.simps) simp
next
  case (Cons x xs)
  have "printstats_from (na h x) h = Some (map d xs)" using Cons by simp
  then show ?case using Cons.prems by (subst printstats_from.simps) simp
qed

lemma kheap_printstats_ok:
  assumes rep: "heap_rep h A S F"
  shows "kheap_printstats h = Some (map (\<lambda>i. page_stats h (F i) i) A)"
  unfolding kheap_printstats_def
  by (rule printstats_from_ok [OF heap_listsD(1) [OF heap_repD(2) [OF rep]]])
    (use pr_less [OF rep] dumpsubpage_ok [OF rep] in blast)

end
