(* ===== verification/Kern_Heap.thy ===== *)
theory Kern_Heap
  imports Kern_Kmalloc "HOL-Library.Multiset"
begin

section \<open>The clients of the kernel heap\<close>

text \<open>
  Calls of \<open>kmalloc\<close> and \<open>kfree\<close> in any order, and writes of their callers to the blocks they
  hold. \<open>kmalloc_spinlock\<close> makes each piece of code between its acquire and release one step; a
  \<open>subpage_kmalloc\<close> that needs a page has let go of the lock and is pending until it takes it
  again. The system also records what the callers wrote.
\<close>

subsection \<open>The system\<close>

record ksys =
  ks_heap :: kheap
  ks_live :: "(nat \<times> nat) list"
  ks_pending :: "(nat \<times> nat \<times> nat) list"
  ks_words :: "nat \<Rightarrow> nat option"

datatype kop = KMalloc nat | KFinish nat | KFree nat | KWrite nat nat nat

definition remove_at :: "nat \<Rightarrow> 'a list \<Rightarrow> 'a list" where
  "remove_at i xs = take i xs @ drop (Suc i) xs"

definition ks_return :: "nat option \<Rightarrow> nat \<Rightarrow> ksys \<Rightarrow> ksys" where
  "ks_return p sz s = (case p of None \<Rightarrow> s | Some a \<Rightarrow> s\<lparr>ks_live := (a, sz) # ks_live s\<rparr>)"

definition ks_malloc :: "nat \<Rightarrow> ksys \<Rightarrow> ksys option" where
  "ks_malloc sz s =
     (if sz \<ge> LARGEST_SUBPAGE_SIZE then do {
        (p, h) \<leftarrow> kmalloc sz (ks_heap s);
        Some (ks_return p sz (s\<lparr>ks_heap := h\<rparr>)) }
      else do {
        k \<leftarrow> blocktype sz;
        (p, h) \<leftarrow> subpage_take k (ks_heap s);
        case p of
          Some a \<Rightarrow> Some (ks_return p sz (s\<lparr>ks_heap := h\<rparr>))
        | None \<Rightarrow> do {
            (prpage, r) \<leftarrow> alloc_kpages 1 (kh_ram h);
            let s = s\<lparr>ks_heap := h\<lparr>kh_ram := r\<rparr>\<rparr>;
            Some (if prpage = 0 then s else s\<lparr>ks_pending := (k, prpage, sz) # ks_pending s\<rparr>) } })"

definition ks_finish :: "nat \<Rightarrow> ksys \<Rightarrow> ksys option" where
  "ks_finish i s =
     (case ks_pending s ! i of (k, prpage, sz) \<Rightarrow> do {
        (p, h) \<leftarrow> subpage_grow k prpage (ks_heap s);
        Some (ks_return p sz (s\<lparr>ks_heap := h, ks_pending := remove_at i (ks_pending s)\<rparr>)) })"

definition ks_free :: "nat \<Rightarrow> ksys \<Rightarrow> ksys option" where
  "ks_free i s =
     (case ks_live s ! i of (a, sz) \<Rightarrow> do {
        h \<leftarrow> kfree a (ks_heap s);
        Some (s\<lparr>ks_heap := h, ks_live := remove_at i (ks_live s),
                ks_words := (\<lambda>x. if a \<le> x \<and> x < a + sz then None else ks_words s x)\<rparr>) })"

definition ks_write :: "nat \<Rightarrow> nat \<Rightarrow> nat \<Rightarrow> ksys \<Rightarrow> ksys" where
  "ks_write i off v s =
     (case ks_live s ! i of (a, sz) \<Rightarrow>
        if 4 dvd off \<and> off + 4 \<le> sz
        then s\<lparr>ks_heap := (ks_heap s)\<lparr>kh_mem := (kh_mem (ks_heap s))(a + off := v)\<rparr>, ks_words := (ks_words s)(a + off \<mapsto> v)\<rparr>
        else s)"

text \<open>Operations on blocks that are not there do nothing; requests are at most 1 GB.\<close>

fun kstep :: "kop \<Rightarrow> ksys \<Rightarrow> ksys option" where
  "kstep (KMalloc sz) s = (if sz \<le> 2 ^ 30 then ks_malloc sz s else Some s)"
| "kstep (KFinish i) s = (if i < length (ks_pending s) then ks_finish i s else Some s)"
| "kstep (KFree i) s = (if i < length (ks_live s) then ks_free i s else Some s)"
| "kstep (KWrite i off v) s = Some (if i < length (ks_live s) then ks_write i off v s else s)"

fun kruns :: "kop list \<Rightarrow> ksys \<Rightarrow> ksys option" where
  "kruns [] s = Some s"
| "kruns (p # ps) s = do { s \<leftarrow> kstep p s; kruns ps s }"

text \<open>The static variables are zero at boot; the memory has any contents.\<close>

definition kheap_boot :: "ram \<Rightarrow> (nat \<Rightarrow> nat) \<Rightarrow> kheap" where
  "kheap_boot r m = \<lparr>pagerefs = replicate NPAGEREFS \<lparr>next_samesize = None, next_all = None,
       pageaddr_and_blocktype = 0, freelist_offset = 0, nfree = 0\<rparr>,
     pagerefs_inuse = replicate INUSE_WORDS 0, sizebases = replicate NSIZES None, allbase = None, kh_mem = m, kh_ram = r\<rparr>"

definition ksys_boot :: "ram \<Rightarrow> (nat \<Rightarrow> nat) \<Rightarrow> ksys" where
  "ksys_boot r m = \<lparr>ks_heap = kheap_boot r m, ks_live = [], ks_pending = [], ks_words = Map.empty\<rparr>"

text \<open>A pending call goes through without other calls in between exactly as \<open>kmalloc\<close> does.\<close>

lemma kmalloc_is_malloc_finish:
  assumes "kmalloc sz (ks_heap s) = Some (p, h)" "ks_malloc sz s = Some s'"
  shows "s' = ks_return p sz (s\<lparr>ks_heap := h\<rparr>) \<or>
    (\<exists>s''. length (ks_pending s') = Suc (length (ks_pending s)) \<and> ks_finish 0 s' = Some s'' \<and> s'' = ks_return p sz (s\<lparr>ks_heap := h\<rparr>))"
proof (cases "sz \<ge> LARGEST_SUBPAGE_SIZE")
  case True
  then show ?thesis using assms by (auto simp: ks_malloc_def)
next
  case False
  then obtain k where k: "blocktype sz = Some k" using blocktype_eq [of sz] by auto
  show ?thesis
  proof (cases "subpage_take k (ks_heap s)")
    case None
    then show ?thesis using assms False k by (simp add: kmalloc_def subpage_kmalloc_def)
  next
    case (Some a)
    obtain q h1 where q: "a = (q, h1)" by (cases a) auto
    show ?thesis
    proof (cases q)
      case None
      then show ?thesis using assms False k Some q
        by (cases s) (auto simp: kmalloc_def subpage_kmalloc_def ks_malloc_def ks_finish_def ks_return_def remove_at_def Let_def
            split: option.splits bind_splits if_splits)
    next
      case (Some b)
      then show ?thesis using assms False k \<open>subpage_take k (ks_heap s) = Some a\<close> q
        by (auto simp: kmalloc_def subpage_kmalloc_def ks_malloc_def)
    qed
  qed
qed

subsection \<open>Regions of memory\<close>

definition apart :: "nat \<times> nat \<Rightarrow> nat \<times> nat \<Rightarrow> bool" where
  "apart x y \<longleftrightarrow> fst x + snd x \<le> fst y \<or> fst y + snd y \<le> fst x"

definition region_in :: "ram \<Rightarrow> nat \<times> nat \<Rightarrow> bool" where
  "region_in r x \<longleftrightarrow> PAGE_SIZE dvd fst x \<and> MIPS_KSEG0 < fst x \<and> PAGE_SIZE \<le> snd x \<and> fst x + snd x \<le> MIPS_KSEG0 + firstpaddr r"

definition regions_ok :: "ram \<Rightarrow> (nat \<times> nat) list \<Rightarrow> bool" where
  "regions_ok r R \<longleftrightarrow> distinct R \<and> pairwise apart (set R) \<and> (\<forall>x \<in> set R. region_in r x)"

lemma apart_sym: "apart x y \<Longrightarrow> apart y x"
  by (auto simp: apart_def)

lemma regions_sub:
  assumes "regions_ok r R" "mset R' \<subseteq># mset R"
  shows "regions_ok r R'"
proof -
  have "set R' \<subseteq> set R" using set_mset_mono [OF assms(2)] by simp
  moreover have "distinct R'"
  proof -
    have "count (mset R') x \<le> count (mset R) x" for x by (rule mset_subset_eq_count [OF assms(2)])
    then have "count (mset R') x \<le> 1" for x
      using assms(1) by (metis distinct_count_atmost_1 le_zero_eq order_trans regions_ok_def zero_le_one order_refl)
    then show ?thesis
      by (metis distinct_count_atmost_1 count_mset_0_iff le_neq_implies_less less_one)
  qed
  ultimately show ?thesis using assms(1) by (auto simp: regions_ok_def intro: pairwise_subset)
qed

lemma regions_new:
  assumes "regions_ok r R" "ram_ok r" "firstpaddr r' = firstpaddr r + n * PAGE_SIZE" "0 < n"
  shows "regions_ok r' ((MIPS_KSEG0 + firstpaddr r, n * PAGE_SIZE) # R)"
proof -
  define x where "x = (MIPS_KSEG0 + firstpaddr r, n * PAGE_SIZE)"
  have old: "distinct R" "pairwise apart (set R)" "y \<in> set R \<Longrightarrow> region_in r y" for y
    using assms(1) unfolding regions_ok_def by blast+
  have d: "apart y x \<and> apart x y \<and> region_in r' y" if "y \<in> set R" for y
    using old(3) [OF that] assms(3) by (simp add: apart_def region_in_def x_def)
  have "PAGE_SIZE dvd MIPS_KSEG0 + firstpaddr r" "0 < firstpaddr r"
    using ram_okD [OF assms(2)] by (auto simp: MIPS_KSEG0_def PAGE_SIZE_def)
  then have rx: "region_in r' x" using assms(3,4) by (auto simp: region_in_def PAGE_SIZE_def x_def)
  have "\<not> region_in r x" using assms(4) by (simp add: region_in_def PAGE_SIZE_def x_def)
  then have nx: "x \<notin> set R" using old(3) by blast
  show ?thesis
    unfolding x_def [symmetric] regions_ok_def list.set pairwise_insert using old(1,2) nx d rx by simp
qed

lemma regions_disj:
  assumes "regions_ok r (R1 @ R2)" "x \<in> set R1" "y \<in> set R2"
  shows "apart x y"
proof -
  have "x \<noteq> y" using assms by (auto simp: regions_ok_def)
  then show ?thesis using assms unfolding regions_ok_def by (auto dest: pairwiseD)
qed

subsection \<open>The invariant of the system\<close>

text \<open>
  \<open>B\<close> are the regions \<open>kmalloc\<close> took for large requests, \<open>Cs\<close> the live blocks with the size they
  really have.
\<close>

definition regions :: "ksys \<Rightarrow> nat list \<Rightarrow> (nat \<times> nat) list \<Rightarrow> (nat \<times> nat) list" where
  "regions s A B = map (\<lambda>i. (page (ks_heap s) i, PAGE_SIZE)) A @ map (\<lambda>(k, p, sz). (p, PAGE_SIZE)) (ks_pending s) @ B"

definition words_ok :: "ksys \<Rightarrow> bool" where
  "words_ok s \<longleftrightarrow> (\<forall>x v. ks_words s x = Some v \<longrightarrow>
     kh_mem (ks_heap s) x = v \<and> (\<exists>y \<in> set (ks_live s). fst y \<le> x \<and> x + 4 \<le> fst y + snd y))"

definition holds :: "nat \<times> nat \<Rightarrow> nat \<times> nat \<Rightarrow> bool" where
  "holds x c \<longleftrightarrow> fst x = fst c \<and> snd x \<le> snd c"

definition kinv :: "ksys \<Rightarrow> nat list \<Rightarrow> (nat \<Rightarrow> nat list) \<Rightarrow> (nat \<Rightarrow> nat list) \<Rightarrow> (nat \<times> nat) list \<Rightarrow> (nat \<times> nat) list \<Rightarrow> bool" where
  "kinv s A S F B Cs \<longleftrightarrow> heap_rep (ks_heap s) A S F \<and> regions_ok (kh_ram (ks_heap s)) (regions s A B) \<and>
     distinct Cs \<and> set Cs = allocated (ks_heap s) A F \<union> set B \<and> list_all2 holds (ks_live s) Cs \<and>
     (\<forall>x \<in> set (ks_pending s). fst x < NSIZES \<and> snd (snd x) \<le> sizes ! fst x) \<and> words_ok s"

lemma kinvD:
  assumes "kinv s A S F B Cs"
  shows "heap_rep (ks_heap s) A S F" "regions_ok (kh_ram (ks_heap s)) (regions s A B)" "distinct Cs"
    "set Cs = allocated (ks_heap s) A F \<union> set B" "list_all2 holds (ks_live s) Cs"
    "x \<in> set (ks_pending s) \<Longrightarrow> fst x < NSIZES \<and> snd (snd x) \<le> sizes ! fst x" "words_ok s"
  using assms unfolding kinv_def by blast+

lemma list_all2_in:
  assumes "list_all2 P xs ys" "x \<in> set xs"
  obtains y where "y \<in> set ys" "P x y"
  using assms by (induction rule: list_all2_induct) auto

lemma allocated_in_page:
  assumes rep: "heap_rep h A S F" and x: "x \<in> allocated h A F"
  obtains i where "i \<in> set A" "page h i \<le> fst x" "fst x + snd x \<le> page h i + PAGE_SIZE" "16 \<le> snd x" "4 dvd fst x"
proof -
  obtain i n where u: "(i, n) \<in> used h A F" and b: "x = block h (i, n)" using x by (auto simp: allocated_def)
  have i: "i \<in> set A" "n < PAGE_SIZE div bsize h i" using u by (auto simp: used_def)
  note ok = page_okD [OF heap_repD(3) [OF rep i(1)]]
  note sf = size_facts [OF ok(1)]
  have "4 dvd page h i" using page_inD(1) [OF ok(2) heap_shapeD(4) [OF heap_repD(1) [OF rep]]] by (auto simp: PAGE_SIZE_def)
  then have "4 dvd fst x" using sf(4) b by (simp add: block_def)
  then show thesis using that [OF i(1)] sf(1) block_fits(1) [OF ok(1) i(2)] b by (simp add: block_def)
qed

lemma allocated_apart:
  assumes rep: "heap_rep h A S F" and x: "x \<in> allocated h A F" and y: "y \<in> allocated h A F" and ne: "x \<noteq> y"
  shows "apart x y"
proof -
  obtain i n where u: "(i, n) \<in> used h A F" and b: "x = block h (i, n)" using x by (auto simp: allocated_def)
  obtain j l where u': "(j, l) \<in> used h A F" and b': "y = block h (j, l)" using y by (auto simp: allocated_def)
  have "(i, n) \<noteq> (j, l)" using b b' ne by auto
  then show ?thesis using blocks_apart [OF rep] u u' unfolding b b' by (auto simp: used_def block_def apart_def)
qed

lemma page_big_apart:
  assumes inv: "kinv s A S F B Cs" and i: "i \<in> set A" and y: "y \<in> set B"
  shows "apart (page (ks_heap s) i, PAGE_SIZE) y"
  using regions_disj [OF kinvD(2) [OF inv, unfolded regions_def], of "(page (ks_heap s) i, PAGE_SIZE)" y] i y by auto

lemma pending_apart:
  assumes inv: "kinv s A S F B Cs" and p: "(k, p, sz) \<in> set (ks_pending s)" and c: "c \<in> set Cs"
  shows "apart (p, PAGE_SIZE) c"
proof -
  let ?P = "map (\<lambda>(k, p, sz). (p, PAGE_SIZE)) (ks_pending s)" and ?A = "map (\<lambda>i. (page (ks_heap s) i, PAGE_SIZE)) A"
  have pp: "(p, PAGE_SIZE) \<in> set ?P" using p by force
  have ro: "regions_ok (kh_ram (ks_heap s)) (?A @ ?P @ B)" "regions_ok (kh_ram (ks_heap s)) ((?A @ ?P) @ B)"
    using kinvD(2) [OF inv] by (simp_all add: regions_def)
  consider "c \<in> allocated (ks_heap s) A F" | "c \<in> set B" using c kinvD(4) [OF inv] by auto
  then show ?thesis
  proof cases
    case 1
    obtain i where i: "i \<in> set A" "page (ks_heap s) i \<le> fst c" "fst c + snd c \<le> page (ks_heap s) i + PAGE_SIZE"
      by (rule allocated_in_page [OF kinvD(1) [OF inv] 1])
    have "apart (page (ks_heap s) i, PAGE_SIZE) (p, PAGE_SIZE)"
      by (rule regions_disj [OF ro(1)]) (use i(1) pp in auto)
    then show ?thesis using i by (auto simp: apart_def)
  next
    case 2
    show ?thesis by (rule regions_disj [OF ro(2)]) (use pp 2 in auto)
  qed
qed

lemma caps_apart:
  assumes inv: "kinv s A S F B Cs" and x: "x \<in> set Cs" and y: "y \<in> set Cs" and ne: "x \<noteq> y"
  shows "apart x y"
proof -
  note rep = kinvD(1) [OF inv]
  have mixed: "apart x y" if x: "x \<in> allocated (ks_heap s) A F" and y: "y \<in> set B" for x y
  proof -
    obtain i where i: "i \<in> set A" "page (ks_heap s) i \<le> fst x" "fst x + snd x \<le> page (ks_heap s) i + PAGE_SIZE"
      by (rule allocated_in_page [OF rep x])
    then show ?thesis using page_big_apart [OF inv i(1) y] by (auto simp: apart_def)
  qed
  have big: "apart x y" if "x \<in> set B" "y \<in> set B"
    using kinvD(2) [OF inv] that ne by (auto simp: regions_ok_def regions_def pairwise_def)
  show ?thesis
    using x y kinvD(4) [OF inv] mixed [of x y] mixed [of y x] big allocated_apart [OF rep, of x y] ne apart_sym by blast
qed

text \<open>Every block is aligned, not empty and in memory that was handed out.\<close>

lemma cap_facts:
  assumes inv: "kinv s A S F B Cs" and c: "c \<in> set Cs"
  shows "4 dvd fst c" "0 < snd c" "MIPS_KSEG0 < fst c" "fst c + snd c \<le> MIPS_KSEG0 + firstpaddr (kh_ram (ks_heap s))"
proof -
  have reg: "region_in (kh_ram (ks_heap s)) x" if "x \<in> set (regions s A B)" for x
    using kinvD(2) [OF inv] that by (simp add: regions_ok_def)
  consider "c \<in> allocated (ks_heap s) A F" | "c \<in> set B" using c kinvD(4) [OF inv] by auto
  then have "4 dvd fst c \<and> 0 < snd c \<and> MIPS_KSEG0 < fst c \<and> fst c + snd c \<le> MIPS_KSEG0 + firstpaddr (kh_ram (ks_heap s))"
  proof cases
    case 1
    obtain i where i: "i \<in> set A" "page (ks_heap s) i \<le> fst c" "fst c + snd c \<le> page (ks_heap s) i + PAGE_SIZE" "16 \<le> snd c" "4 dvd fst c"
      by (rule allocated_in_page [OF kinvD(1) [OF inv] 1])
    have "region_in (kh_ram (ks_heap s)) (page (ks_heap s) i, PAGE_SIZE)" using i(1) by (intro reg) (simp add: regions_def)
    then show ?thesis using i by (auto simp: region_in_def)
  next
    case 2
    then have "region_in (kh_ram (ks_heap s)) c" by (intro reg) (simp add: regions_def)
    then show ?thesis by (auto simp: region_in_def PAGE_SIZE_def)
  qed
  then show "4 dvd fst c" "0 < snd c" "MIPS_KSEG0 < fst c" "fst c + snd c \<le> MIPS_KSEG0 + firstpaddr (kh_ram (ks_heap s))" by auto
qed

subsection \<open>The steps\<close>

text \<open>A new block.\<close>

lemma kinv_return:
  assumes inv: "kinv s A S F B Cs" and rep: "heap_rep h A' S' F'"
    and reg: "regions_ok (kh_ram h) (regions (s\<lparr>ks_heap := h, ks_pending := P\<rparr>) A' B')"
    and al: "allocated h A' F' \<union> set B' = insert (a, c) (allocated (ks_heap s) A F \<union> set B)"
      "(a, c) \<notin> allocated (ks_heap s) A F \<union> set B" and sz: "sz \<le> c"
    and P: "set P \<subseteq> set (ks_pending s)"
    and mem: "\<And>x y. y \<in> set (ks_live s) \<Longrightarrow> fst y \<le> x \<Longrightarrow> x < fst y + snd y \<Longrightarrow> kh_mem h x = kh_mem (ks_heap s) x"
  shows "kinv (ks_return (Some a) sz (s\<lparr>ks_heap := h, ks_pending := P\<rparr>)) A' S' F' B' ((a, c) # Cs)"
proof -
  let ?s = "ks_return (Some a) sz (s\<lparr>ks_heap := h, ks_pending := P\<rparr>)"
  have flds: "ks_heap ?s = h" "ks_pending ?s = P" "ks_live ?s = (a, sz) # ks_live s" "ks_words ?s = ks_words s"
    by (simp_all add: ks_return_def)
  have "words_ok ?s"
    unfolding words_ok_def flds
  proof (intro allI impI)
    fix x v assume "ks_words s x = Some v"
    then obtain y where y: "y \<in> set (ks_live s)" "fst y \<le> x" "x + 4 \<le> fst y + snd y" and v: "kh_mem (ks_heap s) x = v"
      using kinvD(7) [OF inv] unfolding words_ok_def by blast
    have "x < fst y + snd y" using y(3) by simp
    then show "kh_mem h x = v \<and> (\<exists>y \<in> set ((a, sz) # ks_live s). fst y \<le> x \<and> x + 4 \<le> fst y + snd y)"
      using mem [OF y(1,2)] v y by auto
  qed
  moreover have "regions ?s A' B' = regions (s\<lparr>ks_heap := h, ks_pending := P\<rparr>) A' B'" by (simp add: regions_def flds)
  moreover have "\<forall>x \<in> set P. fst x < NSIZES \<and> snd (snd x) \<le> sizes ! fst x" using kinvD(6) [OF inv] P by blast
  ultimately show ?thesis
    unfolding kinv_def flds using rep reg al kinvD(3-5) [OF inv] sz by (simp add: holds_def)
qed

lemma heap_rep_ram:
  assumes "heap_rep h A S F" "ram_ok r" "firstpaddr (kh_ram h) \<le> firstpaddr r"
  shows "heap_rep (h\<lparr>kh_ram := r\<rparr>) A S F" "allocated (h\<lparr>kh_ram := r\<rparr>) A F = allocated h A F"
proof -
  have "page_ok (h\<lparr>kh_ram := r\<rparr>) i (F i)" if "i \<in> set A" for i
    using heap_repD(3) [OF assms(1) that] assms(3) unfolding page_ok_def page_in_def by (cases "F i") simp_all
  moreover have "heap_shape (h\<lparr>kh_ram := r\<rparr>)" using heap_repD(1) [OF assms(1)] assms(2) by (simp add: heap_shape_def)
  moreover have "heap_lists (h\<lparr>kh_ram := r\<rparr>) A S" using heap_repD(2) [OF assms(1)] unfolding heap_lists_def by simp
  ultimately show "heap_rep (h\<lparr>kh_ram := r\<rparr>) A S F" using heap_repD(4) [OF assms(1)] unfolding heap_rep_def by simp
  show "allocated (h\<lparr>kh_ram := r\<rparr>) A F = allocated h A F" by (simp add: allocated_def used_def block_def)
qed

lemma alloc_kpages_ok:
  assumes "ram_ok r" "n \<le> 2 ^ 19"
  obtains (oom) "alloc_kpages n r = None" "lastpaddr r < firstpaddr r + n * PAGE_SIZE"
  | (ok) r' where "alloc_kpages n r = Some (MIPS_KSEG0 + firstpaddr r, r')" "ram_ok r'" "firstpaddr r' = firstpaddr r + n * PAGE_SIZE"
proof (cases "getppages n r")
  case None
  have "wrap32 (n * PAGE_SIZE) = n * PAGE_SIZE" "wrap32 (firstpaddr r + n * PAGE_SIZE) = firstpaddr r + n * PAGE_SIZE"
    using assms(2) ram_okD [OF assms(1)] by (simp_all add: PAGE_SIZE_def)
  then have "lastpaddr r < firstpaddr r + n * PAGE_SIZE"
    using None ram_okD(2) [OF assms(1)] by (auto simp: getppages_def ram_stealmem_def Let_def split: if_splits)
  then show thesis using oom None by (simp add: alloc_kpages_def)
next
  case (Some x)
  obtain pa r' where x: "x = (pa, r')" by (cases x)
  note g = getppages_ok [OF assms(1) Some [unfolded x] assms(2)]
  have "wrap32 (firstpaddr r + MIPS_KSEG0) = MIPS_KSEG0 + firstpaddr r"
    using ram_okD [OF assms(1)] by (simp add: MIPS_KSEG0_def)
  then have "alloc_kpages n r = Some (MIPS_KSEG0 + firstpaddr r, r')"
    using Some g(2) ram_okD(2) [OF assms(1)] by (simp add: alloc_kpages_def x PADDR_TO_KVADDR_def)
  then show thesis using ok g by blast
qed

definition pages_for :: "nat \<Rightarrow> nat" where
  "pages_for sz = (if sz \<ge> LARGEST_SUBPAGE_SIZE then (sz + PAGE_SIZE - 1) div PAGE_SIZE else 1)"

definition sys_ok :: "ksys \<Rightarrow> bool" where
  "sys_ok s \<longleftrightarrow> (\<exists>A S F B Cs. kinv s A S F B Cs)"

lemma sys_okI: "kinv s A S F B Cs \<Longrightarrow> sys_ok s"
  unfolding sys_ok_def by blast

definition out_of_memory :: "nat \<Rightarrow> ksys \<Rightarrow> bool" where
  "out_of_memory n s \<longleftrightarrow> lastpaddr (kh_ram (ks_heap s)) < firstpaddr (kh_ram (ks_heap s)) + n * PAGE_SIZE"

lemma regions_ram: "regions (s\<lparr>ks_heap := h\<lparr>kh_ram := r\<rparr>\<rparr>) A B = regions (s\<lparr>ks_heap := h\<rparr>) A B"
  by (simp add: regions_def)

text \<open>A large request.\<close>

lemma malloc_large:
  assumes inv: "kinv s A S F B Cs" and sz: "LARGEST_SUBPAGE_SIZE \<le> sz" "sz \<le> 2 ^ 30"
  shows "(\<exists>s'. ks_malloc sz s = Some s' \<and> sys_ok s') \<or> (ks_malloc sz s = None \<and> out_of_memory (pages_for sz) s)"
proof -
  let ?h = "ks_heap s" and ?n = "pages_for sz"
  note rep = kinvD(1) [OF inv] and reg = kinvD(2) [OF inv]
  note ram = heap_shapeD(4) [OF heap_repD(1) [OF rep]]
  have n: "?n \<le> 2 ^ 19" "0 < ?n" "sz \<le> ?n * PAGE_SIZE" "wrap32 (sz + PAGE_SIZE - 1) div PAGE_SIZE = ?n"
    using sz by (simp_all add: pages_for_def PAGE_SIZE_def LARGEST_SUBPAGE_SIZE_def)
  from ram n(1) show ?thesis
  proof (cases rule: alloc_kpages_ok)
    case oom
    then show ?thesis using sz(1) n(4) by (simp add: ks_malloc_def kmalloc_def out_of_memory_def Let_def)
  next
    case (ok r')
    let ?a = "MIPS_KSEG0 + firstpaddr (kh_ram ?h)" and ?h' = "?h\<lparr>kh_ram := r'\<rparr>"
    have le: "firstpaddr (kh_ram ?h) \<le> firstpaddr r'" using ok(3) by simp
    note rep' = heap_rep_ram [OF rep ok(2) le]
    have "ks_malloc sz s = Some (ks_return (Some ?a) sz (s\<lparr>ks_heap := ?h'\<rparr>))"
      using sz(1) n(4) ok(1) by (simp add: ks_malloc_def kmalloc_def Let_def MIPS_KSEG0_def)
    moreover have "kinv (ks_return (Some ?a) sz (s\<lparr>ks_heap := ?h', ks_pending := ks_pending s\<rparr>)) A S F ((?a, ?n * PAGE_SIZE) # B) ((?a, ?n * PAGE_SIZE) # Cs)"
    proof (rule kinv_return [OF inv rep'(1)])
      have "regions_ok r' ((?a, ?n * PAGE_SIZE) # regions s A B)" by (rule regions_new [OF reg ram ok(3) n(2)])
      then show "regions_ok (kh_ram ?h') (regions (s\<lparr>ks_heap := ?h', ks_pending := ks_pending s\<rparr>) A ((?a, ?n * PAGE_SIZE) # B))"
        by (auto elim!: regions_sub simp: regions_def)
      show "allocated ?h' A F \<union> set ((?a, ?n * PAGE_SIZE) # B) = insert (?a, ?n * PAGE_SIZE) (allocated ?h A F \<union> set B)"
        using rep'(2) by simp
      show "(?a, ?n * PAGE_SIZE) \<notin> allocated ?h A F \<union> set B"
        using cap_facts(4) [OF inv, of "(?a, ?n * PAGE_SIZE)"] n(2) unfolding kinvD(4) [OF inv] by (auto simp: PAGE_SIZE_def)
    qed (use n(3) in auto)
    ultimately show ?thesis using sys_okI by fastforce
  qed
qed

lemma block_notin:
  assumes rep: "heap_rep h A S F" and i: "i \<in> set A" "n \<in> set (F i)"
  shows "block h (i, n) \<notin> allocated h A F"
proof
  assume "block h (i, n) \<in> allocated h A F"
  then obtain y where y: "y \<in> used h A F" "block h (i, n) = block h y" by (auto simp: allocated_def)
  have "(i, n) \<in> {(i, n). i \<in> set A \<and> n < PAGE_SIZE div bsize h i}" "y \<in> {(i, n). i \<in> set A \<and> n < PAGE_SIZE div bsize h i}"
    using i y(1) page_okD(4) [OF heap_repD(3) [OF rep i(1)] i(2)] by (auto simp: used_def)
  then have "y = (i, n)" using inj_onD [OF block_inj [OF rep] y(2)] by simp
  then show False using y(1) i(2) by (simp add: used_def)
qed

text \<open>A small request that finds a block.\<close>

lemma malloc_hit:
  assumes inv: "kinv s A S F B Cs" and i: "i \<in> set A" "F i = n # fs" and sz: "sz \<le> bsize (ks_heap s) i"
    and rep: "heap_rep h' A S (F(i := fs))"
    and al: "allocated h' A (F(i := fs)) = insert (block (ks_heap s) (i, n)) (allocated (ks_heap s) A F)"
    and same: "kh_mem h' = kh_mem (ks_heap s)" "kh_ram h' = kh_ram (ks_heap s)" "page h' = page (ks_heap s)"
  shows "sys_ok (ks_return (Some (fst (block (ks_heap s) (i, n)))) sz (s\<lparr>ks_heap := h'\<rparr>))"
proof -
  let ?h = "ks_heap s" and ?b = "block (ks_heap s) (i, n)"
  have b: "?b = (fst ?b, snd ?b)" "sz \<le> snd ?b" using sz by (simp_all add: block_def)
  have n: "n < PAGE_SIZE div bsize ?h i" using page_okD(4) [OF heap_repD(3) [OF kinvD(1) [OF inv] i(1)]] i(2) by simp
  have big: "?b \<notin> set B"
  proof
    assume "?b \<in> set B"
    from page_big_apart [OF inv i(1) this] show False
      using block_fits(1) [OF page_okD(1) [OF heap_repD(3) [OF kinvD(1) [OF inv] i(1)]] n]
        size_facts(1) [OF page_okD(1) [OF heap_repD(3) [OF kinvD(1) [OF inv] i(1)]]]
      by (auto simp: apart_def block_def)
  qed
  have "kinv (ks_return (Some (fst ?b)) sz (s\<lparr>ks_heap := h', ks_pending := ks_pending s\<rparr>)) A S (F(i := fs)) B ((fst ?b, snd ?b) # Cs)"
  proof (rule kinv_return [OF inv rep])
    have "regions (s\<lparr>ks_heap := h', ks_pending := ks_pending s\<rparr>) A B = regions s A B"
      using same(3) by (auto simp: regions_def fun_eq_iff)
    then show "regions_ok (kh_ram h') (regions (s\<lparr>ks_heap := h', ks_pending := ks_pending s\<rparr>) A B)"
      using kinvD(2) [OF inv] same(2) by simp
    show "(fst ?b, snd ?b) \<notin> allocated ?h A F \<union> set B"
      using block_notin [OF kinvD(1) [OF inv] i(1), of n] i(2) big by simp
  qed (use al same b(2) in auto)
  from sys_okI [OF this] show ?thesis by simp
qed

lemma malloc_small:
  assumes inv: "kinv s A S F B Cs" and sz: "sz < LARGEST_SUBPAGE_SIZE"
  shows "(\<exists>s'. ks_malloc sz s = Some s' \<and> sys_ok s') \<or> (ks_malloc sz s = None \<and> out_of_memory (pages_for sz) s)"
proof -
  let ?h = "ks_heap s"
  note rep = kinvD(1) [OF inv] and reg = kinvD(2) [OF inv]
  note ram = heap_shapeD(4) [OF heap_repD(1) [OF rep]]
  obtain k where k: "blocktype sz = Some k" "k < NSIZES" "sz \<le> sizes ! k" using blocktype_eq [OF sz] by auto
  from rep k(2) show ?thesis
  proof (cases rule: subpage_take_ok)
    case (hit h' i n fs)
    have b: "block ?h (i, n) = (page ?h i + n * sizes ! k, sizes ! k)" using hit(3) by (simp add: block_def)
    have "sys_ok (ks_return (Some (fst (block ?h (i, n)))) sz (s\<lparr>ks_heap := h'\<rparr>))"
      by (rule malloc_hit [OF inv hit(2,4) _ hit(5)]) (use k(3) hit(3,6-10) b in auto)
    then show ?thesis using sz k(1) hit(1) b by (simp add: ks_malloc_def)
  next
    case full
    have one: "(1::nat) \<le> 2 ^ 19" by simp
    from ram one show ?thesis
    proof (cases rule: alloc_kpages_ok)
      case oom
      then show ?thesis using sz k(1) full by (simp add: ks_malloc_def pages_for_def out_of_memory_def)
    next
      case (ok r')
      let ?a = "MIPS_KSEG0 + firstpaddr (kh_ram ?h)" and ?h' = "?h\<lparr>kh_ram := r'\<rparr>"
      let ?s = "s\<lparr>ks_heap := ?h', ks_pending := (k, ?a, sz) # ks_pending s\<rparr>"
      have le: "firstpaddr (kh_ram ?h) \<le> firstpaddr r'" using ok(3) by simp
      note rep' = heap_rep_ram [OF rep ok(2) le]
      have "regions_ok r' ((?a, 1 * PAGE_SIZE) # regions s A B)" by (rule regions_new [OF reg ram ok(3)]) simp
      then have "regions_ok (kh_ram ?h') (regions ?s A B)" by (auto elim!: regions_sub simp: regions_def)
      then have "kinv ?s A S F B Cs"
        using rep' kinvD(3-7) [OF inv] k(2,3) by (auto simp: kinv_def words_ok_def)
      from sys_okI [OF this] show ?thesis using sz k(1) full ok(1) by (simp add: ks_malloc_def MIPS_KSEG0_def)
    qed
  qed
qed

text \<open>A pending request that gets its page.\<close>

lemma remove_at_facts:
  assumes "i < length xs"
  shows "mset xs = add_mset (xs ! i) (mset (remove_at i xs))" "set (remove_at i xs) \<subseteq> set xs"
proof -
  have "xs = take i xs @ xs ! i # drop (Suc i) xs" using assms by (rule id_take_nth_drop)
  then show "mset xs = add_mset (xs ! i) (mset (remove_at i xs))"
    unfolding remove_at_def by (metis mset.simps(2) mset_append union_mset_add_mset_right)
  show "set (remove_at i xs) \<subseteq> set xs"
    unfolding remove_at_def by (auto dest: in_set_takeD in_set_dropD)
qed

lemma finish_ok:
  assumes inv: "kinv s A S F B Cs" and i: "i < length (ks_pending s)"
  shows "\<exists>s'. ks_finish i s = Some s' \<and> sys_ok s'"
proof -
  let ?h = "ks_heap s" and ?P = "remove_at i (ks_pending s)"
  obtain k pa sz where p: "ks_pending s ! i = (k, pa, sz)" by (cases "ks_pending s ! i") auto
  then have pin: "(k, pa, sz) \<in> set (ks_pending s)" using i nth_mem by metis
  note rep = kinvD(1) [OF inv] and pk = kinvD(6) [OF inv pin, simplified] and rm = remove_at_facts [OF i]
  have mp: "mset (map (\<lambda>(k, p, sz). (p, PAGE_SIZE)) (ks_pending s)) = add_mset (pa, PAGE_SIZE) (mset (map (\<lambda>(k, p, sz). (p, PAGE_SIZE)) ?P))"
    using rm(1) p by (simp add: mset_map)
  have reg: "regions_ok (kh_ram ?h) ((pa, PAGE_SIZE) # map (\<lambda>i. (page ?h i, PAGE_SIZE)) A @ map (\<lambda>(k, p, sz). (p, PAGE_SIZE)) ?P @ B)"
    using kinvD(2) [OF inv] mp by (auto elim!: regions_sub simp: regions_def)
  then have pa: "page_in (kh_ram ?h) pa" by (auto simp: regions_ok_def region_in_def page_in_def)
  have fresh: "\<forall>j \<in> set A. page ?h j \<noteq> pa" using reg by (auto simp: regions_ok_def)
  from rep conjunct1 [OF pk] pa fresh show ?thesis
  proof (cases rule: subpage_grow_ok)
    case none
    have "kinv (s\<lparr>ks_pending := ?P\<rparr>) A S F B Cs"
      using inv reg rm(2) by (auto simp: kinv_def regions_def words_ok_def elim!: regions_sub)
    from sys_okI [OF this] show ?thesis using none p by (simp add: ks_finish_def ks_return_def)
  next
    case (grow h' j S' F')
    let ?a = "pa + (PAGE_SIZE div sizes ! k - 1) * sizes ! k"
    have "?a + sizes ! k \<le> pa + PAGE_SIZE" "pa \<le> ?a" "0 < sizes ! k"
      using block_fits(1) [of k "PAGE_SIZE div sizes ! k - 1"] size_facts(1,5) [of k] pk by auto
    then have new: "\<not> apart (pa, PAGE_SIZE) (?a, sizes ! k)" by (auto simp: apart_def)
    have "kinv (ks_return (Some ?a) sz (s\<lparr>ks_heap := h', ks_pending := ?P\<rparr>)) (j # A) S' F' B ((?a, sizes ! k) # Cs)"
    proof (rule kinv_return [OF inv grow(2)])
      have mA: "map (\<lambda>i. (page h' i, PAGE_SIZE)) A = map (\<lambda>i. (page ?h i, PAGE_SIZE)) A" using grow(5) by simp
      show "regions_ok (kh_ram h') (regions (s\<lparr>ks_heap := h', ks_pending := ?P\<rparr>) (j # A) B)"
        using reg grow(3,7) by (simp add: regions_def mA del: map_eq_conv)
      show "(?a, sizes ! k) \<notin> allocated ?h A F \<union> set B"
        using pending_apart [OF inv pin, of "(?a, sizes ! k)"] new kinvD(4) [OF inv] by blast
      fix x y
      assume y: "y \<in> set (ks_live s)" "fst y \<le> x" "x < fst y + snd y"
      obtain c where c: "c \<in> set Cs" "holds y c" by (rule list_all2_in [OF kinvD(5) [OF inv] y(1)])
      then have "x < pa \<or> pa + PAGE_SIZE \<le> x" using pending_apart [OF inv pin c(1)] y(2,3) by (auto simp: apart_def holds_def)
      then show "kh_mem h' x = kh_mem ?h x" using grow(8) by blast
    qed (use grow(6) pk rm(2) in auto)
    from sys_okI [OF this] show ?thesis using grow(1) p by (auto simp: ks_finish_def)
  qed
qed

text \<open>\<open>kfree\<close>.\<close>

lemma kfree_big:
  assumes inv: "kinv s A S F B Cs" and y: "y \<in> set B"
  shows "kfree (fst y) (ks_heap s) = Some (ks_heap s)"
proof -
  let ?h = "ks_heap s"
  have ry: "region_in (kh_ram ?h) y" using kinvD(2) [OF inv] y by (auto simp: regions_ok_def regions_def)
  have "\<not> (page ?h i \<le> fst y \<and> fst y < page ?h i + PAGE_SIZE)" if "i \<in> set A" for i
    using page_big_apart [OF inv that y] ry by (auto simp: apart_def region_in_def PAGE_SIZE_def)
  then have "find (\<lambda>i. page ?h i \<le> fst y \<and> fst y < page ?h i + PAGE_SIZE) A = None" unfolding find_None_iff by blast
  then have "subpage_kfree (fst y) ?h = Some (False, ?h)"
    unfolding subpage_kfree_def find_owner_rep [OF kinvD(1) [OF inv]] by simp
  then show ?thesis using ry by (auto simp: kfree_def free_kpages_def region_in_def)
qed

text \<open>What is left after the block \<open>Cs ! i\<close> is gone.\<close>

lemma kinv_free:
  assumes inv: "kinv s A S F B Cs" and i: "i < length (ks_live s)" and live: "ks_live s ! i = (a, sz)"
    and rep: "heap_rep h A' S' F'" and reg: "regions_ok (kh_ram h) (regions (s\<lparr>ks_heap := h\<rparr>) A' B')"
    and al: "allocated h A' F' \<union> set B' = set Cs - {Cs ! i}"
    and mem: "\<And>x. x < a \<or> a + snd (Cs ! i) \<le> x \<Longrightarrow> kh_mem h x = kh_mem (ks_heap s) x"
  shows "kinv (s\<lparr>ks_heap := h, ks_live := remove_at i (ks_live s),
      ks_words := (\<lambda>x. if a \<le> x \<and> x < a + sz then None else ks_words s x)\<rparr>) A' S' F' B' (remove_at i Cs)"
    (is "kinv ?s _ _ _ _ _")
proof -
  note l2 = kinvD(5) [OF inv]
  have len: "length (ks_live s) = length Cs" by (rule list_all2_lengthD [OF l2])
  have hi: "holds (a, sz) (Cs ! i)" using list_all2_nthD [OF l2 i] live by simp
  have l2': "list_all2 holds (remove_at i (ks_live s)) (remove_at i Cs)"
    unfolding remove_at_def using l2 by (intro list_all2_appendI) (simp_all add: list_all2_takeI list_all2_dropI)
  have split: "Cs = take i Cs @ Cs ! i # drop (Suc i) Cs" using i len by (intro id_take_nth_drop) simp
  have "distinct (take i Cs @ Cs ! i # drop (Suc i) Cs)" using kinvD(3) [OF inv] split by simp
  then have d: "distinct (remove_at i Cs)" "Cs ! i \<notin> set (remove_at i Cs)" by (simp_all add: remove_at_def)
  have "set Cs = insert (Cs ! i) (set (remove_at i Cs))" by (subst split) (simp add: remove_at_def)
  then have sC: "set (remove_at i Cs) = set Cs - {Cs ! i}" using d(2) by auto
  have wok: "words_ok ?s"
    unfolding words_ok_def
  proof (intro allI impI)
    fix x v assume v: "ks_words ?s x = Some v"
    then have w: "ks_words s x = Some v" "\<not> (a \<le> x \<and> x < a + sz)" by (auto split: if_splits)
    then obtain y where y: "y \<in> set (ks_live s)" "fst y \<le> x" "x + 4 \<le> fst y + snd y" and m: "kh_mem (ks_heap s) x = v"
      using kinvD(7) [OF inv] unfolding words_ok_def by blast
    have "ks_live s = take i (ks_live s) @ (a, sz) # drop (Suc i) (ks_live s)" using id_take_nth_drop [OF i] live by simp
    then have "set (ks_live s) = insert (a, sz) (set (remove_at i (ks_live s)))" unfolding remove_at_def by (metis Un_insert_right list.simps(15) set_append)
    then have y': "y \<in> set (remove_at i (ks_live s))" using y w(2) by auto
    obtain c where c: "c \<in> set (remove_at i Cs)" "holds y c" by (rule list_all2_in [OF l2' y'])
    have "Cs ! i \<in> set Cs" using i len by simp
    then have "apart (Cs ! i) c" using c(1) sC by (intro caps_apart [OF inv]) auto
    then have "x < a \<or> a + snd (Cs ! i) \<le> x" using c(2) hi y(2,3) by (auto simp: apart_def holds_def)
    then show "kh_mem (ks_heap ?s) x = v \<and> (\<exists>y \<in> set (ks_live ?s). fst y \<le> x \<and> x + 4 \<le> fst y + snd y)"
      using mem m y y' by auto
  qed
  moreover have "regions ?s A' B' = regions (s\<lparr>ks_heap := h\<rparr>) A' B'" by (simp add: regions_def)
  ultimately show ?thesis
    unfolding kinv_def using rep reg al d(1) l2' sC kinvD(6) [OF inv] by auto
qed

lemma free_ok:
  assumes inv: "kinv s A S F B Cs" and i: "i < length (ks_live s)"
  shows "\<exists>s'. ks_free i s = Some s' \<and> sys_ok s'"
proof -
  let ?h = "ks_heap s"
  obtain a sz where live: "ks_live s ! i = (a, sz)" by (cases "ks_live s ! i")
  have len: "length (ks_live s) = length Cs" by (rule list_all2_lengthD [OF kinvD(5) [OF inv]])
  define c where "c = Cs ! i"
  have hi: "a = fst c" using list_all2_nthD [OF kinvD(5) [OF inv] i] live by (simp add: holds_def c_def)
  have cC: "c \<in> set Cs" using i len by (simp add: c_def)
  have a0: "a \<noteq> 0" using cap_facts(3) [OF inv cC] hi by simp
  have dis: "c \<in> allocated ?h A F \<Longrightarrow> c \<notin> set B"
  proof
    assume c: "c \<in> allocated ?h A F" "c \<in> set B"
    obtain j where j: "j \<in> set A" "page ?h j \<le> fst c" "fst c + snd c \<le> page ?h j + PAGE_SIZE" "16 \<le> snd c"
      by (rule allocated_in_page [OF kinvD(1) [OF inv] c(1)])
    then show False using page_big_apart [OF inv j(1) c(2)] by (auto simp: apart_def)
  qed
  show ?thesis
  proof (cases "c \<in> allocated ?h A F")
    case True
    obtain h' A' S' F' where h': "subpage_kfree (fst c) ?h = Some (True, h')" "heap_rep h' A' S' F'"
      "allocated h' A' F' = allocated ?h A F - {c}" "A' = A \<or> (\<exists>i. A' = remove1 i A)" "\<forall>j. page h' j = page ?h j"
      "kh_ram h' = kh_ram ?h" "\<forall>x. x < fst c \<or> fst c + snd c \<le> x \<longrightarrow> kh_mem h' x = kh_mem ?h x"
      using subpage_kfree_ok [OF kinvD(1) [OF inv], of "fst c" "snd c" thesis] True by auto
    have "mset A' \<subseteq># mset A" using h'(4) by auto
    then have "mset (regions (s\<lparr>ks_heap := h'\<rparr>) A' B) \<subseteq># mset (regions s A B)"
      using h'(5) image_mset_subseteq_mono [of "mset A'" "mset A"] by (auto simp: regions_def mset_map)
    then have reg: "regions_ok (kh_ram h') (regions (s\<lparr>ks_heap := h'\<rparr>) A' B)"
      using kinvD(2) [OF inv] h'(6) by (auto elim: regions_sub)
    have al: "allocated h' A' F' \<union> set B = set Cs - {Cs ! i}"
      using h'(3) dis [OF True] kinvD(4) [OF inv] by (auto simp: c_def)
    have mem: "\<And>x. x < a \<or> a + snd (Cs ! i) \<le> x \<Longrightarrow> kh_mem h' x = kh_mem ?h x" using h'(7) by (auto simp: c_def hi)
    from sys_okI [OF kinv_free [OF inv i live h'(2) reg al mem]] show ?thesis
      using h'(1) a0 by (simp add: ks_free_def live kfree_def hi [symmetric])
  next
    case False
    then have cB: "c \<in> set B" using cC kinvD(4) [OF inv] by auto
    have reg: "regions_ok (kh_ram ?h) (regions (s\<lparr>ks_heap := ?h\<rparr>) A (remove1 c B))"
      using kinvD(2) [OF inv] by (auto elim!: regions_sub simp: regions_def)
    have dB: "distinct B" using kinvD(2) [OF inv] by (auto simp: regions_ok_def regions_def)
    have al: "allocated ?h A F \<union> set (remove1 c B) = set Cs - {Cs ! i}"
      using False kinvD(4) [OF inv] set_remove1_eq [OF dB] by (auto simp: c_def)
    from sys_okI [OF kinv_free [OF inv i live kinvD(1) [OF inv] reg al refl]] show ?thesis
      using kfree_big [OF inv cB] by (simp add: ks_free_def live hi)
  qed
qed

text \<open>A write to a block leaves the free lists alone.\<close>

lemma heap_rep_mem:
  assumes rep: "heap_rep h A S F"
    and m: "\<And>i n. i \<in> set A \<Longrightarrow> n \<in> set (F i) \<Longrightarrow> m (page h i + n * bsize h i) = kh_mem h (page h i + n * bsize h i)"
  shows "heap_rep (h\<lparr>kh_mem := m\<rparr>) A S F" "allocated (h\<lparr>kh_mem := m\<rparr>) A F = allocated h A F"
proof -
  have "page_ok (h\<lparr>kh_mem := m\<rparr>) i (F i)" if i: "i \<in> set A" for i
  proof -
    have "freelist m (page h i) (bsize h i) (F i) = freelist (kh_mem h) (page h i) (bsize h i) (F i)"
      using m [OF i] by (intro freelist_cong)
    then show ?thesis using heap_repD(3) [OF rep i] unfolding page_ok_def by (cases "F i") simp_all
  qed
  moreover have "heap_shape (h\<lparr>kh_mem := m\<rparr>)" using heap_repD(1) [OF rep] by (simp add: heap_shape_def)
  moreover have "heap_lists (h\<lparr>kh_mem := m\<rparr>) A S" using heap_repD(2) [OF rep] unfolding heap_lists_def by simp
  ultimately show "heap_rep (h\<lparr>kh_mem := m\<rparr>) A S F" using heap_repD(4) [OF rep] unfolding heap_rep_def by simp
  show "allocated (h\<lparr>kh_mem := m\<rparr>) A F = allocated h A F" by (simp add: allocated_def used_def block_def)
qed

lemma free_block_outside:
  assumes inv: "kinv s A S F B Cs" and i: "i \<in> set A" "n \<in> set (F i)" and c: "c \<in> set Cs" and x: "fst c \<le> x" "x < fst c + snd c"
  shows "page (ks_heap s) i + n * bsize (ks_heap s) i \<noteq> x"
proof -
  let ?h = "ks_heap s"
  note rep = kinvD(1) [OF inv]
  note ok = page_okD [OF heap_repD(3) [OF rep i(1)]]
  have n: "n < PAGE_SIZE div bsize ?h i" by (rule ok(4) [OF i(2)])
  have sz: "16 \<le> bsize ?h i" "n * bsize ?h i + bsize ?h i \<le> PAGE_SIZE" using size_facts(1) [OF ok(1)] block_fits(1) [OF ok(1) n] .
  consider "c \<in> allocated ?h A F" | "c \<in> set B" using c kinvD(4) [OF inv] by auto
  then show ?thesis
  proof cases
    case 1
    then obtain j l where u: "(j, l) \<in> used ?h A F" and b: "c = block ?h (j, l)" by (auto simp: allocated_def)
    have "(i, n) \<noteq> (j, l)" using u i(2) by (auto simp: used_def)
    then have "page ?h i + n * bsize ?h i + bsize ?h i \<le> fst c \<or> fst c + snd c \<le> page ?h i + n * bsize ?h i"
      using blocks_apart [OF rep i(1) n, of j l] u unfolding b by (auto simp: used_def block_def)
    then show ?thesis using x sz(1) by linarith
  next
    case 2
    then show ?thesis using page_big_apart [OF inv i(1) 2] x sz by (auto simp: apart_def)
  qed
qed

lemma write_ok:
  assumes inv: "kinv s A S F B Cs" and i: "i < length (ks_live s)"
  shows "sys_ok (ks_write i off v s)"
proof (cases "4 dvd off \<and> off + 4 \<le> snd (ks_live s ! i)")
  case False
  then show ?thesis using sys_okI [OF inv] by (auto simp: ks_write_def split: prod.split)
next
  case True
  obtain a sz where live: "ks_live s ! i = (a, sz)" by (cases "ks_live s ! i")
  let ?h = "ks_heap s" and ?x = "a + off"
  let ?m = "(kh_mem ?h)(?x := v)"
  let ?s = "s\<lparr>ks_heap := ?h\<lparr>kh_mem := ?m\<rparr>, ks_words := (ks_words s)(?x \<mapsto> v)\<rparr>"
  have al: "(a, sz) \<in> set (ks_live s)" using i live nth_mem by metis
  obtain c where c: "c \<in> set Cs" "holds (a, sz) c" by (rule list_all2_in [OF kinvD(5) [OF inv] al])
  have x: "fst c \<le> ?x" "?x < fst c + snd c" using c(2) True live by (auto simp: holds_def)
  have rep: "heap_rep (?h\<lparr>kh_mem := ?m\<rparr>) A S F" "allocated (?h\<lparr>kh_mem := ?m\<rparr>) A F = allocated ?h A F"
    by (rule heap_rep_mem [OF kinvD(1) [OF inv]]; use free_block_outside [OF inv _ _ c(1) x] in simp)+
  have "words_ok ?s"
    unfolding words_ok_def
  proof (intro allI impI)
    fix y w assume w: "ks_words ?s y = Some w"
    show "kh_mem (ks_heap ?s) y = w \<and> (\<exists>z \<in> set (ks_live ?s). fst z \<le> y \<and> y + 4 \<le> fst z + snd z)"
    proof (cases "y = ?x")
      case y: True
      then show ?thesis using w al True live by (auto intro!: bexI [of _ "(a, sz)"])
    next
      case y: False
      then have "ks_words s y = Some w" using w by simp
      then show ?thesis using kinvD(7) [OF inv] y unfolding words_ok_def by auto
    qed
  qed
  then have "kinv ?s A S F B Cs"
    using rep kinvD(2-6) [OF inv] unfolding kinv_def by (auto simp: regions_def)
  then show ?thesis using True live by (auto simp: ks_write_def dest: sys_okI)
qed

subsection \<open>Every reachable state\<close>

lemma kstep_ok:
  assumes "sys_ok s"
  shows "(\<exists>s'. kstep p s = Some s' \<and> sys_ok s') \<or>
    (kstep p s = None \<and> (\<exists>sz. p = KMalloc sz \<and> sz \<le> 2 ^ 30 \<and> out_of_memory (pages_for sz) s))"
proof -
  obtain A S F B Cs where inv: "kinv s A S F B Cs" using assms by (auto simp: sys_ok_def)
  show ?thesis
  proof (cases p)
    case (KMalloc sz)
    then show ?thesis using malloc_large [OF inv, of sz] malloc_small [OF inv, of sz] assms
      by (cases "sz \<le> 2 ^ 30"; cases "LARGEST_SUBPAGE_SIZE \<le> sz") simp_all
  next
    case (KFinish i) then show ?thesis using finish_ok [OF inv, of i] assms by simp
  next
    case (KFree i) then show ?thesis using free_ok [OF inv, of i] assms by simp
  next
    case (KWrite i off v) then show ?thesis using write_ok [OF inv, of i off v] assms by simp
  qed
qed

lemma kruns_ok: "sys_ok s \<Longrightarrow> kruns ps s = Some s' \<Longrightarrow> sys_ok s'"
proof (induction ps arbitrary: s)
  case (Cons p ps)
  then show ?case using kstep_ok [OF Cons.prems(1), of p] by auto
qed simp

lemma heap_boot_ok:
  assumes "ram_ok r"
  shows "sys_ok (ksys_boot r m)"
proof (rule sys_okI)
  have "heap_lists (kheap_boot r m) [] (\<lambda>_. [])"
    by (auto simp: heap_lists_def kheap_boot_def NPAGEREFS_def INUSE_WORDS_def)
  then show "kinv (ksys_boot r m) [] (\<lambda>_. []) (\<lambda>_. []) [] []"
    using assms by (simp add: kinv_def ksys_boot_def heap_rep_def heap_shape_def kheap_boot_def regions_ok_def regions_def
        allocated_def used_def words_ok_def)
qed

lemma sys_ok_blocks:
  assumes "sys_ok s"
  shows "i < j \<Longrightarrow> j < length (ks_live s) \<Longrightarrow> apart (ks_live s ! i) (ks_live s ! j)"
    "y \<in> set (ks_live s) \<Longrightarrow> 4 dvd fst y \<and> MIPS_KSEG0 < fst y \<and> fst y + snd y \<le> MIPS_KSEG0 + firstpaddr (kh_ram (ks_heap s))"
    "ks_words s x = Some v \<Longrightarrow> kh_mem (ks_heap s) x = v"
    "checksubpages (ks_heap s) = Some ()"
proof -
  obtain A S F B Cs where inv: "kinv s A S F B Cs" using assms by (auto simp: sys_ok_def)
  note l2 = kinvD(5) [OF inv]
  have len: "length (ks_live s) = length Cs" by (rule list_all2_lengthD [OF l2])
  show "apart (ks_live s ! i) (ks_live s ! j)" if "i < j" "j < length (ks_live s)"
  proof -
    have "Cs ! i \<noteq> Cs ! j" using that len kinvD(3) [OF inv] by (simp add: nth_eq_iff_index_eq)
    then have "apart (Cs ! i) (Cs ! j)" using that len by (intro caps_apart [OF inv]) simp_all
    then show ?thesis using list_all2_nthD [OF l2, of i] list_all2_nthD [OF l2, of j] that by (auto simp: apart_def holds_def)
  qed
  show "4 dvd fst y \<and> MIPS_KSEG0 < fst y \<and> fst y + snd y \<le> MIPS_KSEG0 + firstpaddr (kh_ram (ks_heap s))" if "y \<in> set (ks_live s)"
    by (rule list_all2_in [OF l2 that]) (use cap_facts [OF inv] in \<open>force simp: holds_def\<close>)
  show "ks_words s x = Some v \<Longrightarrow> kh_mem (ks_heap s) x = v" using kinvD(7) [OF inv] unfolding words_ok_def by blast
  show "checksubpages (ks_heap s) = Some ()" by (rule checksubpages_ok [OF kinvD(1) [OF inv]])
qed

text \<open>An execution: a large request and a write to it, a small request that is then finished.\<close>

lemmas heap_eval = ksys_boot_def kheap_boot_def ks_malloc_def ks_write_def ks_return_def kmalloc_def
  alloc_kpages_def getppages_def ram_stealmem_def PADDR_TO_KVADDR_def MIPS_KSEG0_def PAGE_SIZE_def LARGEST_SUBPAGE_SIZE_def
  blocktype_def sizes_def NSIZES_def NPAGEREFS_def INUSE_WORDS_def subpage_take_def Let_def wrap32_def

lemma kruns_append: "kruns (ps @ qs) s = do { s \<leftarrow> kruns ps s; kruns qs s }"
  by (induction ps arbitrary: s) (auto split: bind_splits)

lemma heap_example:
  "\<exists>s. kruns ([KMalloc 5000, KWrite 0 8 7, KMalloc 1500] @ [KFinish 0])
     (ksys_boot \<lparr>firstpaddr = 4096, lastpaddr = 65536\<rparr> (\<lambda>_. 0)) = Some s"
proof -
  let ?b = "ksys_boot \<lparr>firstpaddr = 4096, lastpaddr = 65536\<rparr> (\<lambda>_. 0)"
  have fp: "find_page k None h = Some None" for k h by (subst find_page.simps) simp
  have "\<exists>s. kruns [KMalloc 5000, KWrite 0 8 7, KMalloc 1500] ?b = Some s" by (simp add: heap_eval fp)
  then obtain s where s: "kruns [KMalloc 5000, KWrite 0 8 7, KMalloc 1500] ?b = Some s" ..
  have "sys_ok s" by (rule kruns_ok [OF heap_boot_ok s]) (simp add: ram_ok_def PAGE_SIZE_def)
  then obtain s' where "kstep (KFinish 0) s = Some s'" using kstep_ok [of s "KFinish 0"] by auto
  then show ?thesis unfolding kruns_append s by simp
qed





end
