(* ===== verification/Kern_Bitmap.thy ===== *)
theory Kern_Bitmap
  imports OS161_Prelude
begin

section \<open>Fixed-size bitmaps: \<open>kern/lib/bitmap.c\<close>\<close>

text \<open>
  The bitmap is the free map of the SFS file system. The theory models every function of
  \<open>bitmap.c\<close>, states the contract a storage allocator needs as the locale \<open>index_allocator\<close>
  (over the set of indices in use) and interprets it on the bitmap operations.
\<close>

subsection \<open>The code\<close>

definition BITS_PER_WORD :: nat where
  "BITS_PER_WORD = 8"

definition WORD_ALLBITS :: u8 where
  "WORD_ALLBITS = 0xff"

record bitmap =
  b_nbits :: nat
  b_v :: "u8 list"

text \<open>The mask \<open>(WORD_TYPE)1 << offset\<close>.\<close>

definition bit_mask :: "nat \<Rightarrow> u8" where
  "bit_mask offset = push_bit offset 1"

text \<open>The loop of \<open>bitmap_create\<close> that marks the leftover bits of the last word.\<close>

function mark_leftover :: "nat \<Rightarrow> u8 \<Rightarrow> u8" where
  "mark_leftover j w =
     (if j < BITS_PER_WORD then mark_leftover (Suc j) (w OR bit_mask j) else w)"
  by pat_completeness auto
termination
  by (relation "measure (\<lambda>(j, w). BITS_PER_WORD - j)") auto

declare mark_leftover.simps [simp del]

text \<open>
  \<open>mem1\<close> and \<open>mem2\<close> are the outcomes of the two calls of \<open>kmalloc\<close>. The result is
  \<open>Some None\<close> for \<open>NULL\<close>.
\<close>

definition bitmap_create :: "bool \<Rightarrow> bool \<Rightarrow> nat \<Rightarrow> bitmap option option" where
  "bitmap_create mem1 mem2 nbits =
     (let words = DIVROUNDUP nbits BITS_PER_WORD in
      if \<not> mem1 then Some None
      else if \<not> mem2 then Some None
      else
        let v = replicate words 0 in
        if words > nbits div BITS_PER_WORD then
          (let ix = words - 1;
               overbits = sub32 nbits (wrap32 (ix * BITS_PER_WORD)) in
           do {
             kassert (nbits div BITS_PER_WORD = words - 1);
             kassert (overbits > 0 \<and> overbits < BITS_PER_WORD);
             w \<leftarrow> slot_get v ix;
             Some (Some \<lparr>b_nbits = nbits, b_v = v[ix := mark_leftover overbits w]\<rparr>)
           })
        else Some (Some \<lparr>b_nbits = nbits, b_v = v\<rparr>))"

definition bitmap_getdata :: "bitmap \<Rightarrow> u8 list" where
  "bitmap_getdata b = b_v b"

text \<open>The inner loop of \<open>bitmap_alloc\<close>; \<open>None\<close> when it falls through to \<open>KASSERT(0)\<close>.\<close>

function alloc_offset :: "u8 \<Rightarrow> nat \<Rightarrow> nat option" where
  "alloc_offset w offset =
     (if offset < BITS_PER_WORD then
        (if w AND bit_mask offset = 0 then Some offset else alloc_offset w (Suc offset))
      else panic)"
  by pat_completeness auto
termination
  by (relation "measure (\<lambda>(w, offset). BITS_PER_WORD - offset)") auto

declare alloc_offset.simps [simp del]

function bitmap_alloc_from ::
  "bitmap \<Rightarrow> nat \<Rightarrow> nat \<Rightarrow> (nat kresult \<times> bitmap) option" where
  "bitmap_alloc_from b maxix ix =
     (if ix < maxix then
        do {
          w \<leftarrow> slot_get (b_v b) ix;
          (if w \<noteq> WORD_ALLBITS then
             do {
               offset \<leftarrow> alloc_offset w 0;
               v' \<leftarrow> slot_set (b_v b) ix (w OR bit_mask offset);
               let index = ix * BITS_PER_WORD + offset;
               kassert (index < b_nbits b);
               Some (Inr index, b\<lparr>b_v := v'\<rparr>)
             }
           else bitmap_alloc_from b maxix (Suc ix))
        }
      else Some (Inl ENOSPC, b))"
  by pat_completeness auto
termination
  by (relation "measure (\<lambda>(b, maxix, ix). maxix - ix)") auto

declare bitmap_alloc_from.simps [simp del]

definition bitmap_alloc :: "bitmap \<Rightarrow> (nat kresult \<times> bitmap) option" where
  "bitmap_alloc b = bitmap_alloc_from b (DIVROUNDUP (b_nbits b) BITS_PER_WORD) 0"

definition bitmap_translate :: "nat \<Rightarrow> nat \<times> u8" where
  "bitmap_translate bitno =
     (let offset = bitno mod BITS_PER_WORD in (bitno div BITS_PER_WORD, bit_mask offset))"

definition bitmap_mark :: "bitmap \<Rightarrow> nat \<Rightarrow> bitmap option" where
  "bitmap_mark b index = do {
     kassert (index < b_nbits b);
     let (ix, mask) = bitmap_translate index;
     w \<leftarrow> slot_get (b_v b) ix;
     kassert (w AND mask = 0);
     v' \<leftarrow> slot_set (b_v b) ix (w OR mask);
     Some (b\<lparr>b_v := v'\<rparr>)
   }"

definition bitmap_unmark :: "bitmap \<Rightarrow> nat \<Rightarrow> bitmap option" where
  "bitmap_unmark b index = do {
     kassert (index < b_nbits b);
     let (ix, mask) = bitmap_translate index;
     w \<leftarrow> slot_get (b_v b) ix;
     kassert (w AND mask \<noteq> 0);
     v' \<leftarrow> slot_set (b_v b) ix (w AND NOT mask);
     Some (b\<lparr>b_v := v'\<rparr>)
   }"

definition bitmap_isset :: "bitmap \<Rightarrow> nat \<Rightarrow> u8 option" where
  "bitmap_isset b index = do {
     let (ix, mask) = bitmap_translate index;
     w \<leftarrow> slot_get (b_v b) ix;
     Some (w AND mask)
   }"

subsection \<open>Bits of a word\<close>

lemma bit_bit_mask: "bit (bit_mask n) i \<longleftrightarrow> i = n" if "n < 8"
  using that by (auto simp: bit_mask_def bit_simps)

lemma bit_or_bit_mask [simp]:
  "bit (w OR bit_mask n) i \<longleftrightarrow> bit w i \<or> i = n" if "n < 8"
  using that by (simp add: bit_or_iff bit_bit_mask)

lemma bit_and_not_bit_mask [simp]:
  "bit (w AND NOT (bit_mask n)) i \<longleftrightarrow> bit w i \<and> i \<noteq> n" if "n < 8"
proof -
  have "bit w i \<Longrightarrow> i < 8"
    using bit_imp_le_length by fastforce
  with that show ?thesis by (auto simp: bit_and_iff bit_not_iff bit_bit_mask)
qed

lemma and_bit_mask_eq_0_iff [simp]:
  "w AND bit_mask n = 0 \<longleftrightarrow> \<not> bit w n" if "n < 8"
proof -
  have "(w AND bit_mask n = 0) = (\<forall>i<8. \<not> bit (w AND bit_mask n) i)"
    by (simp add: bit_eq_iff)
  with that show ?thesis by (auto simp: bit_and_iff bit_bit_mask)
qed

lemma all_bits_iff: "w = WORD_ALLBITS \<longleftrightarrow> (\<forall>n<8. bit w n)" for w :: u8
proof -
  have "WORD_ALLBITS = mask 8"
    by (simp add: WORD_ALLBITS_def mask_eq_exp_minus_1)
  moreover have "bit (mask 8 :: u8) n \<longleftrightarrow> n < 8" for n
    unfolding bit_mask_iff by simp
  moreover have "bit w n \<Longrightarrow> n < 8" for n
    using bit_imp_le_length by fastforce
  ultimately show ?thesis
    by (auto simp: bit_eq_iff)
qed

lemma bit_mark_leftover:
  "j \<le> 8 \<Longrightarrow> bit (mark_leftover j w) i \<longleftrightarrow> bit w i \<or> j \<le> i \<and> i < 8"
proof (induction j w rule: mark_leftover.induct)
  case (1 j w)
  show ?case
  proof (cases "j < 8")
    case True
    then have "bit (mark_leftover (Suc j) (w OR bit_mask j)) i \<longleftrightarrow>
        bit (w OR bit_mask j) i \<or> Suc j \<le> i \<and> i < 8"
      using "1.IH" by (simp add: BITS_PER_WORD_def)
    with True show ?thesis
      by (auto simp: mark_leftover.simps [of j w] BITS_PER_WORD_def)
  next
    case False
    then show ?thesis by (auto simp: mark_leftover.simps [of j w] BITS_PER_WORD_def)
  qed
qed

lemma alloc_offset_first:
  assumes "\<exists>n. k \<le> n \<and> n < 8 \<and> \<not> bit w n"
  shows "\<exists>n. alloc_offset w k = Some n \<and> k \<le> n \<and> n < 8 \<and> \<not> bit w n \<and>
           (\<forall>m. k \<le> m \<and> m < n \<longrightarrow> bit w m)"
  using assms
proof (induction w k rule: alloc_offset.induct)
  case (1 w k)
  from "1.prems" have k: "k < 8" by auto
  show ?case
  proof (cases "bit w k")
    case True
    from "1.prems" obtain n where n: "k \<le> n" "n < 8" "\<not> bit w n" by blast
    with True have "Suc k \<le> n" by (metis Suc_leI le_neq_implies_less)
    with n have "\<exists>n. Suc k \<le> n \<and> n < 8 \<and> \<not> bit w n" by blast
    with k True obtain m where m: "alloc_offset w (Suc k) = Some m" "Suc k \<le> m" "m < 8"
        "\<not> bit w m" "\<forall>i. Suc k \<le> i \<and> i < m \<longrightarrow> bit w i"
      using "1.IH" by (auto simp: BITS_PER_WORD_def)
    have "alloc_offset w k = Some m"
      using k True m(1) by (simp add: alloc_offset.simps [of w k] BITS_PER_WORD_def)
    moreover have "\<forall>i. k \<le> i \<and> i < m \<longrightarrow> bit w i"
      using m(5) True by (metis Suc_leI le_neq_implies_less)
    ultimately show ?thesis using m by (auto intro: Suc_leD)
  next
    case False
    with k show ?thesis by (auto simp: alloc_offset.simps [of w k] BITS_PER_WORD_def)
  qed
qed


subsection \<open>The set of indices in use\<close>

definition bitmap_bit :: "bitmap \<Rightarrow> nat \<Rightarrow> bool" where
  "bitmap_bit b i \<longleftrightarrow> bit (b_v b ! (i div 8)) (i mod 8)"

definition bitmap_used :: "bitmap \<Rightarrow> nat set" where
  "bitmap_used b = {i. i < b_nbits b \<and> bitmap_bit b i}"

text \<open>
  Well-formed: the vector has the number of words \<open>bitmap_create\<close> allocates, and the bits
  past the last index are set, so that they are never handed out.
\<close>

definition bitmap_wf :: "bitmap \<Rightarrow> bool" where
  "bitmap_wf b \<longleftrightarrow> b_nbits b + 7 < 2 ^ 32 \<and> length (b_v b) = (b_nbits b + 7) div 8 \<and>
     (\<forall>i. b_nbits b \<le> i \<longrightarrow> i < 8 * length (b_v b) \<longrightarrow> bitmap_bit b i)"

lemma bitmap_wf_lookup:
  assumes "bitmap_wf b" and "i < b_nbits b"
  shows "i div 8 < length (b_v b)"
  using assms by (simp add: bitmap_wf_def)

lemma bitmap_maxix: "bitmap_wf b \<Longrightarrow> DIVROUNDUP (b_nbits b) BITS_PER_WORD = length (b_v b)"
  by (simp add: bitmap_wf_def DIVROUNDUP_def BITS_PER_WORD_def)

lemma bitmap_bit_update:
  assumes "i div 8 < length (b_v b)" and "j div 8 < length (b_v b)"
  shows "bitmap_bit (b\<lparr>b_v := (b_v b)[i div 8 := w]\<rparr>) j =
           (if j div 8 = i div 8 then bit w (j mod 8) else bitmap_bit b j)"
  using assms by (auto simp: bitmap_bit_def)

lemma same_word_iff: "i div 8 = j div 8 \<Longrightarrow> i mod 8 = j mod 8 \<longleftrightarrow> i = (j :: nat)"
  by (metis div_mult_mod_eq)

text \<open>Setting and clearing one bit, as \<open>bitmap_alloc\<close>, \<open>bitmap_mark\<close> and \<open>bitmap_unmark\<close> do.\<close>

abbreviation set_bit_at :: "bitmap \<Rightarrow> nat \<Rightarrow> bitmap" where
  "set_bit_at b i \<equiv> b\<lparr>b_v := (b_v b)[i div 8 := b_v b ! (i div 8) OR bit_mask (i mod 8)]\<rparr>"

abbreviation clear_bit_at :: "bitmap \<Rightarrow> nat \<Rightarrow> bitmap" where
  "clear_bit_at b i \<equiv>
     b\<lparr>b_v := (b_v b)[i div 8 := b_v b ! (i div 8) AND NOT (bit_mask (i mod 8))]\<rparr>"

lemma bitmap_bit_set:
  assumes "i div 8 < length (b_v b)" and "j div 8 < length (b_v b)"
  shows "bitmap_bit (set_bit_at b i) j \<longleftrightarrow> j = i \<or> bitmap_bit b j"
proof (cases "j div 8 = i div 8")
  case True
  with assms show ?thesis
    by (simp add: bitmap_bit_update same_word_iff) (auto simp: bitmap_bit_def)
next
  case False
  with assms show ?thesis by (auto simp: bitmap_bit_update)
qed

lemma bitmap_bit_clear:
  assumes "i div 8 < length (b_v b)" and "j div 8 < length (b_v b)"
  shows "bitmap_bit (clear_bit_at b i) j \<longleftrightarrow> j \<noteq> i \<and> bitmap_bit b j"
proof (cases "j div 8 = i div 8")
  case True
  with assms show ?thesis
    by (simp add: bitmap_bit_update same_word_iff) (auto simp: bitmap_bit_def)
next
  case False
  with assms show ?thesis by (auto simp: bitmap_bit_update)
qed

lemma bitmap_set_wf:
  assumes "bitmap_wf b" and "i < b_nbits b"
  shows "bitmap_wf (set_bit_at b i)" "bitmap_used (set_bit_at b i) = insert i (bitmap_used b)"
proof -
  note lk = bitmap_wf_lookup [OF assms(1)]
  have bits: "bitmap_bit (set_bit_at b i) j \<longleftrightarrow> j = i \<or> bitmap_bit b j"
    if "j < 8 * length (b_v b)" for j
    using lk [OF assms(2)] that by (intro bitmap_bit_set) auto
  show "bitmap_wf (set_bit_at b i)"
    using assms(1) bits by (auto simp: bitmap_wf_def)
  have "j < 8 * length (b_v b)" if "j < b_nbits b" for j
    using lk [OF that] by auto
  then show "bitmap_used (set_bit_at b i) = insert i (bitmap_used b)"
    using bits assms(2) by (auto simp: bitmap_used_def)
qed

lemma bitmap_clear_wf:
  assumes "bitmap_wf b" and "i < b_nbits b"
  shows "bitmap_wf (clear_bit_at b i)" "bitmap_used (clear_bit_at b i) = bitmap_used b - {i}"
proof -
  note lk = bitmap_wf_lookup [OF assms(1)]
  have bits: "bitmap_bit (clear_bit_at b i) j \<longleftrightarrow> j \<noteq> i \<and> bitmap_bit b j"
    if "j < 8 * length (b_v b)" for j
    using lk [OF assms(2)] that by (intro bitmap_bit_clear) auto
  show "bitmap_wf (clear_bit_at b i)"
    using assms bits by (auto simp: bitmap_wf_def)
  have "j < 8 * length (b_v b)" if "j < b_nbits b" for j
    using lk [OF that] by auto
  then show "bitmap_used (clear_bit_at b i) = bitmap_used b - {i}"
    using bits assms(2) by (auto simp: bitmap_used_def)
qed

subsection \<open>Behaviour of the operations\<close>

lemma word_full_iff:
  "b_v b ! ix = WORD_ALLBITS \<longleftrightarrow> (\<forall>i. ix * 8 \<le> i \<and> i < Suc ix * 8 \<longrightarrow> bitmap_bit b i)"
proof -
  have "(\<forall>i. ix * 8 \<le> i \<and> i < Suc ix * 8 \<longrightarrow> bitmap_bit b i) \<longleftrightarrow>
      (\<forall>n<8. bitmap_bit b (ix * 8 + n))"
    by (auto simp: le_iff_add)
  also have "\<dots> \<longleftrightarrow> (\<forall>n<8. bit (b_v b ! ix) n)"
    by (simp add: bitmap_bit_def)
  finally show ?thesis by (simp add: all_bits_iff)
qed

lemma bitmap_alloc_from_spec:
  assumes "bitmap_wf b" and "maxix = length (b_v b)"
    and "\<forall>j. j < ix * 8 \<longrightarrow> j < 8 * maxix \<longrightarrow> bitmap_bit b j"
  shows "(\<exists>i. bitmap_alloc_from b maxix ix = Some (Inr i, set_bit_at b i) \<and> i < b_nbits b \<and>
             \<not> bitmap_bit b i \<and> (\<forall>j<i. bitmap_bit b j)) \<or>
         (bitmap_alloc_from b maxix ix = Some (Inl ENOSPC, b) \<and>
             (\<forall>j < 8 * maxix. bitmap_bit b j))"
  using assms
proof (induction b maxix ix rule: bitmap_alloc_from.induct)
  case (1 b maxix ix)
  show ?case
  proof (cases "ix < maxix")
    case False
    with "1.prems"(3) show ?thesis
      by (auto simp: bitmap_alloc_from.simps [of b maxix ix])
  next
    case ix: True
    show ?thesis
    proof (cases "b_v b ! ix = WORD_ALLBITS")
      case True
      have full: "\<forall>j. j < Suc ix * 8 \<longrightarrow> j < 8 * maxix \<longrightarrow> bitmap_bit b j"
        using "1.prems"(3) True unfolding word_full_iff by (metis not_less)
      have "bitmap_alloc_from b maxix ix = bitmap_alloc_from b maxix (Suc ix)"
        using ix True "1.prems"(2) by (subst bitmap_alloc_from.simps) simp
      moreover note "1.IH" [OF ix _ _ "1.prems"(1,2) full, of "b_v b ! ix"]
      ultimately show ?thesis
        using ix True "1.prems"(2) by simp
    next
      case False
      then have "\<exists>n. 0 \<le> n \<and> n < 8 \<and> \<not> bit (b_v b ! ix) n"
        by (auto simp: all_bits_iff)
      from alloc_offset_first [OF this] obtain n where
        n: "alloc_offset (b_v b ! ix) 0 = Some n" "n < 8" "\<not> bit (b_v b ! ix) n"
          "\<forall>m<n. bit (b_v b ! ix) m" by auto
      let ?i = "ix * 8 + n"
      have i: "?i div 8 = ix" "?i mod 8 = n" using n(2) by auto
      have free: "\<not> bitmap_bit b ?i" using n(2,3) by (simp add: bitmap_bit_def)
      have "?i < 8 * length (b_v b)" using ix n(2) "1.prems"(2) by simp
      with free "1.prems"(1) have lt: "?i < b_nbits b"
        unfolding bitmap_wf_def by (meson not_le)
      have below: "bitmap_bit b j" if "j < ?i" for j
      proof (cases "j < ix * 8")
        case True
        with ix "1.prems"(3) show ?thesis by simp
      next
        case False
        with that obtain m where "j = ix * 8 + m" "m < n"
          by (metis add_less_cancel_left le_iff_add not_less)
        with n(2,4) show ?thesis by (simp add: bitmap_bit_def)
      qed
      have "bitmap_alloc_from b maxix ix = Some (Inr ?i, set_bit_at b ?i)"
        using ix False "1.prems"(2) n(1,2) lt i
        by (subst bitmap_alloc_from.simps) (simp add: BITS_PER_WORD_def)
      with lt free below show ?thesis by blast
    qed
  qed
qed

lemma bitmap_alloc_cases:
  assumes "bitmap_wf b"
  obtains (ok) i where "bitmap_alloc b = Some (Inr i, set_bit_at b i)" "i < b_nbits b"
      "\<not> bitmap_bit b i" "\<And>j. j < i \<Longrightarrow> bitmap_bit b j"
    | (full) "bitmap_alloc b = Some (Inl ENOSPC, b)" "bitmap_used b = {..<b_nbits b}"
proof -
  note spec = bitmap_alloc_from_spec [OF assms refl, of 0, simplified]
  have alloc: "bitmap_alloc b = bitmap_alloc_from b (length (b_v b)) 0"
    by (simp add: bitmap_alloc_def bitmap_maxix [OF assms])
  have lt: "j < 8 * length (b_v b)" if "j < b_nbits b" for j
    using bitmap_wf_lookup [OF assms that] by auto
  from spec show thesis
  proof
    assume "\<exists>i. bitmap_alloc_from b (length (b_v b)) 0 = Some (Inr i, set_bit_at b i) \<and>
        i < b_nbits b \<and> \<not> bitmap_bit b i \<and> (\<forall>j<i. bitmap_bit b j)"
    with alloc that(1) show thesis by auto
  next
    assume "bitmap_alloc_from b (length (b_v b)) 0 = Some (Inl ENOSPC, b) \<and>
        (\<forall>j < 8 * length (b_v b). bitmap_bit b j)"
    with alloc lt that(2) show thesis by (auto simp: bitmap_used_def)
  qed
qed

lemma bitmap_translate_eq: "bitmap_translate i = (i div 8, bit_mask (i mod 8))"
  by (simp add: bitmap_translate_def BITS_PER_WORD_def Let_def)

lemma bitmap_mark_eq:
  assumes "bitmap_wf b"
  shows "bitmap_mark b i =
    (if i < b_nbits b \<and> i \<notin> bitmap_used b then Some (set_bit_at b i) else None)"
  using bitmap_wf_lookup [OF assms, of i]
  by (auto simp: bitmap_mark_def bitmap_translate_eq bitmap_used_def bitmap_bit_def kassert_def)

lemma bitmap_unmark_eq:
  assumes "bitmap_wf b"
  shows "bitmap_unmark b i = (if i \<in> bitmap_used b then Some (clear_bit_at b i) else None)"
  using bitmap_wf_lookup [OF assms, of i]
  by (auto simp: bitmap_unmark_def bitmap_translate_eq bitmap_used_def bitmap_bit_def kassert_def)

lemma bitmap_isset_eq:
  assumes "bitmap_wf b" and "i < b_nbits b"
  shows "\<exists>w. bitmap_isset b i = Some w \<and> (w \<noteq> 0 \<longleftrightarrow> i \<in> bitmap_used b)"
  using bitmap_wf_lookup [OF assms] assms(2)
  by (auto simp: bitmap_isset_def bitmap_translate_eq bitmap_used_def bitmap_bit_def)

lemma words_for_bits: "(n + 7) div 8 = (if n mod 8 = 0 then n div 8 else Suc (n div 8))"
  for n :: nat
proof -
  have "n = 8 * (n div 8) + n mod 8" "n mod 8 < 8" by simp_all
  moreover have "(8 * q + r + 7) div 8 = (if r = 0 then q else Suc q)" if "r < 8" for q r :: nat
    using that by (auto simp: div_nat_eqI)
  ultimately show ?thesis by metis
qed

lemma DIVROUNDUP_8: "n + 7 < 2 ^ 32 \<Longrightarrow> DIVROUNDUP n 8 = (n + 7) div 8"
  by (simp add: DIVROUNDUP_def add.commute)

lemma bitmap_create_bits:
  assumes "nbits + 7 < 2 ^ 32"
  obtains b where "bitmap_create True True nbits = Some (Some b)" "bitmap_wf b"
    "b_nbits b = nbits" "bitmap_used b = {}"
proof (cases "nbits mod 8 = 0")
  case True
  then have words: "DIVROUNDUP nbits 8 = nbits div 8"
    using DIVROUNDUP_8 [OF assms] by (simp add: words_for_bits)
  let ?b = "\<lparr>b_nbits = nbits, b_v = replicate (nbits div 8) 0\<rparr>"
  have "bitmap_create True True nbits = Some (Some ?b)"
    by (simp add: bitmap_create_def BITS_PER_WORD_def words)
  moreover have "bitmap_wf ?b"
  proof -
    have "8 * (nbits div 8) = nbits" using True by auto
    with assms True show ?thesis by (simp add: bitmap_wf_def words_for_bits)
  qed
  moreover have "bitmap_used ?b = {}"
    using True by (auto simp: bitmap_used_def bitmap_bit_def)
  ultimately show thesis by (intro that) auto
next
  case False
  then have words: "DIVROUNDUP nbits 8 = Suc (nbits div 8)"
    using DIVROUNDUP_8 [OF assms] by (simp add: words_for_bits)
  have over: "sub32 nbits (wrap32 (nbits div 8 * 8)) = nbits mod 8"
  proof -
    have "nbits div 8 * 8 \<le> nbits" "nbits < 2 ^ 32" using assms by auto
    then show ?thesis by (simp add: sub32_le) (metis minus_div_mult_eq_mod)
  qed
  let ?k = "nbits div 8"
  let ?b = "\<lparr>b_nbits = nbits,
      b_v = (replicate (Suc ?k) 0)[?k := mark_leftover (nbits mod 8) 0]\<rparr>"
  have "bitmap_create True True nbits = Some (Some ?b)"
    using False by (simp add: bitmap_create_def BITS_PER_WORD_def words over Let_def
        del: replicate_Suc)
  moreover have bits: "bitmap_bit ?b i \<longleftrightarrow> nbits \<le> i" if "i < 8 * Suc ?k" for i
  proof (cases "i div 8 = ?k")
    case True
    moreover have "i = 8 * (i div 8) + i mod 8" "nbits = 8 * ?k + nbits mod 8"
      by simp_all
    ultimately have "nbits mod 8 \<le> i mod 8 \<longleftrightarrow> nbits \<le> i" by linarith
    with True show ?thesis
      by (simp add: bitmap_bit_def bit_mark_leftover del: replicate_Suc)
  next
    case False
    with that have "i div 8 < ?k" by auto
    then show ?thesis by (auto simp: bitmap_bit_def simp del: replicate_Suc)
  qed
  have "bitmap_wf ?b"
    using assms bits False by (auto simp: bitmap_wf_def words_for_bits simp del: replicate_Suc)
  moreover have "bitmap_used ?b = {}"
    using bits by (auto simp: bitmap_used_def simp del: replicate_Suc)
  ultimately show thesis by (intro that) auto
qed

subsection \<open>The contract of an index allocator\<close>

text \<open>
  What a storage manager relies on. \<open>used\<close> is the set of indices in use, \<open>alloc\<close> takes a
  free one out or fails with \<open>ENOSPC\<close>, \<open>free\<close> puts one back and panics on an index that is
  not in use.
\<close>

locale index_allocator =
  fixes wf :: "'s \<Rightarrow> bool"
    and capacity :: "'s \<Rightarrow> nat"
    and used :: "'s \<Rightarrow> nat set"
    and alloc :: "'s \<Rightarrow> (nat kresult \<times> 's) option"
    and free :: "'s \<Rightarrow> nat \<Rightarrow> 's option"
  assumes used_bound: "wf s \<Longrightarrow> used s \<subseteq> {..<capacity s}"
    and alloc_fresh: "wf s \<Longrightarrow> used s \<noteq> {..<capacity s} \<Longrightarrow>
      \<exists>i s'. alloc s = Some (Inr i, s') \<and> i < capacity s \<and> i \<notin> used s \<and> wf s' \<and>
        capacity s' = capacity s \<and> used s' = insert i (used s)"
    and alloc_full: "wf s \<Longrightarrow> used s = {..<capacity s} \<Longrightarrow> alloc s = Some (Inl ENOSPC, s)"
    and free_used: "wf s \<Longrightarrow> i \<in> used s \<Longrightarrow>
      \<exists>s'. free s i = Some s' \<and> wf s' \<and> capacity s' = capacity s \<and> used s' = used s - {i}"
    and free_unused: "wf s \<Longrightarrow> i \<notin> used s \<Longrightarrow> free s i = None"

text \<open>Taking \<open>n\<close> indices one after the other, as a client that allocates \<open>n\<close> blocks does.\<close>

fun alloc_many :: "('s \<Rightarrow> (nat kresult \<times> 's) option) \<Rightarrow> nat \<Rightarrow> 's \<Rightarrow> (nat list \<times> 's) option" where
  "alloc_many al 0 s = Some ([], s)"
| "alloc_many al (Suc n) s =
     (case al s of
        Some (Inr i, s') \<Rightarrow>
          (case alloc_many al n s' of
             Some (js, s'') \<Rightarrow> Some (i # js, s'')
           | None \<Rightarrow> None)
      | _ \<Rightarrow> None)"

context index_allocator
begin

lemma used_finite: "wf s \<Longrightarrow> finite (used s)"
  using used_bound finite_subset by blast

lemma alloc_many_distinct:
  assumes "wf s" and "card (used s) + n \<le> capacity s"
  shows "\<exists>js s'. alloc_many alloc n s = Some (js, s') \<and> length js = n \<and> distinct js \<and>
    set js \<inter> used s = {} \<and> set js \<subseteq> {..<capacity s} \<and> wf s' \<and> used s' = used s \<union> set js"
  using assms
proof (induction n arbitrary: s)
  case 0
  then show ?case by simp
next
  case (Suc n)
  from Suc.prems(2) have "card (used s) \<noteq> card {..<capacity s}" by simp
  then have "used s \<noteq> {..<capacity s}" by (rule contrapos_nn) (rule arg_cong)
  from alloc_fresh [OF Suc.prems(1) this] obtain i s1 where
    i: "alloc s = Some (Inr i, s1)" "i < capacity s" "i \<notin> used s" "wf s1"
      "capacity s1 = capacity s" "used s1 = insert i (used s)" by blast
  have "card (used s1) + n \<le> capacity s1"
    using i Suc.prems used_finite [OF Suc.prems(1)] by simp
  from Suc.IH [OF i(4) this] obtain js s2 where
    js: "alloc_many alloc n s1 = Some (js, s2)" "length js = n" "distinct js"
      "set js \<inter> used s1 = {}" "set js \<subseteq> {..<capacity s1}" "wf s2" "used s2 = used s1 \<union> set js"
    by (elim exE conjE)
  have "alloc_many alloc (Suc n) s = Some (i # js, s2)" using i(1) js(1) by simp
  then show ?case
    using i js by (intro exI [of _ "i # js"] exI [of _ s2]) auto
qed

lemma free_alloc:
  assumes "wf s" and "i \<in> used s"
  shows "\<exists>s' j s''. free s i = Some s' \<and> alloc s' = Some (Inr j, s'') \<and> j \<notin> used s - {i}"
proof -
  from free_used [OF assms] obtain s' where s': "free s i = Some s'" "wf s'"
    "capacity s' = capacity s" "used s' = used s - {i}" by blast
  have "i \<in> {..<capacity s'}" "i \<notin> used s'"
    using s'(3,4) assms(2) used_bound [OF assms(1)] by auto
  then have "used s' \<noteq> {..<capacity s'}" by metis
  from alloc_fresh [OF s'(2) this] s' show ?thesis by auto
qed

end

interpretation bm: index_allocator bitmap_wf b_nbits bitmap_used bitmap_alloc bitmap_unmark
proof
  fix s :: bitmap and i
  assume wf: "bitmap_wf s"
  show "bitmap_used s \<subseteq> {..<b_nbits s}" by (auto simp: bitmap_used_def)
  show "\<exists>i s'. bitmap_alloc s = Some (Inr i, s') \<and> i < b_nbits s \<and> i \<notin> bitmap_used s \<and>
      bitmap_wf s' \<and> b_nbits s' = b_nbits s \<and> bitmap_used s' = insert i (bitmap_used s)"
    if "bitmap_used s \<noteq> {..<b_nbits s}"
    using wf
  proof (cases rule: bitmap_alloc_cases)
    case (ok i)
    with bitmap_set_wf [OF wf] show ?thesis by (simp add: bitmap_used_def)
  qed (use that in simp)
  show "bitmap_alloc s = Some (Inl ENOSPC, s)" if "bitmap_used s = {..<b_nbits s}"
    using wf
  proof (cases rule: bitmap_alloc_cases)
    case (ok i)
    with that show ?thesis by (auto simp: bitmap_used_def)
  qed
  show "\<exists>s'. bitmap_unmark s i = Some s' \<and> bitmap_wf s' \<and> b_nbits s' = b_nbits s \<and>
      bitmap_used s' = bitmap_used s - {i}" if "i \<in> bitmap_used s"
    using that bitmap_clear_wf [OF wf] by (simp add: bitmap_unmark_eq [OF wf] bitmap_used_def)
  show "bitmap_unmark s i = None" if "i \<notin> bitmap_used s"
    using that by (simp add: bitmap_unmark_eq [OF wf])
qed

subsection \<open>Properties\<close>

text \<open>
  \<open>bitmap_alloc\<close> on a well-formed bitmap never fails an assertion and either hands back
  the lowest clear index, sets exactly that bit and keeps the bitmap well-formed, or returns
  \<open>ENOSPC\<close> with the bitmap unchanged, and then every index is in use.
\<close>

lemma bitmap_alloc_lowest:
  assumes "bitmap_wf b"
  shows "(\<exists>i b'. bitmap_alloc b = Some (Inr i, b') \<and> i < b_nbits b \<and> i \<notin> bitmap_used b \<and>
            {..<i} \<subseteq> bitmap_used b \<and> bitmap_wf b' \<and> b_nbits b' = b_nbits b \<and>
            bitmap_used b' = insert i (bitmap_used b)) \<or>
         (bitmap_alloc b = Some (Inl ENOSPC, b) \<and> bitmap_used b = {..<b_nbits b})"
  using assms
proof (cases rule: bitmap_alloc_cases)
  case (ok i)
  with bitmap_set_wf [OF assms] show ?thesis
    by (auto simp: bitmap_used_def)
qed simp

definition bitmap_ex :: bitmap where
  "bitmap_ex = \<lparr>b_nbits = 5, b_v = [0xeb]\<rparr>"

lemma bitmap_ex_wf: "bitmap_wf bitmap_ex"
proof -
  have "bitmap_bit bitmap_ex i" if "5 \<le> i" "i < 8" for i
  proof -
    from that consider "i = 5" | "i = 6" | "i = 7" by linarith
    then show ?thesis by cases (simp_all add: bitmap_bit_def bitmap_ex_def)
  qed
  then show ?thesis by (simp add: bitmap_wf_def) (simp add: bitmap_ex_def)
qed

lemma bitmap_ex_used: "bitmap_used bitmap_ex = {0, 1, 3}"
proof -
  have "bitmap_bit bitmap_ex 0" "bitmap_bit bitmap_ex 1" "\<not> bitmap_bit bitmap_ex 2"
    "bitmap_bit bitmap_ex 3" "\<not> bitmap_bit bitmap_ex 4"
    by (simp_all add: bitmap_bit_def bitmap_ex_def)
  moreover have "i < 5 \<longleftrightarrow> i = 0 \<or> i = 1 \<or> i = 2 \<or> i = 3 \<or> i = 4" for i :: nat
    by linarith
  moreover have "b_nbits bitmap_ex = 5" by (simp add: bitmap_ex_def)
  ultimately show ?thesis unfolding bitmap_used_def by auto
qed

text \<open>
  A bitmap of up to \<open>2 ^ 32 - 8\<close> bits, when both allocations succeed, is created
  well-formed with every index free; when one fails the result is \<open>NULL\<close> and nothing panics.
\<close>

lemma bitmap_create_empty:
  assumes "nbits + 7 < 2 ^ 32"
  shows "(\<exists>b. bitmap_create True True nbits = Some (Some b) \<and> bitmap_wf b \<and>
            b_nbits b = nbits \<and> bitmap_used b = {}) \<and>
         (\<forall>m1 m2. \<not> (m1 \<and> m2) \<longrightarrow> bitmap_create m1 m2 nbits = Some None)"
proof -
  obtain b where "bitmap_create True True nbits = Some (Some b)" "bitmap_wf b"
      "b_nbits b = nbits" "bitmap_used b = {}"
    using assms by (rule bitmap_create_bits)
  then show ?thesis by (auto simp: bitmap_create_def Let_def)
qed

text \<open>
  \<open>bitmap_mark\<close>, \<open>bitmap_unmark\<close> and \<open>bitmap_isset\<close> act on the set of indices in use as
  insertion, deletion and membership; marking an index in use, unmarking a free one and any
  index out of range fail an assertion.
\<close>

lemma bitmap_mark_unmark_isset:
  assumes "bitmap_wf b"
  shows "(\<forall>i. i < b_nbits b \<and> i \<notin> bitmap_used b \<longrightarrow>
            (\<exists>b'. bitmap_mark b i = Some b' \<and> bitmap_wf b' \<and>
               bitmap_used b' = insert i (bitmap_used b))) \<and>
         (\<forall>i. i \<in> bitmap_used b \<longrightarrow>
            (\<exists>b'. bitmap_unmark b i = Some b' \<and> bitmap_wf b' \<and>
               bitmap_used b' = bitmap_used b - {i})) \<and>
         (\<forall>i. i \<ge> b_nbits b \<or> i \<in> bitmap_used b \<longrightarrow> bitmap_mark b i = None) \<and>
         (\<forall>i. i \<notin> bitmap_used b \<longrightarrow> bitmap_unmark b i = None) \<and>
         (\<forall>i < b_nbits b. \<exists>w. bitmap_isset b i = Some w \<and> (w \<noteq> 0 \<longleftrightarrow> i \<in> bitmap_used b))"
proof (intro conjI allI impI)
  fix i
  show "\<exists>b'. bitmap_mark b i = Some b' \<and> bitmap_wf b' \<and> bitmap_used b' = insert i (bitmap_used b)"
    if "i < b_nbits b \<and> i \<notin> bitmap_used b"
    using that bitmap_set_wf [OF assms] by (simp add: bitmap_mark_eq [OF assms])
  show "\<exists>b'. bitmap_unmark b i = Some b' \<and> bitmap_wf b' \<and> bitmap_used b' = bitmap_used b - {i}"
    if "i \<in> bitmap_used b"
    using bm.free_used [OF assms that] by blast
  show "bitmap_mark b i = None" if "b_nbits b \<le> i \<or> i \<in> bitmap_used b"
    using that by (auto simp: bitmap_mark_eq [OF assms])
  show "bitmap_unmark b i = None" if "i \<notin> bitmap_used b"
    using assms that by (rule bm.free_unused)
  show "\<exists>w. bitmap_isset b i = Some w \<and> (w \<noteq> 0 \<longleftrightarrow> i \<in> bitmap_used b)" if "i < b_nbits b"
    using assms that by (rule bitmap_isset_eq)
qed

text \<open>
  Taking \<open>n\<close> indices out of a bitmap with at least \<open>n\<close> clear bits succeeds \<open>n\<close> times
  and the indices are distinct and were all free: no block is ever handed out twice.
\<close>

lemma bitmap_alloc_many_distinct:
  assumes "bitmap_wf b" and "card (bitmap_used b) + n \<le> b_nbits b"
  shows "\<exists>js b'. alloc_many bitmap_alloc n b = Some (js, b') \<and> length js = n \<and> distinct js \<and>
    set js \<inter> bitmap_used b = {} \<and> set js \<subseteq> {..<b_nbits b} \<and> bitmap_wf b' \<and>
    bitmap_used b' = bitmap_used b \<union> set js"
  using assms by (rule bm.alloc_many_distinct)

end
