(* ===== verification/Kern_Array.thy ===== *)
theory Kern_Array
  imports OS161_Prelude
begin

section \<open>Resizable arrays: \<open>kern/lib/array.c\<close> and \<open>kern/include/array.h\<close>\<close>

text \<open>
  The array of pointers the kernel uses for the threads of a process, the known devices and
  the vnodes of a file system. \<open>a_v\<close> is the block of storage, of which the first \<open>a_num\<close>
  cells are in use. The abstraction is the list of those cells; the locale \<open>dynarray\<close> is the
  contract the clients rely on.
\<close>

subsection \<open>The code\<close>

record 'a array =
  a_v :: "'a list"
  a_num :: nat
  a_max :: nat

definition array_init :: "'a array" where
  "array_init = \<lparr>a_v = [], a_num = 0, a_max = 0\<rparr>"

definition array_create :: "bool \<Rightarrow> 'a array option" where
  "array_create mem = (if mem then Some array_init else None)"

definition array_cleanup :: "'a array \<Rightarrow> 'a array option" where
  "array_cleanup a = do {
     kassert (a_num a = 0);
     Some (a\<lparr>a_v := []\<rparr>)
   }"

definition array_num :: "'a array \<Rightarrow> nat" where
  "array_num a = a_num a"

definition array_get :: "'a array \<Rightarrow> nat \<Rightarrow> 'a option" where
  "array_get a index = do {
     kassert (index < a_num a);
     slot_get (a_v a) index
   }"

definition array_set :: "'a array \<Rightarrow> nat \<Rightarrow> 'a \<Rightarrow> 'a array option" where
  "array_set a index val = do {
     kassert (index < a_num a);
     v' \<leftarrow> slot_set (a_v a) index val;
     Some (a\<lparr>a_v := v'\<rparr>)
   }"

text \<open>
  The loop of \<open>array_setsize\<close> that doubles the capacity. The multiplication wraps, so the
  loop need not end; a run that does not end is \<open>None\<close>.
\<close>

partial_function (option) grow_max :: "nat \<Rightarrow> nat \<Rightarrow> nat option" where
  "grow_max num newmax =
     (if num > newmax
      then grow_max num (if newmax \<noteq> 0 then wrap32 (newmax * 2) else 4)
      else Some newmax)"

text \<open>Pointers are 4 bytes; the size passed to \<open>kmalloc\<close> wraps too.\<close>

definition array_setsize :: "'a kmem \<Rightarrow> 'a array \<Rightarrow> nat \<Rightarrow> (unit kresult \<times> 'a array) option" where
  "array_setsize mem a num =
     (if num > a_max a then
        do {
          newmax \<leftarrow> grow_max num (a_max a);
          (case mem of
             None \<Rightarrow> Some (Inl ENOMEM, a)
           | Some junk \<Rightarrow>
               do {
                 newptr \<leftarrow> blk_copy (kblock junk (wrap32 (newmax * 4) div 4)) (a_v a) (a_num a);
                 Some (Inr (), a\<lparr>a_v := newptr, a_max := newmax, a_num := num\<rparr>)
               })
        }
      else Some (Inr (), a\<lparr>a_num := num\<rparr>))"

definition array_add :: "'a kmem \<Rightarrow> 'a array \<Rightarrow> 'a \<Rightarrow> (nat kresult \<times> 'a array) option" where
  "array_add mem a val = do {
     let index = a_num a;
     (ret, a') \<leftarrow> array_setsize mem a (wrap32 (index + 1));
     (case ret of
        Inl e \<Rightarrow> Some (Inl e, a')
      | Inr _ \<Rightarrow> do {
          v' \<leftarrow> slot_set (a_v a') index val;
          Some (Inr index, a'\<lparr>a_v := v'\<rparr>)
        })
   }"

definition array_remove :: "'a array \<Rightarrow> nat \<Rightarrow> 'a array option" where
  "array_remove a index = do {
     kassert (a_num a \<le> a_max a);
     kassert (index < a_num a);
     let num_to_move = a_num a - (index + 1);
     v' \<leftarrow> blk_move (a_v a) index (index + 1) num_to_move;
     Some (a\<lparr>a_v := v', a_num := a_num a - 1\<rparr>)
   }"

subsection \<open>The growth loop\<close>

lemma grow_max_step:
  "num > newmax \<Longrightarrow>
   grow_max num newmax = grow_max num (if newmax \<noteq> 0 then wrap32 (newmax * 2) else 4)"
  "num \<le> newmax \<Longrightarrow> grow_max num newmax = Some newmax"
  by (subst grow_max.simps, simp)+

lemma grow_max_doubles:
  assumes "0 < newmax" and "num \<le> 2 ^ 31" and "newmax < 2 ^ 32"
  shows "\<exists>m. grow_max num newmax = Some m \<and> num \<le> m \<and> newmax \<le> m \<and> (m = newmax \<or> m < 2 * num)"
  using assms
proof (induction "num - newmax" arbitrary: newmax rule: less_induct)
  case less
  show ?case
  proof (cases "newmax < num")
    case True
    with less.prems have wrap: "wrap32 (newmax * 2) = newmax * 2" by simp
    from True less.prems have "num - newmax * 2 < num - newmax" "0 < newmax * 2" "newmax * 2 < 2 ^ 32"
      by auto
    from less.hyps [OF this(1,2) less.prems(2) this(3)]
    obtain m where m: "grow_max num (newmax * 2) = Some m" "num \<le> m"
        "newmax * 2 \<le> m" "m = newmax * 2 \<or> m < 2 * num"
      by blast
    have "grow_max num newmax = Some m"
      using True less.prems(1) wrap m(1) by (simp add: grow_max_step(1))
    with m True show ?thesis by auto
  next
    case False
    with less.prems show ?thesis by (simp add: grow_max_step(2))
  qed
qed

lemma grow_max_bound:
  assumes "num \<le> 2 ^ 31" and "newmax < 2 ^ 32"
  shows "\<exists>m. grow_max num newmax = Some m \<and> num \<le> m \<and> newmax \<le> m \<and> m \<le> max newmax (max 4 (2 * num - 1))"
proof (cases "newmax = 0")
  case False
  with grow_max_doubles [of newmax num] assms show ?thesis by fastforce
next
  case True
  show ?thesis
  proof (cases "num = 0")
    case False
    with True have "grow_max num newmax = grow_max num 4" by (simp add: grow_max_step(1))
    with True grow_max_doubles [of 4 num] assms show ?thesis by fastforce
  qed (simp add: True grow_max_step(2))
qed

text \<open>Every capacity the loop reaches from an empty array is 0 or a power of two up to \<open>2 ^ 31\<close>.\<close>

definition pow2_cap :: "nat \<Rightarrow> bool" where
  "pow2_cap m \<longleftrightarrow> m = 0 \<or> (\<exists>k \<le> 31. m = 2 ^ k)"

lemma pow2_cap_double:
  assumes "pow2_cap m"
  shows "pow2_cap (if m \<noteq> 0 then wrap32 (m * 2) else 4)"
proof (cases "m = 0")
  case True
  then show ?thesis by (auto simp: pow2_cap_def intro: exI [of _ 2])
next
  case False
  with assms obtain k where k: "k \<le> 31" "m = 2 ^ k" by (auto simp: pow2_cap_def)
  show ?thesis
  proof (cases "k = 31")
    case True
    with k show ?thesis by (simp add: pow2_cap_def wrap32_def)
  next
    case False
    with k have "Suc k \<le> 31" by simp
    then have "(2::nat) ^ Suc k \<le> 2 ^ 31" by (rule power_increasing) simp
    with k have "wrap32 (m * 2) = 2 ^ Suc k" by (simp add: mult.commute)
    with \<open>Suc k \<le> 31\<close> \<open>m \<noteq> 0\<close> show ?thesis
      unfolding pow2_cap_def by (simp only: if_True not_False_eq_True) blast
  qed
qed

lemma pow2_cap_le: "pow2_cap m \<Longrightarrow> m \<le> 2 ^ 31"
  by (auto simp: pow2_cap_def intro: power_increasing [of _ 31 "2::nat", simplified])

lemma grow_max_stuck:
  assumes "grow_max num newmax = Some m"
  shows "\<not> (2 ^ 31 < num \<and> pow2_cap newmax)"
proof (rule grow_max.raw_induct [OF _ assms])
  fix gm num newmax m
  assume IH: "\<And>num newmax m. gm num newmax = Some m \<Longrightarrow> \<not> (2 ^ 31 < num \<and> pow2_cap newmax)"
    and run: "(if newmax < num then gm num (if newmax \<noteq> 0 then wrap32 (newmax * 2) else 4)
               else Some newmax) = Some m"
  show "\<not> (2 ^ 31 < num \<and> pow2_cap newmax)"
  proof
    assume cap: "2 ^ 31 < num \<and> pow2_cap newmax"
    then have "newmax < num" using pow2_cap_le [of newmax] by linarith
    with run have "gm num (if newmax \<noteq> 0 then wrap32 (newmax * 2) else 4) = Some m" by simp
    from IH [OF this] cap pow2_cap_double [of newmax] show False by blast
  qed
qed

subsection \<open>Invariant and refinement to lists\<close>

definition array_inv :: "'a array \<Rightarrow> bool" where
  "array_inv a \<longleftrightarrow> a_num a \<le> a_max a \<and> a_max a = length (a_v a) \<and> a_max a < 2 ^ 30"

definition array_elems :: "'a array \<Rightarrow> 'a list" where
  "array_elems a = take (a_num a) (a_v a)"

lemma length_array_elems: "array_inv a \<Longrightarrow> length (array_elems a) = a_num a"
  by (simp add: array_elems_def array_inv_def)

lemma array_init_inv: "array_inv array_init" "array_elems array_init = []"
  by (simp_all add: array_inv_def array_elems_def array_init_def)

lemma array_get_elems:
  "array_inv a \<Longrightarrow> array_get a i = (if i < a_num a then Some (array_elems a ! i) else None)"
  by (simp add: array_get_def array_inv_def array_elems_def kassert_def slot_get_def)

lemma array_set_elems:
  "array_inv a \<Longrightarrow> i < a_num a \<Longrightarrow>
   \<exists>a'. array_set a i x = Some a' \<and> array_inv a' \<and> array_elems a' = (array_elems a)[i := x]"
  by (simp add: array_set_def array_inv_def array_elems_def kassert_def slot_set_def
      take_update_swap)

lemma array_setsize_elems:
  assumes inv: "array_inv a" and num: "num \<le> 2 ^ 29"
  shows "(mem = None \<and> a_max a < num \<and> array_setsize mem a num = Some (Inl ENOMEM, a)) \<or>
         (\<exists>a'. array_setsize mem a num = Some (Inr (), a') \<and> array_inv a' \<and> a_num a' = num \<and>
               take (min num (a_num a)) (array_elems a') = take num (array_elems a))"
proof (cases "a_max a < num")
  case False
  with inv show ?thesis
    by (auto simp: array_setsize_def array_inv_def array_elems_def min.commute)
next
  case True
  from inv num grow_max_bound [of num "a_max a"] obtain m where
    m: "grow_max num (a_max a) = Some m" "num \<le> m" "m \<le> max (a_max a) (max 4 (2 * num - 1))"
    by (auto simp: array_inv_def)
  with inv num True have small: "m < 2 ^ 30" and n: "a_num a \<le> m" "a_num a \<le> length (a_v a)"
    by (auto simp: array_inv_def)
  have cells: "wrap32 (m * 4) div 4 = m" using small by simp
  show ?thesis
  proof (cases mem)
    case None
    with True m(1) show ?thesis by (simp add: array_setsize_def)
  next
    case (Some junk)
    with True m(1,2) small n inv show ?thesis
      by (simp add: array_setsize_def cells blk_copy_def array_inv_def array_elems_def)
  qed
qed

lemma array_add_elems:
  assumes inv: "array_inv a" and num: "a_num a < 2 ^ 29"
  shows "(mem = None \<and> a_num a = a_max a \<and> array_add mem a x = Some (Inl ENOMEM, a)) \<or>
         (\<exists>a'. array_add mem a x = Some (Inr (a_num a), a') \<and> array_inv a' \<and>
               array_elems a' = array_elems a @ [x])"
proof -
  have w: "wrap32 (a_num a + 1) = a_num a + 1" using num by simp
  have "a_num a + 1 \<le> 2 ^ 29" using num by simp
  from array_setsize_elems [OF inv this, of mem] consider
    "mem = None" "a_max a < a_num a + 1" "array_setsize mem a (a_num a + 1) = Some (Inl ENOMEM, a)" |
    a' where "array_setsize mem a (a_num a + 1) = Some (Inr (), a')" "array_inv a'"
      "a_num a' = a_num a + 1" "take (min (a_num a + 1) (a_num a)) (array_elems a') =
       take (a_num a + 1) (array_elems a)"
    by blast
  then show ?thesis
  proof cases
    case 1
    with inv show ?thesis by (simp add: array_add_def w array_inv_def)
  next
    case (2 a')
    let ?b = "a'\<lparr>a_v := (a_v a')[a_num a := x]\<rparr>"
    from 2 have "a_num a < length (a_v a')" by (simp add: array_inv_def)
    with 2(1) have "array_add mem a x = Some (Inr (a_num a), ?b)"
      using w by (simp add: array_add_def Let_def slot_set_def)
    moreover have "array_inv ?b" using 2 by (simp add: array_inv_def)
    moreover have "array_elems ?b = array_elems a @ [x]"
    proof -
      have "take (a_num a) (a_v a') = array_elems a"
        using 2 inv by (simp add: array_elems_def min_def)
      with \<open>a_num a < length (a_v a')\<close> 2(3) show ?thesis
        by (simp add: array_elems_def take_Suc_conv_app_nth)
    qed
    ultimately show ?thesis by blast
  qed
qed

lemma array_remove_elems:
  assumes inv: "array_inv a" and i: "i < a_num a"
  shows "\<exists>a'. array_remove a i = Some a' \<and> array_inv a' \<and>
              array_elems a' = take i (array_elems a) @ drop (Suc i) (array_elems a)"
proof -
  from i obtain k where k: "a_num a = Suc (i + k)" using less_imp_Suc_add by blast
  with inv show ?thesis
    by (simp add: array_remove_def array_inv_def array_elems_def kassert_def blk_move_def
        take_drop add.commute)
qed

subsection \<open>The contract\<close>

text \<open>
  Clients look an element up by scanning: \<open>find_from\<close> is the loop \<open>for (i=0; i<num; i++)
  if (array_get(a, i) == x) ...\<close> of \<open>proc_remthread\<close> and \<open>sfs_reclaim\<close>.
\<close>

function find_from :: "('ar \<Rightarrow> nat \<Rightarrow> 'a option) \<Rightarrow> 'ar \<Rightarrow> 'a \<Rightarrow> nat \<Rightarrow> nat \<Rightarrow> nat option option" where
  "find_from get a x num i =
     (if i < num
      then do {
        y \<leftarrow> get a i;
        (if y = x then Some (Some i) else find_from get a x num (Suc i))
      }
      else Some None)"
  by pat_completeness auto
termination by (relation "measure (\<lambda>(get, a, x, num, i). num - i)") auto

declare find_from.simps [simp del]

lemma takeWhile_remove1:
  "x \<in> set xs \<Longrightarrow> length (takeWhile (\<lambda>y. y \<noteq> x) xs) < length xs \<and>
     take (length (takeWhile (\<lambda>y. y \<noteq> x) xs)) xs @ drop (Suc (length (takeWhile (\<lambda>y. y \<noteq> x) xs))) xs
       = remove1 x xs"
  by (induction xs) auto

locale dynarray =
  fixes inv :: "'ar \<Rightarrow> bool"
    and elems :: "'ar \<Rightarrow> 'a list"
    and num :: "'ar \<Rightarrow> nat"
    and get :: "'ar \<Rightarrow> nat \<Rightarrow> 'a option"
    and add :: "'ar \<Rightarrow> 'a \<Rightarrow> (nat kresult \<times> 'ar) option"
    and remove :: "'ar \<Rightarrow> nat \<Rightarrow> 'ar option"
    and limit :: nat
  assumes num: "inv a \<Longrightarrow> num a = length (elems a)"
    and get: "inv a \<Longrightarrow> i < length (elems a) \<Longrightarrow> get a i = Some (elems a ! i)"
    and add: "inv a \<Longrightarrow> length (elems a) < limit \<Longrightarrow>
      add a x = Some (Inl ENOMEM, a) \<or>
      (\<exists>a'. add a x = Some (Inr (length (elems a)), a') \<and> inv a' \<and> elems a' = elems a @ [x])"
    and remove: "inv a \<Longrightarrow> i < length (elems a) \<Longrightarrow>
      \<exists>a'. remove a i = Some a' \<and> inv a' \<and> elems a' = take i (elems a) @ drop (Suc i) (elems a)"
begin

lemma find_from_tail:
  assumes "inv a" and "i \<le> length (elems a)"
  shows "find_from get a x (num a) i =
    Some (if x \<in> set (drop i (elems a))
          then Some (i + length (takeWhile (\<lambda>y. y \<noteq> x) (drop i (elems a)))) else None)"
  using assms(2)
proof (induction "length (elems a) - i" arbitrary: i)
  case 0
  then show ?case using assms(1) by (simp add: find_from.simps num)
next
  case (Suc k)
  then have i: "i < length (elems a)" by simp
  then have "drop i (elems a) = elems a ! i # drop (Suc i) (elems a)"
    by (simp add: Cons_nth_drop_Suc)
  moreover have "find_from get a x (num a) (Suc i) =
    Some (if x \<in> set (drop (Suc i) (elems a))
          then Some (Suc i + length (takeWhile (\<lambda>y. y \<noteq> x) (drop (Suc i) (elems a)))) else None)"
    using Suc i by simp
  ultimately show ?case
    using assms(1) i by (subst find_from.simps) (simp add: num get)
qed

lemma find_from_start:
  assumes "inv a"
  shows "find_from get a x (num a) 0 =
    Some (if x \<in> set (elems a) then Some (length (takeWhile (\<lambda>y. y \<noteq> x) (elems a))) else None)"
  using find_from_tail [OF assms, of 0] by simp

lemma find_remove:
  assumes "inv a" and "x \<in> set (elems a)"
  shows "\<exists>i a'. find_from get a x (num a) 0 = Some (Some i) \<and> remove a i = Some a' \<and>
                inv a' \<and> elems a' = remove1 x (elems a)"
  using find_from_start [OF assms(1), of x] takeWhile_remove1 [OF assms(2)] assms(2)
    remove [OF assms(1), of "length (takeWhile (\<lambda>y. y \<noteq> x) (elems a))"]
  by auto

lemma find_none:
  assumes "inv a" and "x \<notin> set (elems a)"
  shows "find_from get a x (num a) 0 = Some None"
  using find_from_start [OF assms(1), of x] assms(2) by simp

end

interpretation da: dynarray array_inv array_elems array_num array_get "array_add mem" array_remove "2 ^ 29"
  for mem :: "'a kmem"
proof unfold_locales
  fix a :: "'a array" and i
  assume a: "array_inv a"
  show "array_num a = length (array_elems a)"
    using a by (simp add: array_num_def length_array_elems)
  show "array_get a i = Some (array_elems a ! i)" if "i < length (array_elems a)"
    using a that by (simp add: array_get_elems length_array_elems)
  show "array_add mem a x = Some (Inl ENOMEM, a) \<or>
    (\<exists>a'. array_add mem a x = Some (Inr (length (array_elems a)), a') \<and> array_inv a' \<and>
          array_elems a' = array_elems a @ [x])" if "length (array_elems a) < 2 ^ 29" for x
    using array_add_elems [OF a, of mem x] that a by (auto simp: length_array_elems)
  show "\<exists>a'. array_remove a i = Some a' \<and> array_inv a' \<and>
    array_elems a' = take i (array_elems a) @ drop (Suc i) (array_elems a)"
    if "i < length (array_elems a)"
    using array_remove_elems [OF a, of i] that a by (simp add: length_array_elems)
qed

subsection \<open>Properties\<close>

text \<open>
  \<open>array_setsize\<close> to at most \<open>2 ^ 29\<close> elements either fails with \<open>ENOMEM\<close> and leaves the
  array as it was, which happens only when it has to grow and \<open>kmalloc\<close> gives nothing, or
  sets the number of elements, keeps the invariant (so the copy stayed within both blocks)
  and keeps every element of the common prefix.
\<close>

lemma array_setsize_keeps_prefix:
  assumes "array_inv a" and "num \<le> 2 ^ 29"
  shows "(mem = None \<and> a_max a < num \<and> array_setsize mem a num = Some (Inl ENOMEM, a)) \<or>
         (\<exists>a'. array_setsize mem a num = Some (Inr (), a') \<and> array_inv a' \<and> array_num a' = num \<and>
               (\<forall>i < min num (array_num a). array_get a' i = array_get a i))"
  using array_setsize_elems [OF assms, of mem]
proof (elim disjE exE conjE, goal_cases)
  case (2 a')
  have "array_elems a' ! i = array_elems a ! i" if "i < num" "i < a_num a" for i
    using arg_cong [OF 2(4), of "\<lambda>xs. xs ! i"] that by simp
  with 2 assms(1) show ?case by (auto simp: array_get_elems array_num_def)
qed simp

definition array_ex :: "nat array" where
  "array_ex = \<lparr>a_v = [11, 12, 13, 0], a_num = 3, a_max = 4\<rparr>"

lemma array_ex_facts: "array_inv array_ex" "array_elems array_ex = [11, 12, 13]"
  "array_num array_ex = 3" "a_max array_ex = 4"
  by (simp_all add: array_ex_def array_inv_def array_elems_def array_num_def)

text \<open>
  C36. Adding an element and later searching for it and removing it, the way \<open>proc_addthread\<close>
  and \<open>proc_remthread\<close> use an array: after a successful \<open>array_add\<close> of a fresh element the
  scan finds it, at the index \<open>array_add\<close> reported, and \<open>array_remove\<close> there restores
  exactly the previous elements in their order.
\<close>

theorem array_add_find_remove:
  assumes "array_inv a" and "array_num a < 2 ^ 29" and "x \<notin> set (array_elems a)"
    and "array_add mem a x = Some (Inr i, a')"
  shows "i = array_num a \<and> array_get a' i = Some x \<and>
         find_from array_get a' x (array_num a') 0 = Some (Some i) \<and>
         (\<exists>b. array_remove a' i = Some b \<and> array_inv b \<and> array_elems b = array_elems a)"
proof -
  have len: "length (array_elems a) = array_num a"
    using assms(1) by (simp add: da.num)
  from da.add [OF assms(1), where x = x and mem = mem] assms(2,4) len have
    a': "i = array_num a" "array_inv a'" "array_elems a' = array_elems a @ [x]"
    by auto
  have tw: "takeWhile (\<lambda>y. y \<noteq> x) (array_elems a') = array_elems a"
    using a'(3) assms(3) by (auto simp: takeWhile_append)
  from a' len tw da.get [OF a'(2), of i] da.remove [OF a'(2), of i] da.find_from_start [OF a'(2), of x]
  show ?thesis by (simp add: nth_append)
qed

theorem array_add_find_remove_witness:
  "\<exists>a' b. array_add None array_ex 99 = Some (Inr 3, a') \<and> array_get a' 3 = Some 99 \<and>
          array_remove a' 3 = Some b \<and> array_elems b = [11, 12, 13]"
proof -
  from array_add_elems [of array_ex None 99] obtain a' where
    a': "array_add None array_ex 99 = Some (Inr 3, a')"
    by (auto simp: array_ex_facts) (auto simp: array_ex_def)
  with array_add_find_remove [of array_ex 99 None 3 a'] show ?thesis
    by (auto simp: array_ex_facts)
qed

text \<open>
  C38. The growth loop does not survive its own overflow: for an array whose capacity came
  from the doubling (0 or a power of two), asking for more than \<open>2 ^ 31\<close> elements makes
  \<open>array_setsize\<close> run forever, whatever \<open>kmalloc\<close> would answer, since \<open>newmax * 2\<close> wraps to 0.
\<close>

theorem array_setsize_diverges:
  assumes "pow2_cap (a_max a)" and "2 ^ 31 < num"
  shows "array_setsize mem a num = None"
proof -
  have "a_max a < num" using pow2_cap_le [OF assms(1)] assms(2) by linarith
  moreover have "grow_max num (a_max a) = None"
    using grow_max_stuck [of num "a_max a"] assms by (cases "grow_max num (a_max a)") auto
  ultimately show ?thesis by (simp add: array_setsize_def)
qed

theorem array_setsize_diverges_witness:
  "pow2_cap (a_max array_ex) \<and> array_setsize None array_ex 3000000000 = None"
proof -
  have "pow2_cap (a_max array_ex)"
    unfolding pow2_cap_def array_ex_facts by (rule disjI2, rule exI [of _ 2]) simp
  with array_setsize_diverges [of array_ex 3000000000 None] show ?thesis by simp
qed

end
