(* ===== verification/Kern_Queue.thy ===== *)
theory Kern_Queue
  imports OS161_Prelude
begin

section \<open>Queues: \<open>kern/lib/queue.c\<close>\<close>

text \<open>
  A ring buffer that extends itself. \<open>q_addtail\<close> calls \<open>q_grow\<close> and \<open>q_grow\<close> calls
  \<open>q_addtail\<close> for every element it moves to the new buffer; the depth of that recursion is
  bounded by fuel, and the lemmas show that two levels are enough. The abstraction is the
  list of queued pointers; the locale \<open>fifo\<close> is the contract.
\<close>

subsection \<open>The code\<close>

text \<open>
  \<open>size\<close> is a signed integer taken from the caller; the two indices start at 0 and are only
  ever reduced modulo a positive size.
\<close>

record 'a queue =
  q_size :: int
  q_nextread :: nat
  q_nextwrite :: nat
  q_data :: "'a list"

definition q_empty :: "'a queue \<Rightarrow> bool" where
  "q_empty q \<longleftrightarrow> q_nextwrite q = q_nextread q"

text \<open>The loop of \<open>q_grow\<close> that doubles the size, with the assertion against wrap-around.\<close>

partial_function (option) q_newsize :: "int \<Rightarrow> int \<Rightarrow> int option" where
  "q_newsize targetsize nsize =
     (if nsize < targetsize
      then if swrap32 (nsize * 2) > 0 then q_newsize targetsize (swrap32 (nsize * 2)) else None
      else Some nsize)"

text \<open>
  The loop of \<open>q_grow\<close> that moves the elements, with \<open>add\<close> for \<open>q_addtail\<close>. Its index stays
  below the old size from the second round on, so a run of more than \<open>osize\<close> rounds never
  ends.
\<close>

fun q_moveall ::
  "('a queue \<Rightarrow> 'a \<Rightarrow> (unit kresult \<times> 'a queue) option) \<Rightarrow> 'a list \<Rightarrow> nat \<Rightarrow> nat \<Rightarrow>
   nat \<Rightarrow> nat \<Rightarrow> 'a queue \<Rightarrow> 'a queue option" where
  "q_moveall add olddata osize onw rounds i q =
     (if i = onw then Some q
      else case rounds of
        0 \<Rightarrow> None
      | Suc r \<Rightarrow> do {
          x \<leftarrow> slot_get olddata i;
          (result, q') \<leftarrow> add q x;
          kassert (result = Inr ());
          q_moveall add olddata osize onw r ((i + 1) mod osize) q'
        })"

definition q_grow ::
  "('a queue \<Rightarrow> 'a \<Rightarrow> (unit kresult \<times> 'a queue) option) \<Rightarrow> 'a kmem \<Rightarrow> 'a queue \<Rightarrow> int \<Rightarrow>
   (unit kresult \<times> 'a queue) option" where
  "q_grow add mem q targetsize = do {
     nsize \<leftarrow> q_newsize targetsize (q_size q);
     (case mem of
        None \<Rightarrow> Some (Inl ENOMEM, q)
      | Some junk \<Rightarrow> do {
          let ndata = kblock junk (wrap32 (nat nsize * 4) div 4);
          let osize = nat (q_size q);
          q' \<leftarrow> q_moveall add (q_data q) osize (q_nextwrite q) (Suc osize) (q_nextread q)
                  (q\<lparr>q_size := nsize, q_data := ndata, q_nextread := 0, q_nextwrite := 0\<rparr>);
          Some (Inr (), q')
        })
   }"

fun q_addtail ::
  "nat \<Rightarrow> 'a kmem \<Rightarrow> 'a queue \<Rightarrow> 'a \<Rightarrow> (unit kresult \<times> 'a queue) option" where
  "q_addtail 0 mem q ptr = None"
| "q_addtail (Suc depth) mem q ptr = do {
     kassert (q_size q > 0);
     let nextnext = (q_nextwrite q + 1) mod nat (q_size q);
     (result, q') \<leftarrow> (if nextnext = q_nextread q
                     then q_grow (q_addtail depth mem) mem q (q_size q + 1)
                     else Some (Inr (), q));
     (case result of
        Inl e \<Rightarrow> Some (Inl e, q')
      | Inr _ \<Rightarrow> do {
          let nextnext' = (q_nextwrite q' + 1) mod nat (q_size q');
          d' \<leftarrow> slot_set (q_data q') (q_nextwrite q') ptr;
          Some (Inr (), q'\<lparr>q_data := d', q_nextwrite := nextnext'\<rparr>)
        })
   }"

definition q_create :: "bool \<Rightarrow> 'a kmem \<Rightarrow> int \<Rightarrow> 'a queue option" where
  "q_create qmem mem sz =
     (if \<not> qmem then None
      else case mem of
        None \<Rightarrow> None
      | Some junk \<Rightarrow>
          Some \<lparr>q_size = sz, q_nextread = 0, q_nextwrite = 0,
                q_data = kblock junk (nat (sz * 4 mod 2 ^ 32) div 4)\<rparr>)"

definition q_preallocate :: "nat \<Rightarrow> 'a kmem \<Rightarrow> 'a queue \<Rightarrow> int \<Rightarrow> (unit kresult \<times> 'a queue) option" where
  "q_preallocate depth mem q sz = do {
     kassert (q_size q > 0);
     (if sz > q_size q then q_grow (q_addtail depth mem) mem q sz else Some (Inr (), q))
   }"

definition q_remhead :: "'a queue \<Rightarrow> ('a \<times> 'a queue) option" where
  "q_remhead q = do {
     kassert (q_size q > 0);
     kassert (\<not> q_empty q);
     ret \<leftarrow> slot_get (q_data q) (q_nextread q);
     Some (ret, q\<lparr>q_nextread := (q_nextread q + 1) mod nat (q_size q)\<rparr>)
   }"

text \<open>\<open>q_destroy\<close> returns nothing; \<open>None\<close> is the failed assertion.\<close>

definition q_destroy :: "'a queue \<Rightarrow> unit option" where
  "q_destroy q = kassert (q_empty q)"

definition q_getstart :: "'a queue \<Rightarrow> nat" where
  "q_getstart q = q_nextread q"

definition q_getend :: "'a queue \<Rightarrow> nat" where
  "q_getend q = q_nextwrite q"

definition q_getsize :: "'a queue \<Rightarrow> int" where
  "q_getsize q = q_size q"

definition q_getguy :: "'a queue \<Rightarrow> int \<Rightarrow> 'a option" where
  "q_getguy q index = do {
     kassert (index \<ge> 0 \<and> index < q_size q);
     slot_get (q_data q) (nat index)
   }"

text \<open>The result of \<open>q_peek\<close> is a pointer, \<open>Some None\<close> for the null pointer.\<close>

definition q_peek :: "'a queue \<Rightarrow> 'a option option" where
  "q_peek q = do {
     kassert (q_size q > 0);
     (if q_empty q then Some None
      else do {
        ret \<leftarrow> slot_get (q_data q) (q_nextread q);
        Some (Some ret)
      })
   }"

partial_function (option) q_len_from :: "'a queue \<Rightarrow> nat \<Rightarrow> int \<Rightarrow> int option" where
  "q_len_from q tmp count =
     (if tmp \<noteq> q_nextwrite q
      then if q_size q = 0 then None
           else q_len_from q ((tmp + 1) mod nat (q_size q)) (swrap32 (count + 1))
      else Some count)"

definition q_len :: "'a queue \<Rightarrow> int option" where
  "q_len q = q_len_from q (q_nextread q) 0"

declare q_moveall.simps [simp del] q_addtail.simps(2) [simp del]

subsection \<open>Invariant and abstraction\<close>

definition q_inv :: "'a queue \<Rightarrow> bool" where
  "q_inv q \<longleftrightarrow> 0 < q_size q \<and> q_size q \<le> 2 ^ 30 - 1 \<and> length (q_data q) = nat (q_size q) \<and>
     q_nextread q < nat (q_size q) \<and> q_nextwrite q < nat (q_size q)"

definition q_count :: "'a queue \<Rightarrow> nat" where
  "q_count q = (q_nextwrite q + nat (q_size q) - q_nextread q) mod nat (q_size q)"

definition q_list :: "'a queue \<Rightarrow> 'a list" where
  "q_list q = map (\<lambda>k. q_data q ! ((q_nextread q + k) mod nat (q_size q))) [0..<q_count q]"

lemma length_q_list [simp]: "length (q_list q) = q_count q"
  by (simp add: q_list_def)

lemma ring_distance:
  fixes r w n :: nat
  assumes "r < n" and "w < n"
  shows "(w + n - r) mod n < n" and "(r + (w + n - r) mod n) mod n = w"
proof -
  show "(w + n - r) mod n < n" using assms by simp
  have "(r + (w + n - r) mod n) mod n = (r + (w + n - r)) mod n" by (simp add: mod_add_right_eq)
  also have "\<dots> = w" using assms by simp
  finally show "(r + (w + n - r) mod n) mod n = w" .
qed

lemma ring_distance_unique:
  fixes r k n :: nat
  assumes "r < n" and "k < n"
  shows "((r + k) mod n + n - r) mod n = k"
proof (cases "r + k < n")
  case True
  with assms show ?thesis by simp
next
  case False
  with assms have "(r + k) mod n = r + k - n"
    by (simp add: mod_if [of "r + k"])
  with False assms show ?thesis by simp
qed

lemma ring_index_inj:
  fixes r j k n :: nat
  assumes "r < n" and "j < n" and "k < n" and "(r + j) mod n = (r + k) mod n"
  shows "j = k"
  using ring_distance_unique [OF assms(1,2)] ring_distance_unique [OF assms(1,3)]
  unfolding assms(4) by (rule box_equals [OF refl])

lemma ring_succ: "((r + k) mod n + 1) mod n = (r + Suc k) mod (n::nat)"
  by (simp add: mod_Suc_eq)

lemma q_inv_write:
  assumes "q_inv q"
  shows "q_count q < nat (q_size q)" and "q_nextwrite q = (q_nextread q + q_count q) mod nat (q_size q)"
  using ring_distance [of "q_nextread q" "nat (q_size q)" "q_nextwrite q"] assms
  by (simp_all add: q_inv_def q_count_def)

lemma q_empty_count:
  assumes inv: "q_inv q"
  shows "q_empty q \<longleftrightarrow> q_count q = 0"
proof
  assume "q_empty q"
  then show "q_count q = 0" by (simp add: q_empty_def q_count_def)
next
  assume "q_count q = 0"
  with q_inv_write(2) [OF inv] inv show "q_empty q" by (simp add: q_empty_def q_inv_def)
qed

lemma q_empty_iff: "q_inv q \<Longrightarrow> q_empty q \<longleftrightarrow> q_list q = []"
  by (simp add: q_empty_count q_list_def)

lemma q_full_count:
  assumes inv: "q_inv q"
  shows "(q_nextwrite q + 1) mod nat (q_size q) = q_nextread q \<longleftrightarrow> Suc (q_count q) = nat (q_size q)"
proof -
  let ?n = "nat (q_size q)" and ?r = "q_nextread q"
  have r: "?r < ?n" using inv by (simp add: q_inv_def)
  have eq: "(q_nextwrite q + 1) mod ?n = (?r + Suc (q_count q)) mod ?n"
    using q_inv_write(2) [OF inv] ring_succ [of ?r "q_count q" ?n] by simp
  show ?thesis
  proof (cases "Suc (q_count q) = ?n")
    case True
    with eq r show ?thesis by simp
  next
    case False
    with q_inv_write(1) [OF inv] have "Suc (q_count q) < ?n" by simp
    with r have "(?r + Suc (q_count q)) mod ?n \<noteq> (?r + 0) mod ?n"
      using ring_index_inj [of ?r ?n "Suc (q_count q)" 0] by fastforce
    with eq r False show ?thesis by simp
  qed
qed

lemma q_listI:
  assumes "q_inv q" and "q_nextwrite q = (q_nextread q + length xs) mod nat (q_size q)"
    and "length xs < nat (q_size q)"
    and "\<And>k. k < length xs \<Longrightarrow> q_data q ! ((q_nextread q + k) mod nat (q_size q)) = xs ! k"
  shows "q_list q = xs"
proof -
  have "q_count q = length xs"
    unfolding q_count_def assms(2)
    by (rule ring_distance_unique) (use assms(1,3) in \<open>simp_all add: q_inv_def\<close>)
  then show ?thesis unfolding q_list_def by (intro nth_equalityI) (simp_all add: assms(4))
qed

lemma nth_q_list:
  "k < q_count q \<Longrightarrow> q_list q ! k = q_data q ! ((q_nextread q + k) mod nat (q_size q))"
  by (simp add: q_list_def)

text \<open>The store at the write index, when there is room.\<close>

definition q_put :: "'a queue \<Rightarrow> 'a \<Rightarrow> 'a queue" where
  "q_put q x = q\<lparr>q_data := (q_data q)[q_nextwrite q := x],
                 q_nextwrite := (q_nextwrite q + 1) mod nat (q_size q)\<rparr>"

lemma q_put:
  assumes inv: "q_inv q" and room: "Suc (q_count q) < nat (q_size q)"
  shows "q_inv (q_put q x) \<and> q_list (q_put q x) = q_list q @ [x]"
proof
  let ?n = "nat (q_size q)" and ?r = "q_nextread q"
  show inv': "q_inv (q_put q x)" using inv by (simp add: q_inv_def q_put_def)
  have r: "?r < ?n" using inv by (simp add: q_inv_def)
  note w = q_inv_write(2) [OF inv]
  have len: "length (q_data q) = ?n" using inv by (simp add: q_inv_def)
  show "q_list (q_put q x) = q_list q @ [x]"
  proof (rule q_listI [OF inv'])
    show "q_nextwrite (q_put q x) =
      (q_nextread (q_put q x) + length (q_list q @ [x])) mod nat (q_size (q_put q x))"
      using w ring_succ [of ?r "q_count q" ?n] by (simp add: q_put_def)
    show "length (q_list q @ [x]) < nat (q_size (q_put q x))"
      using room by (simp add: q_put_def)
    fix k
    assume k: "k < length (q_list q @ [x])"
    show "q_data (q_put q x) ! ((q_nextread (q_put q x) + k) mod nat (q_size (q_put q x))) =
      (q_list q @ [x]) ! k"
    proof (cases "k = q_count q")
      case True
      have "q_nextwrite q < ?n" using inv by (simp add: q_inv_def)
      with True w len show ?thesis by (simp add: q_put_def nth_append)
    next
      case False
      with k have "k < q_count q" by simp
      moreover have "(?r + k) mod ?n \<noteq> q_nextwrite q"
        using ring_index_inj [OF r, of k "q_count q"] w room False \<open>k < q_count q\<close> by auto
      ultimately show ?thesis by (simp add: q_put_def nth_append nth_q_list)
    qed
  qed
qed

lemma q_addtail_room:
  assumes inv: "q_inv q" and room: "Suc (q_count q) < nat (q_size q)"
  shows "q_addtail (Suc d) mem q x = Some (Inr (), q_put q x)"
proof -
  have "q_nextwrite q < length (q_data q)" "0 < q_size q" using inv by (simp_all add: q_inv_def)
  moreover have "(q_nextwrite q + 1) mod nat (q_size q) \<noteq> q_nextread q"
    using q_full_count [OF inv] room by simp
  ultimately show ?thesis
    by (simp add: q_addtail.simps(2) Let_def q_put_def)
qed

lemma q_moveall_list:
  assumes inv: "q_inv q" and j: "j \<le> q_count q" and rounds: "q_count q - j < rounds"
    and inv': "q_inv q'" and size: "q_size q < q_size q'" and pre: "q_list q' = take j (q_list q)"
  shows "\<exists>q2. q_moveall (q_addtail (Suc d) mem) (q_data q) (nat (q_size q)) (q_nextwrite q) rounds
               ((q_nextread q + j) mod nat (q_size q)) q' = Some q2 \<and>
              q_inv q2 \<and> q_size q2 = q_size q' \<and> q_list q2 = q_list q"
  using j rounds inv' size pre
proof (induction rounds arbitrary: j q')
  case 0
  then show ?case by simp
next
  case (Suc rounds)
  let ?n = "nat (q_size q)" and ?r = "q_nextread q"
  let ?i = "(?r + j) mod ?n"
  have r: "?r < ?n" using inv by (simp add: q_inv_def)
  note w = q_inv_write [OF inv]
  show ?case
  proof (cases "j = q_count q")
    case True
    then have "?i = q_nextwrite q" using w(2) by simp
    with Suc.prems True show ?thesis by (subst q_moveall.simps) simp
  next
    case False
    with Suc.prems have j: "j < q_count q" by simp
    then have ni: "?i \<noteq> q_nextwrite q" using ring_index_inj [OF r, of j "q_count q"] w by auto
    have lt: "?i < length (q_data q)" using inv by (simp add: q_inv_def)
    have "length (q_list q') = j" using Suc.prems(5) j by simp
    then have room: "Suc (q_count q') < nat (q_size q')" using j w(1) Suc.prems(4) by simp
    have step: "q_addtail (Suc d) mem q' (q_data q ! ?i) = Some (Inr (), q_put q' (q_data q ! ?i))"
      by (rule q_addtail_room [OF Suc.prems(3) room])
    have put: "q_inv (q_put q' (q_data q ! ?i))"
      "q_list (q_put q' (q_data q ! ?i)) = take (Suc j) (q_list q)"
      using q_put [OF Suc.prems(3) room, of "q_data q ! ?i"] Suc.prems(5) j
      by (simp_all add: take_Suc_conv_app_nth nth_q_list)
    have size': "q_size (q_put q' (q_data q ! ?i)) = q_size q'" by (simp add: q_put_def)
    have "Suc j \<le> q_count q" "q_count q - Suc j < rounds" using j Suc.prems(2) by simp_all
    from Suc.IH [OF this put(1) _ put(2)] obtain q2 where
      q2: "q_moveall (q_addtail (Suc d) mem) (q_data q) ?n (q_nextwrite q) rounds
             ((?r + Suc j) mod ?n) (q_put q' (q_data q ! ?i)) = Some q2"
          "q_inv q2" "q_size q2 = q_size q'" "q_list q2 = q_list q"
      using Suc.prems(4) by (auto simp: size')
    have "q_moveall (q_addtail (Suc d) mem) (q_data q) ?n (q_nextwrite q) (Suc rounds) ?i q' = Some q2"
      using ni lt step q2(1) ring_succ [of ?r j ?n]
      by (subst q_moveall.simps) (simp del: mod_Suc_eq Suc_eq_plus1 Suc_eq_plus1_left)
    with q2 show ?thesis by blast
  qed
qed

subsection \<open>The operations on the list\<close>

lemma q_newsize_step:
  "nsize < t \<Longrightarrow> swrap32 (nsize * 2) > 0 \<Longrightarrow> q_newsize t nsize = q_newsize t (swrap32 (nsize * 2))"
  "t \<le> nsize \<Longrightarrow> q_newsize t nsize = Some nsize"
  by (subst q_newsize.simps, simp)+

lemma q_newsize_bound:
  assumes "0 < nsize" and "t \<le> 2 ^ 29"
  shows "\<exists>m. q_newsize t nsize = Some m \<and> t \<le> m \<and> nsize \<le> m \<and> (m = nsize \<or> m < 2 * t)"
  using assms
proof (induction "nat (t - nsize)" arbitrary: nsize rule: less_induct)
  case less
  show ?case
  proof (cases "nsize < t")
    case True
    with less.prems have wrap: "swrap32 (nsize * 2) = nsize * 2" by simp
    from True less.prems have "nat (t - nsize * 2) < nat (t - nsize)" "0 < nsize * 2" by simp_all
    from less.hyps [OF this less.prems(2)] obtain m where
      m: "q_newsize t (nsize * 2) = Some m" "t \<le> m" "nsize * 2 \<le> m" "m = nsize * 2 \<or> m < 2 * t"
      by blast
    moreover have "q_newsize t nsize = Some m"
      using True wrap less.prems(1) m(1) q_newsize_step(1) [of nsize t] by simp
    ultimately show ?thesis using True less.prems by auto
  qed (simp add: q_newsize_step(2))
qed

lemma q_grow_list:
  assumes inv: "q_inv q" and more: "q_size q < t" and t: "t \<le> 2 ^ 29"
  shows "(mem = None \<and> q_grow (q_addtail (Suc d) mem) mem q t = Some (Inl ENOMEM, q)) \<or>
         (\<exists>q'. mem \<noteq> None \<and> q_grow (q_addtail (Suc d) mem) mem q t = Some (Inr (), q') \<and> q_inv q' \<and>
               t \<le> q_size q' \<and> q_list q' = q_list q)"
proof (cases mem)
  case None
  with q_newsize_bound [of "q_size q" t] inv t show ?thesis
    by (auto simp: q_grow_def q_inv_def)
next
  case (Some junk)
  from q_newsize_bound [of "q_size q" t] inv t more obtain m where
    m: "q_newsize t (q_size q) = Some m" "t \<le> m" "m < 2 * t"
    by (auto simp: q_inv_def)
  let ?q0 = "q\<lparr>q_size := m, q_data := kblock junk (nat m), q_nextread := 0, q_nextwrite := 0\<rparr>"
  have pos: "0 < q_size q" using inv by (simp add: q_inv_def)
  have cells: "wrap32 (nat m * 4) div 4 = nat m" using m(3) t by simp
  have inv0: "q_inv ?q0" using m t more pos by (simp add: q_inv_def)
  have "q_list ?q0 = take 0 (q_list q)" by (simp add: q_list_def q_count_def)
  moreover have "q_count q - 0 < Suc (nat (q_size q))" using q_inv_write(1) [OF inv] by simp
  moreover have "q_size q < q_size ?q0" using m(2) more by simp
  ultimately obtain q2 where
    "q_moveall (q_addtail (Suc d) mem) (q_data q) (nat (q_size q)) (q_nextwrite q)
       (Suc (nat (q_size q))) ((q_nextread q + 0) mod nat (q_size q)) ?q0 = Some q2"
    "q_inv q2" "q_size q2 = m" "q_list q2 = q_list q"
    using q_moveall_list [OF inv, of 0 "Suc (nat (q_size q))" ?q0 d mem] inv0 by auto
  moreover have "(q_nextread q + 0) mod nat (q_size q) = q_nextread q"
    using inv by (simp add: q_inv_def)
  ultimately show ?thesis
    using Some m(1,2) by (simp add: q_grow_def Let_def cells)
qed

lemma q_addtail_list:
  assumes inv: "q_inv q" and lim: "q_count q < 2 ^ 29 - 1"
  shows "(mem = None \<and> Suc (q_count q) = nat (q_size q) \<and>
          q_addtail (Suc (Suc d)) mem q x = Some (Inl ENOMEM, q)) \<or>
         (\<exists>q'. q_addtail (Suc (Suc d)) mem q x = Some (Inr (), q') \<and> q_inv q' \<and>
               q_list q' = q_list q @ [x])"
proof (cases "Suc (q_count q) = nat (q_size q)")
  case False
  with q_inv_write(1) [OF inv] have "Suc (q_count q) < nat (q_size q)" by simp
  with q_addtail_room [OF inv this] q_put [OF inv this] show ?thesis by auto
next
  case True
  then have full: "(q_nextwrite q + 1) mod nat (q_size q) = q_nextread q"
    using q_full_count [OF inv] by simp
  have pos: "0 < q_size q" using inv by (simp add: q_inv_def)
  have "q_size q + 1 \<le> 2 ^ 29" using True lim pos by simp
  from q_grow_list [OF inv _ this, of mem d] consider
    "mem = None" "q_grow (q_addtail (Suc d) mem) mem q (q_size q + 1) = Some (Inl ENOMEM, q)" |
    q' where "q_grow (q_addtail (Suc d) mem) mem q (q_size q + 1) = Some (Inr (), q')" "q_inv q'"
      "q_size q + 1 \<le> q_size q'" "q_list q' = q_list q"
    by auto
  then show ?thesis
  proof cases
    case 1
    with True full pos show ?thesis by (simp add: q_addtail.simps(2) Let_def)
  next
    case (2 q')
    have "q_count q' = q_count q" using arg_cong [OF 2(4), of length] by simp
    with True 2(3) pos have room: "Suc (q_count q') < nat (q_size q')" by simp
    have "q_nextwrite q' < length (q_data q')" using 2(2) by (simp add: q_inv_def)
    with full pos 2(1) have "q_addtail (Suc (Suc d)) mem q x = Some (Inr (), q_put q' x)"
      by (simp add: q_addtail.simps(2) Let_def q_put_def)
    with q_put [OF 2(2) room, of x] 2(4) show ?thesis by simp
  qed
qed

lemma q_remhead_list:
  assumes inv: "q_inv q"
  shows "q_list q = [] \<Longrightarrow> q_remhead q = None"
    and "q_list q = x # xs \<Longrightarrow> \<exists>q'. q_remhead q = Some (x, q') \<and> q_inv q' \<and> q_list q' = xs"
proof -
  let ?n = "nat (q_size q)" and ?r = "q_nextread q"
  show "q_remhead q = None" if "q_list q = []"
    using that q_empty_iff [OF inv] by (simp add: q_remhead_def kassert_def)
  assume ls: "q_list q = x # xs"
  then have cnt: "q_count q = Suc (length xs)" using length_q_list [of q] by simp
  have ne: "\<not> q_empty q" using ls q_empty_iff [OF inv] by simp
  have r: "?r < ?n" "?r < length (q_data q)" "0 < q_size q" using inv by (simp_all add: q_inv_def)
  have hd: "q_data q ! ?r = x" using nth_q_list [of 0 q] cnt ls r by simp
  let ?q = "q\<lparr>q_nextread := (?r + 1) mod ?n\<rparr>"
  have inv': "q_inv ?q" using inv by (simp add: q_inv_def)
  have shift: "((?r + 1) mod ?n + k) mod ?n = (?r + Suc k) mod ?n" for k
    by (simp add: mod_add_left_eq)
  have "q_list ?q = xs"
  proof (rule q_listI [OF inv'])
    show "q_nextwrite ?q = (q_nextread ?q + length xs) mod nat (q_size ?q)"
      using q_inv_write(2) [OF inv] cnt shift [of "length xs"] by simp
    show "length xs < nat (q_size ?q)" using q_inv_write(1) [OF inv] cnt by simp
    show "q_data ?q ! ((q_nextread ?q + k) mod nat (q_size ?q)) = xs ! k" if "k < length xs" for k
      using nth_q_list [of "Suc k" q] that cnt ls shift [of k] by simp
  qed
  moreover have "q_remhead q = Some (x, ?q)"
    using ne r hd by (simp add: q_remhead_def)
  ultimately show "\<exists>q'. q_remhead q = Some (x, q') \<and> q_inv q' \<and> q_list q' = xs"
    using inv' by blast
qed

lemma q_len_from_count:
  assumes inv: "q_inv q" and "j \<le> q_count q" and "c = int j"
  shows "q_len_from q ((q_nextread q + j) mod nat (q_size q)) c = Some (int (q_count q))"
  using assms(2,3)
proof (induction "q_count q - j" arbitrary: j c)
  case 0
  then have "j = q_count q" by simp
  with 0 q_inv_write(2) [OF inv] show ?case by (subst q_len_from.simps) simp
next
  case (Suc k)
  let ?n = "nat (q_size q)" and ?r = "q_nextread q"
  have r: "?r < ?n" and big: "q_count q < 2 ^ 30" and pos: "q_size q \<noteq> 0"
    using inv q_inv_write(1) [OF inv] by (auto simp: q_inv_def)
  have j: "j < q_count q" using Suc by simp
  then have ne: "(?r + j) mod ?n \<noteq> q_nextwrite q"
    using ring_index_inj [OF r, of j "q_count q"] q_inv_write [OF inv] by auto
  have wrap: "swrap32 (c + 1) = int (Suc j)" using Suc.prems j big by simp
  have IH: "q_len_from q ((?r + Suc j) mod ?n) (int (Suc j)) = Some (int (q_count q))"
    using Suc(1) [of "Suc j"] Suc(2) j by simp
  show ?case
    by (subst q_len_from.simps) (simp only: ne pos wrap ring_succ IH not_False_eq_True if_True if_False)
qed

lemma q_len_list: "q_inv q \<Longrightarrow> q_len q = Some (int (length (q_list q)))"
  using q_len_from_count [of q 0 0] by (simp add: q_len_def q_inv_def)

lemma q_peek_list:
  assumes inv: "q_inv q"
  shows "q_peek q = Some (case q_list q of [] \<Rightarrow> None | x # xs \<Rightarrow> Some x)"
proof (cases "q_list q")
  case Nil
  with q_empty_iff [OF inv] inv show ?thesis by (simp add: q_peek_def q_inv_def)
next
  case (Cons x xs)
  then have "q_count q = Suc (length xs)" using length_q_list [of q] by simp
  with nth_q_list [of 0 q] Cons inv have "q_data q ! q_nextread q = x"
    by (simp add: q_inv_def)
  with Cons q_empty_iff [OF inv] inv show ?thesis by (simp add: q_peek_def q_inv_def)
qed

subsection \<open>The contract\<close>

text \<open>A client that puts several pointers in and takes several out.\<close>

primrec add_all ::
  "('q \<Rightarrow> 'a \<Rightarrow> (unit kresult \<times> 'q) option) \<Rightarrow> 'a list \<Rightarrow> 'q \<Rightarrow> (unit kresult \<times> 'q) option" where
  "add_all add [] q = Some (Inr (), q)"
| "add_all add (x # xs) q = do {
     (r, q') \<leftarrow> add q x;
     (case r of Inl e \<Rightarrow> Some (Inl e, q') | Inr _ \<Rightarrow> add_all add xs q')
   }"

primrec take_all :: "('q \<Rightarrow> ('a \<times> 'q) option) \<Rightarrow> nat \<Rightarrow> 'q \<Rightarrow> ('a list \<times> 'q) option" where
  "take_all rem 0 q = Some ([], q)"
| "take_all rem (Suc n) q = do {
     (x, q') \<leftarrow> rem q;
     (xs, q'') \<leftarrow> take_all rem n q';
     Some (x # xs, q'')
   }"

locale fifo =
  fixes inv :: "'q \<Rightarrow> bool"
    and elems :: "'q \<Rightarrow> 'a list"
    and add :: "'q \<Rightarrow> 'a \<Rightarrow> (unit kresult \<times> 'q) option"
    and remhead :: "'q \<Rightarrow> ('a \<times> 'q) option"
    and limit :: nat
  assumes add: "inv q \<Longrightarrow> length (elems q) < limit \<Longrightarrow>
      add q x = Some (Inl ENOMEM, q) \<or>
      (\<exists>q'. add q x = Some (Inr (), q') \<and> inv q' \<and> elems q' = elems q @ [x])"
    and remhead: "inv q \<Longrightarrow> elems q = x # xs \<Longrightarrow>
      \<exists>q'. remhead q = Some (x, q') \<and> inv q' \<and> elems q' = xs"
begin

lemma add_all_elems:
  assumes "inv q" and "length (elems q) + length xs \<le> limit"
  shows "\<exists>r q' ys zs. add_all add xs q = Some (r, q') \<and> inv q' \<and> xs = ys @ zs \<and>
           elems q' = elems q @ ys \<and> (r = Inr () \<and> zs = [] \<or> r = Inl ENOMEM)"
  using assms
proof (induction xs arbitrary: q)
  case Nil
  then show ?case by simp
next
  case (Cons x xs)
  then have "length (elems q) < limit" by simp
  from add [OF Cons.prems(1) this, of x] show ?case
  proof (elim disjE exE conjE)
    assume "add q x = Some (Inl ENOMEM, q)"
    with Cons.prems(1) show ?thesis by simp
  next
    fix q'
    assume q': "add q x = Some (Inr (), q')" "inv q'" "elems q' = elems q @ [x]"
    with Cons.prems(2) have "length (elems q') + length xs \<le> limit" by simp
    from Cons.IH [OF q'(2) this] obtain r q2 ys zs where
      "add_all add xs q' = Some (r, q2)" "inv q2" "xs = ys @ zs" "elems q2 = elems q' @ ys"
      "r = Inr () \<and> zs = [] \<or> r = Inl ENOMEM"
      by (elim exE conjE)
    with q' show ?thesis
      by (intro exI [of _ r] exI [of _ q2] exI [of _ "x # ys"] exI [of _ zs]) simp
  qed
qed

lemma take_all_elems:
  assumes "inv q" and "n \<le> length (elems q)"
  shows "\<exists>q'. take_all remhead n q = Some (take n (elems q), q') \<and> inv q' \<and> elems q' = drop n (elems q)"
  using assms
proof (induction n arbitrary: q)
  case 0
  then show ?case by simp
next
  case (Suc n)
  then obtain x xs where xs: "elems q = x # xs" by (cases "elems q") auto
  from remhead [OF Suc.prems(1) this] obtain q' where
    q': "remhead q = Some (x, q')" "inv q'" "elems q' = xs" by blast
  with Suc.prems(2) xs have "n \<le> length (elems q')" by simp
  from Suc.IH [OF q'(2) this] q' xs show ?case by auto
qed

end

interpretation rq: fifo q_inv q_list "q_addtail (Suc (Suc d)) mem" q_remhead "2 ^ 29 - 1"
  for d and mem :: "'a kmem"
proof unfold_locales
  fix q :: "'a queue" and x xs
  assume q: "q_inv q"
  show "q_addtail (Suc (Suc d)) mem q x = Some (Inl ENOMEM, q) \<or>
    (\<exists>q'. q_addtail (Suc (Suc d)) mem q x = Some (Inr (), q') \<and> q_inv q' \<and> q_list q' = q_list q @ [x])"
    if "length (q_list q) < 2 ^ 29 - 1"
    using q_addtail_list [OF q, of mem d x] that by auto
  show "\<exists>q'. q_remhead q = Some (x, q') \<and> q_inv q' \<and> q_list q' = xs" if "q_list q = x # xs"
    by (rule q_remhead_list(2) [OF q that])
qed

subsection \<open>Properties\<close>

text \<open>
  C37. The queue is first-in first-out across growth: if a series of \<open>q_addtail\<close> calls all
  succeed, then \<open>q_remhead\<close> gives back the old elements and then the new ones in their order,
  and after that the queue is empty. No assertion fails and no access leaves the buffer,
  however often the buffer was extended in between.
\<close>

theorem queue_fifo:
  assumes "q_inv q" and "length (q_list q) + length xs < 2 ^ 29"
    and "add_all (q_addtail 2 mem) xs q = Some (Inr (), q')"
  shows "q_inv q' \<and> q_len q' = Some (int (length (q_list q) + length xs)) \<and>
         (\<exists>q''. take_all q_remhead (length (q_list q) + length xs) q' = Some (q_list q @ xs, q'') \<and>
                q_empty q'')"
proof -
  have two: "(2::nat) = Suc (Suc 0)" by simp
  from rq.add_all_elems [OF assms(1), of xs 0 mem] assms(2,3)
  have q': "q_inv q'" "q_list q' = q_list q @ xs" by (auto simp: two)
  then have len: "length (q_list q') = length (q_list q) + length xs" by simp
  from rq.take_all_elems [OF q'(1), of "length (q_list q')"] obtain q'' where
    "take_all q_remhead (length (q_list q')) q' = Some (q_list q', q'')" "q_inv q''" "q_list q'' = []"
    by auto
  moreover from this have "q_empty q''" using q_empty_iff by blast
  ultimately show ?thesis using q' len q_len_list [OF q'(1)] by auto
qed

definition queue_ex :: "nat queue" where
  "queue_ex = \<lparr>q_size = 3, q_nextread = 2, q_nextwrite = 1, q_data = [5, 0, 4]\<rparr>"

lemma queue_ex_facts: "q_inv queue_ex" "q_list queue_ex = [4, 5]"
proof -
  show "q_inv queue_ex" by (simp add: queue_ex_def q_inv_def)
  have "[0..<2] = [0, 1::nat]" by (simp add: upt_rec)
  then show "q_list queue_ex = [4, 5]" by (simp add: queue_ex_def q_list_def q_count_def)
qed

theorem queue_fifo_witness:
  "\<exists>q' q''. add_all (q_addtail 2 (Some (\<lambda>i. 0))) [6] queue_ex = Some (Inr (), q') \<and>
            q_len q' = Some 3 \<and> take_all q_remhead 3 q' = Some ([4, 5, 6], q'')"
proof -
  have "q_count queue_ex < 2 ^ 29 - 1" by (simp add: queue_ex_def q_count_def)
  from q_addtail_list [OF queue_ex_facts(1) this, of "Some (\<lambda>i. 0)" 0 6] obtain q' where
    "q_addtail 2 (Some (\<lambda>i. 0)) queue_ex 6 = Some (Inr (), q')"
    unfolding numeral_2_eq_2 by blast
  then have "add_all (q_addtail 2 (Some (\<lambda>i. 0))) [6] queue_ex = Some (Inr (), q')" by simp
  moreover have "length (q_list queue_ex) + length [6::nat] < 2 ^ 29" by (simp add: queue_ex_facts)
  moreover have "length [4::nat, 5] + length [6::nat] = 3" by simp
  ultimately show ?thesis
    using queue_fifo [OF queue_ex_facts(1), of "[6]" "Some (\<lambda>i. 0)" q'] unfolding queue_ex_facts
    by (metis append.simps of_nat_numeral)
qed

text \<open>
  C39. One slot of the ring always stays free: a queue that satisfies its invariant holds
  fewer than \<open>q_getsize\<close> elements, so \<open>q_getsize\<close> is not the number of elements that fit,
  and a \<open>q_addtail\<close> that meets \<open>size - 1\<close> elements extends the buffer, failing with
  \<open>ENOMEM\<close> and no change when there is no memory for it.
\<close>

theorem queue_capacity:
  assumes "q_inv q"
  shows "int (length (q_list q)) < q_getsize q \<and>
         (int (length (q_list q)) = q_getsize q - 1 \<and> length (q_list q) < 2 ^ 29 - 1 \<longrightarrow>
            q_addtail 2 None q x = Some (Inl ENOMEM, q))"
proof (intro conjI impI)
  have pos: "0 < q_size q" using assms by (simp add: q_inv_def)
  show "int (length (q_list q)) < q_getsize q"
    using q_inv_write(1) [OF assms] by (simp add: q_getsize_def)
  assume "int (length (q_list q)) = q_getsize q - 1 \<and> length (q_list q) < 2 ^ 29 - 1"
  then have full: "Suc (q_count q) = nat (q_size q)" and small: "q_size q + 1 \<le> 2 ^ 29"
    using pos by (auto simp: q_getsize_def)
  have "(q_nextwrite q + 1) mod nat (q_size q) = q_nextread q"
    using q_full_count [OF assms] full by simp
  moreover have "q_grow (q_addtail 1 None) None q (q_size q + 1) = Some (Inl ENOMEM, q)"
    using q_grow_list [OF assms _ small, of None 0] by auto
  ultimately show "q_addtail 2 None q x = Some (Inl ENOMEM, q)"
    using pos by (simp add: numeral_2_eq_2 q_addtail.simps(2))
qed

theorem queue_capacity_witness:
  "q_inv queue_ex \<and> q_addtail 2 None queue_ex 6 = Some (Inl ENOMEM, queue_ex)"
proof -
  have "q_getsize queue_ex = 3" by (simp add: queue_ex_def q_getsize_def)
  with queue_capacity [OF queue_ex_facts(1), of 6] show ?thesis
    by (simp add: queue_ex_facts del: length_q_list)
qed

end
