(* ===== verification/Kern_Uio.thy ===== *)
theory Kern_Uio
  imports Kern_Copyinout
begin

section \<open>The uio abstraction: \<open>kern/lib/uio.c\<close>\<close>

text \<open>
  A \<open>uio\<close> describes a transfer between an object and a list of buffers. A kernel buffer is
  held by value: the bytes that were already passed, and the bytes from \<open>iov_kbase\<close> on, whose
  number is \<open>iov_len\<close>. A user buffer is an address and a length in the memory \<open>uio_space\<close>.
  Buffers that were passed over (\<open>uio_iov++\<close>) are kept in \<open>uio_past\<close>, so that the caller can
  look at them afterwards. Offsets are not negative.
\<close>

subsection \<open>The code\<close>

datatype uio_rw = UIO_READ | UIO_WRITE

datatype uio_seg = UIO_USERISPACE | UIO_USERSPACE | UIO_SYSSPACE

record iovec =
  iov_before :: "u8 list"
  iov_kbuf :: "u8 list"
  iov_ubase :: nat
  iov_ulen :: nat

record uio =
  uio_iov :: "iovec list"
  uio_past :: "iovec list"
  uio_offset :: nat
  uio_resid :: nat
  uio_segflg :: uio_seg
  uio_rw :: uio_rw
  uio_space :: "umem option"

definition iov_len :: "uio_seg \<Rightarrow> iovec \<Rightarrow> nat" where
  "iov_len seg iov = (if seg = UIO_SYSSPACE then length (iov_kbuf iov) else iov_ulen iov)"

text \<open>
  The transfer of one chunk: \<open>size\<close> bytes between the object's buffer at \<open>pos\<close> and the start
  of the first iovec. \<open>ptr\<close> is the whole buffer the caller passed to \<open>uiomove\<close>.
\<close>

definition uio_chunk :: "u8 list \<Rightarrow> nat \<Rightarrow> nat \<Rightarrow> uio \<Rightarrow> iovec \<Rightarrow>
    (unit kresult \<times> u8 list \<times> iovec \<times> umem option) option" where
  "uio_chunk ptr pos sz u iov = do {
     kassert (pos + sz \<le> length ptr);
     (if uio_segflg u = UIO_SYSSPACE then
        (let buf = (if uio_rw u = UIO_READ then take sz (drop pos ptr) else take sz (iov_kbuf iov));
             ptr' = (if uio_rw u = UIO_READ then ptr
                     else take pos ptr @ take sz (iov_kbuf iov) @ drop (pos + sz) ptr)
         in Some (Inr (), ptr',
              iov\<lparr>iov_before := iov_before iov @ buf, iov_kbuf := drop sz (iov_kbuf iov)\<rparr>,
              uio_space u))
      else (case uio_space u of
        None \<Rightarrow> None
      | Some um \<Rightarrow>
          (if uio_rw u = UIO_READ then do {
             (result, um') \<leftarrow> copyout um (drop pos ptr) (iov_ubase iov) sz;
             (case result of
                Inl e \<Rightarrow> Some (Inl e, ptr, iov, Some um')
              | Inr _ \<Rightarrow> Some (Inr (), ptr,
                  iov\<lparr>iov_ubase := iov_ubase iov + sz, iov_ulen := iov_ulen iov - sz\<rparr>, Some um'))
           }
           else do {
             (result, dest) \<leftarrow> copyin um (iov_ubase iov) (drop pos ptr) sz;
             (case result of
                Inl e \<Rightarrow> Some (Inl e, take pos ptr @ dest, iov, Some um)
              | Inr _ \<Rightarrow> Some (Inr (), take pos ptr @ dest,
                  iov\<lparr>iov_ubase := iov_ubase iov + sz, iov_ulen := iov_ulen iov - sz\<rparr>, Some um))
           })))
   }"

function uiomove_from :: "u8 list \<Rightarrow> nat \<Rightarrow> nat \<Rightarrow> uio \<Rightarrow> (unit kresult \<times> u8 list \<times> uio) option" where
  "uiomove_from ptr pos n u =
     (if n > 0 \<and> uio_resid u > 0 then
        (case uio_iov u of
           [] \<Rightarrow> None
         | iov # rest \<Rightarrow>
             let size = min (iov_len (uio_segflg u) iov) n in
             if size = 0 then
               (if rest = [] then None
                else uiomove_from ptr pos n (u\<lparr>uio_iov := rest, uio_past := uio_past u @ [iov]\<rparr>))
             else do {
               (result, ptr', iov', space') \<leftarrow> uio_chunk ptr pos size u iov;
               (case result of
                  Inl e \<Rightarrow> Some (Inl e, ptr', u\<lparr>uio_space := space'\<rparr>)
                | Inr _ \<Rightarrow>
                    uiomove_from ptr' (pos + size) (n - size)
                      (u\<lparr>uio_iov := iov' # rest, uio_resid := sub32 (uio_resid u) size,
                         uio_offset := uio_offset u + size, uio_space := space'\<rparr>))
             })
      else Some (Inr (), ptr, u))"
  by pat_completeness auto
termination
  by (relation "measures [\<lambda>(ptr, pos, n, u). n, \<lambda>(ptr, pos, n, u). length (uio_iov u)]") auto

declare uiomove_from.simps [simp del]

definition uiomove :: "u8 list \<Rightarrow> nat \<Rightarrow> uio \<Rightarrow> (unit kresult \<times> u8 list \<times> uio) option" where
  "uiomove ptr n u = do {
     kassert (uio_segflg u = UIO_SYSSPACE \<longleftrightarrow> uio_space u = None);
     uiomove_from ptr 0 n u
   }"

function uiomovezeros :: "nat \<Rightarrow> uio \<Rightarrow> (unit kresult \<times> uio) option" where
  "uiomovezeros n u = do {
     kassert (uio_rw u = UIO_READ);
     (if n > 0 then
        let amt = min 16 n in
        do {
          (result, zeros, u') \<leftarrow> uiomove (replicate 16 0) amt u;
          (case result of
             Inl e \<Rightarrow> Some (Inl e, u')
           | Inr _ \<Rightarrow> uiomovezeros (n - amt) u')
        }
      else Some (Inr (), u))
   }"
  by pat_completeness auto
termination by (relation "measure fst") auto

declare uiomovezeros.simps [simp del]

definition uio_kinit :: "u8 list \<Rightarrow> nat \<Rightarrow> uio_rw \<Rightarrow> uio" where
  "uio_kinit kbuf pos rw =
     \<lparr>uio_iov = [\<lparr>iov_before = [], iov_kbuf = kbuf, iov_ubase = 0, iov_ulen = 0\<rparr>], uio_past = [],
      uio_offset = pos, uio_resid = length kbuf, uio_segflg = UIO_SYSSPACE, uio_rw = rw,
      uio_space = None\<rparr>"

subsection \<open>Kernel transfers\<close>

text \<open>
  The abstraction of a kernel \<open>uio\<close>: the bytes that have passed, and the bytes of the buffers
  still ahead. \<open>kuio\<close> says that \<open>uio_resid\<close> does not promise more than the buffers hold.
\<close>

definition uio_done :: "uio \<Rightarrow> u8 list" where
  "uio_done u = concat (map iov_before (uio_past u @ uio_iov u))"

definition uio_todo :: "uio \<Rightarrow> u8 list" where
  "uio_todo u = concat (map iov_kbuf (uio_iov u))"

definition kuio :: "uio \<Rightarrow> bool" where
  "kuio u \<longleftrightarrow> uio_segflg u = UIO_SYSSPACE \<and> uio_space u = None \<and> uio_resid u \<le> length (uio_todo u) \<and>
     uio_resid u < 2 ^ 32 \<and> (\<forall>v \<in> set (tl (uio_iov u)). iov_before v = [])"

definition uio_moved :: "u8 list \<Rightarrow> uio \<Rightarrow> uio \<Rightarrow> bool" where
  "uio_moved bs u u' \<longleftrightarrow> kuio u' \<and> uio_done u' = uio_done u @ bs \<and>
     uio_todo u' = drop (length bs) (uio_todo u) \<and> uio_resid u = uio_resid u' + length bs \<and>
     uio_offset u' = uio_offset u + length bs \<and> uio_rw u' = uio_rw u"

lemma uio_moved_refl: "kuio u \<Longrightarrow> uio_moved [] u u"
  by (simp add: uio_moved_def)

lemma uio_moved_trans: "uio_moved bs u u' \<Longrightarrow> uio_moved cs u' u'' \<Longrightarrow> uio_moved (bs @ cs) u u''"
  by (auto simp: uio_moved_def add.commute)

text \<open>The bytes a transfer of \<open>n\<close> bytes moves, and what it leaves in the object's buffer.\<close>

definition uio_bytes :: "u8 list \<Rightarrow> nat \<Rightarrow> nat \<Rightarrow> uio \<Rightarrow> u8 list" where
  "uio_bytes ptr pos n u = (if uio_rw u = UIO_READ then take n (drop pos ptr) else take n (uio_todo u))"

definition uio_ptr :: "u8 list \<Rightarrow> nat \<Rightarrow> nat \<Rightarrow> uio \<Rightarrow> u8 list" where
  "uio_ptr ptr pos n u =
     (if uio_rw u = UIO_READ then ptr else take pos ptr @ take n (uio_todo u) @ drop (pos + n) ptr)"

text \<open>The state after one chunk, and the buffer.\<close>

definition kuio_step :: "u8 list \<Rightarrow> nat \<Rightarrow> nat \<Rightarrow> uio \<Rightarrow> u8 list \<times> uio" where
  "kuio_step ptr pos sz u =
     (let iov = hd (uio_iov u);
          buf = (if uio_rw u = UIO_READ then take sz (drop pos ptr) else take sz (iov_kbuf iov))
      in (if uio_rw u = UIO_READ then ptr else take pos ptr @ buf @ drop (pos + sz) ptr,
          u\<lparr>uio_iov := iov\<lparr>iov_before := iov_before iov @ buf, iov_kbuf := drop sz (iov_kbuf iov)\<rparr>
                       # tl (uio_iov u),
            uio_resid := uio_resid u - sz, uio_offset := uio_offset u + sz, uio_space := uio_space u\<rparr>))"

lemma uiomove_from_step:
  assumes u: "kuio u" and iov: "uio_iov u = iov # rest" and ne: "iov_kbuf iov \<noteq> []"
    and n: "0 < n" "n \<le> uio_resid u" "pos + n \<le> length ptr"
  defines "sz \<equiv> min (length (iov_kbuf iov)) n"
  shows "uiomove_from ptr pos n u =
    (case kuio_step ptr pos sz u of (ptr', u') \<Rightarrow> uiomove_from ptr' (pos + sz) (n - sz) u')"
proof -
  have seg: "uio_segflg u = UIO_SYSSPACE" "uio_space u = None" using u by (simp_all add: kuio_def)
  have sz: "sz \<noteq> 0" "sz \<le> n" using ne n(1) by (simp_all add: sz_def)
  have "sub32 (uio_resid u) sz = uio_resid u - sz"
    using u sz n(2) by (simp add: kuio_def sub32_le)
  moreover have "min (length (iov_kbuf iov)) n = sz" "pos + sz \<le> length ptr" "uio_resid u > 0"
    using sz n by (simp_all add: sz_def)
  ultimately show ?thesis
    using seg(1) sz n(1) iov
    by (subst uiomove_from.simps)
      (simp add: iov_len_def uio_chunk_def kuio_step_def Let_def)
qed

lemma kuio_step_moved:
  assumes u: "kuio u" and iov: "uio_iov u = iov # rest"
    and sz: "sz \<le> length (iov_kbuf iov)" "sz \<le> uio_resid u" "pos + sz \<le> length ptr"
    and step: "kuio_step ptr pos sz u = (ptr', u')"
  shows "uio_moved (uio_bytes ptr pos sz u) u u'" and "ptr' = uio_ptr ptr pos sz u"
proof -
  let ?buf = "if uio_rw u = UIO_READ then take sz (drop pos ptr) else take sz (iov_kbuf iov)"
  have todo: "take sz (uio_todo u) = take sz (iov_kbuf iov)"
    "uio_todo u = iov_kbuf iov @ concat (map iov_kbuf rest)"
    using iov sz by (simp_all add: uio_todo_def)
  have len: "length ?buf = sz" using sz by simp
  have past: "concat (map iov_before rest) = []"
    using u iov by (simp add: kuio_def)
  have u': "u' = u\<lparr>uio_iov := iov\<lparr>iov_before := iov_before iov @ ?buf, iov_kbuf := drop sz (iov_kbuf iov)\<rparr> # rest,
      uio_resid := uio_resid u - sz, uio_offset := uio_offset u + sz, uio_space := uio_space u\<rparr>"
    and ptr': "ptr' = (if uio_rw u = UIO_READ then ptr else take pos ptr @ ?buf @ drop (pos + sz) ptr)"
    using step iov by (auto simp: kuio_step_def Let_def)
  have todo': "uio_todo u' = drop sz (uio_todo u)"
    using sz(1) by (simp add: u' todo(2)) (simp add: uio_todo_def)
  have done': "uio_done u' = uio_done u @ ?buf"
    using past iov by (simp add: uio_done_def u' del: concat_eq_Nil_conv)
  have "kuio u'" using u todo' sz(2) iov by (auto simp: kuio_def u')
  moreover have "uio_resid u = uio_resid u' + sz" "uio_offset u' = uio_offset u + sz"
    "uio_rw u' = uio_rw u" using sz(2) by (simp_all add: u')
  ultimately show "uio_moved (uio_bytes ptr pos sz u) u u'"
    using todo' done' unfolding uio_moved_def uio_bytes_def todo(1) len by simp
  show "ptr' = uio_ptr ptr pos sz u" using todo(1) by (simp add: ptr' uio_ptr_def)
qed

lemma uio_bytes_split:
  assumes "sz \<le> n" "sz \<le> length (uio_todo u)" "pos + n \<le> length ptr"
    and "uio_moved (uio_bytes ptr pos sz u) u u1"
  shows "uio_bytes ptr pos n u =
      uio_bytes ptr pos sz u @ uio_bytes (uio_ptr ptr pos sz u) (pos + sz) (n - sz) u1"
    and "uio_ptr (uio_ptr ptr pos sz u) (pos + sz) (n - sz) u1 = uio_ptr ptr pos n u"
proof -
  have n: "n = sz + (n - sz)" using assms(1) by simp
  have len: "length (uio_bytes ptr pos sz u) = sz" using assms(1-3) by (simp add: uio_bytes_def)
  have u1: "uio_rw u1 = uio_rw u" "uio_todo u1 = drop sz (uio_todo u)"
    using assms(4) len by (simp_all add: uio_moved_def)
  have tk: "take n xs = take sz xs @ take (n - sz) (drop sz xs)" for xs :: "u8 list"
    using take_add [of sz "n - sz" xs] n by simp
  show "uio_bytes ptr pos n u =
      uio_bytes ptr pos sz u @ uio_bytes (uio_ptr ptr pos sz u) (pos + sz) (n - sz) u1"
    using u1 tk [of "drop pos ptr"] tk [of "uio_todo u"]
    by (simp add: uio_bytes_def uio_ptr_def add.commute)
  show "uio_ptr (uio_ptr ptr pos sz u) (pos + sz) (n - sz) u1 = uio_ptr ptr pos n u"
    using u1 assms(1-3) tk [of "uio_todo u"] by (simp add: uio_ptr_def add.commute)
qed

lemma uio_moved_cong:
  "uio_done u1 = uio_done u \<Longrightarrow> uio_todo u1 = uio_todo u \<Longrightarrow> uio_resid u1 = uio_resid u \<Longrightarrow>
   uio_offset u1 = uio_offset u \<Longrightarrow> uio_rw u1 = uio_rw u \<Longrightarrow> uio_moved bs u1 u' = uio_moved bs u u'"
  by (simp add: uio_moved_def)

lemma uiomove_from_kernel:
  assumes "kuio u" and "n \<le> uio_resid u" and "pos + n \<le> length ptr"
  shows "\<exists>u'. uiomove_from ptr pos n u = Some (Inr (), uio_ptr ptr pos n u, u') \<and>
              uio_moved (uio_bytes ptr pos n u) u u'"
  using assms
proof (induction "n + length (uio_iov u)" arbitrary: ptr pos n u rule: less_induct)
  case less
  note u = less.prems(1)
  show ?case
  proof (cases "n = 0")
    case True
    with u show ?thesis
      by (subst uiomove_from.simps) (simp add: uio_moved_refl uio_ptr_def uio_bytes_def)
  next
    case n: False
    with less.prems(2) have resid: "uio_resid u > 0" by simp
    with u have "uio_todo u \<noteq> []" by (auto simp: kuio_def)
    then obtain iov rest where iov: "uio_iov u = iov # rest"
      by (cases "uio_iov u") (auto simp: uio_todo_def)
    have seg: "uio_segflg u = UIO_SYSSPACE" using u by (simp add: kuio_def)
    show ?thesis
    proof (cases "iov_kbuf iov = []")
      case True
      then have ne: "rest \<noteq> []" using \<open>uio_todo u \<noteq> []\<close> iov by (auto simp: uio_todo_def)
      define u1 where "u1 = u\<lparr>uio_iov := rest, uio_past := uio_past u @ [iov]\<rparr>"
      have same: "uio_todo u1 = uio_todo u" "uio_done u1 = uio_done u"
        using iov True by (simp_all add: u1_def uio_todo_def uio_done_def)
      have rest: "uio_resid u1 = uio_resid u" "uio_rw u1 = uio_rw u" "uio_offset u1 = uio_offset u"
        "length (uio_iov u1) < length (uio_iov u)" using iov by (simp_all add: u1_def)
      have k1: "kuio u1" using u iov same(1) by (cases rest) (auto simp: kuio_def u1_def)
      have run: "uiomove_from ptr pos n u = uiomove_from ptr pos n u1"
        using n resid iov seg True ne
        by (subst uiomove_from.simps) (simp add: iov_len_def u1_def)
      have "n + length (uio_iov u1) < n + length (uio_iov u)" "n \<le> uio_resid u1"
        using rest less.prems(2) by simp_all
      from less.hyps [OF this(1) k1 this(2) less.prems(3)] show ?thesis
        unfolding run uio_moved_cong [OF same(2,1) rest(1,3,2)] uio_ptr_def uio_bytes_def same rest .
    next
      case False
      define sz where "sz = min (length (iov_kbuf iov)) n"
      have sz: "0 < sz" "sz \<le> n" "sz \<le> length (iov_kbuf iov)" "sz \<le> uio_resid u" "pos + sz \<le> length ptr"
        using False n less.prems(2,3) by (auto simp: sz_def)
      obtain p1 u1 where step: "kuio_step ptr pos sz u = (p1, u1)" by fastforce
      note moved = kuio_step_moved [OF u iov sz(3-5) step]
      have run: "uiomove_from ptr pos n u = uiomove_from p1 (pos + sz) (n - sz) u1"
        using uiomove_from_step [OF u iov False _ less.prems(2,3)] n step by (simp add: sz_def)
      have len: "length (uio_bytes ptr pos sz u) = sz"
        using sz(4,5) u by (simp add: uio_bytes_def kuio_def)
      have "length (uio_iov u1) = length (uio_iov u)" "length p1 = length ptr"
        using step iov sz by (auto simp: kuio_step_def Let_def split: if_splits)
      then have pre: "n - sz + length (uio_iov u1) < n + length (uio_iov u)" "kuio u1"
          "n - sz \<le> uio_resid u1" "pos + sz + (n - sz) \<le> length p1"
        using moved(1) less.prems(2,3) sz len by (auto simp: uio_moved_def)
      have todo: "sz \<le> length (uio_todo u)" using sz(4) u by (simp add: kuio_def)
      from less.hyps [OF pre] obtain u2 where
        "uiomove_from p1 (pos + sz) (n - sz) u1 = Some (Inr (), uio_ptr p1 (pos + sz) (n - sz) u1, u2)"
        "uio_moved (uio_bytes p1 (pos + sz) (n - sz) u1) u1 u2" by blast
      with uio_bytes_split [OF sz(2) todo less.prems(3) moved(1)] uio_moved_trans [OF moved(1)] run moved(2)
      show ?thesis by auto
    qed
  qed
qed

lemma uiomove_kernel:
  assumes "kuio u" and "n \<le> uio_resid u" and "n \<le> length ptr"
  shows "\<exists>u'. uiomove ptr n u = Some (Inr (), uio_ptr ptr 0 n u, u') \<and>
              uio_moved (uio_bytes ptr 0 n u) u u'"
  using uiomove_from_kernel [of u n 0 ptr] assms by (simp add: uiomove_def kuio_def)

lemma uiomovezeros_kernel:
  assumes "kuio u" and "n \<le> uio_resid u" and "uio_rw u = UIO_READ"
  shows "\<exists>u'. uiomovezeros n u = Some (Inr (), u') \<and> uio_moved (replicate n 0) u u'"
  using assms
proof (induction n arbitrary: u rule: less_induct)
  case (less n)
  show ?case
  proof (cases "n = 0")
    case True
    with less.prems show ?thesis by (subst uiomovezeros.simps) (simp add: uio_moved_refl)
  next
    case False
    let ?a = "min 16 n"
    have "?a \<le> uio_resid u" using less.prems(2) by simp
    with uiomove_kernel [of u ?a "replicate 16 0"] less.prems obtain u1 where
      u1: "uiomove (replicate 16 0) ?a u = Some (Inr (), replicate 16 0, u1)"
        "uio_moved (replicate ?a 0) u u1"
      by (auto simp: uio_ptr_def uio_bytes_def)
    have "n - ?a < n" "kuio u1" "n - ?a \<le> uio_resid u1" "uio_rw u1 = UIO_READ"
      using False u1(2) less.prems by (auto simp: uio_moved_def)
    from less.IH [OF this] obtain u2 where
      u2: "uiomovezeros (n - ?a) u1 = Some (Inr (), u2)" "uio_moved (replicate (n - ?a) 0) u1 u2"
      by blast
    have "replicate ?a (0::u8) @ replicate (n - ?a) 0 = replicate n 0"
      by (simp flip: replicate_add)
    with uio_moved_trans [OF u1(2) u2(2)] u1(1) u2(1) False less.prems(3) show ?thesis
      by (subst uiomovezeros.simps) (simp add: Let_def)
  qed
qed

lemma kuio_kinit: "length kbuf < 2 ^ 32 \<Longrightarrow> kuio (uio_kinit kbuf pos rw)"
  and uio_kinit_simps [simp]: "uio_todo (uio_kinit kbuf pos rw) = kbuf"
    "uio_done (uio_kinit kbuf pos rw) = []" "uio_resid (uio_kinit kbuf pos rw) = length kbuf"
    "uio_offset (uio_kinit kbuf pos rw) = pos" "uio_rw (uio_kinit kbuf pos rw) = rw"
  by (simp_all add: kuio_def uio_kinit_def uio_todo_def uio_done_def)

subsection \<open>Properties\<close>

text \<open>
  C33. \<open>uiomove\<close> on kernel buffers transfers exactly the \<open>n\<close> bytes asked for, in order and
  across any number of buffers, when neither the residue nor the buffers are exceeded: a read
  appends the object's bytes to what was delivered before, a write takes the next bytes of the
  buffers into the object; the residue drops and the offset grows by \<open>n\<close>. It never panics
  and never reports an error then.
\<close>

theorem uiomove_transfers:
  assumes "kuio u" and "n \<le> uio_resid u" and "n \<le> length ptr"
  shows "\<exists>ptr' u'. uiomove ptr n u = Some (Inr (), ptr', u') \<and>
     uio_resid u' = uio_resid u - n \<and> uio_offset u' = uio_offset u + n \<and>
     uio_todo u' = drop n (uio_todo u) \<and>
     (uio_rw u = UIO_READ \<longrightarrow> ptr' = ptr \<and> uio_done u' = uio_done u @ take n ptr) \<and>
     (uio_rw u = UIO_WRITE \<longrightarrow> ptr' = take n (uio_todo u) @ drop n ptr)"
proof -
  have "length (uio_bytes ptr 0 n u) = n"
    using assms by (simp add: uio_bytes_def kuio_def)
  with uiomove_kernel [OF assms] assms(2) show ?thesis
    by (auto simp: uio_moved_def uio_ptr_def uio_bytes_def)
qed

definition uio_ex :: uio where
  "uio_ex = \<lparr>uio_iov = [\<lparr>iov_before = [], iov_kbuf = [0, 0], iov_ubase = 0, iov_ulen = 0\<rparr>,
                        \<lparr>iov_before = [], iov_kbuf = [0, 0, 0], iov_ubase = 0, iov_ulen = 0\<rparr>],
             uio_past = [], uio_offset = 7, uio_resid = 5, uio_segflg = UIO_SYSSPACE,
             uio_rw = UIO_READ, uio_space = None\<rparr>"

theorem uiomove_transfers_witness:
  "\<exists>u'. uiomove [1, 2, 3, 4] 4 uio_ex = Some (Inr (), [1, 2, 3, 4], u') \<and> uio_resid u' = 1 \<and>
        uio_done u' = [1, 2, 3, 4] \<and> uio_offset u' = 11"
proof -
  have "kuio uio_ex" "uio_resid uio_ex = 5" "uio_rw uio_ex = UIO_READ" "uio_done uio_ex = []"
      "uio_offset uio_ex = 7"
    by (simp_all add: kuio_def uio_ex_def uio_todo_def uio_done_def)
  with uiomove_transfers [of uio_ex 4 "[1, 2, 3, 4]"] show ?thesis by auto
qed

end
