(* ===== verification/Dev_Lhd.thy ===== *)
theory Dev_Lhd
  imports Kern_Uio
begin

section \<open>The disk driver: \<open>kern/dev/lamebus/lhd.c\<close>\<close>

text \<open>
  The driver of the LAMEbus disk. The state holds the number of sectors, the on-card buffer,
  the sectors, and the status codes the card will report for the operations to come (an
  operation beyond the end of that list succeeds). The driver waits for the completion
  interrupt of every operation; an operation the card never reports complete has no result.
  The semaphores that serialise the users of the card play no role in a sequential run.
\<close>

subsection \<open>The code\<close>

definition LHD_SECTSIZE :: nat where "LHD_SECTSIZE = 512"

definition LHD_OK :: u32 where "LHD_OK = 4"
definition LHD_INVSECT :: u32 where "LHD_INVSECT = 12"
definition LHD_MEDIA :: u32 where "LHD_MEDIA = 20"
definition LHD_ISWRITE :: u32 where "LHD_ISWRITE = 2"
definition LHD_STATEMASK :: u32 where "LHD_STATEMASK = 29"

record lhd =
  lh_blocks :: nat
  lh_buf :: "u8 list"
  lh_disk :: "nat \<Rightarrow> u8 list"
  lh_codes :: "u32 list"

definition lhd_code_to_errno :: "u32 \<Rightarrow> unit kresult" where
  "lhd_code_to_errno code =
     (if code AND LHD_STATEMASK = LHD_OK then Inr ()
      else if code AND LHD_STATEMASK = LHD_INVSECT then Inl EINVAL
      else if code AND LHD_STATEMASK = LHD_MEDIA then Inl EIO
      else Inl EAGAIN)"

text \<open>
  The interrupt handler: the result handed to the waiting thread through \<open>lh_result\<close>, or
  \<open>None\<close> when it does not report completion.
\<close>

definition lhd_irq :: "u32 \<Rightarrow> unit kresult option" where
  "lhd_irq val =
     (if val AND LHD_STATEMASK = LHD_OK \<or> val AND LHD_STATEMASK = LHD_INVSECT \<or>
         val AND LHD_STATEMASK = LHD_MEDIA
      then Some (lhd_code_to_errno val) else None)"

text \<open>
  What the card does when the status register is written: it reports the next code, and if
  that is \<open>LHD_OK\<close> the sector has been moved between the disk and the buffer.
\<close>

definition lhd_card :: "nat \<Rightarrow> uio_rw \<Rightarrow> lhd \<Rightarrow> u32 \<times> lhd" where
  "lhd_card sector rw lh =
     (let code = (case lh_codes lh of [] \<Rightarrow> LHD_OK | c # _ \<Rightarrow> c);
          lh1 = lh\<lparr>lh_codes := tl (lh_codes lh)\<rparr>
      in (code,
          if code AND LHD_STATEMASK = LHD_OK
          then (if rw = UIO_WRITE then lh1\<lparr>lh_disk := (lh_disk lh1)(sector := lh_buf lh1)\<rparr>
                else lh1\<lparr>lh_buf := lh_disk lh1 sector\<rparr>)
          else lh1))"

function lhd_sectors :: "nat \<Rightarrow> nat \<Rightarrow> nat \<Rightarrow> lhd \<Rightarrow> uio \<Rightarrow> (unit kresult \<times> lhd \<times> uio) option" where
  "lhd_sectors sector len i lh u =
     (if i < len then
        do {
          (r1, buf1, u1) \<leftarrow> (if uio_rw u = UIO_WRITE then uiomove (lh_buf lh) LHD_SECTSIZE u
                             else Some (Inr (), lh_buf lh, u));
          let lh1 = lh\<lparr>lh_buf := buf1\<rparr>;
          (case r1 of
             Inl e \<Rightarrow> Some (Inl e, lh1, u1)
           | Inr _ \<Rightarrow>
               do {
                 let (val, lh2) = lhd_card (wrap32 (sector + i)) (uio_rw u1) lh1;
                 result \<leftarrow> lhd_irq val;
                 (r2, buf2, u2) \<leftarrow>
                   (if result = Inr () \<and> uio_rw u1 = UIO_READ then uiomove (lh_buf lh2) LHD_SECTSIZE u1
                    else Some (result, lh_buf lh2, u1));
                 (case r2 of
                    Inl e \<Rightarrow> Some (Inl e, lh2, u2)
                  | Inr _ \<Rightarrow> lhd_sectors sector len (i + 1) lh2 u2)
               })
        }
      else Some (Inr (), lh, u))"
  by pat_completeness auto
termination by (relation "measure (\<lambda>(sector, len, i, lh, u). len - i)") auto

declare lhd_sectors.simps [simp del]

definition lhd_io :: "lhd \<Rightarrow> uio \<Rightarrow> (unit kresult \<times> lhd \<times> uio) option" where
  "lhd_io lh u =
     (let sector = wrap32 (uio_offset u div LHD_SECTSIZE);
          sectoff = uio_offset u mod LHD_SECTSIZE;
          len = uio_resid u div LHD_SECTSIZE;
          lenoff = uio_resid u mod LHD_SECTSIZE
      in if sectoff \<noteq> 0 \<or> lenoff \<noteq> 0 then Some (Inl EINVAL, lh, u)
         else if wrap32 (sector + len) > lh_blocks lh then Some (Inl EINVAL, lh, u)
         else lhd_sectors sector len 0 lh u)"

definition lhd_open :: "unit kresult" where
  "lhd_open = Inr ()"

definition lhd_close :: "unit kresult" where
  "lhd_close = Inr ()"

definition lhd_ioctl :: "unit kresult" where
  "lhd_ioctl = Inl EIOCTL"

subsection \<open>Invariant and the behaviour of one sector\<close>

definition lhd_wf :: "lhd \<Rightarrow> bool" where
  "lhd_wf lh \<longleftrightarrow> lh_blocks lh < 2 ^ 32 \<and> length (lh_buf lh) = LHD_SECTSIZE \<and>
     (\<forall>b < lh_blocks lh. length (lh_disk lh b) = LHD_SECTSIZE)"

lemma lhd_codes_irq [simp]:
  "lhd_irq LHD_OK = Some (Inr ())" "lhd_irq LHD_MEDIA = Some (Inl EIO)"
  "LHD_OK AND LHD_STATEMASK = LHD_OK" "LHD_MEDIA AND LHD_STATEMASK \<noteq> LHD_OK"
  by (simp_all add: lhd_irq_def lhd_code_to_errno_def LHD_OK_def LHD_MEDIA_def LHD_STATEMASK_def
      LHD_INVSECT_def)

lemma lhd_card_ok:
  assumes "lh_codes lh = []"
  shows "lhd_card sector rw lh =
    (LHD_OK, if rw = UIO_WRITE then lh\<lparr>lh_disk := (lh_disk lh)(sector := lh_buf lh)\<rparr>
             else lh\<lparr>lh_buf := lh_disk lh sector\<rparr>)"
proof -
  have "lh\<lparr>lh_codes := tl (lh_codes lh)\<rparr> = lh" using assms by (cases lh) simp
  with assms show ?thesis unfolding lhd_card_def by (simp only: Let_def) simp
qed

lemma lhd_sectors_done: "len \<le> i \<Longrightarrow> lhd_sectors sector len i lh u = Some (Inr (), lh, u)"
  by (subst lhd_sectors.simps) simp

lemma lhd_io_one:
  assumes "b < lh_blocks lh" and "lh_blocks lh < 2 ^ 32"
    and "uio_offset u = b * LHD_SECTSIZE" and "uio_resid u = LHD_SECTSIZE"
  shows "lhd_io lh u = lhd_sectors b 1 0 lh u"
  using assms by (simp add: lhd_io_def Let_def LHD_SECTSIZE_def)

lemma lhd_io_zero:
  assumes "b \<le> lh_blocks lh" and "lh_blocks lh < 2 ^ 32"
    and "uio_offset u = b * LHD_SECTSIZE" and "uio_resid u = 0"
  shows "lhd_io lh u = Some (Inr (), lh, u)"
  using assms by (simp add: lhd_io_def Let_def LHD_SECTSIZE_def lhd_sectors_done)

lemma lhd_read_ok:
  assumes wf: "lhd_wf lh" and b: "b < lh_blocks lh" and codes: "lh_codes lh = []" and u: "kuio u"
    and off: "uio_offset u = b * LHD_SECTSIZE" "uio_resid u = LHD_SECTSIZE" and rw: "uio_rw u = UIO_READ"
  shows "\<exists>u'. lhd_io lh u = Some (Inr (), lh\<lparr>lh_buf := lh_disk lh b\<rparr>, u') \<and>
              uio_moved (lh_disk lh b) u u'"
proof -
  have len: "length (lh_disk lh b) = LHD_SECTSIZE" "lh_blocks lh < 2 ^ 32"
    using wf b by (simp_all add: lhd_wf_def)
  from uiomove_kernel [OF u, of LHD_SECTSIZE "lh_disk lh b"] off rw len obtain u' where
    u': "uiomove (lh_disk lh b) LHD_SECTSIZE u = Some (Inr (), lh_disk lh b, u')"
        "uio_moved (lh_disk lh b) u u'"
    by (auto simp: uio_ptr_def uio_bytes_def)
  have w: "wrap32 b = b" using b len(2) by simp
  have "lhd_io lh u = lhd_sectors b 1 0 lh u" by (rule lhd_io_one [OF b len(2) off])
  also have "\<dots> = lhd_sectors b 1 1 (lh\<lparr>lh_buf := lh_disk lh b\<rparr>) u'"
    using rw codes u'(1) w
    by (subst lhd_sectors.simps) (simp add: lhd_card_ok)
  finally show ?thesis using u'(2) by (simp add: lhd_sectors_done)
qed

lemma lhd_write_card:
  assumes wf: "lhd_wf lh" and b: "b < lh_blocks lh" and u: "kuio u"
    and off: "uio_offset u = b * LHD_SECTSIZE" "uio_resid u = LHD_SECTSIZE" and rw: "uio_rw u = UIO_WRITE"
  defines "data \<equiv> take LHD_SECTSIZE (uio_todo u)"
  shows "\<exists>u'. uio_moved data u u' \<and>
     (lh_codes lh = [] \<longrightarrow>
        lhd_io lh u = Some (Inr (), lh\<lparr>lh_buf := data, lh_disk := (lh_disk lh)(b := data)\<rparr>, u')) \<and>
     (\<forall>cs. lh_codes lh = LHD_MEDIA # cs \<longrightarrow>
        lhd_io lh u = Some (Inl EIO, lh\<lparr>lh_buf := data, lh_codes := cs\<rparr>, u'))"
proof -
  have len: "length (lh_buf lh) = LHD_SECTSIZE" "lh_blocks lh < 2 ^ 32"
    using wf by (simp_all add: lhd_wf_def)
  from uiomove_kernel [OF u, of LHD_SECTSIZE "lh_buf lh"] off rw len obtain u' where
    u': "uiomove (lh_buf lh) LHD_SECTSIZE u = Some (Inr (), data, u')" "uio_moved data u u'"
    by (auto simp: uio_ptr_def uio_bytes_def data_def)
  then have rw': "uio_rw u' = UIO_WRITE" using rw by (simp add: uio_moved_def)
  have w: "wrap32 b = b" using b len(2) by simp
  have io: "lhd_io lh u = lhd_sectors b 1 0 lh u" by (rule lhd_io_one [OF b len(2) off])
  have "lhd_sectors b 1 0 lh u =
      lhd_sectors b 1 1 (lh\<lparr>lh_buf := data, lh_disk := (lh_disk lh)(b := data)\<rparr>) u'"
    if "lh_codes lh = []"
    using that rw rw' u'(1) w by (subst lhd_sectors.simps) (simp add: lhd_card_ok)
  moreover have "lhd_sectors b 1 0 lh u = Some (Inl EIO, lh\<lparr>lh_buf := data, lh_codes := cs\<rparr>, u')"
    if "lh_codes lh = LHD_MEDIA # cs" for cs
    using that rw rw' u'(1) w by (subst lhd_sectors.simps) (simp add: lhd_card_def Let_def)
  ultimately show ?thesis using u'(2) io by (auto simp: lhd_sectors_done)
qed

end
