(* ===== verification/Sfs_Block.thy ===== *)
theory Sfs_Block
  imports Dev_Lhd
begin

section \<open>SFS blocks: \<open>kern/fs/sfs/sfs_io.c\<close> and the on-disk format \<open>kern/include/kern/sfs.h\<close>\<close>

text \<open>
  Block input and output of the Simple File System, and the layout of its structures. The
  kernel reads a block straight into a C structure; on this big-endian machine that decodes
  the bytes the way \<open>decode_inode\<close> and its siblings do.
\<close>

subsection \<open>Block input and output\<close>

definition SFS_BLOCKSIZE :: nat where "SFS_BLOCKSIZE = 512"

text \<open>The label \<open>retry\<close> of \<open>sfs_rwblock\<close>, with the number of tries so far.\<close>

function sfs_retry :: "nat \<Rightarrow> lhd \<Rightarrow> uio \<Rightarrow> (unit kresult \<times> lhd \<times> uio) option" where
  "sfs_retry tries lh u = do {
     (result, lh', u') \<leftarrow> lhd_io lh u;
     (if result = Inl EINVAL then panic
      else if result = Inl EIO \<and> tries < 10 then sfs_retry (tries + 1) lh' u'
      else Some (result, lh', u'))
   }"
  by pat_completeness auto
termination by (relation "measure (\<lambda>(tries, lh, u). 10 - tries)") auto

declare sfs_retry.simps [simp del]

definition sfs_rwblock :: "lhd \<Rightarrow> uio \<Rightarrow> (unit kresult \<times> lhd \<times> uio) option" where
  "sfs_rwblock lh u = sfs_retry 0 lh u"

text \<open>The buffer \<open>data\<close> holds one block; \<open>sfs_rblock\<close> hands back its new contents.\<close>

definition sfs_rblock :: "lhd \<Rightarrow> u8 list \<Rightarrow> nat \<Rightarrow> (unit kresult \<times> u8 list \<times> lhd) option" where
  "sfs_rblock lh data block = do {
     (result, lh', ku) \<leftarrow> sfs_rwblock lh (uio_kinit data (block * SFS_BLOCKSIZE) UIO_READ);
     Some (result, uio_done ku @ uio_todo ku, lh')
   }"

definition sfs_wblock :: "lhd \<Rightarrow> u8 list \<Rightarrow> nat \<Rightarrow> (unit kresult \<times> lhd) option" where
  "sfs_wblock lh data block = do {
     (result, lh', ku) \<leftarrow> sfs_rwblock lh (uio_kinit data (block * SFS_BLOCKSIZE) UIO_WRITE);
     Some (result, lh')
   }"

subsection \<open>Layout\<close>

definition SFS_MAGIC :: nat where "SFS_MAGIC = 0xabadf001"
definition SFS_VOLNAME_SIZE :: nat where "SFS_VOLNAME_SIZE = 32"
definition SFS_NDIRECT :: nat where "SFS_NDIRECT = 15"
definition SFS_DBPERIDB :: nat where "SFS_DBPERIDB = 128"
definition SFS_NAMELEN :: nat where "SFS_NAMELEN = 60"
definition SFS_SB_LOCATION :: nat where "SFS_SB_LOCATION = 0"
definition SFS_ROOT_LOCATION :: nat where "SFS_ROOT_LOCATION = 1"
definition SFS_MAP_LOCATION :: nat where "SFS_MAP_LOCATION = 2"
definition SFS_NOINO :: nat where "SFS_NOINO = 0"
definition SFS_TYPE_INVAL :: nat where "SFS_TYPE_INVAL = 0"
definition SFS_TYPE_FILE :: nat where "SFS_TYPE_FILE = 1"
definition SFS_TYPE_DIR :: nat where "SFS_TYPE_DIR = 2"

definition SFS_BLOCKBITS :: nat where "SFS_BLOCKBITS = SFS_BLOCKSIZE * 8"

definition SFS_ROUNDUP :: "nat \<Rightarrow> nat \<Rightarrow> nat" where
  "SFS_ROUNDUP a b = wrap32 (wrap32 (a + b - 1) div b * b)"

definition SFS_BITMAPSIZE :: "nat \<Rightarrow> nat" where
  "SFS_BITMAPSIZE nblocks = SFS_ROUNDUP nblocks SFS_BLOCKBITS"

definition SFS_BITBLOCKS :: "nat \<Rightarrow> nat" where
  "SFS_BITBLOCKS nblocks = SFS_BITMAPSIZE nblocks div SFS_BLOCKBITS"

text \<open>32-bit words in big-endian order.\<close>

definition be32 :: "nat \<Rightarrow> u8 list" where
  "be32 n = [word_of_nat (n div 2 ^ 24), word_of_nat (n div 2 ^ 16), word_of_nat (n div 2 ^ 8),
             word_of_nat n]"

fun be32s :: "u8 list \<Rightarrow> nat list" where
  "be32s (a # b # c # d # bs) =
     (unat a * 2 ^ 24 + unat b * 2 ^ 16 + unat c * 2 ^ 8 + unat d) # be32s bs"
| "be32s _ = []"

definition enc32s :: "nat list \<Rightarrow> u8 list" where
  "enc32s ns = concat (map be32 ns)"

record sfs_super =
  sp_magic :: nat
  sp_nblocks :: nat
  sp_volname :: "u8 list"
  sp_reserved :: "nat list"

record sfs_inode =
  sfi_size :: nat
  sfi_type :: nat
  sfi_linkcount :: nat
  sfi_direct :: "nat list"
  sfi_indirect :: nat
  sfi_waste :: "nat list"

record sfs_dir =
  sfd_ino :: nat
  sfd_name :: "u8 list"

definition decode_super :: "u8 list \<Rightarrow> sfs_super" where
  "decode_super bs =
     \<lparr>sp_magic = hd (be32s (take 4 bs)), sp_nblocks = hd (be32s (take 4 (drop 4 bs))),
      sp_volname = take SFS_VOLNAME_SIZE (drop 8 bs), sp_reserved = be32s (drop (8 + SFS_VOLNAME_SIZE) bs)\<rparr>"

definition encode_super :: "sfs_super \<Rightarrow> u8 list" where
  "encode_super sp = be32 (sp_magic sp) @ be32 (sp_nblocks sp) @ sp_volname sp @ enc32s (sp_reserved sp)"

definition decode_inode :: "u8 list \<Rightarrow> sfs_inode" where
  "decode_inode bs =
     (let ws = be32s bs in
      \<lparr>sfi_size = ws ! 0, sfi_type = ws ! 1 div 2 ^ 16, sfi_linkcount = ws ! 1 mod 2 ^ 16,
       sfi_direct = take SFS_NDIRECT (drop 2 ws), sfi_indirect = ws ! (2 + SFS_NDIRECT),
       sfi_waste = drop (3 + SFS_NDIRECT) ws\<rparr>)"

definition encode_inode :: "sfs_inode \<Rightarrow> u8 list" where
  "encode_inode i =
     enc32s ([sfi_size i, sfi_type i * 2 ^ 16 + sfi_linkcount i] @ sfi_direct i @ [sfi_indirect i] @
             sfi_waste i)"

definition decode_dir :: "u8 list \<Rightarrow> sfs_dir" where
  "decode_dir bs = \<lparr>sfd_ino = hd (be32s (take 4 bs)), sfd_name = take SFS_NAMELEN (drop 4 bs)\<rparr>"

definition encode_dir :: "sfs_dir \<Rightarrow> u8 list" where
  "encode_dir sd = be32 (sfd_ino sd) @ sfd_name sd"

definition SFS_DIRSIZE :: nat where "SFS_DIRSIZE = 64"

subsection \<open>Encoding round trips\<close>

lemma length_be32 [simp]: "length (be32 n) = 4"
  by (simp add: be32_def)

lemma byte_sum:
  fixes n :: nat
  shows "n div 2 ^ 24 * 2 ^ 24 + n div 2 ^ 16 mod 256 * 2 ^ 16 + n div 2 ^ 8 mod 256 * 2 ^ 8
        + n mod 256 = n"
proof -
  define a b c where "a = n div 256" and "b = a div 256" and "c = b div 256"
  have d: "n div 2 ^ 8 = a" "n div 2 ^ 16 = b" "n div 2 ^ 24 = c"
    by (simp_all add: a_def b_def c_def flip: div_mult2_eq)
  have "n = a * 256 + n mod 256" "a = b * 256 + a mod 256" "b = c * 256 + b mod 256"
    unfolding a_def b_def c_def by (rule div_mult_mod_eq [symmetric])+
  then have "((c * 256 + b mod 256) * 256 + a mod 256) * 256 + n mod 256 = n" by metis
  then show ?thesis unfolding d by (simp add: algebra_simps)
qed

lemma be32s_be32 [simp]:
  assumes "n < 2 ^ 32"
  shows "be32s (be32 n @ bs) = n # be32s bs"
proof -
  have "unat (word_of_nat k :: u8) = k mod 256" for k
    by (simp add: unat_of_nat)
  moreover have "n div 2 ^ 24 mod 256 = n div 2 ^ 24" using assms by simp
  ultimately show ?thesis using byte_sum [of n] by (simp add: be32_def)
qed

lemma be32s_enc32s: "(\<forall>n \<in> set ns. n < 2 ^ 32) \<Longrightarrow> be32s (enc32s ns) = ns"
proof (induction ns)
  case (Cons n ns)
  then have "be32s (be32 n @ enc32s ns) = n # be32s (enc32s ns)" by (intro be32s_be32) simp
  with Cons show ?case by (simp add: enc32s_def)
qed (simp add: enc32s_def)

lemma length_enc32s [simp]: "length (enc32s ns) = 4 * length ns"
  by (induction ns) (simp_all add: enc32s_def)

lemma length_be32s: "length (be32s bs) = length bs div 4"
  by (induction bs rule: be32s.induct) simp_all

lemma u8_unat_less: "unat (a :: u8) < 256"
  using unsigned_less [of a, where 'a = nat] by simp

lemma be32s_bound: "n \<in> set (be32s bs) \<Longrightarrow> n < 2 ^ 32"
proof (induction bs rule: be32s.induct)
  case (1 a b c d bs)
  have "unat a < 256" "unat b < 256" "unat c < 256" "unat d < 256"
    by (rule u8_unat_less)+
  with 1 show ?case by auto
qed simp_all

definition inode_wf :: "sfs_inode \<Rightarrow> bool" where
  "inode_wf i \<longleftrightarrow> sfi_size i < 2 ^ 32 \<and> sfi_type i < 2 ^ 16 \<and> sfi_linkcount i < 2 ^ 16 \<and>
     length (sfi_direct i) = SFS_NDIRECT \<and> (\<forall>b \<in> set (sfi_direct i). b < 2 ^ 32) \<and>
     sfi_indirect i < 2 ^ 32 \<and> length (sfi_waste i) = 128 - 3 - SFS_NDIRECT \<and>
     (\<forall>b \<in> set (sfi_waste i). b < 2 ^ 32)"

lemma length_encode_inode: "inode_wf i \<Longrightarrow> length (encode_inode i) = SFS_BLOCKSIZE"
  by (simp add: encode_inode_def inode_wf_def SFS_NDIRECT_def SFS_BLOCKSIZE_def)

lemma decode_encode_inode:
  assumes "inode_wf i"
  shows "decode_inode (encode_inode i) = i"
proof -
  have "sfi_type i * 2 ^ 16 + sfi_linkcount i < 2 ^ 32"
  proof -
    have "sfi_type i \<le> 2 ^ 16 - 1" "sfi_linkcount i \<le> 2 ^ 16 - 1" using assms by (simp_all add: inode_wf_def)
    then show ?thesis by simp
  qed
  then have "be32s (encode_inode i) =
      [sfi_size i, sfi_type i * 2 ^ 16 + sfi_linkcount i] @ sfi_direct i @ [sfi_indirect i] @ sfi_waste i"
    unfolding encode_inode_def using assms by (intro be32s_enc32s) (auto simp: inode_wf_def)
  with assms show ?thesis
    by (simp add: decode_inode_def Let_def inode_wf_def SFS_NDIRECT_def nth_append)
qed

lemma decode_inode_wf: "length bs = SFS_BLOCKSIZE \<Longrightarrow> inode_wf (decode_inode bs)"
proof -
  assume len: "length bs = SFS_BLOCKSIZE"
  then have l: "length (be32s bs) = 128" by (simp add: length_be32s SFS_BLOCKSIZE_def)
  have b: "be32s bs ! k < 2 ^ 32" if "k < 128" for k
    using that l by (intro be32s_bound nth_mem [THEN be32s_bound]) (simp add: l)
  show ?thesis
    using b [of 0] b [of 1] b [of 17] l
    by (auto simp: inode_wf_def decode_inode_def Let_def SFS_NDIRECT_def
        dest!: in_set_takeD in_set_dropD be32s_bound)
qed

definition dir_wf :: "sfs_dir \<Rightarrow> bool" where
  "dir_wf sd \<longleftrightarrow> sfd_ino sd < 2 ^ 32 \<and> length (sfd_name sd) = SFS_NAMELEN"

lemma length_encode_dir: "dir_wf sd \<Longrightarrow> length (encode_dir sd) = SFS_DIRSIZE"
  by (simp add: encode_dir_def dir_wf_def SFS_NAMELEN_def SFS_DIRSIZE_def)

lemma decode_encode_dir:
  assumes "dir_wf sd"
  shows "decode_dir (encode_dir sd) = sd"
proof -
  have "be32s (be32 (sfd_ino sd)) = [sfd_ino sd]"
    using be32s_be32 [of "sfd_ino sd" "[]"] assms by (simp add: dir_wf_def)
  with assms show ?thesis by (simp add: decode_dir_def encode_dir_def dir_wf_def)
qed

subsection \<open>Block input and output on a working disk\<close>

lemma sfs_retry_ok: "lhd_io lh u = Some (Inr (), lh', u') \<Longrightarrow> sfs_retry t lh u = Some (Inr (), lh', u')"
  by (subst sfs_retry.simps) simp

lemma sfs_rblock_ok:
  assumes wf: "lhd_wf lh" and b: "b < lh_blocks lh" and codes: "lh_codes lh = []"
    and buf: "length buf = SFS_BLOCKSIZE"
  shows "sfs_rblock lh buf b = Some (Inr (), lh_disk lh b, lh\<lparr>lh_buf := lh_disk lh b\<rparr>)"
proof -
  let ?u = "uio_kinit buf (b * SFS_BLOCKSIZE) UIO_READ"
  have sz: "LHD_SECTSIZE = SFS_BLOCKSIZE" by (simp add: LHD_SECTSIZE_def SFS_BLOCKSIZE_def)
  have "kuio ?u" using buf by (intro kuio_kinit) (simp add: SFS_BLOCKSIZE_def)
  from lhd_read_ok [OF wf b codes this] buf sz obtain u' where
    u': "lhd_io lh ?u = Some (Inr (), lh\<lparr>lh_buf := lh_disk lh b\<rparr>, u')" "uio_moved (lh_disk lh b) ?u u'"
    by auto
  have "length (lh_disk lh b) = SFS_BLOCKSIZE" using wf b sz by (simp add: lhd_wf_def)
  with u'(2) buf have "uio_done u' @ uio_todo u' = lh_disk lh b" by (simp add: uio_moved_def)
  with sfs_retry_ok [OF u'(1)] show ?thesis by (simp add: sfs_rblock_def sfs_rwblock_def)
qed

lemma sfs_wblock_ok:
  assumes wf: "lhd_wf lh" and b: "b < lh_blocks lh" and codes: "lh_codes lh = []"
    and data: "length data = SFS_BLOCKSIZE"
  shows "sfs_wblock lh data b =
    Some (Inr (), lh\<lparr>lh_buf := data, lh_disk := (lh_disk lh)(b := data)\<rparr>)"
proof -
  let ?u = "uio_kinit data (b * SFS_BLOCKSIZE) UIO_WRITE"
  have sz: "LHD_SECTSIZE = SFS_BLOCKSIZE" by (simp add: LHD_SECTSIZE_def SFS_BLOCKSIZE_def)
  have "kuio ?u" using data by (intro kuio_kinit) (simp add: SFS_BLOCKSIZE_def)
  from lhd_write_card [OF wf b this] codes data sz obtain u' where
    "lhd_io lh ?u = Some (Inr (), lh\<lparr>lh_buf := data, lh_disk := (lh_disk lh)(b := data)\<rparr>, u')"
    by auto
  from sfs_retry_ok [OF this] show ?thesis by (simp add: sfs_wblock_def sfs_rwblock_def)
qed

definition lhd_ok :: "lhd \<Rightarrow> bool" where
  "lhd_ok lh \<longleftrightarrow> lhd_wf lh \<and> lh_codes lh = []"

subsection \<open>The contract of a block store\<close>

text \<open>
  Loops over consecutive blocks, as \<open>sfs_mapio\<close> has them: from block \<open>start\<close> on, write the
  blocks of a list, or read as many blocks as the list has.
\<close>

primrec write_run ::
  "('d \<Rightarrow> u8 list \<Rightarrow> nat \<Rightarrow> (unit kresult \<times> 'd) option) \<Rightarrow> 'd \<Rightarrow> nat \<Rightarrow> u8 list list \<Rightarrow>
   (unit kresult \<times> 'd) option" where
  "write_run wblock d start [] = Some (Inr (), d)"
| "write_run wblock d start (blk # blks) = do {
     (r, d') \<leftarrow> wblock d blk start;
     (case r of Inl e \<Rightarrow> Some (Inl e, d') | Inr _ \<Rightarrow> write_run wblock d' (Suc start) blks)
   }"

primrec read_run ::
  "('d \<Rightarrow> u8 list \<Rightarrow> nat \<Rightarrow> (unit kresult \<times> u8 list \<times> 'd) option) \<Rightarrow> 'd \<Rightarrow> nat \<Rightarrow> u8 list list \<Rightarrow>
   (unit kresult \<times> u8 list list \<times> 'd) option" where
  "read_run rblock d start [] = Some (Inr (), [], d)"
| "read_run rblock d start (blk # blks) = do {
     (r, blk', d') \<leftarrow> rblock d blk start;
     (case r of
        Inl e \<Rightarrow> Some (Inl e, blk' # blks, d')
      | Inr _ \<Rightarrow> do {
          (r', blks', d'') \<leftarrow> read_run rblock d' (Suc start) blks;
          Some (r', blk' # blks', d'')
        })
   }"

locale block_store =
  fixes ok :: "'d \<Rightarrow> bool"
    and nblocks :: "'d \<Rightarrow> nat"
    and disk :: "'d \<Rightarrow> nat \<Rightarrow> u8 list"
    and rblock :: "'d \<Rightarrow> u8 list \<Rightarrow> nat \<Rightarrow> (unit kresult \<times> u8 list \<times> 'd) option"
    and wblock :: "'d \<Rightarrow> u8 list \<Rightarrow> nat \<Rightarrow> (unit kresult \<times> 'd) option"
  assumes disk_length: "ok d \<Longrightarrow> b < nblocks d \<Longrightarrow> length (disk d b) = SFS_BLOCKSIZE"
    and rblock: "ok d \<Longrightarrow> b < nblocks d \<Longrightarrow> length buf = SFS_BLOCKSIZE \<Longrightarrow>
      \<exists>d'. rblock d buf b = Some (Inr (), disk d b, d') \<and> ok d' \<and> disk d' = disk d \<and> nblocks d' = nblocks d"
    and wblock: "ok d \<Longrightarrow> b < nblocks d \<Longrightarrow> length data = SFS_BLOCKSIZE \<Longrightarrow>
      \<exists>d'. wblock d data b = Some (Inr (), d') \<and> ok d' \<and> disk d' = (disk d)(b := data) \<and> nblocks d' = nblocks d"
begin

lemma write_run_disk:
  assumes "ok d" and "start + length blks \<le> nblocks d" and "\<forall>blk \<in> set blks. length blk = SFS_BLOCKSIZE"
  shows "\<exists>d'. write_run wblock d start blks = Some (Inr (), d') \<and> ok d' \<and> nblocks d' = nblocks d \<and>
     disk d' = (\<lambda>b. if start \<le> b \<and> b < start + length blks then blks ! (b - start) else disk d b)"
  using assms
proof (induction blks arbitrary: d start)
  case Nil
  then show ?case by (auto simp: fun_eq_iff)
next
  case (Cons blk blks)
  then have "start < nblocks d" "length blk = SFS_BLOCKSIZE" by simp_all
  from wblock [OF Cons.prems(1) this] obtain d1 where
    d1: "wblock d blk start = Some (Inr (), d1)" "ok d1" "disk d1 = (disk d)(start := blk)"
      "nblocks d1 = nblocks d" by blast
  from Cons.IH [OF d1(2), of "Suc start"] Cons.prems(2,3) d1(4) obtain d2 where
    d2: "write_run wblock d1 (Suc start) blks = Some (Inr (), d2)" "ok d2" "nblocks d2 = nblocks d"
      "disk d2 = (\<lambda>b. if Suc start \<le> b \<and> b < Suc start + length blks then blks ! (b - Suc start)
                       else disk d1 b)" by auto
  have "disk d2 b = (if start \<le> b \<and> b < start + length (blk # blks) then (blk # blks) ! (b - start)
                     else disk d b)" for b
    by (cases "b = start") (auto simp: d2(4) d1(3) nth_Cons' not_less_eq_eq)
  with d1(1) d2(1-3) show ?case by auto
qed

lemma read_run_disk:
  assumes "ok d" and "start + length blks \<le> nblocks d" and "\<forall>blk \<in> set blks. length blk = SFS_BLOCKSIZE"
  shows "\<exists>d'. read_run rblock d start blks = Some (Inr (), map (disk d) [start..<start + length blks], d') \<and>
     ok d' \<and> nblocks d' = nblocks d \<and> disk d' = disk d"
  using assms
proof (induction blks arbitrary: d start)
  case Nil
  then show ?case by simp
next
  case (Cons blk blks)
  then have "start < nblocks d" "length blk = SFS_BLOCKSIZE" by simp_all
  from rblock [OF Cons.prems(1) this] obtain d1 where
    d1: "rblock d blk start = Some (Inr (), disk d start, d1)" "ok d1" "disk d1 = disk d"
      "nblocks d1 = nblocks d" by blast
  from Cons.IH [OF d1(2), of "Suc start"] Cons.prems(2,3) d1(3,4) obtain d2 where
    "read_run rblock d1 (Suc start) blks =
       Some (Inr (), map (disk d) [Suc start..<Suc start + length blks], d2)"
    "ok d2" "nblocks d2 = nblocks d" "disk d2 = disk d" by auto
  moreover have "[start..<start + length (blk # blks)] = start # [Suc start..<Suc start + length blks]"
    by (simp add: upt_conv_Cons del: upt_Suc)
  ultimately show ?case using d1(1) by (simp del: upt_Suc)
qed

lemma write_read_run:
  assumes "ok d" and "start + length blks \<le> nblocks d" and "\<forall>blk \<in> set blks. length blk = SFS_BLOCKSIZE"
    and "length bufs = length blks" and "\<forall>blk \<in> set bufs. length blk = SFS_BLOCKSIZE"
  shows "\<exists>d' d''. write_run wblock d start blks = Some (Inr (), d') \<and>
                  read_run rblock d' start bufs = Some (Inr (), blks, d'')"
proof -
  from write_run_disk [OF assms(1-3)] obtain d' where
    d': "write_run wblock d start blks = Some (Inr (), d')" "ok d'" "nblocks d' = nblocks d"
      "disk d' = (\<lambda>b. if start \<le> b \<and> b < start + length blks then blks ! (b - start) else disk d b)"
    by blast
  have "map (disk d') [start..<start + length bufs] = blks"
    using assms(4) by (intro nth_equalityI) (simp_all add: d'(4))
  with read_run_disk [OF d'(2), of start bufs] assms(2,4,5) d'(1,3) show ?thesis by auto
qed

end

interpretation sb: block_store lhd_ok lh_blocks lh_disk sfs_rblock sfs_wblock
proof unfold_locales
  show "length (lh_disk d b) = SFS_BLOCKSIZE" if "lhd_ok d" "b < lh_blocks d" for d b
    using that by (simp add: lhd_ok_def lhd_wf_def LHD_SECTSIZE_def SFS_BLOCKSIZE_def)
  show "\<exists>d'. sfs_rblock d buf b = Some (Inr (), lh_disk d b, d') \<and> lhd_ok d' \<and> lh_disk d' = lh_disk d \<and>
      lh_blocks d' = lh_blocks d"
    if "lhd_ok d" "b < lh_blocks d" "length buf = SFS_BLOCKSIZE" for d buf b
    using that sfs_rblock_ok [of d b buf] by (simp add: lhd_ok_def lhd_wf_def)
  show "\<exists>d'. sfs_wblock d data b = Some (Inr (), d') \<and> lhd_ok d' \<and> lh_disk d' = (lh_disk d)(b := data) \<and>
      lh_blocks d' = lh_blocks d"
    if "lhd_ok d" "b < lh_blocks d" "length data = SFS_BLOCKSIZE" for d data b
    using that sfs_wblock_ok [of d b data]
    by (simp add: lhd_ok_def lhd_wf_def LHD_SECTSIZE_def SFS_BLOCKSIZE_def)
qed

subsection \<open>Media errors\<close>

lemma lhd_read_media:
  assumes wf: "lhd_wf lh" and b: "b < lh_blocks lh" and codes: "lh_codes lh = LHD_MEDIA # cs"
    and off: "uio_offset u = b * LHD_SECTSIZE" "uio_resid u = LHD_SECTSIZE" and rw: "uio_rw u = UIO_READ"
  shows "lhd_io lh u = Some (Inl EIO, lh\<lparr>lh_codes := cs\<rparr>, u)"
proof -
  have "lhd_io lh u = lhd_sectors b 1 0 lh u"
    using wf by (intro lhd_io_one [OF b _ off]) (simp add: lhd_wf_def)
  also have "\<dots> = Some (Inl EIO, lh\<lparr>lh_codes := cs\<rparr>, u)"
    using codes rw by (subst lhd_sectors.simps) (simp add: lhd_card_def Let_def)
  finally show ?thesis .
qed

lemma sfs_retry_read:
  assumes "lhd_wf lh" and "b < lh_blocks lh" and "lh_codes lh = replicate k LHD_MEDIA" and "kuio u"
    and "uio_offset u = b * LHD_SECTSIZE" and "uio_resid u = LHD_SECTSIZE" and "uio_rw u = UIO_READ"
    and "k + t \<le> 10"
  shows "\<exists>lh' u'. sfs_retry t lh u = Some (Inr (), lh', u') \<and> uio_moved (lh_disk lh b) u u' \<and>
                  lh_disk lh' = lh_disk lh"
  using assms(1-3,8)
proof (induction k arbitrary: lh t)
  case 0
  then have c: "lh_codes lh = []" by simp
  from lhd_read_ok [OF 0(1,2) c assms(4-7)] obtain u' where
    "lhd_io lh u = Some (Inr (), lh\<lparr>lh_buf := lh_disk lh b\<rparr>, u')" "uio_moved (lh_disk lh b) u u'" by blast
  from sfs_retry_ok [OF this(1)] this(2) show ?case by simp
next
  case (Suc k)
  have c: "lh_codes lh = LHD_MEDIA # replicate k LHD_MEDIA" using Suc.prems(3) by simp
  note io = lhd_read_media [OF Suc.prems(1,2) c assms(5-7)]
  have "sfs_retry t lh u = sfs_retry (t + 1) (lh\<lparr>lh_codes := replicate k LHD_MEDIA\<rparr>) u"
    using io Suc.prems(4) by (subst sfs_retry.simps) simp
  with Suc.IH [of "lh\<lparr>lh_codes := replicate k LHD_MEDIA\<rparr>" "t + 1"] Suc.prems show ?case
    by (simp add: lhd_wf_def)
qed

subsection \<open>Properties\<close>


definition inode_ex :: sfs_inode where
  "inode_ex = \<lparr>sfi_size = 700, sfi_type = 1, sfi_linkcount = 2, sfi_direct = [9, 12] @ replicate 13 0,
               sfi_indirect = 0, sfi_waste = replicate 110 0\<rparr>"


text \<open>
  Reading survives media errors: with at most ten \<open>EIO\<close> results in a row \<open>sfs_rblock\<close>
  still returns the contents of the block, whatever the buffer held before, and the disk is
  not changed.
\<close>

lemma sfs_rblock_retries:
  assumes "lhd_wf lh" and "b < lh_blocks lh" and "lh_codes lh = replicate k LHD_MEDIA" and "k \<le> 10"
    and "length buf = SFS_BLOCKSIZE"
  shows "\<exists>lh'. sfs_rblock lh buf b = Some (Inr (), lh_disk lh b, lh') \<and> lh_disk lh' = lh_disk lh"
proof -
  let ?u = "uio_kinit buf (b * SFS_BLOCKSIZE) UIO_READ"
  have sz: "LHD_SECTSIZE = SFS_BLOCKSIZE" by (simp add: LHD_SECTSIZE_def SFS_BLOCKSIZE_def)
  have "kuio ?u" using assms(5) by (intro kuio_kinit) (simp add: SFS_BLOCKSIZE_def)
  from sfs_retry_read [OF assms(1-3) this, of 0] assms(4,5) sz obtain lh' u' where
    r: "sfs_retry 0 lh ?u = Some (Inr (), lh', u')" "uio_moved (lh_disk lh b) ?u u'"
      "lh_disk lh' = lh_disk lh"
    by auto
  have "length (lh_disk lh b) = SFS_BLOCKSIZE" using assms(1,2) sz by (simp add: lhd_wf_def)
  with r(2) assms(5) have "uio_done u' @ uio_todo u' = lh_disk lh b" by (simp add: uio_moved_def)
  with r show ?thesis by (simp add: sfs_rblock_def sfs_rwblock_def)
qed

definition lhd_ex :: lhd where
  "lhd_ex = \<lparr>lh_blocks = 8, lh_buf = replicate 512 0, lh_disk = (\<lambda>b. replicate 512 (word_of_nat b)),
             lh_codes = [LHD_MEDIA]\<rparr>"

lemma lhd_ex_wf: "lhd_wf lhd_ex"
  by (simp add: lhd_wf_def lhd_ex_def LHD_SECTSIZE_def)

text \<open>
  C25. Writing does not: when the first attempt to write a block meets a media error, the
  driver has already taken the data out of the \<open>uio\<close>, so the retry transfers nothing and
  reports success. \<open>sfs_wblock\<close> returns 0 although the block still has its old contents.
\<close>

theorem sfs_wblock_loses_write:
  assumes "lhd_wf lh" and "b < lh_blocks lh" and "lh_codes lh = LHD_MEDIA # cs"
    and "length data = SFS_BLOCKSIZE"
  shows "\<exists>lh'. sfs_wblock lh data b = Some (Inr (), lh') \<and> lh_disk lh' = lh_disk lh"
proof -
  let ?u = "uio_kinit data (b * SFS_BLOCKSIZE) UIO_WRITE"
  have sz: "LHD_SECTSIZE = SFS_BLOCKSIZE" by (simp add: LHD_SECTSIZE_def SFS_BLOCKSIZE_def)
  have "kuio ?u" using assms(4) by (intro kuio_kinit) (simp add: SFS_BLOCKSIZE_def)
  from lhd_write_card [OF assms(1,2) this] assms(3,4) sz obtain u' where
    u': "uio_moved data ?u u'" "lhd_io lh ?u = Some (Inl EIO, lh\<lparr>lh_buf := data, lh_codes := cs\<rparr>, u')"
    by auto
  let ?lh = "lh\<lparr>lh_buf := data, lh_codes := cs\<rparr>"
  have "lhd_io ?lh u' = Some (Inr (), ?lh, u')"
    using u'(1) assms(1,2,4) sz
    by (intro lhd_io_zero [of "Suc b"]) (simp_all add: uio_moved_def lhd_wf_def)
  from sfs_retry_ok [OF this] have "sfs_retry 0 lh ?u = Some (Inr (), ?lh, u')"
    using u'(2) by (subst sfs_retry.simps) simp
  then show ?thesis by (simp add: sfs_wblock_def sfs_rwblock_def)
qed

theorem sfs_wblock_loses_write_witness:
  "\<exists>lh'. sfs_wblock lhd_ex (replicate 512 9) 3 = Some (Inr (), lh') \<and> lh_disk lh' 3 = replicate 512 3"
proof -
  have "lh_codes lhd_ex = LHD_MEDIA # []" "lh_disk lhd_ex 3 = replicate 512 3" "3 < lh_blocks lhd_ex"
    by (simp_all add: lhd_ex_def)
  with sfs_wblock_loses_write [OF lhd_ex_wf, of 3 "[]" "replicate 512 9"] show ?thesis
    by (auto simp: SFS_BLOCKSIZE_def)
qed

end
