(* ===== verification/Vfs_Vnode.thy ===== *)
theory Vfs_Vnode
  imports OS161_Prelude
begin

section \<open>Abstract vnodes: \<open>kern/vfs/vnode.c\<close> and \<open>kern/include/vnode.h\<close>\<close>

text \<open>
  The reference and open counts of a vnode. A \<open>struct vnode\<close> is a member of a larger object
  (an SFS vnode, a device); the operations that call back into the object through its table of
  operations take the access to the vnode and the operation called as arguments. \<open>vn_fs\<close> and
  \<open>vn_data\<close> point back to the enclosing objects and are not represented. All of this runs under
  \<open>vfs_biglock\<close>. The warnings printed for large counts and failed operations are left out.
\<close>

subsection \<open>The code\<close>

record 'o vnode =
  vn_refcount :: int
  vn_opencount :: int
  vn_ops :: "'o option"

definition vnode_init :: "'o \<Rightarrow> 'o vnode" where
  "vnode_init ops = \<lparr>vn_refcount = 1, vn_opencount = 0, vn_ops = Some ops\<rparr>"

definition vnode_cleanup :: "'o vnode \<Rightarrow> 'o vnode option" where
  "vnode_cleanup vn = do {
     kassert (vn_refcount vn = 1);
     kassert (vn_opencount vn = 0);
     Some \<lparr>vn_refcount = 0, vn_opencount = 0, vn_ops = None\<rparr>
   }"

text \<open>The check made before every call through the table of operations.\<close>

definition vnode_check :: "'o vnode \<Rightarrow> string \<Rightarrow> unit option" where
  "vnode_check v opstr =
     (if vn_ops v = None then panic
      else if vn_refcount v < 0 then panic
      else if vn_refcount v = 0 \<and> opstr \<noteq> ''reclaim'' then panic
      else if vn_opencount v < 0 then panic
      else Some ())"

definition vnode_incref :: "'o vnode \<Rightarrow> 'o vnode" where
  "vnode_incref vn = vn\<lparr>vn_refcount := swrap32 (vn_refcount vn + 1)\<rparr>"

definition vnode_decref ::
  "('s \<Rightarrow> 'p \<Rightarrow> 'o vnode option) \<Rightarrow> ('s \<Rightarrow> 'p \<Rightarrow> 'o vnode \<Rightarrow> 's) \<Rightarrow>
   ('s \<Rightarrow> 'p \<Rightarrow> (unit kresult \<times> 's) option) \<Rightarrow> 's \<Rightarrow> 'p \<Rightarrow> 's option" where
  "vnode_decref getv putv reclaim s p = do {
     vn \<leftarrow> getv s p;
     kassert (vn_refcount vn > 0);
     (if vn_refcount vn > 1 then Some (putv s p (vn\<lparr>vn_refcount := vn_refcount vn - 1\<rparr>))
      else do {
        vnode_check vn ''reclaim'';
        (result, s') \<leftarrow> reclaim s p;
        Some s'
      })
   }"

definition vnode_incopen :: "'o vnode \<Rightarrow> 'o vnode" where
  "vnode_incopen vn = vn\<lparr>vn_opencount := swrap32 (vn_opencount vn + 1)\<rparr>"

definition vnode_decopen ::
  "('s \<Rightarrow> 'p \<Rightarrow> 'o vnode option) \<Rightarrow> ('s \<Rightarrow> 'p \<Rightarrow> 'o vnode \<Rightarrow> 's) \<Rightarrow>
   ('s \<Rightarrow> 'p \<Rightarrow> (unit kresult \<times> 's) option) \<Rightarrow> 's \<Rightarrow> 'p \<Rightarrow> 's option" where
  "vnode_decopen getv putv close s p = do {
     vn \<leftarrow> getv s p;
     kassert (vn_opencount vn > 0);
     let vn' = vn\<lparr>vn_opencount := vn_opencount vn - 1\<rparr>;
     let s1 = putv s p vn';
     (if vn_opencount vn' > 0 then Some s1
      else do {
        vnode_check vn' ''close'';
        (result, s') \<leftarrow> close s1 p;
        Some s'
      })
   }"

subsection \<open>What the code relies on of the object around a vnode\<close>

text \<open>A vnode in use: counts that fit an \<open>int\<close>, and a table of operations.\<close>

definition vnode_live :: "'o vnode \<Rightarrow> bool" where
  "vnode_live v \<longleftrightarrow> vn_ops v \<noteq> None \<and> 0 < vn_refcount v \<and> vn_refcount v < 2 ^ 31 \<and>
     0 \<le> vn_opencount v \<and> vn_opencount v < 2 ^ 31"

lemma vnode_check_live: "vnode_live v \<Longrightarrow> vnode_check v opstr = Some ()"
  by (auto simp: vnode_check_def vnode_live_def)

lemma vnode_init_live: "vnode_live (vnode_init ops)"
  by (simp add: vnode_init_def vnode_live_def)

text \<open>
  The object gives access to its vnodes by pointer; pointers do not interfere, and storing a
  vnode back unchanged changes nothing.
\<close>

locale vnode_store =
  fixes getv :: "'s \<Rightarrow> 'p \<Rightarrow> 'o vnode option"
    and putv :: "'s \<Rightarrow> 'p \<Rightarrow> 'o vnode \<Rightarrow> 's"
  assumes get_put: "getv s p \<noteq> None \<Longrightarrow> getv (putv s p v) q = (if q = p then Some v else getv s q)"
    and put_put: "putv (putv s p v) p w = putv s p w"
    and put_get: "getv s p = Some v \<Longrightarrow> putv s p v = s"
begin

lemma incref_decref:
  assumes "getv s p = Some v" and "vnode_live v" and "vn_refcount v < 2 ^ 31 - 1"
  shows "vnode_decref getv putv reclaim (putv s p (vnode_incref v)) p = Some s"
proof -
  have inc: "vn_refcount (vnode_incref v) = vn_refcount v + 1"
    using assms(2,3) by (simp add: vnode_incref_def vnode_live_def)
  have "(vnode_incref v)\<lparr>vn_refcount := vn_refcount v\<rparr> = v" by (simp add: vnode_incref_def)
  moreover have "getv (putv s p (vnode_incref v)) p = Some (vnode_incref v)" using assms(1) by (simp add: get_put)
  ultimately show ?thesis
    using assms(1,2) inc by (simp add: vnode_decref_def put_put put_get vnode_live_def)
qed

lemma incopen_decopen:
  assumes "getv s p = Some v" and "vnode_live v" and "0 < vn_opencount v" "vn_opencount v < 2 ^ 31 - 1"
  shows "vnode_decopen getv putv close (putv s p (vnode_incopen v)) p = Some s"
proof -
  have inc: "vn_opencount (vnode_incopen v) = vn_opencount v + 1"
    using assms(2,4) by (simp add: vnode_incopen_def vnode_live_def)
  have "(vnode_incopen v)\<lparr>vn_opencount := vn_opencount v\<rparr> = v" by (simp add: vnode_incopen_def)
  moreover have "getv (putv s p (vnode_incopen v)) p = Some (vnode_incopen v)" using assms(1) by (simp add: get_put)
  ultimately show ?thesis
    using assms(1,3) inc by (simp add: vnode_decopen_def put_put put_get Let_def)
qed

text \<open>Only the last reference calls \<open>reclaim\<close>.\<close>

lemma decref_shared:
  assumes "getv s p = Some v" and "1 < vn_refcount v"
  shows "vnode_decref getv putv reclaim s p = Some (putv s p (v\<lparr>vn_refcount := vn_refcount v - 1\<rparr>))"
  using assms by (simp add: vnode_decref_def)

lemma decref_last:
  assumes "getv s p = Some v" and "vnode_live v" and "vn_refcount v = 1"
  shows "vnode_decref getv putv reclaim s p = map_option snd (reclaim s p)"
  using assms by (cases "reclaim s p") (auto simp: vnode_decref_def vnode_check_live)

end

end
