(* ===== verification/Sfs_Inode.thy ===== *)
theory Sfs_Inode
  imports Kern_Bitmap Kern_Array Vfs_Vnode Sfs_Block
begin

section \<open>SFS space allocation and block mapping: \<open>kern/fs/sfs/sfs_vnode.c\<close>, first part\<close>

text \<open>
  The state of a mounted file system and of a loaded vnode, the allocation of blocks, and
  \<open>sfs_bmap\<close>, which finds or allocates the disk block of a block of a file. Everything runs
  under the file system's big lock. The invariant says that the blocks of a file are in use,
  in range and distinct; the lemmas show what \<open>sfs_bmap\<close> does to the map from file blocks to
  disk blocks and to every block of the disk.
\<close>

subsection \<open>State\<close>

text \<open>
  \<open>struct sfs_vnode\<close>; the operations of its \<open>struct vnode\<close> are one of two tables. The table of
  loaded vnodes holds pointers, here numbers that index \<open>fs_vn\<close>.
\<close>

datatype (plugins only: code size) sfs_ops = sfs_fileops | sfs_dirops

record sfs_vnode =
  sv_v :: "sfs_ops vnode"
  sv_i :: sfs_inode
  sv_ino :: nat
  sv_dirty :: bool

record sfs_fs =
  fs_dev :: lhd
  fs_super :: sfs_super
  fs_superdirty :: bool
  fs_freemap :: bitmap
  fs_freemapdirty :: bool
  fs_vnodes :: "nat array"
  fs_vn :: "nat \<Rightarrow> sfs_vnode option"

definition fs_rblock :: "sfs_fs \<Rightarrow> u8 list \<Rightarrow> nat \<Rightarrow> (unit kresult \<times> u8 list \<times> sfs_fs) option" where
  "fs_rblock s data b = do {
     (r, data', d) \<leftarrow> sfs_rblock (fs_dev s) data b;
     Some (r, data', s\<lparr>fs_dev := d\<rparr>)
   }"

definition fs_wblock :: "sfs_fs \<Rightarrow> u8 list \<Rightarrow> nat \<Rightarrow> (unit kresult \<times> sfs_fs) option" where
  "fs_wblock s data b = do {
     (r, d) \<leftarrow> sfs_wblock (fs_dev s) data b;
     Some (r, s\<lparr>fs_dev := d\<rparr>)
   }"

subsection \<open>The code\<close>

definition zeros :: "u8 list" where
  "zeros = replicate SFS_BLOCKSIZE 0"

definition sfs_clearblock :: "sfs_fs \<Rightarrow> nat \<Rightarrow> (unit kresult \<times> sfs_fs) option" where
  "sfs_clearblock s block = fs_wblock s zeros block"

definition sfs_sync_inode :: "sfs_fs \<Rightarrow> sfs_vnode \<Rightarrow> (unit kresult \<times> sfs_fs \<times> sfs_vnode) option" where
  "sfs_sync_inode s sv =
     (if sv_dirty sv then
        do {
          (result, s') \<leftarrow> fs_wblock s (encode_inode (sv_i sv)) (sv_ino sv);
          (case result of
             Inl e \<Rightarrow> Some (Inl e, s', sv)
           | Inr _ \<Rightarrow> Some (Inr (), s', sv\<lparr>sv_dirty := False\<rparr>))
        }
      else Some (Inr (), s, sv))"

definition sfs_balloc :: "sfs_fs \<Rightarrow> (nat kresult \<times> sfs_fs) option" where
  "sfs_balloc s = do {
     (result, fm) \<leftarrow> bitmap_alloc (fs_freemap s);
     let s1 = s\<lparr>fs_freemap := fm\<rparr>;
     (case result of
        Inl e \<Rightarrow> Some (Inl e, s1)
      | Inr diskblock \<Rightarrow>
          do {
            let s2 = s1\<lparr>fs_freemapdirty := True\<rparr>;
            (if diskblock \<ge> sp_nblocks (fs_super s2) then panic
             else do {
               (r, s3) \<leftarrow> sfs_clearblock s2 diskblock;
               (case r of Inl e \<Rightarrow> Some (Inl e, s3) | Inr _ \<Rightarrow> Some (Inr diskblock, s3))
             })
          })
   }"

definition sfs_bfree :: "sfs_fs \<Rightarrow> nat \<Rightarrow> sfs_fs option" where
  "sfs_bfree s diskblock = do {
     fm \<leftarrow> bitmap_unmark (fs_freemap s) diskblock;
     Some (s\<lparr>fs_freemap := fm, fs_freemapdirty := True\<rparr>)
   }"

definition sfs_bused :: "sfs_fs \<Rightarrow> nat \<Rightarrow> bool option" where
  "sfs_bused s diskblock =
     (if diskblock \<ge> sp_nblocks (fs_super s) then panic
      else do {
        w \<leftarrow> bitmap_isset (fs_freemap s) diskblock;
        Some (w \<noteq> 0)
      })"

text \<open>The check before a block is handed back: a block in a file must be marked in use.\<close>

definition sfs_bmap_check :: "sfs_fs \<Rightarrow> nat \<Rightarrow> unit option" where
  "sfs_bmap_check s block =
     (if block \<noteq> 0
      then do {
        used \<leftarrow> sfs_bused s block;
        (if \<not> used then panic else Some ())
      }
      else Some ())"

definition sfs_bmap_direct ::
  "sfs_fs \<Rightarrow> sfs_vnode \<Rightarrow> nat \<Rightarrow> bool \<Rightarrow> (nat kresult \<times> sfs_fs \<times> sfs_vnode) option" where
  "sfs_bmap_direct s sv fileblock doalloc = do {
     let block = sfi_direct (sv_i sv) ! fileblock;
     (if block = 0 \<and> doalloc then
        do {
          (result, s') \<leftarrow> sfs_balloc s;
          (case result of
             Inl e \<Rightarrow> Some (Inl e, s', sv)
           | Inr block' \<Rightarrow>
               do {
                 let sv' = sv\<lparr>sv_i := (sv_i sv)\<lparr>sfi_direct := (sfi_direct (sv_i sv))[fileblock := block']\<rparr>,
                              sv_dirty := True\<rparr>;
                 sfs_bmap_check s' block';
                 Some (Inr block', s', sv')
               })
        }
      else do {
        sfs_bmap_check s block;
        Some (Inr block, s, sv)
      })
   }"

text \<open>The indirect block and its contents: found, or allocated and zeroed.\<close>

definition sfs_bmap_idblock ::
  "sfs_fs \<Rightarrow> sfs_vnode \<Rightarrow> ((nat \<times> nat list) kresult \<times> sfs_fs \<times> sfs_vnode) option" where
  "sfs_bmap_idblock s sv = do {
     let idblock = sfi_indirect (sv_i sv);
     (if idblock = 0 then
        do {
          (result, s') \<leftarrow> sfs_balloc s;
          (case result of
             Inl e \<Rightarrow> Some (Inl e, s', sv)
           | Inr idblock' \<Rightarrow>
               Some (Inr (idblock', be32s zeros), s',
                 sv\<lparr>sv_i := (sv_i sv)\<lparr>sfi_indirect := idblock'\<rparr>, sv_dirty := True\<rparr>))
        }
      else do {
        (result, idbuf, s') \<leftarrow> fs_rblock s zeros idblock;
        (case result of
           Inl e \<Rightarrow> Some (Inl e, s', sv)
         | Inr _ \<Rightarrow> Some (Inr (idblock, be32s idbuf), s', sv))
      })
   }"

definition sfs_bmap ::
  "sfs_fs \<Rightarrow> sfs_vnode \<Rightarrow> nat \<Rightarrow> bool \<Rightarrow> (nat kresult \<times> sfs_fs \<times> sfs_vnode) option" where
  "sfs_bmap s sv fileblock doalloc =
     (if fileblock < SFS_NDIRECT then sfs_bmap_direct s sv fileblock doalloc
      else
        let fb = fileblock - SFS_NDIRECT;
            idnum = fb div SFS_DBPERIDB;
            idoff = fb mod SFS_DBPERIDB
        in if idnum > 0 then Some (Inl EFBIG, s, sv)
           else if sfi_indirect (sv_i sv) = 0 \<and> \<not> doalloc then Some (Inr 0, s, sv)
           else do {
             (r, s1, sv1) \<leftarrow> sfs_bmap_idblock s sv;
             (case r of
                Inl e \<Rightarrow> Some (Inl e, s1, sv1)
              | Inr (idblock, idbuf) \<Rightarrow>
                  if idbuf ! idoff = 0 \<and> doalloc then
                    do {
                      (r2, s2) \<leftarrow> sfs_balloc s1;
                      (case r2 of
                         Inl e \<Rightarrow> Some (Inl e, s2, sv1)
                       | Inr block \<Rightarrow>
                           do {
                             (r3, s3) \<leftarrow> fs_wblock s2 (enc32s (idbuf[idoff := block])) idblock;
                             (case r3 of
                                Inl e \<Rightarrow> Some (Inl e, s3, sv1)
                              | Inr _ \<Rightarrow> do {
                                  sfs_bmap_check s3 block;
                                  Some (Inr block, s3, sv1)
                                })
                           })
                    }
                  else do {
                    sfs_bmap_check s1 (idbuf ! idoff);
                    Some (Inr (idbuf ! idoff), s1, sv1)
                  })
           })"

subsection \<open>Invariants\<close>

abbreviation fs_disk :: "sfs_fs \<Rightarrow> nat \<Rightarrow> u8 list" where
  "fs_disk s \<equiv> lh_disk (fs_dev s)"

abbreviation fs_nblocks :: "sfs_fs \<Rightarrow> nat" where
  "fs_nblocks s \<equiv> sp_nblocks (fs_super s)"

definition fs_used :: "sfs_fs \<Rightarrow> nat set" where
  "fs_used s = bitmap_used (fs_freemap s)"

text \<open>
  A mounted file system on a working disk. Block 0, the superblock, is in use, and so is every
  bit of the free map beyond the end of the volume, as \<open>mksfs\<close> leaves them.
\<close>

definition fs_ok :: "sfs_fs \<Rightarrow> bool" where
  "fs_ok s \<longleftrightarrow> lhd_ok (fs_dev s) \<and> fs_nblocks s \<le> lh_blocks (fs_dev s) \<and> bitmap_wf (fs_freemap s) \<and>
     fs_nblocks s \<le> b_nbits (fs_freemap s) \<and> 0 \<in> fs_used s \<and>
     {fs_nblocks s..<b_nbits (fs_freemap s)} \<subseteq> fs_used s"

text \<open>The disk block of a file block, 0 for none.\<close>

definition SFS_MAXBLOCKS :: nat where
  "SFS_MAXBLOCKS = SFS_NDIRECT + SFS_DBPERIDB"

definition blk :: "sfs_fs \<Rightarrow> sfs_inode \<Rightarrow> nat \<Rightarrow> nat" where
  "blk s i fb =
     (if fb < SFS_NDIRECT then sfi_direct i ! fb
      else if fb < SFS_MAXBLOCKS \<and> sfi_indirect i \<noteq> 0
           then be32s (fs_disk s (sfi_indirect i)) ! (fb - SFS_NDIRECT)
      else 0)"

definition file_blocks :: "sfs_fs \<Rightarrow> sfs_inode \<Rightarrow> nat set" where
  "file_blocks s i = insert (sfi_indirect i) (blk s i ` {..<SFS_MAXBLOCKS}) - {0}"

text \<open>The blocks of a file are in range, in use, and no block is used twice.\<close>

definition inode_ok :: "sfs_fs \<Rightarrow> sfs_inode \<Rightarrow> bool" where
  "inode_ok s i \<longleftrightarrow> inode_wf i \<and> file_blocks s i \<subseteq> fs_used s \<inter> {..<fs_nblocks s} \<and>
     (\<forall>fb < SFS_MAXBLOCKS. blk s i fb = sfi_indirect i \<longrightarrow> blk s i fb = 0) \<and>
     (\<forall>fb < SFS_MAXBLOCKS. \<forall>fb' < SFS_MAXBLOCKS. blk s i fb = blk s i fb' \<longrightarrow> blk s i fb \<noteq> 0 \<longrightarrow> fb = fb')"

text \<open>What allocation and block I/O leave alone.\<close>

definition fs_same :: "sfs_fs \<Rightarrow> sfs_fs \<Rightarrow> bool" where
  "fs_same s s' \<longleftrightarrow> fs_super s' = fs_super s \<and> fs_superdirty s' = fs_superdirty s \<and>
     fs_vnodes s' = fs_vnodes s \<and> fs_vn s' = fs_vn s \<and> b_nbits (fs_freemap s') = b_nbits (fs_freemap s) \<and>
     lh_blocks (fs_dev s') = lh_blocks (fs_dev s)"

lemma fs_same_refl [simp]: "fs_same s s"
  by (simp add: fs_same_def)

lemma fs_same_trans: "fs_same s s' \<Longrightarrow> fs_same s' s'' \<Longrightarrow> fs_same s s''"
  by (simp add: fs_same_def)

lemma fs_ok_bounds:
  assumes "fs_ok s"
  shows "fs_nblocks s < 2 ^ 32" and "b < fs_nblocks s \<Longrightarrow> length (fs_disk s b) = SFS_BLOCKSIZE"
  using assms by (auto simp: fs_ok_def lhd_ok_def lhd_wf_def LHD_SECTSIZE_def SFS_BLOCKSIZE_def)

lemma fs_rblock_ok:
  assumes "fs_ok s" and "b < fs_nblocks s" and "length buf = SFS_BLOCKSIZE"
  shows "\<exists>s'. fs_rblock s buf b = Some (Inr (), fs_disk s b, s') \<and> fs_ok s' \<and> fs_same s s' \<and>
              fs_disk s' = fs_disk s \<and> fs_freemap s' = fs_freemap s"
proof -
  have "lhd_ok (fs_dev s)" "b < lh_blocks (fs_dev s)" using assms by (simp_all add: fs_ok_def)
  from sb.rblock [OF this assms(3)] obtain d where
    "sfs_rblock (fs_dev s) buf b = Some (Inr (), fs_disk s b, d)" "lhd_ok d"
    "lh_disk d = fs_disk s" "lh_blocks d = lh_blocks (fs_dev s)" by blast
  with assms(1) show ?thesis by (simp add: fs_rblock_def fs_ok_def fs_same_def fs_used_def)
qed

lemma fs_wblock_ok:
  assumes "fs_ok s" and "b < fs_nblocks s" and "length data = SFS_BLOCKSIZE"
  shows "\<exists>s'. fs_wblock s data b = Some (Inr (), s') \<and> fs_ok s' \<and> fs_same s s' \<and>
              fs_disk s' = (fs_disk s)(b := data) \<and> fs_freemap s' = fs_freemap s"
proof -
  have "lhd_ok (fs_dev s)" "b < lh_blocks (fs_dev s)" using assms by (simp_all add: fs_ok_def)
  from sb.wblock [OF this assms(3)] obtain d where
    "sfs_wblock (fs_dev s) data b = Some (Inr (), d)" "lhd_ok d"
    "lh_disk d = (fs_disk s)(b := data)" "lh_blocks d = lh_blocks (fs_dev s)" by blast
  with assms(1) show ?thesis by (simp add: fs_wblock_def fs_ok_def fs_same_def fs_used_def)
qed

lemma length_zeros [simp]: "length zeros = SFS_BLOCKSIZE"
  by (simp add: zeros_def)

lemma sfs_balloc_cases:
  assumes "fs_ok s"
  obtains (ok) b s' where "sfs_balloc s = Some (Inr b, s')" "b \<notin> fs_used s" "b \<noteq> 0" "b < fs_nblocks s"
      "fs_used s' = insert b (fs_used s)" "fs_disk s' = (fs_disk s)(b := zeros)" "fs_ok s'" "fs_same s s'"
    | (full) "sfs_balloc s = Some (Inl ENOSPC, s)" "fs_used s = {..<b_nbits (fs_freemap s)}"
proof -
  have wf: "bitmap_wf (fs_freemap s)" using assms by (simp add: fs_ok_def)
  show thesis
  proof (rule bitmap_alloc_cases [OF wf])
    assume "bitmap_alloc (fs_freemap s) = Some (Inl ENOSPC, fs_freemap s)"
      "bitmap_used (fs_freemap s) = {..<b_nbits (fs_freemap s)}"
    then show thesis by (intro full) (simp_all add: sfs_balloc_def fs_used_def)
  next
    fix b
    let ?fm = "set_bit_at (fs_freemap s) b"
    let ?s = "s\<lparr>fs_freemap := ?fm, fs_freemapdirty := True\<rparr>"
    assume b: "bitmap_alloc (fs_freemap s) = Some (Inr b, ?fm)" "b < b_nbits (fs_freemap s)"
      "\<not> bitmap_bit (fs_freemap s) b"
    then have new: "b \<notin> fs_used s" by (simp add: fs_used_def bitmap_used_def)
    then have lt: "b < fs_nblocks s" "b \<noteq> 0"
      using assms b(2) by (auto simp: fs_ok_def subset_iff not_less)
    have nb: "b_nbits ?fm = b_nbits (fs_freemap s)" by simp
    have used: "fs_used ?s = insert b (fs_used s)"
      using bitmap_set_wf [OF wf b(2)] by (simp add: fs_used_def)
    have "fs_ok ?s"
      using assms bitmap_set_wf [OF wf b(2)] nb used by (auto simp: fs_ok_def)
    from fs_wblock_ok [OF this, of b zeros] lt(1) obtain s' where
      s': "fs_wblock ?s zeros b = Some (Inr (), s')" "fs_ok s'" "fs_same ?s s'"
        "fs_disk s' = (fs_disk s)(b := zeros)" "fs_freemap s' = ?fm" by auto
    show thesis
    proof (rule ok [OF _ new lt(2,1) _ s'(4,2)])
      show "sfs_balloc s = Some (Inr b, s')"
        using b(1) lt(1) s'(1) by (simp add: sfs_balloc_def sfs_clearblock_def)
      show "fs_used s' = insert b (fs_used s)" using used s'(5) by (simp add: fs_used_def)
      show "fs_same s s'" using s'(3) nb by (simp add: fs_same_def)
    qed
  qed
qed

lemma sfs_bmap_check_ok:
  assumes "fs_ok s" and "b = 0 \<or> b \<in> fs_used s \<and> b < fs_nblocks s"
  shows "sfs_bmap_check s b = Some ()"
proof (cases "b = 0")
  case False
  have "bitmap_wf (fs_freemap s)" "b < b_nbits (fs_freemap s)"
    using False assms by (auto simp: fs_ok_def)
  from bitmap_isset_eq [OF this] False assms(2) show ?thesis
    by (auto simp: sfs_bmap_check_def sfs_bused_def fs_used_def)
qed (simp add: sfs_bmap_check_def)

lemma sfs_bfree_ok:
  assumes "fs_ok s" and "b \<in> fs_used s" and "b < fs_nblocks s" and "b \<noteq> 0"
  shows "\<exists>s'. sfs_bfree s b = Some s' \<and> fs_ok s' \<and> fs_same s s' \<and> fs_disk s' = fs_disk s \<and>
              fs_used s' = fs_used s - {b}"
proof -
  have "bitmap_wf (fs_freemap s)" "b \<in> bitmap_used (fs_freemap s)"
    using assms by (simp_all add: fs_ok_def fs_used_def)
  from bm.free_used [OF this] obtain fm where
    fm: "bitmap_unmark (fs_freemap s) b = Some fm" "bitmap_wf fm" "b_nbits fm = b_nbits (fs_freemap s)"
      "bitmap_used fm = bitmap_used (fs_freemap s) - {b}" by blast
  let ?s = "s\<lparr>fs_freemap := fm, fs_freemapdirty := True\<rparr>"
  have used: "fs_used ?s = fs_used s - {b}" using fm(4) by (simp add: fs_used_def)
  have "{fs_nblocks s..<b_nbits fm} \<subseteq> fs_used s - {b}"
    using assms(1,3) fm(3) by (auto simp: fs_ok_def)
  with assms(1,4) fm(2,3) used have "fs_ok ?s" by (simp add: fs_ok_def)
  with used fm(1,3) show ?thesis by (simp add: sfs_bfree_def fs_same_def)
qed

subsection \<open>The block map\<close>

lemma inode_ok_blk:
  assumes "inode_ok s i" and "fb < SFS_MAXBLOCKS"
  shows "blk s i fb = 0 \<or> blk s i fb \<in> fs_used s \<and> blk s i fb < fs_nblocks s"
proof (cases "blk s i fb = 0")
  case False
  with assms(2) have "blk s i fb \<in> file_blocks s i" by (simp add: file_blocks_def)
  with assms(1) show ?thesis unfolding inode_ok_def by blast
qed simp

lemma inode_ok_indirect:
  assumes "inode_ok s i" and "sfi_indirect i \<noteq> 0"
  shows "sfi_indirect i \<in> fs_used s" and "sfi_indirect i < fs_nblocks s"
proof -
  have "sfi_indirect i \<in> file_blocks s i" using assms(2) by (simp add: file_blocks_def)
  with assms(1) show "sfi_indirect i \<in> fs_used s" "sfi_indirect i < fs_nblocks s"
    unfolding inode_ok_def by blast+
qed

lemma blk_cong:
  assumes "fs_disk s' (sfi_indirect i) = fs_disk s (sfi_indirect i)"
  shows "blk s' i fb = blk s i fb"
  using assms by (simp add: blk_def)

lemma inode_ok_cong:
  assumes "inode_ok s i" and "fs_used s \<subseteq> fs_used s'" and "fs_nblocks s' = fs_nblocks s"
    and "sfi_indirect i \<noteq> 0 \<Longrightarrow> fs_disk s' (sfi_indirect i) = fs_disk s (sfi_indirect i)"
  shows "inode_ok s' i"
proof -
  have b: "blk s' i = blk s i"
    using assms(4) by (auto simp: fun_eq_iff blk_def)
  then have "file_blocks s' i = file_blocks s i" by (simp add: file_blocks_def)
  with b assms(1-3) show ?thesis by (auto simp: inode_ok_def)
qed

lemma sfs_bmap_big:
  assumes "SFS_MAXBLOCKS \<le> fb"
  shows "sfs_bmap s sv fb doalloc = Some (Inl EFBIG, s, sv)"
proof -
  have "\<not> fb < SFS_NDIRECT" "(fb - SFS_NDIRECT) div SFS_DBPERIDB > 0"
    using assms by (simp_all add: SFS_MAXBLOCKS_def SFS_NDIRECT_def SFS_DBPERIDB_def div_greater_zero_iff)
  then show ?thesis unfolding sfs_bmap_def Let_def by simp
qed

lemma sfs_bmap_lookup:
  assumes ok: "fs_ok s" and inode: "inode_ok s (sv_i sv)" and fb: "fb < SFS_MAXBLOCKS"
    and no: "\<not> doalloc \<or> blk s (sv_i sv) fb \<noteq> 0"
  shows "\<exists>s'. sfs_bmap s sv fb doalloc = Some (Inr (blk s (sv_i sv) fb), s', sv) \<and> fs_ok s' \<and>
              fs_same s s' \<and> fs_disk s' = fs_disk s \<and> fs_freemap s' = fs_freemap s"
proof (cases "fb < SFS_NDIRECT")
  case True
  then have "blk s (sv_i sv) fb = sfi_direct (sv_i sv) ! fb" by (simp add: blk_def)
  with True no sfs_bmap_check_ok [OF ok inode_ok_blk [OF inode fb]] show ?thesis
    using ok by (auto simp: sfs_bmap_def sfs_bmap_direct_def Let_def)
next
  case False
  let ?id = "sfi_indirect (sv_i sv)" and ?o = "fb - SFS_NDIRECT"
  have o: "?o div SFS_DBPERIDB = 0" "?o mod SFS_DBPERIDB = ?o"
    using fb False by (simp_all add: SFS_MAXBLOCKS_def)
  show ?thesis
  proof (cases "?id = 0")
    case True
    with False have "blk s (sv_i sv) fb = 0" by (simp add: blk_def)
    with False True no ok o show ?thesis by (simp add: sfs_bmap_def Let_def)
  next
    case id: False
    from fs_rblock_ok [OF ok inode_ok_indirect(2) [OF inode id], of zeros] obtain s' where
      s': "fs_rblock s zeros ?id = Some (Inr (), fs_disk s ?id, s')" "fs_ok s'" "fs_same s s'"
        "fs_disk s' = fs_disk s" "fs_freemap s' = fs_freemap s" by auto
    have b: "blk s (sv_i sv) fb = be32s (fs_disk s ?id) ! ?o" using False fb id by (simp add: blk_def)
    have "sfs_bmap_check s' (blk s (sv_i sv) fb) = Some ()"
      using inode_ok_blk [OF inode fb] s'(3,5)
      by (intro sfs_bmap_check_ok [OF s'(2)]) (simp add: fs_used_def fs_same_def)
    with s' b False id o no show ?thesis
      by (auto simp: sfs_bmap_def sfs_bmap_idblock_def Let_def)
  qed
qed

text \<open>A fresh block \<open>b\<close> becomes the block \<open>fb\<close> of a file, or its indirect block.\<close>

definition fresh_block :: "sfs_fs \<Rightarrow> sfs_fs \<Rightarrow> nat \<Rightarrow> bool" where
  "fresh_block s s' b \<longleftrightarrow> b \<notin> fs_used s \<and> b \<noteq> 0 \<and> b < fs_nblocks s \<and>
     fs_used s' = insert b (fs_used s) \<and> fs_nblocks s' = fs_nblocks s"

lemma inode_ok_add_block:
  assumes inode: "inode_ok s i" and wf: "inode_wf i'" and b: "fresh_block s s' b"
    and id: "sfi_indirect i' = sfi_indirect i" and fb: "fb < SFS_MAXBLOCKS" "blk s i fb = 0"
    and map: "\<And>k. k < SFS_MAXBLOCKS \<Longrightarrow> blk s' i' k = (if k = fb then b else blk s i k)"
  shows "inode_ok s' i'" and "file_blocks s' i' = insert b (file_blocks s i)"
proof -
  have img: "blk s' i' ` {..<SFS_MAXBLOCKS} = insert b (blk s i ` ({..<SFS_MAXBLOCKS} - {fb}))"
    using fb(1) map by (auto simp: image_iff)
  have "blk s i ` {..<SFS_MAXBLOCKS} - {0} = blk s i ` ({..<SFS_MAXBLOCKS} - {fb}) - {0}"
    using fb(2) by auto
  then show blocks: "file_blocks s' i' = insert b (file_blocks s i)"
    unfolding file_blocks_def img id using b by (auto simp: fresh_block_def)
  have old: "blk s i k \<noteq> b" if "k < SFS_MAXBLOCKS" for k
    using inode_ok_blk [OF inode that] b by (auto simp: fresh_block_def)
  have idb: "sfi_indirect i \<noteq> b"
    using inode_ok_indirect(1) [OF inode] b by (auto simp: fresh_block_def)
  show "inode_ok s' i'"
    unfolding inode_ok_def
  proof (intro conjI allI impI)
    show "inode_wf i'" by (rule wf)
    show "file_blocks s' i' \<subseteq> fs_used s' \<inter> {..<fs_nblocks s'}"
      unfolding blocks using inode b by (auto simp: inode_ok_def fresh_block_def)
  next
    fix k assume "k < SFS_MAXBLOCKS" "blk s' i' k = sfi_indirect i'"
    with map idb id inode show "blk s' i' k = 0" by (auto simp: inode_ok_def split: if_splits)
  next
    fix k k' assume "k < SFS_MAXBLOCKS" "k' < SFS_MAXBLOCKS" "blk s' i' k = blk s' i' k'" "blk s' i' k \<noteq> 0"
    with map old inode show "k = k'" unfolding inode_ok_def by (metis (full_types))
  qed
qed

lemma inode_ok_add_indirect:
  assumes inode: "inode_ok s i" and wf: "inode_wf i'" and b: "fresh_block s s' b"
    and id: "sfi_indirect i = 0" "sfi_indirect i' = b"
    and map: "\<And>k. k < SFS_MAXBLOCKS \<Longrightarrow> blk s' i' k = blk s i k"
  shows "inode_ok s' i'" and "file_blocks s' i' = insert b (file_blocks s i)"
proof -
  have img: "blk s' i' ` {..<SFS_MAXBLOCKS} = blk s i ` {..<SFS_MAXBLOCKS}"
    using map by (intro image_cong) auto
  show blocks: "file_blocks s' i' = insert b (file_blocks s i)"
    unfolding file_blocks_def img id using b by (auto simp: fresh_block_def)
  have old: "blk s i k \<noteq> b" if "k < SFS_MAXBLOCKS" for k
    using inode_ok_blk [OF inode that] b by (auto simp: fresh_block_def)
  show "inode_ok s' i'"
    unfolding inode_ok_def
  proof (intro conjI allI impI)
    show "inode_wf i'" by (rule wf)
    show "file_blocks s' i' \<subseteq> fs_used s' \<inter> {..<fs_nblocks s'}"
      unfolding blocks using inode b by (auto simp: inode_ok_def fresh_block_def)
  next
    fix k assume "k < SFS_MAXBLOCKS" "blk s' i' k = sfi_indirect i'"
    with map old id show "blk s' i' k = 0" by simp
  next
    fix k k' assume "k < SFS_MAXBLOCKS" "k' < SFS_MAXBLOCKS" "blk s' i' k = blk s' i' k'" "blk s' i' k \<noteq> 0"
    with map inode show "k = k'" unfolding inode_ok_def by metis
  qed
qed

text \<open>What a call of \<open>sfs_bmap\<close> may change, whether or not it succeeds.\<close>

definition sv_meta :: "sfs_vnode \<Rightarrow> sfs_vnode \<Rightarrow> bool" where
  "sv_meta sv sv' \<longleftrightarrow> sv_ino sv' = sv_ino sv \<and> sv_v sv' = sv_v sv \<and> sfi_type (sv_i sv') = sfi_type (sv_i sv) \<and>
     sfi_linkcount (sv_i sv') = sfi_linkcount (sv_i sv)"

definition bmap_ext :: "sfs_fs \<Rightarrow> sfs_vnode \<Rightarrow> sfs_fs \<Rightarrow> sfs_vnode \<Rightarrow> bool" where
  "bmap_ext s sv s' sv' \<longleftrightarrow> fs_ok s' \<and> inode_ok s' (sv_i sv') \<and> fs_same s s' \<and> sv_meta sv sv' \<and>
     sfi_size (sv_i sv') = sfi_size (sv_i sv) \<and> fs_used s \<subseteq> fs_used s' \<and>
     (\<forall>x \<in> fs_used s. x \<noteq> sfi_indirect (sv_i sv) \<or> x = 0 \<longrightarrow> fs_disk s' x = fs_disk s x) \<and>
     (sfi_indirect (sv_i sv') = sfi_indirect (sv_i sv) \<or> sfi_indirect (sv_i sv') \<notin> fs_used s) \<and>
     file_blocks s (sv_i sv) \<subseteq> file_blocks s' (sv_i sv') \<and>
     file_blocks s' (sv_i sv') \<inter> fs_used s \<subseteq> file_blocks s (sv_i sv)"

lemma bmap_ext_refl:
  "fs_ok s \<Longrightarrow> inode_ok s (sv_i sv) \<Longrightarrow> bmap_ext s sv s sv"
  by (simp add: bmap_ext_def sv_meta_def)

lemma bmap_extD:
  assumes "bmap_ext s sv s' sv'"
  shows "fs_ok s'" "inode_ok s' (sv_i sv')" "fs_same s s'" "sv_meta sv sv'"
    "sfi_size (sv_i sv') = sfi_size (sv_i sv)" "fs_used s \<subseteq> fs_used s'"
    "sfi_indirect (sv_i sv') = sfi_indirect (sv_i sv) \<or> sfi_indirect (sv_i sv') \<notin> fs_used s"
    "file_blocks s (sv_i sv) \<subseteq> file_blocks s' (sv_i sv')"
    "file_blocks s' (sv_i sv') \<inter> fs_used s \<subseteq> file_blocks s (sv_i sv)"
    "x \<in> fs_used s \<Longrightarrow> x \<noteq> sfi_indirect (sv_i sv) \<or> x = 0 \<Longrightarrow> fs_disk s' x = fs_disk s x"
  using assms unfolding bmap_ext_def by blast+

lemma bmap_ext_trans:
  assumes "bmap_ext s sv s1 sv1" and "bmap_ext s1 sv1 s2 sv2"
  shows "bmap_ext s sv s2 sv2"
proof -
  note a = bmap_extD [OF assms(1)] and b = bmap_extD [OF assms(2)]
  have "fs_disk s2 x = fs_disk s x" if x: "x \<in> fs_used s" "x \<noteq> sfi_indirect (sv_i sv) \<or> x = 0" for x
  proof -
    have "x \<in> fs_used s1" "x \<noteq> sfi_indirect (sv_i sv1) \<or> x = 0"
      using a(6,7) x by auto
    from b(10) [OF this] a(10) [OF x] show ?thesis by simp
  qed
  moreover have "fs_same s s2" by (rule fs_same_trans [OF a(3) b(3)])
  moreover have "sv_meta sv sv2" using a(4) b(4) by (simp add: sv_meta_def)
  moreover have "sfi_indirect (sv_i sv2) = sfi_indirect (sv_i sv) \<or> sfi_indirect (sv_i sv2) \<notin> fs_used s"
    using a(6,7) b(7) by auto
  moreover have "fs_used s \<subseteq> fs_used s2" "file_blocks s (sv_i sv) \<subseteq> file_blocks s2 (sv_i sv2)"
    "file_blocks s2 (sv_i sv2) \<inter> fs_used s \<subseteq> file_blocks s (sv_i sv)"
    using a(6,8,9) b(6,8,9) by blast+
  ultimately show ?thesis using b(1,2,5) a(5) unfolding bmap_ext_def by simp
qed

text \<open>The disk does not change, only the on-card buffer did.\<close>

lemma bmap_ext_quiet:
  assumes "fs_ok s'" and "inode_ok s (sv_i sv)" and "fs_same s s'" and "fs_disk s' = fs_disk s"
    and "fs_freemap s' = fs_freemap s"
  shows "bmap_ext s sv s' sv" and "blk s' i = blk s i"
proof -
  have used: "fs_used s' = fs_used s" using assms(5) by (simp add: fs_used_def)
  show b: "blk s' i = blk s i" for i using assms(4) by (simp add: fun_eq_iff blk_def)
  have "inode_ok s' (sv_i sv)"
    using assms(2,3) used by (rule_tac inode_ok_cong) (auto simp: fs_same_def assms(4))
  with assms(1,3,4) used b show "bmap_ext s sv s' sv"
    by (simp add: bmap_ext_def sv_meta_def file_blocks_def)
qed

definition bmap_result ::
  "sfs_fs \<Rightarrow> sfs_vnode \<Rightarrow> nat \<Rightarrow> nat kresult \<Rightarrow> sfs_fs \<Rightarrow> sfs_vnode \<Rightarrow> bool" where
  "bmap_result s sv fb r s' sv' \<longleftrightarrow>
     (r = Inl ENOSPC \<and> (\<forall>k < SFS_MAXBLOCKS. blk s' (sv_i sv') k = blk s (sv_i sv) k)) \<or>
     (\<exists>b. r = Inr b \<and> b \<noteq> 0 \<and> blk s' (sv_i sv') fb = b \<and>
          (\<forall>k < SFS_MAXBLOCKS. k \<noteq> fb \<longrightarrow> blk s' (sv_i sv') k = blk s (sv_i sv) k) \<and>
          (blk s (sv_i sv) fb = b \<or> blk s (sv_i sv) fb = 0 \<and> b \<notin> fs_used s \<and> fs_disk s' b = zeros))"

lemma ndirect_max: "fb < SFS_NDIRECT \<Longrightarrow> fb < SFS_MAXBLOCKS"
  by (simp add: SFS_MAXBLOCKS_def)

lemma sfs_bmap_direct_alloc:
  assumes ok: "fs_ok s" and inode: "inode_ok s (sv_i sv)" and fb: "fb < SFS_NDIRECT"
    and unmapped: "blk s (sv_i sv) fb = 0"
  shows "\<exists>r s' sv'. sfs_bmap s sv fb True = Some (r, s', sv') \<and> bmap_ext s sv s' sv' \<and>
                    bmap_result s sv fb r s' sv'"
proof -
  let ?i = "sv_i sv"
  have z: "sfi_direct ?i ! fb = 0" using unmapped fb by (simp add: blk_def)
  show ?thesis
  proof (rule sfs_balloc_cases [OF ok])
    assume "sfs_balloc s = Some (Inl ENOSPC, s)"
    then have "sfs_bmap s sv fb True = Some (Inl ENOSPC, s, sv)"
      using fb z by (simp add: sfs_bmap_def sfs_bmap_direct_def)
    then show ?thesis using bmap_ext_refl [OF ok inode] by (auto simp: bmap_result_def)
  next
    fix b s'
    assume b: "sfs_balloc s = Some (Inr b, s')" "b \<notin> fs_used s" "b \<noteq> 0" "b < fs_nblocks s"
      "fs_used s' = insert b (fs_used s)" "fs_disk s' = (fs_disk s)(b := zeros)" "fs_ok s'" "fs_same s s'"
    let ?i' = "?i\<lparr>sfi_direct := (sfi_direct ?i)[fb := b]\<rparr>"
    let ?sv = "sv\<lparr>sv_i := ?i', sv_dirty := True\<rparr>"
    have nb: "fs_nblocks s' = fs_nblocks s" using b(8) by (simp add: fs_same_def)
    have fresh: "fresh_block s s' b" using b nb by (simp add: fresh_block_def)
    have "b < 2 ^ 32" using fs_ok_bounds(1) [OF ok] b(4) by simp
    then have wf: "inode_wf ?i'"
      using inode by (auto simp: inode_ok_def inode_wf_def dest!: set_update_subset_insert [THEN subsetD])
    have len: "length (sfi_direct ?i) = SFS_NDIRECT" using inode by (simp add: inode_ok_def inode_wf_def)
    have idb: "sfi_indirect ?i \<noteq> 0 \<Longrightarrow> sfi_indirect ?i \<noteq> b"
      using inode_ok_indirect(1) [OF inode] b(2) by auto
    have map: "blk s' ?i' k = (if k = fb then b else blk s ?i k)" if "k < SFS_MAXBLOCKS" for k
      using fb len idb by (auto simp: blk_def b(6))
    note add = inode_ok_add_block [OF inode wf fresh _ ndirect_max [OF fb] unmapped map]
    have "sfs_bmap_check s' b = Some ()"
      using b(4,5) nb by (intro sfs_bmap_check_ok [OF b(7)]) simp
    then have run: "sfs_bmap s sv fb True = Some (Inr b, s', ?sv)"
      using fb z b(1) by (simp add: sfs_bmap_def sfs_bmap_direct_def)
    have "bmap_ext s sv s' ?sv"
      using add b fresh by (auto simp: bmap_ext_def sv_meta_def)
    moreover have "bmap_result s sv fb (Inr b) s' ?sv"
      using map ndirect_max [OF fb] unmapped b(2,3,6) by (simp add: bmap_result_def)
    ultimately show ?thesis using run by blast
  qed
qed

lemma be32s_zeros: "be32s zeros = replicate SFS_DBPERIDB 0"
proof -
  have "be32 0 = [0, 0, 0, 0]" by (simp add: be32_def)
  also have "\<dots> = replicate 4 0" by (simp add: numeral_eq_Suc)
  finally have "enc32s (replicate n 0) = replicate (4 * n) 0" for n
    by (induction n) (simp_all add: enc32s_def replicate_add)
  then have z: "zeros = enc32s (replicate SFS_DBPERIDB 0)"
    by (simp add: zeros_def SFS_BLOCKSIZE_def SFS_DBPERIDB_def)
  show ?thesis unfolding z by (rule be32s_enc32s) simp
qed

lemma sfs_bmap_idblock_ok:
  assumes ok: "fs_ok s" and inode: "inode_ok s (sv_i sv)"
  shows "\<exists>r s' sv'. sfs_bmap_idblock s sv = Some (r, s', sv') \<and> bmap_ext s sv s' sv' \<and>
     (\<forall>k < SFS_MAXBLOCKS. blk s' (sv_i sv') k = blk s (sv_i sv) k) \<and>
     (r = Inl ENOSPC \<or>
      (\<exists>idb. r = Inr (idb, be32s (fs_disk s' idb)) \<and> sfi_indirect (sv_i sv') = idb \<and> idb \<noteq> 0))"
proof (cases "sfi_indirect (sv_i sv) = 0")
  case False
  from fs_rblock_ok [OF ok inode_ok_indirect(2) [OF inode False], of zeros] obtain s' where
    s': "fs_rblock s zeros (sfi_indirect (sv_i sv)) = Some (Inr (), fs_disk s (sfi_indirect (sv_i sv)), s')"
      "fs_ok s'" "fs_same s s'" "fs_disk s' = fs_disk s" "fs_freemap s' = fs_freemap s" by auto
  with bmap_ext_quiet [OF s'(2) inode s'(3-5)] False show ?thesis
    by (simp add: sfs_bmap_idblock_def Let_def)
next
  case True
  let ?i = "sv_i sv"
  show ?thesis
  proof (rule sfs_balloc_cases [OF ok])
    assume "sfs_balloc s = Some (Inl ENOSPC, s)"
    with True bmap_ext_refl [OF ok inode] show ?thesis by (simp add: sfs_bmap_idblock_def Let_def)
  next
    fix b s'
    assume b: "sfs_balloc s = Some (Inr b, s')" "b \<notin> fs_used s" "b \<noteq> 0" "b < fs_nblocks s"
      "fs_used s' = insert b (fs_used s)" "fs_disk s' = (fs_disk s)(b := zeros)" "fs_ok s'" "fs_same s s'"
    let ?i' = "?i\<lparr>sfi_indirect := b\<rparr>"
    let ?sv = "sv\<lparr>sv_i := ?i', sv_dirty := True\<rparr>"
    have nb: "fs_nblocks s' = fs_nblocks s" using b(8) by (simp add: fs_same_def)
    have fresh: "fresh_block s s' b" using b nb by (simp add: fresh_block_def)
    have "b < 2 ^ 32" using fs_ok_bounds(1) [OF ok] b(4) by simp
    then have wf: "inode_wf ?i'" using inode by (simp add: inode_ok_def inode_wf_def)
    have map: "blk s' ?i' k = blk s ?i k" if "k < SFS_MAXBLOCKS" for k
      using True b(3,6) that
      by (auto simp: blk_def be32s_zeros SFS_MAXBLOCKS_def SFS_NDIRECT_def SFS_DBPERIDB_def)
    note add = inode_ok_add_indirect [OF inode wf fresh True _ map]
    have run: "sfs_bmap_idblock s sv = Some (Inr (b, be32s zeros), s', ?sv)"
      using True b(1) by (simp add: sfs_bmap_idblock_def)
    have "bmap_ext s sv s' ?sv"
      using add b fresh True by (auto simp: bmap_ext_def sv_meta_def)
    with run map b(3,6) show ?thesis by simp
  qed
qed

lemma sfs_bmap_indirect_alloc:
  assumes ok: "fs_ok s" and inode: "inode_ok s (sv_i sv)" and id: "sfi_indirect (sv_i sv) = idb" "idb \<noteq> 0"
    and fb: "SFS_NDIRECT \<le> fb" "fb < SFS_MAXBLOCKS" and unmapped: "blk s (sv_i sv) fb = 0"
    and alloc: "sfs_balloc s = Some (Inr b, s2)" "b \<notin> fs_used s" "b \<noteq> 0" "b < fs_nblocks s"
      "fs_used s2 = insert b (fs_used s)" "fs_disk s2 = (fs_disk s)(b := zeros)" "fs_ok s2" "fs_same s s2"
  defines "ws \<equiv> be32s (fs_disk s idb)"
  shows "\<exists>s3. fs_wblock s2 (enc32s (ws[fb - SFS_NDIRECT := b])) idb = Some (Inr (), s3) \<and>
     sfs_bmap_check s3 b = Some () \<and> bmap_ext s sv s3 sv \<and> bmap_result s sv fb (Inr b) s3 sv"
proof -
  let ?i = "sv_i sv" and ?ws = "ws[fb - SFS_NDIRECT := b]"
  have idb: "idb \<in> fs_used s" "idb < fs_nblocks s" using inode_ok_indirect [OF inode] id by auto
  have len: "length ws = SFS_DBPERIDB"
    using fs_ok_bounds(2) [OF ok idb(2)] by (simp add: ws_def length_be32s SFS_BLOCKSIZE_def SFS_DBPERIDB_def)
  have nb2: "fs_nblocks s2 = fs_nblocks s" using alloc(8) by (simp add: fs_same_def)
  have "b < 2 ^ 32" using fs_ok_bounds(1) [OF ok] alloc(4) by simp
  then have "\<forall>w \<in> set ?ws. w < 2 ^ 32"
    using be32s_bound set_update_subset_insert [of ws "fb - SFS_NDIRECT" b] unfolding ws_def by blast
  then have dec: "be32s (enc32s ?ws) = ?ws" by (rule be32s_enc32s)
  have "length (enc32s ?ws) = SFS_BLOCKSIZE" by (simp add: len SFS_DBPERIDB_def SFS_BLOCKSIZE_def)
  from fs_wblock_ok [OF alloc(7), of idb, OF _ this] idb(2) nb2 obtain s3 where
    s3: "fs_wblock s2 (enc32s ?ws) idb = Some (Inr (), s3)" "fs_ok s3" "fs_same s2 s3"
      "fs_disk s3 = (fs_disk s2)(idb := enc32s ?ws)" "fs_freemap s3 = fs_freemap s2" by auto
  have nb3: "fs_nblocks s3 = fs_nblocks s" using s3(3) nb2 by (simp add: fs_same_def)
  have used: "fs_used s3 = insert b (fs_used s)" using s3(5) alloc(5) by (simp add: fs_used_def)
  have fresh: "fresh_block s s3 b" using alloc(2-4) nb3 used by (simp add: fresh_block_def)
  have map: "blk s3 ?i k = (if k = fb then b else blk s ?i k)" if "k < SFS_MAXBLOCKS" for k
    using that fb id len by (auto simp: blk_def s3(4) dec SFS_MAXBLOCKS_def) (auto simp: ws_def)
  note add = inode_ok_add_block [OF inode _ fresh refl fb(2) unmapped map]
  have "inode_wf ?i" using inode by (simp add: inode_ok_def)
  note add = add [OF this]
  have disk: "fs_disk s3 x = fs_disk s x" if "x \<in> fs_used s" "x \<noteq> idb" for x
    using that alloc(2,6) s3(4) by auto
  have "bmap_ext s sv s3 sv"
    unfolding bmap_ext_def using add s3(2) fs_same_trans [OF alloc(8) s3(3)] used fresh id disk
    by (auto simp: sv_meta_def fresh_block_def)
  moreover have "fs_disk s3 b = zeros" using alloc(2,6) s3(4) idb(1) by auto
  then have "bmap_result s sv fb (Inr b) s3 sv"
    using map fb(2) unmapped alloc(2,3) by (simp add: bmap_result_def)
  moreover have "sfs_bmap_check s3 b = Some ()"
    using used alloc(4) nb3 by (intro sfs_bmap_check_ok [OF s3(2)]) simp
  ultimately show ?thesis using s3(1) by blast
qed

lemma bmap_result_after:
  assumes "\<forall>k < SFS_MAXBLOCKS. blk s1 (sv_i sv1) k = blk s (sv_i sv) k" and "bmap_ext s sv s1 sv1"
    and "fb < SFS_MAXBLOCKS" and "bmap_result s1 sv1 fb r s2 sv2"
  shows "bmap_result s sv fb r s2 sv2"
proof -
  have "fs_used s \<subseteq> fs_used s1" using assms(2) by (simp add: bmap_ext_def)
  with assms(1,3,4) show ?thesis unfolding bmap_result_def by auto
qed

lemma sfs_bmap_alloc:
  assumes ok: "fs_ok s" and inode: "inode_ok s (sv_i sv)" and fb: "fb < SFS_MAXBLOCKS"
  shows "\<exists>r s' sv'. sfs_bmap s sv fb True = Some (r, s', sv') \<and> bmap_ext s sv s' sv' \<and>
                    bmap_result s sv fb r s' sv'"
proof (cases "blk s (sv_i sv) fb = 0")
  case False
  from sfs_bmap_lookup [OF ok inode fb, of True] False obtain s' where
    s': "sfs_bmap s sv fb True = Some (Inr (blk s (sv_i sv) fb), s', sv)" "fs_ok s'" "fs_same s s'"
      "fs_disk s' = fs_disk s" "fs_freemap s' = fs_freemap s" by auto
  with bmap_ext_quiet [OF s'(2) inode s'(3-5)] False show ?thesis by (auto simp: bmap_result_def)
next
  case unmapped: True
  show ?thesis
  proof (cases "fb < SFS_NDIRECT")
    case True
    from sfs_bmap_direct_alloc [OF ok inode this unmapped] show ?thesis .
  next
    case False
    let ?o = "fb - SFS_NDIRECT"
    have o: "?o div SFS_DBPERIDB = 0" "?o mod SFS_DBPERIDB = ?o"
      using fb False by (simp_all add: SFS_MAXBLOCKS_def)
    from sfs_bmap_idblock_ok [OF ok inode] obtain r s1 sv1 where
      id: "sfs_bmap_idblock s sv = Some (r, s1, sv1)" and ext: "bmap_ext s sv s1 sv1"
      and same: "\<forall>k < SFS_MAXBLOCKS. blk s1 (sv_i sv1) k = blk s (sv_i sv) k"
      and r: "r = Inl ENOSPC \<or>
        (\<exists>idb. r = Inr (idb, be32s (fs_disk s1 idb)) \<and> sfi_indirect (sv_i sv1) = idb \<and> idb \<noteq> 0)"
      by blast
    have ok1: "fs_ok s1" "inode_ok s1 (sv_i sv1)" using ext by (simp_all add: bmap_ext_def)
    from r show ?thesis
    proof (elim disjE exE conjE)
      assume "r = Inl ENOSPC"
      with id ext same False o show ?thesis
        by (simp add: sfs_bmap_def Let_def bmap_result_def)
    next
      fix idb
      assume r': "r = Inr (idb, be32s (fs_disk s1 idb))" and idb: "sfi_indirect (sv_i sv1) = idb" "idb \<noteq> 0"
      have un1: "blk s1 (sv_i sv1) fb = 0" using same fb unmapped by simp
      then have slot: "be32s (fs_disk s1 idb) ! ?o = 0" using idb False fb by (simp add: blk_def)
      show ?thesis
      proof (rule sfs_balloc_cases [OF ok1(1)])
        assume "sfs_balloc s1 = Some (Inl ENOSPC, s1)"
        with id r' slot False o have "sfs_bmap s sv fb True = Some (Inl ENOSPC, s1, sv1)"
          by (simp add: sfs_bmap_def Let_def)
        with ext same show ?thesis by (auto simp: bmap_result_def)
      next
        fix b s2
        assume b: "sfs_balloc s1 = Some (Inr b, s2)" "b \<notin> fs_used s1" "b \<noteq> 0" "b < fs_nblocks s1"
          "fs_used s2 = insert b (fs_used s1)" "fs_disk s2 = (fs_disk s1)(b := zeros)" "fs_ok s2" "fs_same s1 s2"
        from False have "SFS_NDIRECT \<le> fb" by simp
        from sfs_bmap_indirect_alloc [OF ok1 idb this fb un1 b] obtain s3 where
          s3: "fs_wblock s2 (enc32s ((be32s (fs_disk s1 idb))[?o := b])) idb = Some (Inr (), s3)"
            "sfs_bmap_check s3 b = Some ()" "bmap_ext s1 sv1 s3 sv1" "bmap_result s1 sv1 fb (Inr b) s3 sv1"
          by blast
        have "sfs_bmap s sv fb True = Some (Inr b, s3, sv1)"
          using id r' slot False o b(1) s3(1,2) by (simp add: sfs_bmap_def Let_def)
        with bmap_ext_trans [OF ext s3(3)] bmap_result_after [OF same ext fb s3(4)] show ?thesis by blast
      qed
    qed
  qed
qed

subsection \<open>Properties\<close>


text \<open>A small volume: blocks 0 to 2 reserved, a file with one direct block (block 3).\<close>

definition fs_ex :: sfs_fs where
  "fs_ex = \<lparr>fs_dev = \<lparr>lh_blocks = 8, lh_buf = zeros, lh_disk = (\<lambda>b. zeros), lh_codes = []\<rparr>,
            fs_super = \<lparr>sp_magic = SFS_MAGIC, sp_nblocks = 8, sp_volname = replicate 32 0,
                        sp_reserved = replicate 118 0\<rparr>,
            fs_superdirty = False, fs_freemap = \<lparr>b_nbits = 8, b_v = [15]\<rparr>, fs_freemapdirty = False,
            fs_vnodes = array_init, fs_vn = (\<lambda>v. None)\<rparr>"

definition sv_ex :: sfs_vnode where
  "sv_ex = \<lparr>sv_v = vnode_init sfs_fileops,
            sv_i = \<lparr>sfi_size = 10, sfi_type = SFS_TYPE_FILE, sfi_linkcount = 1,
                    sfi_direct = 3 # replicate 14 0, sfi_indirect = 0, sfi_waste = replicate 110 0\<rparr>,
            sv_ino = 2, sv_dirty = False\<rparr>"

lemma fs_ex_used: "fs_used fs_ex = {0, 1, 2, 3}"
proof -
  have b: "bit (15 :: u8) n \<longleftrightarrow> n < 4" if "n < 8" for n
  proof -
    have m: "(15 :: u8) = mask 4" by (simp add: mask_eq_exp_minus_1)
    show ?thesis unfolding m using that by (simp add: bit_mask_iff)
  qed
  have "bitmap_bit (fs_freemap fs_ex) i \<longleftrightarrow> i < 4" if "i < 8" for i
    using that b [OF that] by (simp add: bitmap_bit_def fs_ex_def)
  then have "fs_used fs_ex = {i. i < 4}"
    unfolding fs_used_def bitmap_used_def by (auto simp: fs_ex_def)
  also have "\<dots> = {0, 1, 2, 3}" by auto
  finally show ?thesis .
qed

lemma fs_ex_ok: "fs_ok fs_ex"
proof -
  have "bitmap_wf (fs_freemap fs_ex)" by (simp add: bitmap_wf_def fs_ex_def)
  moreover have "lhd_ok (fs_dev fs_ex)"
    by (simp add: lhd_ok_def lhd_wf_def fs_ex_def LHD_SECTSIZE_def SFS_BLOCKSIZE_def)
  ultimately show ?thesis using fs_ex_used by (simp add: fs_ok_def) (simp add: fs_ex_def)
qed

lemma blk_ex: "blk fs_ex (sv_i sv_ex) k = (if k = 0 then 3 else 0)" if "k < SFS_MAXBLOCKS"
  using that by (auto simp: blk_def sv_ex_def SFS_NDIRECT_def nth_Cons')

lemma sv_ex_ok: "inode_ok fs_ex (sv_i sv_ex)"
proof -
  have i: "sfi_indirect (sv_i sv_ex) = 0" by (simp add: sv_ex_def)
  have "file_blocks fs_ex (sv_i sv_ex) \<subseteq> {3}"
    using blk_ex i by (auto simp: file_blocks_def split: if_splits)
  moreover have "inode_wf (sv_i sv_ex)"
    by (simp add: inode_wf_def sv_ex_def SFS_NDIRECT_def SFS_TYPE_FILE_def)
  moreover have "fs_nblocks fs_ex = 8" by (simp add: fs_ex_def)
  ultimately show ?thesis
    using blk_ex i fs_ex_used unfolding inode_ok_def by (auto split: if_splits)
qed


end
