(* ===== verification/Sfs_File.thy ===== *)
theory Sfs_File
  imports Sfs_Inode
begin

section \<open>SFS file input and output: \<open>kern/fs/sfs/sfs_vnode.c\<close>, second part\<close>

text \<open>
  Reading and writing a region of a file through the block map, and truncation. The
  abstraction of a file is the function from byte offsets to bytes, with unmapped blocks
  reading as zero; the lemmas show that \<open>sfs_io\<close> is a flat read or write of that function,
  whatever the alignment, and that it touches no block of another file.
\<close>

subsection \<open>The code\<close>

definition sfs_partialio ::
  "sfs_fs \<Rightarrow> sfs_vnode \<Rightarrow> uio \<Rightarrow> nat \<Rightarrow> nat \<Rightarrow> (unit kresult \<times> sfs_fs \<times> sfs_vnode \<times> uio) option" where
  "sfs_partialio s sv u skipstart len = do {
     let doalloc = (uio_rw u = UIO_WRITE);
     kassert (skipstart + len \<le> SFS_BLOCKSIZE);
     let fileblock = wrap32 (uio_offset u div SFS_BLOCKSIZE);
     (r, s1, sv1) \<leftarrow> sfs_bmap s sv fileblock doalloc;
     (case r of
        Inl e \<Rightarrow> Some (Inl e, s1, sv1, u)
      | Inr diskblock \<Rightarrow>
          do {
            (r2, iobuf, s2) \<leftarrow>
              (if diskblock = 0
               then do { kassert (uio_rw u = UIO_READ); Some (Inr (), zeros, s1) }
               else fs_rblock s1 zeros diskblock);
            (case r2 of
               Inl e \<Rightarrow> Some (Inl e, s2, sv1, u)
             | Inr _ \<Rightarrow>
                 do {
                   (r3, part, u3) \<leftarrow> uiomove (drop skipstart iobuf) len u;
                   let iobuf' = take skipstart iobuf @ part;
                   (case r3 of
                      Inl e \<Rightarrow> Some (Inl e, s2, sv1, u3)
                    | Inr _ \<Rightarrow>
                        (if uio_rw u3 = UIO_WRITE then
                           do {
                             (r4, s4) \<leftarrow> fs_wblock s2 iobuf' diskblock;
                             (case r4 of
                                Inl e \<Rightarrow> Some (Inl e, s4, sv1, u3)
                              | Inr _ \<Rightarrow> Some (Inr (), s4, sv1, u3))
                           }
                         else Some (Inr (), s2, sv1, u3)))
                 })
          })
   }"

definition sfs_blockio ::
  "sfs_fs \<Rightarrow> sfs_vnode \<Rightarrow> uio \<Rightarrow> (unit kresult \<times> sfs_fs \<times> sfs_vnode \<times> uio) option" where
  "sfs_blockio s sv u = do {
     let doalloc = (uio_rw u = UIO_WRITE);
     let fileblock = wrap32 (uio_offset u div SFS_BLOCKSIZE);
     (r, s1, sv1) \<leftarrow> sfs_bmap s sv fileblock doalloc;
     (case r of
        Inl e \<Rightarrow> Some (Inl e, s1, sv1, u)
      | Inr diskblock \<Rightarrow>
          (if diskblock = 0 then
             do {
               kassert (uio_rw u = UIO_READ);
               (r2, u2) \<leftarrow> uiomovezeros SFS_BLOCKSIZE u;
               Some (r2, s1, sv1, u2)
             }
           else
             do {
               let saveoff = uio_offset u;
               let diskoff = wrap32 (diskblock * SFS_BLOCKSIZE);
               kassert (uio_resid u \<ge> SFS_BLOCKSIZE);
               let saveres = uio_resid u;
               (r2, d2, u2) \<leftarrow> sfs_rwblock (fs_dev s1) (u\<lparr>uio_offset := diskoff, uio_resid := SFS_BLOCKSIZE\<rparr>);
               Some (r2, s1\<lparr>fs_dev := d2\<rparr>, sv1,
                     u2\<lparr>uio_offset := uio_offset u2 - diskoff + saveoff,
                        uio_resid := saveres - (SFS_BLOCKSIZE - uio_resid u2)\<rparr>)
             }))
   }"

text \<open>The loop over whole blocks.\<close>

primrec sfs_blocks ::
  "nat \<Rightarrow> sfs_fs \<Rightarrow> sfs_vnode \<Rightarrow> uio \<Rightarrow> (unit kresult \<times> sfs_fs \<times> sfs_vnode \<times> uio) option" where
  "sfs_blocks 0 s sv u = Some (Inr (), s, sv, u)"
| "sfs_blocks (Suc n) s sv u = do {
     (r, s', sv', u') \<leftarrow> sfs_blockio s sv u;
     (case r of Inl e \<Rightarrow> Some (Inl e, s', sv', u') | Inr _ \<Rightarrow> sfs_blocks n s' sv' u')
   }"

text \<open>The whole blocks and the trailing partial block.\<close>

definition sfs_io_aligned ::
  "sfs_fs \<Rightarrow> sfs_vnode \<Rightarrow> uio \<Rightarrow> (unit kresult \<times> sfs_fs \<times> sfs_vnode \<times> uio) option" where
  "sfs_io_aligned s sv u = do {
     kassert (uio_offset u mod SFS_BLOCKSIZE = 0);
     let nblocks = uio_resid u div SFS_BLOCKSIZE;
     (r, s', sv', u') \<leftarrow> sfs_blocks nblocks s sv u;
     (case r of
        Inl e \<Rightarrow> Some (Inl e, s', sv', u')
      | Inr _ \<Rightarrow> do {
          kassert (uio_resid u' < SFS_BLOCKSIZE);
          (if uio_resid u' > 0 then sfs_partialio s' sv' u' 0 (uio_resid u')
           else Some (Inr (), s', sv', u'))
        })
   }"

text \<open>From the leading partial block to the label \<open>out\<close>.\<close>

definition sfs_io_body ::
  "sfs_fs \<Rightarrow> sfs_vnode \<Rightarrow> uio \<Rightarrow> (unit kresult \<times> sfs_fs \<times> sfs_vnode \<times> uio) option" where
  "sfs_io_body s sv u = do {
     let blkoff = uio_offset u mod SFS_BLOCKSIZE;
     (r, s1, sv1, u1) \<leftarrow>
       (if blkoff \<noteq> 0
        then sfs_partialio s sv u blkoff (min (SFS_BLOCKSIZE - blkoff) (uio_resid u))
        else Some (Inr (), s, sv, u));
     (case r of
        Inl e \<Rightarrow> Some (Inl e, s1, sv1, u1)
      | Inr _ \<Rightarrow>
          (if uio_resid u1 = 0 then Some (Inr (), s1, sv1, u1)
           else sfs_io_aligned s1 sv1 u1))
   }"

definition sfs_io ::
  "sfs_fs \<Rightarrow> sfs_vnode \<Rightarrow> uio \<Rightarrow> (unit kresult \<times> sfs_fs \<times> sfs_vnode \<times> uio) option" where
  "sfs_io s sv u =
     (let sz = sfi_size (sv_i sv); endpos = uio_offset u + uio_resid u in
      if uio_rw u = UIO_READ \<and> uio_offset u \<ge> sz then Some (Inr (), s, sv, u)
      else do {
        let extraresid = (if uio_rw u = UIO_READ \<and> endpos > sz then wrap32 (endpos - sz) else 0);
        kassert (extraresid = 0 \<or> uio_resid u > extraresid);
        (r, s', sv', u') \<leftarrow> sfs_io_body s sv (u\<lparr>uio_resid := uio_resid u - extraresid\<rparr>);
        let sv'' = (if uio_rw u' = UIO_WRITE \<and> uio_offset u' > sfi_size (sv_i sv')
                    then sv'\<lparr>sv_i := (sv_i sv')\<lparr>sfi_size := wrap32 (uio_offset u')\<rparr>, sv_dirty := True\<rparr>
                    else sv');
        Some (r, s', sv'', u'\<lparr>uio_resid := wrap32 (uio_resid u' + extraresid)\<rparr>)
      })"

text \<open>
  Truncation. The loop over the direct blocks, and the loop over the indirect block, which
  hands back the new buffer, whether a block is left in it and whether it changed.
\<close>

function trunc_direct :: "nat \<Rightarrow> nat \<Rightarrow> sfs_fs \<Rightarrow> sfs_vnode \<Rightarrow> (sfs_fs \<times> sfs_vnode) option" where
  "trunc_direct blocklen i s sv =
     (if i < SFS_NDIRECT then
        let block = sfi_direct (sv_i sv) ! i in
        if i \<ge> blocklen \<and> block \<noteq> 0 then
          do {
            s' \<leftarrow> sfs_bfree s block;
            trunc_direct blocklen (i + 1) s'
              (sv\<lparr>sv_i := (sv_i sv)\<lparr>sfi_direct := (sfi_direct (sv_i sv))[i := 0]\<rparr>, sv_dirty := True\<rparr>)
          }
        else trunc_direct blocklen (i + 1) s sv
      else Some (s, sv))"
  by pat_completeness auto
termination by (relation "measure (\<lambda>(blocklen, i, s, sv). SFS_NDIRECT - i)") auto

function trunc_indirect ::
  "nat \<Rightarrow> nat \<Rightarrow> sfs_fs \<Rightarrow> nat list \<Rightarrow> bool \<Rightarrow> bool \<Rightarrow> (sfs_fs \<times> nat list \<times> bool \<times> bool) option" where
  "trunc_indirect blocklen j s idbuf hasnonzero iddirty =
     (if j < SFS_DBPERIDB then
        do {
          (s', idbuf', iddirty') \<leftarrow>
            (if blocklen < SFS_NDIRECT + j \<and> idbuf ! j \<noteq> 0
             then do { s' \<leftarrow> sfs_bfree s (idbuf ! j); Some (s', idbuf[j := 0], True) }
             else Some (s, idbuf, iddirty));
          trunc_indirect blocklen (j + 1) s' idbuf' (hasnonzero \<or> idbuf' ! j \<noteq> 0) iddirty'
        }
      else Some (s, idbuf, hasnonzero, iddirty))"
  by pat_completeness auto
termination
  by (relation "measure (\<lambda>(blocklen, j, s, idbuf, hasnonzero, iddirty). SFS_DBPERIDB - j)") auto

declare trunc_direct.simps [simp del] trunc_indirect.simps [simp del]

definition trunc_idblock ::
  "nat \<Rightarrow> sfs_fs \<Rightarrow> sfs_vnode \<Rightarrow> (unit kresult \<times> sfs_fs \<times> sfs_vnode) option" where
  "trunc_idblock blocklen s sv =
     (let idblock = sfi_indirect (sv_i sv);
          highblock = SFS_NDIRECT + SFS_DBPERIDB - 1
      in if blocklen < highblock \<and> idblock \<noteq> 0 then
           do {
             (r, buf, s2) \<leftarrow> fs_rblock s zeros idblock;
             (case r of
                Inl e \<Rightarrow> Some (Inl e, s2, sv)
              | Inr _ \<Rightarrow>
                  do {
                    (s3, idbuf, hasnonzero, iddirty) \<leftarrow> trunc_indirect blocklen 0 s2 (be32s buf) False False;
                    (if \<not> hasnonzero then
                       do {
                         s4 \<leftarrow> sfs_bfree s3 idblock;
                         Some (Inr (), s4, sv\<lparr>sv_i := (sv_i sv)\<lparr>sfi_indirect := 0\<rparr>, sv_dirty := True\<rparr>)
                       }
                     else if iddirty then
                       do {
                         (r4, s4) \<leftarrow> fs_wblock s3 (enc32s idbuf) idblock;
                         Some (r4, s4, sv)
                       }
                     else Some (Inr (), s3, sv))
                  })
           }
         else Some (Inr (), s, sv))"

definition sfs_truncate :: "sfs_fs \<Rightarrow> sfs_vnode \<Rightarrow> nat \<Rightarrow> (unit kresult \<times> sfs_fs \<times> sfs_vnode) option" where
  "sfs_truncate s sv len = do {
     let blocklen = wrap32 ((len + SFS_BLOCKSIZE - 1) div SFS_BLOCKSIZE);
     (s1, sv1) \<leftarrow> trunc_direct blocklen 0 s sv;
     (r, s2, sv2) \<leftarrow> trunc_idblock blocklen s1 sv1;
     (case r of
        Inl e \<Rightarrow> Some (Inl e, s2, sv2)
      | Inr _ \<Rightarrow>
          Some (Inr (), s2, sv2\<lparr>sv_i := (sv_i sv2)\<lparr>sfi_size := wrap32 len\<rparr>, sv_dirty := True\<rparr>))
   }"

subsection \<open>The bytes of a file\<close>

definition fbyte :: "sfs_fs \<Rightarrow> sfs_inode \<Rightarrow> nat \<Rightarrow> u8" where
  "fbyte s i off =
     (let b = blk s i (off div SFS_BLOCKSIZE) in
      if b = 0 then 0 else fs_disk s b ! (off mod SFS_BLOCKSIZE))"

definition SFS_MAXFILE :: nat where
  "SFS_MAXFILE = SFS_MAXBLOCKS * SFS_BLOCKSIZE"

text \<open>
  \<open>sfs_blockio\<close> computes the byte offset of a disk block in 32 bits, so it needs a volume
  below 4 GiB.
\<close>

definition fs_small :: "sfs_fs \<Rightarrow> bool" where
  "fs_small s \<longleftrightarrow> fs_ok s \<and> fs_nblocks s \<le> 2 ^ 23"

text \<open>Only the on-card buffer changed.\<close>

definition quiet :: "sfs_fs \<Rightarrow> sfs_fs \<Rightarrow> bool" where
  "quiet s s' \<longleftrightarrow> fs_ok s' \<and> fs_same s s' \<and> fs_disk s' = fs_disk s \<and> fs_freemap s' = fs_freemap s"

lemma quiet_refl: "fs_ok s \<Longrightarrow> quiet s s"
  by (simp add: quiet_def)

lemma quiet_trans: "quiet s s1 \<Longrightarrow> quiet s1 s2 \<Longrightarrow> quiet s s2"
  using fs_same_trans by (auto simp: quiet_def)

lemma quiet_blk: "quiet s s' \<Longrightarrow> blk s' = blk s"
  by (intro ext) (simp add: quiet_def blk_def)

lemma quiet_fbyte: "quiet s s' \<Longrightarrow> fbyte s' = fbyte s"
  using quiet_blk [of s s'] by (intro ext) (simp add: quiet_def fbyte_def Let_def)

lemma quiet_inode_ok: "quiet s s' \<Longrightarrow> inode_ok s i \<Longrightarrow> inode_ok s' i"
  by (rule inode_ok_cong) (simp_all add: quiet_def fs_used_def fs_same_def)

lemma block_offset:
  assumes "off = q * SFS_BLOCKSIZE + skip" and "skip < SFS_BLOCKSIZE"
  shows "off div SFS_BLOCKSIZE = q" and "off mod SFS_BLOCKSIZE = skip"
  using assms by simp_all

lemma fbyte_chunk:
  assumes "skip + len \<le> SFS_BLOCKSIZE" and "blk s i q \<noteq> 0" and "length (fs_disk s (blk s i q)) = SFS_BLOCKSIZE"
  shows "map (fbyte s i) [q * SFS_BLOCKSIZE + skip..<q * SFS_BLOCKSIZE + skip + len] =
         take len (drop skip (fs_disk s (blk s i q)))"
proof (rule nth_equalityI)
  fix k assume "k < length (map (fbyte s i) [q * SFS_BLOCKSIZE + skip..<q * SFS_BLOCKSIZE + skip + len])"
  then have k: "k < len" by simp
  then have "(q * SFS_BLOCKSIZE + skip + k) div SFS_BLOCKSIZE = q"
    "(q * SFS_BLOCKSIZE + skip + k) mod SFS_BLOCKSIZE = skip + k"
    using assms(1) block_offset [of "q * SFS_BLOCKSIZE + skip + k" q "skip + k"] by simp_all
  with k assms show "map (fbyte s i) [q * SFS_BLOCKSIZE + skip..<q * SFS_BLOCKSIZE + skip + len] ! k =
         take len (drop skip (fs_disk s (blk s i q))) ! k"
    by (simp add: fbyte_def)
qed (use assms in simp)

lemma fbyte_chunk_hole:
  assumes "skip + len \<le> SFS_BLOCKSIZE" and "blk s i q = 0"
  shows "map (fbyte s i) [q * SFS_BLOCKSIZE + skip..<q * SFS_BLOCKSIZE + skip + len] = replicate len 0"
proof (rule nth_equalityI)
  fix k assume "k < length (map (fbyte s i) [q * SFS_BLOCKSIZE + skip..<q * SFS_BLOCKSIZE + skip + len])"
  then have k: "k < len" by simp
  then have "(q * SFS_BLOCKSIZE + skip + k) div SFS_BLOCKSIZE = q"
    using assms(1) block_offset [of "q * SFS_BLOCKSIZE + skip + k" q "skip + k"] by simp
  with k assms show "map (fbyte s i) [q * SFS_BLOCKSIZE + skip..<q * SFS_BLOCKSIZE + skip + len] ! k =
         replicate len 0 ! k"
    by (simp add: fbyte_def)
qed simp

subsection \<open>Reading\<close>

lemma wrap32_block: "q < SFS_MAXBLOCKS \<Longrightarrow> wrap32 q = q"
  by (simp add: SFS_MAXBLOCKS_def SFS_NDIRECT_def SFS_DBPERIDB_def)

lemma sfs_partialio_read:
  assumes ok: "fs_ok s" and inode: "inode_ok s (sv_i sv)" and u: "kuio u" "uio_rw u = UIO_READ"
    and off: "uio_offset u = q * SFS_BLOCKSIZE + skip" "skip < SFS_BLOCKSIZE" and q: "q < SFS_MAXBLOCKS"
    and len: "skip + len \<le> SFS_BLOCKSIZE" "len \<le> uio_resid u"
  shows "\<exists>s' u'. sfs_partialio s sv u skip len = Some (Inr (), s', sv, u') \<and> quiet s s' \<and>
                 uio_moved (map (fbyte s (sv_i sv)) [uio_offset u..<uio_offset u + len]) u u'"
proof -
  let ?b = "blk s (sv_i sv) q"
  have fb: "wrap32 (uio_offset u div SFS_BLOCKSIZE) = q"
    using block_offset(1) [OF off] wrap32_block [OF q] by simp
  from sfs_bmap_lookup [OF ok inode q, of False] obtain s1 where
    bm: "sfs_bmap s sv q False = Some (Inr ?b, s1, sv)" and s1: "quiet s s1" by (auto simp: quiet_def)
  have "\<exists>buf s2. (if ?b = 0 then do { kassert (uio_rw u = UIO_READ); Some (Inr (), zeros, s1) }
      else fs_rblock s1 zeros ?b) = Some (Inr (), buf, s2) \<and> quiet s s2 \<and> length buf = SFS_BLOCKSIZE \<and>
      map (fbyte s (sv_i sv)) [uio_offset u..<uio_offset u + len] = take len (drop skip buf)"
  proof (cases "?b = 0")
    case True
    with u(2) s1 fbyte_chunk_hole [OF len(1) True] len(1) off(1) show ?thesis by (simp add: zeros_def)
  next
    case False
    have b: "?b < fs_nblocks s1" using inode_ok_blk [OF inode q] False s1 by (auto simp: quiet_def fs_same_def)
    have ok1: "fs_ok s1" using s1 by (simp add: quiet_def)
    from fs_rblock_ok [OF ok1 b, of zeros] obtain s2 where
      s2: "fs_rblock s1 zeros ?b = Some (Inr (), fs_disk s1 ?b, s2)" "quiet s1 s2" by (auto simp: quiet_def)
    have "length (fs_disk s1 ?b) = SFS_BLOCKSIZE" by (rule fs_ok_bounds(2) [OF ok1 b])
    moreover have "fs_disk s1 = fs_disk s" using s1 by (simp add: quiet_def)
    ultimately show ?thesis
      using False s2 quiet_trans [OF s1 s2(2)] fbyte_chunk [OF len(1) False] off(1) by simp
  qed
  then obtain buf s2 where
    rd: "(if ?b = 0 then do { kassert (uio_rw u = UIO_READ); Some (Inr (), zeros, s1) }
          else fs_rblock s1 zeros ?b) = Some (Inr (), buf, s2)" and s2: "quiet s s2"
    and buf: "length buf = SFS_BLOCKSIZE"
    and bytes: "map (fbyte s (sv_i sv)) [uio_offset u..<uio_offset u + len] = take len (drop skip buf)"
    by blast
  have "len \<le> length (drop skip buf)" using buf len(1) by simp
  from uiomove_kernel [OF u(1) len(2) this] u(2) obtain u' where
    mv: "uiomove (drop skip buf) len u = Some (Inr (), drop skip buf, u')"
      "uio_moved (take len (drop skip buf)) u u'"
    by (auto simp: uio_ptr_def uio_bytes_def)
  have "uio_rw u' = UIO_READ" using mv(2) u(2) by (simp add: uio_moved_def)
  with bm rd mv s2 bytes u(2) len(1) fb show ?thesis by (simp add: sfs_partialio_def)
qed

text \<open>The change of offset and residue around a transfer of one block to the disk.\<close>

lemma uio_moved_redirect:
  assumes u: "kuio u" and resid: "SFS_BLOCKSIZE \<le> uio_resid u" and bs: "length bs = SFS_BLOCKSIZE"
    and mv: "uio_moved bs (u\<lparr>uio_offset := d, uio_resid := SFS_BLOCKSIZE\<rparr>) u2"
  shows "uio_moved bs u (u2\<lparr>uio_offset := uio_offset u2 - d + uio_offset u,
                           uio_resid := uio_resid u - (SFS_BLOCKSIZE - uio_resid u2)\<rparr>)"
proof -
  have done_todo: "uio_done (v\<lparr>uio_offset := a, uio_resid := c\<rparr>) = uio_done v"
    "uio_todo (v\<lparr>uio_offset := a, uio_resid := c\<rparr>) = uio_todo v" for v a c
    by (simp_all add: uio_done_def uio_todo_def)
  have "uio_resid u2 = 0" "uio_offset u2 = d + SFS_BLOCKSIZE" "kuio u2"
    "uio_done u2 = uio_done u @ bs" "uio_todo u2 = drop SFS_BLOCKSIZE (uio_todo u)" "uio_rw u2 = uio_rw u"
    using mv bs by (simp_all add: uio_moved_def done_todo)
  with u resid bs show ?thesis by (auto simp: uio_moved_def done_todo kuio_def)
qed

lemma kuio_redirect:
  "kuio u \<Longrightarrow> SFS_BLOCKSIZE \<le> uio_resid u \<Longrightarrow> kuio (u\<lparr>uio_offset := d, uio_resid := SFS_BLOCKSIZE\<rparr>)"
  by (simp add: kuio_def uio_todo_def SFS_BLOCKSIZE_def)

lemma disk_offset:
  "fs_small s \<Longrightarrow> b < fs_nblocks s \<Longrightarrow> wrap32 (b * SFS_BLOCKSIZE) = b * SFS_BLOCKSIZE"
  by (simp add: fs_small_def SFS_BLOCKSIZE_def)

lemma sect_block: "LHD_SECTSIZE = SFS_BLOCKSIZE"
  by (simp add: LHD_SECTSIZE_def SFS_BLOCKSIZE_def)

lemma sfs_blockio_read:
  assumes ok: "fs_small s" and inode: "inode_ok s (sv_i sv)" and u: "kuio u" "uio_rw u = UIO_READ"
    and off: "uio_offset u = q * SFS_BLOCKSIZE" and q: "q < SFS_MAXBLOCKS"
    and len: "SFS_BLOCKSIZE \<le> uio_resid u"
  shows "\<exists>s' u'. sfs_blockio s sv u = Some (Inr (), s', sv, u') \<and> quiet s s' \<and>
     uio_moved (map (fbyte s (sv_i sv)) [uio_offset u..<uio_offset u + SFS_BLOCKSIZE]) u u'"
proof -
  let ?b = "blk s (sv_i sv) q"
  have pos: "0 < SFS_BLOCKSIZE" by (simp add: SFS_BLOCKSIZE_def)
  have ok0: "fs_ok s" using ok by (simp add: fs_small_def)
  have fb: "wrap32 (uio_offset u div SFS_BLOCKSIZE) = q"
    using off wrap32_block [OF q] pos by simp
  from sfs_bmap_lookup [OF ok0 inode q, of False] obtain s1 where
    bm: "sfs_bmap s sv q False = Some (Inr ?b, s1, sv)" and s1: "quiet s s1" by (auto simp: quiet_def)
  show ?thesis
  proof (cases "?b = 0")
    case True
    from uiomovezeros_kernel [OF u(1) len u(2)] obtain u' where
      "uiomovezeros SFS_BLOCKSIZE u = Some (Inr (), u')" "uio_moved (replicate SFS_BLOCKSIZE 0) u u'" by blast
    with True bm fb u(2) s1 fbyte_chunk_hole [OF _ True, of 0 SFS_BLOCKSIZE] off show ?thesis
      by (simp add: sfs_blockio_def)
  next
    case False
    let ?u = "u\<lparr>uio_offset := ?b * SFS_BLOCKSIZE, uio_resid := SFS_BLOCKSIZE\<rparr>"
    have b: "?b < fs_nblocks s" using inode_ok_blk [OF inode q] False by auto
    have dev: "lhd_wf (fs_dev s1)" "?b < lh_blocks (fs_dev s1)" "lh_codes (fs_dev s1) = []"
      using s1 b ok0 by (auto simp: quiet_def fs_ok_def lhd_ok_def fs_same_def)
    have disk: "fs_disk s1 = fs_disk s" using s1 by (simp add: quiet_def)
    from lhd_read_ok [OF dev kuio_redirect [OF u(1) len, of "?b * SFS_BLOCKSIZE"]] u(2) disk obtain u2 where
      io: "lhd_io (fs_dev s1) ?u = Some (Inr (), (fs_dev s1)\<lparr>lh_buf := fs_disk s ?b\<rparr>, u2)"
        "uio_moved (fs_disk s ?b) ?u u2"
      by (auto simp: sect_block)
    have lenb: "length (fs_disk s ?b) = SFS_BLOCKSIZE" by (rule fs_ok_bounds(2) [OF ok0 b])
    let ?s = "s1\<lparr>fs_dev := (fs_dev s1)\<lparr>lh_buf := fs_disk s ?b\<rparr>\<rparr>"
    have "quiet s1 ?s"
      using s1 lenb by (auto simp: quiet_def fs_ok_def lhd_ok_def lhd_wf_def fs_same_def fs_used_def sect_block)
    from quiet_trans [OF s1 this] have "quiet s ?s" .
    moreover have "map (fbyte s (sv_i sv)) [uio_offset u..<uio_offset u + SFS_BLOCKSIZE] = fs_disk s ?b"
      using fbyte_chunk [OF _ False lenb, of 0 SFS_BLOCKSIZE] lenb off by simp
    ultimately show ?thesis
      using False bm fb u(2) len disk_offset [OF ok b] io uio_moved_redirect [OF u(1) len lenb io(2)]
        sfs_retry_ok [OF io(1), of 0]
      by (simp add: sfs_blockio_def sfs_rwblock_def Let_def)
  qed
qed

lemma fs_small_quiet: "fs_small s \<Longrightarrow> quiet s s' \<Longrightarrow> fs_small s'"
  by (simp add: fs_small_def quiet_def fs_same_def)

lemma upt_split: "i \<le> j \<Longrightarrow> j \<le> k \<Longrightarrow> [i..<k] = [i..<j] @ [j..<k]"
  using upt_add_eq_append [of i j "k - j"] by simp

lemma sfs_blocks_read:
  assumes "fs_small s" and "inode_ok s (sv_i sv)" and "kuio u" and "uio_rw u = UIO_READ"
    and "uio_offset u = q * SFS_BLOCKSIZE" and "q + n \<le> SFS_MAXBLOCKS" and "n * SFS_BLOCKSIZE \<le> uio_resid u"
  shows "\<exists>s' u'. sfs_blocks n s sv u = Some (Inr (), s', sv, u') \<and> quiet s s' \<and>
     uio_moved (map (fbyte s (sv_i sv)) [uio_offset u..<uio_offset u + n * SFS_BLOCKSIZE]) u u'"
  using assms
proof (induction n arbitrary: s u q)
  case 0
  then show ?case by (simp add: quiet_refl fs_small_def uio_moved_refl)
next
  case (Suc n)
  let ?B = SFS_BLOCKSIZE
  have "q < SFS_MAXBLOCKS" "?B \<le> uio_resid u" using Suc.prems(6,7) by simp_all
  from sfs_blockio_read [OF Suc.prems(1-5) this] obtain s1 u1 where
    one: "sfs_blockio s sv u = Some (Inr (), s1, sv, u1)" "quiet s s1"
      "uio_moved (map (fbyte s (sv_i sv)) [uio_offset u..<uio_offset u + ?B]) u u1" by blast
  have u1: "kuio u1" "uio_rw u1 = UIO_READ" "uio_offset u1 = Suc q * ?B" "n * ?B \<le> uio_resid u1"
    using one(3) Suc.prems(4,5,7) by (auto simp: uio_moved_def)
  have "Suc q + n \<le> SFS_MAXBLOCKS" using Suc.prems(6) by simp
  from Suc.IH [OF fs_small_quiet [OF Suc.prems(1) one(2)] quiet_inode_ok [OF one(2) Suc.prems(2)] u1(1-3) this u1(4)]
  obtain s2 u2 where
    rest: "sfs_blocks n s1 sv u1 = Some (Inr (), s2, sv, u2)" "quiet s1 s2"
      "uio_moved (map (fbyte s (sv_i sv)) [uio_offset u1..<uio_offset u1 + n * ?B]) u1 u2"
    unfolding quiet_fbyte [OF one(2)] by blast
  have "uio_offset u1 = uio_offset u + ?B" using one(3) by (simp add: uio_moved_def)
  then have "[uio_offset u..<uio_offset u + Suc n * ?B] =
      [uio_offset u..<uio_offset u + ?B] @ [uio_offset u1..<uio_offset u1 + n * ?B]"
    using upt_split [of "uio_offset u" "uio_offset u + ?B" "uio_offset u + Suc n * ?B"] by (simp add: add.assoc)
  then show ?case
    using one(1) rest(1) quiet_trans [OF one(2) rest(2)] uio_moved_trans [OF one(3) rest(3)] by simp
qed

lemma maxfile_block: "q * SFS_BLOCKSIZE + k \<le> SFS_MAXFILE \<Longrightarrow> 0 < k \<Longrightarrow> q < SFS_MAXBLOCKS"
  by (rule ccontr) (simp add: SFS_MAXFILE_def SFS_BLOCKSIZE_def not_less)

lemma sfs_io_aligned_read:
  assumes ok: "fs_small s" and inode: "inode_ok s (sv_i sv)" and u: "kuio u" "uio_rw u = UIO_READ"
    and off: "uio_offset u = q * SFS_BLOCKSIZE" and lim: "uio_offset u + uio_resid u \<le> SFS_MAXFILE"
  shows "\<exists>s' u'. sfs_io_aligned s sv u = Some (Inr (), s', sv, u') \<and> quiet s s' \<and>
     uio_moved (map (fbyte s (sv_i sv)) [uio_offset u..<uio_offset u + uio_resid u]) u u'"
proof -
  let ?B = SFS_BLOCKSIZE
  define n r where "n = uio_resid u div ?B" and "r = uio_resid u mod ?B"
  have pos: "0 < ?B" by (simp add: SFS_BLOCKSIZE_def)
  have split: "uio_resid u = n * ?B + r" "r < ?B" using pos by (simp_all add: n_def r_def)
  have "(q + n) * ?B \<le> SFS_MAXBLOCKS * ?B"
    using lim off split(1) unfolding SFS_MAXFILE_def add_mult_distrib by linarith
  then have "q + n \<le> SFS_MAXBLOCKS" using pos by simp
  moreover have "n * ?B \<le> uio_resid u" using split(1) by simp
  ultimately obtain s1 u1 where
    one: "sfs_blocks n s sv u = Some (Inr (), s1, sv, u1)" "quiet s s1"
      "uio_moved (map (fbyte s (sv_i sv)) [uio_offset u..<uio_offset u + n * ?B]) u u1"
    using sfs_blocks_read [OF ok inode u off] by blast
  have u1: "kuio u1" "uio_rw u1 = UIO_READ" "uio_offset u1 = uio_offset u + n * ?B" "uio_resid u1 = r"
    using one(3) u(2) split(1) by (auto simp: uio_moved_def)
  have al: "uio_offset u mod ?B = 0" using off by simp
  show ?thesis
  proof (cases "r = 0")
    case True
    with one u1 al split(1) pos show ?thesis by (simp add: sfs_io_aligned_def flip: n_def)
  next
    case False
    have off1: "uio_offset u1 = (q + n) * ?B + 0" using u1(3) off by (simp add: add_mult_distrib)
    have "q + n < SFS_MAXBLOCKS"
      using lim off split(1) False by (intro maxfile_block [of _ r]) (simp_all add: add_mult_distrib)
    moreover have "fs_ok s1" using one(2) by (simp add: quiet_def)
    ultimately obtain s2 u2 where
      two: "sfs_partialio s1 sv u1 0 r = Some (Inr (), s2, sv, u2)" "quiet s1 s2"
        "uio_moved (map (fbyte s (sv_i sv)) [uio_offset u1..<uio_offset u1 + r]) u1 u2"
      using sfs_partialio_read [OF _ quiet_inode_ok [OF one(2) inode] u1(1,2) off1, of r] split(2) u1(4) pos
      unfolding quiet_fbyte [OF one(2)] by auto
    have "[uio_offset u..<uio_offset u + uio_resid u] =
        [uio_offset u..<uio_offset u + n * ?B] @ [uio_offset u1..<uio_offset u1 + r]"
      using upt_split [of "uio_offset u" "uio_offset u + n * ?B" "uio_offset u + uio_resid u"] u1(3) split(1)
      by (simp add: add.assoc)
    then show ?thesis
      using one(1) two(1) quiet_trans [OF one(2) two(2)] uio_moved_trans [OF one(3) two(3)] u1(4) al split(2) False
      by (simp add: sfs_io_aligned_def flip: n_def)
  qed
qed

lemma sfs_io_body_read:
  assumes ok: "fs_small s" and inode: "inode_ok s (sv_i sv)" and u: "kuio u" "uio_rw u = UIO_READ"
    and lim: "uio_offset u + uio_resid u \<le> SFS_MAXFILE"
  shows "\<exists>s' u'. sfs_io_body s sv u = Some (Inr (), s', sv, u') \<and> quiet s s' \<and>
     uio_moved (map (fbyte s (sv_i sv)) [uio_offset u..<uio_offset u + uio_resid u]) u u'"
proof -
  let ?B = SFS_BLOCKSIZE
  define q o' where "q = uio_offset u div ?B" and "o' = uio_offset u mod ?B"
  have pos: "0 < ?B" by (simp add: SFS_BLOCKSIZE_def)
  have off: "uio_offset u = q * ?B + o'" "o' < ?B" using pos by (simp_all add: q_def o'_def)
  have ok0: "fs_ok s" using ok by (simp add: fs_small_def)
  show ?thesis
  proof (cases "o' = 0")
    case True
    with off(1) have al: "uio_offset u = q * ?B" by simp
    show ?thesis
    proof (cases "uio_resid u = 0")
      case True
      with \<open>o' = 0\<close> u(1) show ?thesis by (simp add: sfs_io_body_def Let_def o'_def [symmetric] quiet_refl ok0 uio_moved_refl)
    next
      case False
      with True sfs_io_aligned_read [OF ok inode u al lim] show ?thesis by (simp add: sfs_io_body_def Let_def o'_def [symmetric])
    qed
  next
    case False
    define l where "l = min (?B - o') (uio_resid u)"
    have l: "o' + l \<le> ?B" "l \<le> uio_resid u" using off(2) by (auto simp: l_def)
    have body: "sfs_io_body s sv u = sfs_partialio s sv u o' l \<bind> (\<lambda>(r, s1, sv1, u1).
        case r of Inl e \<Rightarrow> Some (Inl e, s1, sv1, u1)
        | Inr _ \<Rightarrow> if uio_resid u1 = 0 then Some (Inr (), s1, sv1, u1) else sfs_io_aligned s1 sv1 u1)"
      using False by (simp add: sfs_io_body_def Let_def flip: o'_def l_def)
    have "q < SFS_MAXBLOCKS" using maxfile_block [of q o'] off(1) lim False by simp
    from sfs_partialio_read [OF ok0 inode u off this l] obtain s1 u1 where
      one: "sfs_partialio s sv u o' l = Some (Inr (), s1, sv, u1)" "quiet s s1"
        "uio_moved (map (fbyte s (sv_i sv)) [uio_offset u..<uio_offset u + l]) u u1"
      by blast
    have u1: "kuio u1" "uio_rw u1 = UIO_READ" "uio_offset u1 = uio_offset u + l"
        "uio_resid u = uio_resid u1 + l"
      using one(3) u(2) by (simp_all add: uio_moved_def)
    show ?thesis
    proof (cases "uio_resid u1 = 0")
      case True
      then have "l = uio_resid u" using u1(4) by simp
      with one True show ?thesis unfolding body by simp
    next
      case more: False
      then have "l = ?B - o'" using u1(4) by (simp add: l_def min_def split: if_splits)
      then have "uio_offset u1 = (q + 1) * ?B" using u1(3) off by simp
      from sfs_io_aligned_read [OF fs_small_quiet [OF ok one(2)] quiet_inode_ok [OF one(2) inode] u1(1,2) this]
      obtain s2 u2 where
        two: "sfs_io_aligned s1 sv u1 = Some (Inr (), s2, sv, u2)" "quiet s1 s2"
          "uio_moved (map (fbyte s (sv_i sv)) [uio_offset u1..<uio_offset u1 + uio_resid u1]) u1 u2"
        using lim u1(3,4) unfolding quiet_fbyte [OF one(2)] by auto
      have "[uio_offset u..<uio_offset u + uio_resid u] =
          [uio_offset u..<uio_offset u + l] @ [uio_offset u1..<uio_offset u1 + uio_resid u1]"
        using upt_split [of "uio_offset u" "uio_offset u + l" "uio_offset u + uio_resid u"] u1(3,4)
        by (simp add: add.commute add.left_commute)
      then show ?thesis
        using one(1) two(1) quiet_trans [OF one(2) two(2)] uio_moved_trans [OF one(3) two(3)] more
        unfolding body by simp
    qed
  qed
qed

lemma sfs_io_read:
  assumes ok: "fs_small s" and inode: "inode_ok s (sv_i sv)" and u: "kuio u" "uio_rw u = UIO_READ"
    and size: "sfi_size (sv_i sv) \<le> SFS_MAXFILE"
  defines "n \<equiv> min (uio_resid u) (sfi_size (sv_i sv) - uio_offset u)"
  shows "\<exists>s' u'. sfs_io s sv u = Some (Inr (), s', sv, u') \<and> quiet s s' \<and>
     uio_moved (map (fbyte s (sv_i sv)) [uio_offset u..<uio_offset u + n]) u u'"
proof (cases "uio_offset u \<ge> sfi_size (sv_i sv)")
  case True
  with ok u show ?thesis by (simp add: sfs_io_def n_def quiet_refl fs_small_def uio_moved_refl)
next
  case False
  let ?z = "sfi_size (sv_i sv)" and ?stop = "uio_offset u + uio_resid u"
  let ?x = "if ?stop > ?z then ?stop - ?z else 0"
  have n: "n = uio_resid u - ?x" "?x = 0 \<or> ?x < uio_resid u" "uio_offset u + n \<le> ?z" "n \<le> uio_resid u"
    using False by (auto simp: n_def)
  have r32: "uio_resid u < 2 ^ 32" using u(1) by (simp add: kuio_def)
  have x: "(if uio_rw u = UIO_READ \<and> ?stop > ?z then wrap32 (?stop - ?z) else 0) = ?x"
    using u(2) n(2) r32 by auto
  let ?u = "u\<lparr>uio_resid := n\<rparr>"
  have ku: "kuio ?u" using u(1) n(4) by (simp add: kuio_def uio_todo_def)
  have lim: "uio_offset ?u + uio_resid ?u \<le> SFS_MAXFILE" using n(3) size by simp
  have same: "uio_done ?u = uio_done u" "uio_todo ?u = uio_todo u" for k
    by (simp_all add: uio_done_def uio_todo_def)
  from sfs_io_body_read [OF ok inode ku _ lim] u(2) obtain s' u' where
    body: "sfs_io_body s sv ?u = Some (Inr (), s', sv, u')" "quiet s s'"
      "uio_moved (map (fbyte s (sv_i sv)) [uio_offset u..<uio_offset u + n]) ?u u'"
    by auto
  let ?v = "u'\<lparr>uio_resid := wrap32 (uio_resid u' + ?x)\<rparr>"
  have r': "uio_resid u' = 0" "uio_rw u' = UIO_READ" using body(3) u(2) by (simp_all add: uio_moved_def)
  have "?x = uio_resid u - n" using n(1,2) by auto
  moreover have "wrap32 (uio_resid u' + ?x) = ?x" using n(2) r32 r'(1) by auto
  ultimately have "uio_moved (map (fbyte s (sv_i sv)) [uio_offset u..<uio_offset u + n]) u ?v"
    using body(3) same n(4) u(1)
    by (auto simp: uio_moved_def kuio_def) (simp_all add: uio_done_def uio_todo_def)
  then show ?thesis
    using False body(1,2) r' x n(1,2) by (simp add: sfs_io_def Let_def)
qed

subsection \<open>Writing\<close>

text \<open>
  The bytes \<open>bs\<close> have been written to the file at \<open>off\<close>: the contents are the old ones
  overwritten there, new blocks came from the free ones, and no block in use outside the file
  changed.
\<close>

definition wrote :: "sfs_fs \<Rightarrow> sfs_vnode \<Rightarrow> nat \<Rightarrow> u8 list \<Rightarrow> sfs_fs \<Rightarrow> sfs_vnode \<Rightarrow> bool" where
  "wrote s sv off bs s' sv' \<longleftrightarrow> fs_ok s' \<and> inode_ok s' (sv_i sv') \<and> fs_same s s' \<and> sv_meta sv sv' \<and>
     sfi_size (sv_i sv') = sfi_size (sv_i sv) \<and> fs_used s \<subseteq> fs_used s' \<and>
     file_blocks s' (sv_i sv') \<inter> fs_used s \<subseteq> file_blocks s (sv_i sv) \<and>
     (\<forall>x \<in> fs_used s - file_blocks s (sv_i sv). fs_disk s' x = fs_disk s x) \<and>
     (\<forall>k < SFS_MAXFILE. fbyte s' (sv_i sv') k =
        (if off \<le> k \<and> k < off + length bs then bs ! (k - off) else fbyte s (sv_i sv) k))"

lemma wroteD:
  assumes "wrote s sv off bs s' sv'"
  shows "fs_ok s'" "inode_ok s' (sv_i sv')" "fs_same s s'" "sv_meta sv sv'"
    "sfi_size (sv_i sv') = sfi_size (sv_i sv)" "fs_used s \<subseteq> fs_used s'"
    "file_blocks s' (sv_i sv') \<inter> fs_used s \<subseteq> file_blocks s (sv_i sv)"
    "x \<in> fs_used s \<Longrightarrow> x \<notin> file_blocks s (sv_i sv) \<Longrightarrow> fs_disk s' x = fs_disk s x"
    "k < SFS_MAXFILE \<Longrightarrow> fbyte s' (sv_i sv') k =
        (if off \<le> k \<and> k < off + length bs then bs ! (k - off) else fbyte s (sv_i sv) k)"
  using assms unfolding wrote_def by blast+

lemma wrote_trans:
  assumes "wrote s sv off bs s1 sv1" and "wrote s1 sv1 (off + length bs) cs s2 sv2"
  shows "wrote s sv off (bs @ cs) s2 sv2"
proof -
  note a = wroteD [OF assms(1)] and b = wroteD [OF assms(2)]
  have "fs_disk s2 x = fs_disk s x" if x: "x \<in> fs_used s" "x \<notin> file_blocks s (sv_i sv)" for x
  proof -
    have "x \<in> fs_used s1" "x \<notin> file_blocks s1 (sv_i sv1)" using a(6,7) x by blast+
    from b(8) [OF this] a(8) [OF x] show ?thesis by simp
  qed
  moreover have "fbyte s2 (sv_i sv2) k =
      (if off \<le> k \<and> k < off + length (bs @ cs) then (bs @ cs) ! (k - off) else fbyte s (sv_i sv) k)"
    if k: "k < SFS_MAXFILE" for k
    using a(9) [OF k] b(9) [OF k] by (auto simp: nth_append)
  moreover have "fs_used s \<subseteq> fs_used s2" "file_blocks s2 (sv_i sv2) \<inter> fs_used s \<subseteq> file_blocks s (sv_i sv)"
    using a(6,7) b(6,7) by blast+
  moreover have "sv_meta sv sv2" using a(4) b(4) by (simp add: sv_meta_def)
  ultimately show ?thesis
    using b(1,2,5) a(5) fs_same_trans [OF a(3) b(3)] unfolding wrote_def by simp
qed

lemma indirect_file_block: "x \<notin> file_blocks s i \<Longrightarrow> x \<noteq> sfi_indirect i \<or> x = 0"
  by (auto simp: file_blocks_def)

lemma data_block:
  assumes "inode_ok s i" and "k < SFS_MAXBLOCKS" and "blk s i k \<noteq> 0"
  shows "blk s i k \<in> fs_used s" "blk s i k \<noteq> sfi_indirect i \<or> blk s i k = 0"
    "blk s i k < fs_nblocks s" "blk s i k \<in> file_blocks s i"
  using assms inode_ok_blk [OF assms(1,2)] by (auto simp: inode_ok_def file_blocks_def)

lemma fbyte_bmap:
  assumes ext: "bmap_ext s sv s' sv'" and inode: "inode_ok s (sv_i sv)"
    and q: "k div SFS_BLOCKSIZE < SFS_MAXBLOCKS"
    and same: "blk s' (sv_i sv') (k div SFS_BLOCKSIZE) = blk s (sv_i sv) (k div SFS_BLOCKSIZE)"
  shows "fbyte s' (sv_i sv') k = fbyte s (sv_i sv) k"
proof (cases "blk s (sv_i sv) (k div SFS_BLOCKSIZE) = 0")
  case False
  from bmap_extD(10) [OF ext data_block(1,2) [OF inode q False]] same show ?thesis
    by (simp add: fbyte_def Let_def)
qed (simp add: fbyte_def same)

lemma maxfile_div: "k < SFS_MAXFILE \<Longrightarrow> k div SFS_BLOCKSIZE < SFS_MAXBLOCKS"
  by (simp add: SFS_MAXFILE_def less_mult_imp_div_less)

lemma wrote_nothing:
  assumes ext: "bmap_ext s sv s' sv'" and inode: "inode_ok s (sv_i sv)"
    and same: "\<forall>k < SFS_MAXBLOCKS. blk s' (sv_i sv') k = blk s (sv_i sv) k"
  shows "wrote s sv off [] s' sv'"
proof -
  note e = bmap_extD [OF ext]
  have "\<forall>x \<in> fs_used s - file_blocks s (sv_i sv). fs_disk s' x = fs_disk s x"
    using e(10) indirect_file_block by blast
  moreover have "\<forall>k < SFS_MAXFILE. fbyte s' (sv_i sv') k = fbyte s (sv_i sv) k"
    using fbyte_bmap [OF ext inode] same maxfile_div by blast
  ultimately show ?thesis using e(1-6,9) unfolding wrote_def by auto
qed

text \<open>One block rewritten in place.\<close>

lemma bmap_resultD:
  assumes "bmap_result s sv q (Inr b) s1 sv1"
  shows "b \<noteq> 0" "blk s1 (sv_i sv1) q = b"
    "\<And>k. k < SFS_MAXBLOCKS \<Longrightarrow> k \<noteq> q \<Longrightarrow> blk s1 (sv_i sv1) k = blk s (sv_i sv) k"
    "blk s (sv_i sv) q = b \<or> blk s (sv_i sv) q = 0 \<and> b \<notin> fs_used s \<and> fs_disk s1 b = zeros"
  using assms by (auto simp: bmap_result_def)

lemma fbyte_after_bmap:
  assumes ext: "bmap_ext s sv s1 sv1" and inode: "inode_ok s (sv_i sv)" and q: "q < SFS_MAXBLOCKS"
    and res: "bmap_result s sv q (Inr b) s1 sv1" and k: "k < SFS_MAXFILE"
  shows "fbyte s1 (sv_i sv1) k = fbyte s (sv_i sv) k"
proof (cases "k div SFS_BLOCKSIZE = q \<and> blk s (sv_i sv) q = 0")
  case True
  with bmap_resultD [OF res] have "fs_disk s1 b = zeros" "blk s1 (sv_i sv1) q = b" by auto
  with True show ?thesis by (simp add: fbyte_def zeros_def SFS_BLOCKSIZE_def)
next
  case False
  with bmap_resultD [OF res] maxfile_div [OF k]
  have "blk s1 (sv_i sv1) (k div SFS_BLOCKSIZE) = blk s (sv_i sv) (k div SFS_BLOCKSIZE)"
    by (cases "k div SFS_BLOCKSIZE = q") auto
  with maxfile_div [OF k] show ?thesis by (intro fbyte_bmap [OF ext inode])
qed

lemma fbyte_overwrite:
  assumes inode: "inode_ok s1 i" and q: "q < SFS_MAXBLOCKS" "blk s1 i q = b" "b \<noteq> 0"
    and lenb: "length (fs_disk s1 b) = SFS_BLOCKSIZE" and len: "skip + length bs \<le> SFS_BLOCKSIZE"
    and disk: "fs_disk s2 = (fs_disk s1)(b := take skip (fs_disk s1 b) @ bs @ drop (skip + length bs) (fs_disk s1 b))"
    and k: "k < SFS_MAXFILE"
  defines "off \<equiv> q * SFS_BLOCKSIZE + skip"
  shows "fbyte s2 i k = (if off \<le> k \<and> k < off + length bs then bs ! (k - off) else fbyte s1 i k)"
proof -
  let ?B = SFS_BLOCKSIZE
  have blk2: "blk s2 i j = blk s1 i j" for j
    using data_block(2) [OF inode q(1)] q(2,3) disk by (auto simp: blk_def)
  show ?thesis
  proof (cases "k div ?B = q")
    case True
    define m where "m = k mod ?B"
    have km: "k = q * ?B + m" "m < ?B" using True by (auto simp: m_def SFS_BLOCKSIZE_def)
    have "fbyte s1 i k = fs_disk s1 b ! m" using True q(2,3) by (simp add: fbyte_def m_def)
    moreover have "fbyte s2 i k = (take skip (fs_disk s1 b) @ bs @ drop (skip + length bs) (fs_disk s1 b)) ! m"
      using True q(2,3) blk2 disk by (simp add: fbyte_def m_def)
    ultimately show ?thesis using km len lenb by (auto simp: nth_append off_def)
  next
    case False
    have "blk s1 i (k div ?B) \<noteq> b \<or> blk s1 i (k div ?B) = 0"
      using False inode q maxfile_div [OF k] unfolding inode_ok_def by metis
    then have "fbyte s2 i k = fbyte s1 i k" using blk2 disk by (auto simp: fbyte_def Let_def)
    moreover have "\<not> (off \<le> k \<and> k < off + length bs)"
    proof
      assume "off \<le> k \<and> k < off + length bs"
      with len have "?B * q \<le> k" "k < ?B * Suc q" by (simp_all add: off_def mult.commute)
      then have "k div ?B = q" by (rule div_nat_eqI)
      with False show False ..
    qed
    ultimately show ?thesis by auto
  qed
qed

lemma wrote_block:
  assumes ext: "bmap_ext s sv s1 sv1" and inode: "inode_ok s (sv_i sv)" and q: "q < SFS_MAXBLOCKS"
    and res: "bmap_result s sv q (Inr b) s1 sv1"
    and s2: "fs_ok s2" "fs_same s1 s2" "fs_freemap s2 = fs_freemap s1"
    and len: "skip + length bs \<le> SFS_BLOCKSIZE"
    and disk: "fs_disk s2 = (fs_disk s1)(b := take skip (fs_disk s1 b) @ bs @ drop (skip + length bs) (fs_disk s1 b))"
  shows "wrote s sv (q * SFS_BLOCKSIZE + skip) bs s2 sv1"
proof -
  let ?i = "sv_i sv" and ?i1 = "sv_i sv1"
  note e = bmap_extD [OF ext] and b = bmap_resultD [OF res]
  have db: "b \<noteq> sfi_indirect ?i1" "b \<in> file_blocks s1 ?i1" "b < fs_nblocks s1"
    using data_block [OF e(2) q] b(1,2) by auto
  have lenb: "length (fs_disk s1 b) = SFS_BLOCKSIZE" by (rule fs_ok_bounds(2) [OF e(1) db(3)])
  have blk2: "blk s2 ?i1 k = blk s1 ?i1 k" for k using db(1) disk by (simp add: blk_def)
  have used2: "fs_used s2 = fs_used s1" using s2(3) by (simp add: fs_used_def)
  have inode2: "inode_ok s2 ?i1"
    using s2(2) used2 disk db(1) by (intro inode_ok_cong [OF e(2)]) (simp_all add: fs_same_def)
  have blocks2: "file_blocks s2 ?i1 = file_blocks s1 ?i1" by (simp add: file_blocks_def blk2)
  have "fs_disk s2 x = fs_disk s x" if "x \<in> fs_used s" "x \<notin> file_blocks s ?i" for x
  proof -
    have "x \<noteq> b" using that db(2) e(9) by blast
    then show ?thesis using e(10) [OF that(1) indirect_file_block [OF that(2)]] disk by simp
  qed
  moreover note fbyte_overwrite [OF e(2) q b(2,1) lenb len disk]
  ultimately show ?thesis
    using s2(1) inode2 fs_same_trans [OF e(3) s2(2)] e(4-6,9) used2 blocks2
      fbyte_after_bmap [OF ext inode q res] unfolding wrote_def by simp
qed

text \<open>
  The outcome of a write of \<open>n\<close> bytes: a prefix of the data was written, all of it unless
  the volume is full.
\<close>

definition io_wrote :: "sfs_fs \<Rightarrow> sfs_vnode \<Rightarrow> uio \<Rightarrow> nat \<Rightarrow> unit kresult \<Rightarrow> sfs_fs \<Rightarrow> sfs_vnode \<Rightarrow> uio \<Rightarrow> bool" where
  "io_wrote s sv u n r s' sv' u' \<longleftrightarrow>
     (\<exists>k \<le> length (uio_todo u). wrote s sv (uio_offset u) (take k (uio_todo u)) s' sv' \<and>
        uio_moved (take k (uio_todo u)) u u' \<and> (r = Inr () \<and> k = n \<or> r = Inl ENOSPC \<and> k < n))"

lemma io_wroteI:
  "wrote s sv (uio_offset u) (take n (uio_todo u)) s' sv' \<Longrightarrow> uio_moved (take n (uio_todo u)) u u' \<Longrightarrow>
   n \<le> length (uio_todo u) \<Longrightarrow> io_wrote s sv u n (Inr ()) s' sv' u'"
  unfolding io_wrote_def by blast

lemma io_wrote_full:
  "wrote s sv (uio_offset u) [] s' sv' \<Longrightarrow> kuio u \<Longrightarrow> 0 < n \<Longrightarrow> io_wrote s sv u n (Inl ENOSPC) s' sv' u"
  unfolding io_wrote_def using uio_moved_refl by (intro exI [of _ 0]) simp

lemma io_wrote_trans:
  assumes "io_wrote s sv u n (Inr ()) s1 sv1 u1" and "io_wrote s1 sv1 u1 m r s2 sv2 u2"
  shows "io_wrote s sv u (n + m) r s2 sv2 u2"
proof -
  let ?t = "uio_todo u"
  from assms(1) have a: "n \<le> length ?t" "wrote s sv (uio_offset u) (take n ?t) s1 sv1"
    "uio_moved (take n ?t) u u1" by (auto simp: io_wrote_def)
  from a(1,3) have u1: "uio_offset u1 = uio_offset u + length (take n ?t)" "uio_todo u1 = drop n ?t"
    by (simp_all add: uio_moved_def)
  from assms(2) obtain k where b: "k \<le> length ?t - n" "wrote s1 sv1 (uio_offset u1) (take k (drop n ?t)) s2 sv2"
      "uio_moved (take k (drop n ?t)) u1 u2" "r = Inr () \<and> k = m \<or> r = Inl ENOSPC \<and> k < m"
    unfolding io_wrote_def u1(2) by auto
  have "n + k \<le> length ?t" using a(1) b(1) by simp
  with wrote_trans [OF a(2) b(2) [unfolded u1(1)]] uio_moved_trans [OF a(3) b(3)] b(4) show ?thesis
    unfolding io_wrote_def by (intro exI [of _ "n + k"]) (auto simp: take_add)
qed

lemma io_wroteD:
  assumes "io_wrote s sv u n r s' sv' u'"
  shows "fs_ok s'" "inode_ok s' (sv_i sv')" "fs_same s s'" "kuio u'" "uio_rw u' = uio_rw u"
    "r = Inr () \<Longrightarrow> uio_offset u' = uio_offset u + n" "r = Inr () \<Longrightarrow> uio_resid u = uio_resid u' + n"
    "r = Inr () \<or> r = Inl ENOSPC"
proof -
  from assms obtain k where k: "k \<le> length (uio_todo u)"
    "wrote s sv (uio_offset u) (take k (uio_todo u)) s' sv'" "uio_moved (take k (uio_todo u)) u u'"
    "r = Inr () \<and> k = n \<or> r = Inl ENOSPC \<and> k < n" by (auto simp: io_wrote_def)
  from wroteD(1-3) [OF k(2)] show "fs_ok s'" "inode_ok s' (sv_i sv')" "fs_same s s'" .
  from k(1,3,4) show "kuio u'" "uio_rw u' = uio_rw u"
    "r = Inr () \<Longrightarrow> uio_offset u' = uio_offset u + n" "r = Inr () \<Longrightarrow> uio_resid u = uio_resid u' + n"
    "r = Inr () \<or> r = Inl ENOSPC" by (auto simp: uio_moved_def)
qed

lemma sfs_partialio_atomic:
  assumes ok: "fs_ok s" and inode: "inode_ok s (sv_i sv)" and u: "kuio u" "uio_rw u = UIO_WRITE"
    and off: "uio_offset u = q * SFS_BLOCKSIZE + skip" "skip < SFS_BLOCKSIZE" and q: "q < SFS_MAXBLOCKS"
    and len: "0 < len" "skip + len \<le> SFS_BLOCKSIZE" "len \<le> uio_resid u"
  shows "(\<exists>s' sv'. sfs_partialio s sv u skip len = Some (Inl ENOSPC, s', sv', u) \<and>
                   wrote s sv (uio_offset u) [] s' sv') \<or>
     (\<exists>s' sv' u'. sfs_partialio s sv u skip len = Some (Inr (), s', sv', u') \<and>
        wrote s sv (uio_offset u) (take len (uio_todo u)) s' sv' \<and> uio_moved (take len (uio_todo u)) u u')"
proof -
  have fb: "wrap32 (uio_offset u div SFS_BLOCKSIZE) = q"
    using block_offset(1) [OF off] wrap32_block [OF q] by simp
  from sfs_bmap_alloc [OF ok inode q] obtain r s1 sv1 where
    bm: "sfs_bmap s sv q True = Some (r, s1, sv1)" and ext: "bmap_ext s sv s1 sv1"
    and res: "bmap_result s sv q r s1 sv1" by blast
  show ?thesis
  proof (cases r)
    case (Inl e)
    with res have e: "e = ENOSPC" "\<forall>k < SFS_MAXBLOCKS. blk s1 (sv_i sv1) k = blk s (sv_i sv) k"
      by (auto simp: bmap_result_def)
    from wrote_nothing [OF ext inode e(2)] bm fb u(2) len(2) Inl e(1)
    show ?thesis by (simp add: sfs_partialio_def)
  next
    case (Inr b)
    note ex = bmap_extD [OF ext] and bd = bmap_resultD [OF res [unfolded Inr]]
    have b: "b < fs_nblocks s1" using data_block(3) [OF ex(2) q] bd(1,2) by simp
    from fs_rblock_ok [OF ex(1) b, of zeros] obtain s2 where
      s2: "fs_rblock s1 zeros b = Some (Inr (), fs_disk s1 b, s2)" "fs_ok s2" "fs_same s1 s2"
        "fs_disk s2 = fs_disk s1" "fs_freemap s2 = fs_freemap s1" by auto
    have lenb: "length (fs_disk s1 b) = SFS_BLOCKSIZE" by (rule fs_ok_bounds(2) [OF ex(1) b])
    let ?bs = "take len (uio_todo u)"
    have lbs: "length ?bs = len" using len(3) u(1) by (simp add: kuio_def)
    have "len \<le> length (drop skip (fs_disk s1 b))" using lenb len(2) by simp
    from uiomove_kernel [OF u(1) len(3) this] u(2) obtain u' where
      mv: "uiomove (drop skip (fs_disk s1 b)) len u =
             Some (Inr (), ?bs @ drop (skip + len) (fs_disk s1 b), u')" "uio_moved ?bs u u'"
      by (auto simp: uio_ptr_def uio_bytes_def add.commute)
    let ?c = "take skip (fs_disk s1 b) @ ?bs @ drop (skip + len) (fs_disk s1 b)"
    have "length ?c = SFS_BLOCKSIZE" using lenb len(2) lbs off(2) by simp
    moreover have "b < fs_nblocks s2" using b s2(3) by (simp add: fs_same_def)
    ultimately obtain s3 where
      s3: "fs_wblock s2 ?c b = Some (Inr (), s3)" "fs_ok s3" "fs_same s2 s3"
        "fs_disk s3 = (fs_disk s1)(b := ?c)" "fs_freemap s3 = fs_freemap s1"
      using fs_wblock_ok [OF s2(2), of b ?c] s2(4,5) by auto
    have "wrote s sv (uio_offset u) ?bs s3 sv1" unfolding off(1)
      using s3 lbs len(2) by (intro wrote_block [OF ext inode q res [unfolded Inr] s3(2) fs_same_trans [OF s2(3) s3(3)]]) simp_all
    moreover have "uio_rw u' = UIO_WRITE" using mv(2) u(2) by (simp add: uio_moved_def)
    ultimately show ?thesis
      using bm fb u(2) len(2) Inr s2(1) mv s3(1) bd(1) by (simp add: sfs_partialio_def)
  qed
qed

lemma sfs_partialio_write:
  assumes "fs_ok s" and "inode_ok s (sv_i sv)" and u: "kuio u" "uio_rw u = UIO_WRITE"
    and "uio_offset u = q * SFS_BLOCKSIZE + skip" "skip < SFS_BLOCKSIZE" and "q < SFS_MAXBLOCKS"
    and len: "0 < len" "skip + len \<le> SFS_BLOCKSIZE" "len \<le> uio_resid u"
  shows "\<exists>r s' sv' u'. sfs_partialio s sv u skip len = Some (r, s', sv', u') \<and>
                       io_wrote s sv u len r s' sv' u'"
proof -
  have "len \<le> length (uio_todo u)" using u(1) len(3) by (simp add: kuio_def)
  with sfs_partialio_atomic [OF assms] show ?thesis
    by (auto intro: io_wroteI io_wrote_full [OF _ u(1) len(1)])
qed

lemma sfs_blockio_write:
  assumes ok: "fs_small s" and inode: "inode_ok s (sv_i sv)" and u: "kuio u" "uio_rw u = UIO_WRITE"
    and off: "uio_offset u = q * SFS_BLOCKSIZE" and q: "q < SFS_MAXBLOCKS"
    and len: "SFS_BLOCKSIZE \<le> uio_resid u"
  shows "\<exists>r s' sv' u'. sfs_blockio s sv u = Some (r, s', sv', u') \<and>
                       io_wrote s sv u SFS_BLOCKSIZE r s' sv' u'"
proof -
  let ?B = SFS_BLOCKSIZE
  have pos: "0 < ?B" by (simp add: SFS_BLOCKSIZE_def)
  have ok0: "fs_ok s" using ok by (simp add: fs_small_def)
  have fb: "wrap32 (uio_offset u div ?B) = q" using off wrap32_block [OF q] pos by simp
  from sfs_bmap_alloc [OF ok0 inode q] obtain r s1 sv1 where
    bm: "sfs_bmap s sv q True = Some (r, s1, sv1)" and ext: "bmap_ext s sv s1 sv1"
    and res: "bmap_result s sv q r s1 sv1" by blast
  show ?thesis
  proof (cases r)
    case (Inl e)
    with res have e: "e = ENOSPC" "\<forall>k < SFS_MAXBLOCKS. blk s1 (sv_i sv1) k = blk s (sv_i sv) k"
      by (auto simp: bmap_result_def)
    from io_wrote_full [OF wrote_nothing [OF ext inode e(2)] u(1) pos] bm fb u(2) Inl e(1)
    show ?thesis by (simp add: sfs_blockio_def)
  next
    case (Inr b)
    note ex = bmap_extD [OF ext] and bd = bmap_resultD [OF res [unfolded Inr]]
    have b: "b < fs_nblocks s1" using data_block(3) [OF ex(2) q] bd(1,2) by simp
    have small: "fs_small s1" using ok ex(1,3) by (simp add: fs_small_def fs_same_def)
    have dev: "lhd_wf (fs_dev s1)" "b < lh_blocks (fs_dev s1)" "lh_codes (fs_dev s1) = []"
      using ex(1) b by (auto simp: fs_ok_def lhd_ok_def)
    let ?u = "u\<lparr>uio_offset := b * ?B, uio_resid := ?B\<rparr>" and ?bs = "take ?B (uio_todo u)"
    have todo: "uio_todo ?u = uio_todo u" by (simp add: uio_todo_def)
    have lbs: "length ?bs = ?B" using len u(1) by (simp add: kuio_def)
    have lenb: "length (fs_disk s1 b) = ?B" by (rule fs_ok_bounds(2) [OF ex(1) b])
    from lhd_write_card [OF dev(1,2) kuio_redirect [OF u(1) len, of "b * ?B"]] u(2) dev(3) todo obtain u2 where
      io: "lhd_io (fs_dev s1) ?u =
             Some (Inr (), (fs_dev s1)\<lparr>lh_buf := ?bs, lh_disk := (fs_disk s1)(b := ?bs)\<rparr>, u2)"
        "uio_moved ?bs ?u u2"
      by (auto simp: sect_block)
    let ?s = "s1\<lparr>fs_dev := (fs_dev s1)\<lparr>lh_buf := ?bs, lh_disk := (fs_disk s1)(b := ?bs)\<rparr>\<rparr>"
    have s2: "fs_ok ?s" "fs_same s1 ?s" "fs_freemap ?s = fs_freemap s1"
      using ex(1) lbs by (auto simp: fs_ok_def lhd_ok_def lhd_wf_def fs_same_def fs_used_def sect_block)
    have "wrote s sv (q * ?B + 0) ?bs ?s sv1"
      using lbs lenb by (intro wrote_block [OF ext inode q res [unfolded Inr] s2]) simp_all
    then have "io_wrote s sv u ?B (Inr ()) ?s sv1
        (u2\<lparr>uio_offset := uio_offset u2 - b * ?B + uio_offset u, uio_resid := uio_resid u - (?B - uio_resid u2)\<rparr>)"
      using uio_moved_redirect [OF u(1) len lbs io(2)] len u(1) off by (intro io_wroteI) (simp_all add: kuio_def)
    then show ?thesis
      using bd(1) bm fb u(2) len disk_offset [OF small b] Inr sfs_retry_ok [OF io(1), of 0]
      by (simp add: sfs_blockio_def sfs_rwblock_def Let_def)
  qed
qed

lemma fs_small_same: "fs_small s \<Longrightarrow> fs_same s s' \<Longrightarrow> fs_ok s' \<Longrightarrow> fs_small s'"
  by (simp add: fs_small_def fs_same_def)

lemma io_wrote_zero:
  "fs_ok s \<Longrightarrow> inode_ok s (sv_i sv) \<Longrightarrow> kuio u \<Longrightarrow> io_wrote s sv u 0 (Inr ()) s sv u"
  by (intro io_wroteI) (auto simp: uio_moved_refl wrote_def sv_meta_def)

lemma sfs_blocks_write:
  assumes "fs_small s" and "inode_ok s (sv_i sv)" and "kuio u" and "uio_rw u = UIO_WRITE"
    and "uio_offset u = q * SFS_BLOCKSIZE" and "q + n \<le> SFS_MAXBLOCKS" and "n * SFS_BLOCKSIZE \<le> uio_resid u"
  shows "\<exists>r s' sv' u'. sfs_blocks n s sv u = Some (r, s', sv', u') \<and>
                       io_wrote s sv u (n * SFS_BLOCKSIZE) r s' sv' u'"
  using assms
proof (induction n arbitrary: s sv u q)
  case 0
  then show ?case by (auto simp: fs_small_def intro: io_wrote_zero)
next
  case (Suc n)
  let ?B = SFS_BLOCKSIZE
  have "q < SFS_MAXBLOCKS" "?B \<le> uio_resid u" using Suc.prems(6,7) by simp_all
  from sfs_blockio_write [OF Suc.prems(1-5) this] obtain r s1 sv1 u1 where
    one: "sfs_blockio s sv u = Some (r, s1, sv1, u1)" "io_wrote s sv u ?B r s1 sv1 u1" by blast
  note d = io_wroteD [OF one(2)]
  from d(8) show ?case
  proof
    assume "r = Inl ENOSPC"
    with one show ?thesis by (auto simp: io_wrote_def intro!: trans_less_add1)
  next
    assume r: "r = Inr ()"
    have "uio_offset u1 = Suc q * ?B" "n * ?B \<le> uio_resid u1" "Suc q + n \<le> SFS_MAXBLOCKS"
        "uio_rw u1 = UIO_WRITE"
      using d(5-7) r Suc.prems(4-7) by simp_all
    with Suc.IH [OF fs_small_same [OF Suc.prems(1) d(3,1)] d(2,4)] obtain r2 s2 sv2 u2 where
      "sfs_blocks n s1 sv1 u1 = Some (r2, s2, sv2, u2)" "io_wrote s1 sv1 u1 (n * ?B) r2 s2 sv2 u2"
      by blast
    with one r io_wrote_trans [of s sv u ?B s1 sv1 u1 "n * ?B" r2 s2 sv2 u2] show ?thesis by simp
  qed
qed

lemma sfs_io_aligned_write:
  assumes ok: "fs_small s" and inode: "inode_ok s (sv_i sv)" and u: "kuio u" "uio_rw u = UIO_WRITE"
    and off: "uio_offset u = q * SFS_BLOCKSIZE" and lim: "uio_offset u + uio_resid u \<le> SFS_MAXFILE"
  shows "\<exists>r s' sv' u'. sfs_io_aligned s sv u = Some (r, s', sv', u') \<and>
                       io_wrote s sv u (uio_resid u) r s' sv' u'"
proof -
  let ?B = SFS_BLOCKSIZE
  define n m where "n = uio_resid u div ?B" and "m = uio_resid u mod ?B"
  have pos: "0 < ?B" by (simp add: SFS_BLOCKSIZE_def)
  have split: "uio_resid u = n * ?B + m" "m < ?B" using pos by (simp_all add: n_def m_def)
  have "(q + n) * ?B \<le> SFS_MAXBLOCKS * ?B"
    using lim off split(1) unfolding SFS_MAXFILE_def add_mult_distrib by linarith
  then have "q + n \<le> SFS_MAXBLOCKS" using pos by simp
  moreover have "n * ?B \<le> uio_resid u" using split(1) by simp
  ultimately obtain r s1 sv1 u1 where
    one: "sfs_blocks n s sv u = Some (r, s1, sv1, u1)" "io_wrote s sv u (n * ?B) r s1 sv1 u1"
    using sfs_blocks_write [OF ok inode u off] by blast
  note d = io_wroteD [OF one(2)]
  have al: "uio_offset u mod ?B = 0" using off by simp
  have run: "sfs_io_aligned s sv u = sfs_blocks n s sv u \<bind> (\<lambda>(r, s', sv', u').
      case r of Inl e \<Rightarrow> Some (Inl e, s', sv', u')
      | Inr _ \<Rightarrow> kassert (uio_resid u' < ?B) \<bind> (\<lambda>_.
          if uio_resid u' > 0 then sfs_partialio s' sv' u' 0 (uio_resid u') else Some (Inr (), s', sv', u')))"
    using al by (simp add: sfs_io_aligned_def flip: n_def)
  from d(8) show ?thesis
  proof
    assume "r = Inl ENOSPC"
    with one split(1) show ?thesis unfolding run by (auto simp: io_wrote_def intro!: trans_less_add1)
  next
    assume r: "r = Inr ()"
    have u1: "uio_resid u1 = m" "uio_offset u1 = (q + n) * ?B + 0" "uio_rw u1 = UIO_WRITE"
      using d(5-7) r split(1) off u(2) by (simp_all add: add_mult_distrib)
    show ?thesis
    proof (cases "m = 0")
      case True
      with one r u1(1) split show ?thesis unfolding run by simp
    next
      case False
      have "q + n < SFS_MAXBLOCKS"
        using lim off split(1) False by (intro maxfile_block [of _ m]) (simp_all add: add_mult_distrib)
      with sfs_partialio_write [OF d(1,2,4) u1(3,2) pos, of m] False split(2) u1(1) obtain r2 s2 sv2 u2 where
        "sfs_partialio s1 sv1 u1 0 m = Some (r2, s2, sv2, u2)" "io_wrote s1 sv1 u1 m r2 s2 sv2 u2" by auto
      with one r u1(1) False split io_wrote_trans [of s sv u "n * ?B" s1 sv1 u1 m r2 s2 sv2 u2] show ?thesis
        unfolding run by simp
    qed
  qed
qed

lemma sfs_io_body_write:
  assumes ok: "fs_small s" and inode: "inode_ok s (sv_i sv)" and u: "kuio u" "uio_rw u = UIO_WRITE"
    and lim: "uio_offset u + uio_resid u \<le> SFS_MAXFILE" and n: "0 < uio_resid u"
  shows "\<exists>r s' sv' u'. sfs_io_body s sv u = Some (r, s', sv', u') \<and>
                       io_wrote s sv u (uio_resid u) r s' sv' u'"
proof -
  let ?B = SFS_BLOCKSIZE
  define q o' where "q = uio_offset u div ?B" and "o' = uio_offset u mod ?B"
  have pos: "0 < ?B" by (simp add: SFS_BLOCKSIZE_def)
  have off: "uio_offset u = q * ?B + o'" "o' < ?B" using pos by (simp_all add: q_def o'_def)
  have ok0: "fs_ok s" using ok by (simp add: fs_small_def)
  show ?thesis
  proof (cases "o' = 0")
    case True
    with off(1) have al: "uio_offset u = q * ?B" by simp
    with True sfs_io_aligned_write [OF ok inode u al lim] n show ?thesis
      by (simp add: sfs_io_body_def Let_def flip: o'_def)
  next
    case False
    define l where "l = min (?B - o') (uio_resid u)"
    have l: "0 < l" "o' + l \<le> ?B" "l \<le> uio_resid u" using off(2) n by (auto simp: l_def)
    have body: "sfs_io_body s sv u = sfs_partialio s sv u o' l \<bind> (\<lambda>(r, s1, sv1, u1).
        case r of Inl e \<Rightarrow> Some (Inl e, s1, sv1, u1)
        | Inr _ \<Rightarrow> if uio_resid u1 = 0 then Some (Inr (), s1, sv1, u1) else sfs_io_aligned s1 sv1 u1)"
      using False by (simp add: sfs_io_body_def Let_def flip: o'_def l_def)
    have "q < SFS_MAXBLOCKS" using maxfile_block [of q o'] off(1) lim False by simp
    from sfs_partialio_write [OF ok0 inode u off this l] obtain r s1 sv1 u1 where
      one: "sfs_partialio s sv u o' l = Some (r, s1, sv1, u1)" "io_wrote s sv u l r s1 sv1 u1" by blast
    note d = io_wroteD [OF one(2)]
    from d(8) show ?thesis
    proof
      assume "r = Inl ENOSPC"
      with one l(3) show ?thesis unfolding body by (auto simp: io_wrote_def intro!: less_le_trans)
    next
      assume r: "r = Inr ()"
      have u1: "uio_offset u1 = uio_offset u + l" "uio_resid u = uio_resid u1 + l" "uio_rw u1 = UIO_WRITE"
        using d(5-7) r u(2) by simp_all
      show ?thesis
      proof (cases "uio_resid u1 = 0")
        case True
        with one r u1(2) show ?thesis unfolding body by simp
      next
        case more: False
        then have "l = ?B - o'" using u1(2) by (simp add: l_def min_def split: if_splits)
        then have "uio_offset u1 = (q + 1) * ?B" using u1(1) off by simp
        from sfs_io_aligned_write [OF fs_small_same [OF ok d(3,1)] d(2,4) u1(3) this] lim u1(1,2)
        obtain r2 s2 sv2 u2 where
          "sfs_io_aligned s1 sv1 u1 = Some (r2, s2, sv2, u2)" "io_wrote s1 sv1 u1 (uio_resid u1) r2 s2 sv2 u2"
          by auto
        with one r more u1(2) io_wrote_trans [of s sv u l s1 sv1 u1 "uio_resid u1" r2 s2 sv2 u2] show ?thesis
          unfolding body by (simp add: add.commute)
      qed
    qed
  qed
qed

text \<open>The size and the dirty flag do not enter the block map.\<close>

lemma blk_size [simp]: "blk s (i\<lparr>sfi_size := z\<rparr>) = blk s i"
  by (intro ext) (simp add: blk_def)

lemma fbyte_size [simp]: "fbyte s (i\<lparr>sfi_size := z\<rparr>) = fbyte s i"
  by (intro ext) (simp add: fbyte_def)

lemma file_blocks_size [simp]: "file_blocks s (i\<lparr>sfi_size := z\<rparr>) = file_blocks s i"
  by (simp add: file_blocks_def)

lemma inode_ok_size: "z < 2 ^ 32 \<Longrightarrow> inode_ok s i \<Longrightarrow> inode_ok s (i\<lparr>sfi_size := z\<rparr>)"
  unfolding inode_ok_def by (simp add: inode_wf_def)

subsection \<open>Properties\<close>

text \<open>
  C3. Reading a file through \<open>sfs_io\<close> is reading its byte function: whatever the offset,
  the length and the alignment, the call succeeds and delivers exactly the bytes of the file
  from the offset to the end of the request or of the file, holes reading as zero, and leaves
  the residue beyond end of file. The file system is unchanged.
\<close>

theorem sfs_io_reads_file:
  assumes "fs_small s" and "inode_ok s (sv_i sv)" and "sfi_size (sv_i sv) \<le> SFS_MAXFILE"
    and "kuio u" and "uio_rw u = UIO_READ"
  defines "n \<equiv> min (uio_resid u) (sfi_size (sv_i sv) - uio_offset u)"
  shows "\<exists>s' u'. sfs_io s sv u = Some (Inr (), s', sv, u') \<and>
     uio_done u' = uio_done u @ map (fbyte s (sv_i sv)) [uio_offset u..<uio_offset u + n] \<and>
     uio_resid u' = uio_resid u - n \<and> uio_offset u' = uio_offset u + n \<and>
     fs_disk s' = fs_disk s \<and> fs_freemap s' = fs_freemap s"
  using sfs_io_read [OF assms(1,2,4,5,3)] unfolding n_def uio_moved_def quiet_def by fastforce

definition uread_ex :: uio where
  "uread_ex = uio_kinit [7, 7, 7, 7, 7, 7, 7, 7] 4 UIO_READ"

theorem sfs_io_reads_file_witness:
  "\<exists>s' u'. sfs_io fs_ex sv_ex uread_ex = Some (Inr (), s', sv_ex, u') \<and> uio_resid u' = 2 \<and>
           uio_done u' = replicate 6 0"
proof -
  have z: "fbyte fs_ex (sv_i sv_ex) k = 0" for k
    by (auto simp: fbyte_def fs_ex_def zeros_def Let_def SFS_BLOCKSIZE_def)
  have "fs_small fs_ex" using fs_ex_ok by (simp add: fs_small_def fs_ex_def)
  moreover have "kuio uread_ex" unfolding uread_ex_def by (rule kuio_kinit) simp
  moreover have "sfi_size (sv_i sv_ex) = 10" by (simp add: sv_ex_def)
  moreover have "10 \<le> SFS_MAXFILE"
    by (simp add: SFS_MAXFILE_def SFS_MAXBLOCKS_def SFS_NDIRECT_def SFS_DBPERIDB_def SFS_BLOCKSIZE_def)
  ultimately obtain s' u' where
    "sfs_io fs_ex sv_ex uread_ex = Some (Inr (), s', sv_ex, u')" "uio_resid u' = 2"
    "uio_done u' = map (fbyte fs_ex (sv_i sv_ex)) [4..<10]"
    using sfs_io_reads_file [of fs_ex sv_ex uread_ex] sv_ex_ok by (auto simp: uread_ex_def)
  moreover have "map (fbyte fs_ex (sv_i sv_ex)) [4..<10] = replicate 6 0"
    unfolding z map_replicate_const length_upt by (simp add: numeral_eq_Suc)
  ultimately show ?thesis by auto
qed

text \<open>
  C1. Writing a file through \<open>sfs_io\<close> is a flat write of its byte function: within the
  maximal file size the call never panics; it writes a prefix of the data, the whole of it
  unless the volume is full (\<open>ENOSPC\<close>). Afterwards every byte of the written range is the
  data's and every other byte of the file is as before, the file system is consistent, the
  size is the larger of the old size and the end of what was written, and no block in use
  outside the file has changed.
\<close>

theorem sfs_io_writes_file:
  assumes "fs_small s" and "inode_ok s (sv_i sv)" and "kuio u" and "uio_rw u = UIO_WRITE"
    and "0 < uio_resid u" and "uio_offset u + uio_resid u \<le> SFS_MAXFILE"
  shows "\<exists>r s' sv' u' k. sfs_io s sv u = Some (r, s', sv', u') \<and>
     (r = Inr () \<and> k = uio_resid u \<or> r = Inl ENOSPC \<and> k < uio_resid u) \<and>
     uio_resid u' = uio_resid u - k \<and> uio_offset u' = uio_offset u + k \<and>
     fs_ok s' \<and> inode_ok s' (sv_i sv') \<and>
     sfi_size (sv_i sv') = max (sfi_size (sv_i sv)) (uio_offset u + k) \<and>
     (\<forall>j < SFS_MAXFILE. fbyte s' (sv_i sv') j =
        (if uio_offset u \<le> j \<and> j < uio_offset u + k then uio_todo u ! (j - uio_offset u)
         else fbyte s (sv_i sv) j)) \<and>
     (\<forall>x \<in> fs_used s - file_blocks s (sv_i sv). fs_disk s' x = fs_disk s x)"
proof -
  from sfs_io_body_write [OF assms(1-4,6,5)] obtain r s' sv1 u' where
    body: "sfs_io_body s sv u = Some (r, s', sv1, u')" "io_wrote s sv u (uio_resid u) r s' sv1 u'" by blast
  from body(2) obtain k where k: "k \<le> length (uio_todo u)" "wrote s sv (uio_offset u) (take k (uio_todo u)) s' sv1"
    "uio_moved (take k (uio_todo u)) u u'" "r = Inr () \<and> k = uio_resid u \<or> r = Inl ENOSPC \<and> k < uio_resid u"
    by (auto simp: io_wrote_def)
  note w = wroteD [OF k(2)]
  have u': "uio_rw u' = UIO_WRITE" "uio_resid u = uio_resid u' + k" "uio_offset u' = uio_offset u + k"
      "uio_resid u' < 2 ^ 32"
    using k(1,3) assms(4) by (auto simp: uio_moved_def kuio_def)
  have small: "uio_offset u + k < 2 ^ 32"
    using assms(6) u'(2) by (simp add: SFS_MAXFILE_def SFS_MAXBLOCKS_def SFS_NDIRECT_def SFS_DBPERIDB_def SFS_BLOCKSIZE_def)
  define sv' where "sv' = (if uio_offset u' > sfi_size (sv_i sv1)
      then sv1\<lparr>sv_i := (sv_i sv1)\<lparr>sfi_size := wrap32 (uio_offset u')\<rparr>, sv_dirty := True\<rparr> else sv1)"
  have "u\<lparr>uio_resid := uio_resid u - 0\<rparr> = u" "u'\<lparr>uio_resid := wrap32 (uio_resid u' + 0)\<rparr> = u'"
    using u'(4) by simp_all
  then have run: "sfs_io s sv u = Some (r, s', sv', u')"
    using assms(4) body(1) u'(1) by (simp add: sfs_io_def sv'_def Let_def)
  have same: "fbyte s' (sv_i sv') j = fbyte s' (sv_i sv1) j" for j
    by (simp add: sv'_def)
  have "inode_ok s' (sv_i sv')"
    using w(2) inode_ok_size [OF _ w(2), of "uio_offset u'"] u'(3) small by (simp add: sv'_def)
  moreover have "sfi_size (sv_i sv') = max (sfi_size (sv_i sv)) (uio_offset u + k)"
    using w(5) u'(3) small by (simp add: sv'_def)
  moreover have "fbyte s' (sv_i sv') j = (if uio_offset u \<le> j \<and> j < uio_offset u + k
      then uio_todo u ! (j - uio_offset u) else fbyte s (sv_i sv) j)" if "j < SFS_MAXFILE" for j
    using w(9) [OF that] k(1) by (auto simp: same)
  ultimately show ?thesis using run k(4) u'(2,3) w(1,8) by auto
qed

definition uwrite_ex :: uio where
  "uwrite_ex = uio_kinit [1, 2, 3] 511 UIO_WRITE"

theorem sfs_io_writes_file_witness:
  "\<exists>r s' sv' u' (k :: nat). sfs_io fs_ex sv_ex uwrite_ex = Some (r, s', sv', u') \<and>
     (r = Inr () \<and> k = 3 \<or> r = Inl ENOSPC \<and> k < 3) \<and> inode_ok s' (sv_i sv') \<and>
     (k = 3 \<longrightarrow> fbyte s' (sv_i sv') 512 = 2)"
proof -
  have "fs_small fs_ex" using fs_ex_ok by (simp add: fs_small_def fs_ex_def)
  moreover have "kuio uwrite_ex" unfolding uwrite_ex_def by (rule kuio_kinit) simp
  moreover have max: "514 \<le> SFS_MAXFILE"
    by (simp add: SFS_MAXFILE_def SFS_MAXBLOCKS_def SFS_NDIRECT_def SFS_DBPERIDB_def SFS_BLOCKSIZE_def)
  moreover have e: "uio_rw uwrite_ex = UIO_WRITE" "uio_resid uwrite_ex = 3" "uio_offset uwrite_ex = 511"
      "uio_todo uwrite_ex = [1, 2, 3]" by (simp_all add: uwrite_ex_def)
  ultimately obtain r s' sv' u' k where
    k: "sfs_io fs_ex sv_ex uwrite_ex = Some (r, s', sv', u')" "inode_ok s' (sv_i sv')"
      "r = Inr () \<and> k = 3 \<or> r = Inl ENOSPC \<and> k < 3"
      "\<forall>j < SFS_MAXFILE. fbyte s' (sv_i sv') j =
        (if 511 \<le> j \<and> j < 511 + k then [1, 2, 3] ! (j - 511) else fbyte fs_ex (sv_i sv_ex) j)"
    using sfs_io_writes_file [of fs_ex sv_ex uwrite_ex] sv_ex_ok unfolding e by auto
  have "512 < SFS_MAXFILE" using max by simp
  with k(4) have "k = 3 \<longrightarrow> fbyte s' (sv_i sv') 512 = 2" by simp
  with k show ?thesis by blast
qed

end
