(* ===== verification/Sfs_Trunc.thy ===== *)
theory Sfs_Trunc
  imports Sfs_File
begin

section \<open>SFS truncation\<close>

text \<open>
  What \<open>sfs_truncate\<close> does to the block map and to the set of blocks in use.
\<close>

subsection \<open>Releasing one block of a file\<close>

text \<open>
  The file block \<open>fb\<close>, if any, has been released: \<open>i'\<close> no longer refers to it and the block is
  free.
\<close>

lemma inode_ok_drop_block:
  assumes inode: "inode_ok s i" and fb: "fb < SFS_MAXBLOCKS" "blk s i fb = b" "b \<noteq> 0"
    and wf: "inode_wf i'" and id: "sfi_indirect i' = sfi_indirect i"
    and map: "\<And>k. k < SFS_MAXBLOCKS \<Longrightarrow> blk s' i' k = (if k = fb then 0 else blk s i k)"
    and used: "fs_used s' = fs_used s - {b}" "fs_nblocks s' = fs_nblocks s"
  shows "inode_ok s' i'" and "file_blocks s' i' = file_blocks s i - {b}"
proof -
  have other: "blk s i k \<noteq> b" if "k < SFS_MAXBLOCKS" "k \<noteq> fb" for k
    using inode fb that unfolding inode_ok_def by metis
  have idb: "sfi_indirect i \<noteq> b" using data_block(2) [OF inode fb(1)] fb(2,3) by auto
  have img: "blk s' i' ` {..<SFS_MAXBLOCKS} - {0} = blk s i ` {..<SFS_MAXBLOCKS} - {b} - {0}"
    using map other fb by (auto simp: image_iff split: if_splits)
  have "file_blocks s' i' = (insert (sfi_indirect i) {} - {0}) \<union> (blk s' i' ` {..<SFS_MAXBLOCKS} - {0})"
    unfolding file_blocks_def id by auto
  also have "\<dots> = file_blocks s i - {b}"
    unfolding img file_blocks_def using idb by auto
  finally show blocks: "file_blocks s' i' = file_blocks s i - {b}" .
  show "inode_ok s' i'"
    unfolding inode_ok_def
  proof (intro conjI allI impI)
    show "inode_wf i'" by (rule wf)
    show "file_blocks s' i' \<subseteq> fs_used s' \<inter> {..<fs_nblocks s'}"
      unfolding blocks used using inode unfolding inode_ok_def by blast
  next
    fix k assume "k < SFS_MAXBLOCKS" "blk s' i' k = sfi_indirect i'"
    with map id inode show "blk s' i' k = 0" unfolding inode_ok_def by (auto split: if_splits)
  next
    fix k k' assume "k < SFS_MAXBLOCKS" "k' < SFS_MAXBLOCKS" "blk s' i' k = blk s' i' k'" "blk s' i' k \<noteq> 0"
    with map inode show "k = k'" unfolding inode_ok_def by (metis (full_types))
  qed
qed

definition freed :: "sfs_fs \<Rightarrow> sfs_inode \<Rightarrow> (nat \<Rightarrow> bool) \<Rightarrow> nat set" where
  "freed s i P = blk s i ` {k. k < SFS_MAXBLOCKS \<and> P k} - {0}"

text \<open>The file blocks that satisfy \<open>P\<close> are gone, everything else is as before.\<close>

definition dropped :: "(nat \<Rightarrow> bool) \<Rightarrow> sfs_fs \<Rightarrow> sfs_vnode \<Rightarrow> sfs_fs \<Rightarrow> sfs_vnode \<Rightarrow> bool" where
  "dropped P s sv s' sv' \<longleftrightarrow> fs_ok s' \<and> inode_ok s' (sv_i sv') \<and> fs_same s s' \<and> sv_meta sv sv' \<and>
     sfi_size (sv_i sv') = sfi_size (sv_i sv) \<and> sfi_indirect (sv_i sv') = sfi_indirect (sv_i sv) \<and>
     fs_disk s' = fs_disk s \<and> fs_used s' = fs_used s - freed s (sv_i sv) P \<and>
     (\<forall>k < SFS_MAXBLOCKS. blk s' (sv_i sv') k = (if P k then 0 else blk s (sv_i sv) k))"

lemma droppedD:
  assumes "dropped P s sv s' sv'"
  shows "fs_ok s'" "inode_ok s' (sv_i sv')" "fs_same s s'" "sv_meta sv sv'"
    "sfi_size (sv_i sv') = sfi_size (sv_i sv)" "sfi_indirect (sv_i sv') = sfi_indirect (sv_i sv)"
    "fs_disk s' = fs_disk s" "fs_used s' = fs_used s - freed s (sv_i sv) P"
    "k < SFS_MAXBLOCKS \<Longrightarrow> blk s' (sv_i sv') k = (if P k then 0 else blk s (sv_i sv) k)"
  using assms unfolding dropped_def by blast+

lemma dropped_nothing:
  assumes "fs_ok s" and "inode_ok s (sv_i sv)" and "\<And>k. k < SFS_MAXBLOCKS \<Longrightarrow> P k \<Longrightarrow> blk s (sv_i sv) k = 0"
  shows "dropped P s sv s sv"
proof -
  have "freed s (sv_i sv) P = {}" using assms(3) by (auto simp: freed_def)
  with assms show ?thesis by (simp add: dropped_def sv_meta_def)
qed

lemma dropped_trans:
  assumes "dropped P s sv s1 sv1" and "dropped Q s1 sv1 s2 sv2"
  shows "dropped (\<lambda>k. P k \<or> Q k) s sv s2 sv2"
proof -
  note a = droppedD [OF assms(1)] and b = droppedD [OF assms(2)]
  have "freed s (sv_i sv) (\<lambda>k. P k \<or> Q k) = freed s (sv_i sv) P \<union> freed s1 (sv_i sv1) Q"
    using a(9) by (auto simp: freed_def image_iff split: if_splits)
  then have "fs_used s2 = fs_used s - freed s (sv_i sv) (\<lambda>k. P k \<or> Q k)"
    unfolding a(8) b(8) by (simp only: Diff_eq Compl_Un Int_assoc)
  moreover have "sv_meta sv sv2" using a(4) b(4) by (simp add: sv_meta_def)
  moreover have "\<forall>k < SFS_MAXBLOCKS. blk s2 (sv_i sv2) k = (if P k \<or> Q k then 0 else blk s (sv_i sv) k)"
    using a(9) b(9) by auto
  ultimately show ?thesis
    using a(5-7) b(1,2,5-7) fs_same_trans [OF a(3) b(3)] unfolding dropped_def by simp
qed

lemma dropped_cong:
  assumes "dropped P s sv s' sv'" and "\<And>k. k < SFS_MAXBLOCKS \<Longrightarrow> P k = Q k"
  shows "dropped Q s sv s' sv'"
proof -
  have "{k. k < SFS_MAXBLOCKS \<and> P k} = {k. k < SFS_MAXBLOCKS \<and> Q k}" using assms(2) by auto
  then have "freed s (sv_i sv) P = freed s (sv_i sv) Q" by (simp only: freed_def)
  with assms show ?thesis unfolding dropped_def by simp
qed

lemma drop_direct:
  assumes ok: "fs_ok s" and inode: "inode_ok s (sv_i sv)" and k: "k < SFS_NDIRECT"
    and nz: "sfi_direct (sv_i sv) ! k \<noteq> 0"
  shows "\<exists>s'. sfs_bfree s (sfi_direct (sv_i sv) ! k) = Some s' \<and>
     dropped (\<lambda>j. j = k) s sv s'
       (sv\<lparr>sv_i := (sv_i sv)\<lparr>sfi_direct := (sfi_direct (sv_i sv))[k := 0]\<rparr>, sv_dirty := True\<rparr>)"
proof -
  let ?i = "sv_i sv" and ?b = "sfi_direct (sv_i sv) ! k"
  let ?i' = "?i\<lparr>sfi_direct := (sfi_direct ?i)[k := 0]\<rparr>"
  have b: "blk s ?i k = ?b" using k by (simp add: blk_def)
  have km: "k < SFS_MAXBLOCKS" by (rule ndirect_max [OF k])
  note d = data_block [OF inode km, unfolded b, OF nz]
  from sfs_bfree_ok [OF ok d(1,3) nz] obtain s' where
    s': "sfs_bfree s ?b = Some s'" "fs_ok s'" "fs_same s s'" "fs_disk s' = fs_disk s"
      "fs_used s' = fs_used s - {?b}" by blast
  have len: "length (sfi_direct ?i) = SFS_NDIRECT" using inode by (simp add: inode_ok_def inode_wf_def)
  have wf: "inode_wf ?i'"
    using inode by (auto simp: inode_ok_def inode_wf_def dest!: set_update_subset_insert [THEN subsetD])
  have map: "blk s' ?i' j = (if j = k then 0 else blk s ?i j)" if "j < SFS_MAXBLOCKS" for j
    using k len s'(4) by (simp add: blk_def)
  have nb: "fs_nblocks s' = fs_nblocks s" using s'(3) by (simp add: fs_same_def)
  have "inode_ok s' ?i'" by (rule inode_ok_drop_block [OF inode km b nz wf _ map s'(5) nb]) simp
  moreover have "freed s ?i (\<lambda>j. j = k) = {?b}" using km b nz by (auto simp: freed_def)
  ultimately show ?thesis using s' map by (simp add: dropped_def sv_meta_def)
qed

lemma trunc_direct_dropped:
  assumes "fs_ok s" and "inode_ok s (sv_i sv)" and "i \<le> SFS_NDIRECT"
  shows "\<exists>s' sv'. trunc_direct bl i s sv = Some (s', sv') \<and>
                  dropped (\<lambda>k. i \<le> k \<and> bl \<le> k \<and> k < SFS_NDIRECT) s sv s' sv'"
  using assms
proof (induction "SFS_NDIRECT - i" arbitrary: i s sv)
  case 0
  then show ?case
    by (subst trunc_direct.simps) (auto intro!: dropped_nothing)
next
  case (Suc n)
  let ?i = "sv_i sv"
  have i: "i < SFS_NDIRECT" "n = SFS_NDIRECT - Suc i" using Suc(2) by simp_all
  then have b: "blk s ?i i = sfi_direct ?i ! i" by (simp add: blk_def)
  have "\<exists>s1 sv1. trunc_direct bl i s sv = trunc_direct bl (Suc i) s1 sv1 \<and>
                 dropped (\<lambda>k. k = i \<and> bl \<le> k) s sv s1 sv1"
  proof (cases "i \<ge> bl \<and> sfi_direct ?i ! i \<noteq> 0")
    case False
    have "dropped (\<lambda>k. k = i \<and> bl \<le> k) s sv s sv"
      using False b by (intro dropped_nothing [OF Suc.prems(1,2)]) auto
    moreover have "trunc_direct bl i s sv = trunc_direct bl (Suc i) s sv"
      using False i by (subst trunc_direct.simps) auto
    ultimately show ?thesis by blast
  next
    case True
    with drop_direct [OF Suc.prems(1,2) i(1)] obtain s1 where
      s1: "sfs_bfree s (sfi_direct ?i ! i) = Some s1"
        "dropped (\<lambda>k. k = i) s sv s1
           (sv\<lparr>sv_i := ?i\<lparr>sfi_direct := (sfi_direct ?i)[i := 0]\<rparr>, sv_dirty := True\<rparr>)" by blast
    have "trunc_direct bl i s sv = trunc_direct bl (Suc i) s1
        (sv\<lparr>sv_i := ?i\<lparr>sfi_direct := (sfi_direct ?i)[i := 0]\<rparr>, sv_dirty := True\<rparr>)"
      using True i s1(1) by (subst trunc_direct.simps) (simp add: Let_def)
    with dropped_cong [OF s1(2), of "\<lambda>k. k = i \<and> bl \<le> k"] True show ?thesis by auto
  qed
  then obtain s1 sv1 where step: "trunc_direct bl i s sv = trunc_direct bl (Suc i) s1 sv1"
    "dropped (\<lambda>k. k = i \<and> bl \<le> k) s sv s1 sv1" by blast
  from Suc(1) [OF i(2) droppedD(1,2) [OF step(2)]] i obtain s2 sv2 where
    "trunc_direct bl (Suc i) s1 sv1 = Some (s2, sv2)"
    "dropped (\<lambda>k. Suc i \<le> k \<and> bl \<le> k \<and> k < SFS_NDIRECT) s1 sv1 s2 sv2" by auto
  moreover from dropped_trans [OF step(2) this(2)]
  have "dropped (\<lambda>k. i \<le> k \<and> bl \<le> k \<and> k < SFS_NDIRECT) s sv s2 sv2"
    by (rule dropped_cong) (use i(1) in auto)
  ultimately show ?case using step(1) by auto
qed

subsection \<open>The indirect block\<close>

text \<open>
  The loop over the buffer of the indirect block: the entries past the limit are zeroed and
  their blocks freed.
\<close>

definition id_ok :: "sfs_fs \<Rightarrow> nat \<Rightarrow> nat list \<Rightarrow> bool" where
  "id_ok s j ws \<longleftrightarrow> length ws = SFS_DBPERIDB \<and>
     (\<forall>k. j \<le> k \<and> k < SFS_DBPERIDB \<longrightarrow> ws ! k = 0 \<or> ws ! k \<in> fs_used s \<and> ws ! k < fs_nblocks s) \<and>
     (\<forall>k l. j \<le> k \<and> k < l \<and> l < SFS_DBPERIDB \<longrightarrow> ws ! k = ws ! l \<longrightarrow> ws ! k = 0)"

definition id_freed :: "(nat \<Rightarrow> bool) \<Rightarrow> sfs_fs \<Rightarrow> nat list \<Rightarrow> sfs_fs \<Rightarrow> nat list \<Rightarrow> bool" where
  "id_freed P s ws s' ws' \<longleftrightarrow> fs_ok s' \<and> fs_same s s' \<and> fs_disk s' = fs_disk s \<and>
     fs_used s' = fs_used s - ((!) ws ` {k. k < SFS_DBPERIDB \<and> P k} - {0}) \<and>
     length ws' = length ws \<and> (\<forall>k < SFS_DBPERIDB. ws' ! k = (if P k then 0 else ws ! k))"

lemma id_freedD:
  assumes "id_freed P s ws s' ws'"
  shows "fs_ok s'" "fs_same s s'" "fs_disk s' = fs_disk s"
    "fs_used s' = fs_used s - ((!) ws ` {k. k < SFS_DBPERIDB \<and> P k} - {0})" "length ws' = length ws"
    "k < SFS_DBPERIDB \<Longrightarrow> ws' ! k = (if P k then 0 else ws ! k)"
  using assms unfolding id_freed_def by blast+

lemma id_freedI:
  assumes "fs_ok s'" "fs_same s s'" "fs_disk s' = fs_disk s"
    "fs_used s' = fs_used s - ((!) ws ` {k. k < SFS_DBPERIDB \<and> P k} - {0})" "length ws' = length ws"
    "\<And>k. k < SFS_DBPERIDB \<Longrightarrow> ws' ! k = (if P k then 0 else ws ! k)"
  shows "id_freed P s ws s' ws'"
  unfolding id_freed_def by (intro conjI allI impI assms)

lemma id_freed_trans:
  assumes "id_freed P s ws s1 ws1" and "id_freed Q s1 ws1 s2 ws2"
  shows "id_freed (\<lambda>k. P k \<or> Q k) s ws s2 ws2"
proof -
  note a = id_freedD [OF assms(1)] and b = id_freedD [OF assms(2)]
  have "(!) ws ` {k. k < SFS_DBPERIDB \<and> (P k \<or> Q k)} - {0} =
      ((!) ws ` {k. k < SFS_DBPERIDB \<and> P k} - {0}) \<union> ((!) ws1 ` {k. k < SFS_DBPERIDB \<and> Q k} - {0})"
    using a(6) by (auto simp: image_iff split: if_splits)
  then have "fs_used s2 = fs_used s - ((!) ws ` {k. k < SFS_DBPERIDB \<and> (P k \<or> Q k)} - {0})"
    unfolding a(4) b(4) by (simp only: Diff_eq Compl_Un Int_assoc)
  moreover have "\<forall>k < SFS_DBPERIDB. ws2 ! k = (if P k \<or> Q k then 0 else ws ! k)"
    using a(6) b(6) by simp
  ultimately show ?thesis
    using a(3,5) b(1,3,5) fs_same_trans [OF a(2) b(2)] unfolding id_freed_def by simp
qed

lemma id_freed_cong:
  assumes "id_freed P s ws s' ws'" and "\<And>k. k < SFS_DBPERIDB \<Longrightarrow> P k = Q k"
  shows "id_freed Q s ws s' ws'"
proof -
  have "{k. k < SFS_DBPERIDB \<and> P k} = {k. k < SFS_DBPERIDB \<and> Q k}" using assms(2) by auto
  then have "fs_used s' = fs_used s - ((!) ws ` {k. k < SFS_DBPERIDB \<and> Q k} - {0})"
    using id_freedD(4) [OF assms(1)] by (simp only:)
  moreover have "ws' ! k = (if Q k then 0 else ws ! k)" if "k < SFS_DBPERIDB" for k
    using id_freedD(6) [OF assms(1) that] assms(2) [OF that] by simp
  ultimately show ?thesis using id_freedD(1,2,3,5) [OF assms(1)] by (intro id_freedI)
qed

lemma id_okD:
  assumes "id_ok s j ws"
  shows "length ws = SFS_DBPERIDB"
    and "\<lbrakk>j \<le> k; k < SFS_DBPERIDB; ws ! k \<noteq> 0\<rbrakk> \<Longrightarrow> ws ! k \<in> fs_used s"
    and "\<lbrakk>j \<le> k; k < SFS_DBPERIDB; ws ! k \<noteq> 0\<rbrakk> \<Longrightarrow> ws ! k < fs_nblocks s"
    and "\<lbrakk>j \<le> k; k < l; l < SFS_DBPERIDB; ws ! k = ws ! l\<rbrakk> \<Longrightarrow> ws ! k = 0"
  using assms unfolding id_ok_def by metis+

lemma id_okI:
  assumes "length ws = SFS_DBPERIDB"
    and "\<And>k. \<lbrakk>j \<le> k; k < SFS_DBPERIDB; ws ! k \<noteq> 0\<rbrakk> \<Longrightarrow> ws ! k \<in> fs_used s \<and> ws ! k < fs_nblocks s"
    and "\<And>k l. \<lbrakk>j \<le> k; k < l; l < SFS_DBPERIDB; ws ! k = ws ! l\<rbrakk> \<Longrightarrow> ws ! k = 0"
  shows "id_ok s j ws"
  unfolding id_ok_def
proof (intro conjI allI impI)
  show "length ws = SFS_DBPERIDB" by (rule assms(1))
  show "ws ! k = 0 \<or> ws ! k \<in> fs_used s \<and> ws ! k < fs_nblocks s" if "j \<le> k \<and> k < SFS_DBPERIDB" for k
    using assms(2) that by metis
  show "ws ! k = 0" if "j \<le> k \<and> k < l \<and> l < SFS_DBPERIDB" "ws ! k = ws ! l" for k l
    using assms(3) that by metis
qed

lemma id_free_one:
  assumes ok: "fs_ok s" and ids: "id_ok s j ws" and j: "j < SFS_DBPERIDB" and nz: "ws ! j \<noteq> 0"
  shows "\<exists>s'. sfs_bfree s (ws ! j) = Some s' \<and> id_freed (\<lambda>k. k = j) s ws s' (ws[j := 0]) \<and>
              id_ok s' (Suc j) (ws[j := 0])"
proof -
  note d = id_okD [OF ids]
  from sfs_bfree_ok [OF ok d(2) [OF le_refl j nz] d(3) [OF le_refl j nz] nz] obtain s' where
    s': "sfs_bfree s (ws ! j) = Some s'" "fs_ok s'" "fs_same s s'" "fs_disk s' = fs_disk s"
      "fs_used s' = fs_used s - {ws ! j}" by blast
  have "(!) ws ` {k. k < SFS_DBPERIDB \<and> k = j} - {0} = {ws ! j}" using j nz by auto
  then have "id_freed (\<lambda>k. k = j) s ws s' (ws[j := 0])"
    using s' j d(1) by (intro id_freedI) simp_all
  moreover have "id_ok s' (Suc j) (ws[j := 0])"
  proof (rule id_okI)
    show "length (ws[j := 0]) = SFS_DBPERIDB" using d(1) by simp
    have nb: "fs_nblocks s' = fs_nblocks s" using s'(3) by (simp add: fs_same_def)
    show "ws[j := 0] ! k \<in> fs_used s' \<and> ws[j := 0] ! k < fs_nblocks s'"
      if k: "Suc j \<le> k" "k < SFS_DBPERIDB" "ws[j := 0] ! k \<noteq> 0" for k
    proof -
      have w: "ws[j := 0] ! k = ws ! k" using k(1) by simp
      have "ws ! k \<noteq> ws ! j" using d(4) [OF le_refl _ k(2)] k(1) nz by auto
      then show ?thesis using d(2,3) [of k] k w unfolding s'(5) nb by simp
    qed
    show "ws[j := 0] ! k = 0"
      if "Suc j \<le> k" "k < l" "l < SFS_DBPERIDB" "ws[j := 0] ! k = ws[j := 0] ! l" for k l
      using d(4) [of k l] that by simp
  qed
  ultimately show ?thesis using s'(1) by blast
qed

lemma id_ok_Suc: "id_ok s j ws \<Longrightarrow> id_ok s (Suc j) ws"
  by (rule id_okI) (auto dest: id_okD Suc_leD)

lemma trunc_indirect_freed:
  assumes "fs_ok s" and "j \<le> SFS_DBPERIDB" and "id_ok s j ws"
  shows "\<exists>s' ws' h' d'. trunc_indirect bl j s ws h d = Some (s', ws', h', d') \<and>
     id_freed (\<lambda>k. j \<le> k \<and> bl < SFS_NDIRECT + k) s ws s' ws' \<and>
     (h' \<longleftrightarrow> h \<or> (\<exists>k < SFS_DBPERIDB. j \<le> k \<and> ws' ! k \<noteq> 0)) \<and> (\<not> d' \<longrightarrow> \<not> d \<and> ws' = ws)"
  using assms
proof (induction "SFS_DBPERIDB - j" arbitrary: j s ws h d)
  case 0
  then have "id_freed (\<lambda>k. j \<le> k \<and> bl < SFS_NDIRECT + k) s ws s ws" by (intro id_freedI) auto
  with 0 show ?case by (subst trunc_indirect.simps) auto
next
  case (Suc n)
  have j: "j < SFS_DBPERIDB" "n = SFS_DBPERIDB - Suc j" "Suc j \<le> SFS_DBPERIDB" using Suc(2) by simp_all
  have "\<exists>s1 ws1 d1. trunc_indirect bl j s ws h d = trunc_indirect bl (Suc j) s1 ws1 (h \<or> ws1 ! j \<noteq> 0) d1 \<and>
      id_freed (\<lambda>k. k = j \<and> bl < SFS_NDIRECT + k) s ws s1 ws1 \<and> id_ok s1 (Suc j) ws1 \<and>
      (\<not> d1 \<longrightarrow> \<not> d \<and> ws1 = ws)"
  proof (cases "bl < SFS_NDIRECT + j \<and> ws ! j \<noteq> 0")
    case True
    from id_free_one [OF Suc.prems(1,3) j(1)] True obtain s1 where
      s1: "sfs_bfree s (ws ! j) = Some s1" "id_freed (\<lambda>k. k = j) s ws s1 (ws[j := 0])"
        "id_ok s1 (Suc j) (ws[j := 0])" by blast
    have "trunc_indirect bl j s ws h d = trunc_indirect bl (Suc j) s1 (ws[j := 0]) (h \<or> ws[j := 0] ! j \<noteq> 0) True"
      using True j(1) s1(1) by (subst trunc_indirect.simps) simp
    moreover have "id_freed (\<lambda>k. k = j \<and> bl < SFS_NDIRECT + k) s ws s1 (ws[j := 0])"
      using s1(2) True by (auto intro: id_freed_cong)
    ultimately show ?thesis using s1(3) by blast
  next
    case False
    have "trunc_indirect bl j s ws h d = trunc_indirect bl (Suc j) s ws (h \<or> ws ! j \<noteq> 0) d"
      using False j(1) by (subst trunc_indirect.simps) auto
    moreover have "id_freed (\<lambda>k. k = j \<and> bl < SFS_NDIRECT + k) s ws s ws"
      using Suc.prems(1) False by (intro id_freedI) auto
    moreover have "id_ok s (Suc j) ws" using Suc.prems(3) by (rule id_ok_Suc)
    ultimately show ?thesis by blast
  qed
  then obtain s1 ws1 d1 where
    step: "trunc_indirect bl j s ws h d = trunc_indirect bl (Suc j) s1 ws1 (h \<or> ws1 ! j \<noteq> 0) d1"
      "id_freed (\<lambda>k. k = j \<and> bl < SFS_NDIRECT + k) s ws s1 ws1" "id_ok s1 (Suc j) ws1"
      "\<not> d1 \<longrightarrow> \<not> d \<and> ws1 = ws" by blast
  from Suc(1) [OF j(2) id_freedD(1) [OF step(2)] j(3) step(3), of "h \<or> ws1 ! j \<noteq> 0" d1]
  obtain s2 ws2 h2 d2 where
    rest: "trunc_indirect bl (Suc j) s1 ws1 (h \<or> ws1 ! j \<noteq> 0) d1 = Some (s2, ws2, h2, d2)"
      "id_freed (\<lambda>k. Suc j \<le> k \<and> bl < SFS_NDIRECT + k) s1 ws1 s2 ws2"
      "h2 \<longleftrightarrow> (h \<or> ws1 ! j \<noteq> 0) \<or> (\<exists>k < SFS_DBPERIDB. Suc j \<le> k \<and> ws2 ! k \<noteq> 0)"
      "\<not> d2 \<longrightarrow> \<not> d1 \<and> ws2 = ws1" by blast
  have "id_freed (\<lambda>k. j \<le> k \<and> bl < SFS_NDIRECT + k) s ws s2 ws2"
    using id_freed_trans [OF step(2) rest(2)] by (rule id_freed_cong) auto
  moreover have "ws2 ! j = ws1 ! j" using id_freedD(6) [OF rest(2) j(1)] by simp
  then have "h2 \<longleftrightarrow> h \<or> (\<exists>k < SFS_DBPERIDB. j \<le> k \<and> ws2 ! k \<noteq> 0)"
    using rest(3) j(1) by (metis Suc_le_eq le_less)
  ultimately show ?case using step(1,4) rest(1,4) by auto
qed


subsection \<open>Truncation keeps the file system consistent\<close>

lemma inode_okD:
  assumes "inode_ok s i"
  shows "inode_wf i" and "file_blocks s i \<subseteq> fs_used s" and "file_blocks s i \<subseteq> {..<fs_nblocks s}"
    and "\<lbrakk>k < SFS_MAXBLOCKS; blk s i k = sfi_indirect i\<rbrakk> \<Longrightarrow> blk s i k = 0"
    and "\<lbrakk>k < SFS_MAXBLOCKS; l < SFS_MAXBLOCKS; blk s i k = blk s i l; blk s i k \<noteq> 0\<rbrakk> \<Longrightarrow> k = l"
  using assms unfolding inode_ok_def by simp_all

text \<open>
  The inode has lost the file blocks that satisfy \<open>P\<close>, possibly its indirect block as well, and
  exactly the blocks it lost have become free.
\<close>

definition shrunk :: "(nat \<Rightarrow> bool) \<Rightarrow> sfs_fs \<Rightarrow> sfs_inode \<Rightarrow> sfs_fs \<Rightarrow> sfs_inode \<Rightarrow> bool" where
  "shrunk P s i s' i' \<longleftrightarrow>
     (sfi_indirect i' = sfi_indirect i \<or> sfi_indirect i' = 0) \<and>
     (\<forall>k < SFS_MAXBLOCKS. blk s' i' k = (if P k then 0 else blk s i k)) \<and>
     fs_used s' = fs_used s - (file_blocks s i - file_blocks s' i')"

lemma shrunkD:
  assumes "shrunk P s i s' i'"
  shows "sfi_indirect i' = sfi_indirect i \<or> sfi_indirect i' = 0"
    and "k < SFS_MAXBLOCKS \<Longrightarrow> blk s' i' k = (if P k then 0 else blk s i k)"
    and "fs_used s' = fs_used s - (file_blocks s i - file_blocks s' i')"
  using assms unfolding shrunk_def by simp_all

lemma file_blocksE:
  assumes "x \<in> file_blocks s i"
  obtains "x = sfi_indirect i" "x \<noteq> 0" | k where "k < SFS_MAXBLOCKS" "x = blk s i k" "x \<noteq> 0"
  using assms unfolding file_blocks_def by blast

lemma file_blocksI:
  shows "sfi_indirect i \<noteq> 0 \<Longrightarrow> sfi_indirect i \<in> file_blocks s i"
    and "k < SFS_MAXBLOCKS \<Longrightarrow> blk s i k \<noteq> 0 \<Longrightarrow> blk s i k \<in> file_blocks s i"
  unfolding file_blocks_def by simp_all

lemma shrunk_file_blocks:
  assumes "shrunk P s i s' i'"
  shows "file_blocks s' i' \<subseteq> file_blocks s i"
proof
  fix x assume "x \<in> file_blocks s' i'"
  then show "x \<in> file_blocks s i"
    using shrunkD(1,2) [OF assms]
    by (cases rule: file_blocksE) (metis file_blocksI(1), metis file_blocksI(2))
qed

lemma shrunk_inode_ok:
  assumes inode: "inode_ok s i" and wf: "inode_wf i'" and nb: "fs_nblocks s' = fs_nblocks s"
    and sh: "shrunk P s i s' i'"
  shows "inode_ok s' i'"
proof -
  note d = inode_okD [OF inode] and h = shrunkD [OF sh]
  have sub: "file_blocks s' i' \<subseteq> file_blocks s i" by (rule shrunk_file_blocks [OF sh])
  have "file_blocks s' i' \<subseteq> fs_used s' \<inter> {..<fs_nblocks s'}"
    using sub d(2,3) unfolding nb h(3) by blast
  moreover have "blk s' i' k = 0" if "k < SFS_MAXBLOCKS" "blk s' i' k = sfi_indirect i'" for k
    using h(1) h(2) [OF that(1)] that d(4) by (auto split: if_splits)
  moreover have "k = l" if "k < SFS_MAXBLOCKS" "l < SFS_MAXBLOCKS" "blk s' i' k = blk s' i' l" "blk s' i' k \<noteq> 0" for k l
    using h(2) [OF that(1)] h(2) [OF that(2)] that d(5) by (auto split: if_splits)
  ultimately show ?thesis using wf unfolding inode_ok_def by simp
qed

lemma file_blocks_lost:
  assumes inode: "inode_ok s i" and id: "sfi_indirect i' = sfi_indirect i \<or> sfi_indirect i' = 0"
    and map: "\<And>k. k < SFS_MAXBLOCKS \<Longrightarrow> blk s' i' k = (if P k then 0 else blk s i k)"
  shows "file_blocks s i - file_blocks s' i' =
    freed s i P \<union> (if sfi_indirect i' = 0 then {sfi_indirect i} - {0} else {})"  (is "?L = ?R")
proof
  note d = inode_okD [OF inode]
  show "?L \<subseteq> ?R"
  proof
    fix x assume x: "x \<in> ?L"
    then have "x \<in> file_blocks s i" by simp
    then show "x \<in> ?R"
    proof (cases rule: file_blocksE)
      case 1
      with x id show ?thesis using file_blocksI(1) [of i' s'] by auto
    next
      case (2 k)
      with x map [OF 2(1)] show ?thesis
        using file_blocksI(2) [OF 2(1), of s' i'] by (auto simp: freed_def split: if_splits)
    qed
  qed
  show "?R \<subseteq> ?L"
  proof
    fix x assume "x \<in> ?R"
    then consider k where "k < SFS_MAXBLOCKS" "P k" "x = blk s i k" "x \<noteq> 0"
      | "sfi_indirect i' = 0" "x = sfi_indirect i" "x \<noteq> 0" by (auto simp: freed_def split: if_splits)
    then show "x \<in> ?L"
    proof cases
      case (1 k)
      have "x \<notin> file_blocks s' i'"
      proof
        assume "x \<in> file_blocks s' i'"
        then show False
        proof (cases rule: file_blocksE)
          case a: 1
          with 1 id d(4) [OF 1(1)] show ?thesis by auto
        next
          case (2 l)
          then have "\<not> P l" "blk s i l = x" using map [OF 2(1)] by (simp_all split: if_splits)
          with d(5) [OF 1(1) 2(1)] 1 show ?thesis by simp
        qed
      qed
      with 1 show ?thesis using file_blocksI(2) by auto
    next
      case 2
      have "x \<notin> file_blocks s' i'"
      proof
        assume "x \<in> file_blocks s' i'"
        then show False
        proof (cases rule: file_blocksE)
          case a: 1
          with 2 show ?thesis by simp
        next
          case b: (2 l)
          then have "blk s i l = x" using map [OF b(1)] by (simp split: if_splits)
          with d(4) [OF b(1)] 2 show ?thesis by simp
        qed
      qed
      with 2 show ?thesis using file_blocksI(1) by auto
    qed
  qed
qed

lemma dropped_shrunk:
  assumes "inode_ok s (sv_i sv)" and "dropped P s sv s' sv'"
  shows "shrunk P s (sv_i sv) s' (sv_i sv')"
proof -
  note d = droppedD [OF assms(2)]
  have "file_blocks s (sv_i sv) - file_blocks s' (sv_i sv') = freed s (sv_i sv) P"
    using file_blocks_lost [OF assms(1), of "sv_i sv'" s' P] d(6,9) by (auto simp: freed_def)
  then show ?thesis using d(6,8,9) by (simp add: shrunk_def)
qed

lemma shrunk_trans:
  assumes "shrunk P s i s1 i1" and "shrunk Q s1 i1 s2 i2"
  shows "shrunk (\<lambda>k. P k \<or> Q k) s i s2 i2"
proof -
  note a = shrunkD [OF assms(1)] and b = shrunkD [OF assms(2)]
  have "file_blocks s1 i1 \<subseteq> file_blocks s i" "file_blocks s2 i2 \<subseteq> file_blocks s1 i1"
    using assms by (blast dest: shrunk_file_blocks)+
  then have "fs_used s2 = fs_used s - (file_blocks s i - file_blocks s2 i2)"
    unfolding a(3) b(3) by blast
  moreover have "sfi_indirect i2 = sfi_indirect i \<or> sfi_indirect i2 = 0" using a(1) b(1) by auto
  moreover have "\<forall>k < SFS_MAXBLOCKS. blk s2 i2 k = (if P k \<or> Q k then 0 else blk s i k)"
    using a(2) b(2) by simp
  ultimately show ?thesis unfolding shrunk_def by blast
qed

text \<open>The indirect block as the loop sees it.\<close>

lemma idbuf_entry:
  assumes "sfi_indirect i \<noteq> 0" and "k < SFS_DBPERIDB"
  shows "be32s (fs_disk s (sfi_indirect i)) ! k = blk s i (SFS_NDIRECT + k)"
  using assms by (simp add: blk_def SFS_MAXBLOCKS_def)

lemma idbuf_id_ok:
  assumes ok: "fs_ok s" and inode: "inode_ok s i" and nz: "sfi_indirect i \<noteq> 0"
    and s': "fs_disk s' = fs_disk s" "fs_used s' = fs_used s" "fs_nblocks s' = fs_nblocks s"
  shows "id_ok s' 0 (be32s (fs_disk s (sfi_indirect i)))"
proof (rule id_okI)
  note d = inode_okD [OF inode]
  have "sfi_indirect i < fs_nblocks s" using d(3) file_blocksI(1) [OF nz, of s] by blast
  from fs_ok_bounds(2) [OF ok this] show "length (be32s (fs_disk s (sfi_indirect i))) = SFS_DBPERIDB"
    by (simp add: length_be32s SFS_BLOCKSIZE_def SFS_DBPERIDB_def)
  have m: "SFS_NDIRECT + k < SFS_MAXBLOCKS" if "k < SFS_DBPERIDB" for k
    using that by (simp add: SFS_MAXBLOCKS_def)
  show "be32s (fs_disk s (sfi_indirect i)) ! k \<in> fs_used s' \<and> be32s (fs_disk s (sfi_indirect i)) ! k < fs_nblocks s'"
    if "k < SFS_DBPERIDB" "be32s (fs_disk s (sfi_indirect i)) ! k \<noteq> 0" for k
    using data_block(1,3) [OF inode m [OF that(1)]] that(2) unfolding idbuf_entry [OF nz that(1)] s' by blast
  show "be32s (fs_disk s (sfi_indirect i)) ! k = 0"
    if "k < l" "l < SFS_DBPERIDB" "be32s (fs_disk s (sfi_indirect i)) ! k = be32s (fs_disk s (sfi_indirect i)) ! l" for k l
  proof -
    have k: "k < SFS_DBPERIDB" using that by simp
    from d(5) [OF m [OF k] m [OF that(2)]] that(1,3) show ?thesis
      unfolding idbuf_entry [OF nz k] idbuf_entry [OF nz that(2)] by auto
  qed
qed

lemma freed_indirect:
  assumes nz: "sfi_indirect i \<noteq> 0" and ws: "ws = be32s (fs_disk s (sfi_indirect i))"
  shows "(!) ws ` {k. k < SFS_DBPERIDB \<and> bl < SFS_NDIRECT + k} - {0} = freed s i (\<lambda>k. SFS_NDIRECT \<le> k \<and> bl < k)"
    (is "?L = ?R")
proof
  show "?L \<subseteq> ?R"
    using idbuf_entry [OF nz, of _ s] unfolding freed_def ws
    by (auto simp: SFS_MAXBLOCKS_def intro!: image_eqI [where x = "SFS_NDIRECT + _"])
  show "?R \<subseteq> ?L"
  proof
    fix x assume "x \<in> ?R"
    then obtain k where k: "k < SFS_MAXBLOCKS" "SFS_NDIRECT \<le> k" "bl < k" "x = blk s i k" "x \<noteq> 0"
      by (auto simp: freed_def)
    then have j: "k - SFS_NDIRECT < SFS_DBPERIDB" "SFS_NDIRECT + (k - SFS_NDIRECT) = k"
      by (auto simp: SFS_MAXBLOCKS_def)
    from idbuf_entry [OF nz j(1), of s] j k show "x \<in> ?L" unfolding ws by (auto intro!: image_eqI)
  qed
qed

definition trunc_id_result :: "nat \<Rightarrow> sfs_fs \<Rightarrow> sfs_vnode \<Rightarrow> sfs_fs \<Rightarrow> sfs_vnode \<Rightarrow> bool" where
  "trunc_id_result bl s sv s' sv' \<longleftrightarrow> fs_ok s' \<and> fs_same s s' \<and> sv_meta sv sv' \<and> inode_wf (sv_i sv') \<and>
     shrunk (\<lambda>k. SFS_NDIRECT \<le> k \<and> bl < k) s (sv_i sv) s' (sv_i sv') \<and>
     (\<forall>x. x \<noteq> sfi_indirect (sv_i sv) \<or> x = 0 \<longrightarrow> fs_disk s' x = fs_disk s x) \<and>
     (bl < SFS_MAXBLOCKS - 1 \<longrightarrow> sfi_indirect (sv_i sv') \<noteq> 0 \<longrightarrow> (\<exists>k < SFS_MAXBLOCKS. blk s' (sv_i sv') k \<noteq> 0))"

lemma shrunkI:
  assumes "inode_ok s i" and "sfi_indirect i' = sfi_indirect i \<or> sfi_indirect i' = 0"
    and "\<And>k. k < SFS_MAXBLOCKS \<Longrightarrow> blk s' i' k = (if P k then 0 else blk s i k)"
    and "fs_used s' = fs_used s - (freed s i P \<union> (if sfi_indirect i' = 0 then {sfi_indirect i} - {0} else {}))"
  shows "shrunk P s i s' i'"
  using assms(2-4) file_blocks_lost [OF assms(1-3)] by (simp add: shrunk_def)

lemma trunc_idblock_nothing:
  assumes ok: "fs_ok s" and inode: "inode_ok s (sv_i sv)"
    and no: "\<not> (bl < SFS_MAXBLOCKS - 1 \<and> sfi_indirect (sv_i sv) \<noteq> 0)"
  shows "trunc_idblock bl s sv = Some (Inr (), s, sv) \<and> trunc_id_result bl s sv s sv"
proof -
  have z: "blk s (sv_i sv) k = 0" if "k < SFS_MAXBLOCKS" "SFS_NDIRECT \<le> k \<and> bl < k" for k
    using that no by (auto simp: blk_def)
  then have "freed s (sv_i sv) (\<lambda>k. SFS_NDIRECT \<le> k \<and> bl < k) = {}" by (auto simp: freed_def)
  then have "shrunk (\<lambda>k. SFS_NDIRECT \<le> k \<and> bl < k) s (sv_i sv) s (sv_i sv)"
    using z by (intro shrunkI [OF inode]) auto
  moreover have "trunc_idblock bl s sv = Some (Inr (), s, sv)"
    using no by (auto simp: trunc_idblock_def Let_def SFS_MAXBLOCKS_def)
  ultimately show ?thesis
    using ok no inode_okD(1) [OF inode] by (auto simp: trunc_id_result_def sv_meta_def)
qed

text \<open>The entries of the indirect block once the loop is done.\<close>

lemma blk_after_trunc:
  assumes idz: "sfi_indirect i \<noteq> 0" and dir: "sfi_direct i' = sfi_direct i"
    and ws: "\<And>k. k < SFS_DBPERIDB \<Longrightarrow> ws' ! k = (if bl < SFS_NDIRECT + k then 0 else be32s (fs_disk s (sfi_indirect i)) ! k)"
    and ent: "\<And>k. k < SFS_DBPERIDB \<Longrightarrow> blk s' i' (SFS_NDIRECT + k) = ws' ! k" and k: "k < SFS_MAXBLOCKS"
  shows "blk s' i' k = (if SFS_NDIRECT \<le> k \<and> bl < k then 0 else blk s i k)"
proof (cases "k < SFS_NDIRECT")
  case True
  with dir show ?thesis by (simp add: blk_def)
next
  case False
  with k have j: "k - SFS_NDIRECT < SFS_DBPERIDB" "SFS_NDIRECT + (k - SFS_NDIRECT) = k"
    by (auto simp: SFS_MAXBLOCKS_def)
  with ent [OF j(1)] ws [OF j(1)] idbuf_entry [OF idz j(1), of s] False show ?thesis by simp
qed

lemma enc_idbuf:
  assumes "id_freed P s (be32s bs) s' ws'" and "length (be32s bs) = SFS_DBPERIDB"
  shows "be32s (enc32s ws') = ws'"
proof (rule be32s_enc32s, rule ballI)
  note d = id_freedD [OF assms(1)]
  fix n assume "n \<in> set ws'"
  then obtain k where k: "k < SFS_DBPERIDB" "n = ws' ! k" using d(5) assms(2) by (auto simp: in_set_conv_nth)
  have "be32s bs ! k < 2 ^ 32" using k(1) assms(2) by (intro be32s_bound [of _ bs]) simp
  with d(6) [OF k(1)] k(2) show "n < 2 ^ 32" by simp
qed

text \<open>After the loop: the blocks past the limit are free, nothing is written yet.\<close>

definition trunc_loop :: "nat \<Rightarrow> sfs_fs \<Rightarrow> sfs_inode \<Rightarrow> sfs_fs \<Rightarrow> nat list \<Rightarrow> bool" where
  "trunc_loop bl s i s3 ws \<longleftrightarrow> fs_ok s3 \<and> fs_same s s3 \<and> fs_disk s3 = fs_disk s \<and>
     fs_used s3 = fs_used s - freed s i (\<lambda>k. SFS_NDIRECT \<le> k \<and> bl < k) \<and>
     length ws = SFS_DBPERIDB \<and> be32s (enc32s ws) = ws \<and>
     (\<forall>k < SFS_DBPERIDB. ws ! k = (if bl < SFS_NDIRECT + k then 0 else be32s (fs_disk s (sfi_indirect i)) ! k))"

lemma trunc_idblock_loop:
  assumes ok: "fs_ok s" and inode: "inode_ok s (sv_i sv)"
    and some: "bl < SFS_MAXBLOCKS - 1" and idz: "sfi_indirect (sv_i sv) \<noteq> 0"
  shows "\<exists>s3 ws' h' d'. trunc_loop bl s (sv_i sv) s3 ws' \<and>
     (h' \<longleftrightarrow> (\<exists>k < SFS_DBPERIDB. ws' ! k \<noteq> 0)) \<and>
     (\<not> d' \<longrightarrow> ws' = be32s (fs_disk s (sfi_indirect (sv_i sv)))) \<and>
     trunc_idblock bl s sv =
      (if \<not> h' then do { s4 \<leftarrow> sfs_bfree s3 (sfi_indirect (sv_i sv));
             Some (Inr (), s4, sv\<lparr>sv_i := (sv_i sv)\<lparr>sfi_indirect := 0\<rparr>, sv_dirty := True\<rparr>) }
       else if d' then do { (r4, s4) \<leftarrow> fs_wblock s3 (enc32s ws') (sfi_indirect (sv_i sv)); Some (r4, s4, sv) }
       else Some (Inr (), s3, sv))"
proof -
  let ?i = "sv_i sv" let ?id = "sfi_indirect (sv_i sv)" let ?ws = "be32s (fs_disk s ?id)"
  have hb: "bl < SFS_NDIRECT + SFS_DBPERIDB - 1" using some by (simp add: SFS_MAXBLOCKS_def)
  have id: "?id < fs_nblocks s" using inode_okD(3) [OF inode] file_blocksI(1) [OF idz, of s] by blast
  from fs_rblock_ok [OF ok id length_zeros] obtain s2 where
    s2: "fs_rblock s zeros ?id = Some (Inr (), fs_disk s ?id, s2)" "fs_ok s2" "fs_same s s2"
      "fs_disk s2 = fs_disk s" "fs_freemap s2 = fs_freemap s" by blast
  have used2: "fs_used s2 = fs_used s" using s2(5) by (simp add: fs_used_def)
  have nb2: "fs_nblocks s2 = fs_nblocks s" using s2(3) by (simp add: fs_same_def)
  have idok: "id_ok s2 0 ?ws" by (rule idbuf_id_ok [OF ok inode idz s2(4) used2 nb2])
  from trunc_indirect_freed [OF s2(2) _ idok, of bl False False] obtain s3 ws' h' d' where
    loop: "trunc_indirect bl 0 s2 ?ws False False = Some (s3, ws', h', d')"
    and freed: "id_freed (\<lambda>k. bl < SFS_NDIRECT + k) s2 ?ws s3 ws'"
    and h': "h' \<longleftrightarrow> (\<exists>k < SFS_DBPERIDB. ws' ! k \<noteq> 0)" and d': "\<not> d' \<Longrightarrow> ws' = ?ws" by auto
  note e = id_freedD [OF freed]
  have len: "length ?ws = SFS_DBPERIDB" by (rule id_okD(1) [OF idok])
  have "trunc_loop bl s ?i s3 ws'"
    using e used2 s2(4) len fs_same_trans [OF s2(3) e(2)] enc_idbuf [OF freed len]
      freed_indirect [OF idz refl, of s bl] by (simp add: trunc_loop_def)
  moreover note h' d'
  moreover have "trunc_idblock bl s sv =
      (if \<not> h' then do { s4 \<leftarrow> sfs_bfree s3 ?id;
             Some (Inr (), s4, sv\<lparr>sv_i := ?i\<lparr>sfi_indirect := 0\<rparr>, sv_dirty := True\<rparr>) }
       else if d' then do { (r4, s4) \<leftarrow> fs_wblock s3 (enc32s ws') ?id; Some (r4, s4, sv) }
       else Some (Inr (), s3, sv))"
    using hb idz s2(1) loop by (simp add: trunc_idblock_def Let_def)
  ultimately show ?thesis by blast
qed

lemma trunc_loopD:
  assumes "trunc_loop bl s i s3 ws"
  shows "fs_ok s3" "fs_same s s3" "fs_disk s3 = fs_disk s" "fs_nblocks s3 = fs_nblocks s"
    "fs_used s3 = fs_used s - freed s i (\<lambda>k. SFS_NDIRECT \<le> k \<and> bl < k)"
    "length (enc32s ws) = SFS_BLOCKSIZE" "be32s (enc32s ws) = ws"
    "k < SFS_DBPERIDB \<Longrightarrow> ws ! k = (if bl < SFS_NDIRECT + k then 0 else be32s (fs_disk s (sfi_indirect i)) ! k)"
  using assms unfolding trunc_loop_def fs_same_def
  by (simp_all add: SFS_DBPERIDB_def SFS_BLOCKSIZE_def)

lemma trunc_loop_empty:
  assumes inode: "inode_ok s (sv_i sv)" and idz: "sfi_indirect (sv_i sv) \<noteq> 0"
    and loop: "trunc_loop bl s (sv_i sv) s3 ws" and z: "\<And>k. k < SFS_DBPERIDB \<Longrightarrow> ws ! k = 0"
  shows "\<exists>s4. sfs_bfree s3 (sfi_indirect (sv_i sv)) = Some s4 \<and>
     trunc_id_result bl s sv s4 (sv\<lparr>sv_i := (sv_i sv)\<lparr>sfi_indirect := 0\<rparr>, sv_dirty := True\<rparr>)"
proof -
  let ?i = "sv_i sv" let ?id = "sfi_indirect (sv_i sv)" let ?i' = "(sv_i sv)\<lparr>sfi_indirect := 0\<rparr>"
  let ?P = "\<lambda>k. SFS_NDIRECT \<le> k \<and> bl < k"
  note e = trunc_loopD [OF loop] and d = inode_okD [OF inode]
  have id: "?id \<in> fs_used s" "?id < fs_nblocks s3"
    using d(2,3) file_blocksI(1) [OF idz, of s] unfolding e(4) by blast+
  then have "?id \<in> fs_used s3" using d(4) idz unfolding e(5) freed_def by force
  from sfs_bfree_ok [OF e(1) this id(2) idz] obtain s4 where
    s4: "sfs_bfree s3 ?id = Some s4" "fs_ok s4" "fs_same s3 s4" "fs_disk s4 = fs_disk s3"
      "fs_used s4 = fs_used s3 - {?id}" by auto
  have "shrunk ?P s ?i s4 ?i'"
  proof (rule shrunkI [OF inode])
    show "blk s4 ?i' k = (if ?P k then 0 else blk s ?i k)" if "k < SFS_MAXBLOCKS" for k
      by (rule blk_after_trunc [OF idz _ e(8) _ that]) (simp_all add: blk_def z)
    show "fs_used s4 = fs_used s - (freed s ?i ?P \<union> (if sfi_indirect ?i' = 0 then {?id} - {0} else {}))"
      using idz unfolding s4(5) e(5) by auto
  qed simp
  moreover have "inode_wf ?i'" using d(1) by (simp add: inode_wf_def)
  ultimately have "trunc_id_result bl s sv s4 (sv\<lparr>sv_i := ?i', sv_dirty := True\<rparr>)"
    using s4(2,4) e(3) fs_same_trans [OF e(2) s4(3)] by (simp add: trunc_id_result_def sv_meta_def)
  with s4(1) show ?thesis by blast
qed

lemma trunc_loop_kept:
  assumes inode: "inode_ok s (sv_i sv)" and idz: "sfi_indirect (sv_i sv) \<noteq> 0"
    and loop: "trunc_loop bl s (sv_i sv) s3 ws" and some: "j < SFS_DBPERIDB" "ws ! j \<noteq> 0"
    and s4: "fs_ok s4" "fs_same s s4" "fs_used s4 = fs_used s3"
      "be32s (fs_disk s4 (sfi_indirect (sv_i sv))) = ws"
      "\<And>x. x \<noteq> sfi_indirect (sv_i sv) \<Longrightarrow> fs_disk s4 x = fs_disk s x"
  shows "trunc_id_result bl s sv s4 sv"
proof -
  let ?i = "sv_i sv" let ?P = "\<lambda>k. SFS_NDIRECT \<le> k \<and> bl < k"
  note e = trunc_loopD [OF loop]
  have ent: "blk s4 ?i (SFS_NDIRECT + k) = ws ! k" if "k < SFS_DBPERIDB" for k
    using idbuf_entry [OF idz that, of s4] s4(4) by simp
  have "shrunk ?P s ?i s4 ?i"
  proof (rule shrunkI [OF inode])
    show "blk s4 ?i k = (if ?P k then 0 else blk s ?i k)" if "k < SFS_MAXBLOCKS" for k
      by (rule blk_after_trunc [OF idz refl e(8) ent that])
  qed (use idz s4(3) e(5) in simp_all)
  moreover have "\<exists>k < SFS_MAXBLOCKS. blk s4 ?i k \<noteq> 0"
    using ent some by (intro exI [of _ "SFS_NDIRECT + j"]) (simp add: SFS_MAXBLOCKS_def)
  ultimately show ?thesis
    using s4(1,2,5) inode_okD(1) [OF inode] idz by (auto simp: trunc_id_result_def sv_meta_def)
qed

lemma trunc_idblock_result:
  assumes ok: "fs_ok s" and inode: "inode_ok s (sv_i sv)"
    and some: "bl < SFS_MAXBLOCKS - 1" and idz: "sfi_indirect (sv_i sv) \<noteq> 0"
  shows "\<exists>s' sv'. trunc_idblock bl s sv = Some (Inr (), s', sv') \<and> trunc_id_result bl s sv s' sv'"
proof -
  let ?id = "sfi_indirect (sv_i sv)"
  from trunc_idblock_loop [OF assms] obtain s3 ws' h' d' where
    loop: "trunc_loop bl s (sv_i sv) s3 ws'" and h': "h' \<longleftrightarrow> (\<exists>k < SFS_DBPERIDB. ws' ! k \<noteq> 0)"
    and d': "\<not> d' \<Longrightarrow> ws' = be32s (fs_disk s ?id)"
    and run: "trunc_idblock bl s sv =
      (if \<not> h' then do { s4 \<leftarrow> sfs_bfree s3 ?id;
             Some (Inr (), s4, sv\<lparr>sv_i := (sv_i sv)\<lparr>sfi_indirect := 0\<rparr>, sv_dirty := True\<rparr>) }
       else if d' then do { (r4, s4) \<leftarrow> fs_wblock s3 (enc32s ws') ?id; Some (r4, s4, sv) }
       else Some (Inr (), s3, sv))" by blast
  note e = trunc_loopD [OF loop]
  have id: "?id < fs_nblocks s3" using inode_okD(3) [OF inode] file_blocksI(1) [OF idz, of s] e(4) by auto
  consider "\<not> h'" | j where "j < SFS_DBPERIDB" "ws' ! j \<noteq> 0" h' "\<not> d'" | j where "j < SFS_DBPERIDB" "ws' ! j \<noteq> 0" h' d'
    using h' by blast
  then show ?thesis
  proof cases
    case 1
    with h' trunc_loop_empty [OF inode idz loop] run show ?thesis by auto
  next
    case (2 j)
    with run e(1,2,3) d' show ?thesis by (auto intro: trunc_loop_kept [OF inode idz loop])
  next
    case (3 j)
    from fs_wblock_ok [OF e(1) id e(6)] obtain s4 where
      s4: "fs_wblock s3 (enc32s ws') ?id = Some (Inr (), s4)" "fs_ok s4" "fs_same s3 s4"
        "fs_disk s4 = (fs_disk s3)(?id := enc32s ws')" "fs_freemap s4 = fs_freemap s3" by blast
    have "trunc_id_result bl s sv s4 sv"
      by (rule trunc_loop_kept [OF inode idz loop 3(1,2) s4(2) fs_same_trans [OF e(2) s4(3)]])
         (use s4(4,5) e(3,7) in \<open>simp_all add: fs_used_def\<close>)
    with run s4(1) 3 show ?thesis by simp
  qed
qed

lemma trunc_idblock_shrunk:
  assumes "fs_ok s" and "inode_ok s (sv_i sv)"
  shows "\<exists>s' sv'. trunc_idblock bl s sv = Some (Inr (), s', sv') \<and> trunc_id_result bl s sv s' sv'"
  using trunc_idblock_nothing [OF assms, of bl] trunc_idblock_result [OF assms, of bl] by blast

lemma sfs_truncate_shrunk:
  assumes ok: "fs_ok s" and inode: "inode_ok s (sv_i sv)" and len: "len < 2 ^ 32"
  defines "bl \<equiv> (len + SFS_BLOCKSIZE - 1) div SFS_BLOCKSIZE"
  shows "\<exists>s' sv'. sfs_truncate s sv len = Some (Inr (), s', sv') \<and> fs_ok s' \<and> fs_same s s' \<and> sv_meta sv sv' \<and>
     inode_ok s' (sv_i sv') \<and> sfi_size (sv_i sv') = len \<and>
     shrunk (\<lambda>k. bl < k \<or> bl = k \<and> k < SFS_NDIRECT) s (sv_i sv) s' (sv_i sv') \<and>
     (\<forall>x. x \<noteq> sfi_indirect (sv_i sv) \<or> x = 0 \<longrightarrow> fs_disk s' x = fs_disk s x) \<and>
     (bl < SFS_MAXBLOCKS - 1 \<longrightarrow> sfi_indirect (sv_i sv') \<noteq> 0 \<longrightarrow> (\<exists>k < SFS_MAXBLOCKS. blk s' (sv_i sv') k \<noteq> 0))"
proof -
  have w: "wrap32 bl = bl"
    using len unfolding bl_def by (intro wrap32_id) (simp add: SFS_BLOCKSIZE_def div_less_iff_less_mult)
  from trunc_direct_dropped [OF ok inode, of 0 bl] obtain s1 sv1 where
    a: "trunc_direct bl 0 s sv = Some (s1, sv1)" "dropped (\<lambda>k. bl \<le> k \<and> k < SFS_NDIRECT) s sv s1 sv1" by auto
  note d = droppedD [OF a(2)]
  from trunc_idblock_shrunk [OF d(1,2), of bl] obtain s2 sv2 where
    b: "trunc_idblock bl s1 sv1 = Some (Inr (), s2, sv2)" "trunc_id_result bl s1 sv1 s2 sv2" by blast
  let ?P = "\<lambda>k. (bl \<le> k \<and> k < SFS_NDIRECT) \<or> (SFS_NDIRECT \<le> k \<and> bl < k)"
  have sh: "shrunk ?P s (sv_i sv) s2 (sv_i sv2)"
    by (rule shrunk_trans [OF dropped_shrunk [OF inode a(2)]]) (use b(2) in \<open>simp add: trunc_id_result_def\<close>)
  moreover have "?P = (\<lambda>k. bl < k \<or> bl = k \<and> k < SFS_NDIRECT)" by auto
  ultimately have sh': "shrunk (\<lambda>k. bl < k \<or> bl = k \<and> k < SFS_NDIRECT) s (sv_i sv) s2 (sv_i sv2)" by simp
  have same: "fs_same s s2" "sv_meta sv sv2"
    using b(2) d(3,4) fs_same_trans by (auto simp: trunc_id_result_def sv_meta_def)
  then have nb: "fs_nblocks s2 = fs_nblocks s" by (simp add: fs_same_def)
  have wf: "inode_wf (sv_i sv2)" using b(2) by (simp add: trunc_id_result_def)
  have io: "inode_ok s2 (sv_i sv2)" by (rule shrunk_inode_ok [OF inode wf nb sh'])
  let ?sv = "sv2\<lparr>sv_i := (sv_i sv2)\<lparr>sfi_size := len\<rparr>, sv_dirty := True\<rparr>"
  have "sfs_truncate s sv len = Some (Inr (), s2, ?sv)"
    using a(1) b(1) w len unfolding sfs_truncate_def bl_def by (simp add: Let_def)
  moreover have "inode_ok s2 (sv_i ?sv)" using inode_ok_size [OF len io] by simp
  moreover have "shrunk (\<lambda>k. bl < k \<or> bl = k \<and> k < SFS_NDIRECT) s (sv_i sv) s2 (sv_i ?sv)"
    using sh' by (simp add: shrunk_def)
  moreover have "sv_meta sv ?sv" using same(2) by (simp add: sv_meta_def)
  ultimately show ?thesis
    using b(2) d(6,7) same(1) by (auto simp: trunc_id_result_def)
qed

lemma fbyte_shrunk:
  assumes inode: "inode_ok s i" and sh: "shrunk P s i s' i'" and keep: "\<not> P (j div SFS_BLOCKSIZE)"
    and disk: "\<forall>x. x \<noteq> sfi_indirect i \<or> x = 0 \<longrightarrow> fs_disk s' x = fs_disk s x"
  shows "fbyte s' i' j = fbyte s i j"
proof (cases "j div SFS_BLOCKSIZE < SFS_MAXBLOCKS")
  case True
  have b: "blk s' i' (j div SFS_BLOCKSIZE) = blk s i (j div SFS_BLOCKSIZE)"
    using shrunkD(2) [OF sh True] keep by simp
  with data_block(2) [OF inode True] disk show ?thesis by (auto simp: fbyte_def Let_def)
next
  case False
  then show ?thesis by (simp add: fbyte_def blk_def SFS_MAXBLOCKS_def)
qed

subsection \<open>Properties\<close>

text \<open>
  C10. \<open>sfs_truncate\<close> on a working disk never fails or panics and keeps the file system
  consistent. The file gets the new length and keeps its bytes below it; the blocks freed are
  exactly the blocks the file no longer refers to, and truncation to 0 leaves it none. File
  block \<open>k\<close> survives if it is below the new length in blocks and also, in the indirect range, if
  it is the first block beyond it (the loop there compares with \<open><\<close>, not \<open>\<le>\<close>).
\<close>

theorem sfs_truncate_frees:
  assumes "fs_ok s" and "inode_ok s (sv_i sv)" and "len < 2 ^ 32"
  defines "bl \<equiv> (len + SFS_BLOCKSIZE - 1) div SFS_BLOCKSIZE"
  shows "\<exists>s' sv'. sfs_truncate s sv len = Some (Inr (), s', sv') \<and> fs_ok s' \<and>
     inode_ok s' (sv_i sv') \<and> sfi_size (sv_i sv') = len \<and>
     (\<forall>k < SFS_MAXBLOCKS. blk s' (sv_i sv') k =
        (if bl < k \<or> bl = k \<and> k < SFS_NDIRECT then 0 else blk s (sv_i sv) k)) \<and>
     fs_used s' = fs_used s - (file_blocks s (sv_i sv) - file_blocks s' (sv_i sv')) \<and>
     (\<forall>j < len. fbyte s' (sv_i sv') j = fbyte s (sv_i sv) j) \<and>
     (\<forall>x \<in> fs_used s - file_blocks s (sv_i sv). fs_disk s' x = fs_disk s x) \<and>
     (len = 0 \<longrightarrow> file_blocks s' (sv_i sv') = {})"
proof -
  from sfs_truncate_shrunk [OF assms(1-3), folded bl_def] obtain s' sv' where
    run: "sfs_truncate s sv len = Some (Inr (), s', sv')" and ok: "fs_ok s'" "fs_same s s'" "sv_meta sv sv'"
      "inode_ok s' (sv_i sv')" "sfi_size (sv_i sv') = len"
    and sh: "shrunk (\<lambda>k. bl < k \<or> bl = k \<and> k < SFS_NDIRECT) s (sv_i sv) s' (sv_i sv')"
    and disk: "\<forall>x. x \<noteq> sfi_indirect (sv_i sv) \<or> x = 0 \<longrightarrow> fs_disk s' x = fs_disk s x"
    and rest: "bl < SFS_MAXBLOCKS - 1 \<longrightarrow> sfi_indirect (sv_i sv') \<noteq> 0 \<longrightarrow> (\<exists>k < SFS_MAXBLOCKS. blk s' (sv_i sv') k \<noteq> 0)"
    by blast
  note h = shrunkD [OF sh]
  have bytes: "fbyte s' (sv_i sv') j = fbyte s (sv_i sv) j" if "j < len" for j
  proof (rule fbyte_shrunk [OF assms(2) sh _ disk])
    have "j div SFS_BLOCKSIZE < bl"
      using that div_le_mono [of "j + 512" "len + 511" 512] unfolding bl_def SFS_BLOCKSIZE_def by simp
    then show "\<not> (bl < j div SFS_BLOCKSIZE \<or> bl = j div SFS_BLOCKSIZE \<and> j div SFS_BLOCKSIZE < SFS_NDIRECT)"
      by simp
  qed
  have others: "fs_disk s' x = fs_disk s x" if "x \<in> fs_used s - file_blocks s (sv_i sv)" for x
    using that disk file_blocksI(1) [of "sv_i sv" s] by (metis DiffD2)
  have empty: "file_blocks s' (sv_i sv') = {}" if "len = 0"
  proof -
    have bl: "bl = 0" using that by (simp add: bl_def SFS_BLOCKSIZE_def)
    then have z: "blk s' (sv_i sv') k = 0" if "k < SFS_MAXBLOCKS" for k
      using h(2) [OF that] by (cases "k = 0") (auto simp: SFS_NDIRECT_def)
    moreover have "sfi_indirect (sv_i sv') = 0"
      using rest z bl by (auto simp: SFS_MAXBLOCKS_def SFS_NDIRECT_def)
    ultimately show ?thesis unfolding file_blocks_def by auto
  qed
  show ?thesis
    by (intro exI [of _ s'] exI [of _ sv'] conjI allI impI ballI run ok h(2,3) bytes others empty)
qed

theorem sfs_truncate_frees_witness:
  "\<exists>s' sv'. sfs_truncate fs_ex sv_ex 0 = Some (Inr (), s', sv') \<and> fs_used s' = fs_used fs_ex - {3}"
proof -
  have "sfi_indirect (sv_i sv_ex) = 0" by (simp add: sv_ex_def)
  then have "file_blocks fs_ex (sv_i sv_ex) = {3}"
    using blk_ex by (auto simp: file_blocks_def image_iff SFS_MAXBLOCKS_def SFS_NDIRECT_def split: if_splits)
  with sfs_truncate_frees [OF fs_ex_ok sv_ex_ok, of 0] show ?thesis by auto
qed

end
