(* ===== verification/Sfs_Dir.thy ===== *)
theory Sfs_Dir
  imports Sfs_Trunc
begin

section \<open>SFS directories: \<open>kern/fs/sfs/sfs_vnode.c\<close>, third part\<close>

text \<open>
  A directory is a file of 64-byte entries; an entry with inode number 0 is an empty slot. A
  name is the list of its characters without the terminating zero. The abstraction of a
  directory is the list of its entries, and above it the map from names to inode numbers. The
  lemmas show that the operations are lookup, insertion and deletion on that map.
\<close>

subsection \<open>The code\<close>

text \<open>The buffer of \<open>sfs_readdir\<close> is overwritten in full when the read succeeds.\<close>

definition sfs_readdir ::
  "sfs_fs \<Rightarrow> sfs_vnode \<Rightarrow> nat \<Rightarrow> (sfs_dir kresult \<times> sfs_fs \<times> sfs_vnode) option" where
  "sfs_readdir s sv slot = do {
     let actualpos = wrap32 (slot * SFS_DIRSIZE);
     let ku = uio_kinit (replicate SFS_DIRSIZE 0) actualpos UIO_READ;
     (result, s', sv', ku') \<leftarrow> sfs_io s sv ku;
     (case result of
        Inl e \<Rightarrow> Some (Inl e, s', sv')
      | Inr _ \<Rightarrow>
          if uio_resid ku' > 0 then panic
          else Some (Inr (decode_dir (uio_done ku' @ uio_todo ku')), s', sv'))
   }"

definition sfs_writedir ::
  "sfs_fs \<Rightarrow> sfs_vnode \<Rightarrow> sfs_dir \<Rightarrow> nat \<Rightarrow> (unit kresult \<times> sfs_fs \<times> sfs_vnode) option" where
  "sfs_writedir s sv sd slot = do {
     let actualpos = wrap32 (slot * SFS_DIRSIZE);
     let ku = uio_kinit (encode_dir sd) actualpos UIO_WRITE;
     (result, s', sv', ku') \<leftarrow> sfs_io s sv ku;
     (case result of
        Inl e \<Rightarrow> Some (Inl e, s', sv')
      | Inr _ \<Rightarrow> if uio_resid ku' > 0 then panic else Some (Inr (), s', sv'))
   }"

definition sfs_dir_nentries :: "sfs_vnode \<Rightarrow> nat option" where
  "sfs_dir_nentries sv = do {
     kassert (sfi_type (sv_i sv) = SFS_TYPE_DIR);
     (if sfi_size (sv_i sv) mod SFS_DIRSIZE \<noteq> 0 then panic
      else Some (sfi_size (sv_i sv) div SFS_DIRSIZE))
   }"

text \<open>The string in a character array: up to the first zero.\<close>

definition cstr :: "u8 list \<Rightarrow> u8 list" where
  "cstr bs = takeWhile (\<lambda>c. c \<noteq> 0) bs"

text \<open>
  The loop of \<open>sfs_dir_findname\<close> from slot \<open>i\<close>: the inode number and slot found so far and the
  last empty slot seen.
\<close>

function sfs_dir_scan ::
  "u8 list \<Rightarrow> nat \<Rightarrow> nat \<Rightarrow> (nat \<times> nat) option \<Rightarrow> nat option \<Rightarrow> sfs_fs \<Rightarrow> sfs_vnode \<Rightarrow>
   (((nat \<times> nat) option \<times> nat option) kresult \<times> sfs_fs \<times> sfs_vnode) option" where
  "sfs_dir_scan name nentries i found emptyslot s sv =
     (if i < nentries then
        do {
          (result, s', sv') \<leftarrow> sfs_readdir s sv i;
          (case result of
             Inl e \<Rightarrow> Some (Inl e, s', sv')
           | Inr tsd \<Rightarrow>
               if sfd_ino tsd = SFS_NOINO
               then sfs_dir_scan name nentries (i + 1) found (Some i) s' sv'
               else if cstr ((sfd_name tsd)[SFS_NAMELEN - 1 := 0]) = name
               then do {
                 kassert (found = None);
                 sfs_dir_scan name nentries (i + 1) (Some (sfd_ino tsd, i)) emptyslot s' sv'
               }
               else sfs_dir_scan name nentries (i + 1) found emptyslot s' sv')
        }
      else Some (Inr (found, emptyslot), s, sv))"
  by pat_completeness auto
termination
  by (relation "measure (\<lambda>(name, nentries, i, found, emptyslot, s, sv). nentries - i)") auto

declare sfs_dir_scan.simps [simp del]

text \<open>The result carries the inode number and the slot; the empty slot comes in any case.\<close>

definition sfs_dir_findname ::
  "sfs_fs \<Rightarrow> sfs_vnode \<Rightarrow> u8 list \<Rightarrow> ((nat \<times> nat) kresult \<times> nat option \<times> sfs_fs \<times> sfs_vnode) option" where
  "sfs_dir_findname s sv name = do {
     nentries \<leftarrow> sfs_dir_nentries sv;
     (result, s', sv') \<leftarrow> sfs_dir_scan name nentries 0 None None s sv;
     (case result of
        Inl e \<Rightarrow> Some (Inl e, None, s', sv')
      | Inr (found, emptyslot) \<Rightarrow>
          Some (case found of None \<Rightarrow> Inl ENOENT | Some f \<Rightarrow> Inr f, emptyslot, s', sv'))
   }"

definition sfs_dir_link ::
  "sfs_fs \<Rightarrow> sfs_vnode \<Rightarrow> u8 list \<Rightarrow> nat \<Rightarrow> (nat kresult \<times> sfs_fs \<times> sfs_vnode) option" where
  "sfs_dir_link s sv name ino = do {
     (result, emptyslot, s1, sv1) \<leftarrow> sfs_dir_findname s sv name;
     (case result of
        Inr _ \<Rightarrow> Some (Inl EEXIST, s1, sv1)
      | Inl e \<Rightarrow>
          if e \<noteq> ENOENT then Some (Inl e, s1, sv1)
          else if length name + 1 > SFS_NAMELEN then Some (Inl ENAMETOOLONG, s1, sv1)
          else do {
            slot \<leftarrow> (case emptyslot of None \<Rightarrow> sfs_dir_nentries sv1 | Some k \<Rightarrow> Some k);
            let sd = \<lparr>sfd_ino = ino, sfd_name = name @ replicate (SFS_NAMELEN - length name) 0\<rparr>;
            (r, s2, sv2) \<leftarrow> sfs_writedir s1 sv1 sd slot;
            (case r of Inl e' \<Rightarrow> Some (Inl e', s2, sv2) | Inr _ \<Rightarrow> Some (Inr slot, s2, sv2))
          })
   }"

definition sfs_dir_unlink ::
  "sfs_fs \<Rightarrow> sfs_vnode \<Rightarrow> nat \<Rightarrow> (unit kresult \<times> sfs_fs \<times> sfs_vnode) option" where
  "sfs_dir_unlink s sv slot =
     sfs_writedir s sv \<lparr>sfd_ino = SFS_NOINO, sfd_name = replicate SFS_NAMELEN 0\<rparr> slot"

subsection \<open>The entries of a directory\<close>

definition dirent :: "sfs_fs \<Rightarrow> sfs_inode \<Rightarrow> nat \<Rightarrow> sfs_dir" where
  "dirent s i k = decode_dir (map (fbyte s i) [k * SFS_DIRSIZE..<(k + 1) * SFS_DIRSIZE])"

definition dir_entries :: "sfs_fs \<Rightarrow> sfs_inode \<Rightarrow> sfs_dir list" where
  "dir_entries s i = map (dirent s i) [0..<sfi_size i div SFS_DIRSIZE]"

text \<open>A directory inode of a whole number of entries.\<close>

definition dir_shape :: "sfs_inode \<Rightarrow> bool" where
  "dir_shape i \<longleftrightarrow> sfi_type i = SFS_TYPE_DIR \<and> sfi_size i mod SFS_DIRSIZE = 0 \<and> sfi_size i \<le> SFS_MAXFILE"

lemma length_dir_entries [simp]: "length (dir_entries s i) = sfi_size i div SFS_DIRSIZE"
  by (simp add: dir_entries_def)

lemma nth_dir_entries: "k < sfi_size i div SFS_DIRSIZE \<Longrightarrow> dir_entries s i ! k = dirent s i k"
  by (simp add: dir_entries_def)

lemma quiet_dirent: "quiet s s' \<Longrightarrow> dirent s' i = dirent s i"
  by (intro ext) (simp add: dirent_def quiet_fbyte)

lemma quiet_dir_entries: "quiet s s' \<Longrightarrow> dir_entries s' i = dir_entries s i"
  by (simp add: dir_entries_def quiet_dirent)

lemma maxfile_32: "SFS_MAXFILE < 2 ^ 32"
  by (simp add: SFS_MAXFILE_def SFS_MAXBLOCKS_def SFS_NDIRECT_def SFS_DBPERIDB_def SFS_BLOCKSIZE_def)

lemma dir_nentries: "dir_shape (sv_i sv) \<Longrightarrow> sfs_dir_nentries sv = Some (sfi_size (sv_i sv) div SFS_DIRSIZE)"
  by (simp add: sfs_dir_nentries_def dir_shape_def)

lemma sfs_readdir_entry:
  assumes ok: "fs_small s" and inode: "inode_ok s (sv_i sv)" and size: "sfi_size (sv_i sv) \<le> SFS_MAXFILE"
    and slot: "slot < sfi_size (sv_i sv) div SFS_DIRSIZE"
  shows "\<exists>s'. sfs_readdir s sv slot = Some (Inr (dirent s (sv_i sv) slot), s', sv) \<and> quiet s s'"
proof -
  let ?n = "sfi_size (sv_i sv)" and ?o = "slot * SFS_DIRSIZE"
  let ?u = "uio_kinit (replicate SFS_DIRSIZE 0) ?o UIO_READ"
  have "(slot + 1) * SFS_DIRSIZE \<le> ?n div SFS_DIRSIZE * SFS_DIRSIZE" using slot by (intro mult_le_mono1) simp
  also have "\<dots> \<le> ?n" by (rule div_times_less_eq_dividend)
  finally have fit: "?o + SFS_DIRSIZE \<le> ?n" by simp
  then have w: "wrap32 ?o = ?o" using size maxfile_32 by (intro wrap32_id) (simp add: SFS_DIRSIZE_def)
  have u: "kuio ?u" by (rule kuio_kinit) (simp add: SFS_DIRSIZE_def)
  have m: "min (uio_resid ?u) (?n - uio_offset ?u) = SFS_DIRSIZE" using fit by simp
  from sfs_io_read [OF ok inode u _ size, unfolded m] obtain s' u' where
    io: "sfs_io s sv ?u = Some (Inr (), s', sv, u')" "quiet s s'"
    and mv: "uio_moved (map (fbyte s (sv_i sv)) [?o..<?o + SFS_DIRSIZE]) ?u u'" by auto
  from mv have "uio_resid u' = 0" "uio_done u' @ uio_todo u' = map (fbyte s (sv_i sv)) [?o..<?o + SFS_DIRSIZE]"
    by (simp_all add: uio_moved_def)
  with io w show ?thesis by (simp add: sfs_readdir_def dirent_def add.commute)
qed

subsection \<open>Searching\<close>

definition ent_name :: "sfs_dir \<Rightarrow> u8 list" where
  "ent_name e = cstr ((sfd_name e)[SFS_NAMELEN - 1 := 0])"

definition ent_live :: "sfs_dir \<Rightarrow> bool" where
  "ent_live e \<longleftrightarrow> sfd_ino e \<noteq> SFS_NOINO"

definition ent_is :: "u8 list \<Rightarrow> sfs_dir \<Rightarrow> bool" where
  "ent_is name e \<longleftrightarrow> ent_live e \<and> ent_name e = name"

text \<open>Each name appears at most once.\<close>

definition names_distinct :: "sfs_dir list \<Rightarrow> bool" where
  "names_distinct es \<longleftrightarrow>
     (\<forall>j k. j < k \<and> k < length es \<longrightarrow> ent_live (es ! j) \<longrightarrow> ent_live (es ! k) \<longrightarrow> ent_name (es ! j) \<noteq> ent_name (es ! k))"

definition slot_of :: "sfs_dir list \<Rightarrow> u8 list \<Rightarrow> nat \<Rightarrow> nat option" where
  "slot_of es name n = List.find (\<lambda>k. ent_is name (es ! k)) [0..<n]"

definition empty_of :: "sfs_dir list \<Rightarrow> nat \<Rightarrow> nat option" where
  "empty_of es n = List.find (\<lambda>k. \<not> ent_live (es ! k)) (rev [0..<n])"

lemma find_append: "List.find P (xs @ ys) = (case List.find P xs of None \<Rightarrow> List.find P ys | Some x \<Rightarrow> Some x)"
  by (induction xs) auto

lemma slot_of_Suc:
  "slot_of es name (Suc n) =
     (case slot_of es name n of None \<Rightarrow> if ent_is name (es ! n) then Some n else None | Some k \<Rightarrow> Some k)"
  by (simp add: slot_of_def find_append split: option.split)

lemma empty_of_Suc: "empty_of es (Suc n) = (if \<not> ent_live (es ! n) then Some n else empty_of es n)"
  by (simp add: empty_of_def)

lemma slot_of_Some: "slot_of es name n = Some k \<Longrightarrow> k < n \<and> ent_is name (es ! k)"
  by (auto simp: slot_of_def find_Some_iff)

lemma slot_of_None: "slot_of es name n = None \<longleftrightarrow> (\<forall>k < n. \<not> ent_is name (es ! k))"
  by (auto simp: slot_of_def find_None_iff)

lemma empty_of_Some: "empty_of es n = Some k \<Longrightarrow> k < n \<and> \<not> ent_live (es ! k)"
  by (auto simp: empty_of_def find_Some_iff rev_nth)

lemma empty_of_None: "empty_of es n = None \<longleftrightarrow> (\<forall>k < n. ent_live (es ! k))"
  by (auto simp: empty_of_def find_None_iff)

abbreviation found_at :: "sfs_dir list \<Rightarrow> nat option \<Rightarrow> (nat \<times> nat) option" where
  "found_at es ko \<equiv> map_option (\<lambda>k. (sfd_ino (es ! k), k)) ko"

lemma sfs_dir_scan_entries:
  assumes "fs_small s" and "inode_ok s (sv_i sv)" and size: "sfi_size (sv_i sv) \<le> SFS_MAXFILE"
    and es: "dir_entries s (sv_i sv) = es" and dist: "names_distinct es" and "i \<le> length es"
  shows "\<exists>s'. sfs_dir_scan name (length es) i (found_at es (slot_of es name i)) (empty_of es i) s sv =
      Some (Inr (found_at es (slot_of es name (length es)), empty_of es (length es)), s', sv) \<and> quiet s s'"
  using assms(1,2,4,6)
proof (induction "length es - i" arbitrary: i s)
  case 0
  then show ?case by (subst sfs_dir_scan.simps) (auto simp: fs_small_def quiet_refl)
next
  case (Suc n)
  let ?e = "es ! i"
  have i: "i < length es" "n = length es - Suc i" "Suc i \<le> length es" using Suc.hyps(2) by simp_all
  have e: "?e = dirent s (sv_i sv) i" using i(1) Suc.prems(3) nth_dir_entries by auto
  from sfs_readdir_entry [OF Suc.prems(1,2) size, of i] i(1) Suc.prems(3) obtain s1 where
    s1: "sfs_readdir s sv i = Some (Inr ?e, s1, sv)" "quiet s s1" unfolding e by auto
  have next1: "fs_small s1" "inode_ok s1 (sv_i sv)" "dir_entries s1 (sv_i sv) = es"
    using Suc.prems(1-3) s1(2) by (auto simp: fs_small_quiet quiet_inode_ok quiet_dir_entries)
  from Suc.hyps(1) [OF i(2) next1 i(3)] obtain s' where
    rest: "sfs_dir_scan name (length es) (Suc i) (found_at es (slot_of es name (Suc i))) (empty_of es (Suc i)) s1 sv =
      Some (Inr (found_at es (slot_of es name (length es)), empty_of es (length es)), s', sv)" "quiet s1 s'" by blast
  have once: "slot_of es name i = None" if "ent_is name ?e"
    using that dist i(1) unfolding slot_of_None names_distinct_def ent_is_def by metis
  have "sfs_dir_scan name (length es) i (found_at es (slot_of es name i)) (empty_of es i) s sv =
      sfs_dir_scan name (length es) (Suc i) (found_at es (slot_of es name (Suc i))) (empty_of es (Suc i)) s1 sv"
  proof (cases "ent_is name ?e")
    case True
    with once [OF True] i(1) s1(1) show ?thesis
      by (subst sfs_dir_scan.simps) (simp add: slot_of_Suc empty_of_Suc ent_is_def ent_live_def ent_name_def)
  next
    case False
    then have "slot_of es name (Suc i) = slot_of es name i" by (simp add: slot_of_Suc split: option.split)
    with False i(1) s1(1) show ?thesis
      by (subst sfs_dir_scan.simps) (auto simp: empty_of_Suc ent_is_def ent_live_def ent_name_def)
  qed
  with rest quiet_trans [OF s1(2)] show ?case by auto
qed

lemma sfs_dir_findname_entries:
  assumes "fs_small s" and "inode_ok s (sv_i sv)" and shape: "dir_shape (sv_i sv)"
    and es: "dir_entries s (sv_i sv) = es" and dist: "names_distinct es"
  shows "\<exists>s'. sfs_dir_findname s sv name =
     Some (case slot_of es name (length es) of None \<Rightarrow> Inl ENOENT | Some k \<Rightarrow> Inr (sfd_ino (es ! k), k),
           empty_of es (length es), s', sv) \<and> quiet s s'"
proof -
  have size: "sfi_size (sv_i sv) \<le> SFS_MAXFILE" using shape by (simp add: dir_shape_def)
  from sfs_dir_scan_entries [OF assms(1,2) size es dist, of 0 name] obtain s' where
    "sfs_dir_scan name (length es) 0 None None s sv =
      Some (Inr (found_at es (slot_of es name (length es)), empty_of es (length es)), s', sv)" "quiet s s'"
    by (auto simp: slot_of_def empty_of_def)
  moreover have "sfs_dir_nentries sv = Some (length es)" using dir_nentries [OF shape] es by auto
  ultimately show ?thesis by (auto simp: sfs_dir_findname_def split: option.splits)
qed

subsection \<open>Writing an entry\<close>

text \<open>A write within one block is done in full or not at all.\<close>

definition grow_size :: "sfs_vnode \<Rightarrow> nat \<Rightarrow> sfs_vnode" where
  "grow_size sv off =
     (if off > sfi_size (sv_i sv)
      then sv\<lparr>sv_i := (sv_i sv)\<lparr>sfi_size := wrap32 off\<rparr>, sv_dirty := True\<rparr> else sv)"

lemma sfs_io_small_write:
  assumes ok: "fs_ok s" and inode: "inode_ok s (sv_i sv)" and u: "kuio u" "uio_rw u = UIO_WRITE"
    and off: "uio_offset u = q * SFS_BLOCKSIZE + skip" and q: "q < SFS_MAXBLOCKS"
    and len: "0 < uio_resid u" "skip + uio_resid u \<le> SFS_BLOCKSIZE" "uio_resid u < SFS_BLOCKSIZE"
  shows "(\<exists>s' sv'. sfs_io s sv u = Some (Inl ENOSPC, s', grow_size sv' (uio_offset u), u) \<and>
                   wrote s sv (uio_offset u) [] s' sv') \<or>
     (\<exists>s' sv' u'. sfs_io s sv u = Some (Inr (), s', grow_size sv' (uio_offset u + uio_resid u), u') \<and>
        wrote s sv (uio_offset u) (take (uio_resid u) (uio_todo u)) s' sv' \<and> uio_resid u' = 0)"
proof -
  have skip: "skip < SFS_BLOCKSIZE" using len by simp
  have r32: "uio_resid u < 2 ^ 32" "uio_resid u \<le> length (uio_todo u)" using u(1) by (simp_all add: kuio_def)
  have mod: "uio_offset u mod SFS_BLOCKSIZE = skip" using off skip by simp
  have min: "min (SFS_BLOCKSIZE - skip) (uio_resid u) = uio_resid u" using len(2) by simp
  have same: "u\<lparr>uio_resid := uio_resid u\<rparr> = u" by simp
  have body: "sfs_io_body s sv u = sfs_partialio s sv u skip (uio_resid u)"
    if "sfs_partialio s sv u skip (uio_resid u) = Some (r, s', sv', u')" "r = Inr () \<Longrightarrow> uio_resid u' = 0" for r s' sv' u'
    using that len(1,3) mod min
    by (cases r) (auto simp: sfs_io_body_def sfs_io_aligned_def Let_def split: sum.split)
  from sfs_partialio_atomic [OF ok inode u off skip q len(1,2) le_refl] show ?thesis
  proof (elim disjE exE conjE)
    fix s' sv' assume a: "sfs_partialio s sv u skip (uio_resid u) = Some (Inl ENOSPC, s', sv', u)"
      "wrote s sv (uio_offset u) [] s' sv'"
    then have "sfs_io_body s sv u = Some (Inl ENOSPC, s', sv', u)" using body [OF a(1)] by simp
    with u(2) r32(1) same a(2) show ?thesis by (auto simp: sfs_io_def Let_def grow_size_def)
  next
    fix s' sv' u' assume a: "sfs_partialio s sv u skip (uio_resid u) = Some (Inr (), s', sv', u')"
      "wrote s sv (uio_offset u) (take (uio_resid u) (uio_todo u)) s' sv'"
      "uio_moved (take (uio_resid u) (uio_todo u)) u u'"
    have u': "uio_resid u' = 0" "uio_offset u' = uio_offset u + uio_resid u" "uio_rw u' = UIO_WRITE"
      using a(3) r32(2) u(2) by (simp_all add: uio_moved_def)
    then have "sfs_io_body s sv u = Some (Inr (), s', sv', u')" using body [OF a(1)] a(1) by simp
    with u(2) u' same a(2) show ?thesis by (auto simp: sfs_io_def Let_def grow_size_def)
  qed
qed

text \<open>The directory now has the entries \<open>es\<close>; new blocks came from the free ones.\<close>

definition dir_changed :: "sfs_fs \<Rightarrow> sfs_vnode \<Rightarrow> sfs_dir list \<Rightarrow> sfs_fs \<Rightarrow> sfs_vnode \<Rightarrow> bool" where
  "dir_changed s sv es s' sv' \<longleftrightarrow> fs_ok s' \<and> inode_ok s' (sv_i sv') \<and> fs_same s s' \<and> sv_meta sv sv' \<and>
     dir_shape (sv_i sv') \<and> dir_entries s' (sv_i sv') = es \<and> fs_used s \<subseteq> fs_used s' \<and>
     file_blocks s' (sv_i sv') \<inter> fs_used s \<subseteq> file_blocks s (sv_i sv) \<and>
     (\<forall>x \<in> fs_used s - file_blocks s (sv_i sv). fs_disk s' x = fs_disk s x)"

definition put_slot :: "'a list \<Rightarrow> nat \<Rightarrow> 'a \<Rightarrow> 'a list" where
  "put_slot es k e = (if k < length es then es[k := e] else es @ [e])"

lemma entry_range: "k * SFS_DIRSIZE \<le> j \<and> j < (k + 1) * SFS_DIRSIZE \<longleftrightarrow> j div SFS_DIRSIZE = k"
  by (auto simp: SFS_DIRSIZE_def)

lemma dirent_wrote:
  assumes w: "wrote s sv (slot * SFS_DIRSIZE) (encode_dir sd) s' sv'" and sd: "dir_wf sd"
    and k: "(k + 1) * SFS_DIRSIZE \<le> SFS_MAXFILE"
  shows "dirent s' (sv_i sv') k = (if k = slot then sd else dirent s (sv_i sv) k)"
proof -
  have len: "length (encode_dir sd) = SFS_DIRSIZE" by (rule length_encode_dir [OF sd])
  have b: "fbyte s' (sv_i sv') j = (if k = slot then encode_dir sd ! (j - slot * SFS_DIRSIZE) else fbyte s (sv_i sv) j)"
    if "j \<in> set [k * SFS_DIRSIZE..<(k + 1) * SFS_DIRSIZE]" for j
  proof -
    have "j < SFS_MAXFILE" using that k by simp
    note wroteD(9) [OF w this]
    moreover have "slot * SFS_DIRSIZE \<le> j \<and> j < slot * SFS_DIRSIZE + SFS_DIRSIZE \<longleftrightarrow> k = slot"
      using that entry_range [of slot j] entry_range [of k j] by auto
    ultimately show ?thesis using len by auto
  qed
  show ?thesis
  proof (cases "k = slot")
    case True
    have "map (fbyte s' (sv_i sv')) [k * SFS_DIRSIZE..<(k + 1) * SFS_DIRSIZE] =
        map (\<lambda>j. encode_dir sd ! (j - k * SFS_DIRSIZE)) [k * SFS_DIRSIZE..<(k + 1) * SFS_DIRSIZE]"
      using b True by (intro map_cong) simp_all
    also have "\<dots> = encode_dir sd" using len by (intro nth_equalityI) simp_all
    finally show ?thesis using True decode_encode_dir [OF sd] by (simp add: dirent_def)
  next
    case False
    then have "map (fbyte s' (sv_i sv')) [k * SFS_DIRSIZE..<(k + 1) * SFS_DIRSIZE] =
        map (fbyte s (sv_i sv)) [k * SFS_DIRSIZE..<(k + 1) * SFS_DIRSIZE]"
      using b by (intro map_cong) simp_all
    with False show ?thesis unfolding dirent_def by (simp only: if_False)
  qed
qed

lemma dirent_wrote_nothing:
  assumes w: "wrote s sv off [] s' sv'" and k: "(k + 1) * SFS_DIRSIZE \<le> SFS_MAXFILE"
  shows "dirent s' (sv_i sv') k = dirent s (sv_i sv) k"
proof -
  have "map (fbyte s' (sv_i sv')) [k * SFS_DIRSIZE..<(k + 1) * SFS_DIRSIZE] =
      map (fbyte s (sv_i sv)) [k * SFS_DIRSIZE..<(k + 1) * SFS_DIRSIZE]"
    using k by (intro map_cong refl) (use wroteD(9) [OF w] in auto)
  then show ?thesis unfolding dirent_def by (simp only:)
qed

lemma dirent_size [simp]: "dirent s (i\<lparr>sfi_size := z\<rparr>) = dirent s i"
  by (intro ext) (simp add: dirent_def)

lemma dir_slot_bound:
  assumes "n mod SFS_DIRSIZE = 0" and "k < n div SFS_DIRSIZE" and "n \<le> SFS_MAXFILE"
  shows "(k + 1) * SFS_DIRSIZE \<le> SFS_MAXFILE"
proof -
  have "(k + 1) * SFS_DIRSIZE \<le> n div SFS_DIRSIZE * SFS_DIRSIZE" using assms(2) by (intro mult_le_mono1) simp
  also have "\<dots> \<le> n" by (rule div_times_less_eq_dividend)
  finally show ?thesis using assms(3) by simp
qed

lemma block_of_slot:
  assumes "(slot + 1) * SFS_DIRSIZE \<le> SFS_MAXFILE"
  obtains q skip where "slot * SFS_DIRSIZE = q * SFS_BLOCKSIZE + skip" "q < SFS_MAXBLOCKS"
    "skip + SFS_DIRSIZE \<le> SFS_BLOCKSIZE"
proof (rule that [of "slot div 8" "(slot mod 8) * 64"])
  show "slot * SFS_DIRSIZE = slot div 8 * SFS_BLOCKSIZE + slot mod 8 * 64"
    using div_mult_mod_eq [of slot 8] unfolding SFS_DIRSIZE_def SFS_BLOCKSIZE_def by linarith
  have "slot mod 8 < 8" by simp
  then show "slot mod 8 * 64 + SFS_DIRSIZE \<le> SFS_BLOCKSIZE" unfolding SFS_DIRSIZE_def SFS_BLOCKSIZE_def by linarith
  have "slot div 8 * 8 * 64 \<le> slot * 64" by (intro mult_le_mono1 div_times_less_eq_dividend)
  then have "(slot div 8) * 512 < SFS_MAXBLOCKS * 512"
    using assms unfolding SFS_MAXFILE_def SFS_DIRSIZE_def SFS_BLOCKSIZE_def by simp
  then show "slot div 8 < SFS_MAXBLOCKS" by simp
qed

lemma grow_size_simps:
  "sv_meta sv (grow_size sv' z) = sv_meta sv sv'" "blk s (sv_i (grow_size sv z)) = blk s (sv_i sv)"
  "file_blocks s (sv_i (grow_size sv z)) = file_blocks s (sv_i sv)"
  "dirent s (sv_i (grow_size sv z)) = dirent s (sv_i sv)"
  "sfi_type (sv_i (grow_size sv z)) = sfi_type (sv_i sv)"
  "z < 2 ^ 32 \<Longrightarrow> sfi_size (sv_i (grow_size sv z)) = max (sfi_size (sv_i sv)) z"
  by (simp_all add: grow_size_def sv_meta_def)

lemma grow_size_inode_ok: "inode_ok s (sv_i sv) \<Longrightarrow> inode_ok s (sv_i (grow_size sv z))"
  by (simp add: grow_size_def inode_ok_size [OF wrap32_less])

lemma dir_entries_put:
  assumes "n mod SFS_DIRSIZE = 0" and "slot \<le> n div SFS_DIRSIZE"
    and "\<And>k. k < max n ((slot + 1) * SFS_DIRSIZE) div SFS_DIRSIZE \<Longrightarrow> f' k = (if k = slot then e else f k)"
  shows "map f' [0..<max n ((slot + 1) * SFS_DIRSIZE) div SFS_DIRSIZE] = put_slot (map f [0..<n div SFS_DIRSIZE]) slot e"
proof -
  have pos: "0 < SFS_DIRSIZE" by (simp add: SFS_DIRSIZE_def)
  have n: "n = (n div SFS_DIRSIZE) * SFS_DIRSIZE" using assms(1) by auto
  have m: "max n ((slot + 1) * SFS_DIRSIZE) div SFS_DIRSIZE = max (n div SFS_DIRSIZE) (slot + 1)"
    using pos by (subst n) (simp add: nat_mult_max_left [symmetric] del: mult_Suc)
  show ?thesis
  proof (cases "slot < n div SFS_DIRSIZE")
    case True
    then have "max (n div SFS_DIRSIZE) (slot + 1) = n div SFS_DIRSIZE" by simp
    with True assms(3) show ?thesis unfolding m put_slot_def by (intro nth_equalityI) auto
  next
    case False
    then have slot: "slot = n div SFS_DIRSIZE" using assms(2) by simp
    then have "max (n div SFS_DIRSIZE) (slot + 1) = Suc slot" by simp
    with slot assms(3) show ?thesis unfolding m put_slot_def by simp
  qed
qed

lemma sfs_writedir_entry:
  assumes ok: "fs_ok s" and inode: "inode_ok s (sv_i sv)" and shape: "dir_shape (sv_i sv)"
    and slot: "slot \<le> length (dir_entries s (sv_i sv))" "(slot + 1) * SFS_DIRSIZE \<le> SFS_MAXFILE" and sd: "dir_wf sd"
  shows "\<exists>r s' sv'. sfs_writedir s sv sd slot = Some (r, s', sv') \<and>
     (r = Inl ENOSPC \<and> dir_changed s sv (dir_entries s (sv_i sv)) s' sv' \<or>
      r = Inr () \<and> dir_changed s sv (put_slot (dir_entries s (sv_i sv)) slot sd) s' sv')"
proof -
  let ?n = "sfi_size (sv_i sv)" and ?o = "slot * SFS_DIRSIZE"
  let ?u = "uio_kinit (encode_dir sd) ?o UIO_WRITE"
  note len = length_encode_dir [OF sd]
  have sh: "sfi_type (sv_i sv) = SFS_TYPE_DIR" "?n mod SFS_DIRSIZE = 0" "?n \<le> SFS_MAXFILE"
    using shape by (simp_all add: dir_shape_def)
  have end32: "?o + SFS_DIRSIZE < 2 ^ 32" using slot(2) maxfile_32 by simp
  then have w: "wrap32 ?o = ?o" by (intro wrap32_id) simp
  have atend: "?o \<le> ?n"
    using slot(1) order_trans [OF mult_le_mono1 [of slot "?n div SFS_DIRSIZE" SFS_DIRSIZE] div_times_less_eq_dividend]
    by simp
  obtain q skip where q: "?o = q * SFS_BLOCKSIZE + skip" "q < SFS_MAXBLOCKS" "skip + SFS_DIRSIZE \<le> SFS_BLOCKSIZE"
    using block_of_slot [OF slot(2)] .
  have u: "kuio ?u" by (rule kuio_kinit) (simp add: len SFS_DIRSIZE_def)
  have "SFS_DIRSIZE < SFS_BLOCKSIZE" "0 < SFS_DIRSIZE" by (simp_all add: SFS_DIRSIZE_def SFS_BLOCKSIZE_def)
  with sfs_io_small_write [OF ok inode u _ _ q(2), of skip] q(1,3) len show ?thesis
  proof (simp, elim disjE exE conjE)
    fix s' sv' assume io: "sfs_io s sv (uio_kinit (encode_dir sd) (q * SFS_BLOCKSIZE + skip) UIO_WRITE) =
        Some (Inl ENOSPC, s', grow_size sv' (q * SFS_BLOCKSIZE + skip), uio_kinit (encode_dir sd) (q * SFS_BLOCKSIZE + skip) UIO_WRITE)"
      and wr: "wrote s sv (q * SFS_BLOCKSIZE + skip) [] s' sv'"
    note d = wroteD [OF wr]
    have same: "grow_size sv' ?o = sv'" using atend d(5) by (simp add: grow_size_def)
    have "dir_entries s' (sv_i sv') = dir_entries s (sv_i sv)"
      unfolding dir_entries_def d(5)
      using dirent_wrote_nothing [OF wr dir_slot_bound [OF sh(2) _ sh(3)]] by simp
    then have "dir_changed s sv (dir_entries s (sv_i sv)) s' sv'"
      using d(1-8) shape by (simp add: dir_changed_def dir_shape_def sv_meta_def)
    with io same w q(1) show ?thesis by (auto simp: sfs_writedir_def)
  next
    fix s' sv' u' assume io: "sfs_io s sv (uio_kinit (encode_dir sd) (q * SFS_BLOCKSIZE + skip) UIO_WRITE) =
        Some (Inr (), s', grow_size sv' (q * SFS_BLOCKSIZE + skip + SFS_DIRSIZE), u')"
      and wr: "wrote s sv (q * SFS_BLOCKSIZE + skip) (encode_dir sd) s' sv'" and r: "uio_resid u' = 0"
    note d = wroteD [OF wr]
    let ?sv = "grow_size sv' ((slot + 1) * SFS_DIRSIZE)"
    have z: "sfi_size (sv_i ?sv) = max ?n ((slot + 1) * SFS_DIRSIZE)"
      using grow_size_simps(6) [of "(slot + 1) * SFS_DIRSIZE" sv'] end32 d(5) by simp
    have zm: "max ?n ((slot + 1) * SFS_DIRSIZE) mod SFS_DIRSIZE = 0" "max ?n ((slot + 1) * SFS_DIRSIZE) \<le> SFS_MAXFILE"
      using sh(2,3) slot(2) by (simp_all add: max_def)
    have "dir_entries s' (sv_i ?sv) = put_slot (dir_entries s (sv_i sv)) slot sd"
      unfolding dir_entries_def z grow_size_simps(4)
      by (rule dir_entries_put [OF sh(2)])
         (use slot(1) dirent_wrote [OF wr [folded q(1)] sd dir_slot_bound [OF zm(1) _ zm(2)]] in simp_all)
    moreover have "dir_shape (sv_i ?sv)" using z zm sh(1) d(4) by (simp add: dir_shape_def grow_size_simps sv_meta_def)
    ultimately have "dir_changed s sv (put_slot (dir_entries s (sv_i sv)) slot sd) s' ?sv"
      using d(1-8) grow_size_inode_ok [OF d(2)] by (simp add: dir_changed_def grow_size_simps)
    with io w q(1) r show ?thesis by (auto simp: sfs_writedir_def add.commute)
  qed
qed

text \<open>A directory of maximal size has no room for another slot.\<close>

lemma sfs_writedir_full:
  assumes shape: "dir_shape (sv_i sv)" and slot: "slot * SFS_DIRSIZE = SFS_MAXFILE"
    and size: "sfi_size (sv_i sv) = SFS_MAXFILE" and sd: "dir_wf sd"
  shows "sfs_writedir s sv sd slot = Some (Inl EFBIG, s, sv)"
proof -
  let ?u = "uio_kinit (encode_dir sd) SFS_MAXFILE UIO_WRITE"
  note len = length_encode_dir [OF sd]
  have c: "SFS_MAXFILE mod SFS_BLOCKSIZE = 0" "wrap32 (SFS_MAXFILE div SFS_BLOCKSIZE) = SFS_MAXBLOCKS"
      "SFS_DIRSIZE div SFS_BLOCKSIZE = 0" "0 < SFS_DIRSIZE" "SFS_DIRSIZE \<le> SFS_BLOCKSIZE" "SFS_DIRSIZE < SFS_BLOCKSIZE"
    by (simp_all add: SFS_MAXFILE_def SFS_MAXBLOCKS_def SFS_NDIRECT_def SFS_DBPERIDB_def SFS_BLOCKSIZE_def SFS_DIRSIZE_def wrap32_def)
  have "sfs_partialio s sv ?u 0 SFS_DIRSIZE = Some (Inl EFBIG, s, sv, ?u)"
    using c sfs_bmap_big [of SFS_MAXBLOCKS s sv True] by (simp add: sfs_partialio_def)
  then have body: "sfs_io_body s sv ?u = Some (Inl EFBIG, s, sv, ?u)"
    using c len by (simp add: sfs_io_body_def sfs_io_aligned_def Let_def)
  have same: "?u\<lparr>uio_resid := SFS_DIRSIZE\<rparr> = ?u" using len by (simp add: uio_kinit_def)
  have "wrap32 SFS_DIRSIZE = SFS_DIRSIZE" by (simp add: SFS_DIRSIZE_def)
  with body have "sfs_io s sv ?u = Some (Inl EFBIG, s, sv, ?u)"
    using size len by (simp add: sfs_io_def Let_def same)
  with slot maxfile_32 show ?thesis by (simp add: sfs_writedir_def)
qed

subsection \<open>The directory as a map\<close>

definition dmap :: "sfs_dir list \<Rightarrow> u8 list \<Rightarrow> nat option" where
  "dmap es name = map_option (\<lambda>k. sfd_ino (es ! k)) (slot_of es name (length es))"

lemma dmap_iff:
  assumes "names_distinct es"
  shows "dmap es name = Some ino \<longleftrightarrow> (\<exists>k < length es. ent_is name (es ! k) \<and> sfd_ino (es ! k) = ino)"
proof
  assume "dmap es name = Some ino"
  then show "\<exists>k < length es. ent_is name (es ! k) \<and> sfd_ino (es ! k) = ino"
    by (auto simp: dmap_def dest: slot_of_Some)
next
  assume "\<exists>k < length es. ent_is name (es ! k) \<and> sfd_ino (es ! k) = ino"
  then obtain k where k: "k < length es" "ent_is name (es ! k)" "sfd_ino (es ! k) = ino" by blast
  then obtain j where j: "slot_of es name (length es) = Some j"
    using slot_of_None [of es name "length es"] by (cases "slot_of es name (length es)") auto
  from slot_of_Some [OF j] have "j < length es" "ent_is name (es ! j)" by simp_all
  with k assms have "j = k" unfolding names_distinct_def ent_is_def by (metis nat_neq_iff)
  with j k show "dmap es name = Some ino" by (simp add: dmap_def)
qed

lemma dmap_None: "dmap es name = None \<longleftrightarrow> (\<forall>k < length es. \<not> ent_is name (es ! k))"
  by (simp add: dmap_def slot_of_None)

lemma put_slot_simps:
  assumes "slot \<le> length es"
  shows "k < length (put_slot es slot e) \<longleftrightarrow> k < length es \<or> k = slot"
    and "k < length (put_slot es slot e) \<Longrightarrow> put_slot es slot e ! k = (if k = slot then e else es ! k)"
  using assms by (auto simp: put_slot_def nth_append)

text \<open>Filling a slot that is empty or one past the end adds a name.\<close>

lemma put_entry_map:
  assumes dist: "names_distinct es" and slot: "slot \<le> length es" "slot < length es \<Longrightarrow> \<not> ent_live (es ! slot)"
    and live: "ent_live e" and new: "dmap es (ent_name e) = None"
  shows "names_distinct (put_slot es slot e)" and "dmap (put_slot es slot e) = (dmap es)(ent_name e \<mapsto> sfd_ino e)"
proof -
  let ?es = "put_slot es slot e"
  note p = put_slot_simps [OF slot(1), of _ e]
  have fresh: "ent_name (es ! k) \<noteq> ent_name e" if "k < length es" "ent_live (es ! k)" for k
    using new that by (auto simp: dmap_None ent_is_def)
  show d: "names_distinct ?es"
    unfolding names_distinct_def
  proof (intro allI impI)
    fix j k assume jk: "j < k \<and> k < length ?es" and l: "ent_live (?es ! j)" "ent_live (?es ! k)"
    then have lt: "j < length ?es" "k < length ?es" by auto
    show "ent_name (?es ! j) \<noteq> ent_name (?es ! k)"
      using jk l lt p fresh dist unfolding names_distinct_def by (metis nat_neq_iff)
  qed
  show "dmap ?es = (dmap es)(ent_name e \<mapsto> sfd_ino e)"
  proof
    fix n
    have "dmap ?es n = Some i \<longleftrightarrow> ((dmap es)(ent_name e \<mapsto> sfd_ino e)) n = Some i" for i
    proof (cases "n = ent_name e")
      case True
      have "slot < length ?es" using p(1) by simp
      then have "dmap ?es n = Some (sfd_ino e)"
        using True live p(2) [of slot] by (auto simp: dmap_iff [OF d] ent_is_def)
      with True show ?thesis by auto
    next
      case False
      have "(\<exists>k < length ?es. ent_is n (?es ! k) \<and> sfd_ino (?es ! k) = i) \<longleftrightarrow>
            (\<exists>k < length es. ent_is n (es ! k) \<and> sfd_ino (es ! k) = i)" (is "?A \<longleftrightarrow> ?B")
      proof
        assume ?A
        then obtain k where k: "k < length ?es" "ent_is n (?es ! k)" "sfd_ino (?es ! k) = i" by blast
        with False p(2) [OF k(1)] have "k \<noteq> slot" by (auto simp: ent_is_def)
        then have "k < length es" "?es ! k = es ! k" using k(1) p(1) [of k] p(2) [OF k(1)] by simp_all
        with k show ?B by metis
      next
        assume ?B
        then obtain k where k: "k < length es" "ent_is n (es ! k)" "sfd_ino (es ! k) = i" by blast
        then have "k \<noteq> slot" using slot(2) unfolding ent_is_def by metis
        then have "k < length ?es" "?es ! k = es ! k" using k(1) p(1) [of k] p(2) [of k] by simp_all
        with k show ?A by metis
      qed
      with False show ?thesis by (simp add: dmap_iff [OF d] dmap_iff [OF dist])
    qed
    then show "dmap ?es n = ((dmap es)(ent_name e \<mapsto> sfd_ino e)) n"
      by (cases "dmap ?es n") (metis option.exhaust)+
  qed
qed

text \<open>Emptying a slot removes its name.\<close>

lemma kill_entry_map:
  assumes dist: "names_distinct es" and k: "k < length es" "ent_live (es ! k)" and dead: "\<not> ent_live e"
  shows "names_distinct (es[k := e])" and "dmap (es[k := e]) = (dmap es)(ent_name (es ! k) := None)"
proof -
  show d: "names_distinct (es[k := e])"
    using dist dead unfolding names_distinct_def
    by (metis length_list_update nth_list_update_eq nth_list_update_neq order.strict_trans)
  show "dmap (es[k := e]) = (dmap es)(ent_name (es ! k) := None)"
  proof
    fix n
    have "dmap (es[k := e]) n = Some i \<longleftrightarrow> ((dmap es)(ent_name (es ! k) := None)) n = Some i" for i
    proof (cases "n = ent_name (es ! k)")
      case True
      have "\<not> ent_is n (es[k := e] ! j)" if "j < length es" for j
      proof (cases "j = k")
        case False
        then have "ent_live (es ! j) \<Longrightarrow> ent_name (es ! j) \<noteq> n"
          using dist k that True unfolding names_distinct_def by (metis nat_neq_iff)
        with False show ?thesis by (auto simp: ent_is_def)
      qed (use k dead in \<open>simp add: ent_is_def\<close>)
      with True show ?thesis by (auto simp: dmap_iff [OF d])
    next
      case False
      have "ent_is n (es[k := e] ! j) \<and> sfd_ino (es[k := e] ! j) = i \<longleftrightarrow> ent_is n (es ! j) \<and> sfd_ino (es ! j) = i"
        if "j < length es" for j
        using that dead False by (cases "j = k") (auto simp: ent_is_def)
      then show ?thesis using False by (simp add: dmap_iff [OF d] dmap_iff [OF dist] cong: conj_cong)
    qed
    then show "dmap (es[k := e]) n = ((dmap es)(ent_name (es ! k) := None)) n"
      by (cases "dmap (es[k := e]) n") (metis option.exhaust)+
  qed
qed

text \<open>A directory the operations can work on, and the map it represents.\<close>

definition dir_ok :: "sfs_fs \<Rightarrow> sfs_vnode \<Rightarrow> bool" where
  "dir_ok s sv \<longleftrightarrow> fs_small s \<and> inode_ok s (sv_i sv) \<and> dir_shape (sv_i sv) \<and>
     names_distinct (dir_entries s (sv_i sv))"

definition dir_names :: "sfs_fs \<Rightarrow> sfs_vnode \<Rightarrow> u8 list \<Rightarrow> nat option" where
  "dir_names s sv = dmap (dir_entries s (sv_i sv))"

lemma dir_okD:
  assumes "dir_ok s sv"
  shows "fs_small s" "fs_ok s" "inode_ok s (sv_i sv)" "dir_shape (sv_i sv)" "names_distinct (dir_entries s (sv_i sv))"
  using assms by (simp_all add: dir_ok_def fs_small_def)

lemma dir_changedD:
  assumes "dir_changed s sv es s' sv'"
  shows "fs_ok s'" "inode_ok s' (sv_i sv')" "fs_same s s'" "sv_meta sv sv'" "dir_shape (sv_i sv')"
    "dir_entries s' (sv_i sv') = es" "fs_used s \<subseteq> fs_used s'"
    "file_blocks s' (sv_i sv') \<inter> fs_used s \<subseteq> file_blocks s (sv_i sv)"
    "x \<in> fs_used s - file_blocks s (sv_i sv) \<Longrightarrow> fs_disk s' x = fs_disk s x"
  using assms by (simp_all add: dir_changed_def)

lemma dir_ok_changed:
  assumes "dir_ok s sv" and "dir_changed s sv es s' sv'" and "names_distinct es"
  shows "dir_ok s' sv'" and "dir_names s' sv' = dmap es"
  using assms dir_changedD(1-6) [OF assms(2)] fs_small_same [of s s']
  by (simp_all add: dir_ok_def dir_names_def)

lemma quiet_file_blocks: "quiet s s' \<Longrightarrow> file_blocks s' i = file_blocks s i"
  by (simp add: file_blocks_def quiet_blk)

lemma quiet_used: "quiet s s' \<Longrightarrow> fs_used s' = fs_used s"
  by (simp add: quiet_def fs_used_def)

lemma dir_changed_quiet:
  assumes q: "quiet s s1" and c: "dir_changed s1 sv es s' sv'"
  shows "dir_changed s sv es s' sv'"
proof -
  have "fs_same s s'" using fs_same_trans [OF _ dir_changedD(3) [OF c], of s] q by (simp add: quiet_def)
  moreover have "fs_disk s1 = fs_disk s" using q by (simp add: quiet_def)
  ultimately show ?thesis
    using c quiet_file_blocks [OF q] quiet_used [OF q] by (simp add: dir_changed_def)
qed

lemma dir_changed_nothing:
  assumes "dir_ok s sv" and "quiet s s'"
  shows "dir_changed s sv (dir_entries s (sv_i sv)) s' sv"
  using quiet_file_blocks [OF assms(2)] quiet_used [OF assms(2)] quiet_inode_ok [OF assms(2) dir_okD(3) [OF assms(1)]]
    quiet_dir_entries [OF assms(2)] dir_okD(4) [OF assms(1)] assms(2)
  by (simp add: dir_changed_def sv_meta_def quiet_def)

lemma quiet_dir_ok: "dir_ok s sv \<Longrightarrow> quiet s s' \<Longrightarrow> dir_ok s' sv"
  by (auto simp: dir_ok_def quiet_dir_entries quiet_inode_ok fs_small_quiet)

lemma sfs_dir_findname_lookup:
  assumes "dir_ok s sv"
  shows "\<exists>s' k. sfs_dir_findname s sv name =
      Some (case dir_names s sv name of None \<Rightarrow> Inl ENOENT | Some ino \<Rightarrow> Inr (ino, k),
            empty_of (dir_entries s (sv_i sv)) (length (dir_entries s (sv_i sv))), s', sv) \<and> quiet s s' \<and>
     (dir_names s sv name \<noteq> None \<longrightarrow> k < length (dir_entries s (sv_i sv)) \<and> ent_is name (dir_entries s (sv_i sv) ! k))"
  using sfs_dir_findname_entries [OF dir_okD(1,3,4) [OF assms] refl dir_okD(5) [OF assms], of name]
  by (cases "slot_of (dir_entries s (sv_i sv)) name (length (dir_entries s (sv_i sv)))")
     (auto simp: dir_names_def dmap_def dest: slot_of_Some)

text \<open>The entry that \<open>sfs_dir_link\<close> makes for a name.\<close>

lemma new_entry:
  assumes "length name < SFS_NAMELEN" and "0 \<notin> set name" and "ino \<noteq> SFS_NOINO" and "ino < 2 ^ 32"
  defines "e \<equiv> \<lparr>sfd_ino = ino, sfd_name = name @ replicate (SFS_NAMELEN - length name) 0\<rparr>"
  shows "dir_wf e" "ent_live e" "ent_name e = name" "sfd_ino e = ino"
proof -
  show "dir_wf e" "ent_live e" "sfd_ino e = ino" using assms(1,3,4) by (simp_all add: e_def dir_wf_def ent_live_def)
  obtain m where m: "SFS_NAMELEN - length name = Suc m" using assms(1) by (cases "SFS_NAMELEN - length name") auto
  have "\<not> SFS_NAMELEN - 1 < length name" using assms(1) by simp
  then have "sfd_name e ! (SFS_NAMELEN - 1) = 0" using assms(1) by (simp add: e_def nth_append)
  then have "(sfd_name e)[SFS_NAMELEN - 1 := 0] = sfd_name e" by (metis list_update_id)
  moreover have "\<forall>x \<in> set name. x \<noteq> 0" using assms(2) by auto
  ultimately show "ent_name e = name" using m by (simp add: ent_name_def cstr_def e_def takeWhile_append)
qed

lemma link_slot:
  assumes ok: "dir_ok s sv"
  defines "es \<equiv> dir_entries s (sv_i sv)"
  defines "slot \<equiv> (case empty_of es (length es) of None \<Rightarrow> length es | Some k \<Rightarrow> k)"
  shows "slot \<le> length es" "slot < length es \<Longrightarrow> \<not> ent_live (es ! slot)"
    "(case empty_of es (length es) of None \<Rightarrow> sfs_dir_nentries sv | Some k \<Rightarrow> Some k) = Some slot"
    "(slot + 1) * SFS_DIRSIZE \<le> SFS_MAXFILE \<or> slot * SFS_DIRSIZE = SFS_MAXFILE \<and> sfi_size (sv_i sv) = SFS_MAXFILE"
proof -
  have sh: "sfi_size (sv_i sv) mod SFS_DIRSIZE = 0" "sfi_size (sv_i sv) \<le> SFS_MAXFILE"
    using dir_okD(4) [OF ok] by (simp_all add: dir_shape_def)
  show a: "slot \<le> length es" and "slot < length es \<Longrightarrow> \<not> ent_live (es ! slot)"
    by (auto simp: slot_def split: option.splits dest: empty_of_Some)
  show "(case empty_of es (length es) of None \<Rightarrow> sfs_dir_nentries sv | Some k \<Rightarrow> Some k) = Some slot"
    using dir_nentries [OF dir_okD(4) [OF ok]] by (simp add: slot_def es_def split: option.split)
  show "(slot + 1) * SFS_DIRSIZE \<le> SFS_MAXFILE \<or> slot * SFS_DIRSIZE = SFS_MAXFILE \<and> sfi_size (sv_i sv) = SFS_MAXFILE"
  proof (cases "slot < length es")
    case True
    then show ?thesis using dir_slot_bound [OF sh(1) _ sh(2), of slot] by (simp add: es_def)
  next
    case False
    have "sfi_size (sv_i sv) = length es * SFS_DIRSIZE" using sh(1) unfolding es_def length_dir_entries by auto
    then have n: "sfi_size (sv_i sv) = slot * SFS_DIRSIZE" using False a by simp
    have "SFS_MAXFILE = 1144 * SFS_DIRSIZE"
      by (simp add: SFS_MAXFILE_def SFS_MAXBLOCKS_def SFS_NDIRECT_def SFS_DBPERIDB_def SFS_BLOCKSIZE_def SFS_DIRSIZE_def)
    moreover from this have "slot \<le> 1144" using sh(2) n by (simp add: SFS_DIRSIZE_def)
    ultimately show ?thesis using n by (cases "slot = 1144") (simp_all add: SFS_DIRSIZE_def)
  qed
qed

lemma sfs_dir_link_changes:
  assumes ok: "dir_ok s sv" and name: "0 \<notin> set name" and ino: "ino \<noteq> SFS_NOINO" "ino < 2 ^ 32"
  shows "\<exists>r s' sv' es. sfs_dir_link s sv name ino = Some (r, s', sv') \<and> dir_changed s sv es s' sv' \<and> names_distinct es \<and>
     (r = Inl EEXIST \<longleftrightarrow> dir_names s sv name \<noteq> None) \<and>
     (r = Inl ENAMETOOLONG \<longleftrightarrow> dir_names s sv name = None \<and> SFS_NAMELEN \<le> length name) \<and>
     (case r of
        Inr slot \<Rightarrow> dmap es = (dir_names s sv)(name \<mapsto> ino)
      | Inl e \<Rightarrow> e \<in> {EEXIST, ENAMETOOLONG, ENOSPC, EFBIG} \<and> dmap es = dir_names s sv)"
proof -
  let ?es = "dir_entries s (sv_i sv)"
  define slot where "slot = (case empty_of ?es (length ?es) of None \<Rightarrow> length ?es | Some k \<Rightarrow> k)"
  define e where "e = \<lparr>sfd_ino = ino, sfd_name = name @ replicate (SFS_NAMELEN - length name) 0\<rparr>"
  note sl = link_slot [OF ok, folded slot_def]
  from sfs_dir_findname_lookup [OF ok, of name] obtain s1 k where
    f: "sfs_dir_findname s sv name =
      Some (case dir_names s sv name of None \<Rightarrow> Inl ENOENT | Some ino \<Rightarrow> Inr (ino, k),
            empty_of ?es (length ?es), s1, sv)" and q: "quiet s s1" by blast
  have old: "dmap ?es = dir_names s sv" by (simp add: dir_names_def)
  note same = dir_changed_nothing [OF ok q]
  show ?thesis
  proof (cases "dir_names s sv name")
    case (Some ino')
    with f same dir_okD(5) [OF ok] old show ?thesis by (auto simp: sfs_dir_link_def)
  next
    case None
    show ?thesis
    proof (cases "SFS_NAMELEN \<le> length name")
      case True
      with f None same dir_okD(5) [OF ok] old show ?thesis by (auto simp: sfs_dir_link_def)
    next
      case False
      then have short: "length name < SFS_NAMELEN" by simp
      note e = new_entry [OF short name ino, folded e_def]
      have run: "sfs_dir_link s sv name ino =
          sfs_writedir s1 sv e slot \<bind> (\<lambda>(r, s2, sv2). case r of Inl e' \<Rightarrow> Some (Inl e', s2, sv2) | Inr _ \<Rightarrow> Some (Inr slot, s2, sv2))"
        using f None False sl(3) by (simp add: sfs_dir_link_def e_def Let_def)
      from sl(4) show ?thesis
      proof
        assume fit: "(slot + 1) * SFS_DIRSIZE \<le> SFS_MAXFILE"
        note ok1 = dir_okD [OF quiet_dir_ok [OF ok q]]
        have es1: "dir_entries s1 (sv_i sv) = ?es" by (rule quiet_dir_entries [OF q])
        from sfs_writedir_entry [OF ok1(2,3,4), unfolded es1, OF sl(1) fit e(1)] obtain r s2 sv2 where
          w: "sfs_writedir s1 sv e slot = Some (r, s2, sv2)"
            "r = Inl ENOSPC \<and> dir_changed s1 sv ?es s2 sv2 \<or> r = Inr () \<and> dir_changed s1 sv (put_slot ?es slot e) s2 sv2"
          by blast
        have new: "dmap ?es (ent_name e) = None" using None old e(3) by simp
        note p = put_entry_map [OF dir_okD(5) [OF ok] sl(1,2) e(2) new]
        from w(2) show ?thesis
        proof
          assume "r = Inl ENOSPC \<and> dir_changed s1 sv ?es s2 sv2"
          then have "dir_changed s sv ?es s2 sv2" "r = Inl ENOSPC" using dir_changed_quiet [OF q] by blast+
          with w(1) run dir_okD(5) [OF ok] old None False show ?thesis
            by (intro exI [of _ "Inl ENOSPC"] exI [of _ s2] exI [of _ sv2] exI [of _ ?es]) simp
        next
          assume "r = Inr () \<and> dir_changed s1 sv (put_slot ?es slot e) s2 sv2"
          then have "dir_changed s sv (put_slot ?es slot e) s2 sv2" "r = Inr ()" using dir_changed_quiet [OF q] by blast+
          with w(1) run p old e(3,4) None False show ?thesis
            by (intro exI [of _ "Inr slot"] exI [of _ s2] exI [of _ sv2] exI [of _ "put_slot ?es slot e"]) simp
        qed
      next
        assume "slot * SFS_DIRSIZE = SFS_MAXFILE \<and> sfi_size (sv_i sv) = SFS_MAXFILE"
        with sfs_writedir_full [OF dir_okD(4) [OF ok] _ _ e(1), of slot s1] run same dir_okD(5) [OF ok] old None False
        show ?thesis by auto
      qed
    qed
  qed
qed

lemma sfs_dir_unlink_changes:
  assumes ok: "dir_ok s sv" and k: "k < length (dir_entries s (sv_i sv))" and live: "ent_live (dir_entries s (sv_i sv) ! k)"
  shows "\<exists>r s' sv' es. sfs_dir_unlink s sv k = Some (r, s', sv') \<and> dir_changed s sv es s' sv' \<and> names_distinct es \<and>
     (r = Inl ENOSPC \<and> dmap es = dir_names s sv \<or>
      r = Inr () \<and> dmap es = (dir_names s sv)(ent_name (dir_entries s (sv_i sv) ! k) := None))"
proof -
  let ?es = "dir_entries s (sv_i sv)"
  let ?e = "\<lparr>sfd_ino = SFS_NOINO, sfd_name = replicate SFS_NAMELEN 0\<rparr> :: sfs_dir"
  have e: "dir_wf ?e" "\<not> ent_live ?e" by (simp_all add: dir_wf_def SFS_NOINO_def ent_live_def)
  have sh: "sfi_size (sv_i sv) mod SFS_DIRSIZE = 0" "sfi_size (sv_i sv) \<le> SFS_MAXFILE"
    using dir_okD(4) [OF ok] by (simp_all add: dir_shape_def)
  have fit: "(k + 1) * SFS_DIRSIZE \<le> SFS_MAXFILE" using dir_slot_bound [OF sh(1) _ sh(2)] k by simp
  from sfs_writedir_entry [OF dir_okD(2,3,4) [OF ok] _ fit e(1)] k obtain r s' sv' where
    w: "sfs_writedir s sv ?e k = Some (r, s', sv')"
      "r = Inl ENOSPC \<and> dir_changed s sv ?es s' sv' \<or> r = Inr () \<and> dir_changed s sv (?es[k := ?e]) s' sv'"
    by (auto simp: put_slot_def)
  have old: "dmap ?es = dir_names s sv" by (simp add: dir_names_def)
  from w(2) show ?thesis
  proof
    assume "r = Inl ENOSPC \<and> dir_changed s sv ?es s' sv'"
    with w(1) old dir_okD(5) [OF ok] show ?thesis by (auto simp: sfs_dir_unlink_def)
  next
    assume "r = Inr () \<and> dir_changed s sv (?es[k := ?e]) s' sv'"
    with w(1) old kill_entry_map [OF dir_okD(5) [OF ok] k live e(2)] show ?thesis by (auto simp: sfs_dir_unlink_def)
  qed
qed

subsection \<open>Properties\<close>


text \<open>The empty root directory of the example volume.\<close>

definition dv_ex :: sfs_vnode where
  "dv_ex = \<lparr>sv_v = vnode_init sfs_dirops,
            sv_i = \<lparr>sfi_size = 0, sfi_type = SFS_TYPE_DIR, sfi_linkcount = 1,
                    sfi_direct = replicate 15 0, sfi_indirect = 0, sfi_waste = replicate 110 0\<rparr>,
            sv_ino = 1, sv_dirty = False\<rparr>"

lemma blk_dv_ex: "blk s (sv_i dv_ex) k = 0"
  by (simp add: blk_def dv_ex_def SFS_NDIRECT_def)

lemma dv_ex_ok: "dir_ok fs_ex dv_ex" and dv_ex_names: "dir_names fs_ex dv_ex = Map.empty"
proof -
  have none: "dir_entries fs_ex (sv_i dv_ex) = []" by (simp add: dir_entries_def dv_ex_def)
  have "inode_wf (sv_i dv_ex)" by (simp add: inode_wf_def dv_ex_def SFS_NDIRECT_def SFS_TYPE_DIR_def)
  moreover have "file_blocks fs_ex (sv_i dv_ex) = {}" using blk_dv_ex by (auto simp: file_blocks_def dv_ex_def)
  ultimately have "inode_ok fs_ex (sv_i dv_ex)" using blk_dv_ex by (simp add: inode_ok_def)
  then show "dir_ok fs_ex dv_ex"
    using fs_ex_ok none by (simp add: dir_ok_def names_distinct_def fs_small_def fs_ex_def dir_shape_def) (simp add: dv_ex_def)
  show "dir_names fs_ex dv_ex = Map.empty" using none by (simp add: dir_names_def dmap_def slot_of_def fun_eq_iff)
qed



text \<open>A directory with one entry, in block 3 of the example volume.\<close>

definition ent_ex :: sfs_dir where
  "ent_ex = \<lparr>sfd_ino = 5, sfd_name = [97, 98] @ replicate (SFS_NAMELEN - length [97 :: u8, 98]) 0\<rparr>"

definition fs_ex1 :: sfs_fs where
  "fs_ex1 = fs_ex\<lparr>fs_dev := (fs_dev fs_ex)\<lparr>lh_disk := (\<lambda>b. zeros)(3 := encode_dir ent_ex @ replicate 448 0)\<rparr>\<rparr>"

definition dv_ex1 :: sfs_vnode where
  "dv_ex1 = sv_ex\<lparr>sv_i := (sv_i sv_ex)\<lparr>sfi_type := SFS_TYPE_DIR, sfi_size := 64\<rparr>\<rparr>"

lemma ent_ex_facts: "dir_wf ent_ex" "ent_live ent_ex" "ent_name ent_ex = [97, 98]" "sfd_ino ent_ex = 5"
  using new_entry [of "[97, 98]" 5] by (simp_all add: ent_ex_def SFS_NAMELEN_def SFS_NOINO_def)

lemma dv_ex1_entries: "dir_entries fs_ex1 (sv_i dv_ex1) = [ent_ex]"
proof -
  note len = length_encode_dir [OF ent_ex_facts(1)]
  have "fbyte fs_ex1 (sv_i dv_ex1) j = encode_dir ent_ex ! j" if "j < SFS_DIRSIZE" for j
    using that len by (simp add: fbyte_def blk_def dv_ex1_def fs_ex1_def sv_ex_def SFS_DIRSIZE_def SFS_BLOCKSIZE_def SFS_NDIRECT_def nth_append)
  then have "map (fbyte fs_ex1 (sv_i dv_ex1)) [0..<SFS_DIRSIZE] = encode_dir ent_ex"
    using len by (intro nth_equalityI) simp_all
  then have "dirent fs_ex1 (sv_i dv_ex1) 0 = ent_ex" by (simp add: dirent_def decode_encode_dir [OF ent_ex_facts(1)])
  moreover have "sfi_size (sv_i dv_ex1) div SFS_DIRSIZE = 1" by (simp add: dv_ex1_def SFS_DIRSIZE_def)
  ultimately show ?thesis by (simp add: dir_entries_def)
qed

lemma dv_ex1_ok: "dir_ok fs_ex1 dv_ex1"
proof -
  have blk: "blk fs_ex1 (sv_i dv_ex1) = blk fs_ex (sv_i sv_ex)"
    by (intro ext) (simp add: blk_def dv_ex1_def sv_ex_def)
  have "file_blocks fs_ex1 (sv_i dv_ex1) = file_blocks fs_ex (sv_i sv_ex)"
    unfolding file_blocks_def blk by (simp add: dv_ex1_def)
  then have "inode_ok fs_ex1 (sv_i dv_ex1)"
    using sv_ex_ok blk by (simp add: inode_ok_def fs_used_def fs_ex1_def dv_ex1_def inode_wf_def SFS_TYPE_DIR_def)
  moreover have "lhd_ok (fs_dev fs_ex1)"
    using fs_ex_ok length_encode_dir [OF ent_ex_facts(1)]
    by (simp add: fs_ok_def lhd_ok_def lhd_wf_def fs_ex1_def SFS_DIRSIZE_def LHD_SECTSIZE_def fs_ex_def SFS_BLOCKSIZE_def)
  then have "fs_ok fs_ex1" using fs_ex_ok by (simp add: fs_ok_def fs_ex1_def fs_used_def)
  ultimately show ?thesis
    using dv_ex1_entries by (simp add: dir_ok_def names_distinct_def fs_small_def dir_shape_def)
      (simp add: dv_ex1_def fs_ex1_def fs_ex_def SFS_DIRSIZE_def SFS_MAXFILE_def SFS_MAXBLOCKS_def SFS_NDIRECT_def SFS_BLOCKSIZE_def)
qed


end
