(* ===== verification/Sfs_Vnode.thy ===== *)
theory Sfs_Vnode
  imports Sfs_Dir
begin

section \<open>SFS vnode operations: \<open>kern/fs/sfs/sfs_vnode.c\<close>, fourth part\<close>

text \<open>
  Loading inodes into vnodes and releasing them, the operations on names, and the two tables
  of operations. A vnode is named by its pointer \<open>p\<close>; \<open>fs_vn\<close> maps pointers to the vnodes in
  memory and a released pointer is no longer mapped. The arguments \<open>mv\<close> and \<open>ma\<close> are the
  outcomes of the allocation of a vnode and of the growth of the vnode table. An operation holds
  \<open>vfs_biglock\<close> from start to end, so it is one step.
\<close>

unbundle bit_operations_syntax

subsection \<open>The code\<close>

definition put_vn :: "sfs_fs \<Rightarrow> nat \<Rightarrow> sfs_vnode \<Rightarrow> sfs_fs" where
  "put_vn s p sv = s\<lparr>fs_vn := (fs_vn s)(p \<mapsto> sv)\<rparr>"

definition sfs_getv :: "sfs_fs \<Rightarrow> nat \<Rightarrow> sfs_ops vnode option" where
  "sfs_getv s p = map_option sv_v (fs_vn s p)"

definition sfs_putv :: "sfs_fs \<Rightarrow> nat \<Rightarrow> sfs_ops vnode \<Rightarrow> sfs_fs" where
  "sfs_putv s p v = s\<lparr>fs_vn := (fs_vn s)(p := map_option (sv_v_update (\<lambda>_. v)) (fs_vn s p))\<rparr>"

text \<open>The search of \<open>sfs_loadvnode\<close> for a vnode that is already in memory.\<close>

function sfs_search :: "sfs_fs \<Rightarrow> nat \<Rightarrow> nat \<Rightarrow> nat option option" where
  "sfs_search s ino i =
     (if i < array_num (fs_vnodes s) then
        do {
          p \<leftarrow> array_get (fs_vnodes s) i;
          sv \<leftarrow> fs_vn s p;
          used \<leftarrow> sfs_bused s (sv_ino sv);
          (if \<not> used then panic
           else if sv_ino sv = ino then Some (Some p)
           else sfs_search s ino (i + 1))
        }
      else Some None)"
  by pat_completeness auto
termination by (relation "measure (\<lambda>(s, ino, i). array_num (fs_vnodes s) - i)") auto

declare sfs_search.simps [simp del]

definition sfs_loadvnode ::
  "nat option \<Rightarrow> nat kmem \<Rightarrow> sfs_fs \<Rightarrow> nat \<Rightarrow> nat \<Rightarrow> (nat kresult \<times> sfs_fs) option" where
  "sfs_loadvnode mv ma s ino forcetype = do {
     found \<leftarrow> sfs_search s ino 0;
     (case found of
        Some p \<Rightarrow>
          do {
            kassert (forcetype = SFS_TYPE_INVAL);
            sv \<leftarrow> fs_vn s p;
            Some (Inr p, put_vn s p (sv\<lparr>sv_v := vnode_incref (sv_v sv)\<rparr>))
          }
      | None \<Rightarrow>
          (case mv of
             None \<Rightarrow> Some (Inl ENOMEM, s)
           | Some p \<Rightarrow>
               do {
                 used \<leftarrow> sfs_bused s ino;
                 (if \<not> used then panic
                  else do {
                    (result, buf, s1) \<leftarrow> fs_rblock s zeros ino;
                    (case result of
                       Inl e \<Rightarrow> Some (Inl e, s1)
                     | Inr _ \<Rightarrow>
                         do {
                           let i = decode_inode buf;
                           (i', dirty) \<leftarrow>
                             (if forcetype \<noteq> SFS_TYPE_INVAL
                              then do {
                                kassert (sfi_type i = SFS_TYPE_INVAL);
                                Some (i\<lparr>sfi_type := forcetype\<rparr>, True)
                              }
                              else Some (i, False));
                           ops \<leftarrow> (if sfi_type i' = SFS_TYPE_FILE then Some sfs_fileops
                                  else if sfi_type i' = SFS_TYPE_DIR then Some sfs_dirops
                                  else panic);
                           let sv = \<lparr>sv_v = vnode_init ops, sv_i = i', sv_ino = ino, sv_dirty = dirty\<rparr>;
                           (result2, arr) \<leftarrow> array_add ma (fs_vnodes s1) p;
                           (case result2 of
                              Inl e \<Rightarrow> do { vnode_cleanup (sv_v sv); Some (Inl e, s1\<lparr>fs_vnodes := arr\<rparr>) }
                            | Inr _ \<Rightarrow> Some (Inr p, put_vn (s1\<lparr>fs_vnodes := arr\<rparr>) p sv))
                         })
                  })
               }))
   }"

definition sfs_getroot :: "nat option \<Rightarrow> nat kmem \<Rightarrow> sfs_fs \<Rightarrow> (nat \<times> sfs_fs) option" where
  "sfs_getroot mv ma s = do {
     (result, s') \<leftarrow> sfs_loadvnode mv ma s SFS_ROOT_LOCATION SFS_TYPE_INVAL;
     (case result of Inl _ \<Rightarrow> panic | Inr p \<Rightarrow> Some (p, s'))
   }"

definition sfs_lookonce ::
  "nat option \<Rightarrow> nat kmem \<Rightarrow> sfs_fs \<Rightarrow> nat \<Rightarrow> u8 list \<Rightarrow> ((nat \<times> nat) kresult \<times> sfs_fs) option" where
  "sfs_lookonce mv ma s dp name = do {
     dv \<leftarrow> fs_vn s dp;
     (result, _, s1, dv1) \<leftarrow> sfs_dir_findname s dv name;
     let s2 = put_vn s1 dp dv1;
     (case result of
        Inl e \<Rightarrow> Some (Inl e, s2)
      | Inr (ino, slot) \<Rightarrow>
          do {
            (result2, s3) \<leftarrow> sfs_loadvnode mv ma s2 ino SFS_TYPE_INVAL;
            (case result2 of
               Inl e \<Rightarrow> Some (Inl e, s3)
             | Inr p \<Rightarrow>
                 do {
                   sv \<leftarrow> fs_vn s3 p;
                   (if sfi_linkcount (sv_i sv) = 0 then panic else Some (Inr (p, slot), s3))
                 })
          })
   }"

definition sfs_makeobj ::
  "nat option \<Rightarrow> nat kmem \<Rightarrow> sfs_fs \<Rightarrow> nat \<Rightarrow> (nat kresult \<times> sfs_fs) option" where
  "sfs_makeobj mv ma s type = do {
     (result, s1) \<leftarrow> sfs_balloc s;
     (case result of
        Inl e \<Rightarrow> Some (Inl e, s1)
      | Inr ino \<Rightarrow> sfs_loadvnode mv ma s1 ino type)
   }"

text \<open>Operations of one table or of both; the \<open>openflags\<close> are a word of flags.\<close>

definition O_RDONLY :: u32 where "O_RDONLY = 0"
definition O_WRONLY :: u32 where "O_WRONLY = 1"
definition O_RDWR :: u32 where "O_RDWR = 2"
definition O_CREAT :: u32 where "O_CREAT = 4"
definition O_EXCL :: u32 where "O_EXCL = 8"
definition O_TRUNC :: u32 where "O_TRUNC = 16"
definition O_APPEND :: u32 where "O_APPEND = 32"
definition O_ACCMODE :: u32 where "O_ACCMODE = 3"

definition sfs_open :: "u32 \<Rightarrow> unit kresult" where
  "sfs_open openflags = (if openflags AND O_APPEND \<noteq> 0 then Inl EUNIMP else Inr ())"

definition sfs_opendir :: "u32 \<Rightarrow> unit kresult" where
  "sfs_opendir openflags =
     (if openflags AND O_ACCMODE \<noteq> O_RDONLY then Inl EISDIR
      else if openflags AND O_APPEND \<noteq> 0 then Inl EISDIR
      else Inr ())"

definition sfs_fsync :: "sfs_fs \<Rightarrow> nat \<Rightarrow> (unit kresult \<times> sfs_fs) option" where
  "sfs_fsync s p = do {
     sv \<leftarrow> fs_vn s p;
     (result, s', sv') \<leftarrow> sfs_sync_inode s sv;
     Some (result, put_vn s' p sv')
   }"

text \<open>\<open>VOP_FSYNC\<close>; both tables have \<open>sfs_fsync\<close>.\<close>

definition vop_fsync :: "sfs_fs \<Rightarrow> nat \<Rightarrow> (unit kresult \<times> sfs_fs) option" where
  "vop_fsync s p = do {
     v \<leftarrow> sfs_getv s p;
     vnode_check v ''fsync'';
     sfs_fsync s p
   }"

definition sfs_close :: "sfs_fs \<Rightarrow> nat \<Rightarrow> (unit kresult \<times> sfs_fs) option" where
  "sfs_close s p = vop_fsync s p"

definition sfs_read :: "sfs_fs \<Rightarrow> nat \<Rightarrow> uio \<Rightarrow> (unit kresult \<times> sfs_fs \<times> uio) option" where
  "sfs_read s p u = do {
     sv \<leftarrow> fs_vn s p;
     kassert (uio_rw u = UIO_READ);
     (result, s', sv', u') \<leftarrow> sfs_io s sv u;
     Some (result, put_vn s' p sv', u')
   }"

definition sfs_write :: "sfs_fs \<Rightarrow> nat \<Rightarrow> uio \<Rightarrow> (unit kresult \<times> sfs_fs \<times> uio) option" where
  "sfs_write s p u = do {
     sv \<leftarrow> fs_vn s p;
     kassert (uio_rw u = UIO_WRITE);
     (result, s', sv', u') \<leftarrow> sfs_io s sv u;
     Some (result, put_vn s' p sv', u')
   }"

definition sfs_ioctl :: "unit kresult" where "sfs_ioctl = Inl EINVAL"

definition S_IFREG :: nat where "S_IFREG = 0x1000"
definition S_IFDIR :: nat where "S_IFDIR = 0x2000"

definition sfs_gettype :: "sfs_fs \<Rightarrow> nat \<Rightarrow> nat kresult option" where
  "sfs_gettype s p = do {
     sv \<leftarrow> fs_vn s p;
     (if sfi_type (sv_i sv) = SFS_TYPE_FILE then Some (Inr S_IFREG)
      else if sfi_type (sv_i sv) = SFS_TYPE_DIR then Some (Inr S_IFDIR)
      else panic)
   }"

text \<open>The fields of \<open>struct stat\<close> that \<open>sfs_stat\<close> sets; the others are zero.\<close>

record stat =
  st_mode :: nat
  st_size :: nat
  st_nlink :: nat
  st_blocks :: nat

definition sfs_stat :: "sfs_fs \<Rightarrow> nat \<Rightarrow> stat kresult option" where
  "sfs_stat s p = do {
     sv \<leftarrow> fs_vn s p;
     vnode_check (sv_v sv) ''gettype'';
     result \<leftarrow> sfs_gettype s p;
     (case result of
        Inl e \<Rightarrow> Some (Inl e)
      | Inr mode \<Rightarrow>
          Some (Inr \<lparr>st_mode = mode, st_size = sfi_size (sv_i sv), st_nlink = 0, st_blocks = 0\<rparr>))
   }"

definition sfs_tryseek :: "int \<Rightarrow> unit kresult" where
  "sfs_tryseek pos = (if pos < 0 then Inl EINVAL else Inr ())"

definition sfs_mmap :: "unit kresult" where "sfs_mmap = Inl EUNIMP"

definition sfs_namefile :: "sfs_fs \<Rightarrow> nat \<Rightarrow> uio \<Rightarrow> (unit kresult \<times> uio) option" where
  "sfs_namefile s p u = do {
     sv \<leftarrow> fs_vn s p;
     kassert (sv_ino sv = SFS_ROOT_LOCATION);
     Some (Inr (), u)
   }"

text \<open>\<open>VOP_TRUNCATE\<close>: the directory table has \<open>ISDIR\<close>.\<close>

definition vop_truncate ::
  "sfs_fs \<Rightarrow> sfs_vnode \<Rightarrow> nat \<Rightarrow> (unit kresult \<times> sfs_fs \<times> sfs_vnode) option" where
  "vop_truncate s sv len = do {
     vnode_check (sv_v sv) ''truncate'';
     ops \<leftarrow> vn_ops (sv_v sv);
     (case ops of
        sfs_fileops \<Rightarrow> sfs_truncate s sv len
      | sfs_dirops \<Rightarrow> Some (Inl EISDIR, s, sv))
   }"

definition sfs_reclaim :: "sfs_fs \<Rightarrow> nat \<Rightarrow> (unit kresult \<times> sfs_fs) option" where
  "sfs_reclaim s p = do {
     sv \<leftarrow> fs_vn s p;
     (if vn_refcount (sv_v sv) \<noteq> 1 then
        do {
          kassert (vn_refcount (sv_v sv) > 1);
          Some (Inl EBUSY,
                put_vn s p (sv\<lparr>sv_v := (sv_v sv)\<lparr>vn_refcount := vn_refcount (sv_v sv) - 1\<rparr>\<rparr>))
        }
      else do {
        (result, s1, sv1) \<leftarrow>
          (if sfi_linkcount (sv_i sv) = 0 then vop_truncate s sv 0 else Some (Inr (), s, sv));
        (case result of
           Inl e \<Rightarrow> Some (Inl e, put_vn s1 p sv1)
         | Inr _ \<Rightarrow>
             do {
               (result2, s2, sv2) \<leftarrow> sfs_sync_inode s1 sv1;
               (case result2 of
                  Inl e \<Rightarrow> Some (Inl e, put_vn s2 p sv2)
                | Inr _ \<Rightarrow>
                    do {
                      s3 \<leftarrow> (if sfi_linkcount (sv_i sv2) = 0 then sfs_bfree s2 (sv_ino sv2) else Some s2);
                      found \<leftarrow> find_from array_get (fs_vnodes s3) p (array_num (fs_vnodes s3)) 0;
                      (case found of
                         None \<Rightarrow> panic
                       | Some ix \<Rightarrow>
                           do {
                             arr \<leftarrow> array_remove (fs_vnodes s3) ix;
                             vnode_cleanup (sv_v sv2);
                             Some (Inr (), s3\<lparr>fs_vnodes := arr, fs_vn := (fs_vn s3)(p := None)\<rparr>)
                           })
                    })
             })
      })
   }"

text \<open>\<open>VOP_DECREF\<close> on an SFS vnode; both tables have \<open>sfs_reclaim\<close>.\<close>

definition sfs_decref :: "sfs_fs \<Rightarrow> nat \<Rightarrow> sfs_fs option" where
  "sfs_decref s p = vnode_decref sfs_getv sfs_putv sfs_reclaim s p"

definition sfs_creat ::
  "nat option \<Rightarrow> nat kmem \<Rightarrow> sfs_fs \<Rightarrow> nat \<Rightarrow> u8 list \<Rightarrow> bool \<Rightarrow> (nat kresult \<times> sfs_fs) option" where
  "sfs_creat mv ma s dp name excl = do {
     dv \<leftarrow> fs_vn s dp;
     (result, _, s1, dv1) \<leftarrow> sfs_dir_findname s dv name;
     let s2 = put_vn s1 dp dv1;
     (case result of
        Inr (ino, slot) \<Rightarrow>
          if excl then Some (Inl EEXIST, s2) else sfs_loadvnode mv ma s2 ino SFS_TYPE_INVAL
      | Inl e \<Rightarrow>
          if e \<noteq> ENOENT then Some (Inl e, s2)
          else do {
            (result2, s3) \<leftarrow> sfs_makeobj mv ma s2 SFS_TYPE_FILE;
            (case result2 of
               Inl e2 \<Rightarrow> Some (Inl e2, s3)
             | Inr p \<Rightarrow>
                 do {
                   dv3 \<leftarrow> fs_vn s3 dp;
                   newguy \<leftarrow> fs_vn s3 p;
                   (result3, s4, dv4) \<leftarrow> sfs_dir_link s3 dv3 name (sv_ino newguy);
                   let s5 = put_vn s4 dp dv4;
                   (case result3 of
                      Inl e3 \<Rightarrow> do { s6 \<leftarrow> sfs_decref s5 p; Some (Inl e3, s6) }
                    | Inr _ \<Rightarrow>
                        do {
                          newguy' \<leftarrow> fs_vn s5 p;
                          Some (Inr p, put_vn s5 p (newguy'\<lparr>
                            sv_i := (sv_i newguy')\<lparr>sfi_linkcount := (sfi_linkcount (sv_i newguy') + 1) mod 2 ^ 16\<rparr>,
                            sv_dirty := True\<rparr>))
                        })
                 })
          })
   }"

definition sfs_link :: "sfs_fs \<Rightarrow> nat \<Rightarrow> u8 list \<Rightarrow> nat \<Rightarrow> (unit kresult \<times> sfs_fs) option" where
  "sfs_link s dp name fp = do {
     dv \<leftarrow> fs_vn s dp;
     f \<leftarrow> fs_vn s fp;
     (result, s1, dv1) \<leftarrow> sfs_dir_link s dv name (sv_ino f);
     let s2 = put_vn s1 dp dv1;
     (case result of
        Inl e \<Rightarrow> Some (Inl e, s2)
      | Inr _ \<Rightarrow>
          do {
            f' \<leftarrow> fs_vn s2 fp;
            Some (Inr (), put_vn s2 fp (f'\<lparr>
              sv_i := (sv_i f')\<lparr>sfi_linkcount := (sfi_linkcount (sv_i f') + 1) mod 2 ^ 16\<rparr>, sv_dirty := True\<rparr>))
          })
   }"

definition sfs_remove ::
  "nat option \<Rightarrow> nat kmem \<Rightarrow> sfs_fs \<Rightarrow> nat \<Rightarrow> u8 list \<Rightarrow> (unit kresult \<times> sfs_fs) option" where
  "sfs_remove mv ma s dp name = do {
     (result, s1) \<leftarrow> sfs_lookonce mv ma s dp name;
     (case result of
        Inl e \<Rightarrow> Some (Inl e, s1)
      | Inr (vp, slot) \<Rightarrow>
          do {
            dv \<leftarrow> fs_vn s1 dp;
            (result2, s2, dv2) \<leftarrow> sfs_dir_unlink s1 dv slot;
            let s3 = put_vn s2 dp dv2;
            s4 \<leftarrow> (case result2 of
                     Inl _ \<Rightarrow> Some s3
                   | Inr _ \<Rightarrow>
                       do {
                         victim \<leftarrow> fs_vn s3 vp;
                         kassert (sfi_linkcount (sv_i victim) > 0);
                         Some (put_vn s3 vp (victim\<lparr>
                           sv_i := (sv_i victim)\<lparr>sfi_linkcount := sfi_linkcount (sv_i victim) - 1\<rparr>,
                           sv_dirty := True\<rparr>))
                       });
            s5 \<leftarrow> sfs_decref s4 vp;
            Some (result2, s5)
          })
   }"

text \<open>A change of the link count of a vnode in memory.\<close>

definition set_links :: "sfs_fs \<Rightarrow> nat \<Rightarrow> sfs_vnode \<Rightarrow> nat \<Rightarrow> bool \<Rightarrow> sfs_fs" where
  "set_links s p sv n dirty =
     put_vn s p (sv\<lparr>sv_i := (sv_i sv)\<lparr>sfi_linkcount := n mod 2 ^ 16\<rparr>, sv_dirty := dirty\<rparr>)"

text \<open>\<open>sfs_rename\<close> from the link under the new name on; both names are in directory \<open>dp\<close>.\<close>

definition sfs_rename_to ::
  "sfs_fs \<Rightarrow> nat \<Rightarrow> nat \<Rightarrow> nat \<Rightarrow> u8 list \<Rightarrow> (unit kresult \<times> sfs_fs) option" where
  "sfs_rename_to s dp g1 slot1 n2 = do {
     dv \<leftarrow> fs_vn s dp;
     g \<leftarrow> fs_vn s g1;
     (result, s1, dv1) \<leftarrow> sfs_dir_link s dv n2 (sv_ino g);
     let s2 = put_vn s1 dp dv1;
     (case result of
        Inl e \<Rightarrow> do { s3 \<leftarrow> sfs_decref s2 g1; Some (Inl e, s3) }
      | Inr slot2 \<Rightarrow>
          do {
            g' \<leftarrow> fs_vn s2 g1;
            let s3 = set_links s2 g1 g' (sfi_linkcount (sv_i g') + 1) True;
            dv3 \<leftarrow> fs_vn s3 dp;
            (result2, s4, dv4) \<leftarrow> sfs_dir_unlink s3 dv3 slot1;
            let s5 = put_vn s4 dp dv4;
            g5 \<leftarrow> fs_vn s5 g1;
            (case result2 of
               Inr _ \<Rightarrow>
                 do {
                   kassert (sfi_linkcount (sv_i g5) > 0);
                   s6 \<leftarrow> sfs_decref (set_links s5 g1 g5 (sfi_linkcount (sv_i g5) - 1) True) g1;
                   Some (Inr (), s6)
                 }
             | Inl e \<Rightarrow>
                 do {
                   dv5 \<leftarrow> fs_vn s5 dp;
                   (result3, s6, dv6) \<leftarrow> sfs_dir_unlink s5 dv5 slot2;
                   (case result3 of
                      Inl _ \<Rightarrow> panic
                    | Inr _ \<Rightarrow>
                        do {
                          let s7 = put_vn s6 dp dv6;
                          g7 \<leftarrow> fs_vn s7 g1;
                          s8 \<leftarrow> sfs_decref (set_links s7 g1 g7 (sfi_linkcount (sv_i g7) + 2 ^ 16 - 1) (sv_dirty g7)) g1;
                          Some (Inl e, s8)
                        })
                 })
          })
   }"

definition sfs_rename ::
  "nat option \<Rightarrow> nat kmem \<Rightarrow> sfs_fs \<Rightarrow> nat \<Rightarrow> u8 list \<Rightarrow> nat \<Rightarrow> u8 list \<Rightarrow> (unit kresult \<times> sfs_fs) option" where
  "sfs_rename mv ma s d1 n1 d2 n2 = do {
     kassert (d1 = d2);
     dv \<leftarrow> fs_vn s d1;
     kassert (sv_ino dv = SFS_ROOT_LOCATION);
     (result, s1) \<leftarrow> sfs_lookonce mv ma s d1 n1;
     (case result of
        Inl e \<Rightarrow> Some (Inl e, s1)
      | Inr (g1, slot1) \<Rightarrow>
          do {
            g \<leftarrow> fs_vn s1 g1;
            kassert (sfi_type (sv_i g) = SFS_TYPE_FILE);
            sfs_rename_to s1 d1 g1 slot1 n2
          })
   }"

definition sfs_lookparent ::
  "sfs_fs \<Rightarrow> nat \<Rightarrow> u8 list \<Rightarrow> nat \<Rightarrow> ((nat \<times> u8 list) kresult \<times> sfs_fs) option" where
  "sfs_lookparent s p path buflen = do {
     sv \<leftarrow> fs_vn s p;
     (if sfi_type (sv_i sv) \<noteq> SFS_TYPE_DIR then Some (Inl ENOTDIR, s)
      else if length path + 1 > buflen then Some (Inl ENAMETOOLONG, s)
      else Some (Inr (p, path), put_vn s p (sv\<lparr>sv_v := vnode_incref (sv_v sv)\<rparr>)))
   }"

definition sfs_lookup ::
  "nat option \<Rightarrow> nat kmem \<Rightarrow> sfs_fs \<Rightarrow> nat \<Rightarrow> u8 list \<Rightarrow> (nat kresult \<times> sfs_fs) option" where
  "sfs_lookup mv ma s p path = do {
     sv \<leftarrow> fs_vn s p;
     (if sfi_type (sv_i sv) \<noteq> SFS_TYPE_DIR then Some (Inl ENOTDIR, s)
      else do {
        (result, s') \<leftarrow> sfs_lookonce mv ma s p path;
        (case result of Inl e \<Rightarrow> Some (Inl e, s') | Inr (final, slot) \<Rightarrow> Some (Inr final, s'))
      })
   }"

subsection \<open>The vnodes in memory\<close>

interpretation sv: vnode_store sfs_getv sfs_putv
  by unfold_locales (auto simp: sfs_getv_def sfs_putv_def fun_upd_idem option.map_comp o_def)

text \<open>
  The table of vnodes lists exactly the vnodes in memory, each once; each has counts in range
  and the operations that go with its type, and its inode is in a block in use. No block
  belongs to two files, and no inode is a block of a file.
\<close>

definition vn_blocks :: "sfs_fs \<Rightarrow> sfs_vnode \<Rightarrow> nat set" where
  "vn_blocks s sv = insert (sv_ino sv) (file_blocks s (sv_i sv))"

definition ops_match :: "sfs_vnode \<Rightarrow> bool" where
  "ops_match sv \<longleftrightarrow> vn_ops (sv_v sv) = Some sfs_fileops \<and> sfi_type (sv_i sv) = SFS_TYPE_FILE \<or>
     vn_ops (sv_v sv) = Some sfs_dirops \<and> sfi_type (sv_i sv) = SFS_TYPE_DIR"

definition vnode_ok :: "sfs_fs \<Rightarrow> sfs_vnode \<Rightarrow> bool" where
  "vnode_ok s sv \<longleftrightarrow> vnode_live (sv_v sv) \<and> ops_match sv \<and> inode_ok s (sv_i sv) \<and>
     sv_ino sv \<in> fs_used s \<and> sv_ino sv < fs_nblocks s \<and> sv_ino sv \<noteq> 0 \<and> sv_ino sv \<notin> file_blocks s (sv_i sv)"

definition fs_inv :: "sfs_fs \<Rightarrow> bool" where
  "fs_inv s \<longleftrightarrow> fs_small s \<and> array_inv (fs_vnodes s) \<and> distinct (array_elems (fs_vnodes s)) \<and>
     dom (fs_vn s) = set (array_elems (fs_vnodes s)) \<and>
     (\<forall>p sv. fs_vn s p = Some sv \<longrightarrow> vnode_ok s sv) \<and>
     (\<forall>p q sv sw. fs_vn s p = Some sv \<longrightarrow> fs_vn s q = Some sw \<longrightarrow> p \<noteq> q \<longrightarrow> vn_blocks s sv \<inter> vn_blocks s sw = {})"

lemma fs_invD:
  assumes "fs_inv s"
  shows "fs_small s" "fs_ok s" "array_inv (fs_vnodes s)" "distinct (array_elems (fs_vnodes s))"
    "dom (fs_vn s) = set (array_elems (fs_vnodes s))"
    "fs_vn s p = Some sv \<Longrightarrow> vnode_ok s sv"
    "fs_vn s p = Some sv \<Longrightarrow> fs_vn s q = Some sw \<Longrightarrow> p \<noteq> q \<Longrightarrow> vn_blocks s sv \<inter> vn_blocks s sw = {}"
  using assms by (simp_all add: fs_inv_def fs_small_def)

lemma vnode_okD:
  assumes "vnode_ok s sv"
  shows "vnode_live (sv_v sv)" "ops_match sv" "inode_ok s (sv_i sv)" "sv_ino sv \<in> fs_used s"
    "sv_ino sv < fs_nblocks s" "sv_ino sv \<noteq> 0" "sv_ino sv \<notin> file_blocks s (sv_i sv)"
    "file_blocks s (sv_i sv) \<subseteq> fs_used s" "vn_blocks s sv \<subseteq> fs_used s"
  using assms inode_okD(2) [of s "sv_i sv"] by (auto simp: vnode_ok_def vn_blocks_def)

text \<open>
  What an operation on one vnode may do to the volume: the blocks in use outside the vnode
  stay in use and keep their contents, and the file takes new blocks only from the free ones.
\<close>

definition file_step :: "sfs_fs \<Rightarrow> sfs_vnode \<Rightarrow> sfs_fs \<Rightarrow> sfs_vnode \<Rightarrow> bool" where
  "file_step s sv s' sv' \<longleftrightarrow> fs_ok s' \<and> fs_same s s' \<and> sv_meta sv sv' \<and> inode_ok s' (sv_i sv') \<and>
     fs_used s - file_blocks s (sv_i sv) \<subseteq> fs_used s' \<and>
     file_blocks s' (sv_i sv') \<inter> fs_used s \<subseteq> file_blocks s (sv_i sv) \<and>
     (\<forall>x \<in> fs_used s - vn_blocks s sv. fs_disk s' x = fs_disk s x)"

lemma file_stepD:
  assumes "file_step s sv s' sv'"
  shows "fs_ok s'" "fs_same s s'" "sv_meta sv sv'" "inode_ok s' (sv_i sv')"
    "fs_used s - file_blocks s (sv_i sv) \<subseteq> fs_used s'"
    "file_blocks s' (sv_i sv') \<inter> fs_used s \<subseteq> file_blocks s (sv_i sv)"
    "x \<in> fs_used s \<Longrightarrow> x \<notin> vn_blocks s sv \<Longrightarrow> fs_disk s' x = fs_disk s x"
  using assms by (simp_all add: file_step_def)

lemma file_step_trans:
  assumes "inode_ok s (sv_i sv)" and "file_step s sv s1 sv1" and "file_step s1 sv1 s2 sv2"
  shows "file_step s sv s2 sv2"
proof -
  note a = file_stepD [OF assms(2)] and b = file_stepD [OF assms(3)]
  have ino: "sv_ino sv1 = sv_ino sv" using a(3) by (simp add: sv_meta_def)
  have used1: "fs_used s - file_blocks s (sv_i sv) \<subseteq> fs_used s1 - file_blocks s1 (sv_i sv1)"
    using a(5,6) by blast
  then have "fs_used s - file_blocks s (sv_i sv) \<subseteq> fs_used s2" using b(5) by blast
  moreover have "file_blocks s2 (sv_i sv2) \<inter> fs_used s \<subseteq> file_blocks s (sv_i sv)"
    using used1 b(6) a(6) by blast
  moreover have "fs_disk s2 x = fs_disk s x" if "x \<in> fs_used s" "x \<notin> vn_blocks s sv" for x
  proof -
    have "x \<in> fs_used s1" "x \<notin> vn_blocks s1 sv1" using that used1 ino by (auto simp: vn_blocks_def)
    from b(7) [OF this] a(7) [OF that] show ?thesis by simp
  qed
  moreover have "sv_meta sv sv2" using a(3) b(3) by (simp add: sv_meta_def)
  moreover have "fs_same s s2" by (rule fs_same_trans [OF a(2) b(2)])
  ultimately show ?thesis using b(1,4) by (simp add: file_step_def)
qed

lemma file_step_quiet: "quiet s s' \<Longrightarrow> inode_ok s (sv_i sv) \<Longrightarrow> file_step s sv s' sv"
  using quiet_file_blocks [of s s'] quiet_used [of s s'] quiet_inode_ok [of s s']
  by (auto simp: file_step_def quiet_def [of s s'] sv_meta_def)

lemma file_step_wrote:
  assumes "wrote s sv off bs s' sv'"
  shows "file_step s sv s' (grow_size sv' z)"
  using wroteD [OF assms] grow_size_inode_ok [of s' sv' z]
  by (auto simp: file_step_def grow_size_simps vn_blocks_def)

lemma file_step_dir: "dir_changed s sv es s' sv' \<Longrightarrow> file_step s sv s' sv'"
  using dir_changedD [of s sv es s' sv'] by (auto simp: file_step_def vn_blocks_def)

lemma file_step_truncate:
  assumes "fs_ok s" and "inode_ok s (sv_i sv)" and "len < 2 ^ 32"
  shows "\<exists>s' sv'. sfs_truncate s sv len = Some (Inr (), s', sv') \<and> file_step s sv s' sv' \<and>
     sfi_size (sv_i sv') = len"
proof -
  from sfs_truncate_shrunk [OF assms] obtain s' sv' P where
    t: "sfs_truncate s sv len = Some (Inr (), s', sv')" "fs_ok s'" "fs_same s s'" "sv_meta sv sv'"
      "inode_ok s' (sv_i sv')" "sfi_size (sv_i sv') = len" "shrunk P s (sv_i sv) s' (sv_i sv')"
      "\<forall>x. x \<noteq> sfi_indirect (sv_i sv) \<or> x = 0 \<longrightarrow> fs_disk s' x = fs_disk s x" by blast
  have "fs_disk s' x = fs_disk s x" if "x \<notin> vn_blocks s sv" for x
    using that t(8) file_blocksI(1) [of "sv_i sv" s] unfolding vn_blocks_def by (metis insertCI)
  moreover have "fs_used s - file_blocks s (sv_i sv) \<subseteq> fs_used s'" using shrunkD(3) [OF t(7)] by blast
  ultimately show ?thesis
    using t(1-6) shrunk_file_blocks [OF t(7)] by (auto simp: file_step_def)
qed

lemma sync_inode_disk:
  assumes "fs_ok s" and "vnode_ok s sv" and "sfs_sync_inode s sv = Some (r, s', sv')" and "x \<noteq> sv_ino sv"
  shows "fs_disk s' x = fs_disk s x"
proof -
  note d = vnode_okD [OF assms(2)]
  from fs_wblock_ok [OF assms(1) d(5) length_encode_inode [OF inode_okD(1) [OF d(3)]]] assms(3,4) show ?thesis
    by (auto simp: sfs_sync_inode_def split: if_splits)
qed

lemma file_step_sync:
  assumes ok: "fs_ok s" and v: "vnode_ok s sv"
  shows "\<exists>s' sv'. sfs_sync_inode s sv = Some (Inr (), s', sv') \<and> file_step s sv s' sv' \<and>
     sv' = sv\<lparr>sv_dirty := False\<rparr> \<and> fs_freemap s' = fs_freemap s \<and>
     (sv_dirty sv \<longrightarrow> decode_inode (fs_disk s' (sv_ino sv)) = sv_i sv)"
proof (cases "sv_dirty sv")
  case True
  note d = vnode_okD [OF v]
  have wf: "inode_wf (sv_i sv)" by (rule inode_okD(1) [OF d(3)])
  from fs_wblock_ok [OF ok d(5) length_encode_inode [OF wf]] obtain s' where
    s': "fs_wblock s (encode_inode (sv_i sv)) (sv_ino sv) = Some (Inr (), s')" "fs_ok s'" "fs_same s s'"
      "fs_disk s' = (fs_disk s)(sv_ino sv := encode_inode (sv_i sv))" "fs_freemap s' = fs_freemap s" by blast
  have used: "fs_used s' = fs_used s" using s'(5) by (simp add: fs_used_def)
  have keep: "sfi_indirect (sv_i sv) \<noteq> 0 \<Longrightarrow> fs_disk s' (sfi_indirect (sv_i sv)) = fs_disk s (sfi_indirect (sv_i sv))"
    using d(7) file_blocksI(1) [of "sv_i sv" s] s'(4) by auto
  have io: "inode_ok s' (sv_i sv)"
    using used s'(3) keep by (intro inode_ok_cong [OF d(3)]) (simp_all add: fs_same_def)
  have "file_blocks s' (sv_i sv) = file_blocks s (sv_i sv)"
    using keep by (auto simp: file_blocks_def blk_def)
  with s' used io have "file_step s sv s' (sv\<lparr>sv_dirty := False\<rparr>)"
    by (auto simp: file_step_def sv_meta_def vn_blocks_def)
  with True s' decode_encode_inode [OF wf] show ?thesis by (simp add: sfs_sync_inode_def)
next
  case False
  then have "sv\<lparr>sv_dirty := False\<rparr> = sv" by simp
  moreover have "file_step s sv s sv"
    using file_step_quiet [OF quiet_refl [OF ok] vnode_okD(3) [OF v]] .
  ultimately show ?thesis using False by (simp add: sfs_sync_inode_def)
qed

subsection \<open>The invariant is kept\<close>

lemma put_vn_simps [simp]:
  "fs_vn (put_vn s p sv) = (fs_vn s)(p \<mapsto> sv)" "fs_vnodes (put_vn s p sv) = fs_vnodes s"
  "fs_dev (put_vn s p sv) = fs_dev s" "fs_super (put_vn s p sv) = fs_super s"
  "fs_freemap (put_vn s p sv) = fs_freemap s"
  by (simp_all add: put_vn_def)

text \<open>The predicates on the volume do not look at the vnodes in memory.\<close>

lemma vn_irrelevant [simp]:
  "fs_used (s\<lparr>fs_vn := m\<rparr>) = fs_used s" "fs_used (s\<lparr>fs_vnodes := a\<rparr>) = fs_used s"
  "blk (s\<lparr>fs_vn := m\<rparr>) = blk s" "blk (s\<lparr>fs_vnodes := a\<rparr>) = blk s"
  "file_blocks (s\<lparr>fs_vn := m\<rparr>) = file_blocks s" "file_blocks (s\<lparr>fs_vnodes := a\<rparr>) = file_blocks s"
  "vn_blocks (s\<lparr>fs_vn := m\<rparr>) = vn_blocks s" "vn_blocks (s\<lparr>fs_vnodes := a\<rparr>) = vn_blocks s"
  "inode_ok (s\<lparr>fs_vn := m\<rparr>) = inode_ok s" "inode_ok (s\<lparr>fs_vnodes := a\<rparr>) = inode_ok s"
  "fs_ok (s\<lparr>fs_vn := m\<rparr>) = fs_ok s" "fs_ok (s\<lparr>fs_vnodes := a\<rparr>) = fs_ok s"
  "fs_small (s\<lparr>fs_vn := m\<rparr>) = fs_small s" "fs_small (s\<lparr>fs_vnodes := a\<rparr>) = fs_small s"
  "vnode_ok (s\<lparr>fs_vn := m\<rparr>) = vnode_ok s" "vnode_ok (s\<lparr>fs_vnodes := a\<rparr>) = vnode_ok s"
  by (auto simp: fs_used_def blk_def file_blocks_def vn_blocks_def inode_ok_def fs_ok_def fs_small_def
      vnode_ok_def fun_eq_iff)

lemma file_step_other:
  assumes step: "file_step s sv s' sv'" and v: "vnode_ok s sv" and w: "vnode_ok s sw"
    and disj: "vn_blocks s sv \<inter> vn_blocks s sw = {}"
  shows "vnode_ok s' sw" and "vn_blocks s' sw = vn_blocks s sw"
proof -
  note st = file_stepD [OF step] and dw = vnode_okD [OF w]
  have same: "fs_disk s' x = fs_disk s x" "x \<in> fs_used s'" if "x \<in> vn_blocks s sw" for x
  proof -
    have "x \<in> fs_used s" "x \<notin> vn_blocks s sv" using that dw(9) disj by auto
    then show "fs_disk s' x = fs_disk s x" "x \<in> fs_used s'" using st(5,7) by (auto simp: vn_blocks_def)
  qed
  have ind: "sfi_indirect (sv_i sw) \<noteq> 0 \<Longrightarrow> fs_disk s' (sfi_indirect (sv_i sw)) = fs_disk s (sfi_indirect (sv_i sw))"
    using same(1) file_blocksI(1) [of "sv_i sw" s] by (simp add: vn_blocks_def)
  then have b: "blk s' (sv_i sw) = blk s (sv_i sw)" by (auto simp: fun_eq_iff blk_def)
  then have fb: "file_blocks s' (sv_i sw) = file_blocks s (sv_i sw)" by (simp add: file_blocks_def)
  then show "vn_blocks s' sw = vn_blocks s sw" by (simp add: vn_blocks_def)
  have nb: "fs_nblocks s' = fs_nblocks s" using st(2) by (simp add: fs_same_def)
  have "file_blocks s' (sv_i sw) \<subseteq> fs_used s'" using same(2) fb by (auto simp: vn_blocks_def)
  then have "inode_ok s' (sv_i sw)"
    using dw(3) inode_okD(3) [OF dw(3)] b fb nb unfolding inode_ok_def by auto
  moreover have "sv_ino sw \<in> fs_used s'" using same(2) by (simp add: vn_blocks_def)
  ultimately show "vnode_ok s' sw" using dw fb nb by (simp add: vnode_ok_def)
qed

lemma fs_inv_step:
  assumes inv: "fs_inv s" and p: "fs_vn s p = Some sv" and step: "file_step s sv s' sv'"
  shows "fs_inv (put_vn s' p sv')" and "vnode_ok s' sv'"
proof -
  note i = fs_invD [OF inv] and st = file_stepD [OF step]
  note v = i(6) [OF p] and dv = vnode_okD [OF i(6) [OF p]]
  have eq: "fs_vn s' = fs_vn s" "fs_vnodes s' = fs_vnodes s" "fs_nblocks s' = fs_nblocks s"
    using st(2) by (simp_all add: fs_same_def)
  have m: "sv_ino sv' = sv_ino sv" "sv_v sv' = sv_v sv" "sfi_type (sv_i sv') = sfi_type (sv_i sv)"
    using st(3) by (simp_all add: sv_meta_def)
  have "sv_ino sv \<in> fs_used s'" "sv_ino sv \<notin> file_blocks s' (sv_i sv')" using dv(4,7) st(5,6) by auto
  then show v': "vnode_ok s' sv'" using dv m eq st(4) by (simp add: vnode_ok_def ops_match_def)
  note other = file_step_other [OF step v]
  have dis: "vn_blocks s' sv' \<inter> vn_blocks s' sw = {}" if q: "fs_vn s q = Some sw" "q \<noteq> p" for q sw
  proof -
    have d: "vn_blocks s sv \<inter> vn_blocks s sw = {}" using i(7) [OF p q(1)] q(2) by auto
    have "vn_blocks s sw \<subseteq> fs_used s" by (rule vnode_okD(9) [OF i(6) [OF q(1)]])
    then have "vn_blocks s' sv' \<inter> vn_blocks s sw = {}" using st(6) m(1) d by (auto simp: vn_blocks_def)
    with other(2) [OF i(6) [OF q(1)] d] show ?thesis by simp
  qed
  have oks: "vnode_ok s' sw" if q: "fs_vn s q = Some sw" "q \<noteq> p" for q sw
    using other(1) [OF i(6) [OF q(1)]] i(7) [OF p q(1)] q(2) by auto
  have same: "vn_blocks s' sw \<inter> vn_blocks s' sx = {}"
    if "fs_vn s q = Some sw" "fs_vn s r = Some sx" "q \<noteq> r" "q \<noteq> p" "r \<noteq> p" for q r sw sx
  proof -
    have "vn_blocks s sv \<inter> vn_blocks s sw = {}" "vn_blocks s sv \<inter> vn_blocks s sx = {}"
      using i(7) [OF p that(1)] i(7) [OF p that(2)] that(4,5) by auto
    with other(2) i(6) that i(7) [OF that(1,2,3)] show ?thesis by auto
  qed
  show "fs_inv (put_vn s' p sv')"
    unfolding fs_inv_def put_vn_def
  proof (intro conjI allI impI)
    show "fs_small (s'\<lparr>fs_vn := (fs_vn s')(p \<mapsto> sv')\<rparr>)" using fs_small_same [OF i(1) st(2,1)] by simp
    show "dom (fs_vn (s'\<lparr>fs_vn := (fs_vn s')(p \<mapsto> sv')\<rparr>)) = set (array_elems (fs_vnodes (s'\<lparr>fs_vn := (fs_vn s')(p \<mapsto> sv')\<rparr>)))"
      using i(5) p eq by auto
    fix q sw assume "fs_vn (s'\<lparr>fs_vn := (fs_vn s')(p \<mapsto> sv')\<rparr>) q = Some sw"
    then show "vnode_ok (s'\<lparr>fs_vn := (fs_vn s')(p \<mapsto> sv')\<rparr>) sw"
      using v' oks eq by (auto split: if_splits)
  next
    fix q r sw sx
    assume "fs_vn (s'\<lparr>fs_vn := (fs_vn s')(p \<mapsto> sv')\<rparr>) q = Some sw" "fs_vn (s'\<lparr>fs_vn := (fs_vn s')(p \<mapsto> sv')\<rparr>) r = Some sx" "q \<noteq> r"
    then show "vn_blocks (s'\<lparr>fs_vn := (fs_vn s')(p \<mapsto> sv')\<rparr>) sw \<inter> vn_blocks (s'\<lparr>fs_vn := (fs_vn s')(p \<mapsto> sv')\<rparr>) sx = {}"
      using dis same eq by (auto split: if_splits)
  qed (use i(3,4) eq in simp_all)
qed

subsection \<open>Loading a vnode\<close>

lemma sfs_bused_ok:
  assumes "fs_ok s" and "b < fs_nblocks s"
  shows "sfs_bused s b = Some (b \<in> fs_used s)"
proof -
  have "bitmap_wf (fs_freemap s)" "b < b_nbits (fs_freemap s)" using assms by (auto simp: fs_ok_def)
  from bitmap_isset_eq [OF this] assms(2) show ?thesis by (auto simp: sfs_bused_def fs_used_def)
qed

lemma sfs_search_result:
  assumes inv: "fs_inv s" and "i \<le> length (array_elems (fs_vnodes s))"
  shows "sfs_search s ino i =
    Some (List.find (\<lambda>p. \<exists>sv. fs_vn s p = Some sv \<and> sv_ino sv = ino) (drop i (array_elems (fs_vnodes s))))"
  using assms(2)
proof (induction "length (array_elems (fs_vnodes s)) - i" arbitrary: i)
  case 0
  then show ?case using da.num [OF fs_invD(3) [OF inv]] by (subst sfs_search.simps) simp
next
  case (Suc n)
  note iv = fs_invD [OF inv]
  let ?es = "array_elems (fs_vnodes s)"
  have i: "i < length ?es" "n = length ?es - Suc i" "Suc i \<le> length ?es" using Suc.hyps(2) by simp_all
  have "?es ! i \<in> dom (fs_vn s)" using i(1) iv(5) by simp
  then obtain sv where sv: "fs_vn s (?es ! i) = Some sv" by blast
  note v = vnode_okD [OF iv(6) [OF sv]]
  have d: "drop i ?es = ?es ! i # drop (Suc i) ?es" using i(1) by (simp add: Cons_nth_drop_Suc)
  show ?case
    using Suc.hyps(1) [OF i(2,3)] i(1) sv da.num [OF iv(3)] da.get [OF iv(3) i(1)] sfs_bused_ok [OF iv(2) v(5)] v(4)
    unfolding d by (subst sfs_search.simps) simp
qed

lemma sfs_search_cases:
  assumes "fs_inv s"
  shows "\<lbrakk>fs_vn s p = Some sv; sv_ino sv = ino\<rbrakk> \<Longrightarrow> sfs_search s ino 0 = Some (Some p)"
    and "(\<And>p sv. fs_vn s p = Some sv \<Longrightarrow> sv_ino sv \<noteq> ino) \<Longrightarrow> sfs_search s ino 0 = Some None"
proof -
  note iv = fs_invD [OF assms]
  let ?P = "\<lambda>p. \<exists>sv. fs_vn s p = Some sv \<and> sv_ino sv = ino"
  have s: "sfs_search s ino 0 = Some (List.find ?P (array_elems (fs_vnodes s)))"
    using sfs_search_result [OF assms, of 0] by simp
  show "sfs_search s ino 0 = Some None" if "\<And>p sv. fs_vn s p = Some sv \<Longrightarrow> sv_ino sv \<noteq> ino"
    unfolding s using that by (auto simp: find_None_iff)
  show "sfs_search s ino 0 = Some (Some p)" if p: "fs_vn s p = Some sv" "sv_ino sv = ino"
  proof -
    have "p \<in> set (array_elems (fs_vnodes s))" using p iv(5) by blast
    with p have "List.find ?P (array_elems (fs_vnodes s)) \<noteq> None" by (auto simp: find_None_iff)
    then obtain q where q: "List.find ?P (array_elems (fs_vnodes s)) = Some q" by blast
    then obtain sw where sw: "fs_vn s q = Some sw" "sv_ino sw = ino" by (auto simp: find_Some_iff)
    have "q = p" using iv(7) [OF p(1) sw(1)] p(2) sw(2) by (auto simp: vn_blocks_def)
    with q s show ?thesis by simp
  qed
qed

lemma fs_inv_incref:
  assumes inv: "fs_inv s" and p: "fs_vn s p = Some sv" and v: "vnode_live v" "vn_ops v = vn_ops (sv_v sv)"
  shows "fs_inv (put_vn s p (sv\<lparr>sv_v := v\<rparr>))"
proof -
  note i = fs_invD [OF inv]
  have "vnode_ok s (sv\<lparr>sv_v := v\<rparr>)" using i(6) [OF p] v by (simp add: vnode_ok_def ops_match_def)
  moreover have "vn_blocks s (sv\<lparr>sv_v := v\<rparr>) = vn_blocks s sv" by (simp add: vn_blocks_def)
  moreover have "dom ((fs_vn s)(p \<mapsto> x)) = dom (fs_vn s)" for x using p by auto
  ultimately show ?thesis
    using inv p unfolding fs_inv_def put_vn_def by (auto split: if_splits)
qed

lemma sfs_loadvnode_resident:
  assumes inv: "fs_inv s" and p: "fs_vn s p = Some sv" and "vn_refcount (sv_v sv) < 2 ^ 31 - 1"
  shows "sfs_loadvnode mv ma s (sv_ino sv) SFS_TYPE_INVAL = Some (Inr p, put_vn s p (sv\<lparr>sv_v := vnode_incref (sv_v sv)\<rparr>))"
    and "fs_inv (put_vn s p (sv\<lparr>sv_v := vnode_incref (sv_v sv)\<rparr>))"
proof -
  show "sfs_loadvnode mv ma s (sv_ino sv) SFS_TYPE_INVAL = Some (Inr p, put_vn s p (sv\<lparr>sv_v := vnode_incref (sv_v sv)\<rparr>))"
    using sfs_search_cases(1) [OF inv p refl] p by (simp add: sfs_loadvnode_def)
  have "vnode_live (vnode_incref (sv_v sv))"
    using vnode_okD(1) [OF fs_invD(6) [OF inv p]] assms(3) by (simp add: vnode_live_def vnode_incref_def)
  then show "fs_inv (put_vn s p (sv\<lparr>sv_v := vnode_incref (sv_v sv)\<rparr>))"
    by (intro fs_inv_incref [OF inv p]) (simp_all add: vnode_incref_def)
qed

text \<open>
  An inode on disk that may be loaded: its block is in use, its contents are an inode of the
  type wanted, and its blocks belong to no vnode in memory.
\<close>

definition typed :: "nat \<Rightarrow> sfs_inode \<Rightarrow> sfs_inode" where
  "typed forcetype i = (if forcetype \<noteq> SFS_TYPE_INVAL then i\<lparr>sfi_type := forcetype\<rparr> else i)"

definition loadable :: "sfs_fs \<Rightarrow> nat \<Rightarrow> nat \<Rightarrow> bool" where
  "loadable s ino forcetype \<longleftrightarrow> ino \<in> fs_used s \<and> ino < fs_nblocks s \<and> ino \<noteq> 0 \<and>
     (let i = typed forcetype (decode_inode (fs_disk s ino)) in
      (forcetype \<noteq> SFS_TYPE_INVAL \<longrightarrow> sfi_type (decode_inode (fs_disk s ino)) = SFS_TYPE_INVAL) \<and>
      sfi_type i \<in> {SFS_TYPE_FILE, SFS_TYPE_DIR} \<and> inode_ok s i \<and> ino \<notin> file_blocks s i \<and>
      (\<forall>p sv. fs_vn s p = Some sv \<longrightarrow> insert ino (file_blocks s i) \<inter> vn_blocks s sv = {}))"

definition loaded_vnode :: "sfs_fs \<Rightarrow> nat \<Rightarrow> nat \<Rightarrow> sfs_vnode" where
  "loaded_vnode s ino forcetype =
     (let i = typed forcetype (decode_inode (fs_disk s ino)) in
      \<lparr>sv_v = vnode_init (if sfi_type i = SFS_TYPE_FILE then sfs_fileops else sfs_dirops), sv_i = i,
       sv_ino = ino, sv_dirty = (forcetype \<noteq> SFS_TYPE_INVAL)\<rparr>)"

lemma loadableD:
  assumes "loadable s ino t"
  shows "ino \<in> fs_used s" "ino < fs_nblocks s" "ino \<noteq> 0"
    "t \<noteq> SFS_TYPE_INVAL \<Longrightarrow> sfi_type (decode_inode (fs_disk s ino)) = SFS_TYPE_INVAL"
    "sfi_type (typed t (decode_inode (fs_disk s ino))) \<in> {SFS_TYPE_FILE, SFS_TYPE_DIR}"
    "vnode_ok s (loaded_vnode s ino t)" "fs_vn s p = Some sv \<Longrightarrow> vn_blocks s (loaded_vnode s ino t) \<inter> vn_blocks s sv = {}"
    "fs_vn s p = Some sv \<Longrightarrow> sv_ino sv \<noteq> ino"
proof -
  show "ino \<in> fs_used s" "ino < fs_nblocks s" "ino \<noteq> 0"
    "t \<noteq> SFS_TYPE_INVAL \<Longrightarrow> sfi_type (decode_inode (fs_disk s ino)) = SFS_TYPE_INVAL"
    "sfi_type (typed t (decode_inode (fs_disk s ino))) \<in> {SFS_TYPE_FILE, SFS_TYPE_DIR}"
    using assms by (simp_all add: loadable_def Let_def)
  show "vnode_ok s (loaded_vnode s ino t)"
    using assms vnode_init_live by (auto simp: loadable_def Let_def loaded_vnode_def vnode_ok_def ops_match_def vnode_init_def
        SFS_TYPE_FILE_def SFS_TYPE_DIR_def)
  show dis: "vn_blocks s (loaded_vnode s ino t) \<inter> vn_blocks s sv = {}" if "fs_vn s p = Some sv"
    using assms that unfolding loadable_def Let_def loaded_vnode_def vn_blocks_def by simp
  show "sv_ino sv \<noteq> ino" if "fs_vn s p = Some sv"
    using dis [OF that] by (auto simp: vn_blocks_def loaded_vnode_def Let_def)
qed

lemma fs_inv_insert:
  assumes inv: "fs_inv s" and q: "quiet s s1" and p: "fs_vn s p = None" and v: "vnode_ok s sv"
    and dis: "\<And>q sw. fs_vn s q = Some sw \<Longrightarrow> vn_blocks s sv \<inter> vn_blocks s sw = {}"
    and arr: "array_inv arr" "array_elems arr = array_elems (fs_vnodes s) @ [p]"
  shows "fs_inv (put_vn (s1\<lparr>fs_vnodes := arr\<rparr>) p sv)"
proof -
  note i = fs_invD [OF inv]
  have eq: "fs_vn s1 = fs_vn s" "fs_nblocks s1 = fs_nblocks s" "fs_used s1 = fs_used s" "\<And>i. file_blocks s1 i = file_blocks s i"
    using q quiet_used [OF q] quiet_file_blocks [OF q] by (simp_all add: quiet_def fs_same_def)
  have ok: "vnode_ok s1 sw" if "vnode_ok s sw" for sw
    using that eq quiet_inode_ok [OF q] by (simp add: vnode_ok_def)
  have vb: "vn_blocks s1 sw = vn_blocks s sw" for sw by (simp add: vn_blocks_def eq)
  have "p \<notin> set (array_elems (fs_vnodes s))" using p i(5) by blast
  then show ?thesis
    unfolding fs_inv_def put_vn_def
    using fs_small_quiet [OF i(1) q] arr i(4,5,6,7) ok v dis
    by (auto simp: eq(1) vb dest: dis split: if_splits)
qed

lemma sfs_loadvnode_new:
  assumes inv: "fs_inv s" and l: "loadable s ino t" and p: "\<forall>p. mv = Some p \<longrightarrow> fs_vn s p = None"
    and room: "length (array_elems (fs_vnodes s)) < 2 ^ 29"
  shows "(\<exists>s1. sfs_loadvnode mv ma s ino t = Some (Inl ENOMEM, s1) \<and> quiet s s1 \<and> fs_inv s1) \<or>
     (\<exists>p s1. mv = Some p \<and> sfs_loadvnode mv ma s ino t = Some (Inr p, s1) \<and> fs_inv s1 \<and>
        fs_vn s1 = (fs_vn s)(p \<mapsto> loaded_vnode s ino t) \<and> fs_disk s1 = fs_disk s \<and> fs_freemap s1 = fs_freemap s)"
proof -
  note i = fs_invD [OF inv] and d = loadableD [OF l]
  have none: "sfs_search s ino 0 = Some None" by (rule sfs_search_cases(2) [OF inv d(8)])
  show ?thesis
  proof (cases mv)
    case None
    with none quiet_refl [OF i(2)] inv show ?thesis by (simp add: sfs_loadvnode_def)
  next
    case (Some p')
    from fs_rblock_ok [OF i(2) d(2) length_zeros] obtain s1 where
      s1: "fs_rblock s zeros ino = Some (Inr (), fs_disk s ino, s1)" and q: "quiet s s1" by (auto simp: quiet_def)
    have vs: "fs_vnodes s1 = fs_vnodes s" using q by (simp add: quiet_def fs_same_def)
    have ty: "(if sfi_type (typed t (decode_inode (fs_disk s ino))) = SFS_TYPE_FILE then Some sfs_fileops
         else if sfi_type (typed t (decode_inode (fs_disk s ino))) = SFS_TYPE_DIR then Some sfs_dirops else panic) =
        Some (if sfi_type (typed t (decode_inode (fs_disk s ino))) = SFS_TYPE_FILE then sfs_fileops else sfs_dirops)"
      using d(5) by auto
    have run: "sfs_loadvnode mv ma s ino t = array_add ma (fs_vnodes s) p' \<bind> (\<lambda>(r, arr).
        case r of Inl e \<Rightarrow> Some (Inl e, s1\<lparr>fs_vnodes := arr\<rparr>)
        | Inr _ \<Rightarrow> Some (Inr p', put_vn (s1\<lparr>fs_vnodes := arr\<rparr>) p' (loaded_vnode s ino t)))"
      using none Some sfs_bused_ok [OF i(2) d(2)] d(1,4) s1 vs ty
      by (auto simp: sfs_loadvnode_def loaded_vnode_def typed_def Let_def vnode_cleanup_def vnode_init_def
          cong: sum.case_cong split: if_splits)
    from da.add [OF i(3) room, of ma p'] show ?thesis
    proof (elim disjE exE conjE)
      assume "array_add ma (fs_vnodes s) p' = Some (Inl ENOMEM, fs_vnodes s)"
      moreover have "s1\<lparr>fs_vnodes := fs_vnodes s\<rparr> = s1" using vs by simp
      moreover have "fs_inv s1"
        using inv q quiet_inode_ok [OF q] fs_small_quiet [OF i(1) q] quiet_used [OF q] quiet_file_blocks [OF q]
        by (auto simp: fs_inv_def quiet_def [of s s1] fs_same_def vnode_ok_def vn_blocks_def)
      ultimately show ?thesis using run q by simp
    next
      fix arr assume arr: "array_add ma (fs_vnodes s) p' = Some (Inr (length (array_elems (fs_vnodes s))), arr)"
        "array_inv arr" "array_elems arr = array_elems (fs_vnodes s) @ [p']"
      have "fs_inv (put_vn (s1\<lparr>fs_vnodes := arr\<rparr>) p' (loaded_vnode s ino t))"
        by (rule fs_inv_insert [OF inv q p [rule_format, OF Some] d(6,7) arr(2,3)])
      with run arr(1) Some q show ?thesis by (simp add: quiet_def fs_same_def)
    qed
  qed
qed

subsection \<open>Releasing a vnode\<close>

lemma fs_inv_delete:
  assumes inv: "fs_inv t" and p: "fs_vn t p = Some sv" and vn: "fs_vn s' = (fs_vn t)(p := None)"
    and arr: "array_inv (fs_vnodes s')" "array_elems (fs_vnodes s') = remove1 p (array_elems (fs_vnodes t))"
    and small: "fs_small s'" and disk: "fs_disk s' = fs_disk t" and nb: "fs_nblocks s' = fs_nblocks t"
    and used: "fs_used t - vn_blocks t sv \<subseteq> fs_used s'"
  shows "fs_inv s'"
proof -
  note i = fs_invD [OF inv]
  have b: "blk s' = blk t" using disk by (intro ext) (simp add: blk_def)
  then have fb: "file_blocks s' = file_blocks t" by (intro ext) (simp add: file_blocks_def)
  have vb: "vn_blocks s' = vn_blocks t" by (intro ext) (simp add: vn_blocks_def fb)
  have ok: "vnode_ok s' sw" if q: "fs_vn t q = Some sw" "q \<noteq> p" for q sw
  proof -
    have v: "vnode_ok t sw" by (rule i(6) [OF q(1)])
    have "vn_blocks t sw \<inter> vn_blocks t sv = {}" by (rule i(7) [OF q(1) p q(2)])
    with vnode_okD(9) [OF v] used have u: "vn_blocks t sw \<subseteq> fs_used s'" by blast
    then have "inode_ok s' (sv_i sw)"
      using vnode_okD(3) [OF v] b fb nb by (auto simp: inode_ok_def vn_blocks_def)
    with v u fb nb show ?thesis by (auto simp: vnode_ok_def vn_blocks_def)
  qed
  have "dom (fs_vn s') = set (array_elems (fs_vnodes s'))" using vn arr(2) i(4,5) p by auto
  moreover have "distinct (array_elems (fs_vnodes s'))" using arr(2) i(4) by (simp add: distinct_remove1)
  ultimately show ?thesis
    using small arr(1) ok i(7) vn vb unfolding fs_inv_def by (auto split: if_splits)
qed

text \<open>The last part of \<open>sfs_reclaim\<close>: the vnode leaves the table and its storage is released.\<close>

lemma reclaim_from_table:
  assumes inv: "fs_inv s" and p: "fs_vn s p = Some sv" and vs: "fs_vnodes s3 = fs_vnodes s"
    and count: "vn_refcount (sv_v sv2) = 1" "vn_opencount (sv_v sv2) = 0"
  shows "\<exists>ix arr v. find_from array_get (fs_vnodes s3) p (array_num (fs_vnodes s3)) 0 = Some (Some ix) \<and>
     array_remove (fs_vnodes s3) ix = Some arr \<and> array_inv arr \<and>
     array_elems arr = remove1 p (array_elems (fs_vnodes s)) \<and> vnode_cleanup (sv_v sv2) = Some v"
proof -
  note i = fs_invD [OF inv]
  have "p \<in> set (array_elems (fs_vnodes s))" using p i(5) by blast
  from da.find_remove [OF i(3) this] count vs show ?thesis by (auto simp: vnode_cleanup_def)
qed

lemma sfs_reclaim_linked:
  assumes inv: "fs_inv s" and p: "fs_vn s p = Some sv" and count: "vn_refcount (sv_v sv) = 1" "vn_opencount (sv_v sv) = 0"
    and links: "sfi_linkcount (sv_i sv) \<noteq> 0"
  shows "\<exists>s'. sfs_reclaim s p = Some (Inr (), s') \<and> fs_inv s' \<and> fs_vn s' = (fs_vn s)(p := None) \<and>
     fs_used s' = fs_used s \<and> (\<forall>x. x \<noteq> sv_ino sv \<longrightarrow> fs_disk s' x = fs_disk s x) \<and>
     (sv_dirty sv \<longrightarrow> decode_inode (fs_disk s' (sv_ino sv)) = sv_i sv)"
proof -
  note i = fs_invD [OF inv]
  from file_step_sync [OF i(2) i(6) [OF p]] obtain s2 where
    sy: "sfs_sync_inode s sv = Some (Inr (), s2, sv\<lparr>sv_dirty := False\<rparr>)" "file_step s sv s2 (sv\<lparr>sv_dirty := False\<rparr>)"
      "fs_freemap s2 = fs_freemap s" "sv_dirty sv \<longrightarrow> decode_inode (fs_disk s2 (sv_ino sv)) = sv_i sv" by blast
  let ?sv2 = "sv\<lparr>sv_dirty := False\<rparr>"
  note st = file_stepD [OF sy(2)]
  have eq: "fs_vn s2 = fs_vn s" "fs_vnodes s2 = fs_vnodes s" using st(2) by (simp_all add: fs_same_def)
  from reclaim_from_table [OF inv p eq(2), of ?sv2] count obtain ix arr v where
    t: "find_from array_get (fs_vnodes s2) p (array_num (fs_vnodes s2)) 0 = Some (Some ix)"
      "array_remove (fs_vnodes s2) ix = Some arr" "array_inv arr"
      "array_elems arr = remove1 p (array_elems (fs_vnodes s))" "vnode_cleanup (sv_v ?sv2) = Some v" by auto
  let ?s' = "s2\<lparr>fs_vnodes := arr, fs_vn := (fs_vn s2)(p := None)\<rparr>"
  have run: "sfs_reclaim s p = Some (Inr (), ?s')"
    using p count links sy(1) t(1,2,5) by (simp add: sfs_reclaim_def)
  have used: "fs_used s2 = fs_used s" using sy(3) by (simp add: fs_used_def)
  have "fs_inv ?s'"
    by (rule fs_inv_delete [OF fs_inv_step(1) [OF inv p sy(2)], of p ?sv2])
       (use t(3,4) eq fs_small_same [OF i(1) st(2,1)] in \<open>auto simp: put_vn_def\<close>)
  moreover have "fs_disk s2 x = fs_disk s x" if "x \<noteq> sv_ino sv" for x
    by (rule sync_inode_disk [OF i(2) i(6) [OF p] sy(1) that])
  ultimately show ?thesis using run used eq(1) sy(4) by simp
qed

lemma sfs_truncate_empty:
  assumes "fs_ok s" and "inode_ok s (sv_i sv)"
  shows "\<exists>s1 sv1. sfs_truncate s sv 0 = Some (Inr (), s1, sv1) \<and> file_step s sv s1 sv1 \<and>
     file_blocks s1 (sv_i sv1) = {} \<and> fs_used s1 = fs_used s - file_blocks s (sv_i sv)"
proof -
  from sfs_truncate_shrunk [OF assms, of 0] obtain s1 sv1 where
    t: "sfs_truncate s sv 0 = Some (Inr (), s1, sv1)"
      "shrunk (\<lambda>k. 0 < k \<or> 0 = k \<and> k < SFS_NDIRECT) s (sv_i sv) s1 (sv_i sv1)"
      "sfi_indirect (sv_i sv1) \<noteq> 0 \<longrightarrow> (\<exists>k < SFS_MAXBLOCKS. blk s1 (sv_i sv1) k \<noteq> 0)"
    by (auto simp: SFS_BLOCKSIZE_def SFS_MAXBLOCKS_def SFS_NDIRECT_def)
  have z: "blk s1 (sv_i sv1) k = 0" if "k < SFS_MAXBLOCKS" for k
    using shrunkD(2) [OF t(2) that] by (cases "k = 0") (simp_all add: SFS_NDIRECT_def)
  then have e: "file_blocks s1 (sv_i sv1) = {}" using t(3) by (auto simp: file_blocks_def)
  with file_step_truncate [OF assms, of 0] t(1) shrunkD(3) [OF t(2)] show ?thesis by auto
qed

lemma sfs_reclaim_unlinked:
  assumes inv: "fs_inv s" and p: "fs_vn s p = Some sv" and count: "vn_refcount (sv_v sv) = 1" "vn_opencount (sv_v sv) = 0"
    and links: "sfi_linkcount (sv_i sv) = 0" and reg: "sfi_type (sv_i sv) = SFS_TYPE_FILE"
  shows "\<exists>s'. sfs_reclaim s p = Some (Inr (), s') \<and> fs_inv s' \<and> fs_vn s' = (fs_vn s)(p := None) \<and>
     fs_used s' = fs_used s - vn_blocks s sv \<and> (\<forall>x \<in> fs_used s'. fs_disk s' x = fs_disk s x)"
proof -
  note i = fs_invD [OF inv] and v = vnode_okD [OF fs_invD(6) [OF inv p]]
  have ops: "vn_ops (sv_v sv) = Some sfs_fileops"
    using v(2) reg by (auto simp: ops_match_def SFS_TYPE_FILE_def SFS_TYPE_DIR_def)
  from sfs_truncate_empty [OF i(2) v(3)] obtain s1 sv1 where
    t: "sfs_truncate s sv 0 = Some (Inr (), s1, sv1)" "file_step s sv s1 sv1" "file_blocks s1 (sv_i sv1) = {}"
      "fs_used s1 = fs_used s - file_blocks s (sv_i sv)" by blast
  note st1 = file_stepD [OF t(2)] and v1 = fs_inv_step(2) [OF inv p t(2)]
  have m1: "sv_ino sv1 = sv_ino sv" "sv_v sv1 = sv_v sv" "sfi_linkcount (sv_i sv1) = 0"
    using st1(3) links by (simp_all add: sv_meta_def)
  from file_step_sync [OF st1(1) v1] obtain s2 where
    sy: "sfs_sync_inode s1 sv1 = Some (Inr (), s2, sv1\<lparr>sv_dirty := False\<rparr>)"
      "file_step s1 sv1 s2 (sv1\<lparr>sv_dirty := False\<rparr>)" "fs_freemap s2 = fs_freemap s1" by blast
  let ?sv2 = "sv1\<lparr>sv_dirty := False\<rparr>"
  have step: "file_step s sv s2 ?sv2" by (rule file_step_trans [OF v(3) t(2) sy(2)])
  note st = file_stepD [OF step] and v2 = vnode_okD [OF fs_inv_step(2) [OF inv p step]]
  have used2: "fs_used s2 = fs_used s - file_blocks s (sv_i sv)" using sy(3) t(4) by (simp add: fs_used_def)
  from sfs_bfree_ok [OF st(1) v2(4,5,6)] m1(1) obtain s3 where
    s3: "sfs_bfree s2 (sv_ino sv) = Some s3" "fs_ok s3" "fs_same s2 s3" "fs_disk s3 = fs_disk s2"
      "fs_used s3 = fs_used s2 - {sv_ino sv}" by auto
  have same: "fs_same s s3" by (rule fs_same_trans [OF st(2) s3(3)])
  then have eq: "fs_vn s3 = fs_vn s" "fs_vnodes s3 = fs_vnodes s" "fs_nblocks s3 = fs_nblocks s" by (simp_all add: fs_same_def)
  from reclaim_from_table [OF inv p eq(2), of ?sv2] count m1(2) obtain ix arr v' where
    tab: "find_from array_get (fs_vnodes s3) p (array_num (fs_vnodes s3)) 0 = Some (Some ix)"
      "array_remove (fs_vnodes s3) ix = Some arr" "array_inv arr"
      "array_elems arr = remove1 p (array_elems (fs_vnodes s))" "vnode_cleanup (sv_v ?sv2) = Some v'" by auto
  let ?s' = "s3\<lparr>fs_vnodes := arr, fs_vn := (fs_vn s3)(p := None)\<rparr>"
  have run: "sfs_reclaim s p = Some (Inr (), ?s')"
    using p count links ops m1 vnode_check_live [OF v(1)] t(1) sy(1) s3(1) tab(1,2,5)
    by (simp add: sfs_reclaim_def vop_truncate_def)
  have used3: "fs_used s3 = fs_used s - vn_blocks s sv" using used2 s3(5) by (auto simp: vn_blocks_def)
  have "fs_vnodes s2 = fs_vnodes s" "fs_vn s2 = fs_vn s" "fs_nblocks s2 = fs_nblocks s" using st(2) by (simp_all add: fs_same_def)
  then have "fs_inv ?s'"
    by (intro fs_inv_delete [OF fs_inv_step(1) [OF inv p step], of p ?sv2])
       (use tab(3,4) eq s3(4,5) m1(1) fs_small_same [OF i(1) same s3(2)] in \<open>auto simp: put_vn_def vn_blocks_def\<close>)
  moreover have "\<forall>x \<in> fs_used s3. fs_disk s3 x = fs_disk s x" using s3(4) used3 st(7) by auto
  ultimately show ?thesis using run used3 eq(1) by simp
qed

text \<open>A block taken from the free ones and zeroed concerns no vnode.\<close>

lemma fs_inv_balloc:
  assumes inv: "fs_inv s" and s1: "fs_ok s1" "fs_same s s1" and b: "b \<notin> fs_used s"
    and used: "fs_used s1 = insert b (fs_used s)" and disk: "fs_disk s1 = (fs_disk s)(b := zeros)"
  shows "fs_inv s1" and "fs_vn s p = Some sv \<Longrightarrow> vn_blocks s1 sv = vn_blocks s sv"
proof -
  note i = fs_invD [OF inv]
  have eq: "fs_vn s1 = fs_vn s" "fs_vnodes s1 = fs_vnodes s" "fs_nblocks s1 = fs_nblocks s"
    using s1(2) by (simp_all add: fs_same_def)
  have one: "vnode_ok s1 sv \<and> vn_blocks s1 sv = vn_blocks s sv" if v: "vnode_ok s sv" for sv
  proof -
    note d = vnode_okD [OF v]
    have k: "sfi_indirect (sv_i sv) \<noteq> 0 \<Longrightarrow> fs_disk s1 (sfi_indirect (sv_i sv)) = fs_disk s (sfi_indirect (sv_i sv))"
      using d(8) file_blocksI(1) [of "sv_i sv" s] b disk by auto
    then have fb: "file_blocks s1 (sv_i sv) = file_blocks s (sv_i sv)" by (auto simp: file_blocks_def blk_def)
    have "inode_ok s1 (sv_i sv)" using used eq(3) k by (intro inode_ok_cong [OF d(3)]) auto
    with d fb eq(3) used show ?thesis by (auto simp: vnode_ok_def vn_blocks_def)
  qed
  show "vn_blocks s1 sv = vn_blocks s sv" if "fs_vn s p = Some sv" using one [OF i(6) [OF that]] by simp
  show "fs_inv s1"
    using i(3-7) one eq fs_small_same [OF i(1) s1(2,1)] unfolding fs_inv_def by auto
qed

subsection \<open>Properties\<close>

text \<open>The example volume with its file, inode 2, in memory at pointer 7.\<close>

definition fv_ex :: "nat \<Rightarrow> sfs_fs" where
  "fv_ex links = fs_ex\<lparr>fs_vnodes := \<lparr>a_v = [7, 0, 0, 0], a_num = 1, a_max = 4\<rparr>,
     fs_vn := [7 \<mapsto> sv_ex\<lparr>sv_i := (sv_i sv_ex)\<lparr>sfi_linkcount := links\<rparr>\<rparr>]\<rparr>"

lemma fv_ex_inv:
  assumes "links < 2 ^ 16"
  shows "fs_inv (fv_ex links)" and "file_blocks (fv_ex links) (sv_i sv_ex\<lparr>sfi_linkcount := links\<rparr>) = {3}"
    and "fs_used (fv_ex links) = {0, 1, 2, 3}"
proof -
  let ?i = "sv_i sv_ex\<lparr>sfi_linkcount := links\<rparr>"
  have b: "blk (fv_ex links) ?i = blk fs_ex (sv_i sv_ex)"
    by (intro ext) (simp add: blk_def fv_ex_def)
  then have fb: "file_blocks (fv_ex links) ?i = file_blocks fs_ex (sv_i sv_ex)" by (simp add: file_blocks_def)
  moreover have ind: "sfi_indirect (sv_i sv_ex) = 0" by (simp add: sv_ex_def)
  then have fb3: "file_blocks fs_ex (sv_i sv_ex) = {3}"
    using blk_ex by (auto simp: file_blocks_def image_iff SFS_MAXBLOCKS_def SFS_NDIRECT_def split: if_splits)
  ultimately show "file_blocks (fv_ex links) ?i = {3}" by simp
  show used: "fs_used (fv_ex links) = {0, 1, 2, 3}" using fs_ex_used by (simp add: fv_ex_def)
  have nb: "fs_nblocks (fv_ex links) = 8" by (simp add: fv_ex_def fs_ex_def)
  have io: "inode_ok (fv_ex links) ?i"
    using sv_ex_ok assms b fb nb used fs_ex_used by (simp add: inode_ok_def inode_wf_def)
  have sv: "sv_ino sv_ex = 2" "sv_v sv_ex = vnode_init sfs_fileops" "sfi_type (sv_i sv_ex) = SFS_TYPE_FILE"
    by (simp_all add: sv_ex_def)
  have "vnode_ok (fv_ex links) (sv_ex\<lparr>sv_i := ?i\<rparr>)"
    using io fb fb3 used nb sv vnode_init_live [of sfs_fileops] by (simp add: vnode_ok_def ops_match_def vnode_init_def)
  moreover have "array_inv (fs_vnodes (fv_ex links))" "array_elems (fs_vnodes (fv_ex links)) = [7]"
    by (simp_all add: fv_ex_def array_inv_def array_elems_def)
  moreover have "fs_small (fv_ex links)" using fs_ex_ok by (simp add: fv_ex_def fs_small_def) (simp add: fs_ex_def)
  ultimately show "fs_inv (fv_ex links)"
    unfolding fs_inv_def by (auto simp: fv_ex_def split: if_splits)
qed

text \<open>
  C12. One vnode per inode. \<open>sfs_loadvnode\<close> keeps the invariant of the vnodes in memory; it
  never hands out a second vnode for an inode: if one is in memory it is the one returned, with
  its reference count raised by one, and otherwise the inode is read from disk, into a vnode
  that is then the only one for it, or \<open>ENOMEM\<close> leaves everything as it was.
\<close>

theorem sfs_loadvnode_unique:
  assumes "fs_inv s" and "\<forall>p. mv = Some p \<longrightarrow> fs_vn s p = None"
    and "length (array_elems (fs_vnodes s)) < 2 ^ 29"
    and "\<forall>p sv. fs_vn s p = Some sv \<longrightarrow> vn_refcount (sv_v sv) < 2 ^ 31 - 1"
    and "(\<exists>p sv. fs_vn s p = Some sv \<and> sv_ino sv = ino) \<or> loadable s ino SFS_TYPE_INVAL"
  shows "\<exists>r s'. sfs_loadvnode mv ma s ino SFS_TYPE_INVAL = Some (r, s') \<and> fs_inv s' \<and> fs_disk s' = fs_disk s \<and>
     (\<forall>p sv. fs_vn s p = Some sv \<and> sv_ino sv = ino \<longrightarrow> r = Inr p \<and>
        fs_vn s' = (fs_vn s)(p \<mapsto> sv\<lparr>sv_v := (sv_v sv)\<lparr>vn_refcount := vn_refcount (sv_v sv) + 1\<rparr>\<rparr>)) \<and>
     (\<forall>p. r = Inr p \<longrightarrow> (\<exists>sv. fs_vn s' p = Some sv \<and> sv_ino sv = ino) \<and>
        (\<forall>q sw. fs_vn s' q = Some sw \<and> sv_ino sw = ino \<longrightarrow> q = p)) \<and>
     (\<forall>e. r = Inl e \<longrightarrow> e = ENOMEM \<and> fs_vn s' = fs_vn s)"
proof (cases "\<exists>p sv. fs_vn s p = Some sv \<and> sv_ino sv = ino")
  case True
  then obtain p sv where p: "fs_vn s p = Some sv" "sv_ino sv = ino" by blast
  let ?sv = "sv\<lparr>sv_v := vnode_incref (sv_v sv)\<rparr>"
  have inc: "vnode_incref (sv_v sv) = (sv_v sv)\<lparr>vn_refcount := vn_refcount (sv_v sv) + 1\<rparr>"
    using assms(4) [rule_format, OF p(1)] vnode_okD(1) [OF fs_invD(6) [OF assms(1) p(1)]]
    by (simp add: vnode_incref_def vnode_live_def)
  note l = sfs_loadvnode_resident(1) [OF assms(1) p(1) assms(4) [rule_format, OF p(1)], of mv ma]
    sfs_loadvnode_resident(2) [OF assms(1) p(1) assms(4) [rule_format, OF p(1)]]
  have only: "q = p" if "fs_vn s q = Some sw" "sv_ino sw = ino" for q sw
    using fs_invD(7) [OF assms(1) that(1) p(1)] that(2) p(2) by (auto simp: vn_blocks_def)
  show ?thesis
  proof (intro exI [of _ "Inr p"] exI [of _ "put_vn s p ?sv"] conjI allI impI)
    show "sfs_loadvnode mv ma s ino SFS_TYPE_INVAL = Some (Inr p, put_vn s p ?sv)" using l(1) p(2) by simp
    show "fs_inv (put_vn s p ?sv)" by (rule l(2))
    fix q sw assume q: "fs_vn s q = Some sw \<and> sv_ino sw = ino"
    then have "q = p" by (intro only) auto
    with q p(1) have "q = p" "sw = sv" by simp_all
    then show "Inr p = Inr q" and "fs_vn (put_vn s p ?sv) =
        (fs_vn s)(q \<mapsto> sw\<lparr>sv_v := (sv_v sw)\<lparr>vn_refcount := vn_refcount (sv_v sw) + 1\<rparr>\<rparr>)"
      using inc by simp_all
  next
    fix q assume q: "(Inr p :: nat kresult) = Inr q"
    then show "\<exists>sw. fs_vn (put_vn s p ?sv) q = Some sw \<and> sv_ino sw = ino" using p(2) by simp
    fix r sw assume "fs_vn (put_vn s p ?sv) r = Some sw \<and> sv_ino sw = ino"
    then show "r = q" using q by (cases "r = p") (auto dest!: only)
  qed simp_all
next
  case False
  then have l: "loadable s ino SFS_TYPE_INVAL" using assms(5) by blast
  have ino: "sv_ino (loaded_vnode s ino SFS_TYPE_INVAL) = ino" by (simp add: loaded_vnode_def Let_def)
  from sfs_loadvnode_new [OF assms(1) l assms(2,3), where ma = ma] show ?thesis
  proof (elim disjE exE conjE)
    fix s1 assume "sfs_loadvnode mv ma s ino SFS_TYPE_INVAL = Some (Inl ENOMEM, s1)" "quiet s s1" "fs_inv s1"
    with False show ?thesis by (auto simp: quiet_def fs_same_def)
  next
    fix p s1 assume "mv = Some p" "sfs_loadvnode mv ma s ino SFS_TYPE_INVAL = Some (Inr p, s1)" "fs_inv s1"
      "fs_vn s1 = (fs_vn s)(p \<mapsto> loaded_vnode s ino SFS_TYPE_INVAL)" "fs_disk s1 = fs_disk s"
    with False ino show ?thesis by (intro exI [of _ "Inr p"] exI [of _ s1]) (auto split: if_splits)
  qed
qed

theorem sfs_loadvnode_unique_witness:
  "\<exists>r s'. sfs_loadvnode (Some 9) None (fv_ex 1) 2 SFS_TYPE_INVAL = Some (r, s') \<and> fs_inv s' \<and> r = Inr 7"
proof -
  let ?sv = "sv_ex\<lparr>sv_i := (sv_i sv_ex)\<lparr>sfi_linkcount := 1\<rparr>\<rparr>"
  have v: "fs_vn (fv_ex 1) p = (if p = 7 then Some ?sv else None)" for p by (simp add: fv_ex_def)
  have sv: "vn_refcount (sv_v ?sv) = 1" "sv_ino ?sv = 2" by (simp_all add: sv_ex_def vnode_init_def)
  have 1: "fs_inv (fv_ex 1)" using fv_ex_inv(1) [of 1] by simp
  have 2: "\<forall>p. Some 9 = Some p \<longrightarrow> fs_vn (fv_ex 1) p = None" unfolding v by simp
  have 3: "length (array_elems (fs_vnodes (fv_ex 1))) < 2 ^ 29" by (simp add: fv_ex_def array_elems_def)
  have 4: "\<forall>p sv'. fs_vn (fv_ex 1) p = Some sv' \<longrightarrow> vn_refcount (sv_v sv') < 2 ^ 31 - 1"
    using sv(1) unfolding v by (auto split: if_splits)
  have 5: "(\<exists>p sv'. fs_vn (fv_ex 1) p = Some sv' \<and> sv_ino sv' = 2) \<or> loadable (fv_ex 1) 2 SFS_TYPE_INVAL"
    using sv(2) unfolding v by auto
  have 7: "fs_vn (fv_ex 1) 7 = Some ?sv \<and> sv_ino ?sv = 2" using sv(2) unfolding v by simp
  from sfs_loadvnode_unique [OF 1 2 3 4 5, where ma = None] obtain r s' where
    "sfs_loadvnode (Some 9) None (fv_ex 1) 2 SFS_TYPE_INVAL = Some (r, s')" "fs_inv s'"
    and r: "\<forall>p sv. fs_vn (fv_ex 1) p = Some sv \<and> sv_ino sv = 2 \<longrightarrow> r = Inr p \<and>
      fs_vn s' = (fs_vn (fv_ex 1))(p \<mapsto> sv\<lparr>sv_v := (sv_v sv)\<lparr>vn_refcount := vn_refcount (sv_v sv) + 1\<rparr>\<rparr>)"
    by (elim exE conjE)
  moreover have "r = Inr 7" using r [rule_format, OF 7] by (rule conjunct1)
  ultimately show ?thesis by blast
qed

text \<open>
  C16. Releasing the last reference to a file with no name left: \<open>sfs_reclaim\<close> frees exactly its
  inode and its blocks, removes the vnode from memory, keeps the invariant for all other vnodes
  and changes no block that stays in use.
\<close>

theorem sfs_reclaim_frees:
  assumes "fs_inv s" and "fs_vn s p = Some sv" and "vn_refcount (sv_v sv) = 1" and "vn_opencount (sv_v sv) = 0"
    and "sfi_linkcount (sv_i sv) = 0" and "sfi_type (sv_i sv) = SFS_TYPE_FILE"
  shows "\<exists>s'. sfs_decref s p = Some s' \<and> fs_inv s' \<and> fs_vn s' = (fs_vn s)(p := None) \<and>
     fs_used s' = fs_used s - insert (sv_ino sv) (file_blocks s (sv_i sv)) \<and>
     (\<forall>x \<in> fs_used s'. fs_disk s' x = fs_disk s x)"
proof -
  have "sfs_getv s p = Some (sv_v sv)" using assms(2) by (simp add: sfs_getv_def)
  from sv.decref_last [OF this _ assms(3), of sfs_reclaim] vnode_okD(1) [OF fs_invD(6) [OF assms(1,2)]]
  have "sfs_decref s p = map_option snd (sfs_reclaim s p)" by (simp add: sfs_decref_def)
  with sfs_reclaim_unlinked [OF assms] show ?thesis by (auto simp: vn_blocks_def)
qed

theorem sfs_reclaim_frees_witness:
  "\<exists>s'. sfs_decref (fv_ex 0) 7 = Some s' \<and> fs_used s' = {0, 1}"
proof -
  let ?sv = "sv_ex\<lparr>sv_i := (sv_i sv_ex)\<lparr>sfi_linkcount := 0\<rparr>\<rparr>"
  have v: "fs_vn (fv_ex 0) 7 = Some ?sv" by (simp add: fv_ex_def)
  have sv: "sv_ino sv_ex = 2" "sv_v sv_ex = vnode_init sfs_fileops" "sfi_type (sv_i sv_ex) = SFS_TYPE_FILE"
    by (simp_all add: sv_ex_def)
  have f: "fs_inv (fv_ex 0)" "file_blocks (fv_ex 0) (sv_i ?sv) = {3}" "fs_used (fv_ex 0) = {0, 1, 2, 3}"
    using fv_ex_inv [of 0] by simp_all
  have "{0, 1, 2, 3} - {2, 3} = {0, 1 :: nat}" by auto
  with sfs_reclaim_frees [OF f(1) v] sv f show ?thesis by (auto simp: vnode_init_def)
qed

text \<open>
  C30. A failed creation loses a block: when there is no memory for the new vnode,
  \<open>sfs_makeobj\<close> returns \<open>ENOMEM\<close> with the block it took for the inode still marked in use,
  although no inode or file refers to it.
\<close>

theorem sfs_makeobj_leaks:
  assumes "fs_inv s" and "fs_used s \<noteq> {..<b_nbits (fs_freemap s)}"
  shows "\<exists>b s'. sfs_makeobj None ma s SFS_TYPE_FILE = Some (Inl ENOMEM, s') \<and> b \<notin> fs_used s \<and>
     fs_used s' = insert b (fs_used s) \<and> fs_vn s' = fs_vn s \<and>
     (\<forall>p sv. fs_vn s p = Some sv \<longrightarrow> b \<notin> vn_blocks s' sv)"
proof -
  note i = fs_invD [OF assms(1)]
  from sfs_balloc_cases [OF i(2)] assms(2) obtain b s1 where
    b: "sfs_balloc s = Some (Inr b, s1)" "b \<notin> fs_used s" "fs_used s1 = insert b (fs_used s)"
      "fs_disk s1 = (fs_disk s)(b := zeros)" "fs_ok s1" "fs_same s s1" by metis
  note n = fs_inv_balloc [OF assms(1) b(5,6,2,3,4)]
  have eq: "fs_vn s1 = fs_vn s" using b(6) by (simp add: fs_same_def)
  have fresh: "b \<notin> vn_blocks s1 sv" if "fs_vn s p = Some sv" for p sv
    using n(2) [OF that] vnode_okD(9) [OF i(6) [OF that]] b(2) by auto
  have "sfs_search s1 b 0 = Some None"
    using fresh eq by (intro sfs_search_cases(2) [OF n(1)]) (auto simp: vn_blocks_def)
  with b(1) have "sfs_makeobj None ma s SFS_TYPE_FILE = Some (Inl ENOMEM, s1)"
    by (simp add: sfs_makeobj_def sfs_loadvnode_def)
  with b(2,3) eq fresh show ?thesis by blast
qed

theorem sfs_makeobj_leaks_witness:
  "\<exists>b s'. sfs_makeobj None None (fv_ex 1) SFS_TYPE_FILE = Some (Inl ENOMEM, s') \<and> b \<notin> {0, 1, 2, 3} \<and>
          fs_used s' = insert b {0, 1, 2, 3}"
proof -
  have f: "fs_inv (fv_ex 1)" "fs_used (fv_ex 1) = {0, 1, 2, 3}" using fv_ex_inv [of 1] by simp_all
  moreover have "b_nbits (fs_freemap (fv_ex 1)) = 8" by (simp add: fv_ex_def fs_ex_def)
  moreover have "7 \<in> {..<8 :: nat}" "7 \<notin> {0, 1, 2, 3 :: nat}" by simp_all
  ultimately show ?thesis using sfs_makeobj_leaks [OF f(1), of None] by metis
qed

end
