(* ===== verification/Sfs_Fs.thy ===== *)
theory Sfs_Fs
  imports Sfs_Vnode
begin

section \<open>SFS mounting and syncing: \<open>kern/fs/sfs/sfs_fs.c\<close>\<close>

text \<open>
  The operations on a whole volume. Mounting reads the superblock and the free map into
  memory, syncing writes inodes, free map and superblock back. The lemmas show that what a
  mount reads after a sync is what was in memory before it.
\<close>

subsection \<open>The code\<close>

text \<open>
  One block of the free map, read or written in place; the block must lie within the bitmap.
  \<open>sfs_mapio_from\<close> is the loop from block \<open>j\<close>.
\<close>

definition sfs_mapio_block :: "sfs_fs \<Rightarrow> uio_rw \<Rightarrow> nat \<Rightarrow> (unit kresult \<times> sfs_fs) option" where
  "sfs_mapio_block s rw j = do {
     let bitdata = bitmap_getdata (fs_freemap s);
     kassert ((j + 1) * SFS_BLOCKSIZE \<le> length bitdata);
     let ptr = take SFS_BLOCKSIZE (drop (j * SFS_BLOCKSIZE) bitdata);
     (if rw = UIO_READ then
        do {
          (result, data, s') \<leftarrow> fs_rblock s ptr (SFS_MAP_LOCATION + j);
          let bitdata' = take (j * SFS_BLOCKSIZE) bitdata @ data @ drop ((j + 1) * SFS_BLOCKSIZE) bitdata;
          Some (result, s'\<lparr>fs_freemap := (fs_freemap s')\<lparr>b_v := bitdata'\<rparr>\<rparr>)
        }
      else fs_wblock s ptr (SFS_MAP_LOCATION + j))
   }"

function sfs_mapio_from :: "nat \<Rightarrow> sfs_fs \<Rightarrow> uio_rw \<Rightarrow> nat \<Rightarrow> (unit kresult \<times> sfs_fs) option" where
  "sfs_mapio_from mapsize s rw j =
     (if j < mapsize then
        do {
          (result, s') \<leftarrow> sfs_mapio_block s rw j;
          (case result of
             Inl e \<Rightarrow> Some (Inl e, s')
           | Inr _ \<Rightarrow> sfs_mapio_from mapsize s' rw (j + 1))
        }
      else Some (Inr (), s))"
  by pat_completeness auto
termination by (relation "measure (\<lambda>(mapsize, s, rw, j). mapsize - j)") auto

declare sfs_mapio_from.simps [simp del]

definition sfs_mapio :: "sfs_fs \<Rightarrow> uio_rw \<Rightarrow> (unit kresult \<times> sfs_fs) option" where
  "sfs_mapio s rw = sfs_mapio_from (SFS_BITBLOCKS (sp_nblocks (fs_super s))) s rw 0"

text \<open>The loop of \<open>sfs_sync\<close> over the vnodes; the result of \<open>VOP_FSYNC\<close> is not looked at.\<close>

function sync_vnodes :: "nat \<Rightarrow> sfs_fs \<Rightarrow> nat \<Rightarrow> sfs_fs option" where
  "sync_vnodes num s i =
     (if i < num then
        do {
          p \<leftarrow> array_get (fs_vnodes s) i;
          (_, s') \<leftarrow> vop_fsync s p;
          sync_vnodes num s' (i + 1)
        }
      else Some s)"
  by pat_completeness auto
termination by (relation "measure (\<lambda>(num, s, i). num - i)") auto

declare sync_vnodes.simps [simp del]

text \<open>The free map and the superblock are written when they are dirty.\<close>

definition sync_freemap :: "sfs_fs \<Rightarrow> (unit kresult \<times> sfs_fs) option" where
  "sync_freemap s =
     (if fs_freemapdirty s then
        do {
          (result, s') \<leftarrow> sfs_mapio s UIO_WRITE;
          (case result of
             Inl e \<Rightarrow> Some (Inl e, s')
           | Inr _ \<Rightarrow> Some (Inr (), s'\<lparr>fs_freemapdirty := False\<rparr>))
        }
      else Some (Inr (), s))"

definition sync_superblock :: "sfs_fs \<Rightarrow> (unit kresult \<times> sfs_fs) option" where
  "sync_superblock s =
     (if fs_superdirty s then
        do {
          (result, s') \<leftarrow> fs_wblock s (encode_super (fs_super s)) SFS_SB_LOCATION;
          (case result of
             Inl e \<Rightarrow> Some (Inl e, s')
           | Inr _ \<Rightarrow> Some (Inr (), s'\<lparr>fs_superdirty := False\<rparr>))
        }
      else Some (Inr (), s))"

definition sfs_sync :: "sfs_fs \<Rightarrow> (unit kresult \<times> sfs_fs) option" where
  "sfs_sync s = do {
     s1 \<leftarrow> sync_vnodes (array_num (fs_vnodes s)) s 0;
     (result, s2) \<leftarrow> sync_freemap s1;
     (case result of
        Inl e \<Rightarrow> Some (Inl e, s2)
      | Inr _ \<Rightarrow> sync_superblock s2)
   }"

definition sfs_getvolname :: "sfs_fs \<Rightarrow> u8 list" where
  "sfs_getvolname s = cstr (sp_volname (fs_super s))"

text \<open>A successful unmount releases the file system object: no state is left.\<close>

definition sfs_unmount :: "sfs_fs \<Rightarrow> (unit kresult \<times> sfs_fs option) option" where
  "sfs_unmount s =
     (if array_num (fs_vnodes s) > 0 then Some (Inl EBUSY, Some s)
      else do {
        kassert (\<not> fs_superdirty s);
        kassert (\<not> fs_freemapdirty s);
        _ \<leftarrow> array_cleanup (fs_vnodes s);
        Some (Inr (), None)
      })"

text \<open>
  \<open>m_sfs\<close>, \<open>m_arr\<close>, \<open>m_bm1\<close> and \<open>m_bm2\<close> tell whether the allocations of the file system object,
  of the vnode array and of the bitmap and its data succeed. The device is handed back, its
  state may have changed.
\<close>

definition sfs_domount ::
  "bool \<Rightarrow> bool \<Rightarrow> bool \<Rightarrow> bool \<Rightarrow> nat \<Rightarrow> lhd \<Rightarrow> (sfs_fs kresult \<times> lhd) option" where
  "sfs_domount m_sfs m_arr m_bm1 m_bm2 d_blocksize dev =
     (if d_blocksize \<noteq> SFS_BLOCKSIZE then Some (Inl ENXIO, dev)
      else if \<not> m_sfs then Some (Inl ENOMEM, dev)
      else
        (case array_create m_arr of
           None \<Rightarrow> Some (Inl ENOMEM, dev)
         | Some vnodes \<Rightarrow>
             do {
               (result, buf, dev1) \<leftarrow> sfs_rblock dev zeros SFS_SB_LOCATION;
               (case result of
                  Inl e \<Rightarrow> Some (Inl e, dev1)
                | Inr _ \<Rightarrow>
                    (let super = decode_super buf in
                     if sp_magic super \<noteq> SFS_MAGIC then Some (Inl EINVAL, dev1)
                     else
                       let super' = super\<lparr>sp_volname := (sp_volname super)[SFS_VOLNAME_SIZE - 1 := 0]\<rparr> in
                       do {
                         bm \<leftarrow> bitmap_create m_bm1 m_bm2 (SFS_BITMAPSIZE (sp_nblocks super'));
                         (case bm of
                            None \<Rightarrow> Some (Inl ENOMEM, dev1)
                          | Some freemap \<Rightarrow>
                              do {
                                (result2, s) \<leftarrow> sfs_mapio \<lparr>fs_dev = dev1, fs_super = super', fs_superdirty = False,
                                  fs_freemap = freemap, fs_freemapdirty = False, fs_vnodes = vnodes,
                                  fs_vn = (\<lambda>p. None)\<rparr> UIO_READ;
                                (case result2 of
                                   Inl e \<Rightarrow> Some (Inl e, fs_dev s)
                                 | Inr _ \<Rightarrow> Some (Inr s, fs_dev s))
                              })
                       }))
             }))"

subsection \<open>The free map on disk\<close>

text \<open>The geometry of a volume: the bitmap fills whole blocks, which lie within the volume.\<close>

definition map_geometry :: "sfs_fs \<Rightarrow> bool" where
  "map_geometry s \<longleftrightarrow>
     b_nbits (fs_freemap s) = SFS_BITMAPSIZE (fs_nblocks s) \<and>
     length (b_v (fs_freemap s)) = SFS_BITBLOCKS (fs_nblocks s) * SFS_BLOCKSIZE \<and>
     SFS_MAP_LOCATION + SFS_BITBLOCKS (fs_nblocks s) \<le> fs_nblocks s"

definition map_block :: "sfs_fs \<Rightarrow> nat \<Rightarrow> u8 list" where
  "map_block s j = take SFS_BLOCKSIZE (drop (j * SFS_BLOCKSIZE) (b_v (fs_freemap s)))"

text \<open>The disk holds the free map in its blocks.\<close>

definition map_on_disk :: "sfs_fs \<Rightarrow> (nat \<Rightarrow> u8 list) \<Rightarrow> bool" where
  "map_on_disk s disk \<longleftrightarrow> (\<forall>j < SFS_BITBLOCKS (fs_nblocks s). disk (SFS_MAP_LOCATION + j) = map_block s j)"

lemma map_block_bounds:
  assumes "map_geometry s" and "j < SFS_BITBLOCKS (fs_nblocks s)"
  shows "(j + 1) * SFS_BLOCKSIZE \<le> length (b_v (fs_freemap s))" and "length (map_block s j) = SFS_BLOCKSIZE"
    and "SFS_MAP_LOCATION + j < fs_nblocks s"
proof -
  have "(j + 1) * SFS_BLOCKSIZE \<le> SFS_BITBLOCKS (fs_nblocks s) * SFS_BLOCKSIZE"
    using assms(2) by (intro mult_le_mono1) simp
  then show a: "(j + 1) * SFS_BLOCKSIZE \<le> length (b_v (fs_freemap s))" using assms(1) by (simp add: map_geometry_def)
  then show "length (map_block s j) = SFS_BLOCKSIZE" by (simp add: map_block_def)
  show "SFS_MAP_LOCATION + j < fs_nblocks s" using assms by (simp add: map_geometry_def)
qed

lemma mapio_write:
  assumes "fs_ok s" and "map_geometry s" and "n = SFS_BITBLOCKS (fs_nblocks s)" and "j \<le> n"
  shows "\<exists>s'. sfs_mapio_from n s UIO_WRITE j = Some (Inr (), s') \<and> fs_ok s' \<and> fs_same s s' \<and>
     fs_freemap s' = fs_freemap s \<and> fs_freemapdirty s' = fs_freemapdirty s \<and>
     fs_disk s' = (\<lambda>b. if SFS_MAP_LOCATION + j \<le> b \<and> b < SFS_MAP_LOCATION + n
                       then map_block s (b - SFS_MAP_LOCATION) else fs_disk s b)"
  using assms
proof (induction "n - j" arbitrary: j s)
  case 0
  then show ?case by (subst sfs_mapio_from.simps) (auto simp: fun_eq_iff)
next
  case (Suc m)
  let ?b = "SFS_MAP_LOCATION + j"
  have j: "j < n" "m = n - Suc j" "Suc j \<le> n" using Suc.hyps(2) by simp_all
  note mb = map_block_bounds [OF Suc.prems(2), of j] 
  have bb: "j < SFS_BITBLOCKS (fs_nblocks s)" using j(1) Suc.prems(3) by simp
  from fs_wblock_ok [OF Suc.prems(1) mb(3,2) [OF bb]] obtain s1 where
    s1: "fs_wblock s (map_block s j) ?b = Some (Inr (), s1)" "fs_ok s1" "fs_same s s1"
      "fs_disk s1 = (fs_disk s)(?b := map_block s j)" "fs_freemap s1 = fs_freemap s" by blast
  have dirty: "fs_freemapdirty s1 = fs_freemapdirty s"
    using s1(1) by (auto simp: fs_wblock_def bind_eq_Some_conv)
  have eq: "map_geometry s1" "n = SFS_BITBLOCKS (fs_nblocks s1)" "map_block s1 = map_block s"
    using Suc.prems(2,3) s1(3,5) by (auto simp: map_geometry_def fs_same_def map_block_def fun_eq_iff)
  from Suc.hyps(1) [OF j(2) s1(2) eq(1,2) j(3)] obtain s2 where
    s2: "sfs_mapio_from n s1 UIO_WRITE (Suc j) = Some (Inr (), s2)" "fs_ok s2" "fs_same s1 s2"
      "fs_freemap s2 = fs_freemap s1" "fs_freemapdirty s2 = fs_freemapdirty s1"
      "fs_disk s2 = (\<lambda>b. if SFS_MAP_LOCATION + Suc j \<le> b \<and> b < SFS_MAP_LOCATION + n
                       then map_block s1 (b - SFS_MAP_LOCATION) else fs_disk s1 b)" by blast
  have "sfs_mapio_block s UIO_WRITE j = Some (Inr (), s1)"
    using s1(1) mb(1) [OF bb] by (simp add: sfs_mapio_block_def bitmap_getdata_def map_block_def)
  then have "sfs_mapio_from n s UIO_WRITE j = Some (Inr (), s2)"
    using j(1) s2(1) by (subst sfs_mapio_from.simps) simp
  moreover have "fs_disk s2 = (\<lambda>b. if SFS_MAP_LOCATION + j \<le> b \<and> b < SFS_MAP_LOCATION + n
                       then map_block s (b - SFS_MAP_LOCATION) else fs_disk s b)"
    unfolding s2(6) s1(4) eq(3) using j(1) by (auto simp: fun_eq_iff)
  ultimately show ?case
    using s2(2,4,5) s1(5) dirty fs_same_trans [OF s1(3) s2(3)] by simp
qed

lemma concat_slices:
  assumes "length xs = n * m"
  shows "concat (map (\<lambda>k. take m (drop (k * m) xs)) [0..<n]) = xs"
  using assms
proof (induction n arbitrary: xs)
  case 0
  then show ?case by simp
next
  case (Suc n)
  have step: "map (\<lambda>k. take m (drop (k * m) xs)) [0..<n] = map (\<lambda>k. take m (drop (k * m) (take (n * m) xs))) [0..<n]"
  proof (rule map_cong [OF refl])
    fix k assume "k \<in> set [0..<n]"
    then have "(k + 1) * m \<le> n * m" by (intro mult_le_mono1) simp
    then show "take m (drop (k * m) xs) = take m (drop (k * m) (take (n * m) xs))"
      by (simp add: drop_take min_def)
  qed
  have "length (take (n * m) xs) = n * m" using Suc.prems by simp
  note ih = Suc.IH [OF this]
  have "concat (map (\<lambda>k. take m (drop (k * m) xs)) [0..<Suc n]) =
    concat (map (\<lambda>k. take m (drop (k * m) xs)) [0..<n]) @ drop (n * m) xs" using Suc.prems by simp
  also have "\<dots> = xs" unfolding step ih by simp
  finally show ?case .
qed

lemma mapio_read:
  assumes "lhd_ok (fs_dev s)" and "length (b_v (fs_freemap s)) = n * SFS_BLOCKSIZE"
    and "SFS_MAP_LOCATION + n \<le> lh_blocks (fs_dev s)" and "j \<le> n"
  shows "\<exists>s'. sfs_mapio_from n s UIO_READ j = Some (Inr (), s') \<and> lhd_ok (fs_dev s') \<and> fs_disk s' = fs_disk s \<and>
     lh_blocks (fs_dev s') = lh_blocks (fs_dev s) \<and>
     s' = s\<lparr>fs_dev := fs_dev s', fs_freemap := (fs_freemap s)\<lparr>b_v := take (j * SFS_BLOCKSIZE) (b_v (fs_freemap s)) @
       concat (map (\<lambda>k. fs_disk s (SFS_MAP_LOCATION + k)) [j..<n])\<rparr>\<rparr>"
  using assms
proof (induction "n - j" arbitrary: j s)
  case 0
  then show ?case by (subst sfs_mapio_from.simps) simp
next
  case (Suc m)
  let ?b = "SFS_MAP_LOCATION + j" and ?v = "b_v (fs_freemap s)"
  have j: "j < n" "m = n - Suc j" "Suc j \<le> n" using Suc.hyps(2) by simp_all
  have "(j + 1) * SFS_BLOCKSIZE \<le> n * SFS_BLOCKSIZE" using j(1) by (intro mult_le_mono1) simp
  then have len: "(j + 1) * SFS_BLOCKSIZE \<le> length ?v" using Suc.prems(2) by simp
  then have buf: "length (take SFS_BLOCKSIZE (drop (j * SFS_BLOCKSIZE) ?v)) = SFS_BLOCKSIZE" by simp
  have bl: "?b < lh_blocks (fs_dev s)" using Suc.prems(3) j(1) by simp
  from sb.rblock [OF Suc.prems(1) bl buf] obtain d where
    d: "sfs_rblock (fs_dev s) (take SFS_BLOCKSIZE (drop (j * SFS_BLOCKSIZE) ?v)) ?b = Some (Inr (), fs_disk s ?b, d)"
      "lhd_ok d" "lh_disk d = fs_disk s" "lh_blocks d = lh_blocks (fs_dev s)" by blast
  have lb: "length (fs_disk s ?b) = SFS_BLOCKSIZE"
    using Suc.prems(1) bl by (auto simp: lhd_ok_def lhd_wf_def LHD_SECTSIZE_def SFS_BLOCKSIZE_def)
  let ?v1 = "take (j * SFS_BLOCKSIZE) ?v @ fs_disk s ?b @ drop ((j + 1) * SFS_BLOCKSIZE) ?v"
  let ?s1 = "s\<lparr>fs_dev := d, fs_freemap := (fs_freemap s)\<lparr>b_v := ?v1\<rparr>\<rparr>"
  have blk: "sfs_mapio_block s UIO_READ j = Some (Inr (), ?s1)"
    using d(1) len by (simp add: sfs_mapio_block_def bitmap_getdata_def fs_rblock_def Let_def)
  have "j * SFS_BLOCKSIZE \<le> length ?v" using len by simp
  then have v1: "take (Suc j * SFS_BLOCKSIZE) ?v1 = take (j * SFS_BLOCKSIZE) ?v @ fs_disk s ?b"
    using lb by (simp add: min_absorb2)
  have "length ?v1 = n * SFS_BLOCKSIZE" using lb len Suc.prems(2) by simp
  with Suc.hyps(1) [OF j(2), of ?s1] d(2,4) Suc.prems(3) j(3) obtain s' where
    s': "sfs_mapio_from n ?s1 UIO_READ (Suc j) = Some (Inr (), s')" "lhd_ok (fs_dev s')"
      "fs_disk s' = fs_disk ?s1" "lh_blocks (fs_dev s') = lh_blocks (fs_dev ?s1)"
      "s' = ?s1\<lparr>fs_dev := fs_dev s', fs_freemap := (fs_freemap ?s1)\<lparr>b_v := take (Suc j * SFS_BLOCKSIZE) (b_v (fs_freemap ?s1)) @
       concat (map (\<lambda>k. fs_disk ?s1 (SFS_MAP_LOCATION + k)) [Suc j..<n])\<rparr>\<rparr>" by auto
  have run: "sfs_mapio_from n s UIO_READ j = Some (Inr (), s')"
    using j(1) blk s'(1) by (subst sfs_mapio_from.simps) simp
  have "s' = s\<lparr>fs_dev := fs_dev s', fs_freemap := (fs_freemap s)\<lparr>b_v := take (Suc j * SFS_BLOCKSIZE) ?v1 @
       concat (map (\<lambda>k. fs_disk s (SFS_MAP_LOCATION + k)) [Suc j..<n])\<rparr>\<rparr>"
    using s'(5) d(3) by simp
  then have "s' = s\<lparr>fs_dev := fs_dev s', fs_freemap := (fs_freemap s)\<lparr>b_v := take (j * SFS_BLOCKSIZE) ?v @
       concat (map (\<lambda>k. fs_disk s (SFS_MAP_LOCATION + k)) [j..<n])\<rparr>\<rparr>"
    unfolding v1 using j(1) by (simp add: upt_conv_Cons)
  with run s'(2,3,4) d(3,4) show ?case by (intro exI [of _ s'] conjI) simp_all
qed

subsection \<open>Syncing the inodes\<close>

definition inodes :: "sfs_fs \<Rightarrow> nat set" where
  "inodes s = sv_ino ` ran (fs_vn s)"

text \<open>The inodes of the vnodes in \<open>ps\<close> have been written, the rest of the volume is as it was.\<close>

definition synced :: "nat set \<Rightarrow> sfs_fs \<Rightarrow> sfs_fs \<Rightarrow> bool" where
  "synced ps s s' \<longleftrightarrow> fs_inv s' \<and> fs_super s' = fs_super s \<and> fs_superdirty s' = fs_superdirty s \<and>
     fs_vnodes s' = fs_vnodes s \<and> fs_freemap s' = fs_freemap s \<and> fs_freemapdirty s' = fs_freemapdirty s \<and>
     fs_vn s' = (\<lambda>q. map_option (\<lambda>sv. sv\<lparr>sv_dirty := (sv_dirty sv \<and> q \<notin> ps)\<rparr>) (fs_vn s q)) \<and>
     (\<forall>b. b \<notin> inodes s \<longrightarrow> fs_disk s' b = fs_disk s b) \<and>
     (\<forall>q sv. fs_vn s q = Some sv \<longrightarrow> fs_disk s' (sv_ino sv) =
        (if q \<in> ps \<and> sv_dirty sv then encode_inode (sv_i sv) else fs_disk s (sv_ino sv)))"

lemma syncedD:
  assumes "synced ps s s'"
  shows "fs_inv s'" "fs_super s' = fs_super s" "fs_superdirty s' = fs_superdirty s"
    "fs_vnodes s' = fs_vnodes s" "fs_freemap s' = fs_freemap s" "fs_freemapdirty s' = fs_freemapdirty s"
    "fs_vn s' = (\<lambda>q. map_option (\<lambda>sv. sv\<lparr>sv_dirty := (sv_dirty sv \<and> q \<notin> ps)\<rparr>) (fs_vn s q))"
    "b \<notin> inodes s \<Longrightarrow> fs_disk s' b = fs_disk s b"
    "fs_vn s q = Some sv \<Longrightarrow> fs_disk s' (sv_ino sv) =
        (if q \<in> ps \<and> sv_dirty sv then encode_inode (sv_i sv) else fs_disk s (sv_ino sv))"
  using assms by (simp_all add: synced_def)

lemma synced_refl: "fs_inv s \<Longrightarrow> synced {} s s"
  by (auto simp: synced_def fun_eq_iff option.map_id0 split: option.splits) (simp add: option.map_ident)

lemma synced_inodes: "synced ps s s' \<Longrightarrow> inodes s' = inodes s"
  unfolding inodes_def by (force simp: syncedD(7) ran_def image_iff)

lemma synced_trans:
  assumes "synced ps s s1" and "synced qs s1 s2"
  shows "synced (ps \<union> qs) s s2"
proof -
  note a = syncedD [OF assms(1)] and b = syncedD [OF assms(2)]
  have vn: "fs_vn s2 = (\<lambda>q. map_option (\<lambda>sv. sv\<lparr>sv_dirty := (sv_dirty sv \<and> q \<notin> ps \<union> qs)\<rparr>) (fs_vn s q))"
    unfolding b(7) a(7) by (auto simp: fun_eq_iff option.map_comp comp_def intro!: option.map_cong)
  have disk: "fs_disk s2 x = fs_disk s x" if "x \<notin> inodes s" for x
    using that a(8) [OF that] b(8) [of x] synced_inodes [OF assms(1)] by simp
  have ino: "fs_disk s2 (sv_ino sv) =
      (if q \<in> ps \<union> qs \<and> sv_dirty sv then encode_inode (sv_i sv) else fs_disk s (sv_ino sv))"
    if q: "fs_vn s q = Some sv" for q sv
  proof -
    have "fs_vn s1 q = Some (sv\<lparr>sv_dirty := (sv_dirty sv \<and> q \<notin> ps)\<rparr>)" using a(7) q by simp
    from b(9) [OF this] a(9) [OF q] show ?thesis by auto
  qed
  show ?thesis unfolding synced_def using a(2-6) b(1-6) vn disk ino by simp
qed

lemma put_vn_flags [simp]:
  "fs_superdirty (put_vn s p sv) = fs_superdirty s" "fs_freemapdirty (put_vn s p sv) = fs_freemapdirty s"
  by (simp_all add: put_vn_def)

lemma inode_distinct:
  assumes "fs_inv s" and "fs_vn s p = Some sv" and "fs_vn s q = Some sw" and "q \<noteq> p"
  shows "sv_ino sw \<noteq> sv_ino sv"
  using fs_invD(7) [OF assms(1-3)] assms(4) by (auto simp: vn_blocks_def)

lemma sync_inode_raw:
  assumes "fs_ok s" and "vnode_ok s sv" and "sfs_sync_inode s sv = Some (Inr (), s', sv')"
  shows "fs_freemapdirty s' = fs_freemapdirty s"
    and "fs_disk s' (sv_ino sv) = (if sv_dirty sv then encode_inode (sv_i sv) else fs_disk s (sv_ino sv))"
proof -
  note d = vnode_okD [OF assms(2)]
  from fs_wblock_ok [OF assms(1) d(5) length_encode_inode [OF inode_okD(1) [OF d(3)]]] obtain s1 where
    s1: "fs_wblock s (encode_inode (sv_i sv)) (sv_ino sv) = Some (Inr (), s1)"
      "fs_disk s1 = (fs_disk s)(sv_ino sv := encode_inode (sv_i sv))" by blast
  have "fs_freemapdirty s1 = fs_freemapdirty s" using s1(1) by (auto simp: fs_wblock_def bind_eq_Some_conv)
  with s1 assms(3) show "fs_freemapdirty s' = fs_freemapdirty s"
    "fs_disk s' (sv_ino sv) = (if sv_dirty sv then encode_inode (sv_i sv) else fs_disk s (sv_ino sv))"
    by (auto simp: sfs_sync_inode_def split: if_splits)
qed

lemma vop_fsync_synced:
  assumes inv: "fs_inv s" and p: "fs_vn s p = Some sv"
  shows "\<exists>s'. vop_fsync s p = Some (Inr (), s') \<and> synced {p} s s'"
proof -
  note i = fs_invD [OF inv]
  note v = i(6) [OF p]
  from file_step_sync [OF i(2) v] obtain s1 where
    s1: "sfs_sync_inode s sv = Some (Inr (), s1, sv\<lparr>sv_dirty := False\<rparr>)"
      "file_step s sv s1 (sv\<lparr>sv_dirty := False\<rparr>)" "fs_freemap s1 = fs_freemap s" by blast
  let ?s = "put_vn s1 p (sv\<lparr>sv_dirty := False\<rparr>)"
  have run: "vop_fsync s p = Some (Inr (), ?s)"
    using p s1(1) vnode_check_live [OF vnode_okD(1) [OF v]] by (simp add: vop_fsync_def sfs_fsync_def sfs_getv_def)
  note same = file_stepD(2) [OF s1(2), unfolded fs_same_def]
  note raw = sync_inode_raw [OF i(2) v s1(1)] and disk = sync_inode_disk [OF i(2) v s1(1)]
  have vn: "fs_vn ?s = (\<lambda>q. map_option (\<lambda>sv. sv\<lparr>sv_dirty := (sv_dirty sv \<and> q \<notin> {p})\<rparr>) (fs_vn s q))"
    using same p by (auto simp: fun_eq_iff put_vn_def option.map_ident)
  have "fs_disk ?s (sv_ino sw) = (if q \<in> {p} \<and> sv_dirty sw then encode_inode (sv_i sw) else fs_disk s (sv_ino sw))"
    if "fs_vn s q = Some sw" for q sw
    using that p raw(2) disk [OF inode_distinct [OF inv p that]] by (cases "q = p") auto
  moreover have "fs_disk ?s b = fs_disk s b" if "b \<notin> inodes s" for b
    using that p disk [of b] by (auto simp: inodes_def ran_def image_iff)
  ultimately have "synced {p} s ?s"
    unfolding synced_def using fs_inv_step(1) [OF inv p s1(2)] same s1(3) raw(1) vn by simp
  with run show ?thesis by blast
qed

lemma sync_vnodes_synced:
  assumes "fs_inv s" and "i \<le> array_num (fs_vnodes s)"
  shows "\<exists>s'. sync_vnodes (array_num (fs_vnodes s)) s i = Some s' \<and>
     synced (set (drop i (array_elems (fs_vnodes s)))) s s'"
  using assms
proof (induction "array_num (fs_vnodes s) - i" arbitrary: i s)
  case 0
  then have "drop i (array_elems (fs_vnodes s)) = []"
    using length_array_elems [OF fs_invD(3)] by (simp add: array_num_def)
  with 0 synced_refl show ?case by (subst sync_vnodes.simps) auto
next
  case (Suc m)
  let ?es = "array_elems (fs_vnodes s)" and ?n = "array_num (fs_vnodes s)"
  note inv = fs_invD [OF Suc.prems(1)]
  have i: "i < ?n" using Suc.hyps(2) by simp
  have len: "length ?es = ?n" using length_array_elems [OF inv(3)] by (simp add: array_num_def)
  have get: "array_get (fs_vnodes s) i = Some (?es ! i)"
    using array_get_elems [OF inv(3)] i len by (auto simp: array_num_def)
  have "?es ! i \<in> dom (fs_vn s)" using inv(5) i len by simp
  then obtain sv where sv: "fs_vn s (?es ! i) = Some sv" by blast
  from vop_fsync_synced [OF Suc.prems(1) sv] obtain s1 where
    s1: "vop_fsync s (?es ! i) = Some (Inr (), s1)" "synced {?es ! i} s s1" by blast
  note d = syncedD [OF s1(2)]
  have "m = array_num (fs_vnodes s1) - Suc i" "Suc i \<le> array_num (fs_vnodes s1)"
    using Suc.hyps(2) d(4) i by simp_all
  from Suc.hyps(1) [OF this(1) d(1) this(2)] d(4) obtain s2 where
    s2: "sync_vnodes ?n s1 (Suc i) = Some s2" "synced (set (drop (Suc i) ?es)) s1 s2" by auto
  have "set (drop i ?es) = {?es ! i} \<union> set (drop (Suc i) ?es)"
    using i len by (simp add: Cons_nth_drop_Suc [symmetric])
  with synced_trans [OF s1(2) s2(2)] have "synced (set (drop i ?es)) s s2" by simp
  with i get s1(1) s2(1) show ?case by (subst sync_vnodes.simps) simp
qed

subsection \<open>The volume on disk\<close>

text \<open>
  The layout of a volume as \<open>mksfs\<close> makes it: a superblock that fits its block, the map after
  the root inode, and no file in the blocks of either.
\<close>

definition super_wf :: "sfs_super \<Rightarrow> bool" where
  "super_wf sp \<longleftrightarrow> sp_magic sp = SFS_MAGIC \<and> sp_nblocks sp < 2 ^ 32 \<and>
     length (sp_volname sp) = SFS_VOLNAME_SIZE \<and> sp_volname sp ! (SFS_VOLNAME_SIZE - 1) = 0 \<and>
     length (sp_reserved sp) = 118 \<and> (\<forall>n \<in> set (sp_reserved sp). n < 2 ^ 32)"

definition reserved :: "sfs_fs \<Rightarrow> nat set" where
  "reserved s = insert SFS_SB_LOCATION {SFS_MAP_LOCATION ..< SFS_MAP_LOCATION + SFS_BITBLOCKS (fs_nblocks s)}"

definition layout_ok :: "sfs_fs \<Rightarrow> bool" where
  "layout_ok s \<longleftrightarrow> map_geometry s \<and> super_wf (fs_super s) \<and>
     (\<forall>p sv. fs_vn s p = Some sv \<longrightarrow> vn_blocks s sv \<inter> reserved s = {})"

text \<open>What is not marked dirty is on the disk.\<close>

definition disk_current :: "sfs_fs \<Rightarrow> bool" where
  "disk_current s \<longleftrightarrow>
     (\<not> fs_superdirty s \<longrightarrow> fs_disk s SFS_SB_LOCATION = encode_super (fs_super s)) \<and>
     (\<not> fs_freemapdirty s \<longrightarrow> map_on_disk s (fs_disk s)) \<and>
     (\<forall>p sv. fs_vn s p = Some sv \<longrightarrow> \<not> sv_dirty sv \<longrightarrow> fs_disk s (sv_ino sv) = encode_inode (sv_i sv))"

lemma length_encode_super: "super_wf sp \<Longrightarrow> length (encode_super sp) = SFS_BLOCKSIZE"
  by (simp add: super_wf_def encode_super_def SFS_VOLNAME_SIZE_def SFS_BLOCKSIZE_def)

lemma decode_encode_super:
  assumes "super_wf sp"
  shows "decode_super (encode_super sp) = sp"
proof -
  have m: "SFS_MAGIC < 2 ^ 32" by (simp add: SFS_MAGIC_def)
  have b: "be32s (be32 n) = [n]" if "n < 2 ^ 32" for n using be32s_be32 [OF that, of "[]"] by simp
  show ?thesis
    using assms m by (intro sfs_super.equality) (simp_all add: super_wf_def decode_super_def encode_super_def b be32s_enc32s)
qed

lemma fs_inv_outside:
  assumes inv: "fs_inv s" and ok: "fs_ok s'" and fm: "fs_freemap s' = fs_freemap s"
    and same: "fs_super s' = fs_super s" "fs_vnodes s' = fs_vnodes s" "fs_vn s' = fs_vn s"
    and disk: "\<And>p sv b. fs_vn s p = Some sv \<Longrightarrow> b \<in> vn_blocks s sv \<Longrightarrow> fs_disk s' b = fs_disk s b"
  shows "fs_inv s'" and "fs_vn s p = Some sv \<Longrightarrow> file_blocks s' (sv_i sv) = file_blocks s (sv_i sv)"
proof -
  note i = fs_invD [OF inv]
  have used: "fs_used s' = fs_used s" using fm by (simp add: fs_used_def)
  have keep: "fs_disk s' (sfi_indirect (sv_i sv)) = fs_disk s (sfi_indirect (sv_i sv))"
    if "fs_vn s p = Some sv" "sfi_indirect (sv_i sv) \<noteq> 0" for p sv
    using disk [OF that(1)] file_blocksI(1) [OF that(2)] by (simp add: vn_blocks_def)
  have fb: "file_blocks s' (sv_i sv) = file_blocks s (sv_i sv)" if "fs_vn s p = Some sv" for p sv
    using keep [OF that] by (auto simp: file_blocks_def blk_def)
  then show "fs_vn s p = Some sv \<Longrightarrow> file_blocks s' (sv_i sv) = file_blocks s (sv_i sv)" .
  have v: "vnode_ok s' sv" if p: "fs_vn s p = Some sv" for p sv
  proof -
    have "inode_ok s' (sv_i sv)"
      using used same keep [OF p] by (intro inode_ok_cong [OF vnode_okD(3) [OF i(6) [OF p]]]) (simp_all add: fs_same_def)
    then show ?thesis using i(6) [OF p] used fb [OF p] same by (simp add: vnode_ok_def fs_same_def)
  qed
  have "fs_small s'" using i(1) ok same by (simp add: fs_small_def fs_same_def)
  then show "fs_inv s'"
    using i(3,4,5,7) v fb same by (simp add: fs_inv_def fs_same_def vn_blocks_def)
qed

text \<open>The disk with the free map and the superblock in place.\<close>

definition put_map :: "sfs_fs \<Rightarrow> (nat \<Rightarrow> u8 list) \<Rightarrow> nat \<Rightarrow> u8 list" where
  "put_map s disk = (\<lambda>b. if SFS_MAP_LOCATION \<le> b \<and> b < SFS_MAP_LOCATION + SFS_BITBLOCKS (fs_nblocks s)
                         then map_block s (b - SFS_MAP_LOCATION) else disk b)"

lemma put_map_id: "map_on_disk s disk \<Longrightarrow> put_map s disk = disk"
  unfolding map_on_disk_def put_map_def fun_eq_iff by (metis le_add_diff_inverse less_diff_conv2 add.commute)

lemma put_map_on_disk: "map_on_disk s (put_map s disk)"
  by (simp add: map_on_disk_def put_map_def)

lemma put_map_outside: "b \<notin> reserved s \<Longrightarrow> put_map s disk b = disk b"
  by (auto simp: put_map_def reserved_def)

lemma sync_freemap_ok:
  assumes "fs_ok s" and "map_geometry s" and "\<not> fs_freemapdirty s \<longrightarrow> map_on_disk s (fs_disk s)"
  shows "\<exists>s'. sync_freemap s = Some (Inr (), s') \<and> fs_ok s' \<and> fs_same s s' \<and> fs_freemap s' = fs_freemap s \<and>
     \<not> fs_freemapdirty s' \<and> fs_disk s' = put_map s (fs_disk s)"
proof (cases "fs_freemapdirty s")
  case True
  from mapio_write [OF assms(1,2) refl, of 0] obtain s1 where
    s1: "sfs_mapio s UIO_WRITE = Some (Inr (), s1)" "fs_ok s1" "fs_same s s1" "fs_freemap s1 = fs_freemap s"
      "fs_disk s1 = put_map s (fs_disk s)" by (auto simp: sfs_mapio_def put_map_def)
  have "fs_ok (s1\<lparr>fs_freemapdirty := False\<rparr>)" "fs_same s (s1\<lparr>fs_freemapdirty := False\<rparr>)"
    using s1(2,3) by (simp_all add: fs_ok_def fs_same_def fs_used_def)
  with s1 True show ?thesis by (simp add: sync_freemap_def)
next
  case False
  with assms put_map_id show ?thesis by (simp add: sync_freemap_def)
qed

lemma sync_superblock_ok:
  assumes "fs_ok s" and "super_wf (fs_super s)" and "0 < fs_nblocks s"
    and "\<not> fs_superdirty s \<longrightarrow> fs_disk s SFS_SB_LOCATION = encode_super (fs_super s)"
  shows "\<exists>s'. sync_superblock s = Some (Inr (), s') \<and> fs_ok s' \<and>
     fs_super s' = fs_super s \<and> fs_vnodes s' = fs_vnodes s \<and> fs_vn s' = fs_vn s \<and> fs_freemap s' = fs_freemap s \<and>
     fs_freemapdirty s' = fs_freemapdirty s \<and> \<not> fs_superdirty s' \<and>
     fs_disk s' = (fs_disk s)(SFS_SB_LOCATION := encode_super (fs_super s))"
proof (cases "fs_superdirty s")
  case True
  have "SFS_SB_LOCATION < fs_nblocks s" using assms(3) by (simp add: SFS_SB_LOCATION_def)
  from fs_wblock_ok [OF assms(1) this length_encode_super [OF assms(2)]] obtain s1 where
    s1: "fs_wblock s (encode_super (fs_super s)) SFS_SB_LOCATION = Some (Inr (), s1)" "fs_ok s1" "fs_same s s1"
      "fs_disk s1 = (fs_disk s)(SFS_SB_LOCATION := encode_super (fs_super s))" "fs_freemap s1 = fs_freemap s" by blast
  have "fs_freemapdirty s1 = fs_freemapdirty s" using s1(1) by (auto simp: fs_wblock_def bind_eq_Some_conv)
  moreover have "fs_ok (s1\<lparr>fs_superdirty := False\<rparr>)" using s1(2) by (simp add: fs_ok_def fs_used_def)
  ultimately show ?thesis using s1 True by (simp add: sync_superblock_def fs_same_def)
next
  case False
  with assms(4) have "fs_disk s = (fs_disk s)(SFS_SB_LOCATION := encode_super (fs_super s))" by (simp add: fun_eq_iff)
  with False assms(1) show ?thesis by (simp add: sync_superblock_def)
qed

text \<open>A volume with nothing left to write.\<close>

definition on_disk :: "sfs_fs \<Rightarrow> (nat \<Rightarrow> u8 list) \<Rightarrow> bool" where
  "on_disk s disk \<longleftrightarrow> disk SFS_SB_LOCATION = encode_super (fs_super s) \<and> map_on_disk s disk \<and>
     (\<forall>p sv. fs_vn s p = Some sv \<longrightarrow> disk (sv_ino sv) = encode_inode (sv_i sv)) \<and>
     (\<forall>b. b \<notin> reserved s \<longrightarrow> b \<notin> inodes s \<longrightarrow> disk b = fs_disk s b)"

lemma layout_okD:
  assumes "layout_ok s"
  shows "map_geometry s" "super_wf (fs_super s)" "0 < fs_nblocks s"
    "fs_vn s p = Some sv \<Longrightarrow> vn_blocks s sv \<inter> reserved s = {}"
    "SFS_SB_LOCATION \<in> reserved s" "b \<in> inodes s \<Longrightarrow> b \<notin> reserved s"
proof -
  have v: "vn_blocks s sv \<inter> reserved s = {}" if "fs_vn s p = Some sv" for p sv
    using assms that by (simp add: layout_ok_def)
  then show "fs_vn s p = Some sv \<Longrightarrow> vn_blocks s sv \<inter> reserved s = {}" .
  show "b \<notin> reserved s" if "b \<in> inodes s"
  proof -
    from that obtain p sv where "fs_vn s p = Some sv" "b = sv_ino sv" by (auto simp: inodes_def ran_def)
    with v [of p sv] show ?thesis by (auto simp: vn_blocks_def)
  qed
  show "map_geometry s" "super_wf (fs_super s)" "0 < fs_nblocks s" "SFS_SB_LOCATION \<in> reserved s"
    using assms by (simp_all add: layout_ok_def map_geometry_def SFS_MAP_LOCATION_def reserved_def)
qed

lemma file_block_no_inode:
  assumes inv: "fs_inv s" and p: "fs_vn s p = Some sv" and b: "b \<in> file_blocks s (sv_i sv)"
  shows "b \<notin> inodes s"
proof
  assume "b \<in> inodes s"
  then obtain q sw where q: "fs_vn s q = Some sw" "b = sv_ino sw" by (auto simp: inodes_def ran_def)
  show False
  proof (cases "q = p")
    case True
    with q p b vnode_okD(7) [OF fs_invD(6) [OF inv p]] show False by simp
  next
    case False
    with fs_invD(7) [OF inv p q(1)] q(2) b show False by (auto simp: vn_blocks_def)
  qed
qed

lemma map_on_disk_cong:
  assumes "\<And>b. b \<in> reserved s \<Longrightarrow> disk' b = disk b" and "map_on_disk s disk"
  shows "map_on_disk s disk'"
  using assms by (simp add: map_on_disk_def reserved_def)

lemma sync_inodes:
  assumes inv: "fs_inv s" and lay: "layout_ok s" and cur: "disk_current s"
  shows "\<exists>s'. sync_vnodes (array_num (fs_vnodes s)) s 0 = Some s' \<and> fs_inv s' \<and> fs_super s' = fs_super s \<and>
     fs_superdirty s' = fs_superdirty s \<and> fs_vnodes s' = fs_vnodes s \<and> fs_freemap s' = fs_freemap s \<and>
     fs_freemapdirty s' = fs_freemapdirty s \<and>
     fs_vn s' = (\<lambda>q. map_option (\<lambda>sv. sv\<lparr>sv_dirty := False\<rparr>) (fs_vn s q)) \<and>
     (\<forall>b. b \<notin> inodes s \<longrightarrow> fs_disk s' b = fs_disk s b) \<and>
     (\<forall>p sv. fs_vn s p = Some sv \<longrightarrow> fs_disk s' (sv_ino sv) = encode_inode (sv_i sv))"
proof -
  let ?es = "set (array_elems (fs_vnodes s))"
  from sync_vnodes_synced [OF inv, of 0] obtain s' where
    s': "sync_vnodes (array_num (fs_vnodes s)) s 0 = Some s'" "synced ?es s s'" by auto
  note d = syncedD [OF s'(2)]
  have mem: "q \<in> ?es" if "fs_vn s q = Some sv" for q sv using fs_invD(5) [OF inv] that by blast
  have "fs_vn s' = (\<lambda>q. map_option (\<lambda>sv. sv\<lparr>sv_dirty := False\<rparr>) (fs_vn s q))"
    unfolding d(7) using mem by (auto simp: fun_eq_iff intro!: option.map_cong)
  moreover have "fs_disk s' (sv_ino sv) = encode_inode (sv_i sv)" if p: "fs_vn s p = Some sv" for p sv
    using d(9) [OF p] mem [OF p] cur p by (simp add: disk_current_def)
  ultimately show ?thesis using s'(1) d(1-6,8) by (intro exI [of _ s'] conjI allI impI) simp_all
qed

lemma sync_inodes_blocks:
  assumes inv: "fs_inv s" and "\<forall>b. b \<notin> inodes s \<longrightarrow> disk' b = fs_disk s b" and p: "fs_vn s p = Some sv"
    and s': "fs_disk s' = disk'"
  shows "file_blocks s' (sv_i sv) = file_blocks s (sv_i sv)"
proof -
  have "fs_disk s' (sfi_indirect (sv_i sv)) = fs_disk s (sfi_indirect (sv_i sv))" if "sfi_indirect (sv_i sv) \<noteq> 0"
    using assms(2) file_block_no_inode [OF inv p file_blocksI(1) [OF that]] s' by simp
  then show ?thesis by (auto simp: file_blocks_def blk_def)
qed

text \<open>The second half of \<open>sfs_sync\<close>, once the inodes are written.\<close>

lemma sync_map_super:
  assumes inv: "fs_inv s" and lay: "layout_ok s" and fm: "\<not> fs_freemapdirty s \<longrightarrow> map_on_disk s (fs_disk s)"
    and sb: "\<not> fs_superdirty s \<longrightarrow> fs_disk s SFS_SB_LOCATION = encode_super (fs_super s)"
  shows "\<exists>s1 s2. sync_freemap s = Some (Inr (), s1) \<and> sync_superblock s1 = Some (Inr (), s2) \<and>
     fs_inv s2 \<and> fs_super s2 = fs_super s \<and> \<not> fs_superdirty s2 \<and>
     fs_vnodes s2 = fs_vnodes s \<and> fs_freemap s2 = fs_freemap s \<and> \<not> fs_freemapdirty s2 \<and> fs_vn s2 = fs_vn s \<and>
     fs_disk s2 SFS_SB_LOCATION = encode_super (fs_super s) \<and> map_on_disk s (fs_disk s2) \<and>
     (\<forall>b. b \<notin> reserved s \<longrightarrow> fs_disk s2 b = fs_disk s b)"
proof -
  note l = layout_okD [OF lay]
  from sync_freemap_ok [OF fs_invD(2) [OF inv] l(1) fm] obtain s1 where
    s1: "sync_freemap s = Some (Inr (), s1)" "fs_ok s1" "fs_same s s1" "fs_freemap s1 = fs_freemap s"
      "\<not> fs_freemapdirty s1" "fs_disk s1 = put_map s (fs_disk s)" by blast
  note sm = s1(3) [unfolded fs_same_def]
  have loc: "SFS_SB_LOCATION < SFS_MAP_LOCATION" by (simp add: SFS_SB_LOCATION_def SFS_MAP_LOCATION_def)
  have "\<not> fs_superdirty s1 \<longrightarrow> fs_disk s1 SFS_SB_LOCATION = encode_super (fs_super s1)"
    using sb sm s1(6) loc by (simp add: put_map_def)
  from sync_superblock_ok [OF s1(2) _ _ this] l(2,3) sm obtain s2 where
    s2: "sync_superblock s1 = Some (Inr (), s2)" "fs_ok s2" "fs_super s2 = fs_super s"
      "fs_vnodes s2 = fs_vnodes s" "fs_vn s2 = fs_vn s" "fs_freemap s2 = fs_freemap s"
      "\<not> fs_freemapdirty s2" "\<not> fs_superdirty s2"
      "fs_disk s2 = (put_map s (fs_disk s))(SFS_SB_LOCATION := encode_super (fs_super s))" using s1(4,5,6) by auto
  have out: "fs_disk s2 b = fs_disk s b" if "b \<notin> reserved s" for b
    using that l(5) put_map_outside [OF that] s2(9) by auto
  have "map_on_disk s (fs_disk s2)"
    using put_map_on_disk [of s "fs_disk s"] loc unfolding s2(9) by (simp add: map_on_disk_def)
  moreover have "fs_inv s2"
    using out l(4) by (intro fs_inv_outside(1) [OF inv s2(2,6,3,4,5)]) blast
  ultimately show ?thesis
    using s1(1) s2(1,3-8) out s2(9) by (intro exI [of _ s1] exI [of _ s2] conjI allI impI) simp_all
qed

lemma sfs_sync_result:
  assumes inv: "fs_inv s" and lay: "layout_ok s" and cur: "disk_current s"
  shows "\<exists>s'. sfs_sync s = Some (Inr (), s') \<and> fs_inv s' \<and> fs_super s' = fs_super s \<and> \<not> fs_superdirty s' \<and>
     fs_vnodes s' = fs_vnodes s \<and> fs_freemap s' = fs_freemap s \<and> \<not> fs_freemapdirty s' \<and>
     fs_vn s' = (\<lambda>q. map_option (\<lambda>sv. sv\<lparr>sv_dirty := False\<rparr>) (fs_vn s q)) \<and> on_disk s (fs_disk s')"
proof -
  note l = layout_okD [OF lay]
  from sync_inodes [OF assms] obtain s1 where
    s1: "sync_vnodes (array_num (fs_vnodes s)) s 0 = Some s1" "fs_inv s1" "fs_super s1 = fs_super s"
      "fs_superdirty s1 = fs_superdirty s" "fs_vnodes s1 = fs_vnodes s" "fs_freemap s1 = fs_freemap s"
      "fs_freemapdirty s1 = fs_freemapdirty s"
      "fs_vn s1 = (\<lambda>q. map_option (\<lambda>sv. sv\<lparr>sv_dirty := False\<rparr>) (fs_vn s q))"
      "\<forall>b. b \<notin> inodes s \<longrightarrow> fs_disk s1 b = fs_disk s b"
      "\<forall>p sv. fs_vn s p = Some sv \<longrightarrow> fs_disk s1 (sv_ino sv) = encode_inode (sv_i sv)" by blast
  have eq: "map_geometry s1" "reserved s1 = reserved s" "map_on_disk s1 = map_on_disk s"
    using s1(3,6) l(1) by (simp_all add: map_block_def fun_eq_iff map_geometry_def reserved_def map_on_disk_def)
  have res: "fs_disk s1 b = fs_disk s b" if "b \<in> reserved s" for b using s1(9) l(6) [of b] that by blast
  have vb: "vn_blocks s1 sv \<inter> reserved s = {}" if p: "fs_vn s1 p = Some sv" for p sv
  proof -
    obtain sw where sw: "fs_vn s p = Some sw" "sv = sw\<lparr>sv_dirty := False\<rparr>" using s1(8) p by auto
    then show ?thesis using sync_inodes_blocks [OF inv s1(9) sw(1) refl] l(4) [OF sw(1)] by (simp add: vn_blocks_def)
  qed
  have "layout_ok s1" using vb eq(1,2) l(2) s1(3) by (simp add: layout_ok_def)
  moreover have "\<not> fs_freemapdirty s1 \<longrightarrow> map_on_disk s1 (fs_disk s1)"
    using cur s1(7) map_on_disk_cong [of s "fs_disk s1" "fs_disk s"] res by (simp add: disk_current_def eq(3))
  moreover have "\<not> fs_superdirty s1 \<longrightarrow> fs_disk s1 SFS_SB_LOCATION = encode_super (fs_super s1)"
    using cur s1(3,4) res [OF l(5)] by (simp add: disk_current_def)
  ultimately obtain s2 s3 where
    s3: "sync_freemap s1 = Some (Inr (), s2)" "sync_superblock s2 = Some (Inr (), s3)"
      "fs_inv s3" "fs_super s3 = fs_super s1" "\<not> fs_superdirty s3" "fs_vnodes s3 = fs_vnodes s1"
      "fs_freemap s3 = fs_freemap s1" "\<not> fs_freemapdirty s3" "fs_vn s3 = fs_vn s1"
      "fs_disk s3 SFS_SB_LOCATION = encode_super (fs_super s1)" "map_on_disk s1 (fs_disk s3)"
      "\<forall>b. b \<notin> reserved s1 \<longrightarrow> fs_disk s3 b = fs_disk s1 b" using sync_map_super [OF s1(2)] by blast
  have "sfs_sync s = Some (Inr (), s3)" using s1(1) s3(1,2) by (simp add: sfs_sync_def)
  moreover have "sv_ino sv \<notin> reserved s" if "fs_vn s p = Some sv" for p sv
    using l(4) [OF that] by (auto simp: vn_blocks_def)
  then have "on_disk s (fs_disk s3)"
    using s3(10-12) s1(3,9,10) eq(2,3) by (simp add: on_disk_def)
  ultimately show ?thesis
    using s3(3-9) s1(3,5,6,8) by (intro exI [of _ s3] conjI) simp_all
qed

subsection \<open>Mounting\<close>

lemma bitmap_size:
  assumes "n \<le> 2 ^ 23"
  shows "SFS_BITMAPSIZE n = SFS_BITBLOCKS n * 4096" and "SFS_BITMAPSIZE n + 7 < 2 ^ 32"
proof -
  let ?k = "(n + 4095) div 4096"
  have "?k * 4096 \<le> n + 4095" by (rule div_times_less_eq_dividend)
  then have k: "?k * 4096 < 2 ^ 31" "n + 4095 < 2 ^ 32" using assms by simp_all
  have sz: "SFS_BITMAPSIZE n = ?k * 4096"
    using k by (simp add: SFS_BITMAPSIZE_def SFS_ROUNDUP_def SFS_BLOCKBITS_def SFS_BLOCKSIZE_def)
  then show "SFS_BITMAPSIZE n = SFS_BITBLOCKS n * 4096" by (simp add: SFS_BITBLOCKS_def SFS_BLOCKBITS_def SFS_BLOCKSIZE_def)
  show "SFS_BITMAPSIZE n + 7 < 2 ^ 32" using sz k(1) by simp
qed

lemma map_on_disk_concat:
  assumes "map_geometry s" and "map_on_disk s disk"
  shows "concat (map (\<lambda>k. disk (SFS_MAP_LOCATION + k)) [0..<SFS_BITBLOCKS (fs_nblocks s)]) = b_v (fs_freemap s)"
proof -
  have m: "map (\<lambda>k. disk (SFS_MAP_LOCATION + k)) [0..<SFS_BITBLOCKS (fs_nblocks s)] =
    map (\<lambda>k. take SFS_BLOCKSIZE (drop (k * SFS_BLOCKSIZE) (b_v (fs_freemap s)))) [0..<SFS_BITBLOCKS (fs_nblocks s)]"
    using assms(2) by (auto simp: map_on_disk_def map_block_def)
  show ?thesis unfolding m using assms(1) by (intro concat_slices) (simp add: map_geometry_def)
qed

lemma sfs_domount_result:
  assumes small: "fs_nblocks s \<le> 2 ^ 23" and geo: "map_geometry s" and sup: "super_wf (fs_super s)"
    and disk: "lh_disk dev SFS_SB_LOCATION = encode_super (fs_super s)" "map_on_disk s (lh_disk dev)"
    and dev: "lhd_ok dev" "fs_nblocks s \<le> lh_blocks dev"
  shows "\<exists>s'. sfs_domount True True True True SFS_BLOCKSIZE dev = Some (Inr s', fs_dev s') \<and>
     fs_super s' = fs_super s \<and> fs_freemap s' = fs_freemap s \<and> \<not> fs_superdirty s' \<and> \<not> fs_freemapdirty s' \<and>
     fs_vnodes s' = array_init \<and> fs_vn s' = (\<lambda>p. None) \<and> fs_disk s' = lh_disk dev \<and> lhd_ok (fs_dev s') \<and>
     lh_blocks (fs_dev s') = lh_blocks dev"
proof -
  let ?n = "SFS_BITBLOCKS (fs_nblocks s)"
  note g = geo [unfolded map_geometry_def]
  have "SFS_SB_LOCATION < lh_blocks dev" using g dev(2) by (simp add: SFS_MAP_LOCATION_def SFS_SB_LOCATION_def)
  from sb.rblock [OF dev(1) this length_zeros] disk(1) obtain d where
    d: "sfs_rblock dev zeros SFS_SB_LOCATION = Some (Inr (), encode_super (fs_super s), d)" "lhd_ok d"
      "lh_disk d = lh_disk dev" "lh_blocks d = lh_blocks dev" by auto
  have vol: "(fs_super s)\<lparr>sp_volname := (sp_volname (fs_super s))[SFS_VOLNAME_SIZE - 1 := 0]\<rparr> = fs_super s"
  proof -
    have "(sp_volname (fs_super s))[SFS_VOLNAME_SIZE - 1 := 0] = sp_volname (fs_super s)"
      using sup by (metis super_wf_def list_update_id)
    then show ?thesis by simp
  qed
  note bs = bitmap_size [OF small]
  from bitmap_create_bits [OF bs(2)] obtain bm where
    bm: "bitmap_create True True (SFS_BITMAPSIZE (fs_nblocks s)) = Some (Some bm)" "bitmap_wf bm"
      "b_nbits bm = SFS_BITMAPSIZE (fs_nblocks s)" by blast
  let ?s0 = "\<lparr>fs_dev = d, fs_super = fs_super s, fs_superdirty = False, fs_freemap = bm,
     fs_freemapdirty = False, fs_vnodes = array_init, fs_vn = (\<lambda>p. None)\<rparr>"
  have "length (b_v bm) = ?n * SFS_BLOCKSIZE"
    using bm(2,3) bs(1) by (simp add: bitmap_wf_def SFS_BLOCKSIZE_def)
  with mapio_read [of ?s0 ?n 0] d(2,4) g dev(2) obtain s' where
    s': "sfs_mapio_from ?n ?s0 UIO_READ 0 = Some (Inr (), s')" "lhd_ok (fs_dev s')" "fs_disk s' = lh_disk dev"
      "lh_blocks (fs_dev s') = lh_blocks dev"
      "s' = ?s0\<lparr>fs_dev := fs_dev s', fs_freemap := bm\<lparr>b_v := concat (map (\<lambda>k. lh_disk dev (SFS_MAP_LOCATION + k)) [0..<?n])\<rparr>\<rparr>"
    using d(3) by auto
  obtain d2 where eq: "s' = ?s0\<lparr>fs_dev := d2, fs_freemap := bm\<lparr>b_v := b_v (fs_freemap s)\<rparr>\<rparr>"
    using s'(5) unfolding map_on_disk_concat [OF geo disk(2)] by blast
  have "bm\<lparr>b_v := b_v (fs_freemap s)\<rparr> = fs_freemap s" using bm(3) g by (intro bitmap.equality) simp_all
  then have fields: "fs_super s' = fs_super s" "fs_freemap s' = fs_freemap s" "\<not> fs_superdirty s'"
    "\<not> fs_freemapdirty s'" "fs_vnodes s' = array_init" "fs_vn s' = (\<lambda>p. None)"
    unfolding eq by simp_all
  have "sfs_domount True True True True SFS_BLOCKSIZE dev = Some (Inr s', fs_dev s')"
    using d(1) sup vol bm(1) s'(1) decode_encode_super [OF sup]
    by (simp add: sfs_domount_def array_create_def sfs_mapio_def super_wf_def Let_def)
  with fields s'(2-4) show ?thesis by (intro exI [of _ s'] conjI) simp_all
qed

subsection \<open>Properties\<close>

text \<open>
  C8. Nothing is lost over a sync and a mount. For a consistent volume whose unmodified parts
  are on the disk, \<open>sfs_sync\<close> succeeds on a working disk and leaves a consistent volume that
  can be unmounted when no file is in memory, and \<open>sfs_domount\<close> on the device then succeeds with
  the same superblock and the same free map; the inode of every file that was in memory is read
  back as it was, with the same blocks and the same contents in them.
\<close>

theorem sfs_sync_mount:
  assumes "fs_inv s" and "layout_ok s" and "disk_current s"
  shows "\<exists>s' s''. sfs_sync s = Some (Inr (), s') \<and> fs_inv s' \<and>
     (array_num (fs_vnodes s) = 0 \<longrightarrow> sfs_unmount s' = Some (Inr (), None)) \<and>
     sfs_domount True True True True SFS_BLOCKSIZE (fs_dev s') = Some (Inr s'', fs_dev s'') \<and>
     fs_super s'' = fs_super s \<and> fs_freemap s'' = fs_freemap s \<and>
     (\<forall>p sv. fs_vn s p = Some sv \<longrightarrow>
        decode_inode (fs_disk s'' (sv_ino sv)) = sv_i sv \<and>
        file_blocks s'' (sv_i sv) = file_blocks s (sv_i sv) \<and>
        (\<forall>b \<in> file_blocks s (sv_i sv). fs_disk s'' b = fs_disk s b))"
proof -
  note i = fs_invD [OF assms(1)] and l = layout_okD [OF assms(2)]
  from sfs_sync_result [OF assms] obtain s' where
    s': "sfs_sync s = Some (Inr (), s')" "fs_inv s'" "fs_super s' = fs_super s" "\<not> fs_superdirty s'"
      "fs_vnodes s' = fs_vnodes s" "\<not> fs_freemapdirty s'" "on_disk s (fs_disk s')" by blast
  note od = s'(7) [unfolded on_disk_def]
  have "lhd_ok (fs_dev s')" "fs_nblocks s \<le> lh_blocks (fs_dev s')"
    using fs_invD(2) [OF s'(2)] s'(3) by (simp_all add: fs_ok_def)
  with sfs_domount_result [OF _ l(1,2)] od i(1) obtain s'' where
    s'': "sfs_domount True True True True SFS_BLOCKSIZE (fs_dev s') = Some (Inr s'', fs_dev s'')"
      "fs_super s'' = fs_super s" "fs_freemap s'' = fs_freemap s" "fs_disk s'' = fs_disk s'"
    unfolding fs_small_def by blast
  have un: "array_num (fs_vnodes s) = 0 \<longrightarrow> sfs_unmount s' = Some (Inr (), None)"
    using s'(4-6) by (auto simp: sfs_unmount_def array_cleanup_def array_num_def)
  have same: "fs_disk s'' b = fs_disk s b" if "fs_vn s p = Some sv" "b \<in> file_blocks s (sv_i sv)" for p sv b
    using od s''(4) l(4) [OF that(1)] file_block_no_inode [OF assms(1) that] that(2) by (auto simp: vn_blocks_def)
  have "file_blocks s'' (sv_i sv) = file_blocks s (sv_i sv)" if p: "fs_vn s p = Some sv" for p sv
  proof -
    have "sfi_indirect (sv_i sv) \<noteq> 0 \<Longrightarrow> fs_disk s'' (sfi_indirect (sv_i sv)) = fs_disk s (sfi_indirect (sv_i sv))"
      using same [OF p file_blocksI(1)] .
    then show ?thesis by (auto simp: file_blocks_def blk_def)
  qed
  moreover have "decode_inode (fs_disk s'' (sv_ino sv)) = sv_i sv" if p: "fs_vn s p = Some sv" for p sv
    using od p s''(4) decode_encode_inode [OF inode_okD(1) [OF vnode_okD(3) [OF i(6) [OF p]]]] by simp
  ultimately show ?thesis
    using s'(1,2) un s''(1-3) same by (intro exI [of _ s'] exI [of _ s''] conjI allI impI ballI) auto
qed

text \<open>A volume of eight blocks with one file, inode 3 and data block 4, everything dirty.\<close>

definition fm_sv :: sfs_vnode where
  "fm_sv = \<lparr>sv_v = vnode_init sfs_fileops,
            sv_i = \<lparr>sfi_size = 10, sfi_type = SFS_TYPE_FILE, sfi_linkcount = 1,
                    sfi_direct = 4 # replicate 14 0, sfi_indirect = 0, sfi_waste = replicate 110 0\<rparr>,
            sv_ino = 3, sv_dirty = True\<rparr>"

definition fm_ex :: sfs_fs where
  "fm_ex = \<lparr>fs_dev = \<lparr>lh_blocks = 8, lh_buf = zeros, lh_disk = (\<lambda>b. zeros), lh_codes = []\<rparr>,
     fs_super = \<lparr>sp_magic = SFS_MAGIC, sp_nblocks = 8, sp_volname = 86 # replicate 31 0,
                 sp_reserved = replicate 118 0\<rparr>,
     fs_superdirty = True, fs_freemap = \<lparr>b_nbits = 4096, b_v = 31 # replicate 511 255\<rparr>, fs_freemapdirty = True,
     fs_vnodes = \<lparr>a_v = [7, 0, 0, 0], a_num = 1, a_max = 4\<rparr>,
     fs_vn = [7 \<mapsto> fm_sv]\<rparr>"

lemma fm_ex_used: "fs_used fm_ex = {0, 1, 2, 3, 4} \<union> {8..<4096}"
proof -
  have m: "(31 :: u8) = mask 5" "(255 :: u8) = mask 8" by (simp_all add: mask_eq_exp_minus_1)
  have "bitmap_bit (fs_freemap fm_ex) i \<longleftrightarrow> i < 5 \<or> 8 \<le> i" if "i < 4096" for i
  proof (cases "i < 8")
    case True
    then show ?thesis unfolding bitmap_bit_def fm_ex_def by (simp add: m bit_mask_iff)
  next
    case False
    then have "i div 8 = Suc (i div 8 - 1)" "i div 8 - 1 < 511" using that by auto
    then have "(31 # replicate 511 255 :: u8 list) ! (i div 8) = 255" by (metis nth_Cons_Suc nth_replicate)
    with False show ?thesis unfolding bitmap_bit_def fm_ex_def by (simp add: m bit_mask_iff)
  qed
  then have "fs_used fm_ex = {i. i < 4096 \<and> (i < 5 \<or> 8 \<le> i)}"
    unfolding fs_used_def bitmap_used_def by (auto simp: fm_ex_def)
  also have "\<dots> = {0, 1, 2, 3, 4} \<union> {8..<4096}" by auto
  finally show ?thesis .
qed

lemma fm_ex_inv: "fs_inv fm_ex" "layout_ok fm_ex" "disk_current fm_ex"
proof -
  have sv: "fs_vn fm_ex = [7 \<mapsto> fm_sv]" "sv_ino fm_sv = 3" "sv_v fm_sv = vnode_init sfs_fileops"
    "sfi_type (sv_i fm_sv) = SFS_TYPE_FILE" "sfi_indirect (sv_i fm_sv) = 0" "sv_dirty fm_sv" by (simp_all add: fm_ex_def fm_sv_def)
  have nb: "fs_nblocks fm_ex = 8" "b_nbits (fs_freemap fm_ex) = 4096" "lh_blocks (fs_dev fm_ex) = 8"
    by (simp_all add: fm_ex_def)
  have bits: "SFS_BITMAPSIZE 8 = 4096" "SFS_BITBLOCKS 8 = 1"
    by (simp_all add: SFS_BITBLOCKS_def SFS_BITMAPSIZE_def SFS_ROUNDUP_def SFS_BLOCKBITS_def SFS_BLOCKSIZE_def)
  have "lhd_ok (fs_dev fm_ex)" by (simp add: lhd_ok_def lhd_wf_def fm_ex_def LHD_SECTSIZE_def SFS_BLOCKSIZE_def)
  moreover have "bitmap_wf (fs_freemap fm_ex)" by (simp add: bitmap_wf_def fm_ex_def)
  ultimately have small: "fs_small fm_ex" using fm_ex_used nb by (auto simp: fs_small_def fs_ok_def)
  have b: "blk fm_ex (sv_i fm_sv) k = (if k = 0 then 4 else 0)" if "k < SFS_MAXBLOCKS" for k
    using that by (auto simp: blk_def fm_sv_def SFS_NDIRECT_def nth_Cons split: nat.splits)
  have fb: "file_blocks fm_ex (sv_i fm_sv) = {4}"
    using b sv(5) by (auto simp: file_blocks_def image_iff SFS_MAXBLOCKS_def SFS_NDIRECT_def split: if_splits)
  have "inode_wf (sv_i fm_sv)" by (simp add: inode_wf_def fm_sv_def SFS_NDIRECT_def SFS_TYPE_FILE_def)
  then have "inode_ok fm_ex (sv_i fm_sv)" using b fb nb fm_ex_used sv(5) by (auto simp: inode_ok_def split: if_splits)
  then have "vnode_ok fm_ex fm_sv"
    using fb fm_ex_used nb sv vnode_init_live [of sfs_fileops] by (simp add: vnode_ok_def ops_match_def vnode_init_def)
  moreover have "array_inv (fs_vnodes fm_ex)" "array_elems (fs_vnodes fm_ex) = [7]"
    by (simp_all add: fm_ex_def array_inv_def array_elems_def)
  ultimately show "fs_inv fm_ex"
    unfolding fs_inv_def sv(1) using small by (auto split: if_splits)
  have "super_wf (fs_super fm_ex)" by (simp add: super_wf_def fm_ex_def SFS_VOLNAME_SIZE_def)
  moreover have "map_geometry fm_ex"
    unfolding map_geometry_def nb bits by (simp add: fm_ex_def SFS_BLOCKSIZE_def SFS_MAP_LOCATION_def)
  ultimately show "layout_ok fm_ex"
    unfolding layout_ok_def sv(1) reserved_def nb bits
    using fb sv(2) by (auto simp: vn_blocks_def SFS_SB_LOCATION_def SFS_MAP_LOCATION_def split: if_splits)
  show "disk_current fm_ex" unfolding disk_current_def sv(1) using sv(6) by (simp add: fm_ex_def split: if_splits)
qed

theorem sfs_sync_mount_witness:
  "\<exists>s' s''. sfs_sync fm_ex = Some (Inr (), s') \<and>
     sfs_domount True True True True SFS_BLOCKSIZE (fs_dev s') = Some (Inr s'', fs_dev s'') \<and>
     sfs_getvolname s'' = [86] \<and> sfi_size (decode_inode (fs_disk s'' 3)) = 10"
proof -
  have v: "fs_vn fm_ex 7 = Some fm_sv" by (simp add: fm_ex_def)
  have f: "sv_ino (fm_sv) = 3" "sfi_size (sv_i (fm_sv)) = 10"
    "sp_volname (fs_super fm_ex) = 86 # replicate 31 0" by (simp_all add: fm_ex_def fm_sv_def)
  from sfs_sync_mount [OF fm_ex_inv] obtain s' s'' where
    s: "sfs_sync fm_ex = Some (Inr (), s')"
      "sfs_domount True True True True SFS_BLOCKSIZE (fs_dev s') = Some (Inr s'', fs_dev s'')"
      "fs_super s'' = fs_super fm_ex"
      "\<forall>p sv. fs_vn fm_ex p = Some sv \<longrightarrow> decode_inode (fs_disk s'' (sv_ino sv)) = sv_i sv" by blast
  have "decode_inode (fs_disk s'' 3) = sv_i (fm_sv)" using s(4) v f(1) by metis
  moreover have "sfs_getvolname s'' = [86]" using s(3) f(3) by (simp add: sfs_getvolname_def cstr_def)
  ultimately show ?thesis using s(1,2) f(2) by auto
qed

end
