(* ===== verification/Vfs_List.thy ===== *)
theory Vfs_List
  imports Kern_Array Vfs_Vnode Kern_Uio
begin

section \<open>The named devices: \<open>kern/vfs/vfslist.c\<close>\<close>

text \<open>
  The table of named devices and the file systems on them, the recursive lock around all file
  system code, and the operations that add, mount, unmount and look up devices. Vnodes, file
  systems and devices are pointers; what is behind them is the \<open>world\<close>, and the calls through
  their tables of functions (\<open>vn_ops\<close>, \<open>struct fs\<close>) are the fields of \<open>vfs_ops\<close>.
\<close>

subsection \<open>Calls through function pointers\<close>

text \<open>
  \<open>vn_get\<close> and \<open>vn_put\<close> give access to the counts of a vnode, \<open>vn_fs\<close> is its file system and
  \<open>vn_newdev\<close> makes the object of a device (or of none) a vnode; \<open>dev_setnum\<close> stores a
  device's number.
\<close>

record ('w, 'o) vfs_ops =
  fs_sync :: "nat \<Rightarrow> 'w \<Rightarrow> (unit kresult \<times> 'w) option"
  fs_getvolname :: "nat \<Rightarrow> 'w \<Rightarrow> string option"
  fs_getroot :: "nat \<Rightarrow> 'w \<Rightarrow> (nat \<times> 'w) option"
  fs_unmount :: "nat \<Rightarrow> 'w \<Rightarrow> (unit kresult \<times> 'w) option"
  vn_get :: "'w \<Rightarrow> nat \<Rightarrow> 'o vnode option"
  vn_put :: "'w \<Rightarrow> nat \<Rightarrow> 'o vnode \<Rightarrow> 'w"
  vn_fs :: "nat \<Rightarrow> 'w \<Rightarrow> nat option"
  vn_newdev :: "nat \<Rightarrow> nat option \<Rightarrow> 'w \<Rightarrow> 'w"
  dev_setnum :: "nat \<Rightarrow> nat \<Rightarrow> 'w \<Rightarrow> 'w"
  vop_reclaim :: "'w \<Rightarrow> nat \<Rightarrow> (unit kresult \<times> 'w) option"
  vop_close :: "'w \<Rightarrow> nat \<Rightarrow> (unit kresult \<times> 'w) option"
  vop_open :: "nat \<Rightarrow> u32 \<Rightarrow> 'w \<Rightarrow> (unit kresult \<times> 'w) option"
  vop_read :: "nat \<Rightarrow> uio \<Rightarrow> 'w \<Rightarrow> ((unit kresult \<times> uio) \<times> 'w) option"
  vop_readlink :: "nat \<Rightarrow> uio \<Rightarrow> 'w \<Rightarrow> ((unit kresult \<times> uio) \<times> 'w) option"
  vop_write :: "nat \<Rightarrow> uio \<Rightarrow> 'w \<Rightarrow> ((unit kresult \<times> uio) \<times> 'w) option"
  vop_gettype :: "nat \<Rightarrow> 'w \<Rightarrow> (nat kresult \<times> 'w) option"
  vop_trunc :: "nat \<Rightarrow> nat \<Rightarrow> 'w \<Rightarrow> (unit kresult \<times> 'w) option"
  vop_namefile :: "nat \<Rightarrow> uio \<Rightarrow> 'w \<Rightarrow> ((unit kresult \<times> uio) \<times> 'w) option"
  vop_creat :: "nat \<Rightarrow> string \<Rightarrow> bool \<Rightarrow> nat \<Rightarrow> 'w \<Rightarrow> (nat kresult \<times> 'w) option"
  vop_symlink :: "nat \<Rightarrow> string \<Rightarrow> string \<Rightarrow> 'w \<Rightarrow> (unit kresult \<times> 'w) option"
  vop_mkdir :: "nat \<Rightarrow> string \<Rightarrow> nat \<Rightarrow> 'w \<Rightarrow> (unit kresult \<times> 'w) option"
  vop_link :: "nat \<Rightarrow> string \<Rightarrow> nat \<Rightarrow> 'w \<Rightarrow> (unit kresult \<times> 'w) option"
  vop_remove :: "nat \<Rightarrow> string \<Rightarrow> 'w \<Rightarrow> (unit kresult \<times> 'w) option"
  vop_rmdir :: "nat \<Rightarrow> string \<Rightarrow> 'w \<Rightarrow> (unit kresult \<times> 'w) option"
  vop_rename :: "nat \<Rightarrow> string \<Rightarrow> nat \<Rightarrow> string \<Rightarrow> 'w \<Rightarrow> (unit kresult \<times> 'w) option"
  vop_lookup :: "nat \<Rightarrow> string \<Rightarrow> 'w \<Rightarrow> (nat kresult \<times> 'w) option"
  vop_lookparent :: "nat \<Rightarrow> string \<Rightarrow> nat \<Rightarrow> 'w \<Rightarrow> ((nat \<times> string) kresult \<times> 'w) option"

subsection \<open>The code\<close>

record knowndev =
  kd_name :: string
  kd_rawname :: "string option"
  kd_device :: "nat option"
  kd_vnode :: nat
  kd_fs :: "nat option"

text \<open>
  The static variables of \<open>vfslist.c\<close> and \<open>vfslookup.c\<close>, the current directory of the running
  process, and the world. \<open>biglock_mine\<close>: this thread holds \<open>vfs_biglock\<close>.
\<close>

record 'w vfs =
  knowndevs :: "knowndev array"
  biglock_mine :: bool
  vfs_biglock_depth :: nat
  bootfs_vnode :: "nat option"
  p_cwd :: "nat option"
  world :: 'w

definition vfs_biglock_acquire :: "'w vfs \<Rightarrow> 'w vfs" where
  "vfs_biglock_acquire s = s\<lparr>biglock_mine := True, vfs_biglock_depth := wrap32 (vfs_biglock_depth s + 1)\<rparr>"

definition vfs_biglock_release :: "'w vfs \<Rightarrow> 'w vfs option" where
  "vfs_biglock_release s = do {
     kassert (biglock_mine s);
     kassert (vfs_biglock_depth s > 0);
     let d = vfs_biglock_depth s - 1;
     Some (s\<lparr>vfs_biglock_depth := d, biglock_mine := d \<noteq> 0\<rparr>) }"

definition vfs_biglock_do_i_hold :: "'w vfs \<Rightarrow> bool" where
  "vfs_biglock_do_i_hold s = biglock_mine s"

text \<open>\<open>VOP_INCREF\<close> on a vnode of the world.\<close>

definition vop_incref :: "('w, 'o) vfs_ops \<Rightarrow> nat \<Rightarrow> 'w vfs \<Rightarrow> 'w vfs option" where
  "vop_incref ops p s = do {
     v \<leftarrow> vn_get ops (world s) p;
     Some (s\<lparr>world := vn_put ops (world s) p (vnode_incref v)\<rparr>) }"

definition vop_decref :: "('w, 'o) vfs_ops \<Rightarrow> nat \<Rightarrow> 'w vfs \<Rightarrow> 'w vfs option" where
  "vop_decref ops p s = do {
     w \<leftarrow> vnode_decref (vn_get ops) (vn_put ops) (vop_reclaim ops) (world s) p;
     Some (s\<lparr>world := w\<rparr>) }"

fun vfs_sync_from :: "('w, 'o) vfs_ops \<Rightarrow> nat \<Rightarrow> nat \<Rightarrow> 'w vfs \<Rightarrow> 'w vfs option" where
  "vfs_sync_from ops 0 i s = Some s"
| "vfs_sync_from ops (Suc n) i s = do {
     dev \<leftarrow> array_get (knowndevs s) i;
     s \<leftarrow> (case kd_fs dev of
            None \<Rightarrow> Some s
          | Some f \<Rightarrow> do { (r, w) \<leftarrow> fs_sync ops f (world s); Some (s\<lparr>world := w\<rparr>) });
     vfs_sync_from ops n (Suc i) s }"

definition vfs_sync :: "('w, 'o) vfs_ops \<Rightarrow> 'w vfs \<Rightarrow> (unit kresult \<times> 'w vfs) option" where
  "vfs_sync ops s = do {
     let s = vfs_biglock_acquire s;
     s \<leftarrow> vfs_sync_from ops (array_num (knowndevs s)) 0 s;
     s \<leftarrow> vfs_biglock_release s;
     Some (Inr (), s) }"

text \<open>\<open>vfs_getroot\<close>: one device, and the loop.\<close>

definition getroot_step ::
  "('w, 'o) vfs_ops \<Rightarrow> knowndev \<Rightarrow> string \<Rightarrow> 'w vfs \<Rightarrow> (nat kresult \<times> 'w vfs) option option" where
  "getroot_step ops kd devname s =
     (if (case kd_fs kd of
            Some f \<Rightarrow> kd_name kd = devname \<or> fs_getvolname ops f (world s) = Some devname
          | None \<Rightarrow> False)
      then do {
        f \<leftarrow> kd_fs kd;
        (p, w) \<leftarrow> fs_getroot ops f (world s);
        Some (Some (Inr p, s\<lparr>world := w\<rparr>)) }
      else if kd_fs kd = None \<and> kd_rawname kd \<noteq> None \<and> kd_name kd = devname then Some (Some (Inl ENXIO, s))
      else if kd_name kd = devname then do {
        kassert (kd_fs kd = None);
        kassert (kd_rawname kd = None);
        kassert (kd_device kd \<noteq> None);
        s \<leftarrow> vop_incref ops (kd_vnode kd) s;
        Some (Some (Inr (kd_vnode kd), s)) }
      else if kd_rawname kd = Some devname then do {
        kassert (kd_device kd \<noteq> None);
        s \<leftarrow> vop_incref ops (kd_vnode kd) s;
        Some (Some (Inr (kd_vnode kd), s)) }
      else Some None)"

fun getroot_from :: "('w, 'o) vfs_ops \<Rightarrow> nat \<Rightarrow> nat \<Rightarrow> string \<Rightarrow> 'w vfs \<Rightarrow> (nat kresult \<times> 'w vfs) option" where
  "getroot_from ops 0 i devname s = Some (Inl ENODEV, s)"
| "getroot_from ops (Suc n) i devname s = do {
     kd \<leftarrow> array_get (knowndevs s) i;
     r \<leftarrow> getroot_step ops kd devname s;
     case r of Some x \<Rightarrow> Some x | None \<Rightarrow> getroot_from ops n (Suc i) devname s }"

definition vfs_getroot :: "('w, 'o) vfs_ops \<Rightarrow> string \<Rightarrow> 'w vfs \<Rightarrow> (nat kresult \<times> 'w vfs) option" where
  "vfs_getroot ops devname s = do {
     kassert (vfs_biglock_do_i_hold s);
     getroot_from ops (array_num (knowndevs s)) 0 devname s }"

fun getdevname_from :: "nat \<Rightarrow> nat \<Rightarrow> nat \<Rightarrow> 'w vfs \<Rightarrow> string option option" where
  "getdevname_from 0 i f s = Some None"
| "getdevname_from (Suc n) i f s = do {
     kd \<leftarrow> array_get (knowndevs s) i;
     if kd_fs kd = Some f then Some (Some (kd_name kd)) else getdevname_from n (Suc i) f s }"

definition vfs_getdevname :: "nat \<Rightarrow> 'w vfs \<Rightarrow> string option option" where
  "vfs_getdevname f s = do {
     kassert (vfs_biglock_do_i_hold s);
     getdevname_from (array_num (knowndevs s)) 0 f s }"

definition mkrawname :: "bool \<Rightarrow> string \<Rightarrow> string option" where
  "mkrawname mem name = (if mem then Some (name @ ''raw'') else None)"

definition samestring :: "string option \<Rightarrow> string option \<Rightarrow> bool" where
  "samestring a b = (if a = None \<or> b = None then False else a = b)"

definition samestring3 :: "string option \<Rightarrow> string option \<Rightarrow> string option \<Rightarrow> string option \<Rightarrow> bool" where
  "samestring3 a b c d = (samestring a b \<or> samestring a c \<or> samestring a d)"

fun badnames_from ::
  "('w, 'o) vfs_ops \<Rightarrow> nat \<Rightarrow> nat \<Rightarrow> string option \<Rightarrow> string option \<Rightarrow> string option \<Rightarrow> 'w vfs \<Rightarrow> bool option" where
  "badnames_from ops 0 i n1 n2 n3 s = Some False"
| "badnames_from ops (Suc n) i n1 n2 n3 s = do {
     kd \<leftarrow> array_get (knowndevs s) i;
     if (case kd_fs kd of Some f \<Rightarrow> samestring3 (fs_getvolname ops f (world s)) n1 n2 n3 | None \<Rightarrow> False) then Some True
     else if samestring3 (kd_rawname kd) n1 n2 n3 \<or> samestring3 (Some (kd_name kd)) n1 n2 n3 then Some True
     else badnames_from ops n (Suc i) n1 n2 n3 s }"

definition badnames ::
  "('w, 'o) vfs_ops \<Rightarrow> string option \<Rightarrow> string option \<Rightarrow> string option \<Rightarrow> 'w vfs \<Rightarrow> bool option" where
  "badnames ops n1 n2 n3 s = do {
     kassert (vfs_biglock_do_i_hold s);
     badnames_from ops (array_num (knowndevs s)) 0 n1 n2 n3 s }"

text \<open>
  The outcomes of the allocations of \<open>vfs_doadd\<close>: the copy of the name, the raw name, the vnode,
  the \<open>struct knowndev\<close> and the growth of the array.
\<close>

record doadd_mem =
  da_name :: bool
  da_raw :: bool
  da_vnode :: "nat option"
  da_kd :: bool
  da_arr :: "knowndev kmem"

text \<open>\<open>vfs_doadd\<close> once the \<open>struct knowndev\<close> is filled in, and as a whole.\<close>

definition doadd_enter :: "('w, 'o) vfs_ops \<Rightarrow> knowndev kmem \<Rightarrow> knowndev \<Rightarrow> 'w vfs \<Rightarrow> (unit kresult \<times> 'w vfs) option" where
  "doadd_enter ops m kd s = do {
     let volname = (case kd_fs kd of None \<Rightarrow> None | Some f \<Rightarrow> fs_getvolname ops f (world s));
     bad \<leftarrow> badnames ops (Some (kd_name kd)) (kd_rawname kd) volname s;
     if bad then do { s \<leftarrow> vfs_biglock_release s; Some (Inl EEXIST, s) }
     else do {
       (result, arr) \<leftarrow> array_add m (knowndevs s) kd;
       let s = s\<lparr>knowndevs := arr\<rparr>;
       let s = (case (result, kd_device kd) of
                  (Inr index, Some d) \<Rightarrow> s\<lparr>world := dev_setnum ops d (index + 1) (world s)\<rparr>
                | _ \<Rightarrow> s);
       s \<leftarrow> vfs_biglock_release s;
       Some (case result of Inl e \<Rightarrow> Inl e | Inr _ \<Rightarrow> Inr (), s) } }"

definition vfs_doadd ::
  "('w, 'o) vfs_ops \<Rightarrow> doadd_mem \<Rightarrow> string \<Rightarrow> bool \<Rightarrow> nat option \<Rightarrow> nat option \<Rightarrow> 'w vfs \<Rightarrow> (unit kresult \<times> 'w vfs) option" where
  "vfs_doadd ops m dname mountable dev fs s = do {
     let s = vfs_biglock_acquire s;
     let nomem = (\<lambda>s. do { s \<leftarrow> vfs_biglock_release s; Some (Inl ENOMEM, s) });
     if \<not> da_name m then nomem s
     else if mountable \<and> \<not> da_raw m then nomem s
     else case da_vnode m of None \<Rightarrow> nomem s | Some v \<Rightarrow>
       (let s = s\<lparr>world := vn_newdev ops v dev (world s)\<rparr> in
        if \<not> da_kd m then nomem s
        else doadd_enter ops (da_arr m) \<lparr>kd_name = dname, kd_rawname = (if mountable then mkrawname True dname else None),
               kd_device = dev, kd_vnode = v, kd_fs = fs\<rparr> s) }"

definition vfs_adddev where
  "vfs_adddev ops m devname dev mountable = vfs_doadd ops m devname mountable (Some dev) None"

definition vfs_addfs where
  "vfs_addfs ops m devname fs = vfs_doadd ops m devname False None (Some fs)"

text \<open>\<open>findmount\<close>: the index stands for the pointer.\<close>

fun findmount_from :: "nat \<Rightarrow> nat \<Rightarrow> string \<Rightarrow> 'w vfs \<Rightarrow> nat option option" where
  "findmount_from 0 i devname s = Some None"
| "findmount_from (Suc n) i devname s = do {
     dev \<leftarrow> array_get (knowndevs s) i;
     if kd_rawname dev = None then findmount_from n (Suc i) devname s
     else if devname = kd_name dev then Some (Some i)
     else findmount_from n (Suc i) devname s }"

definition findmount :: "string \<Rightarrow> 'w vfs \<Rightarrow> nat kresult option" where
  "findmount devname s = do {
     kassert (vfs_biglock_do_i_hold s);
     r \<leftarrow> findmount_from (array_num (knowndevs s)) 0 devname s;
     Some (case r of None \<Rightarrow> Inl ENODEV | Some i \<Rightarrow> Inr i) }"

text \<open>\<open>mountfunc\<close> hands back a file system or an error; \<open>Inr None\<close> is a success that stores \<open>NULL\<close>.\<close>

definition vfs_mount ::
  "('w, 'o) vfs_ops \<Rightarrow> string \<Rightarrow> (nat \<Rightarrow> 'w \<Rightarrow> (nat option kresult \<times> 'w) option) \<Rightarrow> 'w vfs \<Rightarrow> (unit kresult \<times> 'w vfs) option" where
  "vfs_mount ops devname mountfunc s = do {
     let s = vfs_biglock_acquire s;
     r \<leftarrow> findmount devname s;
     case r of
       Inl e \<Rightarrow> do { s \<leftarrow> vfs_biglock_release s; Some (Inl e, s) }
     | Inr i \<Rightarrow> do {
         kd \<leftarrow> array_get (knowndevs s) i;
         if kd_fs kd \<noteq> None then do { s \<leftarrow> vfs_biglock_release s; Some (Inl EBUSY, s) }
         else do {
           kassert (kd_rawname kd \<noteq> None);
           d \<leftarrow> kd_device kd;
           (result, w) \<leftarrow> mountfunc d (world s);
           let s = s\<lparr>world := w\<rparr>;
           case result of
             Inl e \<Rightarrow> do { s \<leftarrow> vfs_biglock_release s; Some (Inl e, s) }
           | Inr fs \<Rightarrow> do {
               kassert (fs \<noteq> None);
               arr \<leftarrow> array_set (knowndevs s) i (kd\<lparr>kd_fs := fs\<rparr>);
               s \<leftarrow> vfs_biglock_release (s\<lparr>knowndevs := arr\<rparr>);
               Some (Inr (), s) } } } }"

definition vfs_unmount :: "('w, 'o) vfs_ops \<Rightarrow> string \<Rightarrow> 'w vfs \<Rightarrow> (unit kresult \<times> 'w vfs) option" where
  "vfs_unmount ops devname s = do {
     let s = vfs_biglock_acquire s;
     r \<leftarrow> findmount devname s;
     case r of
       Inl e \<Rightarrow> do { s \<leftarrow> vfs_biglock_release s; Some (Inl e, s) }
     | Inr i \<Rightarrow> do {
         kd \<leftarrow> array_get (knowndevs s) i;
         case kd_fs kd of
           None \<Rightarrow> do { s \<leftarrow> vfs_biglock_release s; Some (Inl EINVAL, s) }
         | Some f \<Rightarrow> do {
             kassert (kd_rawname kd \<noteq> None);
             kassert (kd_device kd \<noteq> None);
             (result, w) \<leftarrow> fs_sync ops f (world s);
             let s = s\<lparr>world := w\<rparr>;
             case result of
               Inl e \<Rightarrow> do { s \<leftarrow> vfs_biglock_release s; Some (Inl e, s) }
             | Inr _ \<Rightarrow> do {
                 (result, w) \<leftarrow> fs_unmount ops f (world s);
                 let s = s\<lparr>world := w\<rparr>;
                 case result of
                   Inl e \<Rightarrow> do { s \<leftarrow> vfs_biglock_release s; Some (Inl e, s) }
                 | Inr _ \<Rightarrow> do {
                     arr \<leftarrow> array_set (knowndevs s) i (kd\<lparr>kd_fs := None\<rparr>);
                     s \<leftarrow> vfs_biglock_release (s\<lparr>knowndevs := arr\<rparr>);
                     Some (Inr (), s) } } } } }"

text \<open>One device of \<open>vfs_unmountall\<close>.\<close>

definition unmount_step :: "('w, 'o) vfs_ops \<Rightarrow> nat \<Rightarrow> knowndev \<Rightarrow> nat \<Rightarrow> 'w vfs \<Rightarrow> 'w vfs option" where
  "unmount_step ops i dev f s = do {
     (result, w) \<leftarrow> fs_sync ops f (world s);
     (result, w) \<leftarrow> (case result of Inr _ \<Rightarrow> Some (result, w) | Inl _ \<Rightarrow> fs_sync ops f w);
     let s = s\<lparr>world := w\<rparr>;
     case result of
       Inl _ \<Rightarrow> Some s
     | Inr _ \<Rightarrow> do {
         (result, w) \<leftarrow> fs_unmount ops f (world s);
         let s = s\<lparr>world := w\<rparr>;
         case result of
           Inl _ \<Rightarrow> Some s
         | Inr _ \<Rightarrow> do {
             arr \<leftarrow> array_set (knowndevs s) i (dev\<lparr>kd_fs := None\<rparr>);
             Some (s\<lparr>knowndevs := arr\<rparr>) } } }"

fun unmountall_from :: "('w, 'o) vfs_ops \<Rightarrow> nat \<Rightarrow> nat \<Rightarrow> 'w vfs \<Rightarrow> 'w vfs option" where
  "unmountall_from ops 0 i s = Some s"
| "unmountall_from ops (Suc n) i s = do {
     dev \<leftarrow> array_get (knowndevs s) i;
     s \<leftarrow> (if kd_rawname dev = None then Some s
          else case kd_fs dev of None \<Rightarrow> Some s | Some f \<Rightarrow> unmount_step ops i dev f s);
     unmountall_from ops n (Suc i) s }"

definition vfs_unmountall :: "('w, 'o) vfs_ops \<Rightarrow> 'w vfs \<Rightarrow> (unit kresult \<times> 'w vfs) option" where
  "vfs_unmountall ops s = do {
     let s = vfs_biglock_acquire s;
     s \<leftarrow> unmountall_from ops (array_num (knowndevs s)) 0 s;
     s \<leftarrow> vfs_biglock_release s;
     Some (Inr (), s) }"

text \<open>\<open>devnull_create\<close>, with the pointer of the new device, and the set-up at boot.\<close>

definition devnull_create :: "('w, 'o) vfs_ops \<Rightarrow> nat option \<Rightarrow> doadd_mem \<Rightarrow> 'w vfs \<Rightarrow> 'w vfs option" where
  "devnull_create ops mdev m s = do {
     dev \<leftarrow> mdev;
     (result, s) \<leftarrow> vfs_adddev ops m ''null'' dev False s;
     case result of Inl _ \<Rightarrow> panic | Inr _ \<Rightarrow> Some s }"

definition vfs_bootstrap :: "('w, 'o) vfs_ops \<Rightarrow> bool \<Rightarrow> bool \<Rightarrow> nat option \<Rightarrow> doadd_mem \<Rightarrow> 'w \<Rightarrow> 'w vfs option" where
  "vfs_bootstrap ops m_arr m_lock mdev m w = do {
     devs \<leftarrow> array_create m_arr;
     kassert m_lock;
     devnull_create ops mdev m \<lparr>knowndevs = devs, biglock_mine = False, vfs_biglock_depth = 0,
       bootfs_vnode = None, p_cwd = None, world = w\<rparr> }"

subsection \<open>The lock\<close>

text \<open>Between calls the lock is held to some depth; the calls below leave it as they found it.\<close>

definition lock_ok :: "'w vfs \<Rightarrow> bool" where
  "lock_ok s \<longleftrightarrow> (biglock_mine s \<longleftrightarrow> vfs_biglock_depth s \<noteq> 0) \<and> vfs_biglock_depth s < 2 ^ 31"

definition same_lock :: "'w vfs \<Rightarrow> 'w vfs \<Rightarrow> bool" where
  "same_lock s s' \<longleftrightarrow> biglock_mine s' = biglock_mine s \<and> vfs_biglock_depth s' = vfs_biglock_depth s"

lemma biglock_acquire_facts:
  assumes "lock_ok s"
  shows "biglock_mine (vfs_biglock_acquire s)" "vfs_biglock_depth (vfs_biglock_acquire s) = Suc (vfs_biglock_depth s)"
    "vfs_biglock_do_i_hold (vfs_biglock_acquire s)"
  using assms by (simp_all add: vfs_biglock_acquire_def lock_ok_def vfs_biglock_do_i_hold_def)

lemma biglock_acquire_fields [simp]:
  "knowndevs (vfs_biglock_acquire s) = knowndevs s" "world (vfs_biglock_acquire s) = world s"
  "bootfs_vnode (vfs_biglock_acquire s) = bootfs_vnode s" "p_cwd (vfs_biglock_acquire s) = p_cwd s"
  by (simp_all add: vfs_biglock_acquire_def)

text \<open>Release of a state that came from an acquire.\<close>

lemma biglock_release_after:
  assumes "lock_ok s" "biglock_mine t" "vfs_biglock_depth t = Suc (vfs_biglock_depth s)"
  shows "vfs_biglock_release t = Some (t\<lparr>vfs_biglock_depth := vfs_biglock_depth s, biglock_mine := biglock_mine s\<rparr>)"
  using assms by (auto simp: vfs_biglock_release_def lock_ok_def)

subsection \<open>The name space\<close>

datatype target = TRoot nat | TUnmounted | TDevice nat

definition kd_targets :: "(nat \<Rightarrow> string option) \<Rightarrow> knowndev \<Rightarrow> (string \<times> target) list" where
  "kd_targets vol kd =
     (case kd_fs kd of
        Some f \<Rightarrow> (kd_name kd, TRoot f) # (case vol f of None \<Rightarrow> [] | Some v \<Rightarrow> [(v, TRoot f)])
      | None \<Rightarrow> [(kd_name kd, if kd_rawname kd = None then TDevice (kd_vnode kd) else TUnmounted)]) @
     (case kd_rawname kd of None \<Rightarrow> [] | Some r \<Rightarrow> [(r, TDevice (kd_vnode kd))])"

definition name_space :: "(nat \<Rightarrow> string option) \<Rightarrow> knowndev list \<Rightarrow> string \<Rightarrow> target option" where
  "name_space vol kds = map_of (concat (map (kd_targets vol) kds))"

text \<open>A volume keeps its name, as \<open>fs.h\<close> asks of a file system.\<close>

definition vol_fixed :: "('w, 'o) vfs_ops \<Rightarrow> (nat \<Rightarrow> string option) \<Rightarrow> bool" where
  "vol_fixed ops vol \<longleftrightarrow> (\<forall>f w. fs_getvolname ops f w = vol f)"

definition kd_names :: "(nat \<Rightarrow> string option) \<Rightarrow> knowndev \<Rightarrow> string set" where
  "kd_names vol kd = fst ` set (kd_targets vol kd)"

definition kd_wf :: "(nat \<Rightarrow> string option) \<Rightarrow> knowndev \<Rightarrow> bool" where
  "kd_wf vol kd \<longleftrightarrow> (kd_device kd = None \<longrightarrow> kd_rawname kd = None \<and> kd_fs kd \<noteq> None) \<and>
     (\<forall>r. kd_rawname kd = Some r \<longrightarrow> r \<noteq> kd_name kd \<and> (\<forall>f. kd_fs kd = Some f \<longrightarrow> vol f \<noteq> Some r \<and> vol f \<noteq> Some (kd_name kd)))"

definition devs_ok :: "(nat \<Rightarrow> string option) \<Rightarrow> knowndev list \<Rightarrow> bool" where
  "devs_ok vol kds \<longleftrightarrow> (\<forall>kd \<in> set kds. kd_wf vol kd) \<and>
     (\<forall>i j. i < j \<and> j < length kds \<longrightarrow> kd_names vol (kds ! i) \<inter> kd_names vol (kds ! j) = {})"

definition vfs_ok :: "(nat \<Rightarrow> string option) \<Rightarrow> 'w vfs \<Rightarrow> bool" where
  "vfs_ok vol s \<longleftrightarrow> lock_ok s \<and> array_inv (knowndevs s) \<and> a_num (knowndevs s) < 2 ^ 29 \<and> devs_ok vol (array_elems (knowndevs s))"

text \<open>What a name leads to.\<close>

definition reach :: "('w, 'o) vfs_ops \<Rightarrow> target option \<Rightarrow> 'w vfs \<Rightarrow> (nat kresult \<times> 'w vfs) option" where
  "reach ops t s =
     (case t of
        None \<Rightarrow> Some (Inl ENODEV, s)
      | Some TUnmounted \<Rightarrow> Some (Inl ENXIO, s)
      | Some (TRoot f) \<Rightarrow> do { (p, w) \<leftarrow> fs_getroot ops f (world s); Some (Inr p, s\<lparr>world := w\<rparr>) }
      | Some (TDevice v) \<Rightarrow> do { s \<leftarrow> vop_incref ops v s; Some (Inr v, s) })"

lemma getroot_step_eq:
  assumes "vol_fixed ops vol" "kd_wf vol kd"
  shows "getroot_step ops kd d s =
    (case map_of (kd_targets vol kd) d of None \<Rightarrow> Some None | Some t \<Rightarrow> map_option Some (reach ops (Some t) s))"
  using assms
  by (cases "kd_fs kd"; cases "kd_rawname kd")
    (auto simp: getroot_step_def kd_targets_def reach_def vol_fixed_def kd_wf_def map_option_case split: option.splits prod.splits bind_splits)

lemma getroot_from_eq:
  assumes "vol_fixed ops vol" "array_inv (knowndevs s)" "\<And>kd. kd \<in> set (array_elems (knowndevs s)) \<Longrightarrow> kd_wf vol kd"
    "i + n = a_num (knowndevs s)"
  shows "getroot_from ops n i d s = reach ops (name_space vol (drop i (array_elems (knowndevs s))) d) s"
  using assms(4)
proof (induction n arbitrary: i)
  case 0
  then show ?case using length_array_elems [OF assms(2)] by (simp add: name_space_def reach_def)
next
  case (Suc n)
  let ?es = "array_elems (knowndevs s)"
  have i: "i < length ?es" using Suc.prems length_array_elems [OF assms(2)] by simp
  have dr: "drop i ?es = ?es ! i # drop (Suc i) ?es" using i by (simp add: Cons_nth_drop_Suc)
  have g: "array_get (knowndevs s) i = Some (?es ! i)" using array_get_elems [OF assms(2), of i] Suc.prems by simp
  have IH: "getroot_from ops n (Suc i) d s = reach ops (name_space vol (drop (Suc i) ?es) d) s" using Suc by simp
  have wf: "kd_wf vol (?es ! i)" using assms(3) i by simp
  show ?case
    unfolding dr name_space_def
    using g IH getroot_step_eq [OF assms(1) wf, of d s]
    by (auto simp: name_space_def map_add_Some_iff map_of_append map_add_def split: option.splits bind_splits)
qed

lemma vfs_getroot_eq:
  assumes "vol_fixed ops vol" "vfs_ok vol s" "biglock_mine s"
  shows "vfs_getroot ops d s = reach ops (name_space vol (array_elems (knowndevs s)) d) s"
  using assms getroot_from_eq [OF assms(1), where i = 0 and n = "a_num (knowndevs s)" and d = d and s = s]
  by (simp add: vfs_getroot_def vfs_biglock_do_i_hold_def vfs_ok_def devs_ok_def array_num_def)

subsection \<open>Adding a device\<close>

definition opt_set :: "'a option \<Rightarrow> 'a set" where
  "opt_set x = (case x of None \<Rightarrow> {} | Some a \<Rightarrow> {a})"

lemma opt_set_simps [simp]: "opt_set None = {}" "opt_set (Some a) = {a}"
  by (simp_all add: opt_set_def)

lemma samestring_iff: "samestring a b \<longleftrightarrow> opt_set a \<inter> opt_set b \<noteq> {}"
  by (cases a; cases b) (auto simp: samestring_def)

lemma kd_names_eq:
  "kd_names vol kd = {kd_name kd} \<union> opt_set (kd_rawname kd) \<union> (case kd_fs kd of None \<Rightarrow> {} | Some f \<Rightarrow> opt_set (vol f))"
  by (auto simp: kd_names_def kd_targets_def opt_set_def split: option.splits)

lemma badnames_from_eq:
  assumes "vol_fixed ops vol" "array_inv (knowndevs s)" "i + n = a_num (knowndevs s)"
  shows "badnames_from ops n i n1 n2 n3 s =
    Some (\<exists>kd \<in> set (drop i (array_elems (knowndevs s))). kd_names vol kd \<inter> (opt_set n1 \<union> opt_set n2 \<union> opt_set n3) \<noteq> {})"
  using assms(3)
proof (induction n arbitrary: i)
  case 0
  then show ?case using length_array_elems [OF assms(2)] by simp
next
  case (Suc n)
  let ?es = "array_elems (knowndevs s)" and ?N = "opt_set n1 \<union> opt_set n2 \<union> opt_set n3"
  have i: "i < length ?es" using Suc.prems length_array_elems [OF assms(2)] by simp
  have dr: "drop i ?es = ?es ! i # drop (Suc i) ?es" using i by (simp add: Cons_nth_drop_Suc)
  have g: "array_get (knowndevs s) i = Some (?es ! i)" using array_get_elems [OF assms(2), of i] Suc.prems by simp
  have IH: "badnames_from ops n (Suc i) n1 n2 n3 s = Some (\<exists>kd \<in> set (drop (Suc i) ?es). kd_names vol kd \<inter> ?N \<noteq> {})"
    using Suc by simp
  have "kd_names vol (?es ! i) \<inter> ?N \<noteq> {} \<longleftrightarrow>
      (case kd_fs (?es ! i) of Some f \<Rightarrow> samestring3 (fs_getvolname ops f (world s)) n1 n2 n3 | None \<Rightarrow> False) \<or>
      samestring3 (kd_rawname (?es ! i)) n1 n2 n3 \<or> samestring3 (Some (kd_name (?es ! i))) n1 n2 n3"
    using assms(1) by (auto simp: kd_names_eq samestring3_def samestring_iff vol_fixed_def split: option.split)
  then show ?case unfolding dr using g IH by auto
qed

lemma name_space_dom: "dom (name_space vol kds) = (\<Union>kd \<in> set kds. kd_names vol kd)"
  by (auto simp: name_space_def dom_map_of_conv_image_fst kd_names_def)

text \<open>What \<open>vfs_doadd\<close> can lead to, apart from running out of memory.\<close>

definition new_kd :: "string \<Rightarrow> bool \<Rightarrow> nat option \<Rightarrow> nat \<Rightarrow> nat option \<Rightarrow> knowndev" where
  "new_kd dname mountable dev v fs = \<lparr>kd_name = dname, kd_rawname = (if mountable then Some (dname @ ''raw'') else None),
     kd_device = dev, kd_vnode = v, kd_fs = fs\<rparr>"

lemma vfs_doadd_cases:
  assumes vf: "vol_fixed ops vol" and ok: "vfs_ok vol s"
  obtains (nomem) e s' where "vfs_doadd ops m dname mountable dev fs s = Some (Inl e, s')" "knowndevs s' = knowndevs s" "same_lock s s'"
      "p_cwd s' = p_cwd s" "bootfs_vnode s' = bootfs_vnode s"
      "e = ENOMEM \<and> \<not> (da_name m \<and> da_raw m \<and> da_vnode m \<noteq> None \<and> da_kd m \<and> da_arr m \<noteq> None) \<or> e = EEXIST \<and> (\<exists>kd \<in> set (array_elems (knowndevs s)). kd_names vol kd \<inter> kd_names vol (new_kd dname mountable dev 0 fs) \<noteq> {})"
  | (added) v s' where "da_vnode m = Some v" "vfs_doadd ops m dname mountable dev fs s = Some (Inr (), s')" "same_lock s s'"
      "array_inv (knowndevs s')" "array_elems (knowndevs s') = array_elems (knowndevs s) @ [new_kd dname mountable dev v fs]"
      "p_cwd s' = p_cwd s" "bootfs_vnode s' = bootfs_vnode s"
      "\<forall>kd \<in> set (array_elems (knowndevs s)). kd_names vol kd \<inter> kd_names vol (new_kd dname mountable dev v fs) = {}"
proof -
  have lk: "lock_ok s" and inv: "array_inv (knowndevs s)" and num: "a_num (knowndevs s) < 2 ^ 29"
    using ok by (simp_all add: vfs_ok_def)
  note ac = biglock_acquire_facts [OF lk]
  let ?a = "vfs_biglock_acquire s"
  have rel: "vfs_biglock_release t = Some (t\<lparr>vfs_biglock_depth := vfs_biglock_depth s, biglock_mine := biglock_mine s\<rparr>)"
    if "biglock_mine t" "vfs_biglock_depth t = Suc (vfs_biglock_depth s)" for t :: "'a vfs"
    by (rule biglock_release_after [OF lk that])
  show thesis
  proof (cases "da_name m \<and> (mountable \<longrightarrow> da_raw m) \<and> da_vnode m \<noteq> None \<and> da_kd m")
    case False
    then have "\<exists>s'. vfs_doadd ops m dname mountable dev fs s = Some (Inl ENOMEM, s') \<and> knowndevs s' = knowndevs s \<and>
        same_lock s s' \<and> p_cwd s' = p_cwd s \<and> bootfs_vnode s' = bootfs_vnode s"
      using ac by (auto simp: vfs_doadd_def rel Let_def same_lock_def split: option.split)
    moreover have "\<not> (da_name m \<and> da_raw m \<and> da_vnode m \<noteq> None \<and> da_kd m \<and> da_arr m \<noteq> None)" using False by blast
    ultimately show thesis using nomem by blast
  next
    case True
    then obtain v where v: "da_vnode m = Some v" by auto
    define t where "t = ?a\<lparr>world := vn_newdev ops v dev (world s)\<rparr>"
    have tf: "biglock_mine t" "vfs_biglock_depth t = Suc (vfs_biglock_depth s)" "knowndevs t = knowndevs s"
      "p_cwd t = p_cwd s" "bootfs_vnode t = bootfs_vnode s" using ac by (simp_all add: t_def)
    let ?kd = "new_kd dname mountable dev v fs"
    let ?bad = "\<exists>kd \<in> set (array_elems (knowndevs s)). kd_names vol kd \<inter> kd_names vol ?kd \<noteq> {}"
    have nn: "opt_set (Some dname) \<union> opt_set (if mountable then Some (dname @ ''raw'') else None) \<union>
        opt_set (case fs of None \<Rightarrow> None | Some f \<Rightarrow> fs_getvolname ops f (world t)) = kd_names vol ?kd"
      using vf by (auto simp: kd_names_eq new_kd_def vol_fixed_def split: option.splits)
    have bad: "badnames ops (Some dname) (if mountable then Some (dname @ ''raw'') else None)
        (case fs of None \<Rightarrow> None | Some f \<Rightarrow> fs_getvolname ops f (world t)) t = Some ?bad"
      using badnames_from_eq [OF vf, of t 0 "a_num (knowndevs s)"] inv tf unfolding nn [symmetric]
      by (simp add: badnames_def vfs_biglock_do_i_hold_def array_num_def)
    have run: "vfs_doadd ops m dname mountable dev fs s =
      (if ?bad then do { s \<leftarrow> vfs_biglock_release t; Some (Inl EEXIST, s) }
       else do {
         (result, arr) \<leftarrow> array_add (da_arr m) (knowndevs s) ?kd;
         let u = t\<lparr>knowndevs := arr\<rparr>;
         let u = (case (result, dev) of (Inr index, Some d) \<Rightarrow> u\<lparr>world := dev_setnum ops d (index + 1) (world u)\<rparr> | _ \<Rightarrow> u);
         u \<leftarrow> vfs_biglock_release u;
         Some (case result of Inl e \<Rightarrow> Inl e | Inr _ \<Rightarrow> Inr (), u) })"
    proof -
      have kd: "\<lparr>kd_name = dname, kd_rawname = (if mountable then mkrawname True dname else None), kd_device = dev, kd_vnode = v, kd_fs = fs\<rparr> = ?kd"
        by (simp add: new_kd_def mkrawname_def)
      have "vfs_doadd ops m dname mountable dev fs s = doadd_enter ops (da_arr m) ?kd t"
        using True v unfolding vfs_doadd_def kd [symmetric] t_def by (auto simp: Let_def)
      moreover have "kd_name ?kd = dname" "kd_rawname ?kd = (if mountable then Some (dname @ ''raw'') else None)"
        "kd_device ?kd = dev" "kd_fs ?kd = fs" by (simp_all add: new_kd_def)
      ultimately show ?thesis using bad tf(3) by (simp only: doadd_enter_def Let_def Option.bind.simps)
    qed
    show thesis
    proof (cases ?bad)
      case True
      have "kd_names vol ?kd = kd_names vol (new_kd dname mountable dev 0 fs)" by (simp add: kd_names_eq new_kd_def)
      then show thesis using True run tf
        by (intro nomem [where s' = "t\<lparr>vfs_biglock_depth := vfs_biglock_depth s, biglock_mine := biglock_mine s\<rparr>"]) (auto simp: rel same_lock_def)
    next
      case False
      from array_add_elems [OF inv num, of "da_arr m" ?kd] show thesis
      proof (elim disjE conjE exE)
        assume "da_arr m = None" "array_add (da_arr m) (knowndevs s) ?kd = Some (Inl ENOMEM, knowndevs s)"
        then show thesis using False run tf
          by (intro nomem [where s' = "t\<lparr>knowndevs := knowndevs s, vfs_biglock_depth := vfs_biglock_depth s, biglock_mine := biglock_mine s\<rparr>"])
            (auto simp: rel same_lock_def Let_def)
      next
        fix a' assume a: "array_add (da_arr m) (knowndevs s) ?kd = Some (Inr (a_num (knowndevs s)), a')" "array_inv a'"
          "array_elems a' = array_elems (knowndevs s) @ [?kd]"
        define u where "u = (case dev of None \<Rightarrow> t\<lparr>knowndevs := a'\<rparr> |
          Some d \<Rightarrow> t\<lparr>knowndevs := a', world := dev_setnum ops d (a_num (knowndevs s) + 1) (world t)\<rparr>)"
        have uf: "biglock_mine u" "vfs_biglock_depth u = Suc (vfs_biglock_depth s)" "knowndevs u = a'" "p_cwd u = p_cwd s"
          "bootfs_vnode u = bootfs_vnode s" using tf by (auto simp: u_def split: option.split)
        have "vfs_doadd ops m dname mountable dev fs s =
            Some (Inr (), u\<lparr>vfs_biglock_depth := vfs_biglock_depth s, biglock_mine := biglock_mine s\<rparr>)"
          using False run a(1) rel [OF uf(1,2)] by (cases dev) (simp_all add: u_def Let_def)
        then show thesis using uf a(2,3) False v
          by (intro added [where s' = "u\<lparr>vfs_biglock_depth := vfs_biglock_depth s, biglock_mine := biglock_mine s\<rparr>" and v = v])
            (auto simp: same_lock_def)
      qed
    qed
  qed
qed

lemma devs_ok_snoc:
  assumes "devs_ok vol kds" "kd_wf vol kd" "\<forall>k \<in> set kds. kd_names vol k \<inter> kd_names vol kd = {}"
  shows "devs_ok vol (kds @ [kd])" "name_space vol (kds @ [kd]) = name_space vol kds ++ map_of (kd_targets vol kd)"
proof -
  have "kd_names vol ((kds @ [kd]) ! i) \<inter> kd_names vol ((kds @ [kd]) ! j) = {}" if "i < j" "j < length (kds @ [kd])" for i j
    using that assms(1,3) by (cases "j = length kds") (auto simp: nth_append devs_ok_def)
  then show "devs_ok vol (kds @ [kd])" using assms(1,2) by (auto simp: devs_ok_def)
  have d: "dom (name_space vol kds) \<inter> dom (map_of (kd_targets vol kd)) = {}"
    using assms(3) by (auto simp: name_space_dom dom_map_of_conv_image_fst kd_names_def [symmetric])
  have "name_space vol (kds @ [kd]) = map_of (kd_targets vol kd) ++ name_space vol kds" by (simp add: name_space_def)
  then show "name_space vol (kds @ [kd]) = name_space vol kds ++ map_of (kd_targets vol kd)"
    using map_add_comm [OF d] by simp
qed

subsection \<open>Mounting and unmounting\<close>

lemma findmount_from_eq:
  assumes inv: "array_inv (knowndevs s)" and "i + n = a_num (knowndevs s)"
  shows "findmount_from n i d s = Some (map_option ((+) i)
    (let es = drop i (array_elems (knowndevs s)); P = (\<lambda>kd. kd_rawname kd \<noteq> None \<and> kd_name kd = d) in
     if \<exists>kd \<in> set es. P kd then Some (length (takeWhile (\<lambda>kd. \<not> P kd) es)) else None))"
  using assms(2)
proof (induction n arbitrary: i)
  case 0
  then show ?case using length_array_elems [OF inv] by simp
next
  case (Suc n)
  let ?es = "array_elems (knowndevs s)"
  have i: "i < length ?es" using Suc.prems length_array_elems [OF inv] by simp
  have dr: "drop i ?es = ?es ! i # drop (Suc i) ?es" using i by (simp add: Cons_nth_drop_Suc)
  have g: "array_get (knowndevs s) i = Some (?es ! i)" using array_get_elems [OF inv, of i] Suc.prems by simp
  show ?case unfolding dr using g Suc.IH [of "Suc i"] Suc.prems by (auto simp: Let_def)
qed

lemma takeWhile_first:
  assumes "\<exists>x \<in> set xs. P x"
  shows "length (takeWhile (\<lambda>x. \<not> P x) xs) < length xs" "P (xs ! length (takeWhile (\<lambda>x. \<not> P x) xs))"
  using assms by (induction xs) auto

lemma findmount_cases:
  assumes inv: "array_inv (knowndevs s)" and mine: "biglock_mine s"
  obtains (none) "findmount d s = Some (Inl ENODEV)" "\<forall>kd \<in> set (array_elems (knowndevs s)). \<not> (kd_rawname kd \<noteq> None \<and> kd_name kd = d)"
  | (found) i where "findmount d s = Some (Inr i)" "i < a_num (knowndevs s)"
      "kd_rawname (array_elems (knowndevs s) ! i) \<noteq> None" "kd_name (array_elems (knowndevs s) ! i) = d"
proof (cases "\<exists>kd \<in> set (array_elems (knowndevs s)). kd_rawname kd \<noteq> None \<and> kd_name kd = d")
  case False
  then have "findmount d s = Some (Inl ENODEV)"
    using mine findmount_from_eq [OF inv, of 0 "a_num (knowndevs s)" d]
    by (auto simp: findmount_def vfs_biglock_do_i_hold_def array_num_def Let_def)
  then show thesis using none False by blast
next
  case True
  let ?P = "\<lambda>kd. kd_rawname kd \<noteq> None \<and> kd_name kd = d" and ?es = "array_elems (knowndevs s)"
  let ?i = "length (takeWhile (\<lambda>kd. \<not> ?P kd) ?es)"
  have "findmount_from (a_num (knowndevs s)) 0 d s = Some (Some ?i)"
    using findmount_from_eq [OF inv, of 0 "a_num (knowndevs s)" d] True by (simp add: Let_def)
  then have "findmount d s = Some (Inr ?i)"
    using mine by (simp add: findmount_def vfs_biglock_do_i_hold_def array_num_def)
  then show thesis using found takeWhile_first [OF True] length_array_elems [OF inv] by auto
qed

text \<open>Replacing the file system of one device.\<close>

definition set_fs :: "nat \<Rightarrow> nat option \<Rightarrow> knowndev list \<Rightarrow> knowndev list" where
  "set_fs i f kds = kds[i := (kds ! i)\<lparr>kd_fs := f\<rparr>]"

lemma name_space_split:
  assumes "devs_ok vol kds" "i < length kds"
  shows "name_space vol kds n =
    (if n \<in> kd_names vol (kds ! i) then map_of (kd_targets vol (kds ! i)) n else name_space vol (take i kds @ drop (Suc i) kds) n)"
proof -
  have sp: "kds = take i kds @ kds ! i # drop (Suc i) kds" using id_take_nth_drop [OF assms(2)] .
  have dj: "kd_names vol k \<inter> kd_names vol (kds ! i) = {}" if "k \<in> set (take i kds)" for k
  proof -
    from that obtain j where j: "j < i" "k = kds ! j" by (auto simp: in_set_conv_nth)
    then show ?thesis using assms unfolding devs_ok_def by blast
  qed
  have "name_space vol kds = name_space vol (drop (Suc i) kds) ++ map_of (kd_targets vol (kds ! i)) ++ name_space vol (take i kds)"
    by (subst sp) (simp add: name_space_def)
  moreover have "name_space vol (take i kds @ drop (Suc i) kds) = name_space vol (drop (Suc i) kds) ++ name_space vol (take i kds)"
    by (simp add: name_space_def)
  moreover have "name_space vol (take i kds) n = None" if "n \<in> kd_names vol (kds ! i)"
  proof (rule ccontr)
    assume "name_space vol (take i kds) n \<noteq> None"
    then have "n \<in> dom (name_space vol (take i kds))" by auto
    then show False using dj that unfolding name_space_dom by blast
  qed
  moreover have "n \<in> kd_names vol (kds ! i) \<longleftrightarrow> map_of (kd_targets vol (kds ! i)) n \<noteq> None"
    by (simp add: kd_names_def map_of_eq_None_iff)
  ultimately show ?thesis by (auto simp: map_add_def split: option.splits)
qed

lemma rest_outside:
  assumes "devs_ok vol kds" "i < length kds" "n \<in> kd_names vol (kds ! i)"
  shows "name_space vol (take i kds @ drop (Suc i) kds) n = None"
proof (rule ccontr)
  assume "name_space vol (take i kds @ drop (Suc i) kds) n \<noteq> None"
  then have "n \<in> dom (name_space vol (take i kds @ drop (Suc i) kds))" by auto
  then obtain k where k: "k \<in> set (take i kds) \<union> set (drop (Suc i) kds)" "n \<in> kd_names vol k" unfolding name_space_dom by auto
  obtain j where j: "j < length kds" "j \<noteq> i" "k = kds ! j"
  proof (cases "k \<in> set (take i kds)")
    case True
    then obtain j where "j < i" "j < length kds" "k = kds ! j" by (auto simp: in_set_conv_nth)
    then show thesis using that by simp
  next
    case False
    then have "k \<in> set (drop (Suc i) kds)" using k(1) by simp
    then obtain j where "j < length kds - Suc i" "k = kds ! (Suc i + j)" by (auto simp: in_set_conv_nth)
    then show thesis using that [of "Suc i + j"] by simp
  qed
  then have "kd_names vol (kds ! j) \<inter> kd_names vol (kds ! i) = {}"
    using assms(1,2) unfolding devs_ok_def by (metis Int_commute linorder_neqE_nat)
  then show False using k(2) j(3) assms(3) by blast
qed

lemma devs_ok_set_fs:
  assumes ok: "devs_ok vol kds" and i: "i < length kds"
    and wf: "kd_wf vol ((kds ! i)\<lparr>kd_fs := f\<rparr>)"
    and new: "kd_names vol ((kds ! i)\<lparr>kd_fs := f\<rparr>) \<subseteq> kd_names vol (kds ! i) \<union> N" "N \<inter> dom (name_space vol kds) = {}"
  shows "devs_ok vol (set_fs i f kds)"
proof -
  let ?k = "(kds ! i)\<lparr>kd_fs := f\<rparr>"
  have other: "kd_names vol (kds ! j) \<inter> kd_names vol ?k = {}" if "j < length kds" "j \<noteq> i" for j
  proof -
    have "kd_names vol (kds ! j) \<inter> kd_names vol (kds ! i) = {}"
      using ok i that unfolding devs_ok_def by (metis Int_commute linorder_neqE_nat)
    moreover have "kds ! j \<in> set kds" using that(1) by simp
    then have "kd_names vol (kds ! j) \<inter> N = {}" using new(2) unfolding name_space_dom by blast
    ultimately show ?thesis using new(1) by blast
  qed
  have "kd_names vol (set_fs i f kds ! a) \<inter> kd_names vol (set_fs i f kds ! b) = {}" if "a < b" "b < length kds" for a b
    using that i other [of a] other [of b] ok unfolding devs_ok_def set_fs_def
    by (cases "a = i"; cases "b = i") (auto simp: nth_list_update)
  moreover have "\<forall>kd \<in> set (set_fs i f kds). kd_wf vol kd"
    using ok wf by (auto simp: devs_ok_def set_fs_def dest: set_update_subset_insert [THEN subsetD])
  ultimately show ?thesis unfolding devs_ok_def set_fs_def by simp
qed

lemma set_fs_rest:
  assumes "i < length kds"
  shows "set_fs i f kds ! i = (kds ! i)\<lparr>kd_fs := f\<rparr>" "take i (set_fs i f kds) = take i kds" "drop (Suc i) (set_fs i f kds) = drop (Suc i) kds"
    "length (set_fs i f kds) = length kds"
  using assms by (simp_all add: set_fs_def)

text \<open>The name space after a mount and after an unmount.\<close>

definition ns_mount :: "(nat \<Rightarrow> string option) \<Rightarrow> string \<Rightarrow> nat \<Rightarrow> (string \<Rightarrow> target option) \<Rightarrow> string \<Rightarrow> target option" where
  "ns_mount vol d f m = (case vol f of None \<Rightarrow> m(d \<mapsto> TRoot f) | Some v \<Rightarrow> m(d \<mapsto> TRoot f, v \<mapsto> TRoot f))"

definition ns_unmount :: "(nat \<Rightarrow> string option) \<Rightarrow> string \<Rightarrow> (string \<Rightarrow> target option) \<Rightarrow> string \<Rightarrow> target option" where
  "ns_unmount vol d m =
     (case m d of
        Some (TRoot f) \<Rightarrow> (case vol f of None \<Rightarrow> m(d \<mapsto> TUnmounted) | Some v \<Rightarrow> (m(v := None))(d \<mapsto> TUnmounted))
      | _ \<Rightarrow> m)"

lemma name_space_mount:
  assumes ok: "devs_ok vol kds" and i: "i < length kds" and kd: "kd_rawname (kds ! i) = Some r" "kd_fs (kds ! i) = None"
    and v: "\<forall>v. vol f = Some v \<longrightarrow> v \<notin> dom (name_space vol kds)"
  shows "devs_ok vol (set_fs i (Some f) kds)"
    "name_space vol (set_fs i (Some f) kds) = ns_mount vol (kd_name (kds ! i)) f (name_space vol kds)"
proof -
  let ?k = "kds ! i" and ?k' = "(kds ! i)\<lparr>kd_fs := Some f\<rparr>"
  have wfk: "kd_wf vol ?k" using ok i by (simp add: devs_ok_def)
  have names: "kd_names vol ?k = {kd_name ?k, r}" "kd_names vol ?k' = {kd_name ?k, r} \<union> opt_set (vol f)"
    using kd by (auto simp: kd_names_eq)
  have sub: "kd_names vol ?k \<subseteq> dom (name_space vol kds)" unfolding name_space_dom using nth_mem [OF i] by blast
  have vk: "vol f \<noteq> Some (kd_name ?k)" "vol f \<noteq> Some r" using v sub names by auto
  have wf: "kd_wf vol ?k'" using wfk vk kd by (auto simp: kd_wf_def)
  show ok': "devs_ok vol (set_fs i (Some f) kds)"
    by (rule devs_ok_set_fs [OF ok i wf, where N = "opt_set (vol f)"]) (use names v in \<open>auto simp: opt_set_def split: option.splits\<close>)
  show "name_space vol (set_fs i (Some f) kds) = ns_mount vol (kd_name ?k) f (name_space vol kds)"
  proof
    fix n
    note L = name_space_split [OF ok', of i n, unfolded set_fs_rest [OF i], OF i] and R = name_space_split [OF ok i, of n]
    show "name_space vol (set_fs i (Some f) kds) n = ns_mount vol (kd_name ?k) f (name_space vol kds) n"
      unfolding L ns_mount_def using R names vk kd wfk by (auto simp: kd_targets_def kd_wf_def split: option.splits)
  qed
qed

lemma name_space_unmount:
  assumes ok: "devs_ok vol kds" and i: "i < length kds" and kd: "kd_rawname (kds ! i) = Some r" "kd_fs (kds ! i) = Some f"
  shows "devs_ok vol (set_fs i None kds)"
    "name_space vol (set_fs i None kds) = ns_unmount vol (kd_name (kds ! i)) (name_space vol kds)"
proof -
  let ?k = "kds ! i" and ?k' = "(kds ! i)\<lparr>kd_fs := None\<rparr>"
  have wfk: "kd_wf vol ?k" using ok i by (simp add: devs_ok_def)
  have names: "kd_names vol ?k = {kd_name ?k, r} \<union> opt_set (vol f)" "kd_names vol ?k' = {kd_name ?k, r}"
    using kd by (auto simp: kd_names_eq)
  have vk: "vol f \<noteq> Some (kd_name ?k)" "vol f \<noteq> Some r" using wfk kd by (auto simp: kd_wf_def)
  have wf: "kd_wf vol ?k'" using wfk kd by (auto simp: kd_wf_def)
  show ok': "devs_ok vol (set_fs i None kds)"
    by (rule devs_ok_set_fs [OF ok i wf, where N = "{}"]) (use names in auto)
  have here: "name_space vol kds (kd_name ?k) = Some (TRoot f)"
    using name_space_split [OF ok i, of "kd_name ?k"] names kd by (simp add: kd_targets_def)
  show "name_space vol (set_fs i None kds) = ns_unmount vol (kd_name ?k) (name_space vol kds)"
  proof
    fix n
    note L = name_space_split [OF ok', of i n, unfolded set_fs_rest [OF i], OF i] and R = name_space_split [OF ok i, of n]
    have gone: "name_space vol (take i kds @ drop (Suc i) kds) n = None" if "vol f = Some n"
      by (rule rest_outside [OF ok i]) (use names that in simp)
    show "name_space vol (set_fs i None kds) n = ns_unmount vol (kd_name ?k) (name_space vol kds) n"
      unfolding L ns_unmount_def here using R names vk kd wfk gone
      by (auto simp: kd_targets_def kd_wf_def split: option.splits)
  qed
qed

subsection \<open>The operations on the name space\<close>

lemma array_set_list:
  assumes "array_inv a" "i < a_num a"
  obtains a' where "array_set a i x = Some a'" "array_inv a'" "array_elems a' = (array_elems a)[i := x]" "a_num a' = a_num a"
proof -
  obtain a' where a': "array_set a i x = Some a'" "array_inv a'" "array_elems a' = (array_elems a)[i := x]"
    using array_set_elems [OF assms, of x] by blast
  have "a_num a' = a_num a" using length_array_elems [OF a'(2)] length_array_elems [OF assms(1)] a'(3) by simp
  then show thesis using that a' by blast
qed

lemma vfs_mount_cases:
  assumes ok: "vfs_ok vol s" and run: "vfs_mount ops d mf s = Some (r, s')"
  obtains (failed) e where "r = Inl e" "knowndevs s' = knowndevs s" "same_lock s s'"
  | (mounted) i f rn where "r = Inr ()" "same_lock s s'" "array_inv (knowndevs s')" "a_num (knowndevs s') = a_num (knowndevs s)"
      "array_elems (knowndevs s') = set_fs i (Some f) (array_elems (knowndevs s))" "i < a_num (knowndevs s)"
      "kd_rawname (array_elems (knowndevs s) ! i) = Some rn" "kd_name (array_elems (knowndevs s) ! i) = d"
      "kd_fs (array_elems (knowndevs s) ! i) = None" "\<exists>dv w'. kd_device (array_elems (knowndevs s) ! i) = Some dv \<and> mf dv (world s) = Some (Inr (Some f), w')"
proof -
  have lk: "lock_ok s" and inv: "array_inv (knowndevs s)" using ok by (simp_all add: vfs_ok_def)
  note ac = biglock_acquire_facts [OF lk]
  let ?a = "vfs_biglock_acquire s" and ?es = "array_elems (knowndevs s)"
  have rel: "vfs_biglock_release t = Some (t\<lparr>vfs_biglock_depth := vfs_biglock_depth s, biglock_mine := biglock_mine s\<rparr>)"
    if "biglock_mine t" "vfs_biglock_depth t = Suc (vfs_biglock_depth s)" for t :: "'a vfs"
    by (rule biglock_release_after [OF lk that])
  have inva: "array_inv (knowndevs ?a)" using inv by simp
  from inva ac(1) show thesis
  proof (cases rule: findmount_cases [where d = d])
    case none
    then show thesis using run ac rel [OF ac(1,2)] by (intro failed) (auto simp: vfs_mount_def same_lock_def)
  next
    case (found i)
    then obtain rn where i: "i < a_num (knowndevs s)" "kd_rawname (?es ! i) = Some rn" "kd_name (?es ! i) = d" by auto
    have g: "array_get (knowndevs s) i = Some (?es ! i)" using array_get_elems [OF inv, of i] i(1) by simp
    show thesis
    proof (cases "kd_fs (?es ! i)")
      case (Some f)
      then show thesis using run found(1) g ac rel [OF ac(1,2)] by (intro failed) (auto simp: vfs_mount_def same_lock_def)
    next
      case None
      then obtain dv res w where mf: "kd_device (?es ! i) = Some dv" "mf dv (world s) = Some (res, w)"
        using run found(1) g i(2) by (auto simp: vfs_mount_def split: bind_splits)
      have t: "biglock_mine (?a\<lparr>world := w\<rparr>)" "vfs_biglock_depth (?a\<lparr>world := w\<rparr>) = Suc (vfs_biglock_depth s)" using ac by simp_all
      show thesis
      proof (cases res)
        case (Inl e)
        then show thesis using run found(1) g None i(2) mf rel [OF t] by (intro failed) (auto simp: vfs_mount_def same_lock_def)
      next
        case (Inr fo)
        then obtain f where f: "fo = Some f" using run found(1) g None i(2) mf by (cases fo) (auto simp: vfs_mount_def)
        obtain a' where a': "array_set (knowndevs s) i ((?es ! i)\<lparr>kd_fs := Some f\<rparr>) = Some a'" "array_inv a'"
          "array_elems a' = ?es[i := (?es ! i)\<lparr>kd_fs := Some f\<rparr>]" "a_num a' = a_num (knowndevs s)"
          by (rule array_set_list [OF inv i(1)])
        have u: "biglock_mine (?a\<lparr>world := w, knowndevs := a'\<rparr>)" "vfs_biglock_depth (?a\<lparr>world := w, knowndevs := a'\<rparr>) = Suc (vfs_biglock_depth s)"
          using ac by simp_all
        have "r = Inr () \<and> s' = ?a\<lparr>world := w, knowndevs := a', vfs_biglock_depth := vfs_biglock_depth s, biglock_mine := biglock_mine s\<rparr>"
          using run found(1) g None i(2) mf Inr f a'(1) rel [OF u] by (auto simp: vfs_mount_def)
        then show thesis using a' i None mf Inr f by (intro mounted) (auto simp: same_lock_def set_fs_def)
      qed
    qed
  qed
qed

lemma vfs_unmount_cases:
  assumes ok: "vfs_ok vol s" and run: "vfs_unmount ops d s = Some (r, s')"
  obtains (failed) e where "r = Inl e" "knowndevs s' = knowndevs s" "same_lock s s'"
  | (gone) i f rn where "r = Inr ()" "same_lock s s'" "array_inv (knowndevs s')" "a_num (knowndevs s') = a_num (knowndevs s)"
      "array_elems (knowndevs s') = set_fs i None (array_elems (knowndevs s))" "i < a_num (knowndevs s)"
      "kd_rawname (array_elems (knowndevs s) ! i) = Some rn" "kd_name (array_elems (knowndevs s) ! i) = d"
      "kd_fs (array_elems (knowndevs s) ! i) = Some f"
proof -
  have lk: "lock_ok s" and inv: "array_inv (knowndevs s)" using ok by (simp_all add: vfs_ok_def)
  note ac = biglock_acquire_facts [OF lk]
  let ?a = "vfs_biglock_acquire s" and ?es = "array_elems (knowndevs s)"
  have rel: "vfs_biglock_release t = Some (t\<lparr>vfs_biglock_depth := vfs_biglock_depth s, biglock_mine := biglock_mine s\<rparr>)"
    if "biglock_mine t" "vfs_biglock_depth t = Suc (vfs_biglock_depth s)" for t :: "'a vfs"
    by (rule biglock_release_after [OF lk that])
  have inva: "array_inv (knowndevs ?a)" using inv by simp
  from inva ac(1) show thesis
  proof (cases rule: findmount_cases [where d = d])
    case none
    then show thesis using run ac rel [OF ac(1,2)] by (intro failed) (auto simp: vfs_unmount_def same_lock_def)
  next
    case (found i)
    then obtain rn where i: "i < a_num (knowndevs s)" "kd_rawname (?es ! i) = Some rn" "kd_name (?es ! i) = d" by auto
    have g: "array_get (knowndevs s) i = Some (?es ! i)" using array_get_elems [OF inv, of i] i(1) by simp
    show thesis
    proof (cases "kd_fs (?es ! i)")
      case None
      then show thesis using run found(1) g ac rel [OF ac(1,2)] by (intro failed) (auto simp: vfs_unmount_def same_lock_def)
    next
      case (Some f)
      obtain a' where a': "array_set (knowndevs s) i ((?es ! i)\<lparr>kd_fs := None\<rparr>) = Some a'" "array_inv a'"
        "array_elems a' = ?es[i := (?es ! i)\<lparr>kd_fs := None\<rparr>]" "a_num a' = a_num (knowndevs s)"
        by (rule array_set_list [OF inv i(1)])
      have "(\<exists>e w. r = Inl e \<and> s' = ?a\<lparr>world := w, vfs_biglock_depth := vfs_biglock_depth s, biglock_mine := biglock_mine s\<rparr>) \<or>
        (\<exists>w. r = Inr () \<and> s' = ?a\<lparr>world := w, knowndevs := a', vfs_biglock_depth := vfs_biglock_depth s, biglock_mine := biglock_mine s\<rparr>)"
      proof -
        obtain dv res w where st: "kd_device (?es ! i) = Some dv" "fs_sync ops f (world s) = Some (res, w)"
          using run found(1) g Some i(2) by (auto simp: vfs_unmount_def split: bind_splits)
        have u: "vfs_biglock_release (?a\<lparr>world := w\<rparr>) =
            Some (?a\<lparr>world := w, vfs_biglock_depth := vfs_biglock_depth s, biglock_mine := biglock_mine s\<rparr>)"
          "vfs_biglock_release (?a\<lparr>world := w, knowndevs := a'\<rparr>) =
            Some (?a\<lparr>world := w, knowndevs := a', vfs_biglock_depth := vfs_biglock_depth s, biglock_mine := biglock_mine s\<rparr>)" for w
          by (rule rel; use ac in simp)+
        show ?thesis
        proof (cases res)
          case (Inl e)
          then show ?thesis using run found(1) g Some i(2) st u by (auto simp: vfs_unmount_def)
        next
          case (Inr y)
          then obtain res2 w2 where un: "fs_unmount ops f w = Some (res2, w2)"
            using run found(1) g Some i(2) st by (auto simp: vfs_unmount_def split: bind_splits)
          show ?thesis
          proof (cases res2)
            case Inl2: (Inl e)
            then have "r = Inl e" "s' = ?a\<lparr>world := w2, vfs_biglock_depth := vfs_biglock_depth s, biglock_mine := biglock_mine s\<rparr>"
              using run found(1) g Some i(2) st un Inr u(1) [of w2] by (auto simp: vfs_unmount_def)
            then show ?thesis by blast
          next
            case Inr2: (Inr y2)
            have "r = Inr ()" "s' = ?a\<lparr>world := w2, knowndevs := a', vfs_biglock_depth := vfs_biglock_depth s, biglock_mine := biglock_mine s\<rparr>"
              using run found(1) g Some i(2) st un Inr Inr2 a'(1) u(2) [of w2] by (auto simp: vfs_unmount_def)
            then show ?thesis by blast
          qed
        qed
      qed
      then show thesis
      proof (elim disjE exE conjE)
        fix e w assume "r = Inl e" "s' = ?a\<lparr>world := w, vfs_biglock_depth := vfs_biglock_depth s, biglock_mine := biglock_mine s\<rparr>"
        then show thesis by (intro failed) (auto simp: same_lock_def)
      next
        fix w assume "r = Inr ()" "s' = ?a\<lparr>world := w, knowndevs := a', vfs_biglock_depth := vfs_biglock_depth s, biglock_mine := biglock_mine s\<rparr>"
        then show thesis using a' i Some by (intro gone) (auto simp: same_lock_def set_fs_def)
      qed
    qed
  qed
qed

subsection \<open>Any series of operations\<close>

datatype 'w vfs_call =
    VAdddev doadd_mem string nat bool
  | VAddfs doadd_mem string nat
  | VMount string "nat \<Rightarrow> 'w \<Rightarrow> (nat option kresult \<times> 'w) option"
  | VUnmount string

fun vfs_exec :: "('w, 'o) vfs_ops \<Rightarrow> 'w vfs_call \<Rightarrow> 'w vfs \<Rightarrow> (unit kresult \<times> 'w vfs) option" where
  "vfs_exec ops (VAdddev m d dev mountable) s = vfs_adddev ops m d dev mountable s"
| "vfs_exec ops (VAddfs m d fs) s = vfs_addfs ops m d fs s"
| "vfs_exec ops (VMount d mf) s = vfs_mount ops d mf s"
| "vfs_exec ops (VUnmount d) s = vfs_unmount ops d s"

text \<open>
  The name space as a map, changed by the calls that succeeded. For a mount, \<open>f\<close> is the file
  system that \<open>mountfunc\<close> handed back.
\<close>

datatype ns_event = NAdd string bool nat | NAddfs string nat | NMount string nat | NUnmount string | NFail

fun ns_apply :: "(nat \<Rightarrow> string option) \<Rightarrow> ns_event \<Rightarrow> (string \<Rightarrow> target option) \<Rightarrow> string \<Rightarrow> target option" where
  "ns_apply vol (NAdd d mountable v) m =
     (if mountable then m(d \<mapsto> TUnmounted, d @ ''raw'' \<mapsto> TDevice v) else m(d \<mapsto> TDevice v))"
| "ns_apply vol (NAddfs d f) m = ns_mount vol d f m"
| "ns_apply vol (NMount d f) m = ns_mount vol d f m"
| "ns_apply vol (NUnmount d) m = ns_unmount vol d m"
| "ns_apply vol NFail m = m"

text \<open>
  One call, as it shows in the name space. The volume of a new mount has a name that is not in
  use; nothing in \<open>vfs_mount\<close> checks that.
\<close>

definition vfs_event ::
  "('w, 'o) vfs_ops \<Rightarrow> (nat \<Rightarrow> string option) \<Rightarrow> 'w vfs_call \<Rightarrow> 'w vfs \<Rightarrow> unit kresult \<Rightarrow> ns_event \<Rightarrow> bool" where
  "vfs_event ops vol c s r e \<longleftrightarrow>
     (case r of
        Inl _ \<Rightarrow> e = NFail
      | Inr _ \<Rightarrow>
          (case c of
             VAdddev m d dev mountable \<Rightarrow> (\<exists>v. da_vnode m = Some v \<and> e = NAdd d mountable v)
           | VAddfs m d f \<Rightarrow> e = NAddfs d f
           | VMount d mf \<Rightarrow>
               (\<exists>kd dv f w. kd \<in> set (array_elems (knowndevs s)) \<and> kd_name kd = d \<and> kd_device kd = Some dv \<and>
                  mf dv (world s) = Some (Inr (Some f), w) \<and> e = NMount d f \<and>
                  (\<forall>v. vol f = Some v \<longrightarrow> v \<notin> dom (name_space vol (array_elems (knowndevs s)))))
           | VUnmount d \<Rightarrow> e = NUnmount d))"

lemma kd_same_name:
  assumes "devs_ok vol kds" "kd \<in> set kds" "i < length kds" "kd_name kd = kd_name (kds ! i)"
  shows "kd = kds ! i"
proof -
  obtain j where j: "j < length kds" "kd = kds ! j" using assms(2) by (auto simp: in_set_conv_nth)
  have n: "kd_name kd \<in> kd_names vol kd" "kd_name (kds ! i) \<in> kd_names vol (kds ! i)" by (simp_all add: kd_names_eq)
  then have "j = i"
    using assms(1,3,4) j unfolding devs_ok_def by (metis IntI empty_iff linorder_neqE_nat)
  then show ?thesis using j by simp
qed

lemma vfs_exec_step:
  assumes vf: "vol_fixed ops vol" and ok: "vfs_ok vol s" and room: "a_num (knowndevs s) < 2 ^ 29 - 1"
    and run: "vfs_exec ops c s = Some (r, s')" and ev: "vfs_event ops vol c s r e"
  shows "vfs_ok vol s' \<and> same_lock s s' \<and>
    name_space vol (array_elems (knowndevs s')) = ns_apply vol e (name_space vol (array_elems (knowndevs s)))"
proof -
  have lk: "lock_ok s" and inv: "array_inv (knowndevs s)" and dok: "devs_ok vol (array_elems (knowndevs s))"
    using ok by (simp_all add: vfs_ok_def)
  have len: "length (array_elems (knowndevs s)) = a_num (knowndevs s)" by (rule length_array_elems [OF inv])
  have lock: "lock_ok s'" if "same_lock s s'" using that lk by (simp add: lock_ok_def same_lock_def)
  have unchanged: ?thesis if "r = Inl x" "knowndevs s' = knowndevs s" "same_lock s s'" for x
    using that ok ev lock [OF that(3)] by (auto simp: vfs_ok_def vfs_event_def)
  have doadd: ?thesis
    if D: "vfs_doadd ops m d mountable dev fs s = Some (r, s')" and wf: "\<And>v. kd_wf vol (new_kd d mountable dev v fs)"
      and E: "\<And>v. r = Inr () \<Longrightarrow> da_vnode m = Some v \<Longrightarrow> name_space vol (array_elems (knowndevs s)) ++ map_of (kd_targets vol (new_kd d mountable dev v fs)) =
        ns_apply vol e (name_space vol (array_elems (knowndevs s)))" for m d mountable dev fs
    using vf ok
  proof (cases rule: vfs_doadd_cases [where m = m and dname = d and mountable = mountable and dev = dev and fs = fs])
    case (nomem x t)
    then show ?thesis using D unchanged by auto
  next
    case (added v t)
    then have t: "t = s'" "r = Inr ()" using D by auto
    note ds = devs_ok_snoc [OF dok wf [of v] added(8)]
    have "a_num (knowndevs s') = Suc (a_num (knowndevs s))" using length_array_elems [OF added(4)] added(5) len t by simp
    then have "vfs_ok vol s'" using added t lock ds(1) room by (simp add: vfs_ok_def)
    then show ?thesis using added(3,5) t ds(2) E [OF t(2) added(1)] by simp
  qed
  show ?thesis
  proof (cases c)
    case (VAdddev m d dev mountable)
    show ?thesis
      by (rule doadd [where m = m and d = d and mountable = mountable and dev = "Some dev" and fs = None])
        (use run ev VAdddev in \<open>auto simp: vfs_adddev_def kd_wf_def new_kd_def kd_targets_def vfs_event_def\<close>)
  next
    case (VAddfs m d f)
    show ?thesis
      by (rule doadd [where m = m and d = d and mountable = False and dev = None and fs = "Some f"])
        (use run ev VAddfs in \<open>auto simp: vfs_addfs_def kd_wf_def new_kd_def kd_targets_def vfs_event_def ns_mount_def split: option.split\<close>)
  next
    case (VMount d mf)
    have R: "vfs_mount ops d mf s = Some (r, s')" using run VMount by simp
    from ok R show ?thesis
    proof (cases rule: vfs_mount_cases)
      case (failed x) then show ?thesis by (rule unchanged)
    next
      case (mounted i f rn)
      have i: "i < length (array_elems (knowndevs s))" using mounted(6) len by simp
      obtain kd dv g w where g: "kd \<in> set (array_elems (knowndevs s))" "kd_name kd = d" "kd_device kd = Some dv"
        "mf dv (world s) = Some (Inr (Some g), w)" "e = NMount d g"
        "\<forall>v. vol g = Some v \<longrightarrow> v \<notin> dom (name_space vol (array_elems (knowndevs s)))"
        using ev mounted(1) VMount by (auto simp: vfs_event_def)
      have "kd = array_elems (knowndevs s) ! i" by (rule kd_same_name [OF dok g(1) i]) (use g(2) mounted(8) in simp)
      then have fg: "f = g" using mounted(10) g(3,4) by auto
      note nm = name_space_mount [OF dok i mounted(7,9), of f, unfolded fg, OF g(6)]
      have "vfs_ok vol s'" using mounted nm(1) lock ok by (simp add: vfs_ok_def fg)
      then show ?thesis using mounted nm(2) g(5) by (simp add: fg)
    qed
  next
    case (VUnmount d)
    have R: "vfs_unmount ops d s = Some (r, s')" using run VUnmount by simp
    from ok R show ?thesis
    proof (cases rule: vfs_unmount_cases)
      case (failed x) then show ?thesis by (rule unchanged)
    next
      case (gone i f rn)
      have i: "i < length (array_elems (knowndevs s))" using gone(6) len by simp
      note nm = name_space_unmount [OF dok i gone(7,9)]
      have "vfs_ok vol s'" using gone nm(1) lock ok by (simp add: vfs_ok_def)
      moreover have "e = NUnmount d" using ev gone(1) VUnmount by (simp add: vfs_event_def)
      ultimately show ?thesis using gone nm(2) by simp
    qed
  qed
qed

lemma vfs_bootstrap_ok:
  assumes "vol_fixed ops vol" "vfs_bootstrap ops m_arr m_lock mdev m w = Some s"
  obtains v where "da_vnode m = Some v" "vfs_ok vol s" "\<not> biglock_mine s" "name_space vol (array_elems (knowndevs s)) = [''null'' \<mapsto> TDevice v]"
proof -
  let ?s0 = "\<lparr>knowndevs = array_init, biglock_mine = False, vfs_biglock_depth = 0, bootfs_vnode = None, p_cwd = None, world = w\<rparr>"
  obtain d where d: "mdev = Some d" "vfs_adddev ops m ''null'' d False ?s0 = Some (Inr (), s)"
    using assms(2) by (auto simp: vfs_bootstrap_def devnull_create_def array_create_def split: if_splits bind_splits prod.splits sum.splits)
  have ok: "vfs_ok vol ?s0" by (simp add: vfs_ok_def lock_ok_def devs_ok_def array_init_inv) (simp add: array_init_def)
  have ns: "name_space vol (array_elems (knowndevs ?s0)) = Map.empty" by (simp add: name_space_def array_init_inv)
  obtain v where v: "da_vnode m = Some v"
    using d(2) by (auto simp: vfs_adddev_def vfs_doadd_def vfs_biglock_acquire_def vfs_biglock_release_def Let_def split: if_splits option.splits)
  have "vfs_ok vol s \<and> same_lock ?s0 s \<and>
    name_space vol (array_elems (knowndevs s)) = ns_apply vol (NAdd ''null'' False v) (name_space vol (array_elems (knowndevs ?s0)))"
    by (rule vfs_exec_step [OF assms(1) ok, where c = "VAdddev m ''null'' d False" and r = "Inr ()"])
      (use d(2) v in \<open>simp_all add: vfs_event_def array_init_def\<close>)
  then show thesis using that v ns by (auto simp: same_lock_def)
qed

end
