(* ===== verification/Vfs_Path.thy ===== *)
theory Vfs_Path
  imports Sfs_Vnode Vfs_List
begin

section \<open>Path names: \<open>vfslookup.c\<close>, \<open>vfscwd.c\<close> and \<open>vfspath.c\<close> in \<open>kern/vfs\<close>\<close>

text \<open>
  From a path name to a vnode, the current directory, and the operations on path names under the
  system calls. \<open>vop\<close> is the macro \<open>__VOP\<close>: the vnode is checked, then the operation of its table
  is called.
\<close>

unbundle bit_operations_syntax

subsection \<open>The code\<close>

definition vop :: "('w, 'o) vfs_ops \<Rightarrow> nat \<Rightarrow> string \<Rightarrow> ('w \<Rightarrow> ('a \<times> 'w) option) \<Rightarrow> 'w vfs \<Rightarrow> ('a \<times> 'w vfs) option" where
  "vop ops p opstr f s = do {
     v \<leftarrow> vn_get ops (world s) p;
     vnode_check v opstr;
     (r, w) \<leftarrow> f (world s);
     Some (r, s\<lparr>world := w\<rparr>) }"

definition vop_incopen :: "('w, 'o) vfs_ops \<Rightarrow> nat \<Rightarrow> 'w vfs \<Rightarrow> 'w vfs option" where
  "vop_incopen ops p s = do {
     v \<leftarrow> vn_get ops (world s) p;
     Some (s\<lparr>world := vn_put ops (world s) p (vnode_incopen v)\<rparr>) }"

definition vop_decopen :: "('w, 'o) vfs_ops \<Rightarrow> nat \<Rightarrow> 'w vfs \<Rightarrow> 'w vfs option" where
  "vop_decopen ops p s = do {
     w \<leftarrow> vnode_decopen (vn_get ops) (vn_put ops) (vop_close ops) (world s) p;
     Some (s\<lparr>world := w\<rparr>) }"

text \<open>\<open>vfscwd.c\<close>.\<close>

definition vfs_getcurdir :: "('w, 'o) vfs_ops \<Rightarrow> 'w vfs \<Rightarrow> (nat kresult \<times> 'w vfs) option" where
  "vfs_getcurdir ops s =
     (case p_cwd s of
        Some p \<Rightarrow> do { s \<leftarrow> vop_incref ops p s; Some (Inr p, s) }
      | None \<Rightarrow> Some (Inl ENOENT, s))"

definition vfs_setcurdir :: "('w, 'o) vfs_ops \<Rightarrow> nat \<Rightarrow> 'w vfs \<Rightarrow> (unit kresult \<times> 'w vfs) option" where
  "vfs_setcurdir ops dir s = do {
     (result, s) \<leftarrow> vop ops dir ''gettype'' (vop_gettype ops dir) s;
     case result of
       Inl e \<Rightarrow> Some (Inl e, s)
     | Inr vtype \<Rightarrow>
         (if vtype \<noteq> S_IFDIR then Some (Inl ENOTDIR, s)
          else do {
            s \<leftarrow> vop_incref ops dir s;
            let old = p_cwd s;
            let s = s\<lparr>p_cwd := Some dir\<rparr>;
            s \<leftarrow> (case old of None \<Rightarrow> Some s | Some p \<Rightarrow> vop_decref ops p s);
            Some (Inr (), s) }) }"

definition vfs_clearcurdir :: "('w, 'o) vfs_ops \<Rightarrow> 'w vfs \<Rightarrow> (unit kresult \<times> 'w vfs) option" where
  "vfs_clearcurdir ops s = do {
     let old = p_cwd s;
     let s = s\<lparr>p_cwd := None\<rparr>;
     s \<leftarrow> (case old of None \<Rightarrow> Some s | Some p \<Rightarrow> vop_decref ops p s);
     Some (Inr (), s) }"

text \<open>
  \<open>getdevice\<close>. The loop locates the first colon or slash; \<open>skip_slash\<close> is the loop that moves an
  index over the slashes after it, the characters of the path being followed by a zero.
\<close>

fun find_sep :: "string \<Rightarrow> nat \<Rightarrow> nat option \<times> nat option" where
  "find_sep [] i = (None, None)"
| "find_sep (c # cs) i =
     (if c = CHR '':'' then (Some i, None) else if c = CHR ''/'' then (None, Some i) else find_sep cs (Suc i))"

function skip_slash :: "string \<Rightarrow> nat \<Rightarrow> nat" where
  "skip_slash path i = (if Suc i < length path \<and> path ! Suc i = CHR ''/'' then skip_slash path (Suc i) else i)"
  by pat_completeness auto
termination by (relation "measure (\<lambda>(path, i). length path - i)") auto

declare skip_slash.simps [simp del]

definition getdevice :: "('w, 'o) vfs_ops \<Rightarrow> string \<Rightarrow> 'w vfs \<Rightarrow> ((string \<times> nat) kresult \<times> 'w vfs) option" where
  "getdevice ops path s = do {
     kassert (vfs_biglock_do_i_hold s);
     let (colon, slash) = find_sep path 0;
     if colon = None \<and> slash \<noteq> Some 0 then do {
       (r, s) \<leftarrow> vfs_getcurdir ops s;
       Some (case r of Inl e \<Rightarrow> Inl e | Inr p \<Rightarrow> Inr (path, p), s) }
     else case colon of
       Some (Suc c) \<Rightarrow> do {
         let subpath = drop (skip_slash path (Suc c) + 1) path;
         (r, s) \<leftarrow> vfs_getroot ops (take (Suc c) path) s;
         Some (case r of Inl e \<Rightarrow> Inl e | Inr p \<Rightarrow> Inr (subpath, p), s) }
     | _ \<Rightarrow> do {
         kassert (colon = Some 0 \<or> slash = Some 0);
         c \<leftarrow> slot_get path 0;
         (r, s) \<leftarrow> (if c = CHR ''/'' then
              (case bootfs_vnode s of
                 None \<Rightarrow> Some (Inl ENOENT, s)
               | Some b \<Rightarrow> do { s \<leftarrow> vop_incref ops b s; Some (Inr b, s) })
            else do {
              kassert (c = CHR '':'');
              (r, s) \<leftarrow> vfs_getcurdir ops s;
              case r of
                Inl e \<Rightarrow> Some (Inl e, s)
              | Inr vn \<Rightarrow> do {
                  f \<leftarrow> vn_fs ops vn (world s);
                  (p, w) \<leftarrow> fs_getroot ops f (world s);
                  s \<leftarrow> vop_decref ops vn (s\<lparr>world := w\<rparr>);
                  Some (Inr p, s) } });
         Some (case r of Inl e \<Rightarrow> Inl e | Inr p \<Rightarrow> Inr (drop (skip_slash path 0 + 1) path, p), s) } }"

definition vfs_lookparent :: "('w, 'o) vfs_ops \<Rightarrow> string \<Rightarrow> nat \<Rightarrow> 'w vfs \<Rightarrow> ((nat \<times> string) kresult \<times> 'w vfs) option" where
  "vfs_lookparent ops path buflen s = do {
     let s = vfs_biglock_acquire s;
     (r, s) \<leftarrow> getdevice ops path s;
     case r of
       Inl e \<Rightarrow> do { s \<leftarrow> vfs_biglock_release s; Some (Inl e, s) }
     | Inr (path, startvn) \<Rightarrow> do {
         (result, s) \<leftarrow> (if length path = 0 then Some (Inl EINVAL, s)
            else vop ops startvn ''lookparent'' (vop_lookparent ops startvn path buflen) s);
         s \<leftarrow> vop_decref ops startvn s;
         s \<leftarrow> vfs_biglock_release s;
         Some (result, s) } }"

definition vfs_lookup :: "('w, 'o) vfs_ops \<Rightarrow> string \<Rightarrow> 'w vfs \<Rightarrow> (nat kresult \<times> 'w vfs) option" where
  "vfs_lookup ops path s = do {
     let s = vfs_biglock_acquire s;
     (r, s) \<leftarrow> getdevice ops path s;
     case r of
       Inl e \<Rightarrow> do { s \<leftarrow> vfs_biglock_release s; Some (Inl e, s) }
     | Inr (path, startvn) \<Rightarrow>
         (if length path = 0 then do { s \<leftarrow> vfs_biglock_release s; Some (Inr startvn, s) }
          else do {
            (result, s) \<leftarrow> vop ops startvn ''lookup'' (vop_lookup ops startvn path) s;
            s \<leftarrow> vop_decref ops startvn s;
            s \<leftarrow> vfs_biglock_release s;
            Some (result, s) }) }"

definition vfs_chdir :: "('w, 'o) vfs_ops \<Rightarrow> string \<Rightarrow> 'w vfs \<Rightarrow> (unit kresult \<times> 'w vfs) option" where
  "vfs_chdir ops path s = do {
     (r, s) \<leftarrow> vfs_lookup ops path s;
     case r of
       Inl e \<Rightarrow> Some (Inl e, s)
     | Inr vn \<Rightarrow> do {
         (result, s) \<leftarrow> vfs_setcurdir ops vn s;
         s \<leftarrow> vop_decref ops vn s;
         Some (result, s) } }"

text \<open>\<open>vfs_getcwd\<close>; the bytes of a string are the characters' codes.\<close>

definition str_bytes :: "string \<Rightarrow> u8 list" where
  "str_bytes = map (\<lambda>c. word_of_nat (of_char c))"

definition vfs_getcwd :: "('w, 'o) vfs_ops \<Rightarrow> uio \<Rightarrow> 'w vfs \<Rightarrow> ((unit kresult \<times> uio) \<times> 'w vfs) option" where
  "vfs_getcwd ops u s = do {
     kassert (uio_rw u = UIO_READ);
     (r, s) \<leftarrow> vfs_getcurdir ops s;
     case r of
       Inl e \<Rightarrow> Some ((Inl e, u), s)
     | Inr cwd \<Rightarrow> do {
         f \<leftarrow> vn_fs ops cwd (world s);
         (name, s) \<leftarrow> (case fs_getvolname ops f (world s) of
            Some v \<Rightarrow> Some (Some v, s)
          | None \<Rightarrow> do {
              let s = vfs_biglock_acquire s;
              n \<leftarrow> vfs_getdevname f s;
              s \<leftarrow> vfs_biglock_release s;
              Some (n, s) });
         nm \<leftarrow> name;
         (result, _, u) \<leftarrow> uiomove (str_bytes nm) (length nm) u;
         ((result, u), s) \<leftarrow> (case result of
            Inl e \<Rightarrow> Some ((Inl e, u), s)
          | Inr _ \<Rightarrow> do {
              (result, _, u) \<leftarrow> uiomove (str_bytes '':'') 1 u;
              case result of
                Inl e \<Rightarrow> Some ((Inl e, u), s)
              | Inr _ \<Rightarrow> vop ops cwd ''namefile'' (vop_namefile ops cwd u) s });
         s \<leftarrow> vop_decref ops cwd s;
         Some ((result, u), s) } }"

text \<open>The boot file system.\<close>

definition NAME_MAX :: nat where "NAME_MAX = 255"

definition change_bootfs :: "('w, 'o) vfs_ops \<Rightarrow> nat option \<Rightarrow> 'w vfs \<Rightarrow> 'w vfs option" where
  "change_bootfs ops newvn s = do {
     let oldvn = bootfs_vnode s;
     let s = s\<lparr>bootfs_vnode := newvn\<rparr>;
     case oldvn of None \<Rightarrow> Some s | Some p \<Rightarrow> vop_decref ops p s }"

text \<open>\<open>snprintf\<close> with \<open>sizeof(tmp)-1\<close> keeps \<open>sizeof(tmp)-2\<close> characters.\<close>

definition vfs_setbootfs :: "('w, 'o) vfs_ops \<Rightarrow> string \<Rightarrow> 'w vfs \<Rightarrow> (unit kresult \<times> 'w vfs) option" where
  "vfs_setbootfs ops fsname s = do {
     let s = vfs_biglock_acquire s;
     let tmp = take (NAME_MAX + 1 - 2) fsname;
     let found = dropWhile (\<lambda>c. c \<noteq> CHR '':'') tmp;
     if found \<noteq> [] \<and> length found > 0 then do { s \<leftarrow> vfs_biglock_release s; Some (Inl EINVAL, s) }
     else do {
       (result, s) \<leftarrow> vfs_chdir ops (if found \<noteq> [] then tmp else tmp @ '':'') s;
       case result of
         Inl e \<Rightarrow> do { s \<leftarrow> vfs_biglock_release s; Some (Inl e, s) }
       | Inr _ \<Rightarrow> do {
           (result, s) \<leftarrow> vfs_getcurdir ops s;
           case result of
             Inl e \<Rightarrow> do { s \<leftarrow> vfs_biglock_release s; Some (Inl e, s) }
           | Inr newguy \<Rightarrow> do {
               s \<leftarrow> change_bootfs ops (Some newguy) s;
               s \<leftarrow> vfs_biglock_release s;
               Some (Inr (), s) } } } }"

definition vfs_clearbootfs :: "('w, 'o) vfs_ops \<Rightarrow> 'w vfs \<Rightarrow> 'w vfs option" where
  "vfs_clearbootfs ops s = do {
     let s = vfs_biglock_acquire s;
     s \<leftarrow> change_bootfs ops None s;
     vfs_biglock_release s }"

text \<open>\<open>vfspath.c\<close>.\<close>

definition vfs_open :: "('w, 'o) vfs_ops \<Rightarrow> string \<Rightarrow> u32 \<Rightarrow> nat \<Rightarrow> 'w vfs \<Rightarrow> (nat kresult \<times> 'w vfs) option" where
  "vfs_open ops path openflags mode s =
     (let how = openflags AND O_ACCMODE in
      if how \<noteq> O_RDONLY \<and> how \<noteq> O_WRONLY \<and> how \<noteq> O_RDWR then Some (Inl EINVAL, s)
      else do {
        let canwrite = (how \<noteq> O_RDONLY);
        (result, s) \<leftarrow> (if openflags AND O_CREAT \<noteq> 0 then do {
             let excl = (openflags AND O_EXCL \<noteq> 0);
             (r, s) \<leftarrow> vfs_lookparent ops path (NAME_MAX + 1) s;
             case r of
               Inl e \<Rightarrow> Some (Inl e, s)
             | Inr (dir, name) \<Rightarrow> do {
                 (r, s) \<leftarrow> vop ops dir ''creat'' (vop_creat ops dir name excl mode) s;
                 s \<leftarrow> vop_decref ops dir s;
                 Some (r, s) } }
           else vfs_lookup ops path s);
        case result of
          Inl e \<Rightarrow> Some (Inl e, s)
        | Inr vn \<Rightarrow> do {
            (r, s) \<leftarrow> vop ops vn ''open'' (vop_open ops vn openflags) s;
            case r of
              Inl e \<Rightarrow> do { s \<leftarrow> vop_decref ops vn s; Some (Inl e, s) }
            | Inr _ \<Rightarrow> do {
                s \<leftarrow> vop_incopen ops vn s;
                (r, s) \<leftarrow> (if openflags AND O_TRUNC \<noteq> 0 then
                     (if \<not> canwrite then Some (Inl EINVAL, s)
                      else vop ops vn ''truncate'' (vop_trunc ops vn 0) s)
                   else Some (Inr (), s));
                case r of
                  Inl e \<Rightarrow> do { s \<leftarrow> vop_decopen ops vn s; s \<leftarrow> vop_decref ops vn s; Some (Inl e, s) }
                | Inr _ \<Rightarrow> Some (Inr vn, s) } } })"

definition vfs_close :: "('w, 'o) vfs_ops \<Rightarrow> nat \<Rightarrow> 'w vfs \<Rightarrow> 'w vfs option" where
  "vfs_close ops vn s = do { s \<leftarrow> vop_decopen ops vn s; vop_decref ops vn s }"

text \<open>The operations that look up the parent directory and call one operation of it.\<close>

definition in_parent ::
  "('w, 'o) vfs_ops \<Rightarrow> string \<Rightarrow> string \<Rightarrow> (nat \<Rightarrow> string \<Rightarrow> 'w \<Rightarrow> (unit kresult \<times> 'w) option) \<Rightarrow> 'w vfs \<Rightarrow> (unit kresult \<times> 'w vfs) option" where
  "in_parent ops opstr path f s = do {
     (r, s) \<leftarrow> vfs_lookparent ops path (NAME_MAX + 1) s;
     case r of
       Inl e \<Rightarrow> Some (Inl e, s)
     | Inr (dir, name) \<Rightarrow> do {
         (result, s) \<leftarrow> vop ops dir opstr (f dir name) s;
         s \<leftarrow> vop_decref ops dir s;
         Some (result, s) } }"

definition vfs_remove where
  "vfs_remove ops path = in_parent ops ''remove'' path (vop_remove ops)"

definition vfs_symlink where
  "vfs_symlink ops contents path = in_parent ops ''symlink'' path (\<lambda>dir name. vop_symlink ops dir name contents)"

definition vfs_mkdir where
  "vfs_mkdir ops path mode = in_parent ops ''mkdir'' path (\<lambda>dir name. vop_mkdir ops dir name mode)"

definition vfs_rmdir where
  "vfs_rmdir ops path = in_parent ops ''rmdir'' path (vop_rmdir ops)"

definition vfs_rename :: "('w, 'o) vfs_ops \<Rightarrow> string \<Rightarrow> string \<Rightarrow> 'w vfs \<Rightarrow> (unit kresult \<times> 'w vfs) option" where
  "vfs_rename ops oldpath newpath s = do {
     (r, s) \<leftarrow> vfs_lookparent ops oldpath (NAME_MAX + 1) s;
     case r of
       Inl e \<Rightarrow> Some (Inl e, s)
     | Inr (olddir, oldname) \<Rightarrow> do {
         (r, s) \<leftarrow> vfs_lookparent ops newpath (NAME_MAX + 1) s;
         case r of
           Inl e \<Rightarrow> do { s \<leftarrow> vop_decref ops olddir s; Some (Inl e, s) }
         | Inr (newdir, newname) \<Rightarrow> do {
             let fo = vn_fs ops olddir (world s);
             let fn = vn_fs ops newdir (world s);
             (result, s) \<leftarrow> (if fo = None \<or> fn = None \<or> fo \<noteq> fn then Some (Inl EXDEV, s)
                else vop ops olddir ''rename'' (vop_rename ops olddir oldname newdir newname) s);
             s \<leftarrow> vop_decref ops newdir s;
             s \<leftarrow> vop_decref ops olddir s;
             Some (result, s) } } }"

definition vfs_link :: "('w, 'o) vfs_ops \<Rightarrow> string \<Rightarrow> string \<Rightarrow> 'w vfs \<Rightarrow> (unit kresult \<times> 'w vfs) option" where
  "vfs_link ops oldpath newpath s = do {
     (r, s) \<leftarrow> vfs_lookup ops oldpath s;
     case r of
       Inl e \<Rightarrow> Some (Inl e, s)
     | Inr oldfile \<Rightarrow> do {
         (r, s) \<leftarrow> vfs_lookparent ops newpath (NAME_MAX + 1) s;
         case r of
           Inl e \<Rightarrow> do { s \<leftarrow> vop_decref ops oldfile s; Some (Inl e, s) }
         | Inr (newdir, newname) \<Rightarrow> do {
             let fo = vn_fs ops oldfile (world s);
             let fn = vn_fs ops newdir (world s);
             (result, s) \<leftarrow> (if fo = None \<or> fn = None \<or> fo \<noteq> fn then Some (Inl EXDEV, s)
                else vop ops newdir ''link'' (vop_link ops newdir newname oldfile) s);
             s \<leftarrow> vop_decref ops newdir s;
             s \<leftarrow> vop_decref ops oldfile s;
             Some (result, s) } } }"

definition vfs_readlink :: "('w, 'o) vfs_ops \<Rightarrow> string \<Rightarrow> uio \<Rightarrow> 'w vfs \<Rightarrow> ((unit kresult \<times> uio) \<times> 'w vfs) option" where
  "vfs_readlink ops path u s = do {
     (r, s) \<leftarrow> vfs_lookup ops path s;
     case r of
       Inl e \<Rightarrow> Some ((Inl e, u), s)
     | Inr vn \<Rightarrow> do {
         (result, s) \<leftarrow> vop ops vn ''readlink'' (vop_readlink ops vn u) s;
         s \<leftarrow> vop_decref ops vn s;
         Some (result, s) } }"

subsection \<open>Path names\<close>

text \<open>
  What a path means, as \<open>vfs.h\<close> gives it: where it starts and the rest of it. A path up to its
  first colon or slash decides.
\<close>

datatype start = Current | Device string | Boot | CurrentRoot

definition sep :: "char \<Rightarrow> bool" where
  "sep c \<longleftrightarrow> c = CHR '':'' \<or> c = CHR ''/''"

definition path_split :: "string \<Rightarrow> start \<times> string" where
  "path_split path =
     (let pre = takeWhile (\<lambda>c. \<not> sep c) path; rest = dropWhile ((=) CHR ''/'') (drop (Suc (length pre)) path) in
      case drop (length pre) path of
        [] \<Rightarrow> (Current, path)
      | c # _ \<Rightarrow>
          if c = CHR '':'' then (if pre = [] then CurrentRoot else Device pre, rest)
          else if pre = [] then (Boot, rest) else (Current, path))"

definition start_vnode :: "('w, 'o) vfs_ops \<Rightarrow> start \<Rightarrow> 'w vfs \<Rightarrow> (nat kresult \<times> 'w vfs) option" where
  "start_vnode ops st s =
     (case st of
        Current \<Rightarrow> vfs_getcurdir ops s
      | Device d \<Rightarrow> vfs_getroot ops d s
      | Boot \<Rightarrow> (case bootfs_vnode s of
            None \<Rightarrow> Some (Inl ENOENT, s)
          | Some b \<Rightarrow> do { s \<leftarrow> vop_incref ops b s; Some (Inr b, s) })
      | CurrentRoot \<Rightarrow> do {
          (r, s) \<leftarrow> vfs_getcurdir ops s;
          case r of
            Inl e \<Rightarrow> Some (Inl e, s)
          | Inr vn \<Rightarrow> do {
              f \<leftarrow> vn_fs ops vn (world s);
              (p, w) \<leftarrow> fs_getroot ops f (world s);
              s \<leftarrow> vop_decref ops vn (s\<lparr>world := w\<rparr>);
              Some (Inr p, s) } })"

lemma skip_slash_drop:
  "i < length path \<Longrightarrow> drop (Suc (skip_slash path i)) path = dropWhile ((=) CHR ''/'') (drop (Suc i) path)"
proof (induction path i rule: skip_slash.induct)
  case (1 path i)
  show ?case
  proof (cases "Suc i < length path \<and> path ! Suc i = CHR ''/''")
    case True
    then have "skip_slash path i = skip_slash path (Suc i)" by (subst skip_slash.simps) simp
    moreover have "drop (Suc i) path = CHR ''/'' # drop (Suc (Suc i)) path" using True by (metis Cons_nth_drop_Suc)
    ultimately show ?thesis using 1(1) True by simp
  next
    case False
    then have "skip_slash path i = i" by (subst skip_slash.simps) auto
    moreover have "dropWhile ((=) CHR ''/'') (drop (Suc i) path) = drop (Suc i) path"
      using False by (cases "drop (Suc i) path") (auto simp: nth_via_drop not_less dest: nth_via_drop)
    ultimately show ?thesis by simp
  qed
qed

lemma find_sep_eq:
  "find_sep path i =
    (let n = length (takeWhile (\<lambda>c. \<not> sep c) path) in
     case drop n path of [] \<Rightarrow> (None, None) | c # _ \<Rightarrow> if c = CHR '':'' then (Some (i + n), None) else (None, Some (i + n)))"
  by (induction path arbitrary: i) (auto simp: sep_def Let_def split: list.split)

lemma first_sep:
  assumes "drop (length (takeWhile (\<lambda>c. \<not> sep c) path)) path = c # cs"
  shows "sep c" "length (takeWhile (\<lambda>c. \<not> sep c) path) < length path" "path ! length (takeWhile (\<lambda>c. \<not> sep c) path) = c"
    "take (length (takeWhile (\<lambda>c. \<not> sep c) path)) path = takeWhile (\<lambda>c. \<not> sep c) path"
proof -
  let ?n = "length (takeWhile (\<lambda>c. \<not> sep c) path)"
  show n: "?n < length path" using assms by (metis drop_all list.distinct(1) not_less)
  show c: "path ! ?n = c" using assms by (simp add: nth_via_drop)
  show "sep c" using nth_length_takeWhile [of "\<lambda>c. \<not> sep c" path] n c by simp
  show "take ?n path = takeWhile (\<lambda>c. \<not> sep c) path" by (simp add: takeWhile_eq_take [symmetric])
qed

lemma getdevice_eq:
  assumes "vfs_biglock_do_i_hold s"
  shows "getdevice ops path s = do {
    (r, s) \<leftarrow> start_vnode ops (fst (path_split path)) s;
    Some (case r of Inl e \<Rightarrow> Inl e | Inr p \<Rightarrow> Inr (snd (path_split path), p), s) }"
proof -
  let ?pre = "takeWhile (\<lambda>c. \<not> sep c) path"
  let ?rest = "dropWhile ((=) CHR ''/'') (drop (Suc (length ?pre)) path)"
  show ?thesis
  proof (cases "drop (length ?pre) path")
    case Nil
    then have fs: "find_sep path 0 = (None, None)" and ps: "path_split path = (Current, path)"
      by (simp_all add: find_sep_eq path_split_def)
    show ?thesis unfolding ps fst_conv snd_conv using assms by (simp add: getdevice_def fs start_vnode_def)
  next
    case (Cons c cs)
    note f = first_sep [OF Cons]
    have sl: "drop (Suc (skip_slash path (length ?pre))) path = ?rest" by (rule skip_slash_drop [OF f(2)])
    show ?thesis
    proof (cases "?pre")
      case Nil
      have p0: "slot_get path 0 = Some c" "skip_slash path 0 = skip_slash path (length ?pre)"
        using f(2,3) Nil by (simp_all add: slot_get_def)
      have e: "?rest = drop (skip_slash path 0 + 1) path" using sl p0(2) by simp
      have "c = CHR ''/'' \<or> c = CHR '':''" using f(1) by (auto simp: sep_def)
      then show ?thesis
      proof
        assume c: "c = CHR ''/''"
        then have fs: "find_sep path 0 = (None, Some 0)" and ps: "path_split path = (Boot, ?rest)"
          using Cons Nil by (simp_all add: find_sep_eq path_split_def)
        show ?thesis unfolding ps fst_conv snd_conv e using assms by (simp add: getdevice_def fs start_vnode_def p0(1) [unfolded c])
      next
        assume c: "c = CHR '':''"
        then have fs: "find_sep path 0 = (Some 0, None)" and ps: "path_split path = (CurrentRoot, ?rest)"
          using Cons Nil by (simp_all add: find_sep_eq path_split_def)
        show ?thesis unfolding ps fst_conv snd_conv e using assms by (simp add: getdevice_def fs start_vnode_def p0(1) [unfolded c])
      qed
    next
      case (Cons a as)
      have pre: "length ?pre = Suc (length as)" using Cons by simp
      have e: "?rest = drop (Suc (skip_slash path (Suc (length as)))) path" using sl unfolding pre by simp
      have st: "take (Suc (length as)) path = ?pre" using f(4) unfolding pre .
      show ?thesis
      proof (cases "c = CHR '':''")
        case True
        then have fs: "find_sep path 0 = (Some (Suc (length as)), None)"
          using \<open>drop (length ?pre) path = c # cs\<close> pre by (simp add: find_sep_eq Let_def)
        have ps: "path_split path = (Device ?pre, ?rest)"
          using True \<open>drop (length ?pre) path = c # cs\<close> Cons by (simp add: path_split_def Let_def)
        show ?thesis unfolding ps fst_conv snd_conv e using assms by (simp add: getdevice_def fs start_vnode_def st)
      next
        case False
        then have fs: "find_sep path 0 = (None, Some (Suc (length as)))"
          using \<open>drop (length ?pre) path = c # cs\<close> pre by (simp add: find_sep_eq Let_def)
        have ps: "path_split path = (Current, path)"
          using False \<open>drop (length ?pre) path = c # cs\<close> Cons by (simp add: path_split_def Let_def)
        show ?thesis unfolding ps fst_conv snd_conv using assms by (simp add: getdevice_def fs start_vnode_def)
      qed
    qed
  qed
qed

lemma acquire_holds: "vfs_biglock_do_i_hold (vfs_biglock_acquire s)"
  by (simp add: vfs_biglock_acquire_def vfs_biglock_do_i_hold_def)

text \<open>The reference: look up \<open>rest\<close> from where the path starts, with the lock.\<close>

definition with_biglock :: "('w vfs \<Rightarrow> ('a \<times> 'w vfs) option) \<Rightarrow> 'w vfs \<Rightarrow> ('a \<times> 'w vfs) option" where
  "with_biglock f s = do {
     (r, s) \<leftarrow> f (vfs_biglock_acquire s);
     s \<leftarrow> vfs_biglock_release s;
     Some (r, s) }"

definition resolve ::
  "('w, 'o) vfs_ops \<Rightarrow> string \<Rightarrow> (nat \<Rightarrow> string \<Rightarrow> 'w vfs \<Rightarrow> ('a kresult \<times> 'w vfs) option) \<Rightarrow> 'w vfs \<Rightarrow> ('a kresult \<times> 'w vfs) option" where
  "resolve ops path walk = with_biglock (\<lambda>s. do {
     let (st, rest) = path_split path;
     (r, s) \<leftarrow> start_vnode ops st s;
     case r of Inl e \<Rightarrow> Some (Inl e, s) | Inr p \<Rightarrow> walk p rest s })"

definition walk_lookup :: "('w, 'o) vfs_ops \<Rightarrow> nat \<Rightarrow> string \<Rightarrow> 'w vfs \<Rightarrow> (nat kresult \<times> 'w vfs) option" where
  "walk_lookup ops p rest s =
     (if rest = [] then Some (Inr p, s)
      else do {
        (r, s) \<leftarrow> vop ops p ''lookup'' (vop_lookup ops p rest) s;
        s \<leftarrow> vop_decref ops p s;
        Some (r, s) })"

definition walk_lookparent :: "('w, 'o) vfs_ops \<Rightarrow> nat \<Rightarrow> nat \<Rightarrow> string \<Rightarrow> 'w vfs \<Rightarrow> ((nat \<times> string) kresult \<times> 'w vfs) option" where
  "walk_lookparent ops buflen p rest s = do {
     (r, s) \<leftarrow> (if rest = [] then Some (Inl EINVAL, s)
       else vop ops p ''lookparent'' (vop_lookparent ops p rest buflen) s);
     s \<leftarrow> vop_decref ops p s;
     Some (r, s) }"

lemma lookup_eq:
  "vfs_lookup ops path s = resolve ops path (walk_lookup ops) s"
  "vfs_lookparent ops path buflen s = resolve ops path (walk_lookparent ops buflen) s"
proof -
  let ?x = "start_vnode ops (fst (path_split path)) (vfs_biglock_acquire s)"
  show "vfs_lookup ops path s = resolve ops path (walk_lookup ops) s"
    unfolding vfs_lookup_def resolve_def with_biglock_def walk_lookup_def
    by (cases ?x) (auto simp: getdevice_eq [OF acquire_holds] Let_def case_prod_unfold split: sum.splits)
  show "vfs_lookparent ops path buflen s = resolve ops path (walk_lookparent ops buflen) s"
    unfolding vfs_lookparent_def resolve_def with_biglock_def walk_lookparent_def
    by (cases ?x) (auto simp: getdevice_eq [OF acquire_holds] Let_def case_prod_unfold split: sum.splits)
qed

text \<open>
  C19. Path names are resolved as documented. \<open>vfs_lookup\<close> and \<open>vfs_lookparent\<close>, with the loops
  of \<open>getdevice\<close> over the characters, are for every path, every table of devices and every file
  system the reference: split the path at its first colon or slash (\<open>dev:rest\<close> starts at the
  root of \<open>dev\<close>, \<open>/rest\<close> at the boot file system, \<open>:rest\<close> at the root of the current file
  system, all with the slashes before \<open>rest\<close> dropped, any other path in the current
  directory), then let the file system walk \<open>rest\<close>. The start vnode is released exactly
  when it is not the result.
\<close>

theorem path_resolution:
  "vfs_lookup ops path s = resolve ops path (walk_lookup ops) s \<and>
   vfs_lookparent ops path buflen s = resolve ops path (walk_lookparent ops buflen) s"
  by (simp add: lookup_eq)

subsection \<open>The lock\<close>

text \<open>
  What the path operations must leave alone: the lock and the table of devices. \<open>lv_ok n\<close>: the
  lock is held to a depth below \<open>n\<close>.
\<close>

definition lockview :: "'w vfs \<Rightarrow> bool \<times> nat \<times> knowndev array" where
  "lockview s = (biglock_mine s, vfs_biglock_depth s, knowndevs s)"

definition lv_ok :: "nat \<Rightarrow> bool \<times> nat \<times> knowndev array \<Rightarrow> bool" where
  "lv_ok n v \<longleftrightarrow> (fst v \<longleftrightarrow> fst (snd v) \<noteq> 0) \<and> fst (snd v) < n"

named_theorems view

lemma lockview_update [simp]:
  "lockview (s\<lparr>world := w\<rparr>) = lockview s" "lockview (s\<lparr>p_cwd := c\<rparr>) = lockview s" "lockview (s\<lparr>bootfs_vnode := b\<rparr>) = lockview s"
  by (simp_all add: lockview_def)

lemma refs_view [view]:
  "vop_incref ops p s = Some s' \<Longrightarrow> lockview s' = lockview s"
  "vop_decref ops p s = Some s' \<Longrightarrow> lockview s' = lockview s"
  "vop_incopen ops p s = Some s' \<Longrightarrow> lockview s' = lockview s"
  "vop_decopen ops p s = Some s' \<Longrightarrow> lockview s' = lockview s"
  by (auto simp: vop_incref_def vop_decref_def vop_incopen_def vop_decopen_def split: bind_splits)

lemma vop_view [view]: "vop ops p opstr f s = Some (r, s') \<Longrightarrow> lockview s' = lockview s"
  by (auto simp: vop_def split: bind_splits)

lemma curdir_view [view]:
  "vfs_getcurdir ops s = Some (r, s') \<Longrightarrow> lockview s' = lockview s"
  "vfs_setcurdir ops dir s = Some (q, s') \<Longrightarrow> lockview s' = lockview s"
  "vfs_clearcurdir ops s = Some (q, s') \<Longrightarrow> lockview s' = lockview s"
  "change_bootfs ops vn s = Some s' \<Longrightarrow> lockview s' = lockview s"
  by (auto simp: vfs_getcurdir_def vfs_setcurdir_def vfs_clearcurdir_def change_bootfs_def Let_def dest!: view
      split: option.splits bind_splits sum.splits if_splits)

lemma getroot_view [view]: "vfs_getroot ops d s = Some (r, s') \<Longrightarrow> lockview s' = lockview s"
proof -
  have step: "getroot_step ops kd d s = Some (Some (r, s')) \<Longrightarrow> lockview s' = lockview s" for kd
    by (auto simp: getroot_step_def dest!: view split: if_splits bind_splits prod.splits)
  have "getroot_from ops n i d s = Some (r, s') \<Longrightarrow> lockview s' = lockview s" for n i
    by (induction n arbitrary: i) (auto dest!: step split: bind_splits option.splits)
  then show "vfs_getroot ops d s = Some (r, s') \<Longrightarrow> lockview s' = lockview s"
    by (auto simp: vfs_getroot_def split: bind_splits)
qed

lemma start_view [view]: "start_vnode ops st s = Some (r, s') \<Longrightarrow> lockview s' = lockview s"
  by (auto simp: start_vnode_def dest!: view split: start.splits option.splits bind_splits sum.splits prod.splits)

lemma walk_view [view]:
  "walk_lookup ops p rest s = Some (r, s') \<Longrightarrow> lockview s' = lockview s"
  "walk_lookparent ops buflen p rest s = Some (q, s') \<Longrightarrow> lockview s' = lockview s"
  by (auto simp: walk_lookup_def walk_lookparent_def dest!: view split: if_splits bind_splits prod.splits)

lemma release_view:
  assumes "lv_ok (2 ^ 31) (lockview s)" "lockview t = lockview (vfs_biglock_acquire s)" "vfs_biglock_release t = Some s'"
  shows "lockview s' = lockview s"
  using assms
  by (auto simp: lockview_def lv_ok_def vfs_biglock_acquire_def vfs_biglock_release_def Let_def split: bind_splits)

lemma resolve_view:
  assumes "\<And>p rest s r s'. walk p rest s = Some (r, s') \<Longrightarrow> lockview s' = lockview s"
    and run: "resolve ops path walk s = Some (r, s')" and "lv_ok (2 ^ 31) (lockview s)"
  shows "lockview s' = lockview s"
proof -
  obtain st rest where ps: "path_split path = (st, rest)" by fastforce
  obtain q u where u: "start_vnode ops st (vfs_biglock_acquire s) = Some (q, u)"
    using run by (auto simp: resolve_def with_biglock_def ps split: bind_splits)
  obtain t where t: "(case q of Inl e \<Rightarrow> Some (Inl e, u) | Inr p \<Rightarrow> walk p rest u) = Some (r, t)" "vfs_biglock_release t = Some s'"
    using run by (auto simp: resolve_def with_biglock_def ps u split: bind_splits)
  have "lockview u = lockview (vfs_biglock_acquire s)" by (rule start_view [OF u])
  moreover have "lockview t = lockview u"
  proof (cases q)
    case (Inl e)
    then show ?thesis using t(1) by simp
  next
    case (Inr p)
    then have "walk p rest u = Some (r, t)" using t(1) by simp
    then show ?thesis by (rule assms(1))
  qed
  ultimately show ?thesis by (intro release_view [OF assms(3) _ t(2)]) simp
qed

lemma lookup_view [view]:
  "vfs_lookup ops path s = Some (r, s') \<Longrightarrow> lv_ok (2 ^ 31) (lockview s) \<longrightarrow> lockview s' = lockview s"
  unfolding lookup_eq by (intro impI) (rule resolve_view [OF walk_view(1)])

lemma lookparent_view [view]:
  "vfs_lookparent ops path buflen s = Some (q, s') \<Longrightarrow> lv_ok (2 ^ 31) (lockview s) \<longrightarrow> lockview s' = lockview s"
  unfolding lookup_eq by (intro impI) (rule resolve_view [OF walk_view(2)])

lemma chdir_view [view]:
  "vfs_chdir ops path s = Some (r, s') \<Longrightarrow> lv_ok (2 ^ 31) (lockview s) \<longrightarrow> lockview s' = lockview s"
  by (auto simp: vfs_chdir_def dest!: view split: bind_splits sum.splits)

lemma in_parent_view [view]:
  "in_parent ops opstr path f s = Some (r, s') \<Longrightarrow> lv_ok (2 ^ 31) (lockview s) \<longrightarrow> lockview s' = lockview s"
  by (auto simp: in_parent_def dest!: view split: bind_splits sum.splits)

text \<open>The operations on path names, as calls.\<close>

datatype path_call =
    POpen string u32 nat | PClose nat | PRemove string | PRename string string | PLink string string
  | PSymlink string string | PReadlink string uio | PMkdir string nat | PRmdir string
  | PChdir string | PGetcwd uio | PSetbootfs string | PClearbootfs

fun path_exec :: "('w, 'o) vfs_ops \<Rightarrow> path_call \<Rightarrow> 'w vfs \<Rightarrow> (unit kresult \<times> 'w vfs) option" where
  "path_exec ops (POpen path flags mode) s = map_option (\<lambda>(r, s). (map_sum id (\<lambda>_. ()) r, s)) (vfs_open ops path flags mode s)"
| "path_exec ops (PClose vn) s = map_option (Pair (Inr ())) (vfs_close ops vn s)"
| "path_exec ops (PRemove path) s = vfs_remove ops path s"
| "path_exec ops (PRename path newpath) s = vfs_rename ops path newpath s"
| "path_exec ops (PLink path newpath) s = vfs_link ops path newpath s"
| "path_exec ops (PSymlink contents path) s = vfs_symlink ops contents path s"
| "path_exec ops (PReadlink path u) s = map_option (\<lambda>((r, u), s). (r, s)) (vfs_readlink ops path u s)"
| "path_exec ops (PMkdir path mode) s = vfs_mkdir ops path mode s"
| "path_exec ops (PRmdir path) s = vfs_rmdir ops path s"
| "path_exec ops (PChdir path) s = vfs_chdir ops path s"
| "path_exec ops (PGetcwd u) s = map_option (\<lambda>((r, u), s). (r, s)) (vfs_getcwd ops u s)"
| "path_exec ops (PSetbootfs name) s = vfs_setbootfs ops name s"
| "path_exec ops PClearbootfs s = map_option (Pair (Inr ())) (vfs_clearbootfs ops s)"

lemma acquire_view: "lv_ok n (lockview s) \<Longrightarrow> n < 2 ^ 31 \<Longrightarrow> lv_ok (2 ^ 31) (lockview (vfs_biglock_acquire s))"
  by (simp add: lv_ok_def lockview_def vfs_biglock_acquire_def)

lemma setbootfs_view:
  assumes "vfs_setbootfs ops name s = Some (r, s')" "lv_ok n (lockview s)" "n < 2 ^ 31"
  shows "lockview s' = lockview s"
proof -
  obtain t where "lockview t = lockview (vfs_biglock_acquire s)" "vfs_biglock_release t = Some s'"
    using assms(1) acquire_view [OF assms(2,3)]
    by (auto simp: vfs_setbootfs_def Let_def dest!: view split: bind_splits sum.splits if_splits)
  moreover have "lv_ok (2 ^ 31) (lockview s)" using assms(2,3) by (simp add: lv_ok_def)
  ultimately show ?thesis by (rule release_view [rotated])
qed

lemma open_view [view]:
  "vfs_open ops path flags mode s = Some (r, s') \<Longrightarrow> lv_ok (2 ^ 31) (lockview s) \<longrightarrow> lockview s' = lockview s"
  by (auto simp: vfs_open_def Let_def dest!: view split: bind_splits sum.splits if_splits)

lemma rename_link_view [view]:
  "vfs_rename ops path newpath s = Some (r, s') \<Longrightarrow> lv_ok (2 ^ 31) (lockview s) \<longrightarrow> lockview s' = lockview s"
  "vfs_link ops path newpath s = Some (r, s') \<Longrightarrow> lv_ok (2 ^ 31) (lockview s) \<longrightarrow> lockview s' = lockview s"
  by (auto simp: vfs_rename_def vfs_link_def Let_def dest!: view split: bind_splits sum.splits if_splits)

lemma readlink_view [view]:
  "vfs_readlink ops path u s = Some (r, s') \<Longrightarrow> lv_ok (2 ^ 31) (lockview s) \<longrightarrow> lockview s' = lockview s"
  "vfs_close ops vn s = Some s' \<Longrightarrow> lockview s' = lockview s"
  by (auto simp: vfs_readlink_def vfs_close_def dest!: view split: bind_splits sum.splits if_splits)

lemma clearbootfs_view:
  assumes "vfs_clearbootfs ops s = Some s'" "lv_ok (2 ^ 31) (lockview s)"
  shows "lockview s' = lockview s"
proof -
  obtain t where t: "change_bootfs ops None (vfs_biglock_acquire s) = Some t" "vfs_biglock_release t = Some s'"
    using assms(1) by (auto simp: vfs_clearbootfs_def Let_def split: bind_splits)
  show ?thesis by (rule release_view [OF assms(2) curdir_view(4) [OF t(1)] t(2)])
qed

lemma getcwd_view:
  assumes run: "vfs_getcwd ops u s = Some (r, s')" and ok: "lv_ok (2 ^ 31) (lockview s)"
  shows "lockview s' = lockview s"
proof -
  have nm: "lockview t' = lockview t"
    if "(case v of None \<Rightarrow> do { let t = vfs_biglock_acquire t; n \<leftarrow> vfs_getdevname f t; t \<leftarrow> vfs_biglock_release t; Some (n, t) }
      | Some v \<Rightarrow> Some (Some v, t)) = Some (n, t')" "lockview t = lockview s" for v f t n t'
  proof (cases v)
    case None
    then have "vfs_biglock_release (vfs_biglock_acquire t) = Some t'" using that(1) by (auto simp: Let_def split: bind_splits)
    then show ?thesis using release_view [of t "vfs_biglock_acquire t" t'] that(2) ok by simp
  qed (use that in auto)
  show ?thesis
    using run by (auto simp: vfs_getcwd_def dest!: view nm split: bind_splits sum.splits)
qed

lemma path_exec_view:
  assumes "path_exec ops c s = Some (r, s')" "lv_ok n (lockview s)" "n < 2 ^ 31"
  shows "lockview s' = lockview s"
proof -
  have ok: "lv_ok (2 ^ 31) (lockview s)" using assms(2,3) by (simp add: lv_ok_def)
  show ?thesis
  proof (cases c)
    case (PGetcwd u)
    then show ?thesis using assms(1) ok by (auto dest: getcwd_view)
  next
    case (PSetbootfs nm)
    then show ?thesis using assms by (auto intro: setbootfs_view)
  next
    case PClearbootfs
    then show ?thesis using assms(1) ok by (auto intro: clearbootfs_view)
  qed (use assms(1) ok in \<open>auto simp: vfs_remove_def vfs_symlink_def vfs_mkdir_def vfs_rmdir_def dest!: view\<close>)
qed

subsection \<open>The name space seen through path names\<close>

text \<open>
  Runs of the file system layer: calls that change the table of devices and calls on path names,
  each returning before the next. A call that fails, and every call on path names, is the event
  \<open>NFail\<close>: it must not show in the name space.
\<close>

inductive vfs_runs ::
  "('w, 'o) vfs_ops \<Rightarrow> (nat \<Rightarrow> string option) \<Rightarrow> 'w vfs \<Rightarrow> ns_event list \<Rightarrow> 'w vfs \<Rightarrow> bool"
  for ops :: "('w, 'o) vfs_ops" and vol s0 where
  start: "vfs_runs ops vol s0 [] s0"
| call: "vfs_runs ops vol s0 es s \<Longrightarrow> a_num (knowndevs s) < 2 ^ 29 - 1 \<Longrightarrow> vfs_exec ops c s = Some (r, s') \<Longrightarrow>
    vfs_event ops vol c s r e \<Longrightarrow> vfs_runs ops vol s0 (e # es) s'"
| path: "vfs_runs ops vol s0 es s \<Longrightarrow> path_exec ops pc s = Some (r, s') \<Longrightarrow> vfs_runs ops vol s0 (NFail # es) s'"

lemma vfs_runs_ok:
  assumes "vfs_runs ops vol s0 es s" "vol_fixed ops vol" "vfs_ok vol s0" "\<not> biglock_mine s0"
  shows "vfs_ok vol s \<and> \<not> biglock_mine s \<and>
    name_space vol (array_elems (knowndevs s)) = foldr (ns_apply vol) es (name_space vol (array_elems (knowndevs s0)))"
  using assms(1)
proof induction
  case start
  then show ?case using assms(3,4) by simp
next
  case (call es s c r s' e)
  then show ?case using vfs_exec_step [OF assms(2) _ call(2,3,4)] by (auto simp: same_lock_def)
next
  case (path es s pc r s')
  then have "lv_ok 1 (lockview s)" by (auto simp: lv_ok_def lockview_def vfs_ok_def lock_ok_def)
  then have "lockview s' = lockview s" by (rule path_exec_view [OF path(2)]) simp
  then show ?case using path.IH by (auto simp: lockview_def vfs_ok_def lock_ok_def)
qed

lemma path_split_device:
  assumes "d \<noteq> []" "\<forall>c \<in> set d. \<not> sep c"
  shows "path_split (d @ '':'') = (Device d, [])"
proof -
  have "takeWhile (\<lambda>c. \<not> sep c) (d @ '':'') = d" using assms(2) by (simp add: sep_def)
  then show ?thesis using assms(1) by (simp add: path_split_def)
qed

text \<open>
  C18. Device names are a name space that only adding, mounting and unmounting change. After any
  run of the calls that add, mount and unmount devices and file systems and of the calls on path
  names, whatever fails on the way, looking up \<open>d:\<close> leads where the map says that the successful
  calls built up from \<open>null:\<close>: a mounted device and its volume name to the root of the file
  system, a mountable device without one to \<open>ENXIO\<close>, a raw name or any other device to the
  device, a name nobody gave to \<open>ENODEV\<close>; and no call leaves the big lock held. A volume must not
  bear a name in use when it is mounted.
\<close>

theorem vfs_name_space:
  assumes "vol_fixed ops vol" "vfs_bootstrap ops m_arr m_lock mdev m w = Some s0" "da_vnode m = Some v"
    "vfs_runs ops vol s0 es s" "d \<noteq> []" "\<forall>c \<in> set d. \<not> sep c"
  shows "vfs_lookup ops (d @ '':'') s = with_biglock (reach ops (foldr (ns_apply vol) es [''null'' \<mapsto> TDevice v] d)) s \<and>
    \<not> biglock_mine s \<and> vfs_biglock_depth s = 0"
proof -
  obtain u where u: "da_vnode m = Some u" "vfs_ok vol s0" "\<not> biglock_mine s0" "name_space vol (array_elems (knowndevs s0)) = [''null'' \<mapsto> TDevice u]"
    by (rule vfs_bootstrap_ok [OF assms(1,2)])
  have r: "vfs_ok vol s" "\<not> biglock_mine s" "name_space vol (array_elems (knowndevs s)) = foldr (ns_apply vol) es [''null'' \<mapsto> TDevice v]"
    using vfs_runs_ok [OF assms(4,1) u(2,3)] u(1,4) assms(3) by auto
  have lk: "lock_ok s" using r(1) by (simp add: vfs_ok_def)
  have lock: "vfs_biglock_depth s = 0" using r(2) lk by (simp add: lock_ok_def)
  note ac = biglock_acquire_facts [OF lk]
  have "vfs_ok vol (vfs_biglock_acquire s)" using r(1) ac lock by (simp add: vfs_ok_def lock_ok_def)
  from vfs_getroot_eq [OF assms(1) this ac(1), of d]
  have g: "vfs_getroot ops d (vfs_biglock_acquire s) = reach ops (foldr (ns_apply vol) es [''null'' \<mapsto> TDevice v] d) (vfs_biglock_acquire s)"
    using r(3) by simp
  have "vfs_lookup ops (d @ '':'') s = with_biglock (reach ops (foldr (ns_apply vol) es [''null'' \<mapsto> TDevice v] d)) s"
    unfolding lookup_eq resolve_def with_biglock_def walk_lookup_def path_split_device [OF assms(5,6)]
    by (cases "reach ops (foldr (ns_apply vol) es [''null'' \<mapsto> TDevice v] d) (vfs_biglock_acquire s)")
      (auto simp: start_vnode_def g split: sum.splits)
  then show ?thesis using r(2) lock by simp
qed

end
