(* ===== verification/Vfs_Device.thy ===== *)
theory Vfs_Device
  imports Vfs_Path
begin

section \<open>Device vnodes: \<open>kern/vfs/device.c\<close> and \<open>kern/vfs/devnull.c\<close>\<close>

text \<open>
  The vnodes of devices and their table of operations, and the device \<open>null:\<close>. A \<open>struct device\<close>
  is a record with its four functions, over the state \<open>'d\<close> of the hardware. The world of a
  system that has devices only: the vnodes, their \<open>vn_data\<close>, the devices and the hardware.
\<close>

unbundle bit_operations_syntax

subsection \<open>The code\<close>

definition S_IFCHR :: nat where "S_IFCHR = 0x6000"
definition S_IFBLK :: nat where "S_IFBLK = 0x7000"

record 'd device =
  d_open :: "u32 \<Rightarrow> 'd \<Rightarrow> (unit kresult \<times> 'd) option"
  d_close :: "'d \<Rightarrow> (unit kresult \<times> 'd) option"
  d_io :: "uio \<Rightarrow> 'd \<Rightarrow> ((unit kresult \<times> uio) \<times> 'd) option"
  d_ioctl :: "int \<Rightarrow> nat \<Rightarrow> 'd \<Rightarrow> (unit kresult \<times> 'd) option"
  d_blocks :: nat
  d_blocksize :: nat
  d_devnumber :: nat

record 'd dev_world =
  dw_vnodes :: "nat \<Rightarrow> unit vnode option"
  dw_data :: "nat \<Rightarrow> nat option"
  dw_devs :: "nat \<Rightarrow> 'd device option"
  dw_hw :: 'd

text \<open>\<open>v->vn_data\<close>, followed; an operation of the device on the hardware.\<close>

definition vn_device :: "nat \<Rightarrow> 'd dev_world \<Rightarrow> 'd device option" where
  "vn_device v w = do { d \<leftarrow> dw_data w v; dw_devs w d }"

definition on_hw :: "('d \<Rightarrow> ('a \<times> 'd) option) \<Rightarrow> 'd dev_world \<Rightarrow> ('a \<times> 'd dev_world) option" where
  "on_hw f w = do { (r, h) \<leftarrow> f (dw_hw w); Some (r, w\<lparr>dw_hw := h\<rparr>) }"

definition dev_open :: "nat \<Rightarrow> u32 \<Rightarrow> 'd dev_world \<Rightarrow> (unit kresult \<times> 'd dev_world) option" where
  "dev_open v flags w = do {
     d \<leftarrow> vn_device v w;
     if flags AND (O_CREAT OR O_TRUNC OR O_EXCL OR O_APPEND) \<noteq> 0 then Some (Inl EINVAL, w)
     else on_hw (d_open d flags) w }"

definition dev_close :: "'d dev_world \<Rightarrow> nat \<Rightarrow> (unit kresult \<times> 'd dev_world) option" where
  "dev_close w v = do { d \<leftarrow> vn_device v w; on_hw (d_close d) w }"

definition dev_reclaim :: "'d dev_world \<Rightarrow> nat \<Rightarrow> (unit kresult \<times> 'd dev_world) option" where
  "dev_reclaim w v = Some (Inr (), w)"

definition dev_read :: "nat \<Rightarrow> uio \<Rightarrow> 'd dev_world \<Rightarrow> ((unit kresult \<times> uio) \<times> 'd dev_world) option" where
  "dev_read v u w = do {
     d \<leftarrow> vn_device v w;
     kassert (uio_rw u = UIO_READ);
     on_hw (d_io d u) w }"

definition null_io :: "nat \<Rightarrow> uio \<Rightarrow> 'd dev_world \<Rightarrow> ((unit kresult \<times> uio) \<times> 'd dev_world) option" where
  "null_io v u w = Some ((Inl EINVAL, u), w)"

definition dev_write :: "nat \<Rightarrow> uio \<Rightarrow> 'd dev_world \<Rightarrow> ((unit kresult \<times> uio) \<times> 'd dev_world) option" where
  "dev_write v u w = do {
     d \<leftarrow> vn_device v w;
     kassert (uio_rw u = UIO_WRITE);
     on_hw (d_io d u) w }"

definition dev_ioctl :: "nat \<Rightarrow> int \<Rightarrow> nat \<Rightarrow> 'd dev_world \<Rightarrow> (unit kresult \<times> 'd dev_world) option" where
  "dev_ioctl v op data w = do { d \<leftarrow> vn_device v w; on_hw (d_ioctl d op data) w }"

definition dev_gettype :: "nat \<Rightarrow> 'd dev_world \<Rightarrow> (nat kresult \<times> 'd dev_world) option" where
  "dev_gettype v w = do { d \<leftarrow> vn_device v w; Some (Inr (if d_blocks d > 0 then S_IFBLK else S_IFCHR), w) }"

text \<open>The fields that \<open>dev_stat\<close> sets; the product is computed in 32 bits.\<close>

record devstat =
  ds_mode :: nat
  ds_size :: nat
  ds_blksize :: nat
  ds_nlink :: nat
  ds_blocks :: nat
  ds_dev :: nat
  ds_rdev :: nat

definition dev_stat :: "nat \<Rightarrow> 'd dev_world \<Rightarrow> devstat kresult option" where
  "dev_stat v w = do {
     d \<leftarrow> vn_device v w;
     let (size, blksize) = (if d_blocks d > 0 then (wrap32 (d_blocks d * d_blocksize d), d_blocksize d) else (0, 0));
     vn \<leftarrow> dw_vnodes w v;
     vnode_check vn ''gettype'';
     (result, w) \<leftarrow> dev_gettype v w;
     Some (case result of
        Inl e \<Rightarrow> Inl e
      | Inr mode \<Rightarrow> Inr \<lparr>ds_mode = mode OR 0x180, ds_size = size, ds_blksize = blksize, ds_nlink = 1,
          ds_blocks = d_blocks d, ds_dev = 0, ds_rdev = d_devnumber d\<rparr>) }"

definition dev_tryseek :: "nat \<Rightarrow> int \<Rightarrow> 'd dev_world \<Rightarrow> unit kresult option" where
  "dev_tryseek v pos w = do {
     d \<leftarrow> vn_device v w;
     if d_blocks d > 0 then do {
       kassert (d_blocksize d \<noteq> 0);
       Some (if pos mod int (d_blocksize d) \<noteq> 0 then Inl EINVAL
             else if pos < 0 then Inl EINVAL
             else if pos div int (d_blocksize d) \<ge> int (d_blocks d) then Inl EINVAL
             else Inr ()) }
     else Some (Inl ESPIPE) }"

definition null_fsync :: "nat \<Rightarrow> 'd dev_world \<Rightarrow> (unit kresult \<times> 'd dev_world) option" where
  "null_fsync v w = Some (Inr (), w)"

definition dev_mmap :: "nat \<Rightarrow> 'd dev_world \<Rightarrow> (unit kresult \<times> 'd dev_world) option" where
  "dev_mmap v w = Some (Inl EUNIMP, w)"

definition dev_truncate :: "nat \<Rightarrow> nat \<Rightarrow> 'd dev_world \<Rightarrow> (unit kresult \<times> 'd dev_world) option" where
  "dev_truncate v len w = do {
     d \<leftarrow> vn_device v w;
     Some (if d_blocks d > 0 \<and> wrap32 (d_blocks d * d_blocksize d) = len then Inr () else Inl EINVAL, w) }"

definition dev_namefile :: "nat \<Rightarrow> uio \<Rightarrow> 'd dev_world \<Rightarrow> ((unit kresult \<times> uio) \<times> 'd dev_world) option" where
  "dev_namefile v u w = Some ((Inr (), u), w)"

definition null_creat :: "nat \<Rightarrow> string \<Rightarrow> bool \<Rightarrow> nat \<Rightarrow> 'd dev_world \<Rightarrow> (nat kresult \<times> 'd dev_world) option" where
  "null_creat v name excl mode w = Some (Inl ENOTDIR, w)"

definition null_mkdir :: "nat \<Rightarrow> string \<Rightarrow> nat \<Rightarrow> 'd dev_world \<Rightarrow> (unit kresult \<times> 'd dev_world) option" where
  "null_mkdir v name mode w = Some (Inl ENOTDIR, w)"

definition null_symlink :: "nat \<Rightarrow> string \<Rightarrow> string \<Rightarrow> 'd dev_world \<Rightarrow> (unit kresult \<times> 'd dev_world) option" where
  "null_symlink v contents name w = Some (Inl ENOTDIR, w)"

definition null_nameop :: "nat \<Rightarrow> string \<Rightarrow> 'd dev_world \<Rightarrow> (unit kresult \<times> 'd dev_world) option" where
  "null_nameop v name w = Some (Inl ENOTDIR, w)"

definition null_link :: "nat \<Rightarrow> string \<Rightarrow> nat \<Rightarrow> 'd dev_world \<Rightarrow> (unit kresult \<times> 'd dev_world) option" where
  "null_link v name file w = Some (Inl ENOTDIR, w)"

definition null_rename :: "nat \<Rightarrow> string \<Rightarrow> nat \<Rightarrow> string \<Rightarrow> 'd dev_world \<Rightarrow> (unit kresult \<times> 'd dev_world) option" where
  "null_rename v n1 v2 n2 w = Some (Inl ENOTDIR, w)"

definition dev_lookup :: "nat \<Rightarrow> string \<Rightarrow> 'd dev_world \<Rightarrow> (nat kresult \<times> 'd dev_world) option" where
  "dev_lookup dir pathname w =
     (if length pathname > 0 then Some (Inl ENOENT, w)
      else do {
        vn \<leftarrow> dw_vnodes w dir;
        Some (Inr dir, w\<lparr>dw_vnodes := (dw_vnodes w)(dir \<mapsto> vnode_incref vn)\<rparr>) })"

definition dev_lookparent :: "nat \<Rightarrow> string \<Rightarrow> nat \<Rightarrow> 'd dev_world \<Rightarrow> ((nat \<times> string) kresult \<times> 'd dev_world) option" where
  "dev_lookparent dir pathname buflen w = Some (Inl ENOTDIR, w)"

text \<open>\<open>dev_create_vnode\<close>, the vnode being allocated at \<open>p\<close>.\<close>

definition dev_create_vnode :: "nat \<Rightarrow> nat option \<Rightarrow> 'd dev_world \<Rightarrow> 'd dev_world" where
  "dev_create_vnode p dev w = w\<lparr>dw_vnodes := (dw_vnodes w)(p \<mapsto> vnode_init ()), dw_data := (dw_data w)(p := dev)\<rparr>"

text \<open>
  The table of operations. There is no file system in this world: no vnode has one, and the calls
  through \<open>struct fs\<close> cannot happen.
\<close>

definition dev_vnode_ops :: "('d dev_world, unit) vfs_ops" where
  "dev_vnode_ops = \<lparr>
     fs_sync = \<lambda>f w. None, fs_getvolname = \<lambda>f w. None, fs_getroot = \<lambda>f w. None, fs_unmount = \<lambda>f w. None,
     vn_get = dw_vnodes, vn_put = \<lambda>w p v. w\<lparr>dw_vnodes := (dw_vnodes w)(p \<mapsto> v)\<rparr>, vn_fs = \<lambda>p w. None,
     vn_newdev = dev_create_vnode,
     dev_setnum = \<lambda>d n w. w\<lparr>dw_devs := (dw_devs w)(d := map_option (\<lambda>dev. dev\<lparr>d_devnumber := n\<rparr>) (dw_devs w d))\<rparr>,
     vop_reclaim = dev_reclaim, vop_close = dev_close, vop_open = dev_open,
     vop_read = dev_read, vop_readlink = null_io, vop_write = dev_write, vop_gettype = dev_gettype,
     vop_trunc = dev_truncate, vop_namefile = dev_namefile, vop_creat = null_creat,
     vop_symlink = null_symlink, vop_mkdir = null_mkdir, vop_link = null_link,
     vop_remove = null_nameop, vop_rmdir = null_nameop, vop_rename = null_rename,
     vop_lookup = dev_lookup, vop_lookparent = dev_lookparent\<rparr>"

text \<open>\<open>devnull.c\<close>.\<close>

definition nullopen :: "u32 \<Rightarrow> 'd \<Rightarrow> (unit kresult \<times> 'd) option" where
  "nullopen flags h = Some (Inr (), h)"

definition nullclose :: "'d \<Rightarrow> (unit kresult \<times> 'd) option" where
  "nullclose h = Some (Inr (), h)"

definition nullio :: "uio \<Rightarrow> 'd \<Rightarrow> ((unit kresult \<times> uio) \<times> 'd) option" where
  "nullio u h = Some ((Inr (), if uio_rw u = UIO_WRITE then u\<lparr>uio_resid := 0\<rparr> else u), h)"

definition nullioctl :: "int \<Rightarrow> nat \<Rightarrow> 'd \<Rightarrow> (unit kresult \<times> 'd) option" where
  "nullioctl op data h = Some (Inl EINVAL, h)"

definition null_device :: "'d device" where
  "null_device = \<lparr>d_open = nullopen, d_close = nullclose, d_io = nullio, d_ioctl = nullioctl,
     d_blocks = 0, d_blocksize = 1, d_devnumber = 0\<rparr>"

subsection \<open>The null device\<close>

lemmas dev_vnode_ops_sel = dev_vnode_ops_def [THEN arg_cong, of vn_get, simplified] dev_vnode_ops_def [THEN arg_cong, of vn_put, simplified]
  dev_vnode_ops_def [THEN arg_cong, of vop_open, simplified] dev_vnode_ops_def [THEN arg_cong, of vop_close, simplified]
  dev_vnode_ops_def [THEN arg_cong, of vop_read, simplified] dev_vnode_ops_def [THEN arg_cong, of vop_write, simplified]
  dev_vnode_ops_def [THEN arg_cong, of vn_newdev, simplified] dev_vnode_ops_def [THEN arg_cong, of dev_setnum, simplified]
  dev_vnode_ops_def [THEN arg_cong, of fs_getvolname, simplified]

text \<open>The state after the set-up: one device, \<open>null:\<close>, whose vnode has one reference and is not open.\<close>

lemma boot_null:
  assumes boot: "vfs_bootstrap dev_vnode_ops m_arr m_lock (Some dev) m w = Some s0" and v: "da_vnode m = Some v"
    and d: "dw_devs w dev = Some null_device"
  shows "dw_vnodes (world s0) v = Some (vnode_init ())" "vn_device v (world s0) = Some (null_device\<lparr>d_devnumber := 1\<rparr>)"
    "array_elems (knowndevs s0) = [\<lparr>kd_name = ''null'', kd_rawname = None, kd_device = Some dev, kd_vnode = v, kd_fs = None\<rparr>]"
    "\<not> biglock_mine s0" "vfs_biglock_depth s0 = 0" "array_inv (knowndevs s0)"
proof -
  let ?kd = "\<lparr>kd_name = ''null'', kd_rawname = None, kd_device = Some dev, kd_vnode = v, kd_fs = None\<rparr>"
  let ?w = "dev_create_vnode v (Some dev) w"
  obtain a where a: "array_add (da_arr m) array_init ?kd = Some (Inr 0, a)" and
    s0: "s0 = \<lparr>knowndevs = a, biglock_mine = False, vfs_biglock_depth = 0, bootfs_vnode = None, p_cwd = None,
      world = dev_setnum dev_vnode_ops dev 1 ?w\<rparr>"
  proof -
    have "array_add (da_arr m) array_init ?kd = Some (Inl ENOMEM, array_init) \<or>
        (\<exists>a. array_add (da_arr m) array_init ?kd = Some (Inr 0, a))"
      using array_add_elems [OF array_init_inv(1), of "da_arr m" ?kd] by (auto simp: array_init_def)
    then show thesis using boot v that
      by (auto simp: vfs_bootstrap_def devnull_create_def vfs_adddev_def vfs_doadd_def doadd_enter_def array_create_def
          vfs_biglock_acquire_def vfs_biglock_release_def badnames_def array_num_def vfs_biglock_do_i_hold_def array_init_def
          Let_def dev_vnode_ops_sel split: if_splits)
  qed
  have e: "array_inv a" "array_elems a = [?kd]"
    using array_add_elems [OF array_init_inv(1), of "da_arr m" ?kd] a by (auto simp: array_init_def array_elems_def)
  show "dw_vnodes (world s0) v = Some (vnode_init ())" "vn_device v (world s0) = Some (null_device\<lparr>d_devnumber := 1\<rparr>)"
    "array_elems (knowndevs s0) = [?kd]" "\<not> biglock_mine s0" "vfs_biglock_depth s0 = 0" "array_inv (knowndevs s0)"
    using d e by (simp_all add: s0 dev_vnode_ops_sel dev_create_vnode_def vn_device_def)
qed

lemma lookup_null:
  assumes boot: "vfs_bootstrap dev_vnode_ops m_arr m_lock (Some dev) m w = Some s0" and v: "da_vnode m = Some v"
    and d: "dw_devs w dev = Some null_device"
  shows "vfs_lookup dev_vnode_ops ''null:'' s0 =
    Some (Inr v, s0\<lparr>world := (world s0)\<lparr>dw_vnodes := (dw_vnodes (world s0))(v \<mapsto> vnode_incref (vnode_init ()))\<rparr>\<rparr>)"
proof -
  note b = boot_null [OF boot v d]
  have vf: "vol_fixed dev_vnode_ops (\<lambda>_. None)" by (simp add: vol_fixed_def dev_vnode_ops_sel)
  obtain u where u: "da_vnode m = Some u" "vfs_ok (\<lambda>_. None) s0"
    "name_space (\<lambda>_. None) (array_elems (knowndevs s0)) = [''null'' \<mapsto> TDevice u]"
    by (rule vfs_bootstrap_ok [OF vf boot])
  have "vfs_ok (\<lambda>_. None) (vfs_biglock_acquire s0)" "biglock_mine (vfs_biglock_acquire s0)"
    using u(2) b(4,5) by (simp_all add: vfs_ok_def lock_ok_def vfs_biglock_acquire_def)
  from vfs_getroot_eq [OF vf this, of "''null''"]
  have g: "vfs_getroot dev_vnode_ops ''null'' (vfs_biglock_acquire s0) =
      Some (Inr v, (vfs_biglock_acquire s0)\<lparr>world := (world s0)\<lparr>dw_vnodes := (dw_vnodes (world s0))(v \<mapsto> vnode_incref (vnode_init ()))\<rparr>\<rparr>)"
    using u v b(1) by (simp add: reach_def vop_incref_def dev_vnode_ops_sel)
  have "path_split ''null:'' = (Device ''null'', [])" by code_simp
  then show ?thesis
    by (simp add: lookup_eq resolve_def with_biglock_def walk_lookup_def start_vnode_def g)
      (use b(4,5) in \<open>simp add: vfs_biglock_acquire_def vfs_biglock_release_def Let_def\<close>)
qed

text \<open>
  C31. The null device, from the path name down to the driver. Once the system is set up,
  opening \<open>null:\<close> for reading, writing or both succeeds; on the open vnode a read returns at
  once with nothing transferred (end of file) and a write takes everything, neither changing
  the system; and \<open>vfs_close\<close> gives back the very state before the open, reference and open
  counts included.
\<close>

theorem null_device_works:
  assumes "vfs_bootstrap dev_vnode_ops m_arr m_lock (Some dev) m w = Some s0" "da_vnode m = Some v" "dw_devs w dev = Some null_device"
    "flags \<in> {O_RDONLY, O_WRONLY, O_RDWR}"
  shows "\<exists>s1. vfs_open dev_vnode_ops ''null:'' flags mode s0 = Some (Inr v, s1) \<and>
    (\<forall>u. uio_rw u = UIO_READ \<longrightarrow> vop dev_vnode_ops v ''read'' (vop_read dev_vnode_ops v u) s1 = Some ((Inr (), u), s1)) \<and>
    (\<forall>u. uio_rw u = UIO_WRITE \<longrightarrow> vop dev_vnode_ops v ''write'' (vop_write dev_vnode_ops v u) s1 = Some ((Inr (), u\<lparr>uio_resid := 0\<rparr>), s1)) \<and>
    vfs_close dev_vnode_ops v s1 = Some s0"
proof -
  note b = boot_null [OF assms(1-3)]
  define s1 where "s1 = s0\<lparr>world := (world s0)\<lparr>dw_vnodes := (dw_vnodes (world s0))(v \<mapsto> \<lparr>vn_refcount = 2, vn_opencount = 1, vn_ops = Some ()\<rparr>)\<rparr>\<rparr>"
  have fl: "flags AND O_ACCMODE = flags" "flags AND O_CREAT = 0" "flags AND O_TRUNC = 0"
    "flags AND (O_CREAT OR O_TRUNC OR O_EXCL OR O_APPEND) = 0"
    using assms(4) by (auto simp: O_RDONLY_def O_WRONLY_def O_RDWR_def O_ACCMODE_def O_CREAT_def O_TRUNC_def O_EXCL_def O_APPEND_def)
  have "vfs_open dev_vnode_ops ''null:'' flags mode s0 = Some (Inr v, s1)"
    using assms(4) b(2) by (auto simp: vfs_open_def fl lookup_null [OF assms(1-3)] vop_def dev_vnode_ops_sel vnode_check_def
        vnode_incref_def vnode_incopen_def vnode_init_def dev_open_def vn_device_def on_hw_def null_device_def nullopen_def
        vop_incopen_def s1_def Let_def split: bind_splits)
  moreover have "vn_device v (world s1) = Some (null_device\<lparr>d_devnumber := 1\<rparr>)"
    using b(2) by (simp add: s1_def vn_device_def)
  moreover have "vfs_close dev_vnode_ops v s1 = Some s0"
    using b(1,2) by (auto simp: vfs_close_def vop_decopen_def vop_decref_def vnode_decopen_def vnode_decref_def dev_vnode_ops_sel
        vnode_check_def dev_close_def vn_device_def on_hw_def null_device_def nullclose_def s1_def vnode_init_def fun_upd_idem Let_def split: bind_splits)
  ultimately show ?thesis
    by (intro exI [of _ s1])
      (auto simp: vop_def dev_vnode_ops_sel vnode_check_def s1_def dev_read_def dev_write_def on_hw_def null_device_def nullio_def)
qed

text \<open>A machine with the null device and a second one, \<open>con:\<close>, that behaves like it.\<close>

definition example_mem :: "nat \<Rightarrow> doadd_mem" where
  "example_mem v = \<lparr>da_name = True, da_raw = True, da_vnode = Some v, da_kd = True,
     da_arr = Some (\<lambda>_. \<lparr>kd_name = [], kd_rawname = None, kd_device = None, kd_vnode = 0, kd_fs = None\<rparr>)\<rparr>"

definition example_world :: "unit dev_world" where
  "example_world = \<lparr>dw_vnodes = Map.empty, dw_data = \<lambda>_. None, dw_devs = [7 \<mapsto> null_device, 8 \<mapsto> null_device], dw_hw = ()\<rparr>"

lemma example_add:
  assumes "vfs_ok (\<lambda>_. None) s" "\<forall>kd \<in> set (array_elems (knowndevs s)). d \<notin> kd_names (\<lambda>_. None) kd"
  shows "\<exists>s'. vfs_adddev dev_vnode_ops (example_mem v) d dev False s = Some (Inr (), s')"
proof -
  have vf: "vol_fixed dev_vnode_ops (\<lambda>_. None)" by (simp add: vol_fixed_def dev_vnode_ops_sel)
  from vf assms(1) show ?thesis
  proof (cases rule: vfs_doadd_cases [where m = "example_mem v" and dname = d and mountable = False and dev = "Some dev" and fs = None])
    case (nomem e s')
    then show ?thesis using assms(2) by (auto simp: example_mem_def new_kd_def kd_names_eq)
  qed (auto simp: vfs_adddev_def)
qed

lemma example_boots:
  obtains s0 where "vfs_bootstrap dev_vnode_ops True True (Some 7) (example_mem 3) example_world = Some s0"
proof -
  let ?s = "\<lparr>knowndevs = array_init, biglock_mine = False, vfs_biglock_depth = 0, bootfs_vnode = None, p_cwd = None, world = example_world\<rparr>"
  have "vfs_ok (\<lambda>_. None) ?s" by (simp add: vfs_ok_def lock_ok_def devs_ok_def array_init_inv) (simp add: array_init_def)
  then obtain s' where "vfs_adddev dev_vnode_ops (example_mem 3) ''null'' 7 False ?s = Some (Inr (), s')"
    using example_add [of ?s "''null''" 3 7] by (auto simp: array_init_inv)
  then show thesis using that by (simp add: vfs_bootstrap_def devnull_create_def array_create_def)
qed

text \<open>Witness: a system set up with \<open>null:\<close>, opened for writing.\<close>

theorem null_device_works_witness:
  "\<exists>s0 s1. vfs_bootstrap dev_vnode_ops True True (Some 7) (example_mem 3) example_world = Some s0 \<and>
    vfs_open dev_vnode_ops ''null:'' O_WRONLY 0 s0 = Some (Inr 3, s1) \<and> vfs_close dev_vnode_ops 3 s1 = Some s0"
proof -
  obtain s0 where s0: "vfs_bootstrap dev_vnode_ops True True (Some 7) (example_mem 3) example_world = Some s0"
    by (rule example_boots)
  then show ?thesis using null_device_works [OF s0, of 3 O_WRONLY 0] by (auto simp: example_mem_def example_world_def)
qed

text \<open>Witness: \<open>con:\<close> is added after the set-up, and looked up.\<close>

theorem vfs_name_space_witness:
  "\<exists>s. vfs_lookup dev_vnode_ops ''con:'' s = with_biglock (reach dev_vnode_ops (Some (TDevice 4))) (s :: unit dev_world vfs) \<and>
    \<not> biglock_mine s \<and> vfs_biglock_depth s = 0"
proof -
  have vf: "vol_fixed dev_vnode_ops (\<lambda>_. None)" by (simp add: vol_fixed_def dev_vnode_ops_sel)
  obtain s0 where s0: "vfs_bootstrap dev_vnode_ops True True (Some 7) (example_mem 3) example_world = Some s0"
    by (rule example_boots)
  have v: "da_vnode (example_mem 3) = Some 3" by (simp add: example_mem_def)
  have d: "dw_devs example_world 7 = Some null_device" by (simp add: example_world_def)
  note b = boot_null [OF s0 v d]
  obtain u where ok: "vfs_ok (\<lambda>_. None) s0" by (rule vfs_bootstrap_ok [OF vf s0])
  obtain s1 where s1: "vfs_adddev dev_vnode_ops (example_mem 4) ''con'' 8 False s0 = Some (Inr (), s1)"
    using example_add [OF ok, of "''con''" 4 8] b(3) by (auto simp: kd_names_eq)
  have num: "a_num (knowndevs s0) < 2 ^ 29 - 1" using length_array_elems [OF b(6)] b(3) by simp
  have "vfs_runs dev_vnode_ops (\<lambda>_. None) s0 [NAdd ''con'' False 4] s1"
    by (rule vfs_runs.call [OF vfs_runs.start num, where c = "VAdddev (example_mem 4) ''con'' 8 False" and r = "Inr ()"])
      (use s1 in \<open>simp_all add: vfs_event_def example_mem_def\<close>)
  from vfs_name_space [OF vf s0 v this, of "''con''"] show ?thesis by (auto simp: sep_def)
qed

end
