(* ===== verification/Spec2Isabelle.thy ===== *)
theory Spec2Isabelle
  imports Kern_Spinlock Kern_Threadlist Kern_Synch Synch_Live Kern_Thread Vm_Addrspace Vm_Fault Vm_System Kern_Heap Kern_Bitmap Kern_Array Kern_Queue Kern_Copyinout Kern_Uio Dev_Lhd
    Sfs_Block Sfs_Inode Sfs_File Sfs_Trunc Sfs_Dir Sfs_Vnode Sfs_Fs Vfs_Device
begin

text \<open>
  A verification development for the OS/161 kernel of this repository (\<open>os161-1.99/kern\<close>).

  Conventions. A kernel function is a HOL function of the state it reads; it returns
  \<open>None\<close> where the C code has no defined result (a failed \<open>KASSERT\<close>, \<open>panic\<close>, an access out of
  bounds, a loop that does not end), and error codes are values of a sum type. The outcome of
  \<open>kmalloc\<close> is an argument of the function that calls it. The configuration is
  \<open>kern/conf/ASST3\<close>.

  Theories. \<open>OS161_Prelude\<close>: machine integers, assertions, blocks of memory, error codes.
  \<open>Kern_Bitmap\<close>: \<open>kern/lib/bitmap.c\<close>. \<open>Kern_Array\<close>: \<open>kern/lib/array.c\<close>.
  \<open>Kern_Queue\<close>: \<open>kern/lib/queue.c\<close>. \<open>Kern_Copyinout\<close>: \<open>kern/vm/copyinout.c\<close>.
  \<open>Kern_Spinlock\<close>: \<open>kern/thread/spl.c\<close>, \<open>spinlock.c\<close>. \<open>Kern_Threadlist\<close>: \<open>threadlist.c\<close>.
  \<open>Kern_Uio\<close>: \<open>kern/lib/uio.c\<close>. \<open>Dev_Lhd\<close>: \<open>kern/dev/lamebus/lhd.c\<close>.
  \<open>Sfs_Block\<close>: \<open>kern/fs/sfs/sfs_io.c\<close> and the on-disk format. \<open>Sfs_Inode\<close>, \<open>Sfs_File\<close>: block
  allocation, block map and file I/O of \<open>kern/fs/sfs/sfs_vnode.c\<close>; \<open>Sfs_Trunc\<close>: truncation;
  \<open>Sfs_Dir\<close>: directories; \<open>Sfs_Vnode\<close>: the vnode operations; \<open>Sfs_Fs\<close>: volumes (\<open>sfs_fs.c\<close>). \<open>Vfs_Vnode\<close>:
  \<open>kern/vfs/vnode.c\<close>.
\<close>

end
